(* ===== verification/Prelude.thy ===== *)
theory Prelude
  imports Main "HOL-Library.Word"
begin

text \<open>
  Shared vocabulary of the development: the C++ integer types as fixed-width words, the
  collections of rewrite rules the component theories extend, and the generic facts on words,
  lists and numbers that several components use.
\<close>

unbundle bit_operations_syntax

subsection \<open>Types\<close>

type_synonym u8 = "8 word"
type_synonym u16 = "16 word"
type_synonym u32 = "32 word"
type_synonym u64 = "64 word"

text \<open>
  Undefined behaviour of C++ (a shift past the width, a division by zero, \<open>__builtin_clz\<close> of
  zero) is the value \<open>None\<close> of an option.
\<close>

subsection \<open>Collections of rules\<close>

named_theorems inv_intros \<open>facts that an operation keeps an invariant\<close>
named_theorems word_nat \<open>rules that move word goals to natural numbers\<close>

subsection \<open>Words\<close>

lemma unat_bound: "unat w < 2 ^ LENGTH('a)" for w :: "'a::len word"
  by (rule unsigned_less)

lemma unat_less_64 [simp]: "unat (w :: u64) < 18446744073709551616"
  using unat_bound [of w] by simp

lemma unat_less_32 [simp]: "unat (w :: u32) < 4294967296"
  using unat_bound [of w] by simp

lemma bit_word_nat [word_nat]: "bit w n \<longleftrightarrow> odd (unat w div 2 ^ n)" for w :: "'a::len word"
proof -
  have "bit w n \<longleftrightarrow> bit (unat w) n"
    by (simp add: bit_unsigned_iff)
  then show ?thesis by (simp add: bit_iff_odd)
qed

lemma unat_push_bit [word_nat]:
  "unat (push_bit k w) = (unat w * 2 ^ k) mod 2 ^ LENGTH('a)" for w :: "'a::len word"
  by (simp add: unsigned_push_bit_eq take_bit_nat_def push_bit_nat_def)

lemma unat_drop_bit [word_nat]: "unat (drop_bit k w) = unat w div 2 ^ k" for w :: "'a::len word"
  by (simp add: unat_drop_bit_eq drop_bit_nat_def)

lemma unat_and_mask [word_nat]: "unat (w AND mask k) = unat w mod 2 ^ k" for w :: "'a::len word"
  by (simp add: take_bit_eq_mask [symmetric] unsigned_take_bit_eq take_bit_nat_def)

lemma word_eq_unatI: "unat a = unat b \<Longrightarrow> a = b" for a b :: "'a::len word"
  by (simp add: word_unat_eq_iff)

lemma unat_pow2 [word_nat]: "k < LENGTH('a) \<Longrightarrow> unat (2 ^ k :: 'a::len word) = 2 ^ k"
  using unat_push_bit [of k "1 :: 'a word"] by (simp add: push_bit_eq_mult)

lemma unat_and_pow2_minus_one:
  "k < LENGTH('a) \<Longrightarrow> unat (w AND (2 ^ k - 1)) = unat w mod 2 ^ k" for w :: "'a::len word"
  using unat_and_mask [of w k] by (simp add: mask_eq_decr_exp)

lemma unat_add_mod_pow2:
  fixes a b :: "'a::len word"
  assumes "k \<le> LENGTH('a)"
  shows "unat (a + b) mod 2 ^ k = (unat a + unat b) mod 2 ^ k"
proof -
  have "(2 :: nat) ^ k dvd 2 ^ LENGTH('a)" using assms by (simp add: le_imp_power_dvd)
  then show ?thesis by (simp add: unat_word_ariths mod_mod_cancel)
qed

lemma unat_Suc_if_less: "unat a < unat b \<Longrightarrow> unat (a + 1) = Suc (unat a)" for a b :: "'a::len word"
proof -
  assume "unat a < unat b"
  with unat_bound [of b] have "Suc (unat a) < 2 ^ LENGTH('a)" by linarith
  then show ?thesis by (simp add: unat_word_ariths)
qed

subsection \<open>Powers of two\<close>

lemma odd_div_pow2_ge: "odd (x div 2 ^ n) \<Longrightarrow> 2 ^ n \<le> x" for x :: nat
  by (metis div_less even_zero not_le)

lemma even_div_pow2_less: "even (x div 2 ^ n) \<Longrightarrow> x < 2 ^ Suc n \<Longrightarrow> x < 2 ^ n" for x :: nat
proof -
  assume e: "even (x div 2 ^ n)" and "x < 2 ^ Suc n"
  then have "x div 2 ^ n < 2" by (simp add: less_mult_imp_div_less mult.commute)
  with e have "x div 2 ^ n = 0" by (cases "x div 2 ^ n") auto
  then show "x < 2 ^ n" by (simp add: div_eq_0_iff)
qed

subsection \<open>Signed integers\<close>

text \<open>The value of an integer stored in an \<open>int32_t\<close> and an \<open>int64_t\<close> (two's complement).\<close>

definition s32 :: "int \<Rightarrow> int" where "s32 x = signed_take_bit 31 x"
definition s64 :: "int \<Rightarrow> int" where "s64 x = signed_take_bit 63 x"

lemma s32_id: "- (2 ^ 31) \<le> x \<Longrightarrow> x < 2 ^ 31 \<Longrightarrow> s32 x = x"
  by (simp add: s32_def signed_take_bit_int_eq_self)

lemma s64_id: "- (2 ^ 63) \<le> x \<Longrightarrow> x < 2 ^ 63 \<Longrightarrow> s64 x = x"
  by (simp add: s64_def signed_take_bit_int_eq_self)

lemma int_div_bounds:
  fixes v :: int
  assumes "0 < d"
  shows "v div d * d \<le> v" "v < (v div d + 1) * d" "v < k * d \<Longrightarrow> v div d < k" "k * d \<le> v \<Longrightarrow> k \<le> v div d"
proof -
  have e: "v div d * d + v mod d = v" "0 \<le> v mod d" "v mod d < d" using assms by auto
  show 1: "v div d * d \<le> v" using e by linarith
  have "(v div d + 1) * d = v div d * d + d" by (simp add: distrib_right)
  with e show 2: "v < (v div d + 1) * d" by linarith
  show "v div d < k" if "v < k * d"
  proof (rule ccontr)
    assume "\<not> v div d < k"
    then have "k * d \<le> v div d * d" using assms by (intro mult_right_mono) auto
    with that 1 show False by linarith
  qed
  show "k \<le> v div d" if "k * d \<le> v"
  proof (rule ccontr)
    assume "\<not> k \<le> v div d"
    then have "(v div d + 1) * d \<le> k * d" using assms by (intro mult_right_mono) auto
    with that 2 show False by linarith
  qed
qed

lemma count_distinct: "distinct xs \<Longrightarrow> count_list xs x = (if x \<in> set xs then 1 else 0)"
  by (induction xs) auto

end
