(* ===== verification/Numeric.thy ===== *)
theory Numeric
  imports Prelude
begin

text \<open>
  The arithmetic helpers of \<open>src/toolbox/util\<close> (\<open>Bits.hpp\<close>, \<open>Math.hpp\<close>, \<open>Utility.hpp/.cpp\<close>),
  the size constants of \<open>sys/Limits.hpp\<close> and the byte swaps of \<open>net/Endian.hpp\<close>.
  \<open>std::size_t\<close> and \<open>unsigned long\<close> are 64 bit words, \<open>unsigned\<close> is a 32 bit word.
\<close>

subsection \<open>Bits: count leading zeros\<close>

text \<open>\<open>__builtin_clz\<close>: the number of zero bits above the highest set bit, undefined for zero.\<close>

fun clz_from :: "nat \<Rightarrow> 'a::len word \<Rightarrow> nat" where
  "clz_from 0 w = 0"
| "clz_from (Suc n) w = (if bit w n then 0 else Suc (clz_from n w))"

definition clz :: "'a::len word \<Rightarrow> nat option" where
  "clz i = (if i = 0 then None else Some (clz_from LENGTH('a) i))"

lemma clz_from_bounds:
  assumes "unat w < 2 ^ n" and "w \<noteq> 0"
  shows "clz_from n w < n \<and> 2 ^ (n - 1 - clz_from n w) \<le> unat w \<and> unat w < 2 ^ (n - clz_from n w)"
  using assms(1)
proof (induction n)
  case 0
  with assms(2) show ?case by (simp add: unat_eq_0)
next
  case (Suc n)
  show ?case
  proof (cases "bit w n")
    case True
    then have o: "odd (unat w div 2 ^ n)" using bit_word_nat [of w n] by blast
    have "2 ^ n \<le> unat w" using odd_div_pow2_ge [OF o] .
    with True Suc.prems show ?thesis by simp
  next
    case False
    then have e: "even (unat w div 2 ^ n)" using bit_word_nat [of w n] by blast
    have "unat w < 2 ^ n" using even_div_pow2_less [OF e Suc.prems] .
    with Suc.IH False show ?thesis by simp
  qed
qed

lemma clz_bounds:
  assumes "clz (w :: 'a::len word) = Some c"
  shows "c < LENGTH('a) \<and> 2 ^ (LENGTH('a) - 1 - c) \<le> unat w \<and> unat w < 2 ^ (LENGTH('a) - c)"
  using assms clz_from_bounds [OF unat_bound [of w]] by (auto simp: clz_def split: if_splits)

lemma clz_Some: "w \<noteq> 0 \<Longrightarrow> \<exists>c. clz w = Some c"
  by (simp add: clz_def)

subsection \<open>Math: powers of two\<close>

definition is_pow2 :: "u64 \<Rightarrow> bool" where
  "is_pow2 n \<longleftrightarrow> n > 0 \<and> n AND (n - 1) = 0"

text \<open>
  The literal \<open>1\<close> in \<open>1 << k\<close> is an \<open>int\<close>: in C++17 the shift is defined for \<open>k < 32\<close> (for
  \<open>k = 31\<close> the value is the most negative \<open>int\<close>) and undefined beyond.
\<close>

definition shl_one :: "nat \<Rightarrow> u32 option" where
  "shl_one k = (if k < 32 then Some (push_bit k 1) else None)"

definition next_pow2_uint :: "u32 \<Rightarrow> u32 option" where
  "next_pow2_uint n =
     (if n \<le> 1 then Some 1
      else case clz (n - 1) of None \<Rightarrow> None | Some c \<Rightarrow> shl_one (32 - c))"

text \<open>The \<open>int\<close> result of the conditional is sign-extended to \<open>unsigned long\<close>.\<close>

definition next_pow2_ulong :: "u64 \<Rightarrow> u64 option" where
  "next_pow2_ulong n =
     (if n \<le> 1 then Some 1
      else case clz (n - 1) of None \<Rightarrow> None | Some c \<Rightarrow> map_option scast (shl_one (64 - c)))"

definition ceil_pow2 :: "nat \<Rightarrow> u64 \<Rightarrow> u64" where
  "ceil_pow2 BitsN sz = push_bit BitsN (drop_bit BitsN (sz + (2 ^ BitsN - 1)))"

definition ceil_div :: "u64 \<Rightarrow> u64 \<Rightarrow> u64 option" where
  "ceil_div dividend divisor =
     (if divisor = 0 then None else Some ((dividend - 1) div divisor + 1))"

definition CacheLineBits :: nat where "CacheLineBits = 6"
definition CacheLineSize :: nat where "CacheLineSize = 64"
definition PageBits :: nat where "PageBits = 12"
definition PageSize :: nat where "PageSize = 4096"
definition MaxMsgSize :: nat where "MaxMsgSize = 1400"

definition ceil_cache_line :: "u64 \<Rightarrow> u64" where
  "ceil_cache_line sz = ceil_pow2 CacheLineBits sz"

definition ceil_page :: "u64 \<Rightarrow> u64" where
  "ceil_page sz = ceil_pow2 PageBits sz"

lemma and_minus_one_zero_iff:
  fixes n :: "'a::len word"
  assumes "n \<noteq> 0"
  shows "n AND (n - 1) = 0 \<longleftrightarrow> (\<exists>k < LENGTH('a). n = 2 ^ k)"
proof
  assume "\<exists>k < LENGTH('a). n = 2 ^ k"
  then obtain k where k: "k < LENGTH('a)" "n = 2 ^ k" by blast
  then have "unat (n AND (n - 1)) = 0"
    by (simp add: unat_and_pow2_minus_one unat_pow2)
  then show "n AND (n - 1) = 0" by (simp add: unat_eq_0)
next
  assume z: "n AND (n - 1) = 0"
  define c where "c = clz_from LENGTH('a) n"
  define k where "k = LENGTH('a) - 1 - c"
  have b: "c < LENGTH('a)" "2 ^ k \<le> unat n" "unat n < 2 ^ Suc k"
    using clz_from_bounds [OF unat_bound [of n] assms] unfolding k_def c_def
    by (auto simp: Suc_diff_Suc)
  then have kl: "k < LENGTH('a)" by (simp add: k_def)
  have "unat n = 2 ^ k"
  proof (rule ccontr)
    assume "unat n \<noteq> 2 ^ k"
    with b have gt: "2 ^ k \<le> unat n - 1" by linarith
    have "unat n div 2 ^ k = 1" "(unat n - 1) div 2 ^ k = 1"
      using b gt by (auto intro!: div_nat_eqI)
    then have "bit n k" "bit (n - 1) k"
      using assms by (simp_all add: bit_word_nat unat_minus_one)
    then have "bit (n AND (n - 1)) k" by (simp add: bit_and_iff)
    with z show False by simp
  qed
  then have "n = 2 ^ k" by (intro word_eq_unatI) (simp add: unat_pow2 kl)
  with kl show "\<exists>k < LENGTH('a). n = 2 ^ k" by blast
qed

lemma is_pow2_iff: "is_pow2 n \<longleftrightarrow> (\<exists>k < 64. n = 2 ^ k)"
  using and_minus_one_zero_iff [of n]
  by (cases "n = 0") (auto simp: is_pow2_def word_gt_0)

lemma clz_pred_exponent:
  fixes n :: "'a::len word"
  assumes "n > 1" and "clz (n - 1) = Some c"
  defines "k \<equiv> LENGTH('a) - c"
  shows "0 < k \<and> k \<le> LENGTH('a) \<and> 2 ^ (k - 1) < unat n \<and> unat n \<le> 2 ^ k"
proof -
  from assms(1) have "n \<noteq> 0" by auto
  then have u: "unat (n - 1) = unat n - 1" by (rule unat_minus_one)
  have n0: "unat n \<noteq> 0" using \<open>n \<noteq> 0\<close> by (simp add: unat_eq_0)
  from clz_bounds [OF assms(2)] n0 show ?thesis
    unfolding u k_def by (auto simp: diff_right_commute)
qed

lemma unat_shl_one: "k < 32 \<Longrightarrow> \<exists>r. shl_one k = Some r \<and> unat r = 2 ^ k"
  by (auto simp: shl_one_def unat_pow2 push_bit_eq_mult)

lemma next_pow2_exponent:
  fixes n :: u64
  assumes "n > 1"
  obtains k where "0 < k" and "k \<le> 64" and "2 ^ (k - 1) < unat n" and "unat n \<le> 2 ^ k"
    and "next_pow2_ulong n = map_option scast (shl_one k)"
proof -
  from assms have "n - 1 \<noteq> 0" by auto
  then obtain c where c: "clz (n - 1) = Some c" using clz_Some by blast
  from clz_pred_exponent [OF assms c] c assms show thesis
    by (intro that [of "64 - c"]) (auto simp: next_pow2_ulong_def)
qed

lemma scast_pow2_small:
  assumes "k < 31"
  shows "scast (2 ^ k :: u32) = (2 ^ k :: u64)"
proof -
  have "(2 :: int) ^ k < 2 ^ 31" using assms by (intro power_strict_increasing) auto
  moreover have "- (2 ^ 31) \<le> (2 :: int) ^ k" by (rule order_trans [of _ 0]) auto
  ultimately have "signed_take_bit 31 ((2 :: int) ^ k) = 2 ^ k"
    by (intro signed_take_bit_int_eq_self)
  then have "sint (2 ^ k :: u32) = 2 ^ k"
    using assms by (simp add: sint_uint uint_nat unat_pow2)
  then show ?thesis by (simp add: scast_eq)
qed

lemma pow2_between:
  assumes "(2::nat) ^ (k - 1) < m" and "m \<le> 2 ^ j" and "0 < k"
  shows "k \<le> j"
proof (rule ccontr)
  assume "\<not> k \<le> j"
  then have "(2::nat) ^ j \<le> 2 ^ (k - 1)" by (intro power_increasing) auto
  with assms show False by linarith
qed

lemma next_pow2_small:
  assumes "n \<le> 2 ^ 30"
  obtains k where "k \<le> 30" and "next_pow2_ulong n = Some (2 ^ k)" and "unat n \<le> 2 ^ k"
    and "\<And>j. unat n \<le> 2 ^ j \<Longrightarrow> k \<le> j"
proof (cases "n \<le> 1")
  case True
  then show thesis
    by (intro that [of 0]) (simp_all add: next_pow2_ulong_def word_le_nat_alt)
next
  case False
  then have "n > 1" by simp
  from next_pow2_exponent [OF this] obtain k
    where k: "0 < k" "2 ^ (k - 1) < unat n" "unat n \<le> 2 ^ k"
      "next_pow2_ulong n = map_option scast (shl_one k)" by blast
  from assms have "unat n \<le> 2 ^ 30" by (simp add: word_le_nat_alt)
  from pow2_between [OF k(2) this k(1)] have k30: "k \<le> 30" .
  then have "next_pow2_ulong n = Some (2 ^ k)"
    using k(4) by (simp add: shl_one_def push_bit_eq_mult scast_pow2_small)
  with k30 k pow2_between [OF k(2) _ k(1)] show thesis by (intro that [of k])
qed

text \<open>
  \<open>next_pow2\<close> on \<open>unsigned long\<close> returns the least power of two that is not below its
  argument, for every argument up to \<open>2 ^ 30\<close>.
\<close>

theorem next_pow2_ulong_least:
  assumes "n \<le> 2 ^ 30"
  shows "\<exists>r. next_pow2_ulong n = Some r \<and> is_pow2 r \<and> n \<le> r \<and>
             (\<forall>p. is_pow2 p \<and> n \<le> p \<longrightarrow> r \<le> p)"
proof -
  from next_pow2_small [OF assms] obtain k where k: "k \<le> 30" "next_pow2_ulong n = Some (2 ^ k)"
    "unat n \<le> 2 ^ k" "\<And>j. unat n \<le> 2 ^ j \<Longrightarrow> k \<le> j" by blast
  have "2 ^ k \<le> p" if "is_pow2 p" "n \<le> p" for p
  proof -
    from that(1) obtain j where j: "j < 64" "p = 2 ^ j" by (auto simp: is_pow2_iff)
    with that(2) have "unat n \<le> 2 ^ j" by (simp add: word_le_nat_alt unat_pow2)
    with k j show ?thesis by (simp add: word_le_nat_alt unat_pow2)
  qed
  moreover have "is_pow2 (2 ^ k)" using k(1) by (auto simp: is_pow2_iff intro!: exI [of _ k])
  moreover have "n \<le> 2 ^ k" using k by (simp add: word_le_nat_alt unat_pow2)
  ultimately show ?thesis using k(2) by blast
qed

theorem next_pow2_ulong_least_witness:
  "(5::u64) \<le> 2 ^ 30 \<and> (\<exists>r. next_pow2_ulong 5 = Some r \<and> is_pow2 r \<and> 5 \<le> r \<and>
             (\<forall>p. is_pow2 p \<and> 5 \<le> p \<longrightarrow> r \<le> p))"
  using next_pow2_ulong_least [of 5] by simp

text \<open>
  Beyond \<open>2 ^ 30\<close> the \<open>unsigned long\<close> overload of \<open>next_pow2\<close> goes wrong, because the literal \<open>1\<close>
  that it shifts is an \<open>int\<close>: up to \<open>2 ^ 31\<close> the result is the sign-extended \<open>INT_MIN\<close>, above it the shift is
  undefined.
\<close>

theorem next_pow2_ulong_overflow:
  "(2 ^ 30 < n \<and> n \<le> 2 ^ 31 \<longrightarrow> next_pow2_ulong n = Some 0xFFFFFFFF80000000) \<and>
   (2 ^ 31 < n \<longrightarrow> next_pow2_ulong n = None)"
proof (cases "n > 2 ^ 30")
  case False
  then show ?thesis by (auto simp: word_less_nat_alt)
next
  case True
  then have "n > 1" by (simp add: word_less_nat_alt)
  from next_pow2_exponent [OF this] obtain k
    where k: "0 < k" "2 ^ (k - 1) < unat n" "unat n \<le> 2 ^ k"
      "next_pow2_ulong n = map_option scast (shl_one k)" by blast
  from True have "(2::nat) ^ 30 < unat n" by (simp add: word_less_nat_alt)
  with k(3) have "(2::nat) ^ 30 < 2 ^ k" by linarith
  then have k31: "31 \<le> k" using power_less_imp_less_exp [of "2::nat" 30 k] by simp
  show ?thesis
  proof (cases "n \<le> 2 ^ 31")
    case T: True
    then have "unat n \<le> 2 ^ 31" by (simp add: word_le_nat_alt)
    from pow2_between [OF k(2) this k(1)] k31 have "k = 31" by simp
    with k(4) T show ?thesis by (simp add: shl_one_def)
  next
    case F: False
    then have "(2::nat) ^ 31 < unat n" by (simp add: word_le_nat_alt)
    with k(3) have "(2::nat) ^ 31 < 2 ^ k" by linarith
    then have "32 \<le> k" using power_less_imp_less_exp [of "2::nat" 31 k] by simp
    with k(4) F show ?thesis by (simp add: shl_one_def)
  qed
qed

theorem next_pow2_ulong_overflow_witness:
  "next_pow2_ulong 0x50000000 = Some 0xFFFFFFFF80000000 \<and> next_pow2_ulong 0x80000001 = None"
  using next_pow2_ulong_overflow [of "0x50000000"] next_pow2_ulong_overflow [of "0x80000001"] by simp

text \<open>
  \<open>ceil_pow2<BitsN>\<close> rounds a size up to the next multiple of \<open>2 ^ BitsN\<close>: the result is a multiple,
  not below the size, and less than one unit above it, unless the sum wraps around.
\<close>

theorem ceil_pow2_rounds_up:
  assumes "BitsN < 31" and "unat sz \<le> 2 ^ 64 - 2 ^ BitsN"
  shows "2 ^ BitsN dvd unat (ceil_pow2 BitsN sz) \<and> unat sz \<le> unat (ceil_pow2 BitsN sz)
         \<and> unat (ceil_pow2 BitsN sz) < unat sz + 2 ^ BitsN"
proof -
  let ?B = "2 ^ BitsN :: nat"
  have B: "0 < ?B" "?B < 2 ^ 31"
    using assms(1) power_strict_increasing [of BitsN 31 "2::nat"] by auto
  have "unat (2 ^ BitsN - 1 :: u64) = ?B - 1"
    using assms(1) by (subst unat_minus_one) (auto simp: unat_pow2 word_eq_unatI unat_eq_0 [symmetric])
  then have s: "unat (sz + (2 ^ BitsN - 1)) = unat sz + (?B - 1)"
    using assms(2) B by (simp add: unat_word_ariths)
  let ?q = "(unat sz + (?B - 1)) div ?B"
  have "?q * ?B \<le> unat sz + (?B - 1)" by simp
  also have "\<dots> < 2 ^ 64" using assms(2) B by simp
  finally have "unat (ceil_pow2 BitsN sz) = ?q * ?B"
    unfolding ceil_pow2_def by (simp add: unat_push_bit unat_drop_bit s)
  moreover have "unat sz \<le> ?q * ?B" 
    using div_mult_mod_eq [of "unat sz + (?B - 1)" ?B] mod_less_divisor [OF B(1), of "unat sz + (?B - 1)"]
    by linarith
  moreover have "?q * ?B < unat sz + ?B" using \<open>?q * ?B \<le> unat sz + (?B - 1)\<close> B by linarith
  ultimately show ?thesis by simp
qed

theorem ceil_pow2_rounds_up_witness:
  "2 ^ 6 dvd unat (ceil_pow2 6 100) \<and> 100 \<le> unat (ceil_pow2 6 100)
   \<and> unat (ceil_pow2 6 100) < 100 + 2 ^ 6"
  using ceil_pow2_rounds_up [of 6 100] by simp

text \<open>
  \<open>ceil(dividend, divisor)\<close> is the ceiling of the quotient for a positive dividend and divisor.
\<close>

theorem ceil_div_spec:
  assumes "0 < dividend" and "0 < divisor"
  shows "\<exists>r. ceil_div dividend divisor = Some r \<and>
    (unat r - 1) * unat divisor < unat dividend \<and> unat dividend \<le> unat r * unat divisor"
proof -
  let ?a = "unat dividend" and ?b = "unat divisor"
  from assms have pos: "0 < ?a" "0 < ?b" by (simp_all add: word_gt_0 unat_gt_0)
  let ?q = "(?a - 1) div ?b"
  have "?q \<le> ?a - 1" by simp
  moreover have "?a < 2 ^ 64" using unat_bound [of dividend] by simp
  ultimately have "?q + 1 < 2 ^ 64" using pos by linarith
  then have "unat ((dividend - 1) div divisor + 1) = ?q + 1"
    using assms by (simp add: unat_word_ariths unat_div unat_minus_one word_gt_0)
  moreover have "?q * ?b \<le> ?a - 1" by simp
  then have "?q * ?b < ?a" using pos by linarith
  moreover have "?a - 1 < (?q + 1) * ?b" using pos by (simp add: dividend_less_times_div mult.commute)
  ultimately show ?thesis using assms pos by (auto simp: ceil_div_def word_gt_0)
qed

theorem ceil_div_spec_witness:
  "\<exists>r. ceil_div 7 2 = Some r \<and> (unat r - 1) * 2 < 7 \<and> 7 \<le> unat r * 2"
  using ceil_div_spec [of 7 2] by simp

text \<open>
  \<open>ceil\<close> of a zero dividend is not zero: \<open>dividend - 1\<close> wraps around.
\<close>

theorem ceil_div_zero:
  "ceil_div 0 2 = Some 0x8000000000000000"
  by (simp add: ceil_div_def)

subsection \<open>Utility: digit counts and number parsing\<close>

definition dec_digits :: "int \<Rightarrow> nat" where
  "dec_digits i =
     (if i < 10000000000 then
        if i < 100000 then
          if i < 100 then (if i < 10 then 1 else 2)
          else if i < 1000 then 3 else if i < 10000 then 4 else 5
        else if i < 10000000 then (if i < 1000000 then 6 else 7)
        else if i < 100000000 then 8 else if i < 1000000000 then 9 else 10
      else if i < 1000000000000000 then
        if i < 1000000000000 then (if i < 100000000000 then 11 else 12)
        else if i < 10000000000000 then 13 else if i < 100000000000000 then 14 else 15
      else if i < 100000000000000000 then (if i < 10000000000000000 then 16 else 17)
      else if i < 1000000000000000000 then 18 else 19)"

definition hex_digits :: "'a::len word \<Rightarrow> nat option" where
  "hex_digits i =
     (case clz (i OR 1) of None \<Rightarrow> None
      | Some c \<Rightarrow> Some (1 + (LENGTH('a) - c - 1) div 4))"

text \<open>
  \<open>dec_digits\<close> is the number of decimal digits of a non-negative 64 bit integer.
\<close>

theorem dec_digits_exact:
  assumes "0 \<le> i" and "i < 2 ^ 63"
  shows "i < 10 ^ dec_digits i \<and> (i = 0 \<or> 10 ^ (dec_digits i - 1) \<le> i)"
  using assms by (auto simp: dec_digits_def)

theorem dec_digits_exact_witness:
  "(12345::int) < 10 ^ dec_digits 12345 \<and> 10 ^ (dec_digits 12345 - 1) \<le> (12345::int)"
  using dec_digits_exact [of 12345] by simp

lemma or_one_nonzero: "i OR 1 \<noteq> 0" for i :: "'a::len word"
proof -
  have "bit (i OR 1) 0" by (simp add: bit_or_iff)
  then show ?thesis by auto
qed

lemma unat_or_one: "unat (i OR 1) = unat i + of_bool (even (unat i))" for i :: "'a::len word"
  by (subst unsigned_or_eq) (simp only: unsigned_1 or_one_eq)

text \<open>
  \<open>hex_digits\<close> is the number of hexadecimal digits of an integer of any width, and is defined for zero.
\<close>

theorem hex_digits_exact:
  "\<exists>d. hex_digits i = Some d \<and> unat i < 16 ^ d \<and> (i = 0 \<or> 16 ^ (d - 1) \<le> unat i)"
  for i :: "'a::len word"
proof -
  obtain c where c: "clz (i OR 1) = Some c" using clz_Some or_one_nonzero by blast
  define e where "e = LENGTH('a) - c - 1"
  define d where "d = 1 + e div 4"
  let ?m = "unat (i OR 1)"
  have b: "2 ^ e \<le> ?m" "?m < 2 ^ Suc e"
    using clz_bounds [OF c] by (auto simp: e_def Suc_diff_Suc diff_right_commute)
  have "(2::nat) ^ Suc e \<le> 2 ^ (4 * d)" by (rule power_increasing) (auto simp: d_def)
  with b(2) have up: "?m < 16 ^ d" by (simp add: power_mult)
  have "(2::nat) ^ (4 * (d - 1)) \<le> 2 ^ e" by (rule power_increasing) (auto simp: d_def)
  then have lo: "16 ^ (d - 1) \<le> (2::nat) ^ e" by (simp add: power_mult)
  have "16 ^ (d - 1) \<le> unat i" if "i \<noteq> 0"
  proof (cases "e = 0")
    case True
    then show ?thesis using that by (simp add: d_def unat_gt_0 Suc_le_eq)
  next
    case False
    then have "even ((2::nat) ^ e)" by simp
    moreover have "2 ^ e \<noteq> unat i + 1" if "even (unat i)"
      using that \<open>even ((2::nat) ^ e)\<close> by (metis even_add odd_one)
    ultimately have "2 ^ e \<le> unat i"
      using b(1) by (cases "even (unat i)") (auto simp: unat_or_one le_Suc_eq)
    with lo show ?thesis by linarith
  qed
  moreover have "unat i \<le> ?m" by (simp add: unat_or_one)
  ultimately show ?thesis using c up
    by (auto simp: hex_digits_def d_def e_def intro: le_less_trans)
qed

subsection \<open>Endian: byte swaps\<close>

definition bswap16 :: "u16 \<Rightarrow> u16" where
  "bswap16 n = ucast (push_bit 8 (ucast n :: u32) OR drop_bit 8 (ucast n :: u32))"

definition bswap32 :: "u32 \<Rightarrow> u32" where
  "bswap32 n = drop_bit 24 n OR (drop_bit 8 n AND 0xff00) OR (push_bit 8 n AND 0xff0000)
     OR push_bit 24 n"

definition bswap64 :: "u64 \<Rightarrow> u64" where
  "bswap64 n = push_bit 32 (ucast (bswap32 (ucast n))) OR ucast (bswap32 (ucast (drop_bit 32 n)))"

definition byte_mirror :: "nat \<Rightarrow> nat \<Rightarrow> nat" where
  "byte_mirror L n = 8 * (L div 8 - 1 - n div 8) + n mod 8"

definition byte_at :: "nat \<Rightarrow> 'a::len word \<Rightarrow> u8" where
  "byte_at k w = ucast (drop_bit (8 * k) w)"

text \<open>
  What every \<open>bswap\<close> overload promises: bit \<open>n\<close> of the result is the bit at the mirrored byte.
\<close>

locale byte_swap =
  fixes bswap :: "'a::len word \<Rightarrow> 'a word"
  assumes width: "8 dvd LENGTH('a)"
    and bit_bswap: "n < LENGTH('a) \<Longrightarrow> bit (bswap w) n \<longleftrightarrow> bit w (byte_mirror LENGTH('a) n)"
begin

lemma byte_mirror_less: "n < LENGTH('a) \<Longrightarrow> byte_mirror LENGTH('a) n < LENGTH('a)"
  using width unfolding byte_mirror_def by (auto elim!: dvdE)

lemma byte_mirror_mirror: "n < LENGTH('a) \<Longrightarrow> byte_mirror LENGTH('a) (byte_mirror LENGTH('a) n) = n"
  using width unfolding byte_mirror_def by (auto elim!: dvdE)

lemma bswap_bswap: "bswap (bswap w) = w"
  by (rule bit_word_eqI) (simp add: bit_bswap byte_mirror_less byte_mirror_mirror)

lemma byte_at_bswap:
  assumes "k < LENGTH('a) div 8"
  shows "byte_at k (bswap w) = byte_at (LENGTH('a) div 8 - 1 - k) w"
proof (rule bit_word_eqI)
  fix n assume n: "n < LENGTH(8)"
  from assms width n have "8 * k + n < LENGTH('a)" by (auto elim!: dvdE)
  moreover from assms n have "byte_mirror LENGTH('a) (8 * k + n) = 8 * (LENGTH('a) div 8 - 1 - k) + n"
    by (simp add: byte_mirror_def)
  ultimately show "bit (byte_at k (bswap w)) n = bit (byte_at (LENGTH('a) div 8 - 1 - k) w) n"
    using n by (simp add: byte_at_def bit_ucast_iff bit_drop_bit_eq bit_bswap)
qed

end

lemma byte_mirror_split: "r < 8 \<Longrightarrow> byte_mirror L (8 * q + r) = 8 * (L div 8 - 1 - q) + r"
  by (simp add: byte_mirror_def)

lemma byte_split:
  fixes n :: nat
  assumes "n < 8 * N"
  obtains q r where "n = 8 * q + r" and "r < 8" and "q < N"
  using assms by (intro that [of "n div 8" "n mod 8"]) auto

lemma bit_bswap16: "n < 16 \<Longrightarrow> bit (bswap16 w) n \<longleftrightarrow> bit w (byte_mirror 16 n)"
proof -
  assume less: "n < 16"
  obtain q r where n: "n = 8 * q + r" and r: "r < 8" and "q < 2"
    by (rule byte_split [of n 2]) (use less in auto)
  from r have m: "byte_mirror 16 n = 8 * (1 - q) + r" by (simp add: n byte_mirror_split)
  from \<open>q < 2\<close> have "q = 0 \<or> q = 1" by auto
  then show ?thesis using r
    unfolding m by (auto simp: n bswap16_def bit_ucast_iff bit_or_iff bit_push_bit_iff
        bit_drop_bit_eq dest: bit_imp_le_length)
qed

lemma mask_ff00: "(0xff00 :: u32) = push_bit 8 (mask 8)" and mask_ff0000: "(0xff0000 :: u32) = push_bit 16 (mask 8)"
  by (simp_all add: mask_eq_exp_minus_1)

lemma bit_bswap32: "n < 32 \<Longrightarrow> bit (bswap32 w) n \<longleftrightarrow> bit w (byte_mirror 32 n)"
proof -
  assume less: "n < 32"
  obtain q r where n: "n = 8 * q + r" and r: "r < 8" and "q < 4"
    by (rule byte_split [of n 4]) (use less in auto)
  from r have m: "byte_mirror 32 n = 8 * (3 - q) + r" by (simp add: n byte_mirror_split)
  from \<open>q < 4\<close> have "q = 0 \<or> q = 1 \<or> q = 2 \<or> q = 3" by auto
  then show ?thesis using r
    unfolding m bswap32_def mask_ff00 mask_ff0000
    by (elim disjE) (auto simp: n bit_or_iff bit_and_iff bit_push_bit_iff
        bit_mask_iff bit_drop_bit_eq dest: bit_imp_le_length)
qed

lemma bit_bswap64: "n < 64 \<Longrightarrow> bit (bswap64 w) n \<longleftrightarrow> bit w (byte_mirror 64 n)"
proof -
  assume n: "n < 64"
  show ?thesis
  proof (cases "n < 32")
    case True
    then have "byte_mirror 64 n = 32 + byte_mirror 32 n" "byte_mirror 32 n < 32"
      by (auto simp: byte_mirror_def)
    with True show ?thesis
      by (simp add: bswap64_def bit_or_iff bit_push_bit_iff bit_ucast_iff bit_bswap32 bit_drop_bit_eq)
  next
    case False
    obtain q r where q: "n - 32 = 8 * q + r" and r: "r < 8" "q < 4"
      by (rule byte_split [of "n - 32" 4]) (use n in auto)
    from False q have n': "n = 8 * (q + 4) + r" by simp
    have "byte_mirror 64 n = 8 * (3 - q) + r" "byte_mirror 32 (n - 32) = 8 * (3 - q) + r"
      unfolding n' using r byte_mirror_split [of r 64 "q + 4"] byte_mirror_split [of r 32 q]
      by simp_all
    then have "byte_mirror 64 n = byte_mirror 32 (n - 32)" "byte_mirror 32 (n - 32) < 32"
      using r by simp_all
    with False n show ?thesis
      by (auto simp: bswap64_def bit_or_iff bit_push_bit_iff bit_ucast_iff bit_bswap32 dest: bit_imp_le_length)
  qed
qed

interpretation bs16: byte_swap bswap16
  by unfold_locales (simp_all add: bit_bswap16)

interpretation bs32: byte_swap bswap32
  by unfold_locales (simp_all add: bit_bswap32)

interpretation bs64: byte_swap bswap64
  by unfold_locales (simp_all add: bit_bswap64)

text \<open>
  \<open>bswap\<close> reverses the byte order of a 64 bit integer and is its own inverse.
\<close>

theorem bswap64_reverses_bytes:
  "bswap64 (bswap64 n) = n \<and> (\<forall>k \<in> {..<8}. byte_at k (bswap64 n) = byte_at (7 - k) n)"
  using bs64.bswap_bswap bs64.byte_at_bswap by simp

theorem bswap64_reverses_bytes_witness:
  "byte_at 1 (bswap64 0x0102030405060708) = 2"
proof -
  have "byte_at 1 (bswap64 0x0102030405060708) = byte_at 6 (0x0102030405060708 :: u64)"
    using bswap64_reverses_bytes [of "0x0102030405060708"] by simp
  then show ?thesis by (simp add: byte_at_def)
qed

end
