(* ===== verification/Queues.thy ===== *)
theory Queues
  imports Prelude
begin

text \<open>
  What the queues of the library share: the list view of an array that is indexed modulo its length
  (\<open>ring_slots\<close>), the interface \<open>bounded_queue\<close> of the fixed-capacity FIFO queues, and the interface
  \<open>byte_stream\<close> of the byte buffers. Each interface is a locale whose laws the components prove for
  their own operations, and whose lemmas say what a client sees over any sequence of calls.
\<close>

subsection \<open>Circular buffers\<close>

definition ring_slots :: "'a list \<Rightarrow> nat \<Rightarrow> nat \<Rightarrow> 'a list" where
  "ring_slots buf r n = map (\<lambda>i. buf ! ((r + i) mod length buf)) [0..<n]"

lemma length_ring_slots [simp]: "length (ring_slots buf r n) = n"
  by (simp add: ring_slots_def)

lemma ring_slots_0 [simp]: "ring_slots buf r 0 = []"
  by (simp add: ring_slots_def)

lemma ring_slots_mod: "r mod length buf = r' mod length buf \<Longrightarrow> ring_slots buf r n = ring_slots buf r' n"
  unfolding ring_slots_def by (intro map_cong refl arg_cong [where f = "(!) buf"]) (metis mod_add_left_eq)

lemma ring_slots_Suc: "ring_slots buf r (Suc n) = ring_slots buf r n @ [buf ! ((r + n) mod length buf)]"
  by (simp add: ring_slots_def)

lemma ring_slots_Cons: "ring_slots buf r (Suc n) = buf ! (r mod length buf) # ring_slots buf (Suc r) n"
  by (simp add: ring_slots_def upt_conv_Cons map_Suc_upt [symmetric] del: upt_Suc)

lemma mod_add_inj:
  fixes r :: nat
  assumes "(r + i) mod L = (r + j) mod L" and "i < L" and "j < L"
  shows "i = j"
proof (rule ccontr)
  assume "i \<noteq> j"
  have *: False if "(r + i) mod L = (r + j) mod L" "i < j" "j < L" for i j
  proof -
    from that have "L dvd (r + j) - (r + i)" by (metis mod_eq_dvd_iff_nat nat_add_left_cancel_le less_imp_le)
    with that show False by (simp add: nat_dvd_not_less)
  qed
  from \<open>i \<noteq> j\<close> assms * [of i j] * [of j i] show False by (cases "i < j") auto
qed

lemma ring_slots_update_other:
  assumes "n \<le> m" and "m < length buf"
  shows "ring_slots (buf[(r + m) mod length buf := v]) r n = ring_slots buf r n"
  unfolding ring_slots_def
proof (intro map_cong refl)
  fix i assume i: "i \<in> set [0..<n]"
  have "(r + m) mod length buf \<noteq> (r + i) mod length buf"
    using i assms mod_add_inj [of r m "length buf" i] by auto
  then show "buf[(r + m) mod length buf := v] ! ((r + i) mod length (buf[(r + m) mod length buf := v])) =
      buf ! ((r + i) mod length buf)" by simp
qed

lemma ring_slots_push:
  assumes "n < length buf"
  shows "ring_slots (buf[(r + n) mod length buf := v]) r (Suc n) = ring_slots buf r n @ [v]"
proof -
  from assms have "(r + n) mod length buf < length buf" by (intro mod_less_divisor) auto
  with assms show ?thesis by (simp add: ring_slots_Suc ring_slots_update_other)
qed

lemma ring_slots_overwrite:
  assumes "length buf = Suc n"
  shows "ring_slots (buf[(r + Suc n) mod length buf := v]) (Suc r) (Suc n) = tl (ring_slots buf r (Suc n)) @ [v]"
  using assms ring_slots_push [of n buf "Suc r" v] by (simp add: ring_slots_Cons)


subsection \<open>The bounded queue interface\<close>

datatype 'a qop = Push 'a | Pop

text \<open>A client that runs a sequence of operations: the values it could push, the values it popped.\<close>

fun qrun :: "('a \<Rightarrow> 'q \<Rightarrow> bool \<times> 'q) \<Rightarrow> ('q \<Rightarrow> ('a \<times> 'q) option) \<Rightarrow> 'a qop list \<Rightarrow> 'q
    \<Rightarrow> 'a list \<times> 'a list \<times> 'q" where
  "qrun push pop [] q = ([], [], q)"
| "qrun push pop (Push x # ops) q = (case push x q of (b, q') \<Rightarrow>
     (case qrun push pop ops q' of (acc, out, q'') \<Rightarrow> ((if b then x # acc else acc), out, q'')))"
| "qrun push pop (Pop # ops) q = (case pop q of None \<Rightarrow> qrun push pop ops q
     | Some (x, q') \<Rightarrow> (case qrun push pop ops q' of (acc, out, q'') \<Rightarrow> (acc, x # out, q'')))"

locale bounded_queue =
  fixes push :: "'a \<Rightarrow> 'q \<Rightarrow> bool \<times> 'q"
    and pop :: "'q \<Rightarrow> ('a \<times> 'q) option"
    and contents :: "'q \<Rightarrow> 'a list"
    and cap :: "'q \<Rightarrow> nat"
    and invar :: "'q \<Rightarrow> bool"
  assumes push_full: "invar q \<Longrightarrow> length (contents q) = cap q \<Longrightarrow> push x q = (False, q)"
    and push_room: "invar q \<Longrightarrow> length (contents q) < cap q \<Longrightarrow>
      \<exists>q'. push x q = (True, q') \<and> invar q' \<and> cap q' = cap q \<and> contents q' = contents q @ [x]"
    and pop_empty: "invar q \<Longrightarrow> contents q = [] \<Longrightarrow> pop q = None"
    and pop_nonempty: "invar q \<Longrightarrow> contents q = x # xs \<Longrightarrow>
      \<exists>q'. pop q = Some (x, q') \<and> invar q' \<and> cap q' = cap q \<and> contents q' = xs"
    and bounded: "invar q \<Longrightarrow> length (contents q) \<le> cap q"
begin

lemma run_fifo:
  assumes "invar q" and "qrun push pop ops q = (acc, out, q')"
  shows "invar q' \<and> cap q' = cap q \<and> contents q @ acc = out @ contents q'"
  using assms
proof (induction ops arbitrary: q acc out)
  case Nil
  then show ?case by simp
next
  case (Cons op ops)
  show ?case
  proof (cases op)
    case (Push x)
    show ?thesis
    proof (cases "length (contents q) = cap q")
      case True
      with Push Cons show ?thesis by (auto simp: push_full split: prod.splits)
    next
      case False
      with Cons.prems have "length (contents q) < cap q" using bounded [of q] by simp
      from push_room [OF Cons.prems(1) this, of x] obtain q1 where q1: "push x q = (True, q1)"
        "invar q1" "cap q1 = cap q" "contents q1 = contents q @ [x]" by blast
      with Push Cons.prems Cons.IH [OF q1(2)] show ?thesis by (auto split: prod.splits)
    qed
  next
    case Pop
    note pop_step = this
    note IH = Cons.IH and prems = Cons.prems
    show ?thesis
    proof (cases "contents q")
      case Nil
      with pop_step prems have "qrun push pop ops q = (acc, out, q')" by (simp add: pop_empty)
      from IH [OF prems(1) this] Nil show ?thesis by simp
    next
      case (Cons x xs)
      from pop_nonempty [OF prems(1) this] obtain q1 where q1: "pop q = Some (x, q1)"
        "invar q1" "cap q1 = cap q" "contents q1 = xs" by blast
      with pop_step Cons prems IH [OF q1(2)] show ?thesis by (auto split: prod.splits)
    qed
  qed
qed

end

subsection \<open>The byte stream interface\<close>

datatype 'b sop = Write "'b list" | Read nat

text \<open>A client of a byte stream: the bytes the stream accepted and the bytes it read, in order.\<close>

fun srun :: "('b list \<Rightarrow> 'q \<Rightarrow> bool \<times> 'q) \<Rightarrow> (nat \<Rightarrow> 'q \<Rightarrow> 'b list \<times> 'q) \<Rightarrow> 'b sop list \<Rightarrow> 'q
    \<Rightarrow> 'b list \<times> 'b list \<times> 'q" where
  "srun put get [] q = ([], [], q)"
| "srun put get (Write bs # ops) q = (case put bs q of (ok, q') \<Rightarrow>
     (case srun put get ops q' of (acc, out, q'') \<Rightarrow> ((if ok then bs @ acc else acc), out, q'')))"
| "srun put get (Read n # ops) q = (case get n q of (bs, q') \<Rightarrow>
     (case srun put get ops q' of (acc, out, q'') \<Rightarrow> (acc, bs @ out, q'')))"

locale byte_stream =
  fixes put :: "'b list \<Rightarrow> 'q \<Rightarrow> bool \<times> 'q"
    and get :: "nat \<Rightarrow> 'q \<Rightarrow> 'b list \<times> 'q"
    and contents :: "'q \<Rightarrow> 'b list"
    and invar :: "'q \<Rightarrow> bool"
  assumes put_law: "invar q \<Longrightarrow> put bs q = (ok, q') \<Longrightarrow>
      invar q' \<and> contents q' = (if ok then contents q @ bs else contents q)"
    and get_law: "invar q \<Longrightarrow> get n q = (bs, q') \<Longrightarrow>
      invar q' \<and> bs = take n (contents q) \<and> contents q' = drop n (contents q)"
begin

lemma run_stream:
  assumes "invar q" and "srun put get ops q = (acc, out, q')"
  shows "invar q' \<and> contents q @ acc = out @ contents q'"
  using assms
proof (induction ops arbitrary: q acc out)
  case Nil
  then show ?case by simp
next
  case (Cons op ops)
  show ?case
  proof (cases op)
    case (Write bs)
    obtain ok q1 where w: "put bs q = (ok, q1)" by fastforce
    from put_law [OF Cons.prems(1) w] Cons.prems(2) Cons.IH [of q1] Write w show ?thesis
      by (auto split: prod.splits if_splits)
  next
    case (Read n)
    obtain bs q1 where r: "get n q = (bs, q1)" by fastforce
    from get_law [OF Cons.prems(1) r] have "invar q1" "contents q = bs @ contents q1" by auto
    with Cons.prems(2) Cons.IH [of q1] Read r show ?thesis by (auto split: prod.splits)
  qed
qed

end

end
