(* ===== verification/RingBuffer.thy ===== *)
theory RingBuffer
  imports Numeric Queues
begin

text \<open>
  The model of \<open>util/RingBuffer.hpp\<close>: a fixed-capacity FIFO buffer over an array indexed modulo a
  power of two. The read and write positions are the 64 bit words of the code, so they wrap around.
  The buffer without overwrite implements the interface \<open>bounded_queue\<close>.
\<close>

subsection \<open>RingBuffer\<close>

record 'a ring_buffer =
  rb_cap :: u64
  rb_mask :: u64
  rb_rpos :: u64
  rb_wpos :: u64
  rb_buf :: "'a list"

text \<open>
  The constructor. \<open>dflt\<close> is the value of a default-initialised \<open>ValueT\<close>; the result is \<open>None\<close> when
  \<open>next_pow2\<close> shifts past its width.
\<close>

definition rb_new :: "'a \<Rightarrow> u64 \<Rightarrow> 'a ring_buffer option" where
  "rb_new dflt capacity = (case next_pow2_ulong capacity of
     None \<Rightarrow> None
   | Some c \<Rightarrow> Some \<lparr>rb_cap = c, rb_mask = c - 1, rb_rpos = 0, rb_wpos = 0,
                    rb_buf = replicate (unat c) dflt\<rparr>)"

definition rb_empty :: "'a ring_buffer \<Rightarrow> bool" where
  "rb_empty q \<longleftrightarrow> rb_rpos q = rb_wpos q"

definition rb_size :: "'a ring_buffer \<Rightarrow> u64" where
  "rb_size q = rb_wpos q - rb_rpos q"

definition rb_full :: "'a ring_buffer \<Rightarrow> bool" where
  "rb_full q \<longleftrightarrow> rb_size q = rb_cap q"

definition rb_available :: "'a ring_buffer \<Rightarrow> u64" where
  "rb_available q = rb_cap q - rb_size q"

definition rb_capacity :: "'a ring_buffer \<Rightarrow> u64" where
  "rb_capacity q = rb_wpos q - rb_rpos q"

definition rb_max_size :: "'a ring_buffer \<Rightarrow> u64" where
  "rb_max_size q = rb_capacity q"

definition rb_index :: "'a ring_buffer \<Rightarrow> u64 \<Rightarrow> nat" where
  "rb_index q pos = unat (pos AND rb_mask q)"

definition rb_front :: "'a ring_buffer \<Rightarrow> 'a" where
  "rb_front q = rb_buf q ! rb_index q (rb_rpos q)"

definition rb_back :: "'a ring_buffer \<Rightarrow> 'a" where
  "rb_back q = rb_buf q ! rb_index q (rb_wpos q - 1)"

definition rb_clear :: "'a ring_buffer \<Rightarrow> 'a ring_buffer" where
  "rb_clear q = q\<lparr>rb_wpos := 0, rb_rpos := 0\<rparr>"

definition rb_pop :: "'a ring_buffer \<Rightarrow> 'a ring_buffer" where
  "rb_pop q = q\<lparr>rb_rpos := rb_rpos q + 1\<rparr>"

text \<open>
  \<open>bool pop(ValueT& val)\<close> has no return statement after it has taken the value: a call that takes
  that branch has undefined behaviour.
\<close>

definition rb_pop_val :: "'a \<Rightarrow> 'a ring_buffer \<Rightarrow> (bool \<times> 'a \<times> 'a ring_buffer) option" where
  "rb_pop_val val q = (if rb_empty q then Some (False, val, q) else None)"

definition rb_push :: "bool \<Rightarrow> 'a \<Rightarrow> 'a ring_buffer \<Rightarrow> bool \<times> 'a ring_buffer" where
  "rb_push Overwrite val q =
     (if \<not> Overwrite \<and> rb_full q then (False, q)
      else let q1 = q\<lparr>rb_buf := (rb_buf q)[rb_index q (rb_wpos q) := val]\<rparr>;
               q2 = (if Overwrite \<and> rb_full q1 then q1\<lparr>rb_rpos := rb_rpos q1 + 1\<rparr> else q1)
           in (True, q2\<lparr>rb_wpos := rb_wpos q2 + 1\<rparr>))"

text \<open>\<open>read(fn)\<close>: \<open>None\<close> when it returns false, else the element \<open>fn\<close> is called on.\<close>

definition rb_read :: "'a ring_buffer \<Rightarrow> ('a \<times> 'a ring_buffer) option" where
  "rb_read q = (if rb_empty q then None
     else Some (rb_buf q ! rb_index q (rb_rpos q), q\<lparr>rb_rpos := rb_rpos q + 1\<rparr>))"

text \<open>\<open>write(fn)\<close>: \<open>fn\<close> updates the element in place.\<close>

definition rb_write :: "bool \<Rightarrow> ('a \<Rightarrow> 'a) \<Rightarrow> 'a ring_buffer \<Rightarrow> bool \<times> 'a ring_buffer" where
  "rb_write Overwrite fn q =
     (if \<not> Overwrite \<and> rb_full q then (False, q)
      else let i = rb_index q (rb_wpos q);
               q1 = q\<lparr>rb_buf := (rb_buf q)[i := fn (rb_buf q ! i)]\<rparr>;
               q2 = (if Overwrite \<and> rb_full q1 then q1\<lparr>rb_rpos := rb_rpos q1 + 1\<rparr> else q1)
           in (True, q2\<lparr>rb_wpos := rb_wpos q2 + 1\<rparr>))"

definition rb_inv :: "'a ring_buffer \<Rightarrow> bool" where
  "rb_inv q \<longleftrightarrow> is_pow2 (rb_cap q) \<and> rb_mask q = rb_cap q - 1 \<and>
     length (rb_buf q) = unat (rb_cap q) \<and> rb_size q \<le> rb_cap q"

text \<open>The queued elements, oldest first.\<close>

definition rb_contents :: "'a ring_buffer \<Rightarrow> 'a list" where
  "rb_contents q = ring_slots (rb_buf q) (unat (rb_rpos q)) (unat (rb_size q))"

definition rb_bound :: "'a ring_buffer \<Rightarrow> nat" where
  "rb_bound q = unat (rb_cap q)"

lemma length_rb_contents [simp]: "length (rb_contents q) = unat (rb_size q)"
  by (simp add: rb_contents_def)

lemma rb_inv_cases:
  assumes "rb_inv q"
  obtains k where "k < 64" "rb_cap q = 2 ^ k" "unat (rb_cap q) = 2 ^ k" "rb_mask q = 2 ^ k - 1"
    "length (rb_buf q) = 2 ^ k" "unat (rb_size q) \<le> 2 ^ k"
proof -
  from assms obtain k where k: "k < 64" "rb_cap q = 2 ^ k" by (auto simp: rb_inv_def is_pow2_iff)
  then have "unat (rb_cap q) = 2 ^ k" by (simp add: unat_pow2)
  with k assms show ?thesis by (intro that [of k]) (auto simp: rb_inv_def word_le_nat_alt)
qed

lemma rb_index_mod: "rb_inv q \<Longrightarrow> rb_index q p = unat p mod length (rb_buf q)"
  by (erule rb_inv_cases) (simp add: rb_index_def unat_and_pow2_minus_one)

lemma rb_wpos_index: "rb_inv q \<Longrightarrow> rb_index q (rb_wpos q) = (unat (rb_rpos q) + unat (rb_size q)) mod length (rb_buf q)"
proof -
  assume inv: "rb_inv q"
  then obtain k where k: "k < 64" "length (rb_buf q) = 2 ^ k" by (blast elim: rb_inv_cases)
  have "rb_wpos q = rb_rpos q + rb_size q" by (simp add: rb_size_def)
  then have "unat (rb_wpos q) mod 2 ^ k = (unat (rb_rpos q) + unat (rb_size q)) mod 2 ^ k"
    using k unat_add_mod_pow2 [of k "rb_rpos q" "rb_size q"] by simp
  with inv k show ?thesis by (simp add: rb_index_mod)
qed

lemma rb_empty_iff: "rb_empty q \<longleftrightarrow> rb_contents q = []"
  by (auto simp: rb_empty_def rb_contents_def rb_size_def ring_slots_def unat_eq_0)

lemma rb_full_iff: "rb_full q \<longleftrightarrow> length (rb_contents q) = rb_bound q"
  by (simp add: rb_full_def rb_bound_def word_unat_eq_iff)


lemma rb_size_eqs [simp]:
  "rb_size (q\<lparr>rb_buf := b\<rparr>) = rb_size q"
  "rb_size (q\<lparr>rb_wpos := rb_wpos q + 1\<rparr>) = rb_size q + 1"
  "rb_size (q\<lparr>rb_rpos := rb_rpos q + 1\<rparr>) = rb_size q - 1"
  "rb_size (q\<lparr>rb_rpos := rb_rpos q + 1, rb_wpos := rb_wpos q + 1\<rparr>) = rb_size q"
  by (simp_all add: rb_size_def)

lemma rb_push_write: "rb_push ow val q = rb_write ow (\<lambda>_. val) q"
  by (simp add: rb_push_def rb_write_def Let_def)

lemma rb_push_room:
  fixes val :: 'a
  assumes inv: "rb_inv q" and room: "length (rb_contents q) < rb_bound q"
  defines "q' \<equiv> q\<lparr>rb_buf := (rb_buf q)[rb_index q (rb_wpos q) := val], rb_wpos := rb_wpos q + 1\<rparr>"
  shows "rb_push ow val q = (True, q')" "rb_inv q'" "rb_contents q' = rb_contents q @ [val]"
proof -
  have lt: "unat (rb_size q) < unat (rb_cap q)" using room by (simp add: rb_bound_def)
  then have sz: "unat (rb_size q + 1) = Suc (unat (rb_size q))" by (rule unat_Suc_if_less)
  from lt have nf: "\<not> rb_full q" by (auto simp: rb_full_def)
  moreover have "\<not> rb_full (q\<lparr>rb_buf := b\<rparr>)" for b using nf by (simp add: rb_full_def)
  ultimately show "rb_push ow val q = (True, q')" by (simp add: rb_push_def q'_def Let_def)
  have size: "rb_size q' = rb_size q + 1" by (simp add: q'_def rb_size_def)
  from inv lt show "rb_inv q'"
    unfolding rb_inv_def size by (simp add: q'_def word_le_nat_alt sz)
  have "unat (rb_size q) < length (rb_buf q)" using inv lt by (simp add: rb_inv_def)
  then show "rb_contents q' = rb_contents q @ [val]"
    unfolding rb_contents_def size sz by (simp add: q'_def rb_wpos_index [OF inv] ring_slots_push)
qed

lemma rb_push_full: "length (rb_contents q) = rb_bound q \<Longrightarrow> rb_push False x q = (False, q)"
  by (simp add: rb_push_def rb_full_iff)

lemma rb_pop_contents:
  assumes inv: "rb_inv q" and ne: "rb_contents q = x # xs"
  shows "rb_front q = x" "rb_inv (rb_pop q)" "rb_contents (rb_pop q) = xs"
proof -
  obtain n where n: "unat (rb_size q) = Suc n"
    using ne by (metis length_Cons length_rb_contents)
  then have "rb_size q \<noteq> 0" by auto
  then have sz: "unat (rb_size q - 1) = n" using n by (simp add: unat_minus_one)
  obtain k where k: "k < 64" "length (rb_buf q) = 2 ^ k" using inv by (blast elim: rb_inv_cases)
  have c: "rb_contents q = rb_buf q ! (unat (rb_rpos q) mod length (rb_buf q)) # ring_slots (rb_buf q) (Suc (unat (rb_rpos q))) n"
    by (simp add: rb_contents_def n ring_slots_Cons)
  with ne inv show "rb_front q = x" by (simp add: rb_front_def rb_index_mod)
  have size: "rb_size (rb_pop q) = rb_size q - 1" by (simp add: rb_pop_def)
  from inv n show "rb_inv (rb_pop q)"
    unfolding rb_inv_def size by (simp add: rb_pop_def word_le_nat_alt sz)
  have "unat (rb_rpos q + 1) mod 2 ^ k = Suc (unat (rb_rpos q)) mod 2 ^ k"
    using k unat_add_mod_pow2 [of k "rb_rpos q" 1] by simp
  then have "ring_slots (rb_buf q) (unat (rb_rpos q + 1)) n = ring_slots (rb_buf q) (Suc (unat (rb_rpos q))) n"
    by (intro ring_slots_mod) (simp add: k)
  with c ne show "rb_contents (rb_pop q) = xs"
    unfolding rb_contents_def size sz by (simp add: rb_pop_def)
qed

lemma rb_read_pop: "rb_read q = (if rb_empty q then None else Some (rb_front q, rb_pop q))"
  by (simp add: rb_read_def rb_front_def rb_pop_def)

lemma rb_bound_pop [simp]: "rb_bound (rb_pop q) = rb_bound q"
  by (simp add: rb_bound_def rb_pop_def)

interpretation rbq: bounded_queue "rb_push False" rb_read rb_contents rb_bound rb_inv
proof (unfold_locales, goal_cases)
  case (2 q x)
  note rb_push_room [OF 2, where val = x]
  then show ?case by (auto simp: rb_bound_def)
next
  case (4 q x xs)
  from rb_pop_contents [OF 4] 4(2) show ?case by (auto simp: rb_read_pop rb_empty_iff)
next
  case (5 q)
  then show ?case by (simp add: rb_inv_def rb_bound_def word_le_nat_alt)
qed (simp_all add: rb_push_full rb_read_pop rb_empty_iff)

lemma rb_new_ok:
  assumes "n \<le> 2 ^ 30"
  shows "\<exists>q. rb_new d n = Some q \<and> rb_inv q \<and> rb_contents q = [] \<and> unat n \<le> rb_bound q"
proof -
  from next_pow2_small [OF assms] obtain k where k: "k \<le> 30" "next_pow2_ulong n = Some (2 ^ k)" "unat n \<le> 2 ^ k"
    by blast
  define c :: u64 where "c = 2 ^ k"
  have u: "unat c = 2 ^ k" using k(1) by (simp add: c_def unat_pow2)
  have "is_pow2 c" using k(1) by (auto simp: is_pow2_iff c_def intro!: exI [of _ k])
  moreover have "next_pow2_ulong n = Some c" "unat n \<le> unat c" using k u by (simp_all add: c_def)
  ultimately show ?thesis by (simp add: rb_new_def rb_inv_def rb_contents_def rb_size_def rb_bound_def)
qed

text \<open>
  C29: A \<open>RingBuffer\<close> without overwrite is a FIFO queue. For every sequence of \<open>push\<close> and \<open>read\<close> calls
  on a new buffer, whatever the positions wrap to, the values accepted are the values read followed by
  those still queued, in the same order, and at most the rounded-up capacity are queued.
\<close>

theorem ring_buffer_fifo:
  assumes "n \<le> 2 ^ 30"
  shows "\<exists>q acc out q'. rb_new d n = Some q \<and> qrun (rb_push False) rb_read ops q = (acc, out, q') \<and>
     acc = out @ rb_contents q' \<and> length (rb_contents q') \<le> unat (rb_cap q) \<and> unat n \<le> unat (rb_cap q)"
proof -
  from rb_new_ok [OF assms, of d] obtain q where q: "rb_new d n = Some q" "rb_inv q" "rb_contents q = []"
    "unat n \<le> rb_bound q" by blast
  obtain acc out q' where r: "qrun (rb_push False) rb_read ops q = (acc, out, q')" by (metis prod_cases3)
  from rbq.run_fifo [OF q(2) r] rbq.bounded [of q'] q r show ?thesis by (auto simp: rb_bound_def)
qed

theorem ring_buffer_fifo_witness:
  "(3::u64) \<le> 2 ^ 30 \<and> (\<exists>q acc out q'. rb_new (0::nat) 3 = Some q \<and>
     qrun (rb_push False) rb_read [Push 1, Push 2, Pop, Push 3, Push 4, Push 5, Push 6, Pop] q = (acc, out, q') \<and>
     acc = out @ rb_contents q' \<and> length (rb_contents q') \<le> unat (rb_cap q) \<and> unat (3::u64) \<le> unat (rb_cap q))"
  using ring_buffer_fifo [of 3 "0::nat" "[Push 1, Push 2, Pop, Push 3, Push 4, Push 5, Push 6, Pop]"] by simp

text \<open>
  With \<open>Overwrite\<close> set, \<open>push\<close> always succeeds and keeps the invariant: it appends when there is room
  and replaces the oldest element, leaving the size unchanged, when the buffer is full.
\<close>

theorem ring_buffer_overwrite:
  assumes inv: "rb_inv q"
  shows "\<exists>q'. rb_push True x q = (True, q') \<and> rb_inv q' \<and>
     rb_contents q' = (if rb_full q then tl (rb_contents q) @ [x] else rb_contents q @ [x])"
proof (cases "rb_full q")
  case False
  then have "length (rb_contents q) < rb_bound q"
    using rbq.bounded [OF inv] rb_full_iff [of q] by linarith
  note room = rb_push_room [OF inv this, where val = x]
  from room(1) [of True] room(2,3) False show ?thesis by auto
next
  case True
  obtain k where k: "k < 64" "length (rb_buf q) = 2 ^ k" "unat (rb_cap q) = 2 ^ k"
    using inv by (blast elim: rb_inv_cases)
  have sz: "unat (rb_size q) = 2 ^ k" using True k by (simp add: rb_full_def)
  obtain n where n: "2 ^ k = Suc n" by (metis not0_implies_Suc power_not_zero zero_neq_numeral)
  define q' where "q' = q\<lparr>rb_buf := (rb_buf q)[rb_index q (rb_wpos q) := x], rb_rpos := rb_rpos q + 1, rb_wpos := rb_wpos q + 1\<rparr>"
  have full': "rb_full (q\<lparr>rb_buf := b\<rparr>)" for b using True by (simp add: rb_full_def)
  then have "rb_push True x q = (True, q')" by (simp add: rb_push_def q'_def Let_def)
  moreover have size: "rb_size q' = rb_size q" by (simp add: q'_def rb_size_def)
  moreover have "rb_inv q'" using inv size by (simp add: rb_inv_def q'_def)
  moreover have "rb_contents q' = tl (rb_contents q) @ [x]"
  proof -
    let ?b = "(rb_buf q)[(unat (rb_rpos q) + Suc n) mod length (rb_buf q) := x]"
    have "unat (rb_rpos q + 1) mod 2 ^ k = Suc (unat (rb_rpos q)) mod 2 ^ k"
      using k unat_add_mod_pow2 [of k "rb_rpos q" 1] by simp
    then have "ring_slots ?b (unat (rb_rpos q + 1)) (Suc n) = ring_slots ?b (Suc (unat (rb_rpos q))) (Suc n)"
      by (intro ring_slots_mod) (simp add: k)
    also have "\<dots> = tl (ring_slots (rb_buf q) (unat (rb_rpos q)) (Suc n)) @ [x]"
      using ring_slots_overwrite [of "rb_buf q" n] k n by simp
    finally show ?thesis
      unfolding rb_contents_def size sz n by (simp add: q'_def rb_wpos_index [OF inv] sz n)
  qed
  ultimately show ?thesis using True by auto
qed

theorem ring_buffer_overwrite_witness:
  "\<exists>q'. rb_push True 7 \<lparr>rb_cap = 2, rb_mask = 1, rb_rpos = 0xFFFFFFFFFFFFFFFF, rb_wpos = 1, rb_buf = [5::nat, 6]\<rparr> = (True, q') \<and>
     rb_inv q' \<and> rb_contents q' = [5, 7]"
proof -
  let ?q = "\<lparr>rb_cap = 2, rb_mask = 1, rb_rpos = 0xFFFFFFFFFFFFFFFF, rb_wpos = 1, rb_buf = [5::nat, 6]\<rparr>"
  have "rb_inv ?q" by (simp add: rb_inv_def is_pow2_def rb_size_def)
  moreover have "rb_full ?q" by (simp add: rb_full_def rb_size_def)
  moreover have "rb_contents ?q = [6, 5]" by (simp add: rb_contents_def rb_size_def ring_slots_def upt_rec flip: numeral_2_eq_2)
  ultimately show ?thesis using ring_buffer_overwrite [of ?q 7] by simp
qed

text \<open>
  \<open>capacity()\<close> and \<open>max_size()\<close> return the number of queued elements, not the capacity: they agree
  with it only while the buffer is full.
\<close>

theorem ring_buffer_capacity_is_size:
  "rb_capacity q = rb_size q \<and> rb_max_size q = rb_size q \<and> (rb_capacity q = rb_cap q \<longleftrightarrow> rb_full q)"
  by (simp add: rb_capacity_def rb_max_size_def rb_size_def rb_full_def)

end
