(* ===== verification/MagicRing.thy ===== *)
theory MagicRing
  imports Numeric Queues
begin

text \<open>
  The model of \<open>ipc/MagicRingBuffer.hpp\<close>, a byte stream over a memory region that is mapped twice in a
  row, and of the part of \<open>ipc/Mmap.hpp\<close> that lays the two mappings out. \<open>mmap\<close> itself is the
  operating system: what is modelled is which byte of the backing file every mapped address is.
\<close>

subsection \<open>The mapping of the magic allocator\<close>

definition round_up_page_size :: "u64 \<Rightarrow> u64" where
  "round_up_page_size n = (n + of_nat (drop_bit 1 PageSize)) AND NOT (of_nat PageSize - 1)"

text \<open>
  The byte behind an address: an anonymous page (the header), a byte of the file, or nothing. \<open>hlen\<close> is
  the rounded header length, \<open>plen\<close> the rounded total length.
\<close>

datatype mapped = Anon nat | File nat | Unmapped

definition magic_map :: "nat \<Rightarrow> nat \<Rightarrow> nat \<Rightarrow> mapped" where
  "magic_map hlen plen v =
     (if v < hlen then Anon v
      else if v < plen then File (v - hlen)
      else if v < plen + (plen - hlen) then File (v - plen)
      else Unmapped)"

subsection \<open>MagicRingBuffer\<close>

record magic_ring =
  mr_cap :: u64
  mr_mask :: u64
  mr_rpos :: u64
  mr_wpos :: u64
  mr_file :: "u8 list"

text \<open>\<open>sizeof(Impl)\<close> is one page.\<close>

definition mr_sizeof_impl :: u64 where
  "mr_sizeof_impl = of_nat PageSize"

definition mr_plen :: "u64 \<Rightarrow> nat" where
  "mr_plen capacity = unat (round_up_page_size (mr_sizeof_impl + capacity))"

text \<open>\<open>mask(capacity)\<close> throws unless the capacity is a power of two.\<close>

definition mr_mask_of :: "u64 \<Rightarrow> u64 option" where
  "mr_mask_of capacity = (if is_pow2 capacity then Some (capacity - 1) else None)"

text \<open>
  The constructor: \<open>None\<close> when it throws, because the capacity is not a power of two or because
  the region to map has length zero, which \<open>mmap\<close> refuses.
\<close>

definition mr_new :: "u64 \<Rightarrow> magic_ring option" where
  "mr_new capacity = (case mr_mask_of capacity of None \<Rightarrow> None | Some m \<Rightarrow>
     if mr_plen capacity = PageSize then None else
     Some \<lparr>mr_cap = capacity, mr_mask = m, mr_rpos = 0, mr_wpos = 0,
           mr_file = replicate (mr_plen capacity - PageSize) 0\<rparr>)"

definition mr_size :: "magic_ring \<Rightarrow> u64" where
  "mr_size q = mr_wpos q - mr_rpos q"

definition mr_empty :: "magic_ring \<Rightarrow> bool" where
  "mr_empty q \<longleftrightarrow> mr_size q = 0"

definition mr_full :: "magic_ring \<Rightarrow> bool" where
  "mr_full q \<longleftrightarrow> mr_size q = mr_cap q"

definition mr_available :: "magic_ring \<Rightarrow> u64" where
  "mr_available q = mr_cap q - mr_size q"

text \<open>The file byte behind \<open>impl_->buf + i\<close>; an access to an unmapped address is a fault (\<open>None\<close>).\<close>

definition mr_index :: "u64 \<Rightarrow> nat \<Rightarrow> nat option" where
  "mr_index capacity i = (case magic_map PageSize (mr_plen capacity) (PageSize + i) of
     File j \<Rightarrow> Some j | _ \<Rightarrow> None)"

fun mr_load :: "u64 \<Rightarrow> u8 list \<Rightarrow> nat \<Rightarrow> nat \<Rightarrow> u8 list option" where
  "mr_load capacity mem i 0 = Some []"
| "mr_load capacity mem i (Suc n) = (case mr_index capacity i of None \<Rightarrow> None
     | Some j \<Rightarrow> (case mr_load capacity mem (Suc i) n of None \<Rightarrow> None
         | Some bs \<Rightarrow> Some (mem ! j # bs)))"

fun mr_store :: "u64 \<Rightarrow> u8 list \<Rightarrow> nat \<Rightarrow> u8 list \<Rightarrow> u8 list option" where
  "mr_store capacity mem i [] = Some mem"
| "mr_store capacity mem i (b # bs) = (case mr_index capacity i of None \<Rightarrow> None
     | Some j \<Rightarrow> mr_store capacity (mem[j := b]) (Suc i) bs)"

text \<open>
  \<open>read(size, fn)\<close>: \<open>fn\<close> sees the bytes that are ready and returns how many it consumed (and, here,
  what it did with them). The outer \<open>None\<close> is a fault, the inner \<open>None\<close> is the result false.
\<close>

definition mr_read :: "u64 \<Rightarrow> (u8 list \<Rightarrow> u64 \<times> 'r) \<Rightarrow> magic_ring \<Rightarrow> ('r option \<times> magic_ring) option" where
  "mr_read sz fn q = (let rpos = mr_rpos q; wpos = mr_wpos q; ready = wpos - rpos in
     if ready = 0 \<or> ready < sz then Some (None, q)
     else case mr_load (mr_cap q) (mr_file q) (unat (rpos AND mr_mask q)) (unat ready) of
       None \<Rightarrow> None
     | Some data \<Rightarrow> (case fn data of (consumed, r) \<Rightarrow> Some (Some r, q\<lparr>mr_rpos := rpos + consumed\<rparr>)))"

text \<open>
  \<open>size_t read(void* buf, size_t size)\<close>: the number it returns is the bool result of the other
  overload. The bytes are those copied to \<open>buf\<close>.
\<close>

definition mr_read_buf :: "u64 \<Rightarrow> magic_ring \<Rightarrow> (u64 \<times> u8 list \<times> magic_ring) option" where
  "mr_read_buf sz q =
     (case mr_read 0 (\<lambda>data. let rlen = min sz (of_nat (length data)) in (rlen, take (unat rlen) data)) q of
       None \<Rightarrow> None
     | Some (None, q') \<Rightarrow> Some (0, [], q')
     | Some (Some bs, q') \<Rightarrow> Some (1, bs, q'))"

text \<open>\<open>read(T& val)\<close> for a type of \<open>n\<close> bytes.\<close>

definition mr_read_val :: "nat \<Rightarrow> magic_ring \<Rightarrow> (u8 list option \<times> magic_ring) option" where
  "mr_read_val n q = mr_read (of_nat n) (\<lambda>data. (of_nat n, take n data)) q"

text \<open>\<open>write(size, fn)\<close>: \<open>fn\<close> turns the bytes of the region into the bytes it leaves there.\<close>

definition mr_write :: "u64 \<Rightarrow> (u8 list \<Rightarrow> u8 list) \<Rightarrow> magic_ring \<Rightarrow> (bool \<times> magic_ring) option" where
  "mr_write sz fn q = (let wpos = mr_wpos q; rpos = mr_rpos q; i = unat (wpos AND mr_mask q) in
     if mr_cap q - (wpos - rpos) < sz then Some (False, q)
     else case mr_load (mr_cap q) (mr_file q) i (unat sz) of None \<Rightarrow> None | Some old \<Rightarrow>
       (case mr_store (mr_cap q) (mr_file q) i (fn old) of None \<Rightarrow> None | Some mem \<Rightarrow>
         Some (True, q\<lparr>mr_file := mem, mr_wpos := wpos + sz\<rparr>)))"

definition mr_write_buf :: "u8 list \<Rightarrow> magic_ring \<Rightarrow> (u64 \<times> magic_ring) option" where
  "mr_write_buf bs q = (case mr_write (of_nat (length bs)) (\<lambda>_. bs) q of None \<Rightarrow> None
     | Some (ok, q') \<Rightarrow> Some (if ok then of_nat (length bs) else 0, q'))"

text \<open>\<open>write(string_view)\<close>, \<open>write(const std::string&)\<close> and \<open>write(const T&)\<close> convert the count to \<open>bool\<close>.\<close>

definition mr_write_str :: "u8 list \<Rightarrow> magic_ring \<Rightarrow> (bool \<times> magic_ring) option" where
  "mr_write_str bs q = map_option (\<lambda>(n, q'). (n \<noteq> 0, q')) (mr_write_buf bs q)"

subsection \<open>The double mapping\<close>

text \<open>The capacities for which the second mapping starts where the first one ends.\<close>

definition mr_good_cap :: "u64 \<Rightarrow> bool" where
  "mr_good_cap c \<longleftrightarrow> is_pow2 c \<and> of_nat PageSize \<le> c \<and> c \<le> 2 ^ 62"

definition mr_inv :: "magic_ring \<Rightarrow> bool" where
  "mr_inv q \<longleftrightarrow> mr_good_cap (mr_cap q) \<and> mr_mask q = mr_cap q - 1 \<and>
     length (mr_file q) = unat (mr_cap q) \<and> mr_size q \<le> mr_cap q"

definition mr_contents :: "magic_ring \<Rightarrow> u8 list" where
  "mr_contents q = ring_slots (mr_file q) (unat (mr_rpos q)) (unat (mr_size q))"

lemma mr_good_cap_iff: "mr_good_cap c \<longleftrightarrow> (\<exists>k. 12 \<le> k \<and> k \<le> 62 \<and> c = 2 ^ k)"
proof
  assume "mr_good_cap c"
  then obtain k where k: "k < 64" "c = 2 ^ k" and b: "4096 \<le> c" "c \<le> 2 ^ 62"
    by (auto simp: mr_good_cap_def is_pow2_iff PageSize_def)
  from b(1) k have "(2::nat) ^ 12 \<le> 2 ^ k" by (simp add: word_le_nat_alt unat_pow2)
  moreover from b(2) k have "(2::nat) ^ k \<le> 2 ^ 62" by (simp add: word_le_nat_alt unat_pow2)
  ultimately show "\<exists>k. 12 \<le> k \<and> k \<le> 62 \<and> c = 2 ^ k" using k power_increasing_iff [of "2::nat" 12 k] power_increasing_iff [of "2::nat" k 62]
    by (intro exI [of _ k]) simp
next
  assume "\<exists>k. 12 \<le> k \<and> k \<le> 62 \<and> c = 2 ^ k"
  then obtain k where k: "12 \<le> k" "k \<le> 62" "c = 2 ^ k" by blast
  have "(2::nat) ^ 12 \<le> 2 ^ k" using k by (intro power_increasing) simp_all
  moreover have "(2::nat) ^ k \<le> 2 ^ 62" using k by (intro power_increasing) simp_all
  ultimately have "(4096::nat) \<le> 2 ^ k" "(2::nat) ^ k \<le> 4611686018427387904" by simp_all
  with k show "mr_good_cap c"
    by (auto simp: mr_good_cap_def is_pow2_iff PageSize_def word_le_nat_alt unat_pow2 intro!: exI [of _ k])
qed


lemma unat_and_not_mask:
  "unat (w AND NOT (mask n)) = unat w - unat w mod 2 ^ n" for w :: "'a::len word"
proof -
  have "w AND NOT (mask n) = push_bit n (drop_bit n w)"
    by (rule bit_word_eqI) (auto simp: bit_simps)
  then have "unat (w AND NOT (mask n)) = (unat w div 2 ^ n * 2 ^ n) mod 2 ^ LENGTH('a)"
    by (simp add: unat_push_bit unat_drop_bit)
  also have "\<dots> = unat w div 2 ^ n * 2 ^ n"
    using unat_bound [of w] by (meson div_times_less_eq_dividend mod_less order_le_less_trans)
  finally show ?thesis by (simp add: minus_mod_eq_div_mult)
qed

lemma mr_round_up: "round_up_page_size (mr_sizeof_impl + c) = (c + 6144) AND NOT (mask 12)"
  by (simp add: round_up_page_size_def mr_sizeof_impl_def PageSize_def mask_eq_decr_exp add.commute drop_bit_nat_def flip: numeral_2_eq_2)

lemma mr_plen_good: "mr_good_cap c \<Longrightarrow> mr_plen c = PageSize + unat c"
proof -
  assume "mr_good_cap c"
  then obtain k where k: "12 \<le> k" "k \<le> 62" "c = 2 ^ k" by (auto simp: mr_good_cap_iff)
  then have u: "unat c = 2 ^ k" by (simp add: unat_pow2)
  have "(2::nat) ^ k \<le> 2 ^ 62" using k by (intro power_increasing) auto
  with u have s: "unat (c + 6144) = unat c + 6144" by (simp add: unat_word_ariths)
  have "(2::nat) ^ 12 dvd 2 ^ k" using k by (intro le_imp_power_dvd)
  then have "(2 ^ k + 6144) mod 4096 = (2048::nat)" by (simp add: mod_add_left_eq [symmetric])
  then have "unat ((c + 6144) AND NOT (mask 12)) = unat c + 4096"
    unfolding unat_and_not_mask s by (simp add: u)
  then show ?thesis by (simp add: mr_plen_def mr_round_up PageSize_def)
qed

lemma mr_index_good:
  assumes "mr_good_cap c" and "i < 2 * unat c"
  shows "mr_index c i = Some (i mod unat c)"
proof (cases "i < unat c")
  case True
  with assms show ?thesis by (simp add: mr_index_def magic_map_def mr_plen_good)
next
  case False
  with assms have "i mod unat c = i - unat c" by (simp add: le_mod_geq)
  with False assms show ?thesis by (simp add: mr_index_def magic_map_def mr_plen_good)
qed

lemma mr_load_good:
  assumes "mr_good_cap c" and "i + n \<le> 2 * unat c" and "length mem = unat c"
  shows "mr_load c mem i n = Some (ring_slots mem i n)"
  using assms(2)
proof (induction n arbitrary: i)
  case (Suc n)
  with assms show ?case by (simp add: mr_index_good ring_slots_Cons)
qed simp

text \<open>Storing bytes one after the other at consecutive slots.\<close>

fun ring_store :: "'a list \<Rightarrow> nat \<Rightarrow> 'a list \<Rightarrow> 'a list" where
  "ring_store mem i [] = mem"
| "ring_store mem i (b # bs) = ring_store (mem[i mod length mem := b]) (Suc i) bs"

lemma length_ring_store [simp]: "length (ring_store mem i bs) = length mem"
  by (induction mem i bs rule: ring_store.induct) auto

lemma mr_store_good:
  assumes "mr_good_cap c" and "i + length bs \<le> 2 * unat c" and "length mem = unat c"
  shows "mr_store c mem i bs = Some (ring_store mem i bs)"
  using assms(2,3)
proof (induction bs arbitrary: i mem)
  case (Cons b bs)
  with assms(1) show ?case by (simp add: mr_index_good)
qed simp

lemma ring_store_mod:
  "i mod length mem = j mod length mem \<Longrightarrow> ring_store mem i bs = ring_store mem j bs"
proof (induction bs arbitrary: i j mem)
  case (Cons b bs)
  then have "Suc (i mod length mem) mod length mem = Suc (j mod length mem) mod length mem" by (simp only:)
  then have "Suc i mod length mem = Suc j mod length mem" by (simp only: mod_Suc_eq)
  then have "ring_store (mem[i mod length mem := b]) (Suc i) bs = ring_store (mem[i mod length mem := b]) (Suc j) bs"
    by (intro Cons.IH) (simp only: length_list_update)
  then show ?case by (simp only: ring_store.simps Cons.prems)
qed simp

lemma ring_slots_store:
  assumes "n + length bs \<le> length mem"
  shows "ring_slots (ring_store mem (r + n) bs) r (n + length bs) = ring_slots mem r n @ bs"
  using assms
proof (induction bs arbitrary: n mem)
  case (Cons b bs)
  from Cons.prems have "ring_slots (mem[(r + n) mod length mem := b]) r (Suc n) = ring_slots mem r n @ [b]"
    by (intro ring_slots_push) simp
  with Cons.IH [of "Suc n" "mem[(r + n) mod length mem := b]"] Cons.prems show ?case by simp
qed simp

lemma ring_slots_take: "m \<le> n \<Longrightarrow> take m (ring_slots mem r n) = ring_slots mem r m"
  by (simp add: ring_slots_def take_map)

lemma ring_slots_drop: "drop m (ring_slots mem r n) = ring_slots mem (r + m) (n - m)"
proof (rule nth_equalityI)
  fix i assume "i < length (drop m (ring_slots mem r n))"
  then show "drop m (ring_slots mem r n) ! i = ring_slots mem (r + m) (n - m) ! i"
    by (simp add: ring_slots_def add.assoc less_diff_conv ac_simps)
qed simp


lemma mr_index_pos: "mr_inv q \<Longrightarrow> unat (p AND mr_mask q) = unat p mod unat (mr_cap q)"
  by (auto simp: mr_inv_def mr_good_cap_iff unat_and_pow2_minus_one unat_pow2)

lemma mr_inv_facts:
  assumes "mr_inv q"
  shows "0 < unat (mr_cap q)" "unat (mr_size q) \<le> unat (mr_cap q)" "unat (mr_cap q) \<le> 2 ^ 62"
    "\<And>p. unat (p AND mr_mask q) < unat (mr_cap q)"
proof -
  from assms obtain k where k: "12 \<le> k" "k \<le> 62" "mr_cap q = 2 ^ k" by (auto simp: mr_inv_def mr_good_cap_iff)
  then have u: "unat (mr_cap q) = 2 ^ k" by (simp add: unat_pow2)
  then show p: "0 < unat (mr_cap q)" by simp
  show "unat (mr_size q) \<le> unat (mr_cap q)" using assms by (simp add: mr_inv_def word_le_nat_alt)
  show "unat (mr_cap q) \<le> 2 ^ 62" unfolding u using k(2) by (intro power_increasing) auto
  show "unat (p AND mr_mask q) < unat (mr_cap q)" for p using p by (simp add: mr_index_pos [OF assms])
qed

lemma unat_add_mod_good: "mr_good_cap c \<Longrightarrow> unat (a + b) mod unat c = (unat a + unat b) mod unat c" for a b :: u64
  by (auto simp: mr_good_cap_iff unat_pow2 intro!: unat_add_mod_pow2)

lemma mr_write_fits:
  assumes inv: "mr_inv q" and fits: "unat (mr_size q) + length bs \<le> unat (mr_cap q)"
  shows "\<exists>q'. mr_write (of_nat (length bs)) (\<lambda>_. bs) q = Some (True, q') \<and> mr_inv q' \<and>
     mr_cap q' = mr_cap q \<and> mr_contents q' = mr_contents q @ bs"
proof -
  let ?c = "mr_cap q" and ?i = "unat (mr_wpos q AND mr_mask q)" and ?n = "of_nat (length bs) :: u64"
  note F = mr_inv_facts [OF inv]
  have good: "mr_good_cap ?c" and len: "length (mr_file q) = unat ?c" using inv by (auto simp: mr_inv_def)
  have "length bs < 2 ^ 64" using fits F by simp
  then have un: "unat ?n = length bs" by (simp add: unat_of_nat)
  have room: "\<not> ?c - (mr_wpos q - mr_rpos q) < ?n"
    using fits F by (simp add: word_less_nat_alt un unat_sub word_le_nat_alt mr_size_def)
  have b: "?i + length bs \<le> 2 * unat ?c" using F(4) [of "mr_wpos q"] fits by simp
  define q' where "q' = q\<lparr>mr_file := ring_store (mr_file q) ?i bs, mr_wpos := mr_wpos q + ?n\<rparr>"
  have w: "mr_write ?n (\<lambda>_. bs) q = Some (True, q')"
    using room b good len by (simp add: mr_write_def Let_def un mr_load_good mr_store_good q'_def)
  have size: "mr_size q' = mr_size q + ?n" by (simp add: q'_def mr_size_def)
  have us: "unat (mr_size q + ?n) = unat (mr_size q) + length bs"
    using fits F by (simp add: unat_word_ariths un)
  have inv': "mr_inv q'" using inv fits unfolding mr_inv_def size by (simp add: q'_def word_le_nat_alt us)
  have "mr_wpos q = mr_rpos q + mr_size q" by (simp add: mr_size_def)
  then have "?i mod length (mr_file q) = (unat (mr_rpos q) + unat (mr_size q)) mod length (mr_file q)"
    using unat_add_mod_good [OF good, of "mr_rpos q" "mr_size q"] by (simp add: mr_index_pos [OF inv] len)
  then have "ring_store (mr_file q) ?i bs = ring_store (mr_file q) (unat (mr_rpos q) + unat (mr_size q)) bs"
    by (rule ring_store_mod)
  then have "mr_contents q' = mr_contents q @ bs"
    unfolding mr_contents_def size us using fits by (simp add: q'_def ring_slots_store len)
  with w inv' show ?thesis by (auto simp: q'_def)
qed

lemma mr_write_full:
  assumes inv: "mr_inv q" and full: "unat (mr_cap q) < unat (mr_size q) + unat n"
  shows "mr_write n fn q = Some (False, q)"
proof -
  have "mr_cap q - (mr_wpos q - mr_rpos q) < n"
    using full mr_inv_facts(2) [OF inv] by (simp add: word_less_nat_alt unat_sub word_le_nat_alt mr_size_def less_diff_conv2)
  then show ?thesis by (simp add: mr_write_def Let_def)
qed

lemma mr_read_ready:
  assumes inv: "mr_inv q"
  shows "mr_read sz fn q = (if mr_contents q = [] \<or> length (mr_contents q) < unat sz then Some (None, q)
     else case fn (mr_contents q) of (consumed, r) \<Rightarrow> Some (Some r, q\<lparr>mr_rpos := mr_rpos q + consumed\<rparr>))"
proof -
  let ?i = "unat (mr_rpos q AND mr_mask q)"
  note F = mr_inv_facts [OF inv]
  have good: "mr_good_cap (mr_cap q)" and len: "length (mr_file q) = unat (mr_cap q)" using inv by (auto simp: mr_inv_def)
  have "mr_load (mr_cap q) (mr_file q) ?i (unat (mr_size q)) = Some (ring_slots (mr_file q) ?i (unat (mr_size q)))"
    using F(2) F(4) [of "mr_rpos q"] by (intro mr_load_good good len) simp
  also have "ring_slots (mr_file q) ?i (unat (mr_size q)) = mr_contents q"
    unfolding mr_contents_def by (rule ring_slots_mod) (simp add: mr_index_pos [OF inv] len)
  finally have l: "mr_load (mr_cap q) (mr_file q) ?i (unat (mr_wpos q - mr_rpos q)) = Some (mr_contents q)"
    by (simp add: mr_size_def)
  have "length (mr_contents q) = unat (mr_wpos q - mr_rpos q)" by (simp add: mr_contents_def mr_size_def)
  then have "mr_contents q = [] \<longleftrightarrow> mr_wpos q - mr_rpos q = 0"
    by (metis length_0_conv unat_eq_0)
  with l show ?thesis
    by (simp add: mr_read_def Let_def word_less_nat_alt mr_contents_def mr_size_def)
qed

lemma mr_advance:
  assumes inv: "mr_inv q" and n: "unat n \<le> length (mr_contents q)"
  defines "q' \<equiv> q\<lparr>mr_rpos := mr_rpos q + n\<rparr>"
  shows "mr_inv q'" "mr_contents q' = drop (unat n) (mr_contents q)"
proof -
  have good: "mr_good_cap (mr_cap q)" and len: "length (mr_file q) = unat (mr_cap q)" using inv by (auto simp: mr_inv_def)
  have size: "mr_size q' = mr_size q - n" by (simp add: q'_def mr_size_def)
  have le: "unat n \<le> unat (mr_size q)" using n by (simp add: mr_contents_def)
  then have us: "unat (mr_size q - n) = unat (mr_size q) - unat n" by (simp add: unat_sub word_le_nat_alt)
  show "mr_inv q'" using inv unfolding mr_inv_def size by (auto simp: q'_def word_le_nat_alt us)
  have "ring_slots (mr_file q) (unat (mr_rpos q + n)) m = ring_slots (mr_file q) (unat (mr_rpos q) + unat n) m" for m
    by (rule ring_slots_mod) (simp add: len unat_add_mod_good [OF good])
  then show "mr_contents q' = drop (unat n) (mr_contents q)"
    unfolding mr_contents_def size us by (simp add: q'_def ring_slots_drop)
qed


subsection \<open>The byte stream\<close>

text \<open>The client's view: a byte string is no longer than memory, and a read asks for at most that much.\<close>

definition mr_put :: "u8 list \<Rightarrow> magic_ring \<Rightarrow> bool \<times> magic_ring" where
  "mr_put bs q = (if length bs < 2 ^ 64
     then case mr_write (of_nat (length bs)) (\<lambda>_. bs) q of None \<Rightarrow> (False, q) | Some r \<Rightarrow> r
     else (False, q))"

definition mr_get :: "nat \<Rightarrow> magic_ring \<Rightarrow> u8 list \<times> magic_ring" where
  "mr_get n q = (case mr_read_buf (of_nat (min n (2 ^ 64 - 1))) q of None \<Rightarrow> ([], q) | Some (_, r) \<Rightarrow> r)"

lemma length_mr_contents: "length (mr_contents q) = unat (mr_size q)"
  by (simp add: mr_contents_def)

lemma mr_put_law:
  assumes inv: "mr_inv q" and put: "mr_put bs q = (ok, q')"
  shows "(mr_inv q' \<and> mr_cap q' = mr_cap q) \<and> mr_contents q' = (if ok then mr_contents q @ bs else mr_contents q)"
proof (cases "unat (mr_size q) + length bs \<le> unat (mr_cap q)")
  case True
  with mr_inv_facts(3) [OF inv] have "length bs < 2 ^ 64" by simp
  with mr_write_fits [OF inv True] put show ?thesis by (auto simp: mr_put_def)
next
  case False
  have "mr_put bs q = (False, q)"
    using mr_write_full [OF inv, of "of_nat (length bs)" "\<lambda>_. bs"] False
    by (auto simp: mr_put_def unat_of_nat)
  with put inv show ?thesis by auto
qed

lemma mr_read_buf_eq:
  assumes inv: "mr_inv q"
  shows "\<exists>q'. mr_read_buf sz q = Some (if mr_contents q = [] then 0 else 1, take (unat sz) (mr_contents q), q') \<and>
     mr_inv q' \<and> mr_cap q' = mr_cap q \<and> mr_contents q' = drop (unat sz) (mr_contents q)"
proof (cases "mr_contents q = []")
  case True
  with inv show ?thesis by (simp add: mr_read_buf_def mr_read_ready)
next
  case False
  let ?n = "min sz (of_nat (length (mr_contents q))) :: u64"
  have "of_nat (length (mr_contents q)) = mr_size q" by (simp add: length_mr_contents)
  then have n: "unat ?n = min (unat sz) (length (mr_contents q))"
    by (auto simp: min_def word_le_nat_alt length_mr_contents)
  then have "unat ?n \<le> length (mr_contents q)" by simp
  from mr_advance [OF inv this] False inv n show ?thesis
    by (simp add: mr_read_buf_def mr_read_ready Let_def min_def split: if_splits)
qed

lemma mr_get_law:
  assumes inv: "mr_inv q" and get: "mr_get n q = (bs, q')"
  shows "(mr_inv q' \<and> mr_cap q' = mr_cap q) \<and> bs = take n (mr_contents q) \<and> mr_contents q' = drop n (mr_contents q)"
proof -
  let ?m = "min n (2 ^ 64 - 1)"
  have u: "unat (of_nat ?m :: u64) = ?m" by (simp add: unat_of_nat)
  have "length (mr_contents q) \<le> 2 ^ 64 - 1"
    using mr_inv_facts(2,3) [OF inv] by (simp add: length_mr_contents)
  then have "take ?m (mr_contents q) = take n (mr_contents q)" "drop ?m (mr_contents q) = drop n (mr_contents q)"
    by (simp_all add: min_def)
  with mr_read_buf_eq [OF inv, of "of_nat ?m"] get show ?thesis
    unfolding u by (auto simp: mr_get_def)
qed

interpretation mrs: byte_stream mr_put mr_get mr_contents "\<lambda>q. mr_inv q \<and> mr_cap q = c" for c
  by unfold_locales (use mr_put_law mr_get_law in blast)+

lemma mr_new_ok:
  assumes "mr_good_cap c"
  shows "\<exists>q. mr_new c = Some q \<and> mr_inv q \<and> mr_contents q = [] \<and> mr_cap q = c"
proof -
  have "is_pow2 c" using assms by (simp add: mr_good_cap_def)
  moreover have "0 < unat c" using assms by (auto simp: mr_good_cap_iff unat_pow2)
  ultimately show ?thesis using assms
    by (simp add: mr_new_def mr_mask_of_def mr_inv_def mr_plen_good mr_size_def mr_contents_def)
qed

text \<open>
  C28: A \<open>MagicRingBuffer\<close> whose capacity is a power of two of at least a page is a byte stream: over any
  sequence of writes and reads no access faults and the bytes accepted are the bytes read followed by
  those still buffered, although every message is accessed as one contiguous region.
\<close>

theorem magic_ring_stream:
  assumes "mr_good_cap c"
  shows "\<exists>q acc out q'. mr_new c = Some q \<and> srun mr_put mr_get ops q = (acc, out, q') \<and>
     acc = out @ mr_contents q' \<and> (\<forall>n. mr_read_buf n q' \<noteq> None) \<and>
     (\<forall>bs. length bs < 2 ^ 64 \<longrightarrow> (\<exists>ok q''. mr_write (of_nat (length bs)) (\<lambda>_. bs) q' = Some (ok, q'') \<and>
       (ok \<longleftrightarrow> length (mr_contents q') + length bs \<le> unat c)))"
proof -
  from mr_new_ok [OF assms] obtain q where q: "mr_new c = Some q" "mr_inv q \<and> mr_cap q = c" "mr_contents q = []" by blast
  obtain acc out q' where r: "srun mr_put mr_get ops q = (acc, out, q')" by (metis prod_cases3)
  from mrs.run_stream [OF q(2) r] q(3) have *: "mr_inv q'" "mr_cap q' = c" "acc = out @ mr_contents q'" by simp_all
  have "\<exists>ok q''. mr_write (of_nat (length bs)) (\<lambda>_. bs) q' = Some (ok, q'') \<and>
       (ok \<longleftrightarrow> length (mr_contents q') + length bs \<le> unat c)" if "length bs < 2 ^ 64" for bs
  proof (cases "unat (mr_size q') + length bs \<le> unat (mr_cap q')")
    case True
    from mr_write_fits [OF *(1) this] True * show ?thesis by (auto simp: length_mr_contents)
  next
    case False
    with mr_write_full [OF *(1), of "of_nat (length bs)" "\<lambda>_. bs"] that * show ?thesis
      by (auto simp: unat_of_nat length_mr_contents)
  qed
  moreover have "mr_read_buf n q' \<noteq> None" for n using mr_read_buf_eq [OF *(1), of n] by auto
  ultimately show ?thesis using q(1) r *(3) by blast
qed

theorem magic_ring_stream_witness:
  "mr_good_cap 4096 \<and> (\<exists>q acc out q'. mr_new 4096 = Some q \<and>
     srun mr_put mr_get [Write [1, 2, 3], Read 2, Write [4]] q = (acc, out, q') \<and> acc = out @ mr_contents q')"
proof -
  have g: "mr_good_cap 4096" by (simp add: mr_good_cap_def is_pow2_def PageSize_def)
  with magic_ring_stream [OF g, of "[Write [1, 2, 3], Read 2, Write [4]]"] show ?thesis by blast
qed

lemma mr_plen_small:
  assumes "unat c < 2048"
  shows "mr_plen c = PageSize"
proof -
  have s: "unat (c + 6144) = unat c + 6144" using assms by (simp add: unat_word_ariths)
  have "(unat c + 6144) mod 4096 = unat c + 2048" using assms by (simp add: mod_if)
  then have "unat ((c + 6144) AND NOT (mask 12)) = 4096"
    unfolding unat_and_not_mask s by simp
  then show ?thesis by (simp add: mr_plen_def mr_round_up PageSize_def)
qed

text \<open>
  The mapping is wrong for capacities below a page, because \<open>round_up_page_size\<close> rounds to the nearest
  page: below 2048 the constructor throws although the capacity may be a power of two, and with 2048
  the mirror starts one page up instead of behind the buffer, so a byte written across the end is not the
  byte at its start.
\<close>

theorem magic_ring_small_capacity:
  "(unat c < 2048 \<longrightarrow> mr_new c = None) \<and>
   mr_new 2048 \<noteq> None \<and> mr_index 2048 0 = Some 0 \<and> mr_index 2048 2048 = Some 2048"
proof -
  have "mr_plen 2048 = 8192"
    by (simp add: mr_plen_def round_up_page_size_def mr_sizeof_impl_def PageSize_def drop_bit_nat_def flip: numeral_2_eq_2)
  then show ?thesis
    by (simp add: mr_plen_small mr_new_def mr_mask_of_def is_pow2_def mr_index_def magic_map_def PageSize_def)
qed

theorem magic_ring_small_capacity_witness: "unat (1024::u64) < 2048 \<and> is_pow2 1024 \<and> mr_new 1024 = None"
  using magic_ring_small_capacity [of 1024] by (simp add: is_pow2_def)

text \<open>
  \<open>size_t read(void* buf, size_t size)\<close> is documented to return the number of bytes read. It copies the
  right bytes, but returns 1 whenever the buffer is not empty.
\<close>

theorem magic_ring_read_count:
  assumes "mr_inv q"
  shows "\<exists>q'. mr_read_buf sz q = Some (if mr_contents q = [] then 0 else 1, take (unat sz) (mr_contents q), q')"
  using mr_read_buf_eq [OF assms] by blast

theorem magic_ring_read_count_witness:
  "\<exists>q'. mr_read_buf 8 \<lparr>mr_cap = 4096, mr_mask = 4095, mr_rpos = 0, mr_wpos = 3, mr_file = replicate 4096 7\<rparr> = Some (1, [7, 7, 7], q')"
proof -
  let ?q = "\<lparr>mr_cap = 4096, mr_mask = 4095, mr_rpos = 0, mr_wpos = 3, mr_file = replicate 4096 (7::u8)\<rparr>"
  have "mr_inv ?q" by (simp add: mr_inv_def mr_good_cap_def is_pow2_def PageSize_def mr_size_def)
  moreover have "mr_contents ?q = [7, 7, 7]" by (simp add: mr_contents_def mr_size_def ring_slots_def upt_rec)
  ultimately show ?thesis using magic_ring_read_count [of ?q 8] by simp
qed

end
