(* ===== verification/MpmcQueue.thy ===== *)
theory MpmcQueue
  imports Numeric Queues
begin

text \<open>
  The model of \<open>ipc/MpmcQueue.hpp\<close>, a bounded multi-producer multi-consumer queue in which every slot
  carries a sequence number. The first half is the code run by one thread, where \<open>read\<close> and \<open>write\<close>
  implement the interface \<open>bounded_queue\<close>. The second half is the code run by any number of threads: a
  step relation in which every access to shared memory is one step (the atomics are taken to be
  sequentially consistent) and the weak compare-and-exchange may fail spuriously. Positions and
  sequence numbers are natural numbers: the 64 bit counters of the code do not wrap in practice.
\<close>

subsection \<open>State and construction\<close>

record 'a mpmc_elem =
  me_seq :: nat
  me_val :: 'a

record 'a mpmc_queue =
  mq_cap :: nat
  mq_mask :: nat
  mq_rpos :: nat
  mq_wpos :: nat
  mq_elems :: "'a mpmc_elem list"

text \<open>
  Memory cleared by \<open>memset\<close> (\<open>zero\<close> is the value of all zero bytes), then the first \<open>n\<close> sequence numbers
  set to their index.
\<close>

definition mq_init :: "'a \<Rightarrow> nat \<Rightarrow> nat \<Rightarrow> 'a mpmc_queue" where
  "mq_init zero c n = \<lparr>mq_cap = c, mq_mask = c - 1, mq_rpos = 0, mq_wpos = 0,
     mq_elems = map (\<lambda>i. \<lparr>me_seq = (if i < n then i else 0), me_val = zero\<rparr>) [0..<c]\<rparr>"

text \<open>The constructor from a capacity, whose loop runs up to its argument.\<close>

definition mq_ctor :: "'a \<Rightarrow> u64 \<Rightarrow> 'a mpmc_queue option" where
  "mq_ctor zero capacity = (case next_pow2_ulong capacity of None \<Rightarrow> None
     | Some c \<Rightarrow> Some (mq_init zero (unat c) (unat capacity)))"

text \<open>\<open>new_mpmc_queue\<close>, whose loop runs up to the rounded capacity.\<close>

definition new_mpmc_queue :: "'a \<Rightarrow> u64 \<Rightarrow> 'a mpmc_queue option" where
  "new_mpmc_queue zero capacity = (case next_pow2_ulong capacity of None \<Rightarrow> None
     | Some c \<Rightarrow> Some (mq_init zero (unat c) (unat c)))"

definition mq_empty :: "'a mpmc_queue \<Rightarrow> bool" where
  "mq_empty q \<longleftrightarrow> mq_rpos q = mq_wpos q"

definition mq_size :: "'a mpmc_queue \<Rightarrow> nat" where
  "mq_size q = mq_wpos q - mq_rpos q"

definition mq_full :: "'a mpmc_queue \<Rightarrow> bool" where
  "mq_full q \<longleftrightarrow> mq_size q = mq_cap q"

definition mq_available :: "'a mpmc_queue \<Rightarrow> nat" where
  "mq_available q = mq_cap q - mq_size q"

definition mq_elem :: "'a mpmc_queue \<Rightarrow> nat \<Rightarrow> 'a mpmc_elem" where
  "mq_elem q pos = mq_elems q ! (pos AND mq_mask q)"

definition mq_set_val :: "nat \<Rightarrow> 'a \<Rightarrow> 'a mpmc_queue \<Rightarrow> 'a mpmc_queue" where
  "mq_set_val pos v q = q\<lparr>mq_elems := (mq_elems q)[pos AND mq_mask q := (mq_elem q pos)\<lparr>me_val := v\<rparr>]\<rparr>"

definition mq_set_seq :: "nat \<Rightarrow> nat \<Rightarrow> 'a mpmc_queue \<Rightarrow> 'a mpmc_queue" where
  "mq_set_seq pos s q = q\<lparr>mq_elems := (mq_elems q)[pos AND mq_mask q := (mq_elem q pos)\<lparr>me_seq := s\<rparr>]\<rparr>"

subsection \<open>One thread\<close>

text \<open>
  The loops of \<open>read\<close> and \<open>write\<close>, entered with the loaded position. With one thread the
  compare-and-exchange succeeds exactly when the position is still the current one. A loop that
  never ends has the value \<open>None\<close>.
\<close>

partial_function (option) mq_read_loop :: "'a mpmc_queue \<Rightarrow> nat \<Rightarrow> ('a \<times> 'a mpmc_queue) option option" where
  "mq_read_loop q rpos = (let elem = mq_elem q rpos; diff = int (me_seq elem) - (int rpos + 1) in
     if diff = 0 then
       (if mq_rpos q = rpos
        then Some (Some (me_val elem, mq_set_seq rpos (rpos + mq_cap q) (q\<lparr>mq_rpos := rpos + 1\<rparr>)))
        else mq_read_loop q (mq_rpos q))
     else if diff < 0 then Some None
     else mq_read_loop q (mq_rpos q))"

definition mq_read :: "'a mpmc_queue \<Rightarrow> ('a \<times> 'a mpmc_queue) option option" where
  "mq_read q = mq_read_loop q (mq_rpos q)"

partial_function (option) mq_write_loop :: "('a \<Rightarrow> 'a) \<Rightarrow> 'a mpmc_queue \<Rightarrow> nat \<Rightarrow> (bool \<times> 'a mpmc_queue) option" where
  "mq_write_loop fn q wpos = (let elem = mq_elem q wpos; diff = int (me_seq elem) - int wpos in
     if diff = 0 then
       (if mq_wpos q = wpos
        then Some (True, mq_set_seq wpos (wpos + 1) (mq_set_val wpos (fn (me_val elem)) (q\<lparr>mq_wpos := wpos + 1\<rparr>)))
        else mq_write_loop fn q (mq_wpos q))
     else if diff < 0 then Some (False, q)
     else mq_write_loop fn q (mq_wpos q))"

definition mq_write :: "('a \<Rightarrow> 'a) \<Rightarrow> 'a mpmc_queue \<Rightarrow> (bool \<times> 'a mpmc_queue) option" where
  "mq_write fn q = mq_write_loop fn q (mq_wpos q)"

definition mq_pop :: "'a mpmc_queue \<Rightarrow> ('a \<times> 'a mpmc_queue) option option" where
  "mq_pop q = mq_read q"

definition mq_push :: "'a \<Rightarrow> 'a mpmc_queue \<Rightarrow> (bool \<times> 'a mpmc_queue) option" where
  "mq_push val q = mq_write (\<lambda>_. val) q"

subsection \<open>Slots\<close>

definition mq_shape :: "'a mpmc_queue \<Rightarrow> bool" where
  "mq_shape q \<longleftrightarrow> (\<exists>k. 0 < k \<and> mq_cap q = 2 ^ k) \<and> mq_mask q = mq_cap q - 1 \<and> length (mq_elems q) = mq_cap q"

lemma and_mask_mod: "(p::nat) AND (2 ^ k - 1) = p mod 2 ^ k"
  by (metis mask_eq_exp_minus_1 take_bit_eq_mask take_bit_eq_mod)

lemma mq_shape_facts:
  assumes "mq_shape q"
  shows "2 \<le> mq_cap q" "p AND mq_mask q = p mod mq_cap q" "length (mq_elems q) = mq_cap q"
proof -
  from assms obtain k where k: "0 < k" "mq_cap q = 2 ^ k" "mq_mask q = mq_cap q - 1" "length (mq_elems q) = mq_cap q"
    by (auto simp: mq_shape_def)
  have "(2::nat) ^ 1 \<le> 2 ^ k" using k(1) by (intro power_increasing) auto
  with k show "2 \<le> mq_cap q" "p AND mq_mask q = p mod mq_cap q" "length (mq_elems q) = mq_cap q"
    using and_mask_mod [of p k] by simp_all
qed

text \<open>Two positions of one window of \<open>cap\<close> positions have different slots.\<close>

lemma window_mod_eq:
  fixes p p' L :: nat
  assumes "p mod L = p' mod L" and "p \<le> p'" and "p' < p + L"
  shows "p = p'"
proof -
  have "0 = p' - p" using assms by (intro mod_add_inj [of p 0 L "p' - p"]) auto
  with assms show ?thesis by simp
qed

lemma window_mod_neq:
  fixes p p' r L :: nat
  assumes "p \<in> {r ..< r + L}" and "p' \<in> {r ..< r + L}" and "p \<noteq> p'"
  shows "p mod L \<noteq> p' mod L"
proof
  assume "p mod L = p' mod L"
  with assms window_mod_eq [of p L p'] window_mod_eq [of p' L p] show False by (cases "p \<le> p'") auto
qed

lemma mq_set_simps [simp]:
  "mq_cap (mq_set_val p v q) = mq_cap q" "mq_cap (mq_set_seq p s q) = mq_cap q"
  "mq_mask (mq_set_val p v q) = mq_mask q" "mq_mask (mq_set_seq p s q) = mq_mask q"
  "mq_rpos (mq_set_val p v q) = mq_rpos q" "mq_rpos (mq_set_seq p s q) = mq_rpos q"
  "mq_wpos (mq_set_val p v q) = mq_wpos q" "mq_wpos (mq_set_seq p s q) = mq_wpos q"
  by (simp_all add: mq_set_val_def mq_set_seq_def)

lemma mq_shape_upd [simp]:
  "mq_shape (mq_set_val p v q) = mq_shape q" "mq_shape (mq_set_seq p s q) = mq_shape q"
  "mq_shape (q\<lparr>mq_rpos := r\<rparr>) = mq_shape q" "mq_shape (q\<lparr>mq_wpos := r\<rparr>) = mq_shape q"
  by (simp_all add: mq_shape_def mq_set_val_def mq_set_seq_def)

lemma mq_elem_pos [simp]: "mq_elem (q\<lparr>mq_rpos := r\<rparr>) p = mq_elem q p" "mq_elem (q\<lparr>mq_wpos := r\<rparr>) p = mq_elem q p"
  by (simp_all add: mq_elem_def)

lemma mq_elem_set:
  assumes "mq_shape q"
  shows "mq_elem (mq_set_val p v q) p' = (if p' mod mq_cap q = p mod mq_cap q then (mq_elem q p')\<lparr>me_val := v\<rparr> else mq_elem q p')"
    "mq_elem (mq_set_seq p s q) p' = (if p' mod mq_cap q = p mod mq_cap q then (mq_elem q p')\<lparr>me_seq := s\<rparr> else mq_elem q p')"
proof -
  note F = mq_shape_facts [OF assms]
  have "p mod mq_cap q < mq_cap q" using F(1) by simp
  then show "mq_elem (mq_set_val p v q) p' = (if p' mod mq_cap q = p mod mq_cap q then (mq_elem q p')\<lparr>me_val := v\<rparr> else mq_elem q p')"
    "mq_elem (mq_set_seq p s q) p' = (if p' mod mq_cap q = p mod mq_cap q then (mq_elem q p')\<lparr>me_seq := s\<rparr> else mq_elem q p')"
    by (simp_all add: mq_elem_def mq_set_val_def mq_set_seq_def F)
qed

lemma mq_elem_cong: "mq_shape q \<Longrightarrow> p mod mq_cap q = p' mod mq_cap q \<Longrightarrow> mq_elem q p = mq_elem q p'"
  by (simp add: mq_elem_def mq_shape_facts)

subsection \<open>The single-threaded queue\<close>

definition mq_inv :: "'a mpmc_queue \<Rightarrow> bool" where
  "mq_inv q \<longleftrightarrow> mq_shape q \<and> mq_rpos q \<le> mq_wpos q \<and> mq_wpos q \<le> mq_rpos q + mq_cap q \<and>
     (\<forall>p \<in> {mq_rpos q ..< mq_wpos q}. me_seq (mq_elem q p) = p + 1) \<and>
     (\<forall>p \<in> {mq_wpos q ..< mq_rpos q + mq_cap q}. me_seq (mq_elem q p) = p)"

definition mq_contents :: "'a mpmc_queue \<Rightarrow> 'a list" where
  "mq_contents q = map (\<lambda>p. me_val (mq_elem q p)) [mq_rpos q ..< mq_wpos q]"

lemma mq_inv_full_seq:
  assumes "mq_inv q" and "mq_wpos q = mq_rpos q + mq_cap q"
  shows "me_seq (mq_elem q (mq_wpos q)) = mq_rpos q + 1"
proof -
  have s: "mq_shape q" using assms by (simp add: mq_inv_def)
  have "mq_elem q (mq_wpos q) = mq_elem q (mq_rpos q)"
    using mq_elem_cong [OF s, of "mq_wpos q" "mq_rpos q"] assms(2) by simp
  with assms mq_shape_facts(1) [OF s] show ?thesis by (simp add: mq_inv_def)
qed

lemma mq_write_full:
  assumes "mq_inv q" and "mq_wpos q = mq_rpos q + mq_cap q"
  shows "mq_write fn q = Some (False, q)"
proof -
  have "2 \<le> mq_cap q" using assms mq_shape_facts by (auto simp: mq_inv_def)
  with mq_inv_full_seq [OF assms] assms(2) show ?thesis
    by (simp add: mq_write_def mq_write_loop.simps Let_def)
qed

lemma mq_write_room:
  fixes fn :: "'a \<Rightarrow> 'a"
  assumes inv: "mq_inv q" and room: "mq_wpos q < mq_rpos q + mq_cap q"
  defines "w \<equiv> mq_wpos q"
  defines "q' \<equiv> mq_set_seq w (w + 1) (mq_set_val w (fn (me_val (mq_elem q w))) (q\<lparr>mq_wpos := w + 1\<rparr>))"
  shows "mq_write fn q = Some (True, q')" "mq_inv q'"
    "mq_contents q' = mq_contents q @ [fn (me_val (mq_elem q w))]"
proof -
  have s: "mq_shape q" using inv by (simp add: mq_inv_def)
  have seq: "me_seq (mq_elem q w) = w" using inv room by (simp add: mq_inv_def w_def)
  then show "mq_write fn q = Some (True, q')"
    by (simp add: mq_write_def mq_write_loop.simps Let_def q'_def w_def)
  have other: "mq_elem q' p = mq_elem q p" if "p \<in> {mq_rpos q ..< mq_rpos q + mq_cap q}" "p \<noteq> w" for p
  proof -
    have "p mod mq_cap q \<noteq> w mod mq_cap q"
      using that inv room by (intro window_mod_neq [where r = "mq_rpos q"]) (auto simp: w_def mq_inv_def)
    then show ?thesis by (simp add: q'_def mq_elem_set s)
  qed
  have at_w: "mq_elem q' w = \<lparr>me_seq = w + 1, me_val = fn (me_val (mq_elem q w))\<rparr>"
    by (simp add: q'_def mq_elem_set s)
  have fields: "mq_rpos q' = mq_rpos q" "mq_wpos q' = w + 1" "mq_cap q' = mq_cap q" "mq_shape q'"
    using s by (simp_all add: q'_def)
  show "mq_inv q'"
    unfolding mq_inv_def fields
    using inv room other at_w fields(4) by (auto simp: mq_inv_def w_def less_Suc_eq)
  have "mq_contents q' = map (\<lambda>p. me_val (mq_elem q' p)) [mq_rpos q ..< w] @ [fn (me_val (mq_elem q w))]"
    using inv at_w by (simp add: mq_contents_def fields mq_inv_def w_def)
  also have "map (\<lambda>p. me_val (mq_elem q' p)) [mq_rpos q ..< w] = mq_contents q"
    unfolding mq_contents_def w_def [symmetric] using room other by (intro map_cong refl) (auto simp: w_def)
  finally show "mq_contents q' = mq_contents q @ [fn (me_val (mq_elem q w))]" .
qed

lemma mq_read_empty:
  assumes "mq_inv q" and "mq_rpos q = mq_wpos q"
  shows "mq_read q = Some None"
proof -
  have "2 \<le> mq_cap q" using assms mq_shape_facts by (auto simp: mq_inv_def)
  then have "me_seq (mq_elem q (mq_rpos q)) = mq_rpos q" using assms by (simp add: mq_inv_def)
  then show ?thesis by (simp add: mq_read_def mq_read_loop.simps Let_def)
qed

lemma mq_read_some:
  assumes inv: "mq_inv q" and ne: "mq_rpos q < mq_wpos q"
  defines "r \<equiv> mq_rpos q"
  defines "q' \<equiv> mq_set_seq r (r + mq_cap q) (q\<lparr>mq_rpos := r + 1\<rparr>)"
  shows "mq_read q = Some (Some (me_val (mq_elem q r), q'))" "mq_inv q'"
    "mq_contents q = me_val (mq_elem q r) # mq_contents q'"
proof -
  have s: "mq_shape q" using inv by (simp add: mq_inv_def)
  have seq: "me_seq (mq_elem q r) = r + 1" using inv ne by (simp add: mq_inv_def r_def)
  then show "mq_read q = Some (Some (me_val (mq_elem q r), q'))"
    by (simp add: mq_read_def mq_read_loop.simps Let_def q'_def r_def)
  have other: "mq_elem q' p = mq_elem q p" if "p \<in> {r <..< r + mq_cap q}" for p
  proof -
    have "p mod mq_cap q \<noteq> r mod mq_cap q" using that window_mod_eq [of r "mq_cap q" p] by auto
    then show ?thesis by (simp add: q'_def mq_elem_set s)
  qed
  have fields: "mq_rpos q' = r + 1" "mq_wpos q' = mq_wpos q" "mq_cap q' = mq_cap q" "mq_shape q'"
    using s by (simp_all add: q'_def)
  have at_r: "me_seq (mq_elem q' (r + mq_cap q)) = r + mq_cap q"
    by (simp add: q'_def mq_elem_set s)
  show "mq_inv q'"
    unfolding mq_inv_def fields
    using inv ne other at_r fields(4) by (auto simp: mq_inv_def r_def less_Suc_eq)
  have "mq_contents q = me_val (mq_elem q r) # map (\<lambda>p. me_val (mq_elem q p)) [Suc r ..< mq_wpos q]"
    using ne by (simp add: mq_contents_def upt_conv_Cons r_def)
  also have "map (\<lambda>p. me_val (mq_elem q p)) [Suc r ..< mq_wpos q] = mq_contents q'"
    unfolding mq_contents_def fields
    using inv other by (intro map_cong refl) (auto simp: mq_inv_def r_def)
  finally show "mq_contents q = me_val (mq_elem q r) # mq_contents q'" .
qed


text \<open>The queue as the client of the interface sees it: a loop that does not end would be a refused call.\<close>

definition mq_try_push :: "'a \<Rightarrow> 'a mpmc_queue \<Rightarrow> bool \<times> 'a mpmc_queue" where
  "mq_try_push v q = (case mq_push v q of None \<Rightarrow> (False, q) | Some r \<Rightarrow> r)"

definition mq_try_pop :: "'a mpmc_queue \<Rightarrow> ('a \<times> 'a mpmc_queue) option" where
  "mq_try_pop q = (case mq_pop q of None \<Rightarrow> None | Some r \<Rightarrow> r)"

lemma length_mq_contents: "length (mq_contents q) = mq_wpos q - mq_rpos q"
  by (simp add: mq_contents_def)

lemma mq_cases:
  assumes "mq_inv q"
  shows "length (mq_contents q) = mq_cap q \<longleftrightarrow> mq_wpos q = mq_rpos q + mq_cap q"
    "length (mq_contents q) < mq_cap q \<longleftrightarrow> mq_wpos q < mq_rpos q + mq_cap q"
    "mq_contents q = [] \<longleftrightarrow> mq_rpos q = mq_wpos q" "length (mq_contents q) \<le> mq_cap q"
  using assms by (auto simp: mq_inv_def length_mq_contents simp flip: length_0_conv)

interpretation mqs: bounded_queue mq_try_push mq_try_pop mq_contents mq_cap mq_inv
proof (unfold_locales, goal_cases)
  case (1 q x)
  then show ?case by (simp add: mq_try_push_def mq_push_def mq_write_full mq_cases)
next
  case (2 q x)
  then have "mq_wpos q < mq_rpos q + mq_cap q" by (simp add: mq_cases)
  note R = mq_write_room [OF 2(1) this, where fn = "\<lambda>_. x"]
  show ?case using R by (simp add: mq_try_push_def mq_push_def)
next
  case (3 q)
  then show ?case by (simp add: mq_try_pop_def mq_pop_def mq_read_empty mq_cases)
next
  case (4 q x xs)
  then have "mq_rpos q \<noteq> mq_wpos q" using mq_cases(3) [of q] by auto
  with 4(1) have "mq_rpos q < mq_wpos q" by (simp add: mq_inv_def)
  note R = mq_read_some [OF 4(1) this]
  show ?case using R 4 by (simp add: mq_try_pop_def mq_pop_def)
next
  case (5 q)
  then show ?case by (rule mq_cases)
qed

lemma mq_init_inv:
  assumes "0 < k"
  shows "mq_inv (mq_init z (2 ^ k) (2 ^ k)) \<and> mq_contents (mq_init z (2 ^ k) (2 ^ k)) = []"
proof -
  let ?q = "mq_init z (2 ^ k) (2 ^ k)"
  have s: "mq_shape ?q" using assms by (auto simp: mq_shape_def mq_init_def)
  moreover have "mq_elem ?q p = \<lparr>me_seq = p, me_val = z\<rparr>" if "p < 2 ^ k" for p
    using that mq_shape_facts(2) [OF s, of p] by (simp add: mq_elem_def mq_init_def)
  ultimately show ?thesis by (auto simp: mq_inv_def mq_contents_def mq_init_def)
qed

lemma new_mpmc_queue_ok:
  assumes "2 \<le> n" and "n \<le> 2 ^ 30"
  shows "\<exists>k. 0 < k \<and> unat n \<le> 2 ^ k \<and> new_mpmc_queue z n = Some (mq_init z (2 ^ k) (2 ^ k))"
proof -
  from next_pow2_small [OF assms(2)] obtain k where k: "k \<le> 30" "next_pow2_ulong n = Some (2 ^ k)" "unat n \<le> 2 ^ k"
    by blast
  from assms(1) have "2 \<le> unat n" by (simp add: word_le_nat_alt)
  with k have "0 < k" by (cases k) auto
  with k show ?thesis by (auto simp: new_mpmc_queue_def unat_pow2)
qed

lemma mq_returns:
  assumes "mq_inv q"
  shows "mq_push v q \<noteq> None" "mq_pop q \<noteq> None"
proof -
  have b: "mq_rpos q \<le> mq_wpos q" "mq_wpos q \<le> mq_rpos q + mq_cap q" using assms by (simp_all add: mq_inv_def)
  then consider "mq_wpos q < mq_rpos q + mq_cap q" | "mq_wpos q = mq_rpos q + mq_cap q" by linarith
  then show "mq_push v q \<noteq> None"
    by cases (simp_all add: mq_push_def mq_write_room(1) [OF assms] mq_write_full [OF assms])
  from b consider "mq_rpos q < mq_wpos q" | "mq_rpos q = mq_wpos q" by linarith
  then show "mq_pop q \<noteq> None"
    by cases (simp_all add: mq_pop_def mq_read_some(1) [OF assms] mq_read_empty [OF assms])
qed

text \<open>
  Used by one thread, a queue made by \<open>new_mpmc_queue\<close> is a bounded FIFO queue: over any sequence of
  calls the values accepted are the values popped followed by those still queued, at least the requested
  capacity fits, and in every state reached the loops of \<open>push\<close> and \<open>pop\<close> return.
\<close>

theorem mpmc_sequential_fifo:
  assumes "2 \<le> n" and "n \<le> 2 ^ 30"
  shows "\<exists>q acc out q'. new_mpmc_queue z n = Some q \<and> qrun mq_try_push mq_try_pop ops q = (acc, out, q') \<and>
     acc = out @ mq_contents q' \<and> unat n \<le> mq_cap q' \<and> length (mq_contents q') \<le> mq_cap q' \<and>
     (\<forall>v. mq_push v q' \<noteq> None) \<and> mq_pop q' \<noteq> None"
proof -
  from new_mpmc_queue_ok [OF assms, of z] obtain k where k: "0 < k" "unat n \<le> 2 ^ k"
    "new_mpmc_queue z n = Some (mq_init z (2 ^ k) (2 ^ k))" by blast
  let ?q = "mq_init z (2 ^ k) (2 ^ k)"
  have cap: "mq_cap ?q = 2 ^ k" by (simp add: mq_init_def)
  obtain acc out q' where r: "qrun mq_try_push mq_try_pop ops ?q = (acc, out, q')" by (metis prod_cases3)
  have inv: "mq_inv ?q" "mq_contents ?q = []" using mq_init_inv [OF k(1), of z] by auto
  from mqs.run_fifo [OF inv(1) r] inv cap have "mq_inv q'" "mq_cap q' = 2 ^ k" "acc = out @ mq_contents q'" by auto
  with k r mqs.bounded [of q'] mq_returns [of q'] show ?thesis by auto
qed

theorem mpmc_sequential_fifo_witness:
  "(2::u64) \<le> 3 \<and> (3::u64) \<le> 2 ^ 30 \<and> (\<exists>q acc out q'. new_mpmc_queue (0::nat) 3 = Some q \<and>
     qrun mq_try_push mq_try_pop [Push 1, Push 2, Pop, Push 3] q = (acc, out, q') \<and> acc = out @ mq_contents q')"
  using mpmc_sequential_fifo [of 3 "0::nat" "[Push 1, Push 2, Pop, Push 3]"] by auto


subsection \<open>The constructor with a capacity that is not a power of two\<close>

text \<open>The slot behind the last initialised one is never claimed: its sequence number stays zero.\<close>

definition mq_stuck :: "nat \<Rightarrow> 'a mpmc_queue \<Rightarrow> bool" where
  "mq_stuck n q \<longleftrightarrow> mq_shape q \<and> 0 < n \<and> n < mq_cap q \<and> mq_rpos q \<le> n \<and> mq_wpos q \<le> n \<and>
     me_seq (mq_elem q n) = 0"

lemma mq_stuck_elem:
  assumes "mq_stuck n q" and "p < n"
  shows "mq_elem (mq_set_seq p s q) n = mq_elem q n" "mq_elem (mq_set_val p v q) n = mq_elem q n"
  using assms by (auto simp: mq_stuck_def mq_elem_set)

lemma mq_stuck_claim:
  assumes "mq_stuck n q"
  shows "me_seq (mq_elem q (mq_wpos q)) = mq_wpos q \<Longrightarrow> mq_wpos q < n"
    "me_seq (mq_elem q (mq_rpos q)) = mq_rpos q + 1 \<Longrightarrow> mq_rpos q < n"
  using assms by (cases "mq_wpos q = n"; cases "mq_rpos q = n"; simp add: mq_stuck_def)+

lemma mq_stuck_write:
  assumes "mq_write_loop fn q wpos = Some r" and "mq_stuck n q"
  shows "mq_stuck n (snd r) \<and> mq_wpos (snd r) = mq_wpos q + (if fst r then 1 else 0)"
  using assms
proof (induction rule: mq_write_loop.raw_induct [rotated, consumes 1])
  case (1 loop fn q wpos r)
  let ?v = "fn (me_val (mq_elem q wpos))"
  have claimed: "mq_stuck n (mq_set_seq wpos (wpos + 1) (mq_set_val wpos ?v (q\<lparr>mq_wpos := wpos + 1\<rparr>)))"
    if "me_seq (mq_elem q wpos) = wpos" "mq_wpos q = wpos"
  proof -
    have lt: "wpos < n" using that mq_stuck_claim(1) [OF 1(3)] by simp
    then have "mq_stuck n (q\<lparr>mq_wpos := wpos + 1\<rparr>)" using 1(3) by (simp add: mq_stuck_def)
    then have "mq_stuck n (mq_set_val wpos ?v (q\<lparr>mq_wpos := wpos + 1\<rparr>))"
      using lt mq_stuck_elem(2) [of n "q\<lparr>mq_wpos := wpos + 1\<rparr>" wpos ?v] by (simp add: mq_stuck_def)
    then show ?thesis
      using lt mq_stuck_elem(1) [of n "mq_set_val wpos ?v (q\<lparr>mq_wpos := wpos + 1\<rparr>)" wpos "wpos + 1"]
      by (simp add: mq_stuck_def)
  qed
  from 1(2) 1(3) claimed show ?case
    by (auto simp: Let_def split: if_splits dest: 1(1))
qed

lemma mq_stuck_read:
  assumes "mq_read_loop q rpos = Some r" and "mq_stuck n q" and "r = Some (v, q')"
  shows "mq_stuck n q' \<and> mq_wpos q' = mq_wpos q"
  using assms
proof (induction rule: mq_read_loop.raw_induct [rotated, consumes 1])
  case (1 loop q rpos r)
  have claimed: "mq_stuck n (mq_set_seq rpos (rpos + mq_cap q) (q\<lparr>mq_rpos := rpos + 1\<rparr>))"
    if "me_seq (mq_elem q rpos) = rpos + 1" "mq_rpos q = rpos"
  proof -
    have lt: "rpos < n" using that mq_stuck_claim(2) [OF 1(3)] by simp
    then have "mq_stuck n (q\<lparr>mq_rpos := rpos + 1\<rparr>)" using 1(3) by (simp add: mq_stuck_def)
    then show ?thesis
      using lt mq_stuck_elem(1) [of n "q\<lparr>mq_rpos := rpos + 1\<rparr>" rpos "rpos + mq_cap q"]
      by (simp add: mq_stuck_def)
  qed
  from 1(2) 1(3) 1(4) claimed show ?case
    by (auto simp: Let_def split: if_splits dest: 1(1))
qed

lemma mq_stuck_push:
  assumes "mq_stuck n q" and "mq_try_push v q = (ok, q')"
  shows "mq_stuck n q' \<and> mq_wpos q' = mq_wpos q + (if ok then 1 else 0)"
  using assms mq_stuck_write [of "\<lambda>_. v" q "mq_wpos q" "(ok, q')" n]
  by (auto simp: mq_try_push_def mq_push_def mq_write_def split: option.splits)

lemma mq_stuck_pop:
  assumes "mq_stuck n q" and "mq_try_pop q = Some (v, q')"
  shows "mq_stuck n q' \<and> mq_wpos q' = mq_wpos q"
  using assms mq_stuck_read [of q "mq_rpos q" "Some (v, q')" n v q']
  by (auto simp: mq_try_pop_def mq_pop_def mq_read_def split: option.splits)

lemma mq_stuck_run:
  assumes "mq_stuck n q" and "qrun mq_try_push mq_try_pop ops q = (acc, out, q')"
  shows "mq_stuck n q' \<and> mq_wpos q' = mq_wpos q + length acc"
  using assms
proof (induction ops arbitrary: q acc out)
  case (Cons op ops)
  show ?case
  proof (cases op)
    case (Push v)
    obtain ok q1 where p: "mq_try_push v q = (ok, q1)" by fastforce
    from mq_stuck_push [OF Cons.prems(1) p] Cons.prems(2) Cons.IH [of q1] Push p show ?thesis
      by (auto split: prod.splits if_splits)
  next
    case Pop
    show ?thesis
    proof (cases "mq_try_pop q")
      case None
      with Cons Pop show ?thesis by simp
    next
      case (Some vq)
      obtain v q1 where vq: "vq = (v, q1)" by fastforce
      from mq_stuck_pop [OF Cons.prems(1) Some [unfolded vq]] Cons.prems(2) Cons.IH [of q1] Pop Some vq show ?thesis
        by (auto split: prod.splits)
    qed
  qed
qed simp


lemma mq_ctor_stuck:
  assumes "2 < n" and "n \<le> 2 ^ 30" and "\<not> is_pow2 n"
  shows "\<exists>q. mq_ctor z n = Some q \<and> mq_stuck (unat n) q \<and> mq_wpos q = 0"
proof -
  from next_pow2_small [OF assms(2)] obtain k where k: "k \<le> 30" "next_pow2_ulong n = Some (2 ^ k)" "unat n \<le> 2 ^ k"
    by blast
  let ?q = "mq_init z (2 ^ k) (unat n)"
  have n2: "2 < unat n" using assms(1) by (simp add: word_less_nat_alt)
  have "n \<noteq> 2 ^ k" using assms(3) k(1) by (auto simp: is_pow2_iff)
  then have "unat n \<noteq> 2 ^ k" using k(1) unat_pow2 [where 'a = 64, of k] by (auto simp: word_unat_eq_iff)
  with k(3) have lt: "unat n < 2 ^ k" by simp
  have "0 < k" using k(3) n2 by (cases k) auto
  then have s: "mq_shape ?q" by (auto simp: mq_shape_def mq_init_def)
  then have "me_seq (mq_elem ?q (unat n)) = 0"
    using lt mq_shape_facts(2) [OF s, of "unat n"] by (simp add: mq_elem_def mq_init_def)
  with s lt n2 have "mq_stuck (unat n) ?q" by (simp add: mq_stuck_def mq_init_def)
  moreover have "mq_ctor z n = Some ?q" using k by (simp add: mq_ctor_def unat_pow2)
  ultimately show ?thesis by (simp add: mq_init_def)
qed

text \<open>
  The constructor from a capacity that is not a power of two leaves the sequence numbers between the
  requested and the rounded capacity at zero, so the queue stops for good: whatever is popped in
  between, at most the requested number of values is ever accepted.
\<close>

theorem mpmc_constructor_stuck:
  assumes "2 < n" and "n \<le> 2 ^ 30" and "\<not> is_pow2 n"
  shows "\<exists>q acc out q'. mq_ctor z n = Some q \<and> qrun mq_try_push mq_try_pop ops q = (acc, out, q') \<and>
     length acc \<le> unat n"
proof -
  from mq_ctor_stuck [OF assms, of z] obtain q where q: "mq_ctor z n = Some q" "mq_stuck (unat n) q" "mq_wpos q = 0"
    by blast
  obtain acc out q' where r: "qrun mq_try_push mq_try_pop ops q = (acc, out, q')" by (metis prod_cases3)
  from mq_stuck_run [OF q(2) r] q r show ?thesis by (auto simp: mq_stuck_def)
qed

theorem mpmc_constructor_stuck_witness:
  "\<exists>q acc out q'. mq_ctor (0::nat) 3 = Some q \<and>
     qrun mq_try_push mq_try_pop [Push 1, Pop, Push 2, Pop, Push 3, Pop, Push 4, Pop, Push 5] q = (acc, out, q') \<and>
     length acc \<le> 3"
  using mpmc_constructor_stuck [of 3 "0::nat" "[Push 1, Pop, Push 2, Pop, Push 3, Pop, Push 4, Pop, Push 5]"]
  by (simp add: is_pow2_def)

end
