(* ===== verification/MpmcThreads.thy ===== *)
theory MpmcThreads
  imports MpmcQueue
begin

text \<open>
  \<open>MpmcQueue::read\<close> and \<open>MpmcQueue::write\<close> (\<open>ipc/MpmcQueue.hpp\<close>) run by any number of threads. A thread's
  program counter says where it is in the loop and what it has loaded; every step is one access to
  shared memory. Two ghost components record what the proof speaks of: the values in the order in
  which writers claimed positions, and the values readers took with the positions they claimed.
\<close>

subsection \<open>Threads and steps\<close>

datatype 'a mq_pc =
    Idle
  | WLoop 'a nat       \<comment> \<open>write: position loaded, sequence number not yet\<close>
  | WCas 'a nat nat    \<comment> \<open>write: position and sequence number loaded\<close>
  | WFill 'a nat       \<comment> \<open>write: position claimed, \<open>fn\<close> not yet called\<close>
  | WCommit 'a nat     \<comment> \<open>write: value stored, sequence number not yet\<close>
  | WDone bool
  | RLoop nat
  | RCas nat nat
  | RFn nat
  | RCommit nat 'a
  | RDone "'a option"

record 'a mc_conf =
  mc_q :: "'a mpmc_queue"
  mc_pc :: "nat \<Rightarrow> 'a mq_pc"
  mc_log :: "'a list"
  mc_got :: "(nat \<times> 'a) list"

inductive mc_step :: "'a mc_conf \<Rightarrow> 'a mc_conf \<Rightarrow> bool" where
  w_start: "mc_pc c t = Idle \<Longrightarrow> mc_step c (c\<lparr>mc_pc := (mc_pc c)(t := WLoop v (mq_wpos (mc_q c)))\<rparr>)"
| w_load: "mc_pc c t = WLoop v p \<Longrightarrow>
    mc_step c (c\<lparr>mc_pc := (mc_pc c)(t := WCas v p (me_seq (mq_elem (mc_q c) p)))\<rparr>)"
| w_claim: "mc_pc c t = WCas v p s \<Longrightarrow> s = p \<Longrightarrow> mq_wpos (mc_q c) = p \<Longrightarrow>
    mc_step c (c\<lparr>mc_q := (mc_q c)\<lparr>mq_wpos := p + 1\<rparr>, mc_log := mc_log c @ [v],
                 mc_pc := (mc_pc c)(t := WFill v p)\<rparr>)"
| w_retry: "mc_pc c t = WCas v p s \<Longrightarrow> s = p \<Longrightarrow>
    mc_step c (c\<lparr>mc_pc := (mc_pc c)(t := WLoop v (mq_wpos (mc_q c)))\<rparr>)"
| w_full: "mc_pc c t = WCas v p s \<Longrightarrow> s < p \<Longrightarrow> mc_step c (c\<lparr>mc_pc := (mc_pc c)(t := WDone False)\<rparr>)"
| w_reload: "mc_pc c t = WCas v p s \<Longrightarrow> s > p \<Longrightarrow>
    mc_step c (c\<lparr>mc_pc := (mc_pc c)(t := WLoop v (mq_wpos (mc_q c)))\<rparr>)"
| w_fill: "mc_pc c t = WFill v p \<Longrightarrow>
    mc_step c (c\<lparr>mc_q := mq_set_val p v (mc_q c), mc_pc := (mc_pc c)(t := WCommit v p)\<rparr>)"
| w_commit: "mc_pc c t = WCommit v p \<Longrightarrow>
    mc_step c (c\<lparr>mc_q := mq_set_seq p (p + 1) (mc_q c), mc_pc := (mc_pc c)(t := WDone True)\<rparr>)"
| w_return: "mc_pc c t = WDone b \<Longrightarrow> mc_step c (c\<lparr>mc_pc := (mc_pc c)(t := Idle)\<rparr>)"
| r_start: "mc_pc c t = Idle \<Longrightarrow> mc_step c (c\<lparr>mc_pc := (mc_pc c)(t := RLoop (mq_rpos (mc_q c)))\<rparr>)"
| r_load: "mc_pc c t = RLoop p \<Longrightarrow>
    mc_step c (c\<lparr>mc_pc := (mc_pc c)(t := RCas p (me_seq (mq_elem (mc_q c) p)))\<rparr>)"
| r_claim: "mc_pc c t = RCas p s \<Longrightarrow> s = p + 1 \<Longrightarrow> mq_rpos (mc_q c) = p \<Longrightarrow>
    mc_step c (c\<lparr>mc_q := (mc_q c)\<lparr>mq_rpos := p + 1\<rparr>, mc_pc := (mc_pc c)(t := RFn p)\<rparr>)"
| r_retry: "mc_pc c t = RCas p s \<Longrightarrow> s = p + 1 \<Longrightarrow>
    mc_step c (c\<lparr>mc_pc := (mc_pc c)(t := RLoop (mq_rpos (mc_q c)))\<rparr>)"
| r_empty: "mc_pc c t = RCas p s \<Longrightarrow> s < p + 1 \<Longrightarrow> mc_step c (c\<lparr>mc_pc := (mc_pc c)(t := RDone None)\<rparr>)"
| r_reload: "mc_pc c t = RCas p s \<Longrightarrow> s > p + 1 \<Longrightarrow>
    mc_step c (c\<lparr>mc_pc := (mc_pc c)(t := RLoop (mq_rpos (mc_q c)))\<rparr>)"
| r_fn: "mc_pc c t = RFn p \<Longrightarrow>
    mc_step c (c\<lparr>mc_pc := (mc_pc c)(t := RCommit p (me_val (mq_elem (mc_q c) p))),
                 mc_got := mc_got c @ [(p, me_val (mq_elem (mc_q c) p))]\<rparr>)"
| r_commit: "mc_pc c t = RCommit p v \<Longrightarrow>
    mc_step c (c\<lparr>mc_q := mq_set_seq p (p + mq_cap (mc_q c)) (mc_q c),
                 mc_pc := (mc_pc c)(t := RDone (Some v))\<rparr>)"
| r_return: "mc_pc c t = RDone b \<Longrightarrow> mc_step c (c\<lparr>mc_pc := (mc_pc c)(t := Idle)\<rparr>)"

definition mc_init :: "'a mpmc_queue \<Rightarrow> 'a mc_conf" where
  "mc_init q = \<lparr>mc_q = q, mc_pc = (\<lambda>_. Idle), mc_log = [], mc_got = []\<rparr>"

subsection \<open>The invariant\<close>

text \<open>The position a thread has claimed for writing or for reading, until it commits.\<close>

fun w_claims :: "'a mq_pc \<Rightarrow> nat option" where
  "w_claims (WFill v p) = Some p"
| "w_claims (WCommit v p) = Some p"
| "w_claims _ = None"

fun r_claims :: "'a mq_pc \<Rightarrow> nat option" where
  "r_claims (RFn p) = Some p"
| "r_claims (RCommit p v) = Some p"
| "r_claims _ = None"

text \<open>What holds of one thread: its loaded position is not ahead of the counter, its loaded sequence number not
  ahead of the slot, and what it has claimed is in the state the claim promises.\<close>

fun mc_thread_ok :: "'a mpmc_queue \<Rightarrow> 'a list \<Rightarrow> 'a mq_pc \<Rightarrow> bool" where
  "mc_thread_ok q log (WCas v p s) \<longleftrightarrow> s \<le> me_seq (mq_elem q p)"
| "mc_thread_ok q log (RCas p s) \<longleftrightarrow> s \<le> me_seq (mq_elem q p)"
| "mc_thread_ok q log (WFill v p) \<longleftrightarrow>
     mq_rpos q \<le> p \<and> p < mq_wpos q \<and> me_seq (mq_elem q p) = p \<and> log ! p = v"
| "mc_thread_ok q log (WCommit v p) \<longleftrightarrow>
     mq_rpos q \<le> p \<and> p < mq_wpos q \<and> me_seq (mq_elem q p) = p \<and> log ! p = v \<and> me_val (mq_elem q p) = v"
| "mc_thread_ok q log (RFn p) \<longleftrightarrow>
     p < mq_rpos q \<and> mq_wpos q \<le> p + mq_cap q \<and> me_seq (mq_elem q p) = p + 1 \<and> me_val (mq_elem q p) = log ! p"
| "mc_thread_ok q log (RCommit p v) \<longleftrightarrow>
     p < mq_rpos q \<and> mq_wpos q \<le> p + mq_cap q \<and> me_seq (mq_elem q p) = p + 1 \<and> log ! p = v"
| "mc_thread_ok q log _ \<longleftrightarrow> True"

definition mc_slots_ok :: "'a mc_conf \<Rightarrow> bool" where
  "mc_slots_ok c \<longleftrightarrow> (let q = mc_q c in
     (\<forall>p. mq_rpos q \<le> p \<and> p < mq_wpos q \<longrightarrow>
        (me_seq (mq_elem q p) = p \<and> (\<exists>t. w_claims (mc_pc c t) = Some p)) \<or>
        (me_seq (mq_elem q p) = p + 1 \<and> me_val (mq_elem q p) = mc_log c ! p)) \<and>
     (\<forall>p. mq_wpos q \<le> p \<and> p < mq_rpos q + mq_cap q \<longrightarrow>
        me_seq (mq_elem q p) = p \<or>
        (mq_cap q \<le> p \<and> me_seq (mq_elem q p) = p - mq_cap q + 1 \<and> (\<exists>t. r_claims (mc_pc c t) = Some (p - mq_cap q)))))"

definition mc_unique :: "'a mc_conf \<Rightarrow> bool" where
  "mc_unique c \<longleftrightarrow> (\<forall>t t' p.
     (w_claims (mc_pc c t) = Some p \<and> w_claims (mc_pc c t') = Some p \<longrightarrow> t = t') \<and>
     (r_claims (mc_pc c t) = Some p \<and> r_claims (mc_pc c t') = Some p \<longrightarrow> t = t'))"

definition mc_got_ok :: "'a mc_conf \<Rightarrow> bool" where
  "mc_got_ok c \<longleftrightarrow> distinct (map fst (mc_got c)) \<and>
     (\<forall>(p, v) \<in> set (mc_got c). p < mq_rpos (mc_q c) \<and> v = mc_log c ! p \<and> (\<forall>t. mc_pc c t \<noteq> RFn p)) \<and>
     (\<forall>p < mq_rpos (mc_q c). p \<in> fst ` set (mc_got c) \<or> (\<exists>t. mc_pc c t = RFn p))"

definition mc_bounds :: "'a mc_conf \<Rightarrow> bool" where
  "mc_bounds c \<longleftrightarrow> mq_shape (mc_q c) \<and> mq_rpos (mc_q c) \<le> mq_wpos (mc_q c) \<and>
     mq_wpos (mc_q c) \<le> mq_rpos (mc_q c) + mq_cap (mc_q c) \<and> length (mc_log c) = mq_wpos (mc_q c)"

definition mc_inv :: "'a mc_conf \<Rightarrow> bool" where
  "mc_inv c \<longleftrightarrow> mc_bounds c \<and> (\<forall>t. mc_thread_ok (mc_q c) (mc_log c) (mc_pc c t)) \<and>
     mc_slots_ok c \<and> mc_unique c \<and> mc_got_ok c"


subsection \<open>Steps that touch only the thread\<close>

lemma mc_local:
  assumes inv: "mc_inv c"
    and old: "w_claims (mc_pc c t) = None" "r_claims (mc_pc c t) = None"
    and new: "w_claims x = None" "r_claims x = None" "mc_thread_ok (mc_q c) (mc_log c) x"
  shows "mc_inv (c\<lparr>mc_pc := (mc_pc c)(t := x)\<rparr>)"
proof -
  let ?c = "c\<lparr>mc_pc := (mc_pc c)(t := x)\<rparr>"
  have w: "w_claims (mc_pc ?c t') = w_claims (mc_pc c t')" for t' using old new by simp
  have r: "r_claims (mc_pc ?c t') = r_claims (mc_pc c t')" for t' using old new by simp
  have f: "mc_pc ?c t' = RFn p \<longleftrightarrow> mc_pc c t' = RFn p" for t' p using old new by auto
  have "mc_slots_ok ?c = mc_slots_ok c" unfolding mc_slots_ok_def w r by simp
  moreover have "mc_unique ?c = mc_unique c" unfolding mc_unique_def w r by simp
  moreover have "mc_got_ok ?c = mc_got_ok c" unfolding mc_got_ok_def f by simp
  moreover have "mc_bounds ?c = mc_bounds c" by (simp add: mc_bounds_def)
  ultimately show ?thesis using inv new(3) by (simp add: mc_inv_def)
qed

subsection \<open>Claiming a position\<close>

lemma mc_invD:
  assumes "mc_inv c"
  shows "mq_shape (mc_q c)" "2 \<le> mq_cap (mc_q c)" "mq_rpos (mc_q c) \<le> mq_wpos (mc_q c)"
    "mq_wpos (mc_q c) \<le> mq_rpos (mc_q c) + mq_cap (mc_q c)" "length (mc_log c) = mq_wpos (mc_q c)"
    "\<And>t. mc_thread_ok (mc_q c) (mc_log c) (mc_pc c t)"
  using assms mq_shape_facts(1) [of "mc_q c"] by (auto simp: mc_inv_def mc_bounds_def)

lemma mc_slotsD:
  assumes "mc_inv c"
  shows "mq_rpos (mc_q c) \<le> p \<Longrightarrow> p < mq_wpos (mc_q c) \<Longrightarrow>
      (me_seq (mq_elem (mc_q c) p) = p \<and> (\<exists>t. w_claims (mc_pc c t) = Some p)) \<or>
      (me_seq (mq_elem (mc_q c) p) = p + 1 \<and> me_val (mq_elem (mc_q c) p) = mc_log c ! p)"
    "mq_wpos (mc_q c) \<le> p \<Longrightarrow> p < mq_rpos (mc_q c) + mq_cap (mc_q c) \<Longrightarrow>
      me_seq (mq_elem (mc_q c) p) = p \<or>
      (mq_cap (mc_q c) \<le> p \<and> me_seq (mq_elem (mc_q c) p) = p - mq_cap (mc_q c) + 1 \<and>
       (\<exists>t. r_claims (mc_pc c t) = Some (p - mq_cap (mc_q c))))"
  using assms by (auto simp: mc_inv_def mc_slots_ok_def Let_def)

text \<open>The claim of a thread, read off its program counter.\<close>

lemma w_claimsD:
  assumes "mc_thread_ok q log x" and "w_claims x = Some p"
  shows "mq_rpos q \<le> p" "p < mq_wpos q" "me_seq (mq_elem q p) = p"
  using assms by (cases x; simp)+

lemma r_claimsD:
  assumes "mc_thread_ok q log x" and "r_claims x = Some p"
  shows "p < mq_rpos q" "mq_wpos q \<le> p + mq_cap q" "me_seq (mq_elem q p) = p + 1"
  using assms by (cases x; simp)+

text \<open>A sequence number that equals the write position means the slot is free, and likewise for reading.\<close>

lemma w_free:
  assumes inv: "mc_inv c" and seq: "mq_wpos (mc_q c) \<le> me_seq (mq_elem (mc_q c) (mq_wpos (mc_q c)))"
  shows "mq_wpos (mc_q c) < mq_rpos (mc_q c) + mq_cap (mc_q c)"
    "me_seq (mq_elem (mc_q c) (mq_wpos (mc_q c))) = mq_wpos (mc_q c)"
proof -
  let ?q = "mc_q c" and ?w = "mq_wpos (mc_q c)"
  note D = mc_invD [OF inv]
  show lt: "?w < mq_rpos ?q + mq_cap ?q"
  proof (rule ccontr)
    assume "\<not> ?w < mq_rpos ?q + mq_cap ?q"
    with D(4) have e: "?w = mq_rpos ?q + mq_cap ?q" by simp
    then have "mq_elem ?q ?w = mq_elem ?q (mq_rpos ?q)" by (intro mq_elem_cong D) simp
    with mc_slotsD(1) [OF inv, of "mq_rpos ?q"] e D(2) seq show False by auto
  qed
  from mc_slotsD(2) [OF inv _ lt] seq D(2) show "me_seq (mq_elem ?q ?w) = ?w" by auto
qed

lemma r_ready:
  assumes inv: "mc_inv c" and seq: "mq_rpos (mc_q c) + 1 \<le> me_seq (mq_elem (mc_q c) (mq_rpos (mc_q c)))"
  shows "mq_rpos (mc_q c) < mq_wpos (mc_q c)"
    "me_seq (mq_elem (mc_q c) (mq_rpos (mc_q c))) = mq_rpos (mc_q c) + 1"
    "me_val (mq_elem (mc_q c) (mq_rpos (mc_q c))) = mc_log c ! mq_rpos (mc_q c)"
proof -
  let ?q = "mc_q c" and ?r = "mq_rpos (mc_q c)"
  note D = mc_invD [OF inv]
  show lt: "?r < mq_wpos ?q"
  proof (rule ccontr)
    assume "\<not> ?r < mq_wpos ?q"
    with D(2) mc_slotsD(2) [OF inv, of ?r] seq show False by auto
  qed
  from mc_slotsD(1) [OF inv _ lt] seq
  show "me_seq (mq_elem ?q ?r) = ?r + 1" "me_val (mq_elem ?q ?r) = mc_log c ! ?r" by auto
qed

lemma mc_thread_ok_claim:
  assumes "mc_thread_ok q log x" and "length log = mq_wpos q" and "2 \<le> mq_cap q" and "mq_shape q"
    and "mq_rpos q \<le> mq_wpos q" and "me_seq (mq_elem q (mq_wpos q)) = mq_wpos q"
  shows "mc_thread_ok (q\<lparr>mq_wpos := mq_wpos q + 1\<rparr>) (log @ [v]) x"
proof -
  have "mq_wpos q \<noteq> p + mq_cap q" if "r_claims x = Some p" for p
  proof
    assume e: "mq_wpos q = p + mq_cap q"
    then have "mq_elem q (mq_wpos q) = mq_elem q p" by (intro mq_elem_cong assms(4)) simp
    with r_claimsD(3) [OF assms(1) that] e assms(3,6) show False by simp
  qed
  with assms show ?thesis by (cases x) (auto simp: nth_append le_eq_less_or_eq)
qed

lemma w_claim_inv:
  assumes inv: "mc_inv c" and pc: "mc_pc c t = WCas v p p" and p: "mq_wpos (mc_q c) = p"
  shows "mc_inv (c\<lparr>mc_q := (mc_q c)\<lparr>mq_wpos := p + 1\<rparr>, mc_log := mc_log c @ [v], mc_pc := (mc_pc c)(t := WFill v p)\<rparr>)"
    (is "mc_inv ?c")
proof -
  note D = mc_invD [OF inv]
  have "p \<le> me_seq (mq_elem (mc_q c) p)" using D(6) [of t] pc by simp
  with w_free [OF inv] p have lt: "p < mq_rpos (mc_q c) + mq_cap (mc_q c)" and seq: "me_seq (mq_elem (mc_q c) p) = p"
    by simp_all
  have "mc_thread_ok (mc_q ?c) (mc_log ?c) (mc_pc ?c t')" for t'
    using mc_thread_ok_claim [OF D(6) [of t'] D(5) D(2) D(1) D(3)] seq p D(3,5) by (auto simp: nth_append)
  moreover have "mc_bounds ?c" using D lt p by (simp add: mc_bounds_def)
  moreover have "mc_slots_ok ?c"
  proof -
    have w: "w_claims (mc_pc ?c t') = (if t' = t then Some p else w_claims (mc_pc c t'))" for t' by simp
    have r: "r_claims (mc_pc ?c t') = r_claims (mc_pc c t')" for t' using pc by simp
    have ex: "(\<exists>t'. w_claims (mc_pc ?c t') = Some a) \<longleftrightarrow> a = p \<or> (\<exists>t'. w_claims (mc_pc c t') = Some a)" for a
      unfolding w using pc by (metis option.distinct(1) option.inject w_claims.simps(5))
    show ?thesis
      unfolding mc_slots_ok_def Let_def ex r
      using mc_slotsD [OF inv] seq p D(5) by (auto simp: nth_append less_Suc_eq)
  qed
  moreover have "mc_unique ?c"
    using inv w_claimsD(2) [OF D(6)] pc p unfolding mc_inv_def mc_unique_def
    by (auto split: if_splits)
  moreover have "mc_got_ok ?c"
  proof -
    have f: "mc_pc ?c t' = RFn a \<longleftrightarrow> mc_pc c t' = RFn a" for t' a using pc by auto
    show ?thesis using inv D(3,5) p unfolding mc_inv_def mc_got_ok_def f by (auto simp: nth_append)
  qed
  ultimately show ?thesis by (simp add: mc_inv_def)
qed


lemma r_claim_inv:
  assumes inv: "mc_inv c" and pc: "mc_pc c t = RCas p (p + 1)" and p: "mq_rpos (mc_q c) = p"
  shows "mc_inv (c\<lparr>mc_q := (mc_q c)\<lparr>mq_rpos := p + 1\<rparr>, mc_pc := (mc_pc c)(t := RFn p)\<rparr>)"
    (is "mc_inv ?c")
proof -
  note D = mc_invD [OF inv]
  let ?L = "mq_cap (mc_q c)"
  have "p + 1 \<le> me_seq (mq_elem (mc_q c) p)" using D(6) [of t] pc by simp
  with r_ready [OF inv] p have lt: "p < mq_wpos (mc_q c)" and seq: "me_seq (mq_elem (mc_q c) p) = p + 1"
    and val: "me_val (mq_elem (mc_q c) p) = mc_log c ! p" by simp_all
  have wc: "a \<noteq> p" if "w_claims (mc_pc c t') = Some a" for t' a
    using w_claimsD(3) [OF D(6) that] seq by auto
  have w: "w_claims (mc_pc ?c t') = w_claims (mc_pc c t')" for t' using pc by simp
  have r: "r_claims (mc_pc ?c t') = (if t' = t then Some p else r_claims (mc_pc c t'))" for t' by simp
  have "mc_thread_ok (mc_q ?c) (mc_log ?c) (mc_pc ?c t')" for t'
    using D(6) [of t'] wc [of t'] seq val p D(4) by (cases "mc_pc c t'") (auto simp: le_eq_less_or_eq)
  moreover have "mc_bounds ?c" using D lt p by (simp add: mc_bounds_def)
  moreover have "mc_slots_ok ?c"
  proof -
    have ex: "(\<exists>t'. r_claims (mc_pc ?c t') = Some a) \<longleftrightarrow> a = p \<or> (\<exists>t'. r_claims (mc_pc c t') = Some a)" for a
      unfolding r using pc by (metis option.distinct(1) option.inject r_claims.simps(10))
    have "mq_elem (mc_q c) (p + ?L) = mq_elem (mc_q c) p" by (intro mq_elem_cong D) simp
    with seq have "me_seq (mq_elem (mc_q c) (p + ?L)) = p + 1" by simp
    then show ?thesis
      unfolding mc_slots_ok_def Let_def ex w
      using mc_slotsD [OF inv] p by (auto simp: less_Suc_eq)
  qed
  moreover have "mc_unique ?c"
    using inv r_claimsD(1) [OF D(6)] pc p unfolding mc_inv_def mc_unique_def
    by (auto split: if_splits)
  moreover have "mc_got_ok ?c"
  proof -
    have f: "mc_pc ?c t' = RFn a \<longleftrightarrow> (t' = t \<and> a = p) \<or> mc_pc c t' = RFn a" for t' a using pc by auto
    show ?thesis using inv D(3,5) p unfolding mc_inv_def mc_got_ok_def f by (fastforce simp: less_Suc_eq)
  qed
  ultimately show ?thesis by (simp add: mc_inv_def)
qed

subsection \<open>Filling and committing\<close>

text \<open>A slot that a writer holds at \<open>p\<close> belongs to no reader's claim, and to no other position of the window.\<close>

lemma w_slot_private:
  assumes inv: "mc_inv c" and cl: "w_claims (mc_pc c t) = Some p"
  shows "r_claims (mc_pc c t') = Some a \<Longrightarrow> a mod mq_cap (mc_q c) \<noteq> p mod mq_cap (mc_q c)"
    "mq_rpos (mc_q c) \<le> a \<Longrightarrow> a < mq_rpos (mc_q c) + mq_cap (mc_q c) \<Longrightarrow> a \<noteq> p \<Longrightarrow>
      a mod mq_cap (mc_q c) \<noteq> p mod mq_cap (mc_q c)"
proof -
  note D = mc_invD [OF inv] and W = w_claimsD [OF mc_invD(6) [OF inv] cl]
  {
    assume "r_claims (mc_pc c t') = Some a"
    note R = r_claimsD [OF D(6) this]
    show "a mod mq_cap (mc_q c) \<noteq> p mod mq_cap (mc_q c)"
    proof
      assume e: "a mod mq_cap (mc_q c) = p mod mq_cap (mc_q c)"
      then have "mq_elem (mc_q c) a = mq_elem (mc_q c) p" by (intro mq_elem_cong D)
      with R W have "p = a + 1" by simp
      with window_mod_eq [OF e] D(2) show False by simp
    qed
  next
    assume "mq_rpos (mc_q c) \<le> a" "a < mq_rpos (mc_q c) + mq_cap (mc_q c)" "a \<noteq> p"
    with W D show "a mod mq_cap (mc_q c) \<noteq> p mod mq_cap (mc_q c)"
      by (intro window_mod_neq [where r = "mq_rpos (mc_q c)"]) auto
  }
qed

lemma r_slot_private:
  assumes inv: "mc_inv c" and cl: "r_claims (mc_pc c t) = Some p"
  shows "w_claims (mc_pc c t') = Some a \<Longrightarrow> a mod mq_cap (mc_q c) \<noteq> p mod mq_cap (mc_q c)"
    "mq_rpos (mc_q c) \<le> a \<Longrightarrow> a < mq_rpos (mc_q c) + mq_cap (mc_q c) \<Longrightarrow> a \<noteq> p + mq_cap (mc_q c) \<Longrightarrow>
      a mod mq_cap (mc_q c) \<noteq> p mod mq_cap (mc_q c)"
    "r_claims (mc_pc c t') = Some a \<Longrightarrow> t' \<noteq> t \<Longrightarrow> a mod mq_cap (mc_q c) \<noteq> p mod mq_cap (mc_q c)"
proof -
  note D = mc_invD [OF inv] and R = r_claimsD [OF mc_invD(6) [OF inv] cl]
  let ?L = "mq_cap (mc_q c)"
  show "w_claims (mc_pc c t') = Some a \<Longrightarrow> a mod ?L \<noteq> p mod ?L"
    using w_slot_private(1) [OF inv _ cl] by fastforce
  show "a mod ?L \<noteq> p mod ?L" if "mq_rpos (mc_q c) \<le> a" "a < mq_rpos (mc_q c) + ?L" "a \<noteq> p + ?L"
    using that R D window_mod_neq [of a "mq_rpos (mc_q c)" ?L "p + ?L"] by simp
  show "a mod ?L \<noteq> p mod ?L" if a: "r_claims (mc_pc c t') = Some a" and "t' \<noteq> t"
  proof
    assume "a mod ?L = p mod ?L"
    then have "mq_elem (mc_q c) a = mq_elem (mc_q c) p" by (intro mq_elem_cong D)
    with R r_claimsD(3) [OF D(6) a] have "a = p" by simp
    with that cl inv show False by (auto simp: mc_inv_def mc_unique_def)
  qed
qed

lemma w_fill_inv:
  assumes inv: "mc_inv c" and pc: "mc_pc c t = WFill v p"
  shows "mc_inv (c\<lparr>mc_q := mq_set_val p v (mc_q c), mc_pc := (mc_pc c)(t := WCommit v p)\<rparr>)" (is "mc_inv ?c")
proof -
  note D = mc_invD [OF inv]
  have cl: "w_claims (mc_pc c t) = Some p" using pc by simp
  note P = w_slot_private [OF inv cl] and W = w_claimsD [OF D(6) cl]
  have w: "w_claims (mc_pc ?c t') = w_claims (mc_pc c t')" for t' using pc by simp
  have r: "r_claims (mc_pc ?c t') = r_claims (mc_pc c t')" for t' using pc by simp
  have f: "mc_pc ?c t' = RFn a \<longleftrightarrow> mc_pc c t' = RFn a" for t' a using pc by auto
  have seq: "me_seq (mq_elem (mc_q ?c) a) = me_seq (mq_elem (mc_q c) a)" for a
    by (simp add: mq_elem_set D)
  have val: "me_val (mq_elem (mc_q ?c) a) = (if a mod mq_cap (mc_q c) = p mod mq_cap (mc_q c) then v else me_val (mq_elem (mc_q c) a))" for a
    by (simp add: mq_elem_set D)
  have U: "mc_unique c" using inv by (simp add: mc_inv_def)
  have "mc_thread_ok (mc_q ?c) (mc_log ?c) (mc_pc ?c t')" for t'
  proof (cases "t' = t")
    case True
    with D(6) [of t] pc show ?thesis by (simp add: mq_elem_set D)
  next
    case False
    have "a mod mq_cap (mc_q c) \<noteq> p mod mq_cap (mc_q c)" if "w_claims (mc_pc c t') = Some a" for a
    proof -
      have "a \<noteq> p" using that cl U False by (auto simp: mc_unique_def)
      with P(2) [of a] w_claimsD [OF D(6) that] D(4) show ?thesis by simp
    qed
    with P(1) [of t'] D(6) [of t'] False seq val show ?thesis by (cases "mc_pc c t'") auto
  qed
  moreover have "mc_bounds ?c" using D by (simp add: mc_bounds_def)
  moreover have "mc_slots_ok ?c"
  proof -
    have "me_val (mq_elem (mc_q ?c) a) = mc_log c ! a"
      if "mq_rpos (mc_q c) \<le> a" "a < mq_wpos (mc_q c)" "me_seq (mq_elem (mc_q c) a) = a + 1" for a
    proof -
      have "a \<noteq> p" using that W by auto
      with P(2) [of a] that D(4) have "a mod mq_cap (mc_q c) \<noteq> p mod mq_cap (mc_q c)" by simp
      with mc_slotsD(1) [OF inv that(1,2)] that(3) show ?thesis unfolding val by auto
    qed
    then show ?thesis
      unfolding mc_slots_ok_def Let_def w r seq using mc_slotsD [OF inv] by auto
  qed
  moreover have "mc_unique ?c" using U unfolding mc_unique_def w r .
  moreover have "mc_got_ok ?c" using inv unfolding mc_inv_def mc_got_ok_def f by simp
  ultimately show ?thesis by (simp add: mc_inv_def)
qed


lemma w_commit_inv:
  assumes inv: "mc_inv c" and pc: "mc_pc c t = WCommit v p"
  shows "mc_inv (c\<lparr>mc_q := mq_set_seq p (p + 1) (mc_q c), mc_pc := (mc_pc c)(t := WDone True)\<rparr>)" (is "mc_inv ?c")
proof -
  let ?L = "mq_cap (mc_q c)"
  note D = mc_invD [OF inv]
  have cl: "w_claims (mc_pc c t) = Some p" using pc by simp
  note P = w_slot_private [OF inv cl] and W = w_claimsD [OF D(6) cl]
  have w: "w_claims (mc_pc ?c t') = (if t' = t then None else w_claims (mc_pc c t'))" for t' by simp
  have r: "r_claims (mc_pc ?c t') = r_claims (mc_pc c t')" for t' using pc by simp
  have f: "mc_pc ?c t' = RFn a \<longleftrightarrow> mc_pc c t' = RFn a" for t' a using pc by auto
  have val: "me_val (mq_elem (mc_q ?c) a) = me_val (mq_elem (mc_q c) a)" for a by (simp add: mq_elem_set D)
  have seq: "me_seq (mq_elem (mc_q ?c) a) = (if a mod ?L = p mod ?L then p + 1 else me_seq (mq_elem (mc_q c) a))" for a
    by (simp add: mq_elem_set D)
  have slot: "mq_elem (mc_q c) a = mq_elem (mc_q c) p" if "a mod ?L = p mod ?L" for a using that by (intro mq_elem_cong D)
  have U: "mc_unique c" using inv by (simp add: mc_inv_def)
  have uniq: "a \<noteq> p" if "w_claims (mc_pc c t') = Some a" "t' \<noteq> t" for a t'
    using that cl U by (auto simp: mc_unique_def)
  have "mc_thread_ok (mc_q ?c) (mc_log ?c) (mc_pc ?c t')" for t'
  proof (cases "t' = t")
    case False
    have "a mod ?L \<noteq> p mod ?L" if "w_claims (mc_pc c t') = Some a" for a
      using uniq [OF that False] P(2) [of a] w_claimsD [OF D(6) that] D(4) by simp
    moreover have "s \<le> me_seq (mq_elem (mc_q ?c) a)" if "s \<le> me_seq (mq_elem (mc_q c) a)" for s a
      using that slot [of a] W(3) seq [of a] by (cases "a mod ?L = p mod ?L") simp_all
    ultimately show ?thesis
      using P(1) [of t'] D(6) [of t'] False by (cases "mc_pc c t'") (auto simp: mq_elem_set D(1))
  qed simp
  moreover have "mc_bounds ?c" using D by (simp add: mc_bounds_def)
  moreover have "mc_slots_ok ?c"
  proof -
    have vp: "me_val (mq_elem (mc_q c) p) = mc_log c ! p" using D(6) [of t] pc by simp
    have "(me_seq (mq_elem (mc_q ?c) a) = a \<and> (\<exists>t'. w_claims (mc_pc ?c t') = Some a)) \<or>
        (me_seq (mq_elem (mc_q ?c) a) = a + 1 \<and> me_val (mq_elem (mc_q ?c) a) = mc_log c ! a)"
      if a: "mq_rpos (mc_q c) \<le> a" "a < mq_wpos (mc_q c)" for a
    proof (cases "a = p")
      case True
      with vp show ?thesis unfolding seq val by simp
    next
      case False
      with P(2) [of a] a D(4) have ne: "a mod ?L \<noteq> p mod ?L" by simp
      have "t' \<noteq> t" if "w_claims (mc_pc c t') = Some a" for t' using that cl False by auto
      with mc_slotsD(1) [OF inv a] ne show ?thesis unfolding seq val w by auto
    qed
    moreover have "a mod ?L \<noteq> p mod ?L" if "mq_wpos (mc_q c) \<le> a" "a < mq_rpos (mc_q c) + ?L" for a
      using P(2) [of a] that W D(3) by simp
    ultimately show ?thesis
      unfolding mc_slots_ok_def Let_def r using mc_slotsD(2) [OF inv] seq by simp
  qed
  moreover have "mc_unique ?c" using U unfolding mc_unique_def w r by (auto split: if_splits)
  moreover have "mc_got_ok ?c" using inv unfolding mc_inv_def mc_got_ok_def f by simp
  ultimately show ?thesis by (simp add: mc_inv_def)
qed

lemma r_fn_inv:
  assumes inv: "mc_inv c" and pc: "mc_pc c t = RFn p"
  shows "mc_inv (c\<lparr>mc_pc := (mc_pc c)(t := RCommit p (me_val (mq_elem (mc_q c) p))),
                 mc_got := mc_got c @ [(p, me_val (mq_elem (mc_q c) p))]\<rparr>)" (is "mc_inv ?c")
proof -
  note D = mc_invD [OF inv]
  have w: "w_claims (mc_pc ?c t') = w_claims (mc_pc c t')" for t' using pc by simp
  have r: "r_claims (mc_pc ?c t') = r_claims (mc_pc c t')" for t' using pc by simp
  have v: "me_val (mq_elem (mc_q c) p) = mc_log c ! p" "p < mq_rpos (mc_q c)" using D(6) [of t] pc by simp_all
  have f: "mc_pc ?c t' = RFn a \<longleftrightarrow> mc_pc c t' = RFn a \<and> a \<noteq> p" for t' a
    using pc inv unfolding mc_inv_def mc_unique_def by (auto split: if_splits)
  have "mc_thread_ok (mc_q ?c) (mc_log ?c) (mc_pc ?c t')" for t' using D(6) [of t'] D(6) [of t] pc by auto
  moreover have "mc_bounds ?c" using D by (simp add: mc_bounds_def)
  moreover have "mc_slots_ok ?c" using inv unfolding mc_inv_def mc_slots_ok_def w r by simp
  moreover have "mc_unique ?c" using inv unfolding mc_inv_def mc_unique_def w r by simp
  moreover have "mc_got_ok ?c"
  proof -
    have G: "mc_got_ok c" using inv by (simp add: mc_inv_def)
    have "p \<notin> fst ` set (mc_got c)" using G pc by (auto simp: mc_got_ok_def)
    with G v show ?thesis unfolding mc_got_ok_def f by auto
  qed
  ultimately show ?thesis by (simp add: mc_inv_def)
qed

lemma r_commit_inv:
  assumes inv: "mc_inv c" and pc: "mc_pc c t = RCommit p v"
  shows "mc_inv (c\<lparr>mc_q := mq_set_seq p (p + mq_cap (mc_q c)) (mc_q c), mc_pc := (mc_pc c)(t := RDone (Some v))\<rparr>)"
    (is "mc_inv ?c")
proof -
  let ?L = "mq_cap (mc_q c)"
  note D = mc_invD [OF inv]
  have cl: "r_claims (mc_pc c t) = Some p" using pc by simp
  note P = r_slot_private [OF inv cl] and R = r_claimsD [OF D(6) cl]
  have w: "w_claims (mc_pc ?c t') = w_claims (mc_pc c t')" for t' using pc by simp
  have r: "r_claims (mc_pc ?c t') = (if t' = t then None else r_claims (mc_pc c t'))" for t' by simp
  have f: "mc_pc ?c t' = RFn a \<longleftrightarrow> mc_pc c t' = RFn a" for t' a using pc by auto
  have val: "me_val (mq_elem (mc_q ?c) a) = me_val (mq_elem (mc_q c) a)" for a by (simp add: mq_elem_set D)
  have seq: "me_seq (mq_elem (mc_q ?c) a) = (if a mod ?L = p mod ?L then p + ?L else me_seq (mq_elem (mc_q c) a))" for a
    by (simp add: mq_elem_set D)
  have slot: "mq_elem (mc_q c) a = mq_elem (mc_q c) p" if "a mod ?L = p mod ?L" for a using that by (intro mq_elem_cong D)
  have U: "mc_unique c" using inv by (simp add: mc_inv_def)
  have "mc_thread_ok (mc_q ?c) (mc_log ?c) (mc_pc ?c t')" for t'
  proof (cases "t' = t")
    case False
    have "s \<le> me_seq (mq_elem (mc_q ?c) a)" if "s \<le> me_seq (mq_elem (mc_q c) a)" for s a
      using that slot [of a] R(3) D(2) seq [of a] by (cases "a mod ?L = p mod ?L") simp_all
    with P(1) [of t'] P(3) [of t'] D(6) [of t'] False show ?thesis
      by (cases "mc_pc c t'") (auto simp: mq_elem_set D(1))
  qed simp
  moreover have "mc_bounds ?c" using D by (simp add: mc_bounds_def)
  moreover have "mc_slots_ok ?c"
  proof -
    have "a mod ?L \<noteq> p mod ?L" if "mq_rpos (mc_q c) \<le> a" "a < mq_wpos (mc_q c)" for a
      using P(2) [of a] that R D(4) by simp
    moreover have "me_seq (mq_elem (mc_q ?c) a) = a \<or>
        (?L \<le> a \<and> me_seq (mq_elem (mc_q ?c) a) = a - ?L + 1 \<and> (\<exists>t'. r_claims (mc_pc ?c t') = Some (a - ?L)))"
      if a: "mq_wpos (mc_q c) \<le> a" "a < mq_rpos (mc_q c) + ?L" for a
    proof (cases "a = p + ?L")
      case True
      then show ?thesis unfolding seq by simp
    next
      case False
      with P(2) [of a] a D(3) have ne: "a mod ?L \<noteq> p mod ?L" by simp
      have "t' \<noteq> t" if "r_claims (mc_pc c t') = Some (a - ?L)" "?L \<le> a" for t' using that cl False by auto
      with mc_slotsD(2) [OF inv a] ne show ?thesis unfolding seq r by auto
    qed
    ultimately show ?thesis
      unfolding mc_slots_ok_def Let_def w using mc_slotsD(1) [OF inv] seq val by simp
  qed
  moreover have "mc_unique ?c" using U unfolding mc_unique_def w r by (auto split: if_splits)
  moreover have "mc_got_ok ?c" using inv unfolding mc_inv_def mc_got_ok_def f by simp
  ultimately show ?thesis by (simp add: mc_inv_def)
qed

lemma mc_step_inv [inv_intros]: "mc_step c c' \<Longrightarrow> mc_inv c \<Longrightarrow> mc_inv c'"
proof (induction rule: mc_step.induct)
  case (w_claim c t v p s)
  then show ?case using w_claim_inv [of c t v p] by simp
next
  case (r_claim c t p s)
  then show ?case using r_claim_inv [of c t p] by simp
next
  case (w_fill c t v p)
  then show ?case by (intro w_fill_inv)
next
  case (w_commit c t v p)
  then show ?case by (intro w_commit_inv)
next
  case (r_fn c t p)
  then show ?case by (intro r_fn_inv)
next
  case (r_commit c t p v)
  then show ?case by (intro r_commit_inv)
qed (auto intro!: mc_local)


lemma mc_reach_inv: "mc_step\<^sup>*\<^sup>* c c' \<Longrightarrow> mc_inv c \<Longrightarrow> mc_inv c'"
  by (induction rule: rtranclp_induct) (auto intro: mc_step_inv)

lemma mc_step_cap: "mc_step c c' \<Longrightarrow> mq_cap (mc_q c') = mq_cap (mc_q c)"
  by (induction rule: mc_step.induct) auto

lemma mc_reach_cap: "mc_step\<^sup>*\<^sup>* c c' \<Longrightarrow> mq_cap (mc_q c') = mq_cap (mc_q c)"
  by (induction rule: rtranclp_induct) (auto dest: mc_step_cap)

lemma mc_init_inv:
  assumes "0 < k"
  shows "mc_inv (mc_init (mq_init z (2 ^ k) (2 ^ k)))"
proof -
  have "mq_inv (mq_init z (2 ^ k) (2 ^ k))" using mq_init_inv [OF assms, of z] by blast
  moreover have "mq_rpos (mq_init z (2 ^ k) (2 ^ k)) = 0" "mq_wpos (mq_init z (2 ^ k) (2 ^ k)) = 0"
    by (simp_all add: mq_init_def)
  ultimately show ?thesis
    by (auto simp: mc_inv_def mc_bounds_def mc_slots_ok_def mc_unique_def mc_got_ok_def mc_init_def mq_inv_def Let_def)
qed

lemma mc_new_inv:
  assumes "2 \<le> n" and "n \<le> 2 ^ 30" and "new_mpmc_queue z n = Some q" and "mc_step\<^sup>*\<^sup>* (mc_init q) c"
  shows "mc_inv c"
proof -
  from new_mpmc_queue_ok [OF assms(1,2), of z] obtain k where k: "0 < k"
    "new_mpmc_queue z n = Some (mq_init z (2 ^ k) (2 ^ k))" by blast
  from k(2) assms(3) have "q = mq_init z (2 ^ k) (2 ^ k)" by simp
  with mc_init_inv [OF k(1), of z] have "mc_inv (mc_init q)" by simp
  with assms(4) show ?thesis by (rule mc_reach_inv)
qed

subsection \<open>Concrete runs\<close>

text \<open>
  A scheduler that lets a thread start a call or make its next step (a compare-and-exchange succeeds when
  it can), to run the relation on concrete inputs.
\<close>

datatype 'a mc_act = StartW nat 'a | StartR nat | Go nat

fun mc_go :: "nat \<Rightarrow> 'a mc_conf \<Rightarrow> 'a mc_conf" where
  "mc_go t c = (let q = mc_q c; upd = (\<lambda>x. c\<lparr>mc_pc := (mc_pc c)(t := x)\<rparr>) in case mc_pc c t of
     Idle \<Rightarrow> c
   | WLoop v p \<Rightarrow> upd (WCas v p (me_seq (mq_elem q p)))
   | WCas v p s \<Rightarrow> (if s = p then (if mq_wpos q = p then c\<lparr>mc_q := q\<lparr>mq_wpos := p + 1\<rparr>, mc_log := mc_log c @ [v], mc_pc := (mc_pc c)(t := WFill v p)\<rparr>
                                  else upd (WLoop v (mq_wpos q)))
                   else if s < p then upd (WDone False) else upd (WLoop v (mq_wpos q)))
   | WFill v p \<Rightarrow> c\<lparr>mc_q := mq_set_val p v q, mc_pc := (mc_pc c)(t := WCommit v p)\<rparr>
   | WCommit v p \<Rightarrow> c\<lparr>mc_q := mq_set_seq p (p + 1) q, mc_pc := (mc_pc c)(t := WDone True)\<rparr>
   | WDone b \<Rightarrow> upd Idle
   | RLoop p \<Rightarrow> upd (RCas p (me_seq (mq_elem q p)))
   | RCas p s \<Rightarrow> (if s = p + 1 then (if mq_rpos q = p then c\<lparr>mc_q := q\<lparr>mq_rpos := p + 1\<rparr>, mc_pc := (mc_pc c)(t := RFn p)\<rparr>
                                  else upd (RLoop (mq_rpos q)))
                 else if s < p + 1 then upd (RDone None) else upd (RLoop (mq_rpos q)))
   | RFn p \<Rightarrow> (upd (RCommit p (me_val (mq_elem q p))))\<lparr>mc_got := mc_got c @ [(p, me_val (mq_elem q p))]\<rparr>
   | RCommit p v \<Rightarrow> c\<lparr>mc_q := mq_set_seq p (p + mq_cap q) q, mc_pc := (mc_pc c)(t := RDone (Some v))\<rparr>
   | RDone b \<Rightarrow> upd Idle)"

fun mc_act1 :: "'a mc_act \<Rightarrow> 'a mc_conf \<Rightarrow> 'a mc_conf" where
  "mc_act1 (StartW t v) c = (if mc_pc c t = Idle then c\<lparr>mc_pc := (mc_pc c)(t := WLoop v (mq_wpos (mc_q c)))\<rparr> else c)"
| "mc_act1 (StartR t) c = (if mc_pc c t = Idle then c\<lparr>mc_pc := (mc_pc c)(t := RLoop (mq_rpos (mc_q c)))\<rparr> else c)"
| "mc_act1 (Go t) c = mc_go t c"

lemma mc_go_step: "mc_step\<^sup>*\<^sup>* c (mc_go t c)"
proof (cases "mc_pc c t = Idle")
  case False
  have "mc_step c (mc_go t c)"
    using False mc_step.intros [of c t] by (cases "mc_pc c t") (auto simp: Let_def intro: mc_step.intros)
  then show ?thesis ..
qed simp

lemma mc_act1_step: "mc_step\<^sup>*\<^sup>* c (mc_act1 a c)"
  by (cases a) (auto intro: mc_go_step mc_step.intros simp del: mc_go.simps)

lemma mc_acts_steps: "mc_step\<^sup>*\<^sup>* c (fold mc_act1 as c)"
  by (induction as arbitrary: c) (auto intro: rtranclp_trans mc_act1_step)

lemma new_mpmc_queue_2: "new_mpmc_queue z 2 = Some (mq_init z 2 2)"
proof -
  have "next_pow2_ulong 2 = Some 2" by code_simp
  then show ?thesis by (simp add: new_mpmc_queue_def)
qed

subsection \<open>Properties\<close>

text \<open>
  C5: No two threads ever hold the same slot: while a thread is between claiming a position and committing
  it, no other thread is between a claim and a commit on that slot, so the unsynchronised accesses to
  the value never race, for any number of producers and consumers and any interleaving.
\<close>

theorem mpmc_exclusive_slots:
  assumes "2 \<le> n" and "n \<le> 2 ^ 30" and "new_mpmc_queue z n = Some q" and "mc_step\<^sup>*\<^sup>* (mc_init q) c"
    and "t \<noteq> t'" and "w_claims (mc_pc c t) = Some p \<or> r_claims (mc_pc c t) = Some p"
    and "w_claims (mc_pc c t') = Some p' \<or> r_claims (mc_pc c t') = Some p'"
  shows "p mod mq_cap (mc_q c) \<noteq> p' mod mq_cap (mc_q c)"
proof -
  have inv: "mc_inv c" by (rule mc_new_inv [OF assms(1-4)])
  note D = mc_invD [OF inv]
  have ww: "a mod mq_cap (mc_q c) \<noteq> b mod mq_cap (mc_q c)"
    if "w_claims (mc_pc c t) = Some a" "w_claims (mc_pc c t') = Some b" "t \<noteq> t'" for t t' a b
  proof -
    have "a \<noteq> b" using inv that by (auto simp: mc_inv_def mc_unique_def)
    then show ?thesis
      using w_slot_private(2) [OF inv that(2), of a] w_claimsD [OF D(6) that(1)] D(4) by simp
  qed
  from assms(5-7) show ?thesis
    using ww [of t p t' p'] w_slot_private(1) [OF inv, of t p t' p'] r_slot_private(1,3) [OF inv, of t p t' p'] by metis
qed

theorem mpmc_exclusive_slots_witness:
  "\<exists>c :: nat mc_conf. mc_step\<^sup>*\<^sup>* (mc_init (mq_init 0 2 2)) c \<and> w_claims (mc_pc c 0) = Some 0 \<and> w_claims (mc_pc c 1) = Some 1 \<and>
     (0::nat) mod mq_cap (mc_q c) \<noteq> 1 mod mq_cap (mc_q c)"
proof -
  define c :: "nat mc_conf" where
    "c = fold mc_act1 [StartW 0 7, StartW 1 8, Go 0, Go 0, Go 1, Go 1, Go 1, Go 1, Go 1] (mc_init (mq_init 0 2 2))"
  have r: "mc_step\<^sup>*\<^sup>* (mc_init (mq_init 0 2 2)) c" unfolding c_def by (rule mc_acts_steps)
  have cl: "w_claims (mc_pc c 0) = Some 0" "w_claims (mc_pc c 1) = Some 1"
    by (simp_all add: c_def mc_init_def mq_init_def mq_elem_def Let_def)
  with r mpmc_exclusive_slots [OF _ _ new_mpmc_queue_2 r, of 0 1 0 1] show ?thesis by auto
qed

text \<open>
  C1: Values are delivered exactly once and unchanged, under any interleaving of any number of threads. The
  positions that readers took are distinct and below the read position, each with the value of the writer that
  claimed that position; and every position below the read position has been taken or has a reader that holds it.
\<close>

theorem mpmc_exactly_once:
  assumes "2 \<le> n" and "n \<le> 2 ^ 30" and "new_mpmc_queue z n = Some q" and "mc_step\<^sup>*\<^sup>* (mc_init q) c"
  shows "distinct (map fst (mc_got c)) \<and>
     (\<forall>(p, v) \<in> set (mc_got c). p < mq_rpos (mc_q c) \<and> v = mc_log c ! p) \<and>
     (\<forall>p < mq_rpos (mc_q c). p \<in> fst ` set (mc_got c) \<or> (\<exists>t. mc_pc c t = RFn p)) \<and>
     mq_rpos (mc_q c) \<le> length (mc_log c) \<and> length (mc_log c) \<le> mq_rpos (mc_q c) + mq_cap (mc_q c)"
  using mc_new_inv [OF assms] by (auto simp: mc_inv_def mc_got_ok_def mc_bounds_def)

theorem mpmc_exactly_once_witness:
  "\<exists>c :: nat mc_conf. mc_step\<^sup>*\<^sup>* (mc_init (mq_init 0 2 2)) c \<and> mc_got c = [(0, 7)] \<and> mc_log c = [7, 8] \<and>
     distinct (map fst (mc_got c)) \<and> mq_rpos (mc_q c) \<le> length (mc_log c)"
proof -
  define c :: "nat mc_conf" where
    "c = fold mc_act1 [StartW 0 7, Go 0, Go 0, Go 0, Go 0, StartW 1 8, StartR 2, Go 1, Go 1, Go 2, Go 2, Go 2] (mc_init (mq_init 0 2 2))"
  have r: "mc_step\<^sup>*\<^sup>* (mc_init (mq_init 0 2 2)) c" unfolding c_def by (rule mc_acts_steps)
  have g: "mc_got c = [(0, 7)]" "mc_log c = [7, 8]"
    by (simp_all add: c_def mc_init_def mq_init_def mq_elem_def mq_set_val_def mq_set_seq_def Let_def)
  from r g mpmc_exactly_once [OF _ _ new_mpmc_queue_2 r] show ?thesis by auto
qed

text \<open>
  C15: Once every thread has returned, the queue is again the FIFO queue of the single-threaded code: it
  satisfies its invariant, holds exactly the values written but not read in the order of their claims, and all
  earlier values have been read.
\<close>

theorem mpmc_quiescent_fifo:
  assumes "2 \<le> n" and "n \<le> 2 ^ 30" and "new_mpmc_queue z n = Some q" and "mc_step\<^sup>*\<^sup>* (mc_init q) c"
    and "\<forall>t. mc_pc c t = Idle"
  shows "mq_inv (mc_q c) \<and> mq_contents (mc_q c) = drop (mq_rpos (mc_q c)) (mc_log c) \<and>
     set (mc_got c) = (\<lambda>p. (p, mc_log c ! p)) ` {..< mq_rpos (mc_q c)}"
proof -
  have inv: "mc_inv c" by (rule mc_new_inv [OF assms(1-4)])
  note D = mc_invD [OF inv]
  have slots: "me_seq (mq_elem (mc_q c) p) = p + 1 \<and> me_val (mq_elem (mc_q c) p) = mc_log c ! p"
    if "mq_rpos (mc_q c) \<le> p" "p < mq_wpos (mc_q c)" for p
    using mc_slotsD(1) [OF inv that] assms(5) by auto
  moreover have "me_seq (mq_elem (mc_q c) p) = p" if "mq_wpos (mc_q c) \<le> p" "p < mq_rpos (mc_q c) + mq_cap (mc_q c)" for p
    using mc_slotsD(2) [OF inv that] assms(5) by auto
  ultimately have "mq_inv (mc_q c)" using D by (auto simp: mq_inv_def)
  moreover have "mq_contents (mc_q c) = drop (mq_rpos (mc_q c)) (mc_log c)"
    using slots D(5) by (intro nth_equalityI) (auto simp: mq_contents_def)
  moreover have "set (mc_got c) = (\<lambda>p. (p, mc_log c ! p)) ` {..< mq_rpos (mc_q c)}"
    using inv assms(5) unfolding mc_inv_def mc_got_ok_def by (force simp: image_iff)
  ultimately show ?thesis by blast
qed

theorem mpmc_quiescent_fifo_witness:
  "\<exists>c :: nat mc_conf. mc_step\<^sup>*\<^sup>* (mc_init (mq_init 0 2 2)) c \<and> (\<forall>t. mc_pc c t = Idle) \<and> mc_log c = [7] \<and>
     mq_inv (mc_q c) \<and> mq_contents (mc_q c) = [7]"
proof -
  define c :: "nat mc_conf" where
    "c = fold mc_act1 [StartW 0 7, Go 0, Go 0, Go 0, Go 0, Go 0] (mc_init (mq_init 0 2 2))"
  have r: "mc_step\<^sup>*\<^sup>* (mc_init (mq_init 0 2 2)) c" unfolding c_def by (rule mc_acts_steps)
  have g: "\<forall>t. mc_pc c t = Idle" "mc_log c = [7]" "mq_rpos (mc_q c) = 0"
    by (simp_all add: c_def mc_init_def mq_init_def mq_elem_def mq_set_val_def mq_set_seq_def Let_def)
  from r g mpmc_quiescent_fifo [OF _ _ new_mpmc_queue_2 r g(1)] show ?thesis by auto
qed

end
