(* ===== verification/Heaps.thy ===== *)
theory Heaps
  imports Prelude "HOL-Library.Multiset"
begin

text \<open>
  The heap algorithms of the C++ standard library on a vector, as \<open>io/Timer.cpp\<close> uses them: the smallest
  key is at the front. The interface \<open>heap_algorithms\<close> is what the standard promises; the functions
  below are one implementation of it. The standard fixes no particular arrangement, so the timer queue
  is proved correct from the interface alone.
\<close>

definition is_heap :: "('a \<Rightarrow> int) \<Rightarrow> 'a list \<Rightarrow> bool" where
  "is_heap key xs \<longleftrightarrow> (\<forall>i < length xs. 0 < i \<longrightarrow> key (xs ! ((i - 1) div 2)) \<le> key (xs ! i))"

definition swap_at :: "nat \<Rightarrow> nat \<Rightarrow> 'a list \<Rightarrow> 'a list" where
  "swap_at i j xs = xs[i := xs ! j, j := xs ! i]"

function sift_up :: "('a \<Rightarrow> int) \<Rightarrow> 'a list \<Rightarrow> nat \<Rightarrow> 'a list" where
  "sift_up key xs i = (let p = (i - 1) div 2 in
     if 0 < i \<and> key (xs ! i) < key (xs ! p) then sift_up key (swap_at i p xs) p else xs)"
  by pat_completeness auto
termination
  by (relation "measure (\<lambda>(key, xs, i). i)") auto

declare sift_up.simps [simp del]

text \<open>\<open>push_heap\<close>: the last element is new, the others form a heap.\<close>

definition push_heap :: "('a \<Rightarrow> int) \<Rightarrow> 'a list \<Rightarrow> 'a list" where
  "push_heap key xs = sift_up key xs (length xs - 1)"

definition make_heap :: "('a \<Rightarrow> int) \<Rightarrow> 'a list \<Rightarrow> 'a list" where
  "make_heap key xs = foldl (\<lambda>h x. push_heap key (h @ [x])) [] xs"

text \<open>\<open>pop_heap\<close>: the front moves to the back, the others are made a heap again.\<close>

definition pop_heap :: "('a \<Rightarrow> int) \<Rightarrow> 'a list \<Rightarrow> 'a list" where
  "pop_heap key xs = (case xs of [] \<Rightarrow> [] | x # r \<Rightarrow> make_heap key r @ [x])"

lemma mset_eq_filter_length: "mset xs = mset ys \<Longrightarrow> length (filter P xs) = length (filter P ys)"
  by (metis mset_filter size_mset)

locale heap_algorithms =
  fixes push pop make :: "('a \<Rightarrow> int) \<Rightarrow> 'a list \<Rightarrow> 'a list"
  assumes push_mset: "mset (push key xs) = mset xs"
    and push_is_heap: "is_heap key xs \<Longrightarrow> is_heap key (push key (xs @ [x]))"
    and pop_mset: "mset (pop key xs) = mset xs"
    and pop_last: "xs \<noteq> [] \<Longrightarrow> last (pop key xs) = hd xs"
    and pop_is_heap: "is_heap key xs \<Longrightarrow> is_heap key (butlast (pop key xs))"
    and make_mset: "mset (make key xs) = mset xs"
    and make_is_heap: "is_heap key (make key xs)"
begin

lemma push_set: "set (push key xs) = set xs"
  by (metis push_mset set_mset_mset)

lemma push_length: "length (push key xs) = length xs"
  by (metis push_mset size_mset)

lemma push_distinct: "distinct (push key xs) = distinct xs"
  by (rule mset_eq_imp_distinct_iff [OF push_mset])

lemma make_set: "set (make key xs) = set xs"
  by (metis make_mset set_mset_mset)

lemma make_distinct: "distinct (make key xs) = distinct xs"
  by (rule mset_eq_imp_distinct_iff [OF make_mset])

lemma make_filter: "length (filter P (make key xs)) = length (filter P xs)"
  by (rule mset_eq_filter_length [OF make_mset])

lemma push_filter: "length (filter P (push key xs)) = length (filter P xs)"
  by (rule mset_eq_filter_length [OF push_mset])

text \<open>Popping: the heap without its front.\<close>

lemma pop_butlast_mset: "xs \<noteq> [] \<Longrightarrow> mset xs = add_mset (hd xs) (mset (butlast (pop key xs)))"
proof -
  assume ne: "xs \<noteq> []"
  then have "pop key xs \<noteq> []" using pop_mset [of key xs] by (metis mset_zero_iff)
  then have "pop key xs = butlast (pop key xs) @ [hd xs]" using pop_last [OF ne] by (metis append_butlast_last_id)
  then have "mset (pop key xs) = mset (butlast (pop key xs) @ [hd xs])" by (rule arg_cong)
  with pop_mset [of key xs] show ?thesis by simp
qed

lemma pop_butlast_length: "xs \<noteq> [] \<Longrightarrow> length (butlast (pop key xs)) = length xs - 1"
  using pop_butlast_mset [of xs key] by (metis size_add_mset size_mset diff_Suc_1)

lemma pop_butlast_set:
  assumes "xs \<noteq> []" and "distinct xs"
  shows "set (butlast (pop key xs)) = set xs - {hd xs}" "distinct (butlast (pop key xs))"
proof -
  let ?ys = "butlast (pop key xs)"
  have m: "mset (hd xs # ?ys) = mset xs" using pop_butlast_mset [OF assms(1), of key] by simp
  then have d: "distinct (hd xs # ?ys)" using assms(2) mset_eq_imp_distinct_iff [OF m] by simp
  then show "distinct ?ys" by simp
  have "set xs = insert (hd xs) (set ?ys)" using m by (metis list.set(2) set_mset_mset)
  with d show "set ?ys = set xs - {hd xs}" by auto
qed

lemma pop_butlast_filter:
  "xs \<noteq> [] \<Longrightarrow> length (filter P xs) = (if P (hd xs) then 1 else 0) + length (filter P (butlast (pop key xs)))"
proof -
  assume "xs \<noteq> []"
  then have "mset xs = mset (hd xs # butlast (pop key xs))" using pop_butlast_mset [of xs key] by simp
  from mset_eq_filter_length [OF this, of P] show ?thesis by simp
qed

end

subsection \<open>The implementation meets the interface\<close>

lemma mset_swap_at: "i < length xs \<Longrightarrow> j < length xs \<Longrightarrow> mset (swap_at i j xs) = mset xs"
  by (simp add: swap_at_def mset_swap)

lemma length_swap_at [simp]: "length (swap_at i j xs) = length xs"
  by (simp add: swap_at_def)

lemma sift_up_mset: "i < length xs \<Longrightarrow> mset (sift_up key xs i) = mset xs"
proof (induction key xs i rule: sift_up.induct)
  case (1 key xs i)
  then show ?case by (subst sift_up.simps) (auto simp: Let_def mset_swap_at)
qed

lemma push_heap_mset: "mset (push_heap key xs) = mset xs"
proof (cases xs)
  case Nil
  then show ?thesis by (simp add: push_heap_def sift_up.simps)
next
  case (Cons a list)
  then show ?thesis by (simp add: push_heap_def sift_up_mset)
qed

text \<open>A heap but for the element at \<open>i\<close>, which may be smaller than its parent.\<close>

definition heap_but :: "('a \<Rightarrow> int) \<Rightarrow> 'a list \<Rightarrow> nat \<Rightarrow> bool" where
  "heap_but key xs i \<longleftrightarrow>
     (\<forall>j < length xs. 0 < j \<and> j \<noteq> i \<longrightarrow> key (xs ! ((j - 1) div 2)) \<le> key (xs ! j)) \<and>
     (\<forall>j < length xs. 0 < j \<and> (j - 1) div 2 = i \<and> 0 < i \<longrightarrow> key (xs ! ((i - 1) div 2)) \<le> key (xs ! j))"

lemma swap_at_nth:
  "i < length xs \<Longrightarrow> p < length xs \<Longrightarrow> k < length xs \<Longrightarrow>
    swap_at i p xs ! k = (if k = p then xs ! i else if k = i then xs ! p else xs ! k)"
  by (auto simp: swap_at_def nth_list_update)

lemma heap_but_swap:
  assumes hb: "heap_but key xs i" and i: "0 < i" "i < length xs"
    and lt: "key (xs ! i) < key (xs ! ((i - 1) div 2))"
  shows "heap_but key (swap_at i ((i - 1) div 2) xs) ((i - 1) div 2)"
proof -
  let ?p = "(i - 1) div 2"
  have p: "?p < i" "?p < length xs" using i by auto
  have H: "key (xs ! ((j - 1) div 2)) \<le> key (xs ! j)" if "j < length xs" "0 < j" "j \<noteq> i" for j
    using hb that by (auto simp: heap_but_def)
  have K: "key (xs ! ?p) \<le> key (xs ! j)" if "j < length xs" "0 < j" "(j - 1) div 2 = i" for j
    using hb that i by (auto simp: heap_but_def)
  have ne: "(j - 1) div 2 \<noteq> j" if "0 < j" for j :: nat using that by auto
  have 1: "key (swap_at i ?p xs ! ((j - 1) div 2)) \<le> key (swap_at i ?p xs ! j)"
    if j: "j < length xs" "0 < j" "j \<noteq> ?p" for j
  proof -
    have "(j - 1) div 2 < length xs" using j by auto
    with j p i(2) H [OF j(1,2)] K [OF j(1,2)] lt ne [OF j(2)] H [of ?p]
    show ?thesis by (auto simp: swap_at_nth)
  qed
  have 2: "key (swap_at i ?p xs ! ((?p - 1) div 2)) \<le> key (swap_at i ?p xs ! j)"
    if j: "j < length xs" "0 < j" "(j - 1) div 2 = ?p" "0 < ?p" for j
  proof -
    define g where "g = (?p - 1) div 2"
    have "(k - 1) div 2 < k" if "0 < k" for k :: nat using that by auto
    then have g: "g < ?p" using j(4) unfolding g_def by blast
    have le: "key (xs ! g) \<le> key (xs ! ?p)" using H [of ?p] p j(4) i unfolding g_def by linarith
    have sg: "swap_at i ?p xs ! g = xs ! g" using g p i by (simp add: swap_at_nth)
    have jp: "j \<noteq> ?p" using j ne [OF j(2)] by metis
    show ?thesis
    proof (cases "j = i")
      case True
      have "swap_at i ?p xs ! i = xs ! ?p" using p i by (simp add: swap_at_nth)
      with True sg le show ?thesis unfolding g_def [symmetric] by simp
    next
      case False
      have "key (xs ! ?p) \<le> key (xs ! j)" using H [OF j(1,2) False] j(3) by simp
      moreover have "swap_at i ?p xs ! j = xs ! j" using p i j(1) jp False by (simp add: swap_at_nth)
      ultimately show ?thesis using sg le unfolding g_def [symmetric] by simp
    qed
  qed
  show ?thesis unfolding heap_but_def length_swap_at using 1 2 by blast
qed

lemma sift_up_heap: "i < length xs \<Longrightarrow> heap_but key xs i \<Longrightarrow> is_heap key (sift_up key xs i)"
proof (induction key xs i rule: sift_up.induct)
  case (1 key xs i)
  let ?p = "(i - 1) div 2"
  show ?case
  proof (cases "0 < i \<and> key (xs ! i) < key (xs ! ?p)")
    case True
    then have "heap_but key (swap_at i ?p xs) ?p" using heap_but_swap 1(2,3) by blast
    moreover have "?p < length (swap_at i ?p xs)" using 1(2) by auto
    ultimately have "is_heap key (sift_up key (swap_at i ?p xs) ?p)" using 1(1) True by blast
    with True show ?thesis by (subst sift_up.simps) (simp add: Let_def)
  next
    case False
    then have "sift_up key xs i = xs" by (subst sift_up.simps) (auto simp: Let_def)
    with False 1(3) show ?thesis by (auto simp: is_heap_def heap_but_def)
  qed
qed

lemma push_heap_is_heap: "is_heap key xs \<Longrightarrow> is_heap key (push_heap key (xs @ [x]))"
proof -
  assume h: "is_heap key xs"
  have "heap_but key (xs @ [x]) (length xs)"
    using h by (auto simp: heap_but_def is_heap_def nth_append less_Suc_eq)
  then show ?thesis unfolding push_heap_def by (intro sift_up_heap) auto
qed

lemma make_heap_snoc: "make_heap key (xs @ [x]) = push_heap key (make_heap key xs @ [x])"
  by (simp add: make_heap_def)

lemma make_heap_mset: "mset (make_heap key xs) = mset xs"
  by (induction xs rule: rev_induct) (simp_all add: make_heap_snoc push_heap_mset, simp add: make_heap_def)

lemma make_heap_is_heap: "is_heap key (make_heap key xs)"
  by (induction xs rule: rev_induct) (simp_all add: make_heap_snoc push_heap_is_heap, simp add: make_heap_def is_heap_def)

lemma is_heap_Nil [simp]: "is_heap key []"
  by (simp add: is_heap_def)

interpretation std: heap_algorithms push_heap pop_heap make_heap
  by unfold_locales
    (simp_all add: push_heap_mset push_heap_is_heap make_heap_mset make_heap_is_heap pop_heap_def split: list.split)

lemma is_heap_front: "is_heap key xs \<Longrightarrow> i < length xs \<Longrightarrow> key (hd xs) \<le> key (xs ! i)"
proof (induction i rule: less_induct)
  case (less i)
  show ?case
  proof (cases "i = 0")
    case True
    with less show ?thesis by (cases xs) auto
  next
    case False
    with less.IH [of "(i - 1) div 2"] less.prems have "key (hd xs) \<le> key (xs ! ((i - 1) div 2))" by auto
    also have "\<dots> \<le> key (xs ! i)" using less.prems False by (simp add: is_heap_def)
    finally show ?thesis .
  qed
qed

lemma is_heap_min: "is_heap key xs \<Longrightarrow> a \<in> set xs \<Longrightarrow> key (hd xs) \<le> key a"
  by (metis in_set_conv_nth is_heap_front)

lemma is_heap_cong: "(\<And>a. a \<in> set xs \<Longrightarrow> key a = key' a) \<Longrightarrow> is_heap key xs = is_heap key' xs"
  unfolding is_heap_def by (smt (verit) Suc_lessD Suc_pred div_le_dividend less_imp_diff_less nth_mem order_le_less_trans)

end
