(* ===== verification/Timers.thy ===== *)
theory Timers
  imports Heaps
begin

text \<open>
  The model of \<open>io/Timer.hpp\<close> and \<open>io/Timer.cpp\<close>: the pool of timer objects with its free list, the
  intrusive reference counts, and the timer queue, a heap of handles ordered by expiry. Objects live in a
  store indexed by address; a handle is an address. The handles that the program holds are counted in a
  ghost component, from which the invariant explains every reference count. Times are integers (nanoseconds).
\<close>

subsection \<open>State\<close>

record timer_impl =
  ti_ref :: int
  ti_id :: int
  ti_expiry :: int
  ti_interval :: int
  ti_slot :: "nat option"

record timer_queue =
  tp_slabs :: nat
  tp_free :: "nat list"
  tq_store :: "nat \<Rightarrow> timer_impl"
  tq_max_id :: int
  tq_cancelled :: int
  tq_heap :: "nat list"
  tq_ext :: "nat \<Rightarrow> nat"

text \<open>\<open>(PageSize - Overhead) / sizeof(Timer)\<close>, a handle being one pointer.\<close>

definition SlabSize :: nat where
  "SlabSize = (4096 - 16) div 8"

definition tq_new :: timer_queue where
  "tq_new = \<lparr>tp_slabs = 0, tp_free = [], tq_store = (\<lambda>_. \<lparr>ti_ref = 0, ti_id = 0, ti_expiry = 0, ti_interval = 0, ti_slot = None\<rparr>),
     tq_max_id = 0, tq_cancelled = 0, tq_heap = [], tq_ext = (\<lambda>_. 0)\<rparr>"

definition pending :: "timer_queue \<Rightarrow> nat \<Rightarrow> bool" where
  "pending s a \<longleftrightarrow> ti_slot (tq_store s a) \<noteq> None"

definition expiry :: "timer_queue \<Rightarrow> nat \<Rightarrow> int" where
  "expiry s a = ti_expiry (tq_store s a)"

definition tq_upd :: "nat \<Rightarrow> (timer_impl \<Rightarrow> timer_impl) \<Rightarrow> timer_queue \<Rightarrow> timer_queue" where
  "tq_upd a f s = s\<lparr>tq_store := (tq_store s)(a := f (tq_store s a))\<rparr>"

text \<open>\<open>size()\<close> is a \<open>size_t\<close>: the difference of the vector's size and a counter.\<close>

definition tq_size :: "timer_queue \<Rightarrow> int" where
  "tq_size s = int (length (tq_heap s)) - tq_cancelled s"

definition tq_empty :: "timer_queue \<Rightarrow> bool" where
  "tq_empty s \<longleftrightarrow> tq_size s = 0"

subsection \<open>The pool\<close>

definition pool_alloc :: "timer_queue \<Rightarrow> nat \<times> timer_queue" where
  "pool_alloc s = (case tp_free s of
     a # fs \<Rightarrow> (a, s\<lparr>tp_free := fs\<rparr>)
   | [] \<Rightarrow> (let b = tp_slabs s * SlabSize in
       (b, s\<lparr>tp_slabs := tp_slabs s + 1, tp_free := rev [b + 1 ..< b + SlabSize]\<rparr>)))"

definition pool_dealloc :: "nat \<Rightarrow> timer_queue \<Rightarrow> timer_queue" where
  "pool_dealloc a s = s\<lparr>tp_free := a # tp_free s\<rparr>"

subsection \<open>References and the heap\<close>

definition add_ref :: "nat \<Rightarrow> timer_queue \<Rightarrow> timer_queue" where
  "add_ref a = tq_upd a (\<lambda>t. t\<lparr>ti_ref := ti_ref t + 1\<rparr>)"

text \<open>
  \<open>intrusive_ptr_release\<close> for a timer that is not pending: its first branch does nothing then. The loops of
  \<open>cancel\<close> and \<open>dispatch\<close> and the collector drop only such handles.
\<close>

definition release_idle :: "nat \<Rightarrow> timer_queue \<Rightarrow> timer_queue" where
  "release_idle a s = (let s1 = tq_upd a (\<lambda>t. t\<lparr>ti_ref := ti_ref t - 1\<rparr>) s in
     if ti_ref (tq_store s1 a) = 0 then pool_dealloc a s1 else s1)"

definition heap_push :: "nat \<Rightarrow> timer_queue \<Rightarrow> timer_queue" where
  "heap_push a s = s\<lparr>tq_heap := push_heap (expiry s) (tq_heap s @ [a])\<rparr>"

text \<open>
  \<open>pop()\<close>: the front is copied, then moved to the back and destroyed there. \<open>rel\<close> is the release that the
  destruction calls; the result is the copy.
\<close>

definition tq_pop :: "(nat \<Rightarrow> timer_queue \<Rightarrow> timer_queue) \<Rightarrow> timer_queue \<Rightarrow> nat \<times> timer_queue" where
  "tq_pop rel s = (let a = hd (tq_heap s); s1 = add_ref a s;
       s2 = s1\<lparr>tq_heap := butlast (pop_heap (expiry s1) (tq_heap s1))\<rparr>
     in (a, rel a s2))"

definition tq_gc :: "timer_queue \<Rightarrow> timer_queue" where
  "tq_gc s = (if tq_cancelled s > int (length (tq_heap s) div 2)
     then let dead = filter (\<lambda>a. \<not> pending s a) (tq_heap s);
              s1 = fold release_idle dead (s\<lparr>tq_heap := filter (pending s) (tq_heap s)\<rparr>)
          in s1\<lparr>tq_heap := make_heap (expiry s1) (tq_heap s1), tq_cancelled := 0\<rparr>
     else s)"

text \<open>One round of the loops that drop cancelled timers: pop, then the popped handle is destroyed.\<close>

definition drop_front :: "timer_queue \<Rightarrow> timer_queue" where
  "drop_front s = (case tq_pop release_idle s of (a, s1) \<Rightarrow>
     let s2 = release_idle a s1 in s2\<lparr>tq_cancelled := tq_cancelled s2 - 1\<rparr>)"

lemma tq_upd_fields [simp]:
  "tq_heap (tq_upd a f s) = tq_heap s" "tq_cancelled (tq_upd a f s) = tq_cancelled s"
  "tp_free (tq_upd a f s) = tp_free s" "tp_slabs (tq_upd a f s) = tp_slabs s" "tq_ext (tq_upd a f s) = tq_ext s"
  "tq_max_id (tq_upd a f s) = tq_max_id s"
  by (simp_all add: tq_upd_def)

lemma release_idle_heap [simp]: "tq_heap (release_idle a s) = tq_heap s"
  by (simp add: release_idle_def pool_dealloc_def Let_def)

lemma drop_front_length:
  "tq_heap s \<noteq> [] \<Longrightarrow> length (tq_heap (drop_front s)) < length (tq_heap s)"
  using std.pop_butlast_length [of "tq_heap s"]
  by (simp add: drop_front_def tq_pop_def add_ref_def Let_def)

function cancel_loop :: "timer_queue \<Rightarrow> timer_queue" where
  "cancel_loop s = (if tq_heap s \<noteq> [] \<and> \<not> pending s (hd (tq_heap s)) then cancel_loop (drop_front s) else s)"
  by pat_completeness auto
termination
  by (relation "measure (\<lambda>s. length (tq_heap s))") (auto simp: drop_front_length)

declare cancel_loop.simps [simp del]

text \<open>\<open>TimerQueue::cancel\<close>.\<close>

definition tq_cancel :: "timer_queue \<Rightarrow> timer_queue" where
  "tq_cancel s = tq_gc (cancel_loop (s\<lparr>tq_cancelled := tq_cancelled s + 1\<rparr>))"

definition slot_reset :: "nat \<Rightarrow> timer_queue \<Rightarrow> timer_queue" where
  "slot_reset a = tq_upd a (\<lambda>t. t\<lparr>ti_slot := None\<rparr>)"

text \<open>\<open>intrusive_ptr_release\<close>.\<close>

definition release :: "nat \<Rightarrow> timer_queue \<Rightarrow> timer_queue" where
  "release a s = (let s1 = tq_upd a (\<lambda>t. t\<lparr>ti_ref := ti_ref t - 1\<rparr>) s in
     if ti_ref (tq_store s1 a) = 1 then (if pending s1 a then tq_cancel (slot_reset a s1) else s1)
     else if ti_ref (tq_store s1 a) = 0 then pool_dealloc a s1 else s1)"

lemma release_idle_eq: "\<not> pending s a \<Longrightarrow> release a s = release_idle a s"
  by (simp add: release_def release_idle_def pending_def tq_upd_def Let_def)

text \<open>\<open>Timer::cancel\<close>.\<close>

definition timer_cancel :: "nat \<Rightarrow> timer_queue \<Rightarrow> timer_queue" where
  "timer_cancel a s = (if pending s a then tq_cancel (slot_reset a s) else s)"

definition tq_alloc :: "int \<Rightarrow> int \<Rightarrow> nat \<Rightarrow> timer_queue \<Rightarrow> nat \<times> timer_queue" where
  "tq_alloc ex iv slot s = (case pool_alloc s of (a, s1) \<Rightarrow>
     (a, (tq_upd a (\<lambda>_. \<lparr>ti_ref = 1, ti_id = tq_max_id s1 + 1, ti_expiry = ex, ti_interval = iv, ti_slot = Some slot\<rparr>) s1)
           \<lparr>tq_max_id := tq_max_id s1 + 1\<rparr>))"

text \<open>\<open>insert\<close>: the handle is copied into the heap and returned.\<close>

definition tq_insert :: "int \<Rightarrow> int \<Rightarrow> nat \<Rightarrow> timer_queue \<Rightarrow> nat \<times> timer_queue" where
  "tq_insert ex iv slot s = (case tq_alloc ex iv slot s of (a, s1) \<Rightarrow>
     (a, (heap_push a (add_ref a s1))\<lparr>tq_ext := (tq_ext s1)(a := tq_ext s1 a + 1)\<rparr>))"

subsection \<open>The program using the queue\<close>

text \<open>
  What the program does with timers, in a callback or outside: it inserts, cancels through a handle it
  holds, copies a handle, or drops one.
\<close>

datatype timer_act = TInsert int int nat | TCancel nat | TCopy nat | TDrop nat

fun timer_act1 :: "timer_act \<Rightarrow> timer_queue \<Rightarrow> timer_queue" where
  "timer_act1 (TInsert ex iv slot) s = snd (tq_insert ex iv slot s)"
| "timer_act1 (TCancel a) s = (if 0 < tq_ext s a then timer_cancel a s else s)"
| "timer_act1 (TCopy a) s = (if 0 < tq_ext s a then (add_ref a s)\<lparr>tq_ext := (tq_ext s)(a := tq_ext s a + 1)\<rparr> else s)"
| "timer_act1 (TDrop a) s = (if 0 < tq_ext s a then release a (s\<lparr>tq_ext := (tq_ext s)(a := tq_ext s a - 1)\<rparr>) else s)"

text \<open>A callback: what the slot does when it is invoked with the time and the timer, given all it can see.\<close>

type_synonym callback = "nat \<Rightarrow> int \<Rightarrow> nat \<Rightarrow> timer_queue \<Rightarrow> timer_act list"

text \<open>\<open>expire\<close>: the popped handle is a local variable, destroyed at the end. An exception of the callback is logged and ignored.\<close>

definition expire_rearm :: "int \<Rightarrow> nat \<Rightarrow> timer_queue \<Rightarrow> timer_queue" where
  "expire_rearm now a s = (if pending s a then
       (if ti_interval (tq_store s a) > 0
        then heap_push a (add_ref a (tq_upd a (\<lambda>t. t\<lparr>ti_expiry := max (ti_expiry t + ti_interval t) (now + 1)\<rparr>) s))
        else slot_reset a s)
     else s)"

definition tq_expire :: "callback \<Rightarrow> int \<Rightarrow> timer_queue \<Rightarrow> timer_queue" where
  "tq_expire cb now s = (case tq_pop release s of (a, s1) \<Rightarrow>
     release a (expire_rearm now a (fold timer_act1 (cb (the (ti_slot (tq_store s1 a))) now a s1) s1)))"

partial_function (option) dispatch_loop :: "callback \<Rightarrow> int \<Rightarrow> nat \<Rightarrow> timer_queue \<Rightarrow> (nat \<times> timer_queue) option" where
  "dispatch_loop cb now work s = (if tq_heap s = [] then Some (work, s)
     else if \<not> pending s (hd (tq_heap s)) then dispatch_loop cb now work (drop_front s)
     else if expiry s (hd (tq_heap s)) \<le> now then dispatch_loop cb now (work + 1) (tq_expire cb now s)
     else Some (work, s))"

definition tq_dispatch :: "callback \<Rightarrow> int \<Rightarrow> timer_queue \<Rightarrow> (nat \<times> timer_queue) option" where
  "tq_dispatch cb now s = map_option (\<lambda>(work, s'). (work, tq_gc s')) (dispatch_loop cb now 0 s)"


subsection \<open>The invariant\<close>

text \<open>
  \<open>L a\<close> counts the handles to \<open>a\<close> in local variables of the queue's own code. A timer is live when some
  handle to it exists; exactly the live timers are off the free list, and the reference count of a live timer is
  the number of its handles. A pending timer is in the heap or being fired, and has a handle outside
  of the heap.
\<close>

definition tp_total :: "timer_queue \<Rightarrow> nat" where
  "tp_total s = tp_slabs s * SlabSize"

definition handles :: "(nat \<Rightarrow> nat) \<Rightarrow> timer_queue \<Rightarrow> nat \<Rightarrow> nat" where
  "handles L s a = tq_ext s a + (if a \<in> set (tq_heap s) then 1 else 0) + L a"

definition tq_core :: "(nat \<Rightarrow> nat) \<Rightarrow> timer_queue \<Rightarrow> bool" where
  "tq_core L s \<longleftrightarrow> is_heap (expiry s) (tq_heap s) \<and> distinct (tq_heap s) \<and>
     distinct (tp_free s) \<and> set (tp_free s) \<subseteq> {..< tp_total s} \<and>
     (\<forall>a. 0 < handles L s a \<longleftrightarrow> a < tp_total s \<and> a \<notin> set (tp_free s)) \<and>
     (\<forall>a. 0 < handles L s a \<longrightarrow> ti_ref (tq_store s a) = int (handles L s a)) \<and>
     (\<forall>a. 0 < handles L s a \<and> pending s a \<longrightarrow> 2 \<le> handles L s a \<and> (a \<in> set (tq_heap s) \<or> 0 < L a))"

definition dead :: "timer_queue \<Rightarrow> nat" where
  "dead s = length (filter (\<lambda>a. \<not> pending s a) (tq_heap s))"

definition tq_inv :: "(nat \<Rightarrow> nat) \<Rightarrow> timer_queue \<Rightarrow> bool" where
  "tq_inv L s \<longleftrightarrow> tq_core L s \<and> int (dead s) \<le> tq_cancelled s"

lemma upd_pending: "pending (tq_upd a f s) b = (if b = a then ti_slot (f (tq_store s a)) \<noteq> None else pending s b)"
  by (simp add: pending_def tq_upd_def)

lemma upd_expiry: "expiry (tq_upd a f s) b = (if b = a then ti_expiry (f (tq_store s a)) else expiry s b)"
  by (simp add: expiry_def tq_upd_def)

lemma upd_handles [simp]: "handles L (tq_upd a f s) = handles L s"
  by (simp add: handles_def fun_eq_iff)

lemma upd_store: "tq_store (tq_upd a f s) b = (if b = a then f (tq_store s a) else tq_store s b)"
  by (simp add: tq_upd_def)

lemma fields_cong [simp]:
  "pending (s\<lparr>tq_heap := h\<rparr>) = pending s" "pending (s\<lparr>tq_cancelled := c\<rparr>) = pending s"
  "pending (s\<lparr>tq_ext := e\<rparr>) = pending s" "pending (s\<lparr>tp_free := fr\<rparr>) = pending s"
  "expiry (s\<lparr>tq_heap := h\<rparr>) = expiry s" "expiry (s\<lparr>tq_cancelled := c\<rparr>) = expiry s"
  "expiry (s\<lparr>tq_ext := e\<rparr>) = expiry s" "expiry (s\<lparr>tp_free := fr\<rparr>) = expiry s"
  "tp_total (s\<lparr>tq_heap := h\<rparr>) = tp_total s" "tp_total (s\<lparr>tq_cancelled := c\<rparr>) = tp_total s"
  "tp_total (s\<lparr>tq_ext := e\<rparr>) = tp_total s" "tp_total (s\<lparr>tp_free := fr\<rparr>) = tp_total s" "tp_total (tq_upd a f s) = tp_total s"
  by (simp_all add: pending_def expiry_def tp_total_def fun_eq_iff)

lemma tq_core_D:
  assumes "tq_core L s"
  shows "is_heap (expiry s) (tq_heap s)" "distinct (tq_heap s)" "distinct (tp_free s)" "set (tp_free s) \<subseteq> {..< tp_total s}"
    "\<And>a. 0 < handles L s a \<longleftrightarrow> a < tp_total s \<and> a \<notin> set (tp_free s)"
    "\<And>a. 0 < handles L s a \<Longrightarrow> ti_ref (tq_store s a) = int (handles L s a)"
    "\<And>a. 0 < handles L s a \<Longrightarrow> pending s a \<Longrightarrow> 2 \<le> handles L s a \<and> (a \<in> set (tq_heap s) \<or> 0 < L a)"
  using assms by (simp_all add: tq_core_def)

lemma core_add_ref:
  assumes "tq_core L s" and "0 < handles L s a"
  shows "tq_core (L(a := L a + 1)) (add_ref a s)"
proof -
  note D = tq_core_D [OF assms(1)]
  have h: "handles (L(a := L a + 1)) (add_ref a s) b = handles L s b + (if b = a then 1 else 0)" for b
    by (simp add: handles_def add_ref_def)
  have e: "expiry (add_ref a s) = expiry s" by (simp add: add_ref_def expiry_def tq_upd_def fun_eq_iff)
  have p: "pending (add_ref a s) b = pending s b" for b by (simp add: add_ref_def pending_def tq_upd_def)
  obtain n where "handles L s a = Suc n" using assms(2) gr0_implies_Suc by blast
  then show ?thesis
    unfolding tq_core_def h e p
    using D(1-4) D(5) [of a] D(5) D(6) D(7) by (auto simp: add_ref_def upd_store)
qed

text \<open>Taking the front off the heap turns the heap's handle into a local one.\<close>

lemma core_unheap:
  assumes "tq_core L s" and ne: "tq_heap s \<noteq> []"
  defines "a \<equiv> hd (tq_heap s)"
  shows "tq_core (L(a := L a + 1)) (s\<lparr>tq_heap := butlast (pop_heap (expiry s) (tq_heap s))\<rparr>)"
proof -
  note D = tq_core_D [OF assms(1)]
  let ?s = "s\<lparr>tq_heap := butlast (pop_heap (expiry s) (tq_heap s))\<rparr>"
  note P = std.pop_butlast_set [OF ne D(2), of "expiry s"]
  have "a \<in> set (tq_heap s)" using ne by (simp add: a_def)
  then have h: "handles (L(a := L a + 1)) ?s b = handles L s b" for b
    using P by (auto simp: handles_def a_def)
  show ?thesis
    unfolding tq_core_def h using D P std.pop_is_heap [OF D(1)] by (auto simp: a_def)
qed

lemma core_release_idle:
  assumes "tq_core L s" and "0 < L a" and np: "pending s a \<Longrightarrow> 3 \<le> handles L s a \<and> (a \<in> set (tq_heap s) \<or> 1 < L a)"
  shows "tq_core (L(a := L a - 1)) (release_idle a s)"
proof -
  note D = tq_core_D [OF assms(1)]
  let ?L = "L(a := L a - 1)" and ?s = "release_idle a s"
  have pos: "0 < handles L s a" using assms(2) by (simp add: handles_def)
  have fields: "tq_heap ?s = tq_heap s" "tq_ext ?s = tq_ext s" "expiry ?s = expiry s" "tp_total ?s = tp_total s"
    by (simp_all add: release_idle_def pool_dealloc_def Let_def expiry_def tq_upd_def tp_total_def fun_eq_iff)
  have p: "pending ?s b = pending s b" for b
    by (simp add: release_idle_def pool_dealloc_def Let_def upd_pending pending_def tq_upd_def)
  have h: "handles ?L ?s b = (if b = a then handles L s a - 1 else handles L s b)" for b
    using assms(2) by (simp add: handles_def fields)
  have st: "ti_ref (tq_store ?s b) = (if b = a then ti_ref (tq_store s a) - 1 else ti_ref (tq_store s b))" for b
    by (simp add: release_idle_def pool_dealloc_def Let_def tq_upd_def)
  have fr: "tp_free ?s = (if handles L s a = 1 then a # tp_free s else tp_free s)"
    using D(6) [OF pos] by (simp add: release_idle_def pool_dealloc_def Let_def tq_upd_def)
  have live: "a < tp_total s" "a \<notin> set (tp_free s)" using D(5) pos by auto
  have ge: "handles L s a \<noteq> Suc 0 \<Longrightarrow> Suc 0 < handles L s a" using pos by linarith
  have *: "0 < handles L s b \<longleftrightarrow> b < tp_total s \<and> b \<notin> set (tp_free s)" for b by (rule D(5))
  show ?thesis
    unfolding tq_core_def h p fields st fr
    using D(1-4) D(6) D(7) live pos ge np * by (auto split: if_splits)
qed


lemma release_idle_fields [simp]:
  "tq_ext (release_idle a s) = tq_ext s" "expiry (release_idle a s) = expiry s" "pending (release_idle a s) = pending s"
  "tq_cancelled (release_idle a s) = tq_cancelled s" "tp_slabs (release_idle a s) = tp_slabs s" "tq_max_id (release_idle a s) = tq_max_id s"
  by (auto simp: release_idle_def pool_dealloc_def Let_def expiry_def pending_def tq_upd_def fun_eq_iff)

lemma dead_cong: "tq_heap s = tq_heap s' \<Longrightarrow> (\<And>a. a \<in> set (tq_heap s) \<Longrightarrow> pending s a = pending s' a) \<Longrightarrow> dead s = dead s'"
  by (simp add: dead_def cong: filter_cong)

lemma core_cancelled [simp]: "tq_core L (s\<lparr>tq_cancelled := c\<rparr>) = tq_core L s"
  by (simp add: tq_core_def handles_def)

text \<open>\<open>drop_front\<close> removes one cancelled timer from the heap.\<close>

lemma drop_front_core:
  assumes core: "tq_core L s" and ne: "tq_heap s \<noteq> []" and np: "\<not> pending s (hd (tq_heap s))"
  shows "tq_core L (drop_front s)" "dead s = Suc (dead (drop_front s))"
    "tq_cancelled (drop_front s) = tq_cancelled s - 1" "pending (drop_front s) = pending s"
    "set (tq_heap (drop_front s)) = set (tq_heap s) - {hd (tq_heap s)}" "tq_ext (drop_front s) = tq_ext s"
    "expiry (drop_front s) = expiry s"
proof -
  define a where "a = hd (tq_heap s)"
  define s1 where "s1 = add_ref a s"
  define s2 where "s2 = s1\<lparr>tq_heap := butlast (pop_heap (expiry s1) (tq_heap s1))\<rparr>"
  have d: "drop_front s = (release_idle a (release_idle a s2))\<lparr>tq_cancelled := tq_cancelled s - 1\<rparr>"
    by (simp add: drop_front_def tq_pop_def Let_def s1_def s2_def a_def add_ref_def)
  have s1: "tq_heap s1 = tq_heap s" "pending s1 = pending s" "expiry s1 = expiry s" "tq_ext s1 = tq_ext s" "tq_cancelled s1 = tq_cancelled s"
    by (simp_all add: s1_def add_ref_def pending_def expiry_def tq_upd_def fun_eq_iff)
  note D = tq_core_D [OF core]
  have "0 < handles L s a" using ne by (simp add: handles_def a_def)
  then have "tq_core (L(a := L a + 1)) s1" unfolding s1_def by (intro core_add_ref core)
  from core_unheap [OF this] ne have c2: "tq_core (L(a := L a + 2)) s2" by (simp add: s1 s2_def a_def)
  have p2: "pending s2 = pending s" by (simp add: s2_def s1)
  from core_release_idle [OF c2, of a] np have "tq_core (L(a := L a + 1)) (release_idle a s2)"
    by (simp add: p2 a_def)
  from core_release_idle [OF this, of a] np have "tq_core L (release_idle a (release_idle a s2))"
    by (simp add: p2 a_def)
  then show "tq_core L (drop_front s)" by (simp add: d)
  show "pending (drop_front s) = pending s" "tq_cancelled (drop_front s) = tq_cancelled s - 1" "tq_ext (drop_front s) = tq_ext s"
    "expiry (drop_front s) = expiry s"
    by (simp_all add: d p2) (simp_all add: s2_def s1)
  have h: "tq_heap (drop_front s) = butlast (pop_heap (expiry s) (tq_heap s))" by (simp add: d s2_def s1)
  show "set (tq_heap (drop_front s)) = set (tq_heap s) - {hd (tq_heap s)}"
    unfolding h by (rule std.pop_butlast_set(1) [OF ne D(2)])
  have "pending (drop_front s) = pending s" by (simp add: d p2)
  then show "dead s = Suc (dead (drop_front s))"
    using std.pop_butlast_filter [OF ne, of "\<lambda>a. \<not> pending s a" "expiry s"] np by (simp add: dead_def h)
qed

lemma drop_front_inv [inv_intros]:
  "tq_inv L s \<Longrightarrow> tq_heap s \<noteq> [] \<Longrightarrow> \<not> pending s (hd (tq_heap s)) \<Longrightarrow> tq_inv L (drop_front s)"
  using drop_front_core [of L s] by (simp add: tq_inv_def)

text \<open>The collector.\<close>

lemma fold_release_idle:
  assumes "tq_core (\<lambda>a. L a + (if a \<in> set xs then 1 else 0)) s" and "distinct xs" and "\<forall>a \<in> set xs. \<not> pending s a"
  shows "tq_core L (fold release_idle xs s) \<and> tq_heap (fold release_idle xs s) = tq_heap s \<and>
    pending (fold release_idle xs s) = pending s \<and> tq_ext (fold release_idle xs s) = tq_ext s \<and>
    expiry (fold release_idle xs s) = expiry s"
  using assms
proof (induction xs arbitrary: s)
  case (Cons x xs)
  have "(\<lambda>a. L a + (if a \<in> set (x # xs) then 1 else 0))(x := L x + (if x \<in> set (x # xs) then 1 else 0) - 1) =
      (\<lambda>a. L a + (if a \<in> set xs then 1 else 0))"
    using Cons.prems(2) by (auto simp: fun_eq_iff)
  with core_release_idle [OF Cons.prems(1), of x] Cons.prems have "tq_core (\<lambda>a. L a + (if a \<in> set xs then 1 else 0)) (release_idle x s)"
    by simp
  from Cons.IH [OF this] Cons.prems show ?case by simp
qed simp

lemma core_unheap_dead:
  assumes "tq_core L s"
  shows "tq_core (\<lambda>a. L a + (if a \<in> set (filter (\<lambda>a. \<not> pending s a) (tq_heap s)) then 1 else 0))
     (s\<lparr>tq_heap := make_heap (expiry s) (filter (pending s) (tq_heap s))\<rparr>)"
proof -
  note D = tq_core_D [OF assms]
  let ?s = "s\<lparr>tq_heap := make_heap (expiry s) (filter (pending s) (tq_heap s))\<rparr>"
  have h: "handles (\<lambda>a. L a + (if a \<in> set (filter (\<lambda>a. \<not> pending s a) (tq_heap s)) then 1 else 0)) ?s b = handles L s b" for b
    by (auto simp: handles_def std.make_set)
  show ?thesis
    unfolding tq_core_def h using D by (auto simp: std.make_set std.make_distinct std.make_is_heap)
qed

lemma release_idle_set_heap: "release_idle a (s\<lparr>tq_heap := h\<rparr>) = (release_idle a s)\<lparr>tq_heap := h\<rparr>"
  by (cases s) (simp add: release_idle_def pool_dealloc_def Let_def tq_upd_def)

lemma fold_release_idle_heap:
  "fold release_idle xs (s\<lparr>tq_heap := h\<rparr>) = (fold release_idle xs s)\<lparr>tq_heap := h\<rparr>"
  by (induction xs arbitrary: s) (simp_all add: release_idle_set_heap)

lemma tq_gc_cases:
  assumes core: "tq_core L s"
  shows "tq_gc s = s \<or> (tq_core L (tq_gc s) \<and> tq_cancelled (tq_gc s) = 0 \<and> dead (tq_gc s) = 0 \<and>
     set (tq_heap (tq_gc s)) = {a \<in> set (tq_heap s). pending s a} \<and> pending (tq_gc s) = pending s \<and>
     tq_ext (tq_gc s) = tq_ext s \<and> expiry (tq_gc s) = expiry s)"
proof (cases "tq_cancelled s > int (length (tq_heap s) div 2)")
  case True
  let ?d = "filter (\<lambda>a. \<not> pending s a) (tq_heap s)" and ?h = "make_heap (expiry s) (filter (pending s) (tq_heap s))"
  let ?s1 = "fold release_idle ?d (s\<lparr>tq_heap := ?h\<rparr>)"
  have "distinct ?d" using tq_core_D(2) [OF core] by simp
  note F = fold_release_idle [OF core_unheap_dead [OF core] this]
  then have F: "tq_core L ?s1" "tq_heap ?s1 = ?h" "pending ?s1 = pending s" "tq_ext ?s1 = tq_ext s" "expiry ?s1 = expiry s"
    by simp_all
  have "expiry (fold release_idle ?d s) = expiry s"
    using F(5) unfolding fold_release_idle_heap by simp
  then have g: "tq_gc s = ?s1\<lparr>tq_cancelled := 0\<rparr>"
    using True by (simp add: tq_gc_def Let_def fold_release_idle_heap)
  have "\<forall>a \<in> set ?h. pending s a" by (simp add: std.make_set)
  then have "filter (\<lambda>a. \<not> pending s a) ?h = []" by (simp add: filter_empty_conv)
  with F g show ?thesis by (simp add: dead_def std.make_set)
next
  case False
  then show ?thesis by (simp add: tq_gc_def)
qed

lemma tq_gc_inv [inv_intros]: "tq_inv L s \<Longrightarrow> tq_inv L (tq_gc s)"
  using tq_gc_cases [of L s] by (auto simp: tq_inv_def)


lemma cancel_loop_inv:
  "tq_inv L s \<Longrightarrow> tq_inv L (cancel_loop s) \<and> pending (cancel_loop s) = pending s \<and> tq_ext (cancel_loop s) = tq_ext s \<and>
     (tq_heap (cancel_loop s) = [] \<or> pending s (hd (tq_heap (cancel_loop s)))) \<and>
     expiry (cancel_loop s) = expiry s \<and>
     set (tq_heap (cancel_loop s)) \<subseteq> set (tq_heap s) \<and> {a \<in> set (tq_heap s). pending s a} \<subseteq> set (tq_heap (cancel_loop s))"
proof (induction s rule: cancel_loop.induct)
  case (1 s)
  show ?case
  proof (cases "tq_heap s \<noteq> [] \<and> \<not> pending s (hd (tq_heap s))")
    case True
    then have "tq_inv L (drop_front s)" using 1(2) by (blast intro: drop_front_inv)
    from 1(1) [OF True this] drop_front_core [of L s] True 1(2) show ?thesis
      by (subst (1 2 3 4 5 6 7 8) cancel_loop.simps) (auto simp: tq_inv_def)
  next
    case False
    then show ?thesis using 1(2) by (subst (1 2 3 4 5 6 7 8) cancel_loop.simps) auto
  qed
qed

text \<open>What cancelling leaves: the invariant, a pending timer at the front, and the other timers as they were.\<close>

definition front_ok :: "timer_queue \<Rightarrow> bool" where
  "front_ok s \<longleftrightarrow> tq_heap s = [] \<or> pending s (hd (tq_heap s))"

lemma tq_gc_front: "tq_core L s \<Longrightarrow> front_ok s \<Longrightarrow> front_ok (tq_gc s)"
  using tq_gc_cases [of L s] by (force simp: front_ok_def dest: hd_in_set)

lemma tq_cancel_inv:
  assumes "tq_inv L (s\<lparr>tq_cancelled := tq_cancelled s + 1\<rparr>)"
  shows "tq_inv L (tq_cancel s) \<and> front_ok (tq_cancel s) \<and> pending (tq_cancel s) = pending s \<and> tq_ext (tq_cancel s) = tq_ext s \<and>
     expiry (tq_cancel s) = expiry s \<and>
     set (tq_heap (tq_cancel s)) \<subseteq> set (tq_heap s) \<and> {a \<in> set (tq_heap s). pending s a} \<subseteq> set (tq_heap (tq_cancel s))"
proof -
  let ?s = "s\<lparr>tq_cancelled := tq_cancelled s + 1\<rparr>"
  note C = cancel_loop_inv [OF assms]
  then have core: "tq_core L (cancel_loop ?s)" by (simp add: tq_inv_def)
  from C have "front_ok (cancel_loop ?s)" by (auto simp: front_ok_def)
  with tq_gc_front [OF core] have "front_ok (tq_cancel s)" by (simp add: tq_cancel_def)
  moreover have "tq_inv L (tq_cancel s)" using C unfolding tq_cancel_def by (blast intro: tq_gc_inv)
  moreover from tq_gc_cases [OF core] C have "pending (tq_cancel s) = pending s \<and> tq_ext (tq_cancel s) = tq_ext s \<and>
     expiry (tq_cancel s) = expiry s \<and>
     set (tq_heap (tq_cancel s)) \<subseteq> set (tq_heap s) \<and> {a \<in> set (tq_heap s). pending s a} \<subseteq> set (tq_heap (tq_cancel s))"
    unfolding tq_cancel_def by (auto simp: tq_inv_def)
  ultimately show ?thesis by blast
qed

text \<open>Resetting the slot of a live timer and counting it as cancelled.\<close>

lemma slot_reset_fields [simp]:
  "tq_heap (slot_reset a s) = tq_heap s" "tq_ext (slot_reset a s) = tq_ext s" "tq_cancelled (slot_reset a s) = tq_cancelled s"
  "tp_free (slot_reset a s) = tp_free s" "tp_total (slot_reset a s) = tp_total s"
  "expiry (slot_reset a s) = expiry s" "pending (slot_reset a s) b = (b \<noteq> a \<and> pending s b)"
  by (auto simp: slot_reset_def upd_pending expiry_def pending_def tq_upd_def tp_total_def fun_eq_iff)

lemma slot_reset_core:
  assumes "tq_core L s"
  shows "tq_core L (slot_reset a s)"
proof -
  have h: "handles L (slot_reset a s) = handles L s" by (simp add: slot_reset_def)
  have r: "ti_ref (tq_store (slot_reset a s) b) = ti_ref (tq_store s b)" for b by (simp add: slot_reset_def upd_store)
  show ?thesis
    unfolding tq_core_def h r using tq_core_D [OF assms] by auto
qed

lemma dead_card: "distinct (tq_heap s) \<Longrightarrow> dead s = card {a \<in> set (tq_heap s). \<not> pending s a}"
  using distinct_card [of "filter (\<lambda>a. \<not> pending s a) (tq_heap s)"] by (simp add: dead_def)

lemma slot_reset_dead: "distinct (tq_heap s) \<Longrightarrow> dead (slot_reset a s) \<le> dead s + 1"
proof -
  assume d: "distinct (tq_heap s)"
  have "{b \<in> set (tq_heap s). \<not> pending (slot_reset a s) b} \<subseteq> insert a {b \<in> set (tq_heap s). \<not> pending s b}" by auto
  from card_mono [OF _ this] have "card {b \<in> set (tq_heap s). \<not> pending (slot_reset a s) b} \<le>
    card (insert a {b \<in> set (tq_heap s). \<not> pending s b})" by simp
  also have "\<dots> \<le> card {b \<in> set (tq_heap s). \<not> pending s b} + 1" by (simp add: card_insert_if)
  finally show ?thesis using d dead_card [of "slot_reset a s"] dead_card [of s] by simp
qed

lemma slot_reset_cancel:
  assumes core: "tq_core L (slot_reset a s)" and dead: "int (dead s) \<le> tq_cancelled s"
  shows "tq_inv L (tq_cancel (slot_reset a s)) \<and> front_ok (tq_cancel (slot_reset a s)) \<and>
     (\<forall>b. pending (tq_cancel (slot_reset a s)) b = (b \<noteq> a \<and> pending s b)) \<and>
     tq_ext (tq_cancel (slot_reset a s)) = tq_ext s \<and> expiry (tq_cancel (slot_reset a s)) = expiry s \<and>
     set (tq_heap (tq_cancel (slot_reset a s))) \<subseteq> set (tq_heap s)"
proof -
  have "distinct (tq_heap s)" using tq_core_D(2) [OF core] by simp
  from slot_reset_dead [OF this, of a] dead have "int (dead (slot_reset a s)) \<le> tq_cancelled s + 1" by simp
  moreover have "dead ((slot_reset a s)\<lparr>tq_cancelled := tq_cancelled s + 1\<rparr>) = dead (slot_reset a s)" by (simp add: dead_def)
  ultimately have "tq_inv L ((slot_reset a s)\<lparr>tq_cancelled := tq_cancelled (slot_reset a s) + 1\<rparr>)"
    using core by (simp add: tq_inv_def)
  from tq_cancel_inv [OF this] show ?thesis by simp
qed

lemma timer_cancel_inv [inv_intros]:
  "tq_inv L s \<Longrightarrow> tq_inv L (timer_cancel a s) \<and> set (tq_heap (timer_cancel a s)) \<subseteq> set (tq_heap s) \<and>
     expiry (timer_cancel a s) = expiry s \<and> (front_ok s \<longrightarrow> front_ok (timer_cancel a s))"
  using slot_reset_cancel [of L a s] slot_reset_core [of L s a] by (simp add: timer_cancel_def tq_inv_def)

subsection \<open>Dropping a handle\<close>

lemma release_inv:
  assumes inv: "tq_inv L s" and La: "0 < L a" and pe: "pending s a \<Longrightarrow> a \<in> set (tq_heap s) \<or> 1 < L a"
  shows "tq_inv (L(a := L a - 1)) (release a s) \<and> set (tq_heap (release a s)) \<subseteq> set (tq_heap s) \<and>
     expiry (release a s) = expiry s \<and> (front_ok s \<longrightarrow> front_ok (release a s))"
proof -
  let ?L = "L(a := L a - 1)" and ?s1 = "tq_upd a (\<lambda>t. t\<lparr>ti_ref := ti_ref t - 1\<rparr>) s"
  have core: "tq_core L s" and dead: "int (dead s) \<le> tq_cancelled s" using inv by (auto simp: tq_inv_def)
  note D = tq_core_D [OF core]
  have pos: "0 < handles L s a" using La by (simp add: handles_def)
  have ref: "ti_ref (tq_store ?s1 a) = int (handles L s a) - 1" using D(6) [OF pos] by (simp add: upd_store)
  have s1: "pending ?s1 = pending s" "expiry ?s1 = expiry s" by (auto simp: pending_def expiry_def tq_upd_def fun_eq_iff)
  show ?thesis
  proof (cases "handles L s a = 2 \<and> pending s a")
    case True
    then have r: "release a s = tq_cancel (slot_reset a ?s1)" using ref by (simp add: release_def Let_def s1)
    have h: "handles ?L (slot_reset a ?s1) b = (if b = a then 1 else handles L s b)" for b
      using True La by (auto simp: handles_def)
    have live: "a < tp_total s" "a \<notin> set (tp_free s)" using D(5) [of a] pos by auto
    have rf: "ti_ref (tq_store (slot_reset a ?s1) b) = (if b = a then 1 else ti_ref (tq_store s b))" for b
      using ref True by (auto simp: slot_reset_def upd_store)
    have "tq_core ?L (slot_reset a ?s1)"
      unfolding tq_core_def h rf using D(1-4) D(5) D(6) D(7) live by (auto simp: s1)
    moreover have "dead ?s1 = dead s" by (rule dead_cong) (simp_all add: s1)
    ultimately show ?thesis using slot_reset_cancel [of ?L a ?s1] dead unfolding r by (simp add: s1)
  next
    case False
    then have r: "release a s = release_idle a s" using ref pos by (auto simp: release_def release_idle_def Let_def s1)
    have "3 \<le> handles L s a \<and> (a \<in> set (tq_heap s) \<or> 1 < L a)" if p: "pending s a"
      using D(7) [OF pos p] pe [OF p] p False by auto
    from core_release_idle [OF core La this] have "tq_core ?L (release_idle a s)" .
    moreover have "dead (release_idle a s) = dead s" by (rule dead_cong) simp_all
    ultimately show ?thesis using dead unfolding r by (simp add: tq_inv_def front_ok_def)
  qed
qed


subsection \<open>Inserting\<close>

lemma SlabSize_pos: "0 < SlabSize"
  by (simp add: SlabSize_def)

text \<open>The pool hands out an object that nobody holds, and keeps the rest on the free list.\<close>

lemma pool_alloc_fresh:
  assumes core: "tq_core L s" and al: "pool_alloc s = (a, s1)"
  shows "handles L s a = 0" "a \<notin> set (tq_heap s)" "a \<notin> set (tp_free s1)" "a < tp_total s1" "distinct (tp_free s1)"
    "set (tp_free s1) \<subseteq> {..< tp_total s1}"
    "b \<noteq> a \<Longrightarrow> (b < tp_total s1 \<and> b \<notin> set (tp_free s1)) = (b < tp_total s \<and> b \<notin> set (tp_free s))"
    "tq_heap s1 = tq_heap s" "tq_store s1 = tq_store s" "tq_ext s1 = tq_ext s" "tq_cancelled s1 = tq_cancelled s"
proof -
  note D = tq_core_D [OF core]
  have "handles L s a = 0 \<and> a \<notin> set (tp_free s1) \<and> a < tp_total s1 \<and> distinct (tp_free s1) \<and> set (tp_free s1) \<subseteq> {..< tp_total s1} \<and>
     (b \<noteq> a \<longrightarrow> (b < tp_total s1 \<and> b \<notin> set (tp_free s1)) = (b < tp_total s \<and> b \<notin> set (tp_free s)))"
  proof (cases "tp_free s")
    case (Cons x fs)
    with al have s1: "a = x" "s1 = s\<lparr>tp_free := fs\<rparr>" by (simp_all add: pool_alloc_def)
    with D(3,4) Cons D(5) [of a] show ?thesis by auto
  next
    case Nil
    let ?b = "tp_slabs s * SlabSize"
    from Nil al have s1: "a = ?b" "s1 = s\<lparr>tp_slabs := tp_slabs s + 1, tp_free := rev [?b + 1 ..< ?b + SlabSize]\<rparr>"
      by (auto simp: pool_alloc_def Let_def)
    have t: "tp_total s = ?b" "tp_total s1 = ?b + SlabSize" by (simp_all add: s1 tp_total_def)
    with D(5) [of a] Nil s1 SlabSize_pos show ?thesis by auto
  qed
  then show "handles L s a = 0" "a \<notin> set (tp_free s1)" "a < tp_total s1" "distinct (tp_free s1)"
    "set (tp_free s1) \<subseteq> {..< tp_total s1}"
    "b \<noteq> a \<Longrightarrow> (b < tp_total s1 \<and> b \<notin> set (tp_free s1)) = (b < tp_total s \<and> b \<notin> set (tp_free s))" by auto
  then show "a \<notin> set (tq_heap s)" by (auto simp: handles_def split: if_splits)
  show "tq_heap s1 = tq_heap s" "tq_store s1 = tq_store s" "tq_ext s1 = tq_ext s" "tq_cancelled s1 = tq_cancelled s"
    using al by (auto simp: pool_alloc_def Let_def split: list.splits)
qed

lemma heap_push_new:
  assumes "is_heap (expiry s) (tq_heap s)" and "\<And>b. b \<in> set (tq_heap s) \<Longrightarrow> expiry s' b = expiry s b"
  shows "is_heap (expiry s') (push_heap (expiry s') (tq_heap s @ [a]))"
  using assms is_heap_cong [of "tq_heap s" "expiry s'" "expiry s"] by (intro std.push_is_heap) simp

lemma tq_insert_inv:
  assumes inv: "tq_inv L s" and ins: "tq_insert ex iv slot s = (a, s')"
  shows "tq_inv L s'" "handles L s a = 0" "set (tq_heap s') = insert a (set (tq_heap s))"
    "pending s' b = (b = a \<or> pending s b)" "expiry s' b = (if b = a then ex else expiry s b)" "tq_ext s' = (tq_ext s)(a := tq_ext s a + 1)"
proof -
  have core: "tq_core L s" and dead: "int (dead s) \<le> tq_cancelled s" using inv by (auto simp: tq_inv_def)
  note D = tq_core_D [OF core]
  obtain s1 where al: "pool_alloc s = (a, s1)"
    using ins by (auto simp: tq_insert_def tq_alloc_def split: prod.splits)
  note F = pool_alloc_fresh [OF core al]
  let ?t = "\<lparr>ti_ref = 2, ti_id = tq_max_id s1 + 1, ti_expiry = ex, ti_interval = iv, ti_slot = Some slot\<rparr>"
  have st: "tq_store s' = (tq_store s)(a := ?t)" and hp: "tq_heap s' = push_heap (expiry s') (tq_heap s @ [a])"
    and ext: "tq_ext s' = (tq_ext s)(a := tq_ext s a + 1)"
    and rest: "tp_free s' = tp_free s1" "tp_total s' = tp_total s1" "tq_cancelled s' = tq_cancelled s"
    using ins by (auto simp: tq_insert_def tq_alloc_def al heap_push_def add_ref_def tq_upd_def F fun_eq_iff expiry_def tp_total_def)
  show p: "pending s' b = (b = a \<or> pending s b)" for b by (simp add: pending_def st)
  show e: "expiry s' b = (if b = a then ex else expiry s b)" for b by (simp add: expiry_def st)
  show "handles L s a = 0" by (rule F(1))
  show hs: "set (tq_heap s') = insert a (set (tq_heap s))" by (simp add: hp std.push_set)
  show "tq_ext s' = (tq_ext s)(a := tq_ext s a + 1)" by (rule ext)
  have h0: "tq_ext s a = 0" "L a = 0" using F(1) by (auto simp: handles_def)
  have h: "handles L s' b = (if b = a then 2 else handles L s b)" for b
    using h0 F(2) by (auto simp: handles_def ext hs)
  have heap': "is_heap (expiry s') (tq_heap s')"
    unfolding hp using D(1) F(2) by (intro heap_push_new) (auto simp: e)
  have "tq_core L s'"
    unfolding tq_core_def h p rest using D(5-7) F heap' D(2) F(7)
    by (auto simp: hs st hp std.push_distinct std.push_set)
  moreover have "dead s' = dead s"
    using std.push_filter [of "\<lambda>b. \<not> pending s' b" "expiry s'" "tq_heap s @ [a]"] F(2)
    by (auto simp: dead_def hp p intro!: arg_cong [where f = length] filter_cong)
  ultimately show "tq_inv L s'" using dead by (simp add: tq_inv_def rest)
qed


lemma sift_up_front: "i < length xs \<Longrightarrow> hd (sift_up key xs i) \<in> {hd xs, xs ! i}"
proof (induction key xs i rule: sift_up.induct)
  case (1 key xs i)
  let ?p = "(i - 1) div 2"
  show ?case
  proof (cases "0 < i \<and> key (xs ! i) < key (xs ! ?p)")
    case True
    then have lt: "?p < length xs" "?p < i" using 1(2) by auto
    with True 1(1) [OF refl True] have "hd (sift_up key (swap_at i ?p xs) ?p) \<in> {hd (swap_at i ?p xs), swap_at i ?p xs ! ?p}"
      by simp
    moreover have "swap_at i ?p xs ! ?p = xs ! i" using lt 1(2) by (simp add: swap_at_nth)
    moreover have "hd (swap_at i ?p xs) \<in> {hd xs, xs ! i}"
    proof -
      have "xs \<noteq> []" "swap_at i ?p xs \<noteq> []" using 1(2) by (auto simp: swap_at_def)
      then show ?thesis using swap_at_nth [of i xs ?p 0] lt 1(2) True by (auto simp: hd_conv_nth)
    qed
    ultimately show ?thesis using True by (subst sift_up.simps) (auto simp: Let_def)
  next
    case False
    then show ?thesis by (subst sift_up.simps) (auto simp: Let_def)
  qed
qed

lemma push_heap_front: "hd (push_heap key (xs @ [x])) \<in> {hd (xs @ [x]), x}"
  using sift_up_front [of "length xs" "xs @ [x]" key] by (simp add: push_heap_def)

lemma tq_insert_front:
  assumes "tq_inv L s" and "tq_insert ex iv slot s = (a, s')" and "front_ok s"
  shows "front_ok s'"
proof -
  note I = tq_insert_inv [OF assms(1,2)]
  have "tq_heap s' = push_heap (expiry s') (tq_heap s @ [a])"
    using assms(2) by (auto simp: tq_insert_def heap_push_def add_ref_def expiry_def tq_alloc_def tq_upd_def pool_alloc_def fun_eq_iff Let_def
      split: prod.splits list.splits)
  then have "hd (tq_heap s') \<in> {hd (tq_heap s @ [a]), a}" using push_heap_front by metis
  with assms(3) I(4) show ?thesis by (cases "tq_heap s") (auto simp: front_ok_def)
qed

subsection \<open>The program's actions and the callback\<close>

text \<open>A handle of the program on its way to being destroyed is a local handle.\<close>

lemma drop_handle_local:
  assumes inv: "tq_inv L s" and ext: "0 < tq_ext s a"
  shows "tq_inv (L(a := L a + 1)) (s\<lparr>tq_ext := (tq_ext s)(a := tq_ext s a - 1)\<rparr>)"
    "pending s a \<Longrightarrow> a \<in> set (tq_heap s) \<or> 0 < L a"
proof -
  let ?s = "s\<lparr>tq_ext := (tq_ext s)(a := tq_ext s a - 1)\<rparr>" and ?L = "L(a := L a + 1)"
  have core: "tq_core L s" using inv by (simp add: tq_inv_def)
  have h: "handles ?L ?s b = handles L s b" for b using ext by (simp add: handles_def)
  have "tq_core ?L ?s" unfolding tq_core_def h using tq_core_D [OF core] by auto
  moreover have "dead ?s = dead s" by (rule dead_cong) simp_all
  ultimately show "tq_inv ?L ?s" using inv by (simp add: tq_inv_def)
  show "a \<in> set (tq_heap s) \<or> 0 < L a" if "pending s a"
    using tq_core_D(7) [OF core _ that] ext by (simp add: handles_def)
qed

lemma timer_act1_inv:
  assumes inv: "tq_inv L s"
  shows "tq_inv L (timer_act1 act s) \<and> (\<forall>a. 0 < L a \<and> a \<notin> set (tq_heap s) \<longrightarrow> a \<notin> set (tq_heap (timer_act1 act s)))"
proof (cases act)
  case (TInsert ex iv slot)
  obtain a s' where ins: "tq_insert ex iv slot s = (a, s')" by fastforce
  from tq_insert_inv [OF inv ins] TInsert ins show ?thesis by (auto simp: handles_def)
next
  case (TCancel a)
  with inv timer_cancel_inv [OF inv, of a] show ?thesis by auto
next
  case (TCopy a)
  show ?thesis
  proof (cases "0 < tq_ext s a")
    case True
    let ?s = "(add_ref a s)\<lparr>tq_ext := (tq_ext s)(a := tq_ext s a + 1)\<rparr>"
    have core: "tq_core L s" using inv by (simp add: tq_inv_def)
    note D = tq_core_D [OF core]
    have h: "handles L ?s b = handles L s b + (if b = a then 1 else 0)" for b by (simp add: handles_def add_ref_def)
    have p: "pending ?s = pending s" by (auto simp: add_ref_def pending_def tq_upd_def fun_eq_iff)
    have e: "expiry ?s = expiry s" by (auto simp: add_ref_def expiry_def tq_upd_def fun_eq_iff)
    have rf: "ti_ref (tq_store ?s b) = ti_ref (tq_store s b) + (if b = a then 1 else 0)" for b by (simp add: add_ref_def upd_store)
    obtain n where "handles L s a = Suc n" using True by (metis handles_def add_gr_0 gr0_implies_Suc)
    then have "tq_core L ?s"
      unfolding tq_core_def h p e rf using D(1-4) D(5) [of a] D(5) D(6) D(7) by (auto simp: add_ref_def)
    moreover have "dead ?s = dead s" by (rule dead_cong) (simp_all only: p, simp_all add: add_ref_def)
    ultimately show ?thesis using inv TCopy True by (simp add: tq_inv_def add_ref_def)
  qed (use inv TCopy in simp)
next
  case (TDrop a)
  show ?thesis
  proof (cases "0 < tq_ext s a")
    case True
    note T = drop_handle_local [OF inv True]
    from release_inv [OF T(1), of a] T(2) TDrop True show ?thesis by auto
  qed (use inv TDrop in simp)
qed

lemma timer_acts_inv:
  assumes "tq_inv L s"
  shows "tq_inv L (fold timer_act1 acts s) \<and> (\<forall>a. 0 < L a \<and> a \<notin> set (tq_heap s) \<longrightarrow> a \<notin> set (tq_heap (fold timer_act1 acts s)))"
  using assms
proof (induction acts arbitrary: s)
  case (Cons act acts)
  from timer_act1_inv [OF Cons.prems, of act] Cons.IH [of "timer_act1 act s"] show ?case by auto
qed simp

subsection \<open>Firing\<close>

lemma expire_rearm_inv:
  assumes inv: "tq_inv L s" and La: "0 < L a" and nh: "a \<notin> set (tq_heap s)"
  shows "tq_inv L (expire_rearm now a s) \<and> (pending (expire_rearm now a s) a \<longrightarrow> a \<in> set (tq_heap (expire_rearm now a s)))"
proof (cases "pending s a \<and> ti_interval (tq_store s a) > 0")
  case True
  define s1 where "s1 = add_ref a (tq_upd a (\<lambda>t. t\<lparr>ti_expiry := max (ti_expiry t + ti_interval t) (now + 1)\<rparr>) s)"
  define s' where "s' = s1\<lparr>tq_heap := push_heap (expiry s1) (tq_heap s @ [a])\<rparr>"
  have r: "expire_rearm now a s = s'"
    using True by (simp add: expire_rearm_def heap_push_def add_ref_def s1_def s'_def)
  have core: "tq_core L s" and dead: "int (dead s) \<le> tq_cancelled s" using inv by (auto simp: tq_inv_def)
  note D = tq_core_D [OF core]
  have p: "pending s' b = pending s b" for b by (simp add: s'_def s1_def add_ref_def pending_def tq_upd_def)
  have e: "expiry s1 b = expiry s b" if "b \<noteq> a" for b using that by (simp add: s1_def add_ref_def expiry_def tq_upd_def)
  have f: "tp_free s' = tp_free s" "tp_total s' = tp_total s" "tq_ext s' = tq_ext s" "tq_cancelled s' = tq_cancelled s" "expiry s' = expiry s1"
    by (simp_all add: s'_def) (simp_all add: s1_def add_ref_def)
  have hp: "tq_heap s' = push_heap (expiry s1) (tq_heap s @ [a])" by (simp add: s'_def)
  then have hs: "set (tq_heap s') = insert a (set (tq_heap s))" "distinct (tq_heap s')" using nh D(2) by (simp_all add: std.push_set std.push_distinct)
  have h: "handles L s' b = handles L s b + (if b = a then 1 else 0)" for b
    using nh hs by (auto simp: handles_def f)
  have heap': "is_heap (expiry s') (tq_heap s')"
    unfolding hp f
  proof (rule heap_push_new [OF D(1)])
    fix b assume "b \<in> set (tq_heap s)"
    with nh have "b \<noteq> a" by blast
    then show "expiry s1 b = expiry s b" by (rule e)
  qed
  have rf: "ti_ref (tq_store s' b) = ti_ref (tq_store s b) + (if b = a then 1 else 0)" for b
    by (simp add: s'_def s1_def add_ref_def upd_store)
  obtain n where n: "handles L s a = Suc n" using La by (metis handles_def add_gr_0 gr0_implies_Suc)
  have "tq_core L s'"
    unfolding tq_core_def h rf f(1,2) p hs(1) using heap' hs(2) D(3,4) D(5) [of a] D(5) D(6) D(7) n by auto
  moreover have "dead s' = dead s"
    using std.push_filter [of "\<lambda>b. \<not> pending s b" "expiry s1" "tq_heap s @ [a]"] True by (simp add: dead_def p hp)
  ultimately show ?thesis using dead hs unfolding r by (simp add: tq_inv_def f)
next
  case False
  show ?thesis
  proof (cases "pending s a")
    case True
    with False have r: "expire_rearm now a s = slot_reset a s" by (simp add: expire_rearm_def)
    have "filter (\<lambda>b. \<not> pending (slot_reset a s) b) (tq_heap s) = filter (\<lambda>b. \<not> pending s b) (tq_heap s)"
      using nh by (intro filter_cong) auto
    then have "dead (slot_reset a s) = dead s" by (simp add: dead_def)
    with inv slot_reset_core [of L s a] show ?thesis unfolding r by (simp add: tq_inv_def)
  next
    case np: False
    then show ?thesis using inv by (simp add: expire_rearm_def)
  qed
qed


lemma tq_pop_expire:
  assumes inv: "tq_inv L s" and ne: "tq_heap s \<noteq> []" and pop: "tq_pop release s = (a, s1)"
  shows "a = hd (tq_heap s)" "tq_inv (L(a := L a + 1)) s1" "a \<notin> set (tq_heap s1)" "set (tq_heap s1) \<subseteq> set (tq_heap s)"
    "expiry s1 = expiry s"
proof -
  show a: "a = hd (tq_heap s)" using pop by (simp add: tq_pop_def Let_def)
  define s0 where "s0 = add_ref a s"
  define s2 where "s2 = s0\<lparr>tq_heap := butlast (pop_heap (expiry s0) (tq_heap s0))\<rparr>"
  have s1: "s1 = release a s2" using pop by (auto simp: tq_pop_def Let_def s0_def s2_def)
  have core: "tq_core L s" using inv by (simp add: tq_inv_def)
  have s0: "tq_heap s0 = tq_heap s" "pending s0 = pending s" "expiry s0 = expiry s" "tq_cancelled s0 = tq_cancelled s"
    by (simp_all add: s0_def add_ref_def pending_def expiry_def tq_upd_def fun_eq_iff)
  have "0 < handles L s a" using ne a by (simp add: handles_def)
  then have "tq_core (L(a := L a + 1)) s0" unfolding s0_def by (intro core_add_ref core)
  from core_unheap [OF this] ne have c2: "tq_core (L(a := L a + 2)) s2" by (simp add: s0 s2_def a)
  have h2: "tq_heap s2 = butlast (pop_heap (expiry s) (tq_heap s))" by (simp add: s2_def s0)
  note P = std.pop_butlast_set [OF ne tq_core_D(2) [OF core], of "expiry s"]
  have "dead s2 \<le> dead s"
    using std.pop_butlast_filter [OF ne, of "\<lambda>a. \<not> pending s a" "expiry s"] by (simp add: dead_def h2) (simp add: s2_def s0)
  with c2 inv have "tq_inv (L(a := L a + 2)) s2" by (simp add: tq_inv_def s2_def s0)
  from release_inv [OF this, of a] have R: "tq_inv (L(a := L a + 1)) (release a s2)" "set (tq_heap (release a s2)) \<subseteq> set (tq_heap s2)"
    "expiry (release a s2) = expiry s2" by simp_all
  then show "tq_inv (L(a := L a + 1)) s1" "expiry s1 = expiry s" by (simp_all add: s1 s2_def s0)
  show "a \<notin> set (tq_heap s1)" "set (tq_heap s1) \<subseteq> set (tq_heap s)" using R(2) P(1) a by (auto simp: s1 h2)
qed

lemma tq_expire_inv [inv_intros]:
  assumes inv: "tq_inv L s" and ne: "tq_heap s \<noteq> []"
  shows "tq_inv L (tq_expire cb now s)"
proof -
  obtain a s1 where pop: "tq_pop release s = (a, s1)" by fastforce
  note P = tq_pop_expire [OF inv ne pop]
  let ?s2 = "fold timer_act1 (cb (the (ti_slot (tq_store s1 a))) now a s1) s1"
  from timer_acts_inv [OF P(2)] P(3) have A: "tq_inv (L(a := L a + 1)) ?s2" "a \<notin> set (tq_heap ?s2)" by auto
  from expire_rearm_inv [OF A(1) _ A(2)] have "tq_inv (L(a := L a + 1)) (expire_rearm now a ?s2)"
    "pending (expire_rearm now a ?s2) a \<Longrightarrow> a \<in> set (tq_heap (expire_rearm now a ?s2))" by auto
  from release_inv [OF this(1), of a] this(2) show ?thesis by (simp add: tq_expire_def pop)
qed

lemma dispatch_loop_inv:
  assumes "dispatch_loop cb now work s = Some r" and "tq_inv L s"
  shows "tq_inv L (snd r) \<and> (tq_heap (snd r) = [] \<or>
     (pending (snd r) (hd (tq_heap (snd r))) \<and> now < expiry (snd r) (hd (tq_heap (snd r)))))"
  using assms
proof (induction rule: dispatch_loop.raw_induct [rotated, consumes 1])
  case (1 loop cb now work s r)
  note IH = 1(1) and body = 1(2) and inv = 1(3)
  show ?case
  proof (cases "tq_heap s = []")
    case True
    with body inv show ?thesis by auto
  next
    case ne: False
    show ?thesis
    proof (cases "pending s (hd (tq_heap s))")
      case False
      with ne body have "loop cb now work (drop_front s) = Some r" by simp
      from IH [OF this drop_front_inv [OF inv ne False]] show ?thesis .
    next
      case True
      show ?thesis
      proof (cases "expiry s (hd (tq_heap s)) \<le> now")
        case due: True
        with ne True body have "loop cb now (work + 1) (tq_expire cb now s) = Some r" by simp
        from IH [OF this tq_expire_inv [OF inv ne]] show ?thesis .
      next
        case False
        with ne True body inv show ?thesis by auto
      qed
    qed
  qed
qed

subsection \<open>Dispatch returns\<close>

text \<open>Actions that add no timer already due: the number of due timers in the heap does not grow.\<close>

fun late :: "int \<Rightarrow> timer_act \<Rightarrow> bool" where
  "late now (TInsert ex iv slot) = (now < ex)"
| "late now _ = True"

definition due :: "int \<Rightarrow> timer_queue \<Rightarrow> nat set" where
  "due now s = {a \<in> set (tq_heap s). expiry s a \<le> now}"

lemma finite_due [simp]: "finite (due now s)"
  by (simp add: due_def)

lemma due_act:
  assumes inv: "tq_inv L s" and l: "late now act"
  shows "due now (timer_act1 act s) \<subseteq> due now s"
proof (cases act)
  case (TInsert ex iv slot)
  obtain a s' where ins: "tq_insert ex iv slot s = (a, s')" by fastforce
  from tq_insert_inv [OF inv ins] l TInsert ins show ?thesis by (auto simp: due_def split: if_splits)
next
  case (TCancel a)
  with timer_cancel_inv [OF inv, of a] show ?thesis by (auto simp: due_def)
next
  case (TCopy a)
  have "expiry (add_ref a s) = expiry s" by (auto simp: add_ref_def expiry_def tq_upd_def fun_eq_iff)
  with TCopy show ?thesis by (auto simp: due_def) (auto simp: add_ref_def)
next
  case (TDrop a)
  show ?thesis
  proof (cases "0 < tq_ext s a")
    case True
    let ?s = "s\<lparr>tq_ext := (tq_ext s)(a := tq_ext s a - 1)\<rparr>" and ?L = "L(a := L a + 1)"
    note T = drop_handle_local [OF inv True]
    from release_inv [OF T(1), of a] T(2) TDrop True show ?thesis by (auto simp: due_def)
  qed (use TDrop in simp)
qed

lemma due_acts:
  "tq_inv L s \<Longrightarrow> \<forall>act \<in> set acts. late now act \<Longrightarrow> due now (fold timer_act1 acts s) \<subseteq> due now s"
proof (induction acts arbitrary: s)
  case (Cons act acts)
  from due_act [OF Cons.prems(1), of now act] timer_act1_inv [OF Cons.prems(1), of act] Cons show ?case by fastforce
qed simp

lemma due_rearm: "a \<notin> set (tq_heap s) \<Longrightarrow> due now (expire_rearm now a s) \<subseteq> due now s"
  by (auto simp: due_def expire_rearm_def heap_push_def add_ref_def std.push_set upd_expiry split: if_splits)
    (auto simp: expiry_def tq_upd_def split: if_splits)

lemma due_expire:
  assumes inv: "tq_inv L s" and ne: "tq_heap s \<noteq> []" and d: "expiry s (hd (tq_heap s)) \<le> now"
    and l: "\<And>slot a s'. \<forall>act \<in> set (cb slot now a s'). late now act"
  shows "due now (tq_expire cb now s) \<subset> due now s"
proof -
  obtain a s1 where pop: "tq_pop release s = (a, s1)" by fastforce
  note P = tq_pop_expire [OF inv ne pop]
  let ?s2 = "fold timer_act1 (cb (the (ti_slot (tq_store s1 a))) now a s1) s1"
  from timer_acts_inv [OF P(2)] P(3) have A: "tq_inv (L(a := L a + 1)) ?s2" "a \<notin> set (tq_heap ?s2)" by auto
  from expire_rearm_inv [OF A(1) _ A(2)] have R: "tq_inv (L(a := L a + 1)) (expire_rearm now a ?s2)"
    "pending (expire_rearm now a ?s2) a \<Longrightarrow> a \<in> set (tq_heap (expire_rearm now a ?s2))" by auto
  have "due now (tq_expire cb now s) \<subseteq> due now (expire_rearm now a ?s2)"
    using release_inv [OF R(1), of a] R(2) by (auto simp: tq_expire_def pop due_def)
  also have "\<dots> \<subseteq> due now ?s2" by (rule due_rearm [OF A(2)])
  also have "\<dots> \<subseteq> due now s1" by (rule due_acts [OF P(2)]) (rule l)
  also have "\<dots> \<subset> due now s" using P(1,3,4,5) ne d by (auto simp: due_def)
  finally show ?thesis .
qed

lemma dispatch_loop_returns:
  assumes l: "\<And>slot a s'. \<forall>act \<in> set (cb slot now a s'). late now act" and "tq_inv L s"
  shows "\<exists>r. dispatch_loop cb now work s = Some r"
  using assms(2)
proof (induction s arbitrary: work rule: wf_induct_rule [OF wf_measures [of "[\<lambda>s. card (due now s), \<lambda>s. length (tq_heap s)]"]])
  case (1 s)
  consider (stop) "tq_heap s = [] \<or> (pending s (hd (tq_heap s)) \<and> now < expiry s (hd (tq_heap s)))"
    | (drop) "tq_heap s \<noteq> []" "\<not> pending s (hd (tq_heap s))"
    | (fire) "tq_heap s \<noteq> []" "pending s (hd (tq_heap s))" "expiry s (hd (tq_heap s)) \<le> now" by linarith
  then show ?case
  proof cases
    case stop
    then show ?thesis by (subst dispatch_loop.simps) auto
  next
    case drop
    have core: "tq_core L s" using 1(2) by (simp add: tq_inv_def)
    have "due now (drop_front s) \<subseteq> due now s" using drop_front_core [OF core drop] by (auto simp: due_def)
    then have "card (due now (drop_front s)) \<le> card (due now s)" by (intro card_mono) auto
    then have "card (due now (drop_front s)) < card (due now s) \<or> card (due now (drop_front s)) = card (due now s)" by linarith
    with drop_front_length [OF drop(1)] 1(1) [of "drop_front s" work] drop_front_inv [OF 1(2) drop]
    have "\<exists>r. dispatch_loop cb now work (drop_front s) = Some r" by auto
    with drop show ?thesis by (subst dispatch_loop.simps) auto
  next
    case fire
    from due_expire [where cb = cb, OF 1(2) fire(1,3) l] have "card (due now (tq_expire cb now s)) < card (due now s)"
      by (intro psubset_card_mono) auto
    with 1(1) [of "tq_expire cb now s" "work + 1"] tq_expire_inv [OF 1(2) fire(1)]
    have "\<exists>r. dispatch_loop cb now (work + 1) (tq_expire cb now s) = Some r" by auto
    with fire show ?thesis by (subst dispatch_loop.simps) auto
  qed
qed


subsection \<open>Reachable queues\<close>

inductive tq_reach :: "timer_queue \<Rightarrow> bool" where
  new: "tq_reach tq_new"
| act: "tq_reach s \<Longrightarrow> tq_reach (timer_act1 act s)"
| dispatch: "tq_reach s \<Longrightarrow> tq_dispatch cb now s = Some (work, s') \<Longrightarrow> tq_reach s'"

lemma tq_new_inv: "tq_inv (\<lambda>_. 0) tq_new"
  by (simp add: tq_inv_def tq_core_def tq_new_def handles_def tp_total_def dead_def)

lemma timer_act1_front:
  assumes inv: "tq_inv L s" and f: "front_ok s"
  shows "front_ok (timer_act1 act s)"
proof (cases act)
  case (TInsert ex iv slot)
  obtain a s' where ins: "tq_insert ex iv slot s = (a, s')" by fastforce
  from tq_insert_front [OF inv ins f] TInsert ins show ?thesis by simp
next
  case (TCancel a)
  with timer_cancel_inv [OF inv, of a] f show ?thesis by auto
next
  case (TCopy a)
  with f show ?thesis by (auto simp: front_ok_def add_ref_def upd_pending pending_def tq_upd_def)
next
  case (TDrop a)
  show ?thesis
  proof (cases "0 < tq_ext s a")
    case True
    note T = drop_handle_local [OF inv True]
    have "front_ok (s\<lparr>tq_ext := (tq_ext s)(a := tq_ext s a - 1)\<rparr>)" using f by (simp add: front_ok_def)
    with release_inv [OF T(1), of a] T(2) TDrop True show ?thesis by auto
  qed (use TDrop f in simp)
qed

lemma tq_dispatch_inv:
  assumes inv: "tq_inv L s" and d: "tq_dispatch cb now s = Some (work, s')"
  shows "tq_inv L s' \<and> front_ok s' \<and> (\<forall>a \<in> set (tq_heap s'). now < expiry s' a)"
proof -
  from d obtain s1 where l: "dispatch_loop cb now 0 s = Some (work, s1)" and s': "s' = tq_gc s1"
    by (auto simp: tq_dispatch_def)
  from dispatch_loop_inv [OF l inv] have i: "tq_inv L s1" and f: "front_ok s1"
    and h: "tq_heap s1 = [] \<or> now < expiry s1 (hd (tq_heap s1))" by (auto simp: front_ok_def)
  then have core: "tq_core L s1" by (simp add: tq_inv_def)
  have late: "\<forall>a \<in> set (tq_heap s1). now < expiry s1 a"
    using h is_heap_min [OF tq_core_D(1) [OF core]] by fastforce
  have "\<forall>a \<in> set (tq_heap s'). now < expiry s' a" using tq_gc_cases [OF core] late by (auto simp: s')
  with tq_gc_inv [OF i] tq_gc_front [OF core f] show ?thesis by (simp add: s')
qed

lemma tq_reach_inv: "tq_reach s \<Longrightarrow> tq_inv (\<lambda>_. 0) s \<and> front_ok s"
proof (induction rule: tq_reach.induct)
  case new
  show ?case by (simp add: tq_new_inv) (simp add: front_ok_def tq_new_def)
next
  case (act s act)
  then show ?case using timer_act1_inv timer_act1_front by blast
next
  case (dispatch s cb now work s')
  then show ?case using tq_dispatch_inv by blast
qed

subsection \<open>Properties\<close>

text \<open>
  C2: The timer pool is memory safe, for every program and every callback. In every reachable state the free list has
  no duplicates (no double free); the objects off the free list are exactly those that the program or the
  heap still refers to (no use after free, no leak); and the reference count of each of them is the number of its
  handles.
\<close>

theorem timer_pool_safe:
  assumes "tq_reach s"
  shows "distinct (tp_free s) \<and>
     (\<forall>a. 0 < tq_ext s a \<or> a \<in> set (tq_heap s) \<longleftrightarrow> a < tp_slabs s * SlabSize \<and> a \<notin> set (tp_free s)) \<and>
     (\<forall>a. 0 < tq_ext s a \<or> a \<in> set (tq_heap s) \<longrightarrow>
        ti_ref (tq_store s a) = int (tq_ext s a) + (if a \<in> set (tq_heap s) then 1 else 0))"
proof -
  from tq_reach_inv [OF assms] have core: "tq_core (\<lambda>_. 0) s" by (simp add: tq_inv_def)
  note D = tq_core_D [OF core]
  have h: "0 < handles (\<lambda>_. 0) s a \<longleftrightarrow> 0 < tq_ext s a \<or> a \<in> set (tq_heap s)" for a by (auto simp: handles_def)
  show ?thesis using D(3) D(5) D(6) unfolding h by (auto simp: handles_def tp_total_def)
qed

theorem timer_pool_safe_witness:
  "let s = timer_act1 (TInsert 5 0 1) tq_new in tq_reach s \<and> distinct (tp_free s) \<and>
     (\<forall>a. 0 < tq_ext s a \<or> a \<in> set (tq_heap s) \<longleftrightarrow> a < tp_slabs s * SlabSize \<and> a \<notin> set (tp_free s))"
proof -
  let ?s = "timer_act1 (TInsert 5 0 1) tq_new"
  have r: "tq_reach ?s" by (intro tq_reach.intros)
  from timer_pool_safe [OF r] r show ?thesis unfolding Let_def by blast
qed

text \<open>
  A timer fires only while the program holds a handle to it: in every reachable state a timer in the heap that
  is pending has a handle outside the queue, so dropping the last handle cancels it.
\<close>

theorem timer_pending_has_owner:
  assumes "tq_reach s" and "a \<in> set (tq_heap s)" and "pending s a"
  shows "0 < tq_ext s a"
proof -
  from tq_reach_inv [OF assms(1)] have core: "tq_core (\<lambda>_. 0) s" by (simp add: tq_inv_def)
  from tq_core_D(7) [OF core _ assms(3)] assms(2) show ?thesis by (simp add: handles_def)
qed

theorem timer_pending_has_owner_witness:
  "let s = timer_act1 (TInsert 5 0 1) tq_new in 0 \<in> set (tq_heap s) \<and> pending s 0 \<and> 0 < tq_ext s 0"
proof -
  let ?s = "timer_act1 (TInsert 5 0 1) tq_new"
  have r: "tq_reach ?s" by (intro tq_reach.intros)
  have "0 \<in> set (tq_heap ?s)" "pending ?s 0"
    by (simp_all add: tq_insert_def tq_alloc_def pool_alloc_def tq_new_def heap_push_def add_ref_def tq_upd_def pending_def std.push_set)
  with timer_pending_has_owner [OF r, of 0] show ?thesis unfolding Let_def by blast
qed

text \<open>
  The front of the queue, from which the reactor takes its next wake-up, is always a pending timer that
  expires no later than any other timer in the heap.
\<close>

theorem timer_front_earliest:
  assumes "tq_reach s" and "tq_heap s \<noteq> []"
  shows "pending s (hd (tq_heap s)) \<and> (\<forall>a \<in> set (tq_heap s). expiry s (hd (tq_heap s)) \<le> expiry s a)"
proof -
  from tq_reach_inv [OF assms(1)] have core: "tq_core (\<lambda>_. 0) s" and "front_ok s" by (simp_all add: tq_inv_def)
  with assms(2) is_heap_min [OF tq_core_D(1) [OF core]] show ?thesis by (auto simp: front_ok_def)
qed

theorem timer_front_earliest_witness:
  "let s = timer_act1 (TInsert 5 0 1) tq_new in tq_heap s \<noteq> [] \<and> pending s (hd (tq_heap s))"
proof -
  let ?s = "timer_act1 (TInsert 5 0 1) tq_new"
  have r: "tq_reach ?s" by (intro tq_reach.intros)
  have "tq_heap ?s = [0]"
    by (simp add: tq_insert_def tq_alloc_def pool_alloc_def tq_new_def heap_push_def add_ref_def tq_upd_def push_heap_def sift_up.simps Let_def)
  with timer_front_earliest [OF r] show ?thesis unfolding Let_def by auto
qed

text \<open>
  C6: \<open>dispatch\<close> leaves no due timer behind. Whatever the callbacks do, when it returns every timer in the heap
  expires after the given time.
\<close>

theorem timer_dispatch_complete:
  assumes "tq_reach s" and "tq_dispatch cb now s = Some (work, s')"
  shows "\<forall>a \<in> set (tq_heap s'). now < expiry s' a"
  using tq_reach_inv [OF assms(1)] tq_dispatch_inv [OF _ assms(2)] by blast

text \<open>
  C36: \<open>dispatch\<close> returns, provided that no callback inserts a timer that is already due: periodic timers are
  rescheduled past the given time, so each due timer fires once.
\<close>

theorem timer_dispatch_returns:
  assumes "tq_reach s" and "\<And>slot a s'. \<forall>act \<in> set (cb slot now a s'). late now act"
  shows "\<exists>work s'. tq_dispatch cb now s = Some (work, s')"
proof -
  from tq_reach_inv [OF assms(1)] have "tq_inv (\<lambda>_. 0) s" by blast
  from dispatch_loop_returns [where cb = cb, OF assms(2) this] show ?thesis by (auto simp: tq_dispatch_def)
qed

theorem timer_dispatch_returns_witness:
  "\<exists>work s'. tq_dispatch (\<lambda>slot now a s. [TInsert (now + 1) 0 2, TCancel a]) 7 (timer_act1 (TInsert 5 0 1) tq_new) = Some (work, s')"
  by (rule timer_dispatch_returns) (auto intro: tq_reach.intros simp del: timer_act1.simps)

theorem timer_dispatch_complete_witness:
  "\<exists>work s'. tq_dispatch (\<lambda>slot now a s. []) 3 (timer_act1 (TInsert 5 0 1) tq_new) = Some (work, s') \<and>
     tq_heap s' = [0] \<and> (\<forall>a \<in> set (tq_heap s'). 3 < expiry s' a)"
proof -
  let ?s = "timer_act1 (TInsert 5 0 1) tq_new"
  have r: "tq_reach ?s" by (intro tq_reach.intros)
  have h: "tq_heap ?s = [0]" "pending ?s 0" "expiry ?s 0 = 5" "tq_cancelled ?s = 0"
    by (simp_all add: tq_insert_def tq_alloc_def pool_alloc_def tq_new_def heap_push_def add_ref_def tq_upd_def push_heap_def sift_up.simps
      pending_def expiry_def Let_def)
  then have d: "tq_dispatch (\<lambda>slot now a s. []) 3 ?s = Some (0, ?s)"
    by (simp add: tq_dispatch_def dispatch_loop.simps tq_gc_def del: timer_act1.simps)
  from timer_dispatch_complete [OF r d] d h show ?thesis by blast
qed

text \<open>
  A periodic timer that is still pending after its callback is back in the heap with its next expiry: one
  interval later, but never at or before the time of the dispatch.
\<close>

theorem timer_periodic_rearm:
  assumes "pending s a" and "0 < ti_interval (tq_store s a)"
  shows "let s' = expire_rearm now a s in a \<in> set (tq_heap s') \<and> pending s' a \<and> now < expiry s' a \<and>
     expiry s' a = max (expiry s a + ti_interval (tq_store s a)) (now + 1)"
  using assms by (simp add: expire_rearm_def heap_push_def add_ref_def std.push_set pending_def expiry_def tq_upd_def Let_def)

theorem timer_periodic_rearm_witness:
  "let s = timer_act1 (TInsert 5 10 1) tq_new; s' = expire_rearm 40 0 s in
     pending s 0 \<and> 0 < ti_interval (tq_store s 0) \<and> expiry s' 0 = max (expiry s 0 + ti_interval (tq_store s 0)) 41"
proof -
  let ?s = "timer_act1 (TInsert 5 10 1) tq_new"
  have "pending ?s 0" "0 < ti_interval (tq_store ?s 0)"
    by (simp_all add: tq_insert_def tq_alloc_def pool_alloc_def tq_new_def heap_push_def add_ref_def tq_upd_def pending_def Let_def)
  with timer_periodic_rearm [OF this, of 40] show ?thesis unfolding Let_def by simp
qed

text \<open>
  \<open>size()\<close> never reports more timers than are pending in the heap, and the counter of cancelled timers that it
  subtracts is never negative, as the assertions of the code say.
\<close>

theorem timer_size_bound:
  assumes "tq_reach s"
  shows "tq_size s \<le> int (length (filter (pending s) (tq_heap s))) \<and> 0 \<le> tq_cancelled s"
proof -
  from tq_reach_inv [OF assms] have d: "int (dead s) \<le> tq_cancelled s" by (simp add: tq_inv_def)
  have "length (filter (pending s) (tq_heap s)) + dead s = length (tq_heap s)"
    using sum_length_filter_compl [of "pending s" "tq_heap s"] by (simp add: dead_def)
  with d show ?thesis by (simp add: tq_size_def)
qed

theorem timer_size_bound_witness:
  "let s = timer_act1 (TCancel 0) (timer_act1 (TInsert 5 0 1) tq_new) in tq_size s \<le> int (length (filter (pending s) (tq_heap s)))"
proof -
  have "tq_reach (timer_act1 (TCancel 0) (timer_act1 (TInsert 5 0 1) tq_new))" by (intro tq_reach.intros)
  from timer_size_bound [OF this] show ?thesis unfolding Let_def by blast
qed


text \<open>A pending timer's handle that is popped is released without effect: its reference count stays above one.\<close>

lemma tq_pop_pending:
  assumes inv: "tq_inv (\<lambda>_. 0) s" and ne: "tq_heap s \<noteq> []" and pe: "pending s (hd (tq_heap s))" and pop: "tq_pop release s = (a, s1)"
  shows "tq_heap s1 = butlast (pop_heap (expiry s) (tq_heap s))" "pending s1 = pending s" "tq_cancelled s1 = tq_cancelled s"
    "tq_ext s1 = tq_ext s"
proof -
  let ?a = "hd (tq_heap s)"
  let ?s2 = "(add_ref ?a s)\<lparr>tq_heap := butlast (pop_heap (expiry (add_ref ?a s)) (tq_heap (add_ref ?a s)))\<rparr>"
  have core: "tq_core (\<lambda>_. 0) s" using inv by (simp add: tq_inv_def)
  note D = tq_core_D [OF core]
  have pos: "0 < handles (\<lambda>_. 0) s ?a" using ne by (simp add: handles_def)
  from D(6) [OF pos] D(7) [OF pos pe] have ref: "2 \<le> ti_ref (tq_store s ?a)" by simp
  have f: "pending ?s2 = pending s" "expiry (add_ref ?a s) = expiry s"
    by (auto simp: add_ref_def pending_def expiry_def tq_upd_def fun_eq_iff)
  have "release ?a ?s2 = release_idle ?a ?s2"
    using ref by (simp add: release_def release_idle_def Let_def upd_store) (simp add: add_ref_def upd_store)
  then have s1: "s1 = release_idle ?a ?s2" using pop by (auto simp: tq_pop_def Let_def)
  have h: "tq_heap (add_ref ?a s) = tq_heap s" "tq_cancelled (add_ref ?a s) = tq_cancelled s" "tq_ext (add_ref ?a s) = tq_ext s"
    by (simp_all add: add_ref_def)
  show "tq_heap s1 = butlast (pop_heap (expiry s) (tq_heap s))" "tq_cancelled s1 = tq_cancelled s" "tq_ext s1 = tq_ext s"
    by (simp_all add: s1 h f)
  show "pending s1 = pending s" using f(1) by (simp only: s1 release_idle_fields)
qed

text \<open>
  A callback that cancels its own timer corrupts the counter: the timer is not in the heap any more, yet
  the queue counts it as cancelled there. With two or more other timers pending, \<open>size()\<close> then reports one less
  than there are.
\<close>

theorem timer_self_cancel_miscounts:
  assumes inv: "tq_inv (\<lambda>_. 0) s" and len: "3 \<le> length (tq_heap s)" and c: "tq_cancelled s = 0"
    and cb: "\<And>slot a s'. cb slot now a s' = [TCancel a]"
  shows "let s' = tq_expire cb now s in
     tq_size s' = int (length (tq_heap s)) - 2 \<and> length (filter (pending s') (tq_heap s')) = length (tq_heap s) - 1"
proof -
  have ne: "tq_heap s \<noteq> []" using len by auto
  have core: "tq_core (\<lambda>_. 0) s" and "dead s = 0" using inv c by (simp_all add: tq_inv_def)
  then have pe: "\<forall>a \<in> set (tq_heap s). pending s a" by (simp add: dead_def filter_empty_conv)
  then have pf: "pending s (hd (tq_heap s))" using ne by simp
  obtain a s1 where pop: "tq_pop release s = (a, s1)" by fastforce
  note P = tq_pop_expire [OF inv ne pop] and Q = tq_pop_pending [OF inv ne pf pop]
  have l1: "length (tq_heap s1) = length (tq_heap s) - 1" unfolding Q by (rule std.pop_butlast_length [OF ne])
  then have ne1: "tq_heap s1 \<noteq> []" using len by auto
  have pe1: "\<forall>b \<in> set (tq_heap s1). pending s b" using pe P(4) by blast
  then have pf1: "pending s (hd (tq_heap s1))" and hd1: "hd (tq_heap s1) \<noteq> a" using ne1 P(3) by (auto dest: hd_in_set)
  have pa: "pending s a" using pf P(1) by simp
  have "tq_core ((\<lambda>_. 0)(a := 1)) s1" using P(2) by (simp add: tq_inv_def)
  from tq_core_D(7) [OF this, of a] P(3) pa Q(2) have ext: "0 < tq_ext s1 a" by (simp add: handles_def split: if_splits)
  define s2 where "s2 = (slot_reset a s1)\<lparr>tq_cancelled := 1\<rparr>"
  have "cancel_loop s2 = s2"
    using pf1 hd1 Q(2) by (subst cancel_loop.simps) (simp add: s2_def)
  moreover have "tq_gc s2 = s2" using l1 len by (simp add: tq_gc_def s2_def)
  ultimately have "timer_cancel a s1 = s2"
    using pa by (simp add: timer_cancel_def tq_cancel_def Q(2,3) c s2_def)
  with ext have acts: "fold timer_act1 (cb (the (ti_slot (tq_store s1 a))) now a s1) s1 = s2" by (simp add: cb)
  have np: "\<not> pending s2 a" by (simp add: s2_def)
  then have e: "tq_expire cb now s = release_idle a s2"
    by (simp add: tq_expire_def pop acts expire_rearm_def release_idle_eq)
  have "filter (pending s2) (tq_heap s1) = tq_heap s1"
    using pe1 P(3) Q(2) by (auto simp: s2_def filter_id_conv)
  then show ?thesis
    unfolding e Let_def tq_size_def using l1 len by (simp add: s2_def)
qed

theorem timer_self_cancel_miscounts_witness:
  "let s = \<lparr>tp_slabs = 1, tp_free = [3..<SlabSize], tq_store = (\<lambda>a. \<lparr>ti_ref = 2, ti_id = int a + 1, ti_expiry = int a, ti_interval = 0, ti_slot = Some a\<rparr>),
     tq_max_id = 3, tq_cancelled = 0, tq_heap = [0, 1, 2], tq_ext = (\<lambda>a. if a < 3 then 1 else 0)\<rparr>;
     s' = tq_expire (\<lambda>slot now a s. [TCancel a]) 0 s in
   tq_size s' = 1 \<and> length (filter (pending s') (tq_heap s')) = 2"
proof -
  let ?s = "\<lparr>tp_slabs = 1, tp_free = [3..<SlabSize], tq_store = (\<lambda>a. \<lparr>ti_ref = 2, ti_id = int a + 1, ti_expiry = int a, ti_interval = 0, ti_slot = Some a\<rparr>),
     tq_max_id = 3, tq_cancelled = 0, tq_heap = [0, 1, 2], tq_ext = (\<lambda>a. if a < 3 then 1 else 0)\<rparr>"
  have "is_heap (expiry ?s) [0, 1, 2]" by (auto simp: is_heap_def expiry_def less_Suc_eq)
  moreover have h: "handles (\<lambda>_. 0) ?s a = (if a < 3 then 2 else 0)" for a by (auto simp: handles_def)
  ultimately have "tq_core (\<lambda>_. 0) ?s"
    unfolding tq_core_def h by (auto simp: tp_total_def) (simp_all add: SlabSize_def)
  then have "tq_inv (\<lambda>_. 0) ?s" by (simp add: tq_inv_def dead_def pending_def)
  from timer_self_cancel_miscounts [OF this, of "\<lambda>slot now a s. [TCancel a]" 0] show ?thesis by (simp add: Let_def)
qed


text \<open>The collector keeps the counter below half of the heap.\<close>

definition gc_ok :: "timer_queue \<Rightarrow> bool" where
  "gc_ok s \<longleftrightarrow> tq_cancelled s \<le> int (length (tq_heap s) div 2)"

lemma gc_ok_gc: "gc_ok (tq_gc s)"
  by (simp add: gc_ok_def tq_gc_def Let_def)

lemma gc_ok_cancel: "gc_ok (tq_cancel s)"
  unfolding tq_cancel_def by (rule gc_ok_gc)

lemma gc_ok_release: "gc_ok s \<Longrightarrow> gc_ok (release a s)"
  unfolding release_def Let_def by (auto simp: gc_ok_cancel) (simp_all add: gc_ok_def pool_dealloc_def)

lemma gc_ok_act: "gc_ok s \<Longrightarrow> gc_ok (timer_act1 act s)"
proof (cases act)
  case (TInsert ex iv slot)
  assume g: "gc_ok s"
  have "tq_heap (snd (tq_insert ex iv slot s)) = push_heap (expiry (snd (tq_insert ex iv slot s))) (tq_heap s @ [fst (tq_insert ex iv slot s)])"
    "tq_cancelled (snd (tq_insert ex iv slot s)) = tq_cancelled s"
    by (auto simp: tq_insert_def heap_push_def add_ref_def expiry_def tq_alloc_def tq_upd_def pool_alloc_def fun_eq_iff Let_def
      split: prod.splits list.splits)
  then have "length (tq_heap (snd (tq_insert ex iv slot s))) = Suc (length (tq_heap s))"
    "tq_cancelled (snd (tq_insert ex iv slot s)) = tq_cancelled s" by (simp_all add: std.push_length)
  with g TInsert show ?thesis by (simp add: gc_ok_def)
next
  case (TDrop a)
  assume "gc_ok s"
  then have "gc_ok (s\<lparr>tq_ext := (tq_ext s)(a := tq_ext s a - 1)\<rparr>)" by (simp add: gc_ok_def)
  with \<open>gc_ok s\<close> TDrop show ?thesis by (simp add: gc_ok_release)
next
  case (TCancel a)
  assume "gc_ok s"
  with TCancel show ?thesis by (simp add: timer_cancel_def gc_ok_cancel)
next
  case (TCopy a)
  assume "gc_ok s"
  with TCopy show ?thesis by (simp add: gc_ok_def add_ref_def)
qed

lemma tq_reach_gc: "tq_reach s \<Longrightarrow> gc_ok s"
  by (induction rule: tq_reach.induct) (auto simp: gc_ok_act tq_dispatch_def gc_ok_gc, simp add: gc_ok_def tq_new_def)

lemma tq_empty_iff:
  assumes "tq_reach s"
  shows "tq_empty s \<longleftrightarrow> tq_heap s = []"
proof -
  have b: "0 \<le> tq_cancelled s" "tq_cancelled s \<le> int (length (tq_heap s) div 2)"
    using tq_reach_gc [OF assms] tq_reach_inv [OF assms] by (auto simp: gc_ok_def tq_inv_def)
  have "length (tq_heap s) = 0" if "tq_size s = 0"
    using that b unfolding tq_size_def by linarith
  with b show ?thesis by (auto simp: tq_empty_def) (auto simp: tq_size_def)
qed

end
