(* ===== verification/Polling.thy ===== *)
theory Polling
  imports Prelude
begin

text \<open>
  The model of I/O subscriptions: \<open>PollEvents\<close>, \<open>PollFD\<close> and \<open>PollHandle\<close> of \<open>io/Reactor.hpp\<close> and the \<open>Epoll\<close>
  poller of \<open>io/Epoll.hpp\<close> and \<open>io/Epoll.cpp\<close>. The kernel's interest list is part of the state; the results of
  \<open>epoll_ctl\<close> are those the system call documents (adding a registered descriptor and changing or
  deleting an unregistered one fail). The poller runs in level-triggered mode, as the code is compiled.
\<close>

subsection \<open>Events\<close>

definition EvNone :: u32 where "EvNone = 0"
definition EvRead :: u32 where "EvRead = 1"
definition EvWrite :: u32 where "EvWrite = 4"
definition EvError :: u32 where "EvError = 8"
definition EvET :: u32 where "EvET = push_bit 31 1"

definition ev_plus :: "u32 \<Rightarrow> u32 \<Rightarrow> u32" where
  "ev_plus lhs rhs = lhs OR rhs"

definition ev_minus :: "u32 \<Rightarrow> u32 \<Rightarrow> u32" where
  "ev_minus lhs rhs = lhs AND NOT rhs"

definition EpollIn :: u32 where "EpollIn = 1"
definition EpollOut :: u32 where "EpollOut = 4"
definition EpollErr :: u32 where "EpollErr = 8"
definition EpollHup :: u32 where "EpollHup = 16"
definition EpollEt :: u32 where "EpollEt = push_bit 31 1"

definition epoll_mode :: u32 where "epoll_mode = 0"

definition to_epoll_events :: "u32 \<Rightarrow> u32" where
  "to_epoll_events events =
     (epoll_mode OR (if events AND EvRead \<noteq> 0 then EpollIn else 0)
                 OR (if events AND EvWrite \<noteq> 0 then EpollOut else 0)
                 OR (if events AND EvError \<noteq> 0 then EpollErr OR EpollHup else 0)
                 OR (if events AND EvET \<noteq> 0 then EpollEt else 0))"

definition from_epoll_events :: "u32 \<Rightarrow> u32" where
  "from_epoll_events m =
     (EvNone OR (if m AND EpollIn \<noteq> 0 then EvRead else 0)
             OR (if m AND EpollOut \<noteq> 0 then EvWrite else 0)
             OR (if m AND (EpollErr OR EpollHup) \<noteq> 0 then EvError else 0))"

subsection \<open>Event tokens\<close>

text \<open>The 64 bits the kernel returns with an event: subscription id and descriptor.\<close>

record epoll_event =
  ee_events :: u32
  ee_data :: u64

definition ev_token :: "nat \<Rightarrow> nat \<Rightarrow> u64" where
  "ev_token fd sid = push_bit 32 (of_nat sid) OR of_nat fd"

definition mk_event :: "nat \<Rightarrow> nat \<Rightarrow> u32 \<Rightarrow> epoll_event" where
  "mk_event fd sid events = \<lparr>ee_events = to_epoll_events events, ee_data = ev_token fd sid\<rparr>"

definition ev_fd :: "epoll_event \<Rightarrow> nat" where
  "ev_fd ev = unat (ee_data ev AND 0xFFFFFFFF)"

definition ev_sid :: "epoll_event \<Rightarrow> nat" where
  "ev_sid ev = unat (drop_bit 32 (ee_data ev))"

subsection \<open>Subscriptions\<close>

record poll_fd =
  pf_fd :: int
  pf_sid :: nat
  pf_events :: u32
  pf_slot :: "nat option"

record poll_handle = poll_fd +
  ph_batch :: bool
  ph_pending :: bool

definition pf_none :: poll_fd where
  "pf_none = \<lparr>pf_fd = 0, pf_sid = 0, pf_events = EvNone, pf_slot = None\<rparr>"

text \<open>\<open>PollFD::reset\<close>.\<close>

definition pf_reset :: "'a poll_fd_scheme \<Rightarrow> 'a poll_fd_scheme" where
  "pf_reset h = h\<lparr>pf_fd := - 1, pf_sid := 0, pf_events := EvNone, pf_slot := None\<rparr>"

definition pf_empty :: "'a poll_fd_scheme \<Rightarrow> bool" where
  "pf_empty h \<longleftrightarrow> pf_slot h = None"

definition ph_new :: "int \<Rightarrow> poll_handle" where
  "ph_new fd = \<lparr>pf_fd = fd, pf_sid = 0, pf_events = EvNone, pf_slot = None, ph_batch = False, ph_pending = False\<rparr>"

definition next_sid :: "poll_handle \<Rightarrow> poll_handle" where
  "next_sid h = h\<lparr>pf_sid := pf_sid h + 1\<rparr>"

subsection \<open>The poller\<close>

record epoll =
  ep_kernel :: "nat \<Rightarrow> epoll_event option"
  ep_data :: "poll_fd list"
  ep_tfd :: nat
  ep_notify :: nat

datatype ep_error = EEXIST | ENOENT | BadFd

definition ep_add :: "nat \<Rightarrow> nat \<Rightarrow> u32 \<Rightarrow> epoll \<Rightarrow> ep_error + epoll" where
  "ep_add fd sid events ep = (if ep_kernel ep fd \<noteq> None then Inl EEXIST
     else Inr (ep\<lparr>ep_kernel := (ep_kernel ep)(fd := Some (mk_event fd sid events))\<rparr>))"

definition ep_mod :: "nat \<Rightarrow> nat \<Rightarrow> u32 \<Rightarrow> epoll \<Rightarrow> ep_error + epoll" where
  "ep_mod fd sid events ep = (if ep_kernel ep fd = None then Inl ENOENT
     else Inr (ep\<lparr>ep_kernel := (ep_kernel ep)(fd := Some (mk_event fd sid events))\<rparr>))"

definition ep_del :: "nat \<Rightarrow> epoll \<Rightarrow> ep_error + epoll" where
  "ep_del fd ep = (if ep_kernel ep fd = None then Inl ENOENT
     else Inr (ep\<lparr>ep_kernel := (ep_kernel ep)(fd := None)\<rparr>))"

text \<open>The constructor: the timer and the notification descriptor are registered, the table covers them.\<close>

definition ep_new :: "nat \<Rightarrow> nat \<Rightarrow> nat \<Rightarrow> epoll" where
  "ep_new tfd notify size_hint = \<lparr>
     ep_kernel = (\<lambda>fd. None)(tfd := Some (mk_event tfd 0 EvRead), notify := Some (mk_event notify 0 EvRead)),
     ep_data = replicate (max (notify + 1) size_hint) pf_none, ep_tfd = tfd, ep_notify = notify\<rparr>"

definition resize_data :: "nat \<Rightarrow> poll_fd list \<Rightarrow> poll_fd list" where
  "resize_data n xs = take n xs @ replicate (n - length xs) pf_none"

text \<open>
  \<open>Epoll::ctl\<close>. A negative descriptor becomes an index past every table, for which the table cannot be resized. The handle is an in-out parameter, since a new subscription takes the handle's next id.
\<close>

definition ep_ctl :: "poll_handle \<Rightarrow> epoll \<Rightarrow> ep_error + (bool \<times> poll_handle \<times> epoll)" where
  "ep_ctl h ep = (let ix = nat (pf_fd h); events = pf_events h in
     if pf_empty h then
       (if 0 \<le> pf_fd h \<and> ix < length (ep_data ep) \<and> \<not> pf_empty (ep_data ep ! ix) then
          (case ep_del ix ep of Inl e \<Rightarrow> Inl e
           | Inr ep1 \<Rightarrow> Inr (True, h, ep1\<lparr>ep_data := (ep_data ep1)[ix := pf_reset (ep_data ep1 ! ix)]\<rparr>))
        else Inr (False, h, ep))
     else if pf_fd h < 0 then Inl BadFd
     else
       (let ep1 = (if ix \<ge> length (ep_data ep) then ep\<lparr>ep_data := resize_data (ix + 1) (ep_data ep)\<rparr> else ep);
            ref = ep_data ep1 ! ix in
        if pf_empty ref then
          (if events \<noteq> 0 then
             (let h1 = next_sid h in
              case ep_add ix (pf_sid h1) events (ep1\<lparr>ep_data := (ep_data ep1)[ix := poll_fd.truncate h1]\<rparr>) of Inl e \<Rightarrow> Inl e
              | Inr ep2 \<Rightarrow> Inr (True, h1, ep2))
           else Inr (True, h, ep1))
        else if pf_sid ref \<noteq> pf_sid h then Inr (False, h, ep1)
        else
          (let upd = (\<lambda>e. e\<lparr>ep_data := (ep_data e)[ix := ref\<lparr>pf_events := events, pf_slot := pf_slot h\<rparr>]\<rparr>) in
           if events \<noteq> pf_events ref then
             (case ep_mod ix (pf_sid h) events ep1 of Inl e \<Rightarrow> Inl e | Inr ep2 \<Rightarrow> Inr (True, h, upd ep2))
           else Inr (True, h, upd ep1))))"

subsection \<open>Handle operations\<close>

text \<open>\<open>commit(force)\<close>.\<close>

definition ph_commit :: "bool \<Rightarrow> poll_handle \<Rightarrow> epoll \<Rightarrow> ep_error + (poll_handle \<times> epoll)" where
  "ph_commit force h ep =
     (if force \<or> \<not> ph_batch h \<or> ph_pending h then
        (case ep_ctl h ep of Inl e \<Rightarrow> Inl e | Inr (_, h1, ep1) \<Rightarrow> Inr (h1\<lparr>ph_pending := False\<rparr>, ep1))
      else Inr (h, ep))"

definition ph_batching :: "bool \<Rightarrow> poll_handle \<Rightarrow> bool \<times> poll_handle" where
  "ph_batching enable h = (ph_batch h, h\<lparr>ph_batch := enable\<rparr>)"

definition ph_reset :: "poll_handle \<Rightarrow> epoll \<Rightarrow> ep_error + (poll_handle \<times> epoll)" where
  "ph_reset h ep =
     (if pf_slot h \<noteq> None \<or> pf_events h \<noteq> EvNone then
        (case ph_commit False (h\<lparr>pf_events := EvNone, pf_slot := None\<rparr>) ep of
           Inl e \<Rightarrow> Inl e | Inr (h1, ep1) \<Rightarrow> Inr (pf_reset h1, ep1))
      else Inr (pf_reset h, ep))"

definition ph_del :: "u32 \<Rightarrow> poll_handle \<Rightarrow> epoll \<Rightarrow> ep_error + (poll_handle \<times> epoll)" where
  "ph_del events h ep =
     (if pf_events h AND events \<noteq> 0 then ph_commit False (h\<lparr>pf_events := ev_minus (pf_events h) events\<rparr>) ep
      else Inr (h, ep))"

definition ph_del_slot :: "u32 \<Rightarrow> nat option \<Rightarrow> poll_handle \<Rightarrow> epoll \<Rightarrow> ep_error + (poll_handle \<times> epoll)" where
  "ph_del_slot events slot h ep =
     (if pf_events h AND events \<noteq> 0 \<or> slot \<noteq> pf_slot h
      then ph_commit False (h\<lparr>pf_events := ev_minus (pf_events h) events, pf_slot := slot\<rparr>) ep
      else Inr (h, ep))"

definition ph_add :: "u32 \<Rightarrow> poll_handle \<Rightarrow> epoll \<Rightarrow> ep_error + (poll_handle \<times> epoll)" where
  "ph_add events h ep =
     (if pf_events h AND events \<noteq> events then
        (let h1 = h\<lparr>pf_events := ev_plus (pf_events h) events\<rparr> in
         if pf_slot h1 \<noteq> None then ph_commit False h1 ep else Inr (h1, ep))
      else Inr (h, ep))"

definition ph_add_slot :: "u32 \<Rightarrow> nat option \<Rightarrow> poll_handle \<Rightarrow> epoll \<Rightarrow> ep_error + (poll_handle \<times> epoll)" where
  "ph_add_slot events slot h ep =
     (if slot \<noteq> pf_slot h \<or> pf_events h AND events \<noteq> events
      then ph_commit False (h\<lparr>pf_slot := slot, pf_events := ev_plus (pf_events h) events\<rparr>) ep
      else Inr (h, ep))"

definition ph_mod :: "nat option \<Rightarrow> poll_handle \<Rightarrow> epoll \<Rightarrow> ep_error + (poll_handle \<times> epoll)" where
  "ph_mod slot h ep = (if pf_slot h \<noteq> slot then ph_commit False (h\<lparr>pf_slot := slot\<rparr>) ep else Inr (h, ep))"

subsection \<open>Dispatch\<close>

text \<open>
  What a callback does to the poller is a list of \<open>ctl\<close> calls on handles. A call of a slot is recorded with the
  descriptor and the events it got. One event that \<open>wait\<close> returned:
\<close>

type_synonym io_callback = "nat \<Rightarrow> nat \<Rightarrow> u32 \<Rightarrow> epoll \<Rightarrow> poll_handle list"

fun ep_ctls :: "poll_handle list \<Rightarrow> epoll \<Rightarrow> epoll" where
  "ep_ctls [] ep = ep"
| "ep_ctls (h # hs) ep = (case ep_ctl h ep of Inl e \<Rightarrow> ep | Inr (_, _, ep1) \<Rightarrow> ep_ctls hs ep1)"

definition ep_dispatch1 :: "epoll_event \<Rightarrow> epoll \<Rightarrow> (nat \<times> nat \<times> u32) option" where
  "ep_dispatch1 ev ep = (let fd = ev_fd ev in
     if fd = ep_notify ep then None
     else let ref = ep_data ep ! fd in
       case pf_slot ref of None \<Rightarrow> None
       | Some s \<Rightarrow>
         if pf_sid ref > ev_sid ev then None
         else let events = ee_events ev AND (to_epoll_events (pf_events ref) OR EpollErr OR EpollHup) in
           if events = 0 then None else Some (s, fd, from_epoll_events events))"

fun ep_dispatch :: "io_callback \<Rightarrow> epoll_event list \<Rightarrow> epoll \<Rightarrow> (nat \<times> nat \<times> u32) list \<times> epoll" where
  "ep_dispatch cb [] ep = ([], ep)"
| "ep_dispatch cb (ev # evs) ep = (case ep_dispatch1 ev ep of
     None \<Rightarrow> ep_dispatch cb evs ep
   | Some (s, fd, e) \<Rightarrow> (case ep_dispatch cb evs (ep_ctls (cb s fd e ep) ep) of
       (calls, ep') \<Rightarrow> ((s, fd, e) # calls, ep')))"


subsection \<open>Agreement with the kernel\<close>

text \<open>
  The table and the kernel agree: a descriptor other than the poller's own two is registered exactly when its
  entry holds a slot, and then with the entry's events and id.
\<close>

definition ep_want :: "epoll \<Rightarrow> nat \<Rightarrow> epoll_event option" where
  "ep_want ep fd = (if fd < length (ep_data ep) \<and> \<not> pf_empty (ep_data ep ! fd)
     then Some (mk_event fd (pf_sid (ep_data ep ! fd)) (pf_events (ep_data ep ! fd))) else None)"

definition ep_inv :: "epoll \<Rightarrow> bool" where
  "ep_inv ep \<longleftrightarrow> (\<forall>fd. fd \<noteq> ep_tfd ep \<and> fd \<noteq> ep_notify ep \<longrightarrow> ep_kernel ep fd = ep_want ep fd) \<and>
     (\<forall>fd \<in> {ep_tfd ep, ep_notify ep}. fd < length (ep_data ep) \<longrightarrow> pf_empty (ep_data ep ! fd))"

text \<open>The program subscribes its own descriptors only.\<close>

definition ph_own :: "epoll \<Rightarrow> poll_handle \<Rightarrow> bool" where
  "ph_own ep h \<longleftrightarrow> 0 \<le> pf_fd h \<and> nat (pf_fd h) \<noteq> ep_tfd ep \<and> nat (pf_fd h) \<noteq> ep_notify ep"

lemma pf_none_empty [simp]: "pf_empty pf_none"
  by (simp add: pf_empty_def pf_none_def)

lemma pf_reset_empty [simp]: "pf_empty (pf_reset h)"
  by (simp add: pf_empty_def pf_reset_def)

lemma resize_data_simps:
  assumes "length xs \<le> n"
  shows "length (resize_data n xs) = n"
    "i < n \<Longrightarrow> resize_data n xs ! i = (if i < length xs then xs ! i else pf_none)"
  using assms by (simp_all add: resize_data_def nth_append)

lemma resize_inv: "ep_inv ep \<Longrightarrow> length (ep_data ep) \<le> n \<Longrightarrow> ep_inv (ep\<lparr>ep_data := resize_data n (ep_data ep)\<rparr>)"
  by (auto simp: ep_inv_def ep_want_def resize_data_simps split: if_splits)

lemma ep_new_inv: "ep_inv (ep_new tfd notify hint)"
  by (auto simp: ep_inv_def ep_new_def ep_want_def)

text \<open>Changing one entry together with the kernel's view of it.\<close>

lemma ep_inv_update:
  assumes inv: "ep_inv ep" and fd: "fd \<noteq> ep_tfd ep" "fd \<noteq> ep_notify ep" "fd < length (ep_data ep)"
    and k: "k = (if pf_empty r then None else Some (mk_event fd (pf_sid r) (pf_events r)))"
  shows "ep_inv (ep\<lparr>ep_kernel := (ep_kernel ep)(fd := k), ep_data := (ep_data ep)[fd := r]\<rparr>)"
  using assms by (auto simp: ep_inv_def ep_want_def nth_list_update)

lemma ep_upd_swap: "ep\<lparr>ep_data := d, ep_kernel := k\<rparr> = ep\<lparr>ep_kernel := k, ep_data := d\<rparr>"
  by (cases ep) simp

lemma ep_ctl_ok:
  assumes inv: "ep_inv ep" and own: "ph_own ep h"
  shows "\<exists>b h' ep'. ep_ctl h ep = Inr (b, h', ep') \<and> ep_inv ep' \<and> ep_tfd ep' = ep_tfd ep \<and> ep_notify ep' = ep_notify ep \<and>
     pf_fd h' = pf_fd h"
proof -
  let ?ix = "nat (pf_fd h)"
  from own have fd: "0 \<le> pf_fd h" "?ix \<noteq> ep_tfd ep" "?ix \<noteq> ep_notify ep" by (auto simp: ph_own_def)
  show ?thesis
  proof (cases "pf_empty h")
    case True
    show ?thesis
    proof (cases "?ix < length (ep_data ep) \<and> \<not> pf_empty (ep_data ep ! ?ix)")
      case T: True
      then have "ep_kernel ep ?ix \<noteq> None" using inv fd by (simp add: ep_inv_def ep_want_def)
      moreover have "ep_inv (ep\<lparr>ep_kernel := (ep_kernel ep)(?ix := None), ep_data := (ep_data ep)[?ix := pf_reset (ep_data ep ! ?ix)]\<rparr>)"
        using T fd by (intro ep_inv_update inv) auto
      ultimately show ?thesis using True T fd by (auto simp: ep_ctl_def ep_del_def Let_def)
    next
      case False
      with True fd inv show ?thesis by (auto simp: ep_ctl_def Let_def)
    qed
  next
    case ne: False
    define ep1 where "ep1 = (if ?ix \<ge> length (ep_data ep) then ep\<lparr>ep_data := resize_data (?ix + 1) (ep_data ep)\<rparr> else ep)"
    have inv1: "ep_inv ep1" using resize_inv [OF inv, of "?ix + 1"] inv by (simp add: ep1_def)
    have f1: "ep_tfd ep1 = ep_tfd ep" "ep_notify ep1 = ep_notify ep" "?ix < length (ep_data ep1)"
      by (auto simp: ep1_def resize_data_simps)
    let ?ref = "ep_data ep1 ! ?ix"
    have k: "ep_kernel ep1 ?ix = (if pf_empty ?ref then None else Some (mk_event ?ix (pf_sid ?ref) (pf_events ?ref)))"
      using inv1 fd f1 by (simp add: ep_inv_def ep_want_def)
    show ?thesis
    proof (cases "pf_empty ?ref")
      case True
      let ?h1 = "next_sid h"
      have t: "\<not> pf_empty (poll_fd.truncate ?h1)" "pf_sid (poll_fd.truncate ?h1) = pf_sid ?h1" "pf_events (poll_fd.truncate ?h1) = pf_events h"
        using ne by (simp_all add: pf_empty_def next_sid_def poll_fd.defs)
      have "ep_inv (ep1\<lparr>ep_kernel := (ep_kernel ep1)(?ix := Some (mk_event ?ix (pf_sid ?h1) (pf_events h))),
           ep_data := (ep_data ep1)[?ix := poll_fd.truncate ?h1]\<rparr>)"
        using fd f1 t by (intro ep_inv_update inv1) auto
      with True k ne inv1 f1 fd show ?thesis
        by (auto simp: ep_ctl_def Let_def ep1_def [symmetric] ep_add_def next_sid_def ep_upd_swap)
    next
      case False
      show ?thesis
      proof (cases "pf_sid ?ref = pf_sid h")
        case True
        let ?r = "?ref\<lparr>pf_events := pf_events h, pf_slot := pf_slot h\<rparr>"
        have t: "\<not> pf_empty ?r" using ne by (simp add: pf_empty_def)
        have u: "ep_inv (ep1\<lparr>ep_kernel := (ep_kernel ep1)(?ix := Some (mk_event ?ix (pf_sid h) (pf_events h))), ep_data := (ep_data ep1)[?ix := ?r]\<rparr>)"
          using fd f1 t True by (intro ep_inv_update inv1) auto
        have same: "(ep_kernel ep1)(?ix := Some (mk_event ?ix (pf_sid h) (pf_events h))) = ep_kernel ep1" if "pf_events h = pf_events ?ref"
          using k False True that by (auto simp: fun_eq_iff)
        show ?thesis
        proof (cases "pf_events h = pf_events ?ref")
          case e: True
          from u same [OF e] have "ep_inv (ep1\<lparr>ep_data := (ep_data ep1)[?ix := ?r]\<rparr>)" by simp
          with False True e ne f1 fd show ?thesis by (auto simp: ep_ctl_def Let_def ep1_def [symmetric])
        next
          case e: False
          with False True u ne f1 fd k show ?thesis by (auto simp: ep_ctl_def Let_def ep1_def [symmetric] ep_mod_def)
        qed
      next
        case sid: False
        with False ne inv1 f1 fd show ?thesis by (auto simp: ep_ctl_def Let_def ep1_def [symmetric])
      qed
    qed
  qed
qed


lemma ph_commit_ok:
  assumes "ep_inv ep" and "ph_own ep h"
  shows "\<exists>h' ep'. ph_commit f h ep = Inr (h', ep') \<and> ep_inv ep' \<and> ep_tfd ep' = ep_tfd ep \<and> ep_notify ep' = ep_notify ep"
  using ep_ctl_ok [OF assms] assms(1) by (auto simp: ph_commit_def)

text \<open>The operations on a handle, as one type.\<close>

datatype ph_op = PReset | PDel u32 | PDelSlot u32 "nat option" | PAdd u32 | PAddSlot u32 "nat option" | PMod "nat option" | PCommit bool

fun ph_run :: "ph_op \<Rightarrow> poll_handle \<Rightarrow> epoll \<Rightarrow> ep_error + (poll_handle \<times> epoll)" where
  "ph_run PReset h ep = ph_reset h ep"
| "ph_run (PDel e) h ep = ph_del e h ep"
| "ph_run (PDelSlot e s) h ep = ph_del_slot e s h ep"
| "ph_run (PAdd e) h ep = ph_add e h ep"
| "ph_run (PAddSlot e s) h ep = ph_add_slot e s h ep"
| "ph_run (PMod s) h ep = ph_mod s h ep"
| "ph_run (PCommit f) h ep = ph_commit f h ep"

lemma ph_own_upd [simp]: "ph_own ep (h\<lparr>pf_events := e\<rparr>) = ph_own ep h" "ph_own ep (h\<lparr>pf_slot := s\<rparr>) = ph_own ep h"
  by (simp_all add: ph_own_def)

text \<open>
  C14: Every operation on a poll handle keeps the poller's table and the kernel's interest list in agreement, and
  no \<open>epoll_ctl\<close> call it makes can fail: no subscription is added twice, and none is changed or removed
  that is not there.
\<close>

theorem poll_handle_kernel_agreement:
  assumes "ep_inv ep" and "ph_own ep h"
  shows "\<exists>h' ep'. ph_run op h ep = Inr (h', ep') \<and> ep_inv ep'"
proof -
  have C: "\<exists>h' ep'. ph_commit f h1 ep = Inr (h', ep') \<and> ep_inv ep'" if "ph_own ep h1" for f h1
    using ph_commit_ok [OF assms(1) that] by blast
  show ?thesis
  proof (cases op)
    case PReset
    with C [of "h\<lparr>pf_events := EvNone, pf_slot := None\<rparr>" False] assms show ?thesis by (auto simp: ph_reset_def)
  qed (use C assms in \<open>auto simp: ph_del_def ph_del_slot_def ph_add_def ph_add_slot_def ph_mod_def Let_def\<close>)
qed

theorem poll_handle_kernel_agreement_witness:
  "ep_inv (ep_new 4 5 0) \<and> ph_own (ep_new 4 5 0) (ph_new 9) \<and>
   (\<exists>h' ep'. ph_run (PAddSlot EvRead (Some 1)) (ph_new 9) (ep_new 4 5 0) = Inr (h', ep') \<and> ep_inv ep')"
proof -
  have o: "ph_own (ep_new 4 5 0) (ph_new 9)" by (simp add: ph_own_def ep_new_def ph_new_def)
  from poll_handle_kernel_agreement [OF ep_new_inv o] ep_new_inv o show ?thesis by blast
qed

subsection \<open>Tokens\<close>

lemma ev_token_bits:
  assumes "fd < 2 ^ 32"
  shows "ev_token fd sid AND 0xFFFFFFFF = of_nat fd" "drop_bit 32 (ev_token fd sid) = take_bit 32 (of_nat sid)"
proof -
  have fdw: "take_bit 32 (of_nat fd :: u64) = of_nat fd" using assms by (simp add: take_bit_of_nat take_bit_nat_eq_self)
  have m: "(0xFFFFFFFF :: u64) = mask 32" by (simp add: mask_eq_decr_exp)
  have "take_bit 32 (ev_token fd sid) = of_nat fd"
    using fdw by (simp add: ev_token_def take_bit_or take_bit_push_bit)
  then show "ev_token fd sid AND 0xFFFFFFFF = of_nat fd" by (simp add: m take_bit_eq_mask [symmetric])
  have "drop_bit 32 (of_nat fd :: u64) = 0"
    using fdw by (metis drop_bit_take_bit diff_self_eq_0 take_bit_0)
  then show "drop_bit 32 (ev_token fd sid) = take_bit 32 (of_nat sid)"
    by (simp add: ev_token_def drop_bit_or) (auto simp: bit_eq_iff bit_simps)
qed

text \<open>
  The descriptor and the subscription id that are packed into an event's 64 bits come back unchanged.
\<close>

theorem event_token_roundtrip:
  assumes "fd < 2 ^ 31" and "sid < 2 ^ 31"
  shows "ev_fd (mk_event fd sid e) = fd \<and> ev_sid (mk_event fd sid e) = sid"
proof -
  have fd: "fd < 2 ^ 32" using assms(1) by simp
  have "take_bit 32 (of_nat sid :: u64) = of_nat sid" using assms(2) by (simp add: take_bit_of_nat take_bit_nat_eq_self)
  with assms ev_token_bits [OF fd, of sid] show ?thesis
    by (simp add: ev_fd_def ev_sid_def mk_event_def unat_of_nat)
qed

theorem event_token_roundtrip_witness:
  "ev_fd (mk_event 9 3 EvRead) = 9 \<and> ev_sid (mk_event 9 3 EvRead) = 3"
  using event_token_roundtrip [of 9 3 EvRead] by simp


subsection \<open>Which slot an event reaches\<close>

lemma const_bits:
  "bit EvRead n \<longleftrightarrow> n = 0" "bit EvWrite n \<longleftrightarrow> n = 2" "bit EvError n \<longleftrightarrow> n = 3"
  "bit EpollIn n \<longleftrightarrow> n = 0" "bit EpollOut n \<longleftrightarrow> n = 2" "bit EpollErr n \<longleftrightarrow> n = 3" "bit EpollHup n \<longleftrightarrow> n = 4"
  "bit EvET n \<longleftrightarrow> n = 31" "bit EpollEt n \<longleftrightarrow> n = 31"
proof -
  have p: "bit (2 ^ k :: u32) n \<longleftrightarrow> n = k" if "k < 32" for k using that by (auto simp: bit_exp_iff)
  show "bit EvRead n \<longleftrightarrow> n = 0" "bit EpollIn n \<longleftrightarrow> n = 0" using p [of 0] by (simp_all add: EvRead_def EpollIn_def)
  show "bit EvWrite n \<longleftrightarrow> n = 2" "bit EpollOut n \<longleftrightarrow> n = 2" using p [of 2] by (simp_all add: EvWrite_def EpollOut_def)
  show "bit EvError n \<longleftrightarrow> n = 3" "bit EpollErr n \<longleftrightarrow> n = 3" using p [of 3] by (simp_all add: EvError_def EpollErr_def)
  show "bit EpollHup n \<longleftrightarrow> n = 4" using p [of 4] by (simp add: EpollHup_def)
  show "bit EvET n \<longleftrightarrow> n = 31" "bit EpollEt n \<longleftrightarrow> n = 31" using p [of 31] by (simp_all add: EvET_def EpollEt_def push_bit_eq_mult)
qed

lemma word32_eq_iff: "v = w \<longleftrightarrow> (\<forall>n < 32. bit v n = bit w n)" for v w :: u32
  using bit_word_eqI [of v w] by auto

lemma and_const_iff:
  "w AND EvRead \<noteq> 0 \<longleftrightarrow> bit w 0" "w AND EvWrite \<noteq> 0 \<longleftrightarrow> bit w 2" "w AND EvError \<noteq> 0 \<longleftrightarrow> bit w 3"
  "w AND EpollIn \<noteq> 0 \<longleftrightarrow> bit w 0" "w AND EpollOut \<noteq> 0 \<longleftrightarrow> bit w 2" "w AND (EpollErr OR EpollHup) \<noteq> 0 \<longleftrightarrow> bit w 3 \<or> bit w 4"
  by (auto simp: word32_eq_iff bit_simps const_bits intro: exI [of _ 3] exI [of _ 4])

lemma bit_to_epoll:
  "bit (to_epoll_events e) n \<longleftrightarrow> (n = 0 \<and> bit e 0) \<or> (n = 2 \<and> bit e 2) \<or> ((n = 3 \<or> n = 4) \<and> bit e 3) \<or> (n = 31 \<and> e AND EvET \<noteq> 0)"
  by (auto simp: to_epoll_events_def epoll_mode_def bit_simps const_bits and_const_iff)

lemma bit_from_epoll:
  "bit (from_epoll_events m) n \<longleftrightarrow> (n = 0 \<and> bit m 0) \<or> (n = 2 \<and> bit m 2) \<or> (n = 3 \<and> (bit m 3 \<or> bit m 4))"
  by (auto simp: from_epoll_events_def EvNone_def bit_simps const_bits and_const_iff)

text \<open>
  An event reaches a slot only while that slot is subscribed: the descriptor's table entry holds it, the
  event is not older than the subscription, and the events passed on are among those it asked for, or the
  error event.
\<close>

theorem dispatch_only_subscribed:
  assumes "ep_dispatch1 ev ep = Some (s, fd, e)"
  shows "fd = ev_fd ev \<and> fd \<noteq> ep_notify ep \<and> pf_slot (ep_data ep ! fd) = Some s \<and> pf_sid (ep_data ep ! fd) \<le> ev_sid ev \<and>
     e AND NOT (pf_events (ep_data ep ! fd) OR EvError) = 0"
proof -
  let ?e = "pf_events (ep_data ep ! fd)"
  from assms have *: "fd = ev_fd ev" "fd \<noteq> ep_notify ep" "pf_slot (ep_data ep ! fd) = Some s" "pf_sid (ep_data ep ! fd) \<le> ev_sid ev"
    "e = from_epoll_events (ee_events ev AND (to_epoll_events ?e OR EpollErr OR EpollHup))"
    by (auto simp: ep_dispatch1_def Let_def split: if_splits option.splits)
  have "e AND NOT (?e OR EvError) = 0"
    unfolding *(5) by (rule bit_word_eqI) (auto simp: bit_simps bit_from_epoll bit_to_epoll const_bits)
  with * show ?thesis by simp
qed

theorem dispatch_only_subscribed_witness:
  "let ep = (ep_new 4 5 0)\<lparr>ep_data := replicate 9 pf_none @ [\<lparr>pf_fd = 9, pf_sid = 1, pf_events = 1, pf_slot = Some 7\<rparr>]\<rparr> in
   ep_dispatch1 (mk_event 9 1 1) ep = Some (7, 9, 1) \<and> 1 AND NOT (pf_events (ep_data ep ! 9) OR EvError) = 0"
proof -
  let ?ep = "(ep_new 4 5 0)\<lparr>ep_data := replicate 9 pf_none @ [\<lparr>pf_fd = 9, pf_sid = 1, pf_events = 1, pf_slot = Some 7\<rparr>]\<rparr>"
  have f: "ev_fd (mk_event 9 1 1) = 9" "ev_sid (mk_event 9 1 1) = 1" by (simp_all add: ev_fd_def ev_sid_def mk_event_def ev_token_def)
  have "ep_dispatch1 (mk_event 9 1 1) ?ep = Some (7, 9, 1)"
    unfolding ep_dispatch1_def f
    by (simp add: Let_def nth_append ep_new_def mk_event_def to_epoll_events_def from_epoll_events_def epoll_mode_def
      EvRead_def EvWrite_def EvError_def EvET_def EpollIn_def EpollOut_def EpollErr_def EpollHup_def EpollEt_def EvNone_def)
  with dispatch_only_subscribed [OF this] show ?thesis unfolding Let_def by blast
qed

text \<open>
  With batching enabled no operation but a forced commit ever reaches the poller: \<open>commit\<close> only acts on a flag
  for pending changes that no operation sets.
\<close>

theorem batching_never_pends:
  assumes "ph_batch h" and "\<not> ph_pending h" and "op \<noteq> PCommit True"
  shows "\<exists>h'. ph_run op h ep = Inr (h', ep) \<and> ph_batch h' \<and> \<not> ph_pending h'"
  using assms
  by (cases op) (auto simp: ph_reset_def ph_del_def ph_del_slot_def ph_add_def ph_add_slot_def ph_mod_def ph_commit_def pf_reset_def Let_def)

theorem batching_never_pends_witness:
  "\<exists>h'. ph_run (PAddSlot EvRead (Some 1)) (snd (ph_batching True (ph_new 9))) (ep_new 4 5 0) = Inr (h', ep_new 4 5 0)"
  using batching_never_pends [of "snd (ph_batching True (ph_new 9))" "PAddSlot EvRead (Some 1)" "ep_new 4 5 0"]
  by (auto simp: ph_batching_def ph_new_def)


text \<open>
  The subscription id does not tell a descriptor's successive subscriptions apart. Every new handle counts from
  zero and the table entry forgets its id when it is cleared, so when a descriptor is unsubscribed and subscribed
  again between \<open>wait\<close> and \<open>dispatch\<close>, the new slot gets the event of the old subscription.
\<close>

theorem stale_event_reaches_new_subscription:
  "\<exists>h1 ep1 ev h1' ep2 h2 ep3.
     ph_add_slot EvRead (Some s1) (ph_new 9) (ep_new 4 5 0) = Inr (h1, ep1) \<and> ep_kernel ep1 9 = Some ev \<and>
     ph_reset h1 ep1 = Inr (h1', ep2) \<and> ep_kernel ep2 9 = None \<and>
     ph_add_slot EvRead (Some s2) (ph_new 9) ep2 = Inr (h2, ep3) \<and>
     ep_dispatch1 ev ep3 = Some (s2, 9, EvRead)"
proof -
  let ?ev = "mk_event 9 1 1"
  let ?k = "ep_kernel (ep_new 4 5 0)"
  let ?ep1 = "\<lparr>ep_kernel = ?k(9 := Some ?ev), ep_data = replicate 9 pf_none @ [\<lparr>pf_fd = 9, pf_sid = 1, pf_events = 1, pf_slot = Some s1\<rparr>],
     ep_tfd = 4, ep_notify = 5\<rparr>"
  let ?ep2 = "\<lparr>ep_kernel = ?k(9 := None), ep_data = replicate 9 pf_none @ [\<lparr>pf_fd = - 1, pf_sid = 0, pf_events = 0, pf_slot = None\<rparr>],
     ep_tfd = 4, ep_notify = 5\<rparr>"
  let ?ep3 = "\<lparr>ep_kernel = ?k(9 := Some ?ev), ep_data = replicate 9 pf_none @ [\<lparr>pf_fd = 9, pf_sid = 1, pf_events = 1, pf_slot = Some s2\<rparr>],
     ep_tfd = 4, ep_notify = 5\<rparr>"
  note S = ph_add_slot_def ph_reset_def ph_commit_def ep_ctl_def ph_new_def pf_empty_def next_sid_def ep_add_def ep_del_def pf_reset_def
    poll_fd.defs EvRead_def EvNone_def ev_plus_def Let_def nth_append list_update_append
  have k: "?k 9 = None" "ep_data (ep_new 4 5 0) = replicate 6 pf_none" "ep_tfd (ep_new 4 5 0) = 4" "ep_notify (ep_new 4 5 0) = 5"
    by (simp_all add: ep_new_def)
  have r: "resize_data 10 (replicate 6 pf_none) = replicate 9 pf_none @ [pf_none]"
    by (simp add: resize_data_def numeral_eq_Suc)
  have 1: "ph_add_slot EvRead (Some s1) (ph_new 9) (ep_new 4 5 0) = Inr (\<lparr>pf_fd = 9, pf_sid = 1, pf_events = 1, pf_slot = Some s1, ph_batch = False, ph_pending = False\<rparr>, ?ep1)"
    by (cases "ep_new 4 5 0") (use k r in \<open>simp add: S pf_none_def\<close>)
  have 2: "ph_reset \<lparr>pf_fd = 9, pf_sid = 1, pf_events = 1, pf_slot = Some s1, ph_batch = False, ph_pending = False\<rparr> ?ep1 =
      Inr (\<lparr>pf_fd = - 1, pf_sid = 0, pf_events = 0, pf_slot = None, ph_batch = False, ph_pending = False\<rparr>, ?ep2)"
    by (simp add: S)
  have 3: "ph_add_slot EvRead (Some s2) (ph_new 9) ?ep2 = Inr (\<lparr>pf_fd = 9, pf_sid = 1, pf_events = 1, pf_slot = Some s2, ph_batch = False, ph_pending = False\<rparr>, ?ep3)"
    by (simp add: S)
  have f: "ev_fd ?ev = 9" "ev_sid ?ev = 1" by (simp_all add: ev_fd_def ev_sid_def mk_event_def ev_token_def)
  have "ep_dispatch1 ?ev ?ep3 = Some (s2, 9, EvRead)"
    unfolding ep_dispatch1_def f
    by (simp add: Let_def nth_append mk_event_def to_epoll_events_def from_epoll_events_def epoll_mode_def
      EvRead_def EvWrite_def EvError_def EvET_def EpollIn_def EpollOut_def EpollErr_def EpollHup_def EpollEt_def EvNone_def)
  moreover have "ep_kernel ?ep1 9 = Some ?ev" "ep_kernel ?ep2 9 = None" by simp_all
  ultimately show ?thesis using 1 2 3 by blast
qed

end
