(* ===== verification/Reactors.thy ===== *)
theory Reactors
  imports Timers Polling
begin

text \<open>
  The model of the event loop: the timer part of \<open>Reactor\<close> (\<open>io/Reactor.hpp\<close>), one cycle of
  \<open>BasicMultiReactor\<close> with its descriptor arithmetic (\<open>io/MultiReactor.hpp\<close>), the hooks (\<open>io/Hook.hpp\<close>) and the
  deferred disposal of \<open>io/Disposer.hpp\<close>. The two timer queues of the reactor are two instances of the timer
  model. What \<open>wait\<close> returns and the clock are arguments.
\<close>

subsection \<open>Descriptors and pollers\<close>

definition CustomFDBits :: nat where "CustomFDBits = 12"

definition CustomFDMask :: u32 where
  "CustomFDMask = push_bit 12 1 - 1"

definition HighBitFDMask :: u32 where
  "HighBitFDMask = push_bit 31 1"

text \<open>
  \<open>poller(fd)\<close>: the position in the tuple of pollers, or \<open>None\<close> for the null pointer. The counter that the
  loop over the tuple decrements reaches zero at that position.
\<close>

definition mr_poller :: "nat \<Rightarrow> u32 \<Rightarrow> nat option" where
  "mr_poller impls fd = (let ix = ucast (fd AND NOT CustomFDMask) :: u64;
       rix = (if fd AND HighBitFDMask = 0 then of_nat impls - 1 else drop_bit CustomFDBits ix)
     in if unat rix < impls then Some (unat rix) else None)"

definition mr_socket :: "nat \<Rightarrow> u32 \<Rightarrow> u32" where
  "mr_socket index sock = (push_bit CustomFDBits (of_nat index) OR HighBitFDMask) + sock"

subsection \<open>When the next timer expires\<close>

definition next_expiry :: "timer_queue \<Rightarrow> timer_queue \<Rightarrow> int \<Rightarrow> int" where
  "next_expiry high low next =
     (let next1 = (if \<not> tq_empty high then min next (expiry high (hd (tq_heap high)) - 200000) else next)
      in if \<not> tq_empty low then min next1 (expiry low (hd (tq_heap low))) else next1)"

definition NoTimeout :: int where "NoTimeout = - 1"

definition MonoMax :: int where "MonoMax = 2 ^ 63 - 1"

text \<open>The deadline of \<open>poll\<close>: zero means that \<open>wait\<close> does not block.\<close>

definition wait_until :: "bool \<Rightarrow> timer_queue \<Rightarrow> timer_queue \<Rightarrow> int \<Rightarrow> int \<Rightarrow> int" where
  "wait_until hooks_empty high low now timeout =
     (if timeout \<noteq> 0 \<and> hooks_empty then
        (let next = next_expiry high low (if timeout = NoTimeout then MonoMax else now + timeout)
         in if next > now then next else 0)
      else 0)"

subsection \<open>Hooks\<close>

fun next_in :: "nat list \<Rightarrow> nat \<Rightarrow> nat option" where
  "next_in [] h = None"
| "next_in [x] h = None"
| "next_in (x # y # xs) h = (if x = h then Some y else next_in (y # xs) h)"

text \<open>
  \<open>dispatch(now, hooks)\<close>: the iterator moves on before each call. A hook may change the list; when it removes the
  hook that the iterator points to, the loop goes on from a dangling iterator (\<open>None\<close>).
\<close>

partial_function (option) hook_loop :: "(nat \<Rightarrow> nat list \<Rightarrow> nat list) \<Rightarrow> nat list \<Rightarrow> nat option \<Rightarrow> nat list \<Rightarrow> (nat list \<times> nat list) option" where
  "hook_loop cb l it calls = (case it of None \<Rightarrow> Some (calls, l)
     | Some h \<Rightarrow> (let nxt = next_in l h; l' = cb h l in
         if (case nxt of None \<Rightarrow> False | Some n \<Rightarrow> n \<notin> set l') then None
         else hook_loop cb l' nxt (calls @ [h])))"

definition hook_dispatch :: "(nat \<Rightarrow> nat list \<Rightarrow> nat list) \<Rightarrow> nat list \<Rightarrow> (nat list \<times> nat list) option" where
  "hook_dispatch cb l = hook_loop cb l (case l of [] \<Rightarrow> None | h # _ \<Rightarrow> Some h) []"

subsection \<open>One cycle\<close>

record reactor =
  rx_high :: timer_queue
  rx_low :: timer_queue
  rx_epoll :: epoll
  rx_hooks :: "nat list"

definition EINTR :: nat where "EINTR = 4"

text \<open>
  \<open>poll\<close> of the default reactor, with one poller: \<open>waited\<close> is the result of its \<open>wait\<close> (an error number or the
  ready events), \<open>now'\<close> the clock read after a blocking wait. The result is an error that is thrown, or the
  amount of work and the new state.
\<close>

definition rx_poll :: "callback \<Rightarrow> callback \<Rightarrow> io_callback \<Rightarrow> (nat \<Rightarrow> nat list \<Rightarrow> nat list) \<Rightarrow> int \<Rightarrow> int \<Rightarrow> int \<Rightarrow>
    nat + epoll_event list \<Rightarrow> reactor \<Rightarrow> (nat + (nat \<times> reactor)) option" where
  "rx_poll hcb lcb iocb hookcb now now' timeout waited r =
     (let wu = wait_until (rx_hooks r = []) (rx_high r) (rx_low r) now timeout;
          cycle = (case waited of
            Inl e \<Rightarrow> if e \<noteq> EINTR then Some (Inl e) else Some (Inr (0, r))
          | Inr evs \<Rightarrow>
              (let t = (if wu \<noteq> 0 then now' else now) in
               case tq_dispatch hcb t (rx_high r) of None \<Rightarrow> None | Some (n1, high) \<Rightarrow>
               (case ep_dispatch iocb evs (rx_epoll r) of (calls, ep) \<Rightarrow>
                (case (if evs = [] then tq_dispatch lcb t (rx_low r) else Some (0, rx_low r)) of None \<Rightarrow> None
                 | Some (n2, low) \<Rightarrow> Some (Inr (n1 + length calls + n2, r\<lparr>rx_high := high, rx_low := low, rx_epoll := ep\<rparr>))))))
      in case cycle of None \<Rightarrow> None | Some (Inl e) \<Rightarrow> Some (Inl e)
         | Some (Inr (n, r1)) \<Rightarrow> (case hook_dispatch hookcb (rx_hooks r1) of None \<Rightarrow> None
             | Some (_, hooks) \<Rightarrow> Some (Inr (n, r1\<lparr>rx_hooks := hooks\<rparr>))))"

subsection \<open>Deferred disposal\<close>

record disposer =
  dp_locks :: nat
  dp_dispose :: bool
  dp_calls :: nat

definition dp_new :: disposer where
  "dp_new = \<lparr>dp_locks = 0, dp_dispose = False, dp_calls = 0\<rparr>"

text \<open>\<open>dp_calls\<close> counts the calls of \<open>dispose_now\<close>.\<close>

definition dp_dispose_op :: "disposer \<Rightarrow> disposer" where
  "dp_dispose_op d = (if dp_locks d = 0 then d\<lparr>dp_locks := 1, dp_calls := dp_calls d + 1\<rparr> else d\<lparr>dp_dispose := True\<rparr>)"

definition dp_lock :: "disposer \<Rightarrow> disposer" where
  "dp_lock d = d\<lparr>dp_locks := dp_locks d + 1\<rparr>"

definition dp_unlock :: "disposer \<Rightarrow> disposer" where
  "dp_unlock d = (let d1 = d\<lparr>dp_locks := dp_locks d - 1\<rparr> in
     if dp_locks d1 = 0 \<and> dp_dispose d1 then d1\<lparr>dp_locks := 1, dp_calls := dp_calls d1 + 1\<rparr> else d1)"

text \<open>Any use of a disposer: \<open>held\<close> is the number of lock objects alive, \<open>asked\<close> whether \<open>dispose\<close> was called.\<close>

inductive dp_step :: "nat \<times> bool \<times> disposer \<Rightarrow> nat \<times> bool \<times> disposer \<Rightarrow> bool" where
  ask: "dp_step (held, asked, d) (held, True, dp_dispose_op d)"
| lock: "dp_step (held, asked, d) (Suc held, asked, dp_lock d)"
| unlock: "dp_step (Suc held, asked, d) (held, asked, dp_unlock d)"

inductive_cases dp_step_cases: "dp_step s s'"

definition dp_inv :: "nat \<times> bool \<times> disposer \<Rightarrow> bool" where
  "dp_inv s \<longleftrightarrow> (case s of (held, asked, d) \<Rightarrow> dp_calls d \<le> 1 \<and> dp_locks d = held + dp_calls d \<and>
     (dp_dispose d \<longrightarrow> asked) \<and> (dp_calls d = 1 \<longrightarrow> asked) \<and> (asked \<and> dp_calls d = 0 \<longrightarrow> dp_dispose d \<and> 0 < held))"

lemma dp_step_inv [inv_intros]: "dp_step s s' \<Longrightarrow> dp_inv s \<Longrightarrow> dp_inv s'"
  by (erule dp_step_cases) (auto simp: dp_inv_def dp_dispose_op_def dp_lock_def dp_unlock_def Let_def)

lemma dp_reach_inv: "dp_step\<^sup>*\<^sup>* s s' \<Longrightarrow> dp_inv s \<Longrightarrow> dp_inv s'"
  by (induction rule: rtranclp_induct) (auto intro: dp_step_inv)


subsection \<open>Properties\<close>

text \<open>
  \<open>dispose_now\<close> is called at most once, only after \<open>dispose\<close> was asked for, never while a lock is held, and
  it has been called as soon as \<open>dispose\<close> was asked for and no lock is held.
\<close>

theorem disposer_once:
  assumes "dp_step\<^sup>*\<^sup>* (0, False, dp_new) (held, asked, d)"
  shows "dp_calls d \<le> 1 \<and> (dp_calls d = 1 \<longrightarrow> asked) \<and> (asked \<and> held = 0 \<longrightarrow> dp_calls d = 1) \<and>
     (\<forall>held' asked' d'. dp_step (held, asked, d) (held', asked', d') \<and> dp_calls d < dp_calls d' \<longrightarrow> held' = 0)"
proof -
  have "dp_inv (0, False, dp_new)" by (simp add: dp_inv_def dp_new_def)
  from dp_reach_inv [OF assms this] have inv: "dp_inv (held, asked, d)" .
  have "held' = 0" if "dp_step (held, asked, d) (held', asked', d')" "dp_calls d < dp_calls d'" for held' asked' d'
    using that(1)
  proof cases
    case ask
    with that(2) inv show ?thesis by (simp add: dp_inv_def dp_dispose_op_def split: if_splits)
  next
    case lock
    with that(2) show ?thesis by (simp add: dp_lock_def)
  next
    case unlock
    with that(2) inv show ?thesis by (simp add: dp_inv_def dp_unlock_def Let_def split: if_splits)
  qed
  moreover from inv have "dp_calls d \<le> 1" "dp_calls d = 1 \<longrightarrow> asked" by (auto simp: dp_inv_def)
  moreover have "asked \<and> held = 0 \<longrightarrow> dp_calls d = 1" using inv by (cases "dp_calls d") (auto simp: dp_inv_def)
  ultimately show ?thesis by blast
qed

theorem disposer_once_witness:
  "dp_step\<^sup>*\<^sup>* (0, False, dp_new) (0, True, dp_unlock (dp_dispose_op (dp_lock dp_new))) \<and>
   dp_calls (dp_unlock (dp_dispose_op (dp_lock dp_new))) = 1"
proof -
  have r: "dp_step\<^sup>*\<^sup>* (0, False, dp_new) (0, True, dp_unlock (dp_dispose_op (dp_lock dp_new)))"
  proof -
    have "dp_step (0, False, dp_new) (Suc 0, False, dp_lock dp_new)" by (rule dp_step.lock)
    moreover have "dp_step (Suc 0, False, dp_lock dp_new) (Suc 0, True, dp_dispose_op (dp_lock dp_new))" by (rule dp_step.ask)
    moreover have "dp_step (Suc 0, True, dp_dispose_op (dp_lock dp_new)) (0, True, dp_unlock (dp_dispose_op (dp_lock dp_new)))"
      by (rule dp_step.unlock)
    ultimately show ?thesis by (meson rtranclp.rtrancl_into_rtrancl rtranclp.rtrancl_refl)
  qed
  with disposer_once [OF r] show ?thesis by blast
qed

text \<open>
  C38: The reactor does not oversleep. When a cycle is going to block until a deadline, the deadline is in the
  future, not beyond the timeout, not beyond any timer of the low-priority queue, and at least 200 microseconds
  ahead of any timer of the high-priority queue.
\<close>

theorem wait_until_respects_timers:
  assumes "tq_reach high" and "tq_reach low" and "wait_until hooks_empty high low now timeout = wu" and "wu \<noteq> 0"
  shows "now < wu \<and> (\<forall>a \<in> set (tq_heap high). wu \<le> expiry high a - 200000) \<and>
     (\<forall>a \<in> set (tq_heap low). wu \<le> expiry low a) \<and> (timeout \<noteq> NoTimeout \<longrightarrow> wu \<le> now + timeout)"
proof -
  have front: "expiry q (hd (tq_heap q)) \<le> expiry q a" if "tq_reach q" "a \<in> set (tq_heap q)" for q a
    using tq_reach_inv [OF that(1)] that(2) is_heap_min by (auto simp: tq_inv_def tq_core_def)
  have e: "tq_empty q \<longleftrightarrow> tq_heap q = []" if "tq_reach q" for q using that by (rule tq_empty_iff)
  from assms(3,4) have w: "now < wu" "wu = next_expiry high low (if timeout = NoTimeout then MonoMax else now + timeout)"
    by (auto simp: wait_until_def Let_def split: if_splits)
  have "wu \<le> expiry high a - 200000" if "a \<in> set (tq_heap high)" for a
    using w(2) that front [OF assms(1) that] e [OF assms(1)] by (auto simp: next_expiry_def Let_def split: if_splits)
  moreover have "wu \<le> expiry low a" if "a \<in> set (tq_heap low)" for a
    using w(2) that front [OF assms(2) that] e [OF assms(2)] by (auto simp: next_expiry_def Let_def split: if_splits)
  moreover have "wu \<le> now + timeout" if "timeout \<noteq> NoTimeout"
    using w(2) that by (auto simp: next_expiry_def Let_def split: if_splits)
  ultimately show ?thesis using w(1) by blast
qed

theorem wait_until_respects_timers_witness:
  "wait_until True tq_new (timer_act1 (TInsert 50 0 1) tq_new) 10 100 = 50 \<and>
   tq_heap (timer_act1 (TInsert 50 0 1) tq_new) = [0] \<and> 50 \<le> expiry (timer_act1 (TInsert 50 0 1) tq_new) 0"
proof -
  let ?low = "timer_act1 (TInsert 50 0 1) tq_new"
  have r: "tq_reach tq_new" "tq_reach ?low" by (intro tq_reach.intros)+
  have h: "tq_heap ?low = [0]" "expiry ?low 0 = 50"
    by (simp_all add: tq_insert_def tq_alloc_def pool_alloc_def tq_new_def heap_push_def add_ref_def tq_upd_def push_heap_def sift_up.simps
      expiry_def Let_def)
  have "tq_heap tq_new = []" by (simp add: tq_new_def)
  then have w: "wait_until True tq_new ?low 10 100 = 50"
    using h tq_empty_iff [OF r(1)] tq_empty_iff [OF r(2)]
    by (simp add: wait_until_def next_expiry_def NoTimeout_def del: timer_act1.simps)
  have "(50::int) \<noteq> 0" by simp
  from wait_until_respects_timers [OF r w this] have "\<forall>a \<in> set (tq_heap ?low). 50 \<le> expiry ?low a" by blast
  then have "50 \<le> expiry ?low 0" unfolding h(1) by simp
  with w h(1) show ?thesis by blast
qed

text \<open>
  After a successful cycle no timer of the high-priority queue is due at the time of the cycle, whatever the
  callbacks did; and the low-priority queue is only touched in a cycle in which no descriptor was ready.
\<close>

theorem poll_dispatches_timers:
  assumes "tq_reach (rx_high r)" and "rx_poll hcb lcb iocb hookcb now now' timeout (Inr evs) r = Some (Inr (n, r'))"
  shows "(\<forall>a \<in> set (tq_heap (rx_high r')).
       (if wait_until (rx_hooks r = []) (rx_high r) (rx_low r) now timeout \<noteq> 0 then now' else now) < expiry (rx_high r') a) \<and>
     (evs \<noteq> [] \<longrightarrow> rx_low r' = rx_low r)"
proof -
  let ?t = "if wait_until (rx_hooks r = []) (rx_high r) (rx_low r) now timeout \<noteq> 0 then now' else now"
  from assms(2) obtain n1 high where d: "tq_dispatch hcb ?t (rx_high r) = Some (n1, high)" and hi: "rx_high r' = high"
    and lo: "evs \<noteq> [] \<longrightarrow> rx_low r' = rx_low r"
    unfolding rx_poll_def by (auto simp: Let_def split: option.splits sum.splits prod.splits if_splits)
  from tq_reach_inv [OF assms(1)] tq_dispatch_inv [OF _ d] have "\<forall>a \<in> set (tq_heap high). ?t < expiry high a" by blast
  with hi lo show ?thesis by blast
qed

theorem poll_dispatches_timers_witness:
  "let r = \<lparr>rx_high = timer_act1 (TInsert 5 0 1) tq_new, rx_low = tq_new, rx_epoll = ep_new 4 5 0, rx_hooks = []\<rparr> in
   \<exists>n r'. rx_poll (\<lambda>slot now a s. []) (\<lambda>slot now a s. []) (\<lambda>s fd e ep. []) (\<lambda>h l. l) 3 3 0 (Inr []) r = Some (Inr (n, r')) \<and>
     (\<forall>a \<in> set (tq_heap (rx_high r')). 3 < expiry (rx_high r') a)"
proof -
  define s where "s = timer_act1 (TInsert 5 0 1) tq_new"
  define r where "r = \<lparr>rx_high = s, rx_low = tq_new, rx_epoll = ep_new 4 5 0, rx_hooks = []\<rparr>"
  have f: "rx_high r = s" "rx_low r = tq_new" "rx_epoll r = ep_new 4 5 0" "rx_hooks r = []" by (simp_all add: r_def)
  have reach: "tq_reach (rx_high r)" unfolding f s_def by (intro tq_reach.intros)
  have h: "tq_heap s = [0]" "pending s 0" "expiry s 0 = 5" "tq_cancelled s = 0"
    by (simp_all add: s_def tq_insert_def tq_alloc_def pool_alloc_def tq_new_def heap_push_def add_ref_def tq_upd_def push_heap_def sift_up.simps
      pending_def expiry_def Let_def)
  then have d: "tq_dispatch (\<lambda>slot now a s. []) 3 s = Some (0, s)"
    by (simp add: tq_dispatch_def dispatch_loop.simps tq_gc_def)
  have "tq_heap tq_new = []" "tq_cancelled tq_new = 0" by (simp_all add: tq_new_def)
  then have d': "tq_dispatch (\<lambda>slot now a s. []) 3 tq_new = Some (0, tq_new)"
    by (simp add: tq_dispatch_def dispatch_loop.simps tq_gc_def)
  have wu: "wait_until (rx_hooks r = []) (rx_high r) (rx_low r) 3 0 = 0" by (simp add: wait_until_def)
  have hk: "hook_dispatch (\<lambda>h l. l) [] = Some ([], [])" by (simp add: hook_dispatch_def hook_loop.simps)
  have "r\<lparr>rx_high := s, rx_low := tq_new, rx_epoll := ep_new 4 5 0, rx_hooks := []\<rparr> = r" by (simp add: r_def)
  then have p: "rx_poll (\<lambda>slot now a s. []) (\<lambda>slot now a s. []) (\<lambda>s fd e ep. []) (\<lambda>h l. l) 3 3 0 (Inr []) r = Some (Inr (0, r))"
    unfolding rx_poll_def wu by (simp add: f d d' hk)
  from poll_dispatches_timers [OF reach p] have "\<forall>a \<in> set (tq_heap (rx_high r)). 3 < expiry (rx_high r) a" unfolding wu by simp
  with p have "\<exists>n r'. rx_poll (\<lambda>slot now a s. []) (\<lambda>slot now a s. []) (\<lambda>s fd e ep. []) (\<lambda>h l. l) 3 3 0 (Inr []) r = Some (Inr (n, r')) \<and>
     (\<forall>a \<in> set (tq_heap (rx_high r')). 3 < expiry (rx_high r') a)" by blast
  then show ?thesis unfolding Let_def r_def s_def .
qed

lemma bit_HighBit: "bit HighBitFDMask n \<longleftrightarrow> n = 31"
proof -
  have "bit (2 ^ 31 :: u32) n \<longleftrightarrow> n = 31" by (simp only: bit_exp_iff) auto
  then show ?thesis by (simp add: HighBitFDMask_def push_bit_eq_mult)
qed

lemma bit_CustomMask: "bit CustomFDMask n \<longleftrightarrow> n < 12"
proof -
  have e: "CustomFDMask = mask 12" by (simp add: CustomFDMask_def mask_eq_exp_minus_1)
  show ?thesis unfolding e bit_mask_iff by auto
qed

text \<open>
  Descriptors and pollers: a descriptor of the operating system goes to the last poller, but a descriptor that
  \<open>socket<T>()\<close> made goes to none, whatever the poller: \<open>poller\<close> keeps the marker bit in the position it computes.
\<close>

theorem custom_descriptor_has_no_poller:
  assumes "0 < impls" and "impls \<le> 2 ^ 19"
  shows "(\<not> bit fd 31 \<longrightarrow> mr_poller impls fd = Some (impls - 1)) \<and> (bit fd 31 \<longrightarrow> mr_poller impls fd = None)"
proof -
  have hb: "fd AND HighBitFDMask = 0 \<longleftrightarrow> \<not> bit fd 31"
    by (auto simp: word32_eq_iff bit_simps bit_HighBit dest: spec [of _ 31])
  have "mr_poller impls fd = Some (impls - 1)" if "\<not> bit fd 31"
  proof -
    have "unat (of_nat impls - 1 :: u64) = impls - 1"
      using assms by (subst unat_minus_one) (auto simp: unat_of_nat of_nat_eq_0_iff word_of_nat_eq_0_iff nat_dvd_not_less)
    with that assms hb show ?thesis by (simp add: mr_poller_def)
  qed
  moreover have "mr_poller impls fd = None" if b: "bit fd 31"
  proof -
    let ?r = "drop_bit CustomFDBits (ucast (fd AND NOT CustomFDMask) :: u64)"
    have "bit ?r 19" using b by (simp add: CustomFDBits_def bit_simps bit_CustomMask)
    then have "odd (unat ?r div 2 ^ 19)" using bit_word_nat [of ?r 19] by blast
    then have "2 ^ 19 \<le> unat ?r" by (rule odd_div_pow2_ge)
    with assms hb b show ?thesis by (simp add: mr_poller_def Let_def)
  qed
  ultimately show ?thesis by blast
qed

theorem custom_descriptor_has_no_poller_witness:
  "bit (mr_socket 0 7) 31 \<and> mr_poller 2 (mr_socket 0 7) = None \<and> mr_poller 2 9 = Some 1"
proof -
  have "bit (mr_socket 0 7) 31" by (simp add: mr_socket_def HighBitFDMask_def CustomFDBits_def)
  with custom_descriptor_has_no_poller [of 2 "mr_socket 0 7"] custom_descriptor_has_no_poller [of 2 9] show ?thesis by simp
qed


lemma next_in_split:
  "h \<notin> set pre \<Longrightarrow> next_in (pre @ h # rest) h = (case rest of [] \<Rightarrow> None | n # _ \<Rightarrow> Some n)"
proof (induction pre)
  case Nil
  then show ?case by (cases rest) auto
next
  case (Cons x pre)
  then show ?case by (cases "pre @ h # rest") (auto split: list.splits)
qed

lemma hook_loop_all:
  assumes "\<And>h l. cb h l = l \<or> cb h l = remove1 h l" and "distinct (pre @ h # rest)"
  shows "\<exists>l'. hook_loop cb (pre @ h # rest) (Some h) calls = Some (calls @ h # rest, l')"
  using assms(2)
proof (induction rest arbitrary: pre h calls)
  case Nil
  then show ?case by (subst hook_loop.simps) (simp add: next_in_split Let_def hook_loop.simps)
next
  case (Cons n rest)
  from assms(1) [of h "pre @ h # n # rest"] obtain pre' where p: "cb h (pre @ h # n # rest) = pre' @ n # rest" "distinct (pre' @ n # rest)"
  proof
    assume "cb h (pre @ h # n # rest) = pre @ h # n # rest"
    with Cons.prems show thesis by (intro that [of "pre @ [h]"]) auto
  next
    assume "cb h (pre @ h # n # rest) = remove1 h (pre @ h # n # rest)"
    with Cons.prems show thesis by (intro that [of pre]) (auto simp: remove1_append)
  qed
  from Cons.IH [OF p(2), of "calls @ [h]"] p Cons.prems show ?case
    by (subst hook_loop.simps) (simp add: next_in_split Let_def)
qed

text \<open>
  Hooks that do nothing to the list but unhook themselves are all called, once each and in order.
\<close>

theorem hooks_all_called:
  assumes "\<And>h l. cb h l = l \<or> cb h l = remove1 h l" and "distinct l"
  shows "\<exists>l'. hook_dispatch cb l = Some (l, l')"
proof (cases l)
  case Nil
  then show ?thesis by (simp add: hook_dispatch_def hook_loop.simps)
next
  case (Cons h rest)
  from hook_loop_all [where cb = cb, OF assms(1), of "[]" h rest "[]"] assms(2) Cons show ?thesis by (simp add: hook_dispatch_def)
qed

theorem hooks_all_called_witness: "\<exists>l'. hook_dispatch (\<lambda>h l. if h = 2 then remove1 h l else l) [1, 2, 3] = Some ([1, 2, 3], l')"
  by (rule hooks_all_called) auto

end
