(* ===== verification/Buffers.thy ===== *)
theory Buffers
  imports Queues
begin

text \<open>
  The growing read/write buffer of \<open>io/Buffer.hpp\<close> and \<open>io/Buffer.cpp\<close>, which implements the interface
  \<open>byte_stream\<close>, and the length-prefixed frames of \<open>net/Frame.hpp\<close> that are parsed out of it.
\<close>

subsection \<open>Buffer\<close>

record buffer =
  bf_rpos :: nat
  bf_wpos :: nat
  bf_buf :: "u8 list"

definition bf_new :: buffer where
  "bf_new = \<lparr>bf_rpos = 0, bf_wpos = 0, bf_buf = []\<rparr>"

definition bf_size :: "buffer \<Rightarrow> nat" where
  "bf_size b = bf_wpos b - bf_rpos b"

definition bf_empty :: "buffer \<Rightarrow> bool" where
  "bf_empty b \<longleftrightarrow> bf_size b = 0"

text \<open>\<open>buffer()\<close>, \<open>str()\<close> and the variants with a limit: the bytes at the read position.\<close>

definition bf_str :: "buffer \<Rightarrow> u8 list" where
  "bf_str b = take (bf_size b) (drop (bf_rpos b) (bf_buf b))"

definition bf_str_limit :: "nat \<Rightarrow> buffer \<Rightarrow> u8 list" where
  "bf_str_limit limit b = take (min limit (bf_size b)) (drop (bf_rpos b) (bf_buf b))"

definition bf_clear :: "buffer \<Rightarrow> buffer" where
  "bf_clear b = b\<lparr>bf_rpos := 0, bf_wpos := 0, bf_buf := []\<rparr>"

definition bf_commit :: "nat \<Rightarrow> buffer \<Rightarrow> buffer" where
  "bf_commit count b = b\<lparr>bf_wpos := bf_wpos b + count\<rparr>"

definition bf_available :: "buffer \<Rightarrow> nat" where
  "bf_available b = length (bf_buf b) - bf_wpos b"

definition ShrinkThreshold :: nat where "ShrinkThreshold = 1024"

text \<open>\<open>memmove\<close> of the unread bytes to the front of the storage.\<close>

definition bf_consume :: "nat \<Rightarrow> buffer \<Rightarrow> buffer" where
  "bf_consume count b = (if count = 0 then b else
     let b1 = b\<lparr>bf_rpos := bf_rpos b + count\<rparr> in
     if bf_rpos b1 \<ge> ShrinkThreshold \<and> bf_rpos b1 \<ge> length (bf_buf b1) div 2 then
       (let n = bf_size b1;
            buf = (if n > 0 then bf_str b1 @ drop n (bf_buf b1) else bf_buf b1)
        in b1\<lparr>bf_buf := buf, bf_rpos := 0, bf_wpos := n\<rparr>)
     else b1)"

text \<open>\<open>prepare(size)\<close>: the size of the writable region at the write position; \<open>resize\<close> appends zero bytes.\<close>

definition bf_prepare :: "nat \<Rightarrow> buffer \<Rightarrow> nat \<times> buffer" where
  "bf_prepare sz b = (let avail = bf_available b in
     if sz > avail then (sz, b\<lparr>bf_buf := bf_buf b @ replicate (sz - avail) 0\<rparr>) else (avail, b))"

text \<open>The owner of a prepared region stores bytes at its start.\<close>

definition bf_fill :: "u8 list \<Rightarrow> buffer \<Rightarrow> buffer" where
  "bf_fill bs b = b\<lparr>bf_buf := take (bf_wpos b) (bf_buf b) @ bs @ drop (bf_wpos b + length bs) (bf_buf b)\<rparr>"

definition bf_advance :: "'a list \<Rightarrow> nat \<Rightarrow> 'a list" where
  "bf_advance buf n = drop (min n (length buf)) buf"

definition bf_inv :: "buffer \<Rightarrow> bool" where
  "bf_inv b \<longleftrightarrow> bf_rpos b \<le> bf_wpos b \<and> bf_wpos b \<le> length (bf_buf b)"

text \<open>A producer (prepare, fill, commit) and a consumer (copy what is there up to a limit, consume it).\<close>

definition bf_put :: "u8 list \<Rightarrow> buffer \<Rightarrow> bool \<times> buffer" where
  "bf_put bs b = (True, bf_commit (length bs) (bf_fill bs (snd (bf_prepare (length bs) b))))"

definition bf_get :: "nat \<Rightarrow> buffer \<Rightarrow> u8 list \<times> buffer" where
  "bf_get n b = (bf_str_limit n b, bf_consume (min n (bf_size b)) b)"

lemma length_bf_str: "bf_inv b \<Longrightarrow> length (bf_str b) = bf_size b"
  by (auto simp: bf_str_def bf_inv_def bf_size_def min_def)

lemma bf_prepare_ok:
  assumes "bf_inv b" and "bf_prepare n b = (avail, b')"
  shows "bf_inv b' \<and> n \<le> avail \<and> bf_wpos b' + avail = length (bf_buf b') \<and> bf_str b' = bf_str b \<and>
    bf_rpos b' = bf_rpos b \<and> bf_wpos b' = bf_wpos b"
  using assms by (auto simp: bf_prepare_def bf_inv_def bf_available_def bf_str_def bf_size_def Let_def split: if_splits)

lemma bf_put_law:
  assumes inv: "bf_inv b" and put: "bf_put bs b = (ok, b')"
  shows "bf_inv b' \<and> bf_str b' = (if ok then bf_str b @ bs else bf_str b)"
proof -
  obtain avail b1 where p: "bf_prepare (length bs) b = (avail, b1)" by fastforce
  note P = bf_prepare_ok [OF inv p]
  let ?r = "bf_rpos b1" and ?w = "bf_wpos b1" and ?buf = "bf_buf b1"
  have b': "ok" "b' = b1\<lparr>bf_buf := take ?w ?buf @ bs @ drop (?w + length bs) ?buf, bf_wpos := ?w + length bs\<rparr>"
    using put p by (auto simp: bf_put_def bf_commit_def bf_fill_def)
  have w: "?r \<le> ?w" "?w + length bs \<le> length ?buf" using P by (auto simp: bf_inv_def)
  have "drop ?r (take ?w ?buf @ bs @ drop (?w + length bs) ?buf) =
      take (?w - ?r) (drop ?r ?buf) @ bs @ drop (?w + length bs) ?buf"
    using w by (simp add: drop_take)
  moreover have "length (take (?w - ?r) (drop ?r ?buf)) = ?w - ?r" using w by (auto simp: min_def)
  moreover have "?w + length bs - ?r = (?w - ?r) + length bs" using w by simp
  ultimately have "bf_str b' = take (?w - ?r) (drop ?r ?buf) @ bs"
    by (simp add: b' bf_str_def bf_size_def)
  also have "take (?w - ?r) (drop ?r ?buf) = bf_str b1" by (simp add: bf_str_def bf_size_def)
  also have "bf_str b1 = bf_str b" using P by simp
  finally show ?thesis using b' w by (simp add: bf_inv_def)
qed

lemma bf_consume_ok:
  assumes inv: "bf_inv b" and n: "n \<le> bf_size b"
  shows "bf_inv (bf_consume n b) \<and> bf_str (bf_consume n b) = drop n (bf_str b)"
proof (cases "n = 0")
  case True
  with inv show ?thesis by (simp add: bf_consume_def)
next
  case False
  let ?b1 = "b\<lparr>bf_rpos := bf_rpos b + n\<rparr>"
  have inv1: "bf_inv ?b1" using inv n by (auto simp: bf_inv_def bf_size_def)
  have str1: "bf_str ?b1 = drop n (bf_str b)"
    using inv n by (simp add: bf_str_def bf_size_def bf_inv_def drop_take ac_simps)
  show ?thesis
  proof (cases "bf_rpos ?b1 \<ge> ShrinkThreshold \<and> bf_rpos ?b1 \<ge> length (bf_buf ?b1) div 2")
    case True
    let ?n = "bf_size ?b1"
    let ?buf = "if ?n > 0 then bf_str ?b1 @ drop ?n (bf_buf ?b1) else bf_buf ?b1"
    have c: "bf_consume n b = ?b1\<lparr>bf_buf := ?buf, bf_rpos := 0, bf_wpos := ?n\<rparr>"
      using False True by (simp add: bf_consume_def Let_def)
    have l: "length (bf_str ?b1) = ?n" by (rule length_bf_str [OF inv1])
    have "take ?n ?buf = bf_str ?b1" using l by (cases "?n = 0") auto
    moreover have "?n \<le> length ?buf" using l by auto
    ultimately show ?thesis unfolding c str1 [symmetric] by (simp add: bf_inv_def bf_str_def bf_size_def)
  next
    case F: False
    with False have "bf_consume n b = ?b1" by (auto simp: bf_consume_def Let_def)
    with inv1 str1 show ?thesis by simp
  qed
qed

lemma bf_get_law:
  assumes inv: "bf_inv b" and get: "bf_get n b = (bs, b')"
  shows "bf_inv b' \<and> bs = take n (bf_str b) \<and> bf_str b' = drop n (bf_str b)"
proof -
  let ?m = "min n (bf_size b)"
  from get have bs: "bs = bf_str_limit n b" "b' = bf_consume ?m b" by (auto simp: bf_get_def)
  have "bf_str_limit n b = take n (bf_str b)" by (simp add: bf_str_limit_def bf_str_def)
  moreover have "drop ?m (bf_str b) = drop n (bf_str b)" using length_bf_str [OF inv] by (simp add: min_def)
  ultimately show ?thesis using bf_consume_ok [OF inv, of ?m] bs by simp
qed

interpretation bfs: byte_stream bf_put bf_get bf_str bf_inv
  by unfold_locales (use bf_put_law bf_get_law in blast)+

lemma bf_new_ok [simp]: "bf_inv bf_new" "bf_str bf_new = []"
  by (simp_all add: bf_inv_def bf_new_def bf_str_def)

text \<open>
  \<open>Buffer\<close> is an unbounded byte stream: for any sequence of writes (prepare, store, commit) and reads (copy,
  consume), the bytes written are the bytes read followed by those still readable, whatever the growing and
  shrinking of the storage does.
\<close>

theorem buffer_stream:
  "\<exists>acc out b. srun bf_put bf_get ops bf_new = (acc, out, b) \<and> acc = out @ bf_str b \<and>
     bf_rpos b \<le> bf_wpos b \<and> bf_wpos b \<le> length (bf_buf b)"
proof -
  obtain acc out b where r: "srun bf_put bf_get ops bf_new = (acc, out, b)" by (metis prod_cases3)
  from bfs.run_stream [OF bf_new_ok(1) r] r show ?thesis by (simp add: bf_inv_def)
qed

subsection \<open>Frames\<close>

definition get_length :: "u8 list \<Rightarrow> u32" where
  "get_length buf = push_bit 24 (ucast (buf ! 3)) OR push_bit 16 (ucast (buf ! 2)) OR push_bit 8 (ucast (buf ! 1)) OR ucast (buf ! 0)"

definition put_length :: "u32 \<Rightarrow> u8 list" where
  "put_length len = [ucast len, ucast (drop_bit 8 len), ucast (drop_bit 16 len), ucast (drop_bit 24 len)]"

function parse_frame :: "u8 list \<Rightarrow> u8 list list \<times> nat" where
  "parse_frame buf = (if length buf < 4 then ([], 0)
     else let total = 4 + unat (get_length buf) in
       if length buf < total then ([], 0)
       else (case parse_frame (bf_advance buf total) of (msgs, consumed) \<Rightarrow>
         (take (total - 4) (drop 4 buf) # msgs, total + consumed)))"
  by pat_completeness auto
termination
  by (relation "measure length") (auto simp: bf_advance_def)

declare parse_frame.simps [simp del]

definition frame :: "u8 list \<Rightarrow> u8 list" where
  "frame msg = put_length (of_nat (length msg)) @ msg"

lemma length_put_length [simp]: "length (put_length n) = 4"
  by (simp add: put_length_def)

lemma get_length_append: "4 \<le> length a \<Longrightarrow> get_length (a @ b) = get_length a"
  by (subgoal_tac "0 < length a \<and> 1 < length a \<and> 2 < length a \<and> 3 < length a")
     (simp only: get_length_def nth_append if_True, linarith)

lemma get_put_length: "get_length (put_length n @ rest) = n"
proof -
  have "get_length (put_length n) = n"
    by (rule bit_word_eqI)
       (auto simp: get_length_def put_length_def bit_simps nth_Cons_numeral intro: FalseE)
  then show ?thesis by (simp add: get_length_append)
qed

lemma length_frame: "length (frame msg) = 4 + length msg"
  by (simp add: frame_def)

lemma parse_frame_short: "length buf < 4 \<Longrightarrow> parse_frame buf = ([], 0)"
  by (simp add: parse_frame.simps)

lemma parse_frame_incomplete: "length buf < 4 + unat (get_length buf) \<Longrightarrow> parse_frame buf = ([], 0)"
  by (simp add: parse_frame.simps [of buf])

lemma parse_frame_Cons:
  assumes "length msg < 2 ^ 32"
  shows "parse_frame (frame msg @ rest) = (msg # fst (parse_frame rest), 4 + length msg + snd (parse_frame rest))"
proof -
  have n: "unat (of_nat (length msg) :: u32) = length msg" using assms by (simp add: unat_of_nat)
  then have g: "get_length (frame msg @ rest) = of_nat (length msg)" by (simp add: frame_def get_put_length)
  have "parse_frame (frame msg @ rest) =
      (case parse_frame rest of (msgs, consumed) \<Rightarrow> (msg # msgs, 4 + length msg + consumed))"
    by (subst parse_frame.simps) (simp add: g n length_frame bf_advance_def, simp add: frame_def)
  then show ?thesis by (simp split: prod.splits)
qed

lemma parse_frame_concat:
  "\<forall>m \<in> set msgs. length m < 2 ^ 32 \<Longrightarrow>
   parse_frame (concat (map frame msgs) @ rest) =
     (msgs @ fst (parse_frame rest), length (concat (map frame msgs)) + snd (parse_frame rest))"
  by (induction msgs) (simp_all add: parse_frame_Cons length_frame)

text \<open>Parsing a longer input delivers the same messages first: nothing is reparsed or lost at a chunk boundary.\<close>

lemma parse_frame_append:
  "snd (parse_frame a) \<le> length a \<and>
   parse_frame (a @ b) = (fst (parse_frame a) @ fst (parse_frame (drop (snd (parse_frame a)) a @ b)),
     snd (parse_frame a) + snd (parse_frame (drop (snd (parse_frame a)) a @ b)))"
proof (induction a rule: parse_frame.induct)
  case (1 a)
  define total where "total = 4 + unat (get_length a)"
  show ?case
  proof (cases "length a < 4 \<or> length a < total")
    case True
    then have "parse_frame a = ([], 0)" by (auto simp: total_def parse_frame_short parse_frame_incomplete)
    then show ?thesis by simp
  next
    case False
    then have four: "4 \<le> length a" and len: "total \<le> length a" by auto
    have adv: "bf_advance a total = drop total a" "bf_advance (a @ b) total = drop total a @ b"
      using len by (auto simp: bf_advance_def)
    obtain ms c where r: "parse_frame (drop total a) = (ms, c)" by fastforce
    have pa: "parse_frame a = (take (total - 4) (drop 4 a) # ms, total + c)"
      using four len r adv by (subst parse_frame.simps) (simp add: total_def [symmetric] Let_def)
    have "parse_frame (a @ b) = (case parse_frame (drop total a @ b) of (ms', c') \<Rightarrow>
        (take (total - 4) (drop 4 (a @ b)) # ms', total + c'))"
      using four len adv by (subst parse_frame.simps) (simp add: total_def [symmetric] Let_def get_length_append)
    moreover have "take (total - 4) (drop 4 (a @ b)) = take (total - 4) (drop 4 a)" using four len by simp
    moreover have IH: "snd (parse_frame (drop total a)) \<le> length (drop total a) \<and>
       parse_frame (drop total a @ b) = (fst (parse_frame (drop total a)) @
         fst (parse_frame (drop (snd (parse_frame (drop total a))) (drop total a) @ b)),
       snd (parse_frame (drop total a)) + snd (parse_frame (drop (snd (parse_frame (drop total a))) (drop total a) @ b)))"
      using "1.IH" [OF _ total_def] four len adv by (simp add: total_def [symmetric])
    ultimately show ?thesis using pa r len by (auto simp: ac_simps)
  qed
qed

text \<open>
  A reader of framed messages: each received chunk is stored through \<open>prepare\<close>/\<open>commit\<close>, the complete frames of the
  readable bytes are delivered and then consumed.
\<close>

definition frame_recv :: "u8 list \<Rightarrow> buffer \<Rightarrow> u8 list list \<times> buffer" where
  "frame_recv chunk b = (let b1 = snd (bf_put chunk b); (msgs, n) = parse_frame (bf_str b1) in (msgs, bf_consume n b1))"

fun frame_recvs :: "u8 list list \<Rightarrow> buffer \<Rightarrow> u8 list list \<times> buffer" where
  "frame_recvs [] b = ([], b)"
| "frame_recvs (chunk # chunks) b = (case frame_recv chunk b of (msgs, b1) \<Rightarrow>
     (case frame_recvs chunks b1 of (msgs', b2) \<Rightarrow> (msgs @ msgs', b2)))"

lemma frame_recv_step:
  assumes "bf_inv b"
  shows "bf_inv (snd (frame_recv chunk b)) \<and> fst (frame_recv chunk b) = fst (parse_frame (bf_str b @ chunk)) \<and>
    bf_str (snd (frame_recv chunk b)) = drop (snd (parse_frame (bf_str b @ chunk))) (bf_str b @ chunk)"
proof -
  obtain ok b1 where p: "bf_put chunk b = (ok, b1)" by fastforce
  then have ok by (simp add: bf_put_def)
  with bf_put_law [OF assms p] have inv: "bf_inv b1" and s: "bf_str b1 = bf_str b @ chunk" by auto
  have "snd (parse_frame (bf_str b1)) \<le> bf_size b1"
    using parse_frame_append [of "bf_str b1" "[]"] length_bf_str [OF inv] by simp
  from bf_consume_ok [OF inv this] s p show ?thesis by (simp add: frame_recv_def split_beta)
qed

lemma frame_recvs_parse:
  "bf_inv b \<Longrightarrow> fst (parse_frame (bf_str b)) = [] \<Longrightarrow>
   fst (frame_recvs chunks b) = fst (parse_frame (bf_str b @ concat chunks)) \<and>
   bf_str (snd (frame_recvs chunks b)) =
     drop (snd (parse_frame (bf_str b @ concat chunks))) (bf_str b @ concat chunks)"
proof (induction chunks arbitrary: b)
  case Nil
  then have "snd (parse_frame (bf_str b)) = 0"
    by (subst (asm) parse_frame.simps, subst parse_frame.simps) (auto simp: Let_def split: if_splits prod.splits)
  with Nil show ?case by simp
next
  case (Cons c cs)
  define b1 where "b1 = snd (frame_recv c b)"
  define n where "n = snd (parse_frame (bf_str b @ c))"
  note S = frame_recv_step [OF Cons.prems(1), of c, folded b1_def n_def]
  have rest: "parse_frame (bf_str b @ c @ concat cs) =
      (fst (parse_frame (bf_str b @ c)) @ fst (parse_frame (bf_str b1 @ concat cs)), n + snd (parse_frame (bf_str b1 @ concat cs)))"
    and le: "n \<le> length (bf_str b @ c)"
    using parse_frame_append [of "bf_str b @ c" "concat cs"] S by (simp_all add: n_def)
  have "parse_frame (bf_str b @ c) = (fst (parse_frame (bf_str b @ c)) @ fst (parse_frame (bf_str b1)), n + snd (parse_frame (bf_str b1)))"
    using parse_frame_append [of "bf_str b @ c" "[]"] S by (simp add: n_def)
  then have "fst (parse_frame (bf_str b1)) = []" by (metis append_self_conv fst_conv)
  with Cons.IH S have IH: "fst (frame_recvs cs b1) = fst (parse_frame (bf_str b1 @ concat cs))"
    "bf_str (snd (frame_recvs cs b1)) = drop (snd (parse_frame (bf_str b1 @ concat cs))) (bf_str b1 @ concat cs)" by auto
  have r: "frame_recvs (c # cs) b = (fst (frame_recv c b) @ fst (frame_recvs cs b1), snd (frame_recvs cs b1))"
    by (simp add: b1_def split_beta)
  have dr: "drop (n + k) (bf_str b @ c @ concat cs) = drop k (bf_str b1 @ concat cs)" for k
  proof -
    have "drop (n + k) ((bf_str b @ c) @ concat cs) = drop k (drop n ((bf_str b @ c) @ concat cs))"
      by (simp only: drop_drop add.commute)
    also have "drop n ((bf_str b @ c) @ concat cs) = bf_str b1 @ concat cs" using S le by (simp only: drop_append) simp
    finally show ?thesis by simp
  qed
  have "fst (frame_recvs (c # cs) b) = fst (parse_frame (bf_str b @ c @ concat cs))"
    unfolding r rest using S IH(1) by simp
  moreover have "bf_str (snd (frame_recvs (c # cs) b)) =
      drop (snd (parse_frame (bf_str b @ c @ concat cs))) (bf_str b @ c @ concat cs)"
    unfolding r rest snd_conv IH(2) dr ..
  ultimately show ?case by simp
qed

text \<open>
  C7: Framed messages survive any fragmentation: when a sequence of messages (each shorter than \<open>2^32\<close> bytes) is
  encoded with \<open>put_length\<close> prefixes and the byte stream arrives in arbitrary chunks, a reader built from \<open>Buffer\<close>
  and \<open>parse_frame\<close> delivers exactly these messages in order and its buffer is empty at the end.
\<close>

theorem frames_any_chunking:
  assumes "\<forall>m \<in> set msgs. length m < 2 ^ 32" and "concat chunks = concat (map frame msgs)"
  shows "\<exists>b. frame_recvs chunks bf_new = (msgs, b) \<and> bf_str b = []"
proof -
  have "fst (parse_frame (bf_str bf_new)) = []" by (simp add: parse_frame_short)
  from frame_recvs_parse [OF bf_new_ok(1) this, of chunks] parse_frame_concat [OF assms(1), of "[]"] assms(2)
  have "fst (frame_recvs chunks bf_new) = msgs \<and> bf_str (snd (frame_recvs chunks bf_new)) = []"
    by (simp add: parse_frame_short)
  then show ?thesis by (metis prod.collapse)
qed

theorem frames_any_chunking_witness:
  "\<exists>b. frame_recvs [[2, 0], [0, 0, 7], [9, 0, 0, 0, 0]] bf_new = ([[7, 9], []], b) \<and> bf_str b = []"
  using frames_any_chunking [of "[[7, 9], []]" "[[2, 0], [0, 0, 7], [9, 0, 0, 0, 0]]"]
  by (simp add: frame_def put_length_def)

text \<open>
  \<open>parse_frame\<close> consumes a prefix of its input, the same messages whatever follows them: parsing a longer input
  is parsing the shorter one and then the unconsumed bytes together with the rest.
\<close>

theorem parse_frame_incremental:
  "snd (parse_frame a) \<le> length a \<and>
   parse_frame (a @ b) = (fst (parse_frame a) @ fst (parse_frame (drop (snd (parse_frame a)) a @ b)),
     snd (parse_frame a) + snd (parse_frame (drop (snd (parse_frame a)) a @ b)))"
  by (rule parse_frame_append)

end
