(* ===== verification/Histograms.thy ===== *)
theory Histograms
  imports Prelude Complex_Main "HOL-Library.Log_Nat"
begin

text \<open>
  The high dynamic range histogram of \<open>hdr/Histogram.hpp\<close> and \<open>hdr/Histogram.cpp\<close>. Values are \<open>int64_t\<close>, indices
  \<open>int32_t\<close>; every narrowing conversion and every addition that can wrap is written with \<open>s32\<close> and \<open>s64\<close>. The two
  logarithms of the constructor are the exact ones; the code computes them in \<open>double\<close>, which agrees for every power
  of two and for every lowest value below \<open>2^47\<close>.
\<close>

subsection \<open>Configuration\<close>

datatype hdr_error = MinNotPositive | BadSignificantFigures | HighestTooSmall | InvalidMagnitude

record HdrBucketConfig =
  lowest_trackable_value :: int
  highest_trackable_value :: int
  significant_figures :: int
  unit_magnitude :: int
  sub_bucket_half_count_magnitude :: int
  sub_bucket_count :: int
  sub_bucket_half_count :: int
  sub_bucket_mask :: int
  bucket_count :: int
  counts_len :: int

definition int64_max :: int where "int64_max = 2 ^ 63 - 1"

definition count_leading_zeros_64 :: "int \<Rightarrow> int" where
  "count_leading_zeros_64 v = (if v < 0 then 0 else 64 - bitlen v)"

definition get_sub_bucket_index :: "int \<Rightarrow> int \<Rightarrow> int \<Rightarrow> int" where
  "get_sub_bucket_index v bucket_index unit_mag = s32 (drop_bit (nat (bucket_index + unit_mag)) v)"

definition value_from_index :: "int \<Rightarrow> int \<Rightarrow> int \<Rightarrow> int" where
  "value_from_index bucket_index sub_bucket_index unit_mag = s64 (push_bit (nat (bucket_index + unit_mag)) sub_bucket_index)"

text \<open>The loop of \<open>buckets_needed_to_cover_value\<close>; \<open>None\<close> would be a loop that never ends.\<close>

partial_function (option) buckets_loop :: "int \<Rightarrow> int \<Rightarrow> int \<Rightarrow> int option" where
  "buckets_loop v smallest_untrackable_value buckets_needed =
     (if smallest_untrackable_value \<le> v then
        if smallest_untrackable_value > int64_max div 2 then Some (buckets_needed + 1)
        else buckets_loop v (s64 (push_bit 1 smallest_untrackable_value)) (buckets_needed + 1)
      else Some buckets_needed)"

definition buckets_needed_to_cover_value :: "int \<Rightarrow> int \<Rightarrow> int \<Rightarrow> int option" where
  "buckets_needed_to_cover_value v sbc unit_mag = buckets_loop v (s64 (push_bit (nat unit_mag) sbc)) 1"

definition get_sub_bucket_half_count_magnitude :: "int \<Rightarrow> int" where
  "get_sub_bucket_half_count_magnitude sf =
     (let sub_bucket_count_magnitude = bitlen (10 ^ nat sf * 2 - 1) in
      if sub_bucket_count_magnitude > 1 then sub_bucket_count_magnitude - 1 else 0)"

text \<open>
  The constructor, in the order of the code: the members are initialised first, with the loop over the buckets, and the arguments are checked afterwards.
  \<open>None\<close> is an initialiser that never returns or is undefined: a lowest value below one has no finite logarithm, and from nine significant figures on
  \<open>pow\<close> exceeds \<open>int32_t\<close>. Shifts and products that exceed their type wrap around.
\<close>

definition hdr_config :: "int \<Rightarrow> int \<Rightarrow> int \<Rightarrow> (hdr_error + HdrBucketConfig) option" where
  "hdr_config lo hi sf =
     (if lo < 1 \<or> sf > 8 then None
      else
        let um = bitlen lo - 1;
            hm = get_sub_bucket_half_count_magnitude sf;
            sbc = 2 ^ nat (hm + 1);
            mask = s64 (push_bit (nat um) (sbc - 1))
        in (case buckets_needed_to_cover_value hi sbc um of
             None \<Rightarrow> None
           | Some bc \<Rightarrow>
               let counts_len = s32 ((bc + 1) * (sbc div 2)) in
               Some (if lo < 1 then Inl MinNotPositive
                 else if sf < 1 \<or> sf > 5 then Inl BadSignificantFigures
                 else if s64 (lo * 2) > hi then Inl HighestTooSmall
                 else if um + hm > 61 then Inl InvalidMagnitude
                 else Inr \<lparr>lowest_trackable_value = lo, highest_trackable_value = hi, significant_figures = sf,
                   unit_magnitude = um, sub_bucket_half_count_magnitude = hm, sub_bucket_count = sbc,
                   sub_bucket_half_count = sbc div 2, sub_bucket_mask = mask, bucket_count = bc,
                   counts_len = counts_len\<rparr>)))"

subsection \<open>The histogram\<close>

text \<open>
  The histogram copies the configuration's members; \<open>hh_cfg\<close> stands for these copies. \<open>counts_\<close> keeps its size, which is
  what \<open>counts_len()\<close> returns.
\<close>

record HdrHistogram =
  hh_cfg :: HdrBucketConfig
  normalizing_index_offset :: int
  min_value :: int
  max_value :: int
  total_count :: int
  counts :: "int list"

definition hdr_new :: "HdrBucketConfig \<Rightarrow> HdrHistogram" where
  "hdr_new c = \<lparr>hh_cfg = c, normalizing_index_offset = 0, min_value = int64_max, max_value = 0, total_count = 0,
     counts = replicate (nat (counts_len c)) 0\<rparr>"

definition hh_counts_len :: "HdrHistogram \<Rightarrow> int" where
  "hh_counts_len h = int (length (counts h))"

definition normalize_index :: "HdrHistogram \<Rightarrow> int \<Rightarrow> int" where
  "normalize_index h index =
     (if normalizing_index_offset h = 0 then index else
      let normalized_index = index - normalizing_index_offset h;
          adjustment = (if normalized_index < 0 then hh_counts_len h
                        else if normalized_index \<ge> hh_counts_len h then - hh_counts_len h else 0)
      in normalized_index + adjustment)"

definition get_bucket_index :: "HdrHistogram \<Rightarrow> int \<Rightarrow> int" where
  "get_bucket_index h v =
     (let pow2ceiling = 64 - count_leading_zeros_64 (v OR sub_bucket_mask (hh_cfg h))
      in pow2ceiling - unit_magnitude (hh_cfg h) - (sub_bucket_half_count_magnitude (hh_cfg h) + 1))"

definition counts_index :: "HdrHistogram \<Rightarrow> int \<Rightarrow> int \<Rightarrow> int" where
  "counts_index h bucket_index sub_bucket_index =
     (let bucket_base_index = push_bit (nat (sub_bucket_half_count_magnitude (hh_cfg h))) (bucket_index + 1);
          offset_in_bucket = sub_bucket_index - sub_bucket_half_count (hh_cfg h)
      in bucket_base_index + offset_in_bucket)"

definition counts_index_for :: "HdrHistogram \<Rightarrow> int \<Rightarrow> int" where
  "counts_index_for h v =
     (let b = get_bucket_index h v; s = get_sub_bucket_index v b (unit_magnitude (hh_cfg h)) in counts_index h b s)"

definition lowest_equivalent_value :: "HdrHistogram \<Rightarrow> int \<Rightarrow> int" where
  "lowest_equivalent_value h v =
     (let b = get_bucket_index h v; s = get_sub_bucket_index v b (unit_magnitude (hh_cfg h))
      in value_from_index b s (unit_magnitude (hh_cfg h)))"

definition size_of_equivalent_value_range :: "HdrHistogram \<Rightarrow> int \<Rightarrow> int" where
  "size_of_equivalent_value_range h v =
     (let b = get_bucket_index h v; s = get_sub_bucket_index v b (unit_magnitude (hh_cfg h));
          adjusted_bucket = (if s \<ge> sub_bucket_count (hh_cfg h) then b + 1 else b)
      in s64 (push_bit (nat (unit_magnitude (hh_cfg h) + adjusted_bucket)) 1))"

definition next_non_equivalent_value :: "HdrHistogram \<Rightarrow> int \<Rightarrow> int" where
  "next_non_equivalent_value h v = s64 (lowest_equivalent_value h v + size_of_equivalent_value_range h v)"

definition highest_equivalent_value :: "HdrHistogram \<Rightarrow> int \<Rightarrow> int" where
  "highest_equivalent_value h v = s64 (next_non_equivalent_value h v - 1)"

definition median_equivalent_value :: "HdrHistogram \<Rightarrow> int \<Rightarrow> int" where
  "median_equivalent_value h v = s64 (lowest_equivalent_value h v + drop_bit 1 (size_of_equivalent_value_range h v))"

definition values_are_equivalent :: "HdrHistogram \<Rightarrow> int \<Rightarrow> int \<Rightarrow> bool" where
  "values_are_equivalent h a b \<longleftrightarrow> lowest_equivalent_value h a = lowest_equivalent_value h b"

definition value_at_index :: "HdrHistogram \<Rightarrow> int \<Rightarrow> int" where
  "value_at_index h index =
     (let half = sub_bucket_half_count (hh_cfg h);
          b = drop_bit (nat (sub_bucket_half_count_magnitude (hh_cfg h))) index - 1;
          s = (index AND (half - 1)) + half
      in if b < 0 then value_from_index 0 (s - half) (unit_magnitude (hh_cfg h))
         else value_from_index b s (unit_magnitude (hh_cfg h)))"

text \<open>\<open>counts_[i]\<close>: outside the vector the access is undefined, modelled as \<open>None\<close>.\<close>

definition counts_get_normalised :: "HdrHistogram \<Rightarrow> int \<Rightarrow> int option" where
  "counts_get_normalised h index =
     (let i = normalize_index h index in if 0 \<le> i \<and> i < hh_counts_len h then Some (counts h ! nat i) else None)"

definition count_at_index :: "HdrHistogram \<Rightarrow> int \<Rightarrow> int option" where
  "count_at_index h index = counts_get_normalised h index"

definition count_at_value :: "HdrHistogram \<Rightarrow> int \<Rightarrow> int option" where
  "count_at_value h v = counts_get_normalised h (counts_index_for h v)"

definition non_zero_min :: "HdrHistogram \<Rightarrow> int" where
  "non_zero_min h = (if min_value h = int64_max then min_value h else lowest_equivalent_value h (min_value h))"

definition hdr_min :: "HdrHistogram \<Rightarrow> int option" where
  "hdr_min h = (case count_at_index h 0 of None \<Rightarrow> None | Some n \<Rightarrow> Some (if n > 0 then 0 else non_zero_min h))"

definition hdr_max :: "HdrHistogram \<Rightarrow> int" where
  "hdr_max h = (if max_value h = 0 then 0 else highest_equivalent_value h (max_value h))"

definition hdr_reset :: "HdrHistogram \<Rightarrow> HdrHistogram" where
  "hdr_reset h = h\<lparr>min_value := int64_max, max_value := 0, total_count := 0, counts := map (\<lambda>_. 0) (counts h)\<rparr>"

definition counts_inc_normalised :: "int \<Rightarrow> int \<Rightarrow> HdrHistogram \<Rightarrow> HdrHistogram" where
  "counts_inc_normalised index v h =
     (let i = nat (normalize_index h index)
      in h\<lparr>counts := (counts h)[i := s64 (counts h ! i + v)], total_count := s64 (total_count h + v)\<rparr>)"

definition update_min_max :: "int \<Rightarrow> HdrHistogram \<Rightarrow> HdrHistogram" where
  "update_min_max v h =
     (let h1 = (if v \<noteq> 0 then h\<lparr>min_value := min (min_value h) v\<rparr> else h)
      in h1\<lparr>max_value := max (max_value h1) v\<rparr>)"

definition record_values :: "int \<Rightarrow> int \<Rightarrow> HdrHistogram \<Rightarrow> bool \<times> HdrHistogram" where
  "record_values v count h =
     (if v < 0 then (False, h) else
      let index = counts_index_for h v in
      if index < 0 \<or> hh_counts_len h \<le> index then (False, h)
      else (True, update_min_max v (counts_inc_normalised index count h)))"

definition record_value :: "int \<Rightarrow> HdrHistogram \<Rightarrow> bool \<times> HdrHistogram" where
  "record_value v h = record_values v 1 h"

subsection \<open>Shape of a configuration\<close>

definition hdr_shape :: "nat \<Rightarrow> nat \<Rightarrow> HdrBucketConfig \<Rightarrow> bool" where
  "hdr_shape u m c \<longleftrightarrow> unit_magnitude c = int u \<and> sub_bucket_half_count_magnitude c = int m \<and> u + m \<le> 61 \<and> m \<le> 17 \<and>
     sub_bucket_count c = 2 ^ (m + 1) \<and> sub_bucket_half_count c = 2 ^ m \<and>
     sub_bucket_mask c = (2 ^ (m + 1) - 1) * 2 ^ u"

lemma bitlen_eqI: "2 ^ k \<le> x \<Longrightarrow> x < 2 ^ (k + 1) \<Longrightarrow> bitlen x = int k + 1"
proof -
  assume a: "2 ^ k \<le> x" "x < 2 ^ (k + 1)"
  have "bitlen x \<le> int (k + 1)" using a bitlen_le_iff_power [of x "int (k + 1)"] by (simp only: nat_int) simp
  moreover have "int (k + 1) \<le> bitlen x"
    using a bitlen_ge_iff_power [of "int (k + 1)" x] by (simp only: nat_int diff_add_inverse2) simp
  ultimately show ?thesis by simp
qed

lemma or_bounds:
  fixes x y :: int
  assumes "0 \<le> x" "0 \<le> y"
  shows "x \<le> x OR y" "y \<le> x OR y" "x < 2 ^ n \<Longrightarrow> y < 2 ^ n \<Longrightarrow> x OR y < 2 ^ n"
  using assms or_greater_eq [of y x] or_greater_eq [of x y] OR_upper [of x n y] by (simp_all add: or.commute)

text \<open>The bucket of a value: bucket 0 holds everything below \<open>2^(u+m+1)\<close>, bucket \<open>b > 0\<close> one binary order above.\<close>

lemma get_bucket_index_cases:
  assumes s: "hdr_shape u m (hh_cfg h)" and v: "0 \<le> v" "v < 2 ^ 63"
  obtains b where "get_bucket_index h v = int b" "b + u + m \<le> 62" "v < 2 ^ (b + u + m + 1)"
    "b = 0 \<or> 2 ^ (b + u + m) \<le> v"
proof -
  let ?mask = "(2 ^ (m + 1) - 1) * 2 ^ u :: int"
  have m0: "0 \<le> ?mask" by simp
  have ml: "2 ^ (u + m) \<le> ?mask" by (simp add: power_add algebra_simps)
  have mu: "?mask < 2 ^ (u + m + 1)" by (simp add: power_add algebra_simps)
  have um: "u + m \<le> 61" using s by (simp add: hdr_shape_def)
  define w where "w = v OR ?mask"
  have w0: "0 \<le> w" using v m0 by (simp add: w_def)
  have "v OR sub_bucket_mask (hh_cfg h) = w" "unit_magnitude (hh_cfg h) = int u"
    "sub_bucket_half_count_magnitude (hh_cfg h) = int m" using s by (auto simp: hdr_shape_def w_def)
  with w0 have g: "get_bucket_index h v = bitlen w - int u - (int m + 1)"
    by (simp add: get_bucket_index_def count_leading_zeros_64_def Let_def)
  show thesis
  proof (cases "v < 2 ^ (u + m + 1)")
    case True
    have "bitlen w = int (u + m) + 1"
    proof (rule bitlen_eqI)
      show "2 ^ (u + m) \<le> w" using or_bounds(2) [OF v(1) m0] ml unfolding w_def by linarith
      show "w < 2 ^ (u + m + 1)" unfolding w_def by (rule or_bounds(3) [OF v(1) m0 True mu])
    qed
    with g True um show thesis by (intro that [of 0]) auto
  next
    case False
    then have pos: "0 < v" by (smt (verit) zero_less_power)
    define k where "k = nat (bitlen v - 1)"
    have kb: "2 ^ k \<le> v" "v < 2 ^ (k + 1)"
      using bitlen_bounds [OF pos] pos bitlen_nonneg [of v] bitlen_eq_zero_iff [of v] by (auto simp: k_def nat_diff_distrib)
    have "(2 :: int) ^ (u + m + 1) < 2 ^ (k + 1)" using False kb by linarith
    then have k1: "u + m + 1 \<le> k" by (simp add: power_strict_increasing_iff del: power_Suc)
    have "(2 :: int) ^ k < 2 ^ 63" using kb v by linarith
    from power_less_imp_less_exp [OF _ this] have k2: "k \<le> 62" by simp
    have "?mask < 2 ^ (k + 1)" using mu False kb by linarith
    with or_bounds(3) [OF v(1) m0 kb(2)] have "w < 2 ^ (k + 1)" by (simp add: w_def)
    moreover have "2 ^ k \<le> w" using or_bounds(1) [OF v(1) m0] kb(1) unfolding w_def by linarith
    ultimately have "bitlen w = int k + 1" by (intro bitlen_eqI)
    with g have "get_bucket_index h v = int (k - (u + m))" using k1 by simp
    with k1 k2 kb show thesis by (intro that [of "k - (u + m)"]) auto
  qed
qed

text \<open>Everything about the equivalence class of a value, in one statement: bucket \<open>b\<close>, sub-bucket \<open>q\<close>.\<close>

lemma hdr_class:
  assumes s: "hdr_shape u m (hh_cfg h)" and v: "0 \<le> v" "v < 2 ^ 63"
  obtains b q :: nat where
    "get_bucket_index h v = int b" "b + u + m \<le> 62" "int q = v div 2 ^ (b + u)" "q < 2 ^ (m + 1)" "b = 0 \<or> 2 ^ m \<le> q"
    "get_sub_bucket_index v (int b) (int u) = int q"
    "counts_index_for h v = int (b * 2 ^ m + q)"
    "lowest_equivalent_value h v = int q * 2 ^ (b + u)"
    "size_of_equivalent_value_range h v = 2 ^ (b + u)"
proof -
  obtain b where b: "get_bucket_index h v = int b" "b + u + m \<le> 62" "v < 2 ^ (b + u + m + 1)"
    "b = 0 \<or> 2 ^ (b + u + m) \<le> v"
    using get_bucket_index_cases [OF s v] by blast
  have sh: "unit_magnitude (hh_cfg h) = int u" "sub_bucket_half_count_magnitude (hh_cfg h) = int m"
    "sub_bucket_count (hh_cfg h) = 2 ^ (m + 1)" "sub_bucket_half_count (hh_cfg h) = 2 ^ m" "m \<le> 17"
    using s by (auto simp: hdr_shape_def)
  define q where "q = nat (v div 2 ^ (b + u))"
  have q: "int q = v div 2 ^ (b + u)" using v by (simp add: q_def pos_imp_zdiv_nonneg_iff)
  have e1: "(2 :: int) ^ (b + u + m + 1) = 2 ^ (m + 1) * 2 ^ (b + u)" "(2 :: int) ^ (b + u + m) = 2 ^ m * 2 ^ (b + u)"
    by (simp_all add: power_add)
  have "int q < 2 ^ (m + 1)" 
    unfolding q using b(3) by (intro int_div_bounds(3)) (simp_all only: e1, simp)
  then have qu: "q < 2 ^ (m + 1)" by (metis of_nat_less_iff of_nat_numeral of_nat_power)
  have ql: "b = 0 \<or> 2 ^ m \<le> q"
  proof (cases "b = 0")
    case False
    with b(4) have "2 ^ m * 2 ^ (b + u) \<le> v" unfolding e1 by blast
    then have "2 ^ m \<le> int q" unfolding q by (intro int_div_bounds(4)) simp_all
    then show ?thesis by (metis of_nat_le_iff of_nat_numeral of_nat_power)
  qed simp
  have "(2 :: nat) ^ (m + 1) \<le> 2 ^ 18" using sh(5) by (intro power_increasing) auto
  with qu have "int q < 2 ^ 31" by simp
  then have gq: "get_sub_bucket_index v (int b) (int u) = int q"
    by (simp add: get_sub_bucket_index_def drop_bit_int_def q [symmetric] s32_id nat_int_add)
  have ci: "counts_index_for h v = int (b * 2 ^ m + q)"
    using b(1) gq sh by (simp add: counts_index_for_def counts_index_def Let_def push_bit_eq_mult algebra_simps)
  have "int q * 2 ^ (b + u) \<le> v" unfolding q by (rule int_div_bounds(1)) simp
  then have "s64 (int q * 2 ^ (b + u)) = int q * 2 ^ (b + u)"
    using v by (intro s64_id) (auto intro: order_trans [of _ 0])
  then have le: "lowest_equivalent_value h v = int q * 2 ^ (b + u)"
    using b(1) gq sh by (simp add: lowest_equivalent_value_def value_from_index_def Let_def push_bit_eq_mult nat_int_add)
  have "(2 :: int) ^ (b + u) < 2 ^ 63" using b(2) by (intro power_strict_increasing) auto
  then have "s64 (2 ^ (b + u)) = 2 ^ (b + u)" by (intro s64_id) (auto intro: order_trans [of _ 0])
  moreover have "\<not> int q \<ge> 2 ^ (m + 1)" using \<open>int q < 2 ^ (m + 1)\<close> by simp
  ultimately have sz: "size_of_equivalent_value_range h v = 2 ^ (b + u)"
    using b(1) gq sh by (simp add: size_of_equivalent_value_range_def Let_def push_bit_eq_mult nat_int_add add.commute del: power_Suc)
  show thesis by (rule that [OF b(1,2) q qu ql gq ci le sz])
qed

subsection \<open>The constructor\<close>

lemma half_count_magnitude_cases:
  assumes "1 \<le> sf" "sf \<le> 5"
  obtains m where "get_sub_bucket_half_count_magnitude sf = int m" "m \<le> 17" "10 ^ nat sf \<le> (2 :: int) ^ m"
proof -
  have b: "bitlen 19 = 5" "bitlen 199 = 8" "bitlen 1999 = 11" "bitlen 19999 = 15" "bitlen 199999 = 18"
    using bitlen_eqI [of 4 19] bitlen_eqI [of 7 199] bitlen_eqI [of 10 1999] bitlen_eqI [of 14 19999] bitlen_eqI [of 17 199999]
    by simp_all
  have "sf = 1 \<or> sf = 2 \<or> sf = 3 \<or> sf = 4 \<or> sf = 5" using assms by arith
  then show thesis
    by (elim disjE; intro that [of "nat (get_sub_bucket_half_count_magnitude sf)"])
       (simp_all add: get_sub_bucket_half_count_magnitude_def Let_def b)
qed

lemma buckets_loop_returns:
  assumes "k \<le> 62" "v < 2 ^ 63"
  shows "\<exists>j. buckets_loop v (2 ^ k) n = Some (n + int j) \<and> v < 2 ^ (k + j) \<and> k + j \<le> 63"
  using assms(1)
proof (induction "62 - k" arbitrary: k n)
  case 0
  then have k: "k = 62" by simp
  show ?case
  proof (cases "(2 :: int) ^ 62 \<le> v")
    case True
    then show ?thesis using assms(2) by (subst buckets_loop.simps) (auto simp: k int64_max_def intro!: exI [of _ 1])
  next
    case False
    then show ?thesis by (subst buckets_loop.simps) (auto simp: k intro!: exI [of _ 0])
  qed
next
  case (Suc d)
  show ?case
  proof (cases "(2 :: int) ^ k \<le> v")
    case False
    with Suc.prems show ?thesis by (subst buckets_loop.simps) (auto intro!: exI [of _ 0])
  next
    case True
    have "k \<le> 61" using Suc.hyps(2) by simp
    then have le: "(2 :: int) ^ k \<le> 2 ^ 61" by (intro power_increasing) auto
    have "s64 (push_bit 1 (2 ^ k)) = 2 ^ (k + 1)"
      using le by (subst s64_id) (auto simp: push_bit_eq_mult intro: order_trans [of _ 0])
    then have step: "buckets_loop v (2 ^ k) n = buckets_loop v (2 ^ (k + 1)) (n + 1)"
      using True le by (subst buckets_loop.simps) (simp add: int64_max_def)
    from Suc.hyps(1) [of "k + 1" "n + 1"] Suc.hyps(2) obtain j where
      "buckets_loop v (2 ^ (k + 1)) (n + 1) = Some (n + 1 + int j)" "v < 2 ^ (k + 1 + j)" "k + 1 + j \<le> 63" by force
    with step show ?thesis by (intro exI [of _ "j + 1"]) (auto simp: ac_simps)
  qed
qed

definition hdr_cfg_ok :: "HdrBucketConfig \<Rightarrow> bool" where
  "hdr_cfg_ok c \<longleftrightarrow> (\<exists>u m bc. hdr_shape u m c \<and> 1 \<le> bc \<and> bucket_count c = int bc \<and> counts_len c = int ((bc + 1) * 2 ^ m) \<and>
     u + m + bc \<le> 63 \<and> highest_trackable_value c < 2 ^ (u + m + bc) \<and> 10 ^ nat (significant_figures c) \<le> (2 :: int) ^ m \<and>
     2 ^ u \<le> lowest_trackable_value c)"

text \<open>From a bound of zero, or of the least \<open>int64_t\<close>, the loop never ends.\<close>

lemma buckets_loop_forever:
  assumes "0 \<le> v" "s \<in> {0, - (2 ^ 63)}"
  shows "buckets_loop v s n = None"
proof -
  have "\<not> (0 \<le> v \<and> s \<in> {0, - (2 ^ 63)})" if ret: "buckets_loop v s n = Some k" for k
  proof (rule buckets_loop.raw_induct [where P = "\<lambda>v s n k. \<not> (0 \<le> v \<and> s \<in> {0, - (2 ^ 63)})", OF _ ret])
    fix loop v s n k
    assume IH: "\<And>v s n k. loop v s n = Some k \<Longrightarrow> \<not> (0 \<le> v \<and> s \<in> {0, - (2 ^ 63)})"
      and e: "(if s \<le> v then if s > int64_max div 2 then Some (n + 1) else loop v (s64 (push_bit 1 s)) (n + 1) else Some n) = Some k"
    show "\<not> (0 \<le> v \<and> s \<in> {0, - (2 ^ 63)})"
    proof
      assume a: "0 \<le> v \<and> s \<in> {0, - (2 ^ 63)}"
      then have "s64 (push_bit 1 s) = 0" by (auto simp: s64_def push_bit_eq_mult)
      moreover have "s \<le> v" "\<not> s > int64_max div 2" using a by (auto simp: int64_max_def)
      ultimately have "loop v 0 (n + 1) = Some k" using e by simp
      with IH [of v 0 "n + 1" k] a show False by simp
    qed
  qed
  with assms show ?thesis by (cases "buckets_loop v s n") auto
qed

text \<open>The shift of the bucket's size: below \<open>2^63\<close> if the magnitudes are at most 61, otherwise the sign bit or nothing is left.\<close>

lemma first_bound:
  "u + m \<le> 61 \<Longrightarrow> s64 (push_bit u (2 ^ (m + 1))) = 2 ^ (u + m + 1)"
  "u + m \<ge> 62 \<Longrightarrow> s64 (push_bit u (2 ^ (m + 1))) \<in> {0, - (2 ^ 63)}"
proof -
  have e: "push_bit u (2 ^ (m + 1)) = (2 :: int) ^ (u + m + 1)" unfolding push_bit_eq_mult power_add [symmetric] by (simp add: ac_simps)
  show "s64 (push_bit u (2 ^ (m + 1))) = 2 ^ (u + m + 1)" if "u + m \<le> 61"
  proof -
    have "(2 :: int) ^ (u + m + 1) < 2 ^ 63" using that by (intro power_strict_increasing) auto
    then show ?thesis unfolding e by (intro s64_id) (auto intro: order_trans [of _ 0])
  qed
  show "s64 (push_bit u (2 ^ (m + 1))) \<in> {0, - (2 ^ 63)}" if "u + m \<ge> 62"
  proof (cases "u + m = 62")
    case True
    then show ?thesis unfolding e by (simp add: s64_def signed_take_bit_def take_bit_eq_mod not_int_def mask_eq_exp_minus_1)
  next
    case False
    then have "64 \<le> u + m + 1" using that by simp
    then have "(2 :: int) ^ 64 dvd 2 ^ (u + m + 1)" by (rule le_imp_power_dvd)
    then have z: "take_bit 64 ((2 :: int) ^ (u + m + 1)) = 0" by (simp add: take_bit_eq_mod mod_0_imp_dvd dvd_imp_mod_0)
    have "s64 (2 ^ (u + m + 1)) = s64 0" unfolding s64_def by (subst signed_take_bit_eq_iff_take_bit_eq) (simp add: z [simplified])
    then show ?thesis unfolding e by (simp add: s64_def)
  qed
qed

text \<open>What the constructor does with arguments in the documented ranges: it returns exactly if the magnitudes are not too large, or the highest value is negative.\<close>

lemma hdr_config_cases:
  assumes "1 \<le> lo" "1 \<le> sf" "sf \<le> 5" "hi < 2 ^ 63"
  obtains u m where "bitlen lo - 1 = int u" "get_sub_bucket_half_count_magnitude sf = int m" "m \<le> 17" "10 ^ nat sf \<le> (2 :: int) ^ m" "2 ^ u \<le> lo"
    "u + m \<ge> 62 \<Longrightarrow> 0 \<le> hi \<Longrightarrow> hdr_config lo hi sf = None"
    "u + m \<le> 61 \<Longrightarrow> \<exists>c. hdr_cfg_ok c \<and> lowest_trackable_value c = lo \<and> highest_trackable_value c = hi \<and> significant_figures c = sf \<and>
       hdr_config lo hi sf = Some (if s64 (lo * 2) > hi then Inl HighestTooSmall else Inr c)"
proof -
  obtain m where m: "get_sub_bucket_half_count_magnitude sf = int m" "m \<le> 17" "10 ^ nat sf \<le> (2 :: int) ^ m"
    using half_count_magnitude_cases [of sf] assms by metis
  define u where "u = nat (bitlen lo - 1)"
  have "0 < bitlen lo" using assms bitlen_nonneg [of lo] bitlen_eq_zero_iff [of lo] by linarith
  then have u: "bitlen lo - 1 = int u" by (simp add: u_def)
  have lo: "2 ^ u \<le> lo" using bitlen_bounds [of lo] assms by (simp add: u_def)
  have n: "nat (int m + 1) = m + 1" by simp
  have forever: "hdr_config lo hi sf = None" if "u + m \<ge> 62" "0 \<le> hi"
  proof -
    have "buckets_needed_to_cover_value hi (2 ^ (m + 1)) (int u) = None"
      unfolding buckets_needed_to_cover_value_def nat_int by (rule buckets_loop_forever [OF that(2) first_bound(2) [OF that(1)]])
    then show ?thesis unfolding hdr_config_def Let_def m(1) u n using assms by simp
  qed
  have returns: "\<exists>c. hdr_cfg_ok c \<and> lowest_trackable_value c = lo \<and> highest_trackable_value c = hi \<and> significant_figures c = sf \<and>
       hdr_config lo hi sf = Some (if s64 (lo * 2) > hi then Inl HighestTooSmall else Inr c)" if um: "u + m \<le> 61"
  proof -
    from buckets_loop_returns [of "u + m + 1" hi 1] um assms(4) obtain j where
      j: "buckets_loop hi (2 ^ (u + m + 1)) 1 = Some (1 + int j)" "hi < 2 ^ (u + m + 1 + j)" "u + m + 1 + j \<le> 63" by auto
    have bn: "buckets_needed_to_cover_value hi (2 ^ (m + 1)) (int u) = Some (1 + int j)"
      by (simp only: buckets_needed_to_cover_value_def nat_int first_bound(1) [OF um] j(1))
    have "(2 :: int) ^ m \<le> 2 ^ 17" using m(2) by (intro power_increasing) auto
    then have "(1 + int j + 1) * (2 ^ (m + 1) div 2) \<le> 64 * 2 ^ 17" using j(3) by (intro mult_mono) auto
    then have cl: "s32 ((1 + int j + 1) * (2 ^ (m + 1) div 2)) = (1 + int j + 1) * (2 ^ (m + 1) div 2)"
      by (intro s32_id) (auto intro: order_trans [of _ 0])
    have "push_bit u (2 ^ (m + 1) - 1) = (2 :: int) ^ (u + m + 1) - 2 ^ u" by (simp add: push_bit_eq_mult power_add algebra_simps)
    moreover have "(2 :: int) ^ (u + m + 1) < 2 ^ 63" using um by (intro power_strict_increasing) auto
    moreover have "(2 :: int) ^ u \<le> 2 ^ (u + m + 1)" by (intro power_increasing) auto
    ultimately have mk: "s64 (push_bit u (2 ^ (m + 1) - 1)) = push_bit u (2 ^ (m + 1) - 1)"
      by (intro s64_id) (auto intro: order_trans [of _ 0] le_less_trans [of _ "2 ^ (u + m + 1)"])
    let ?c = "\<lparr>lowest_trackable_value = lo, highest_trackable_value = hi, significant_figures = sf,
       unit_magnitude = int u, sub_bucket_half_count_magnitude = int m, sub_bucket_count = 2 ^ (m + 1),
       sub_bucket_half_count = 2 ^ (m + 1) div 2, sub_bucket_mask = push_bit u (2 ^ (m + 1) - 1),
       bucket_count = 1 + int j, counts_len = (1 + int j + 1) * (2 ^ (m + 1) div 2)\<rparr>"
    have "hdr_config lo hi sf = Some (if s64 (lo * 2) > hi then Inl HighestTooSmall else Inr ?c)"
      unfolding hdr_config_def Let_def m(1) u n bn nat_int option.case cl mk using assms um by (simp del: power_Suc)
    moreover have "hdr_cfg_ok ?c" unfolding hdr_cfg_ok_def
      by (intro exI [of _ u] exI [of _ m] exI [of _ "1 + j"])
         (use um m j lo in \<open>auto simp: hdr_shape_def push_bit_eq_mult algebra_simps\<close>)
    ultimately show ?thesis by (intro exI [of _ ?c]) simp
  qed
  show thesis by (rule that [OF u m lo forever returns])
qed

lemma hdr_config_ok:
  assumes "hdr_config lo hi sf = Some (Inr c)" "hi < 2 ^ 63"
  shows "hdr_cfg_ok c \<and> lowest_trackable_value c = lo \<and> highest_trackable_value c = hi \<and> significant_figures c = sf"
proof -
  have a: "1 \<le> lo" "1 \<le> sf" "sf \<le> 5" using assms(1) by (auto simp: hdr_config_def Let_def split: if_splits option.splits)
  have s: "bitlen lo - 1 + get_sub_bucket_half_count_magnitude sf \<le> 61"
    using assms(1) by (auto simp: hdr_config_def Let_def split: if_splits option.splits)
  obtain u m where "bitlen lo - 1 = int u" "get_sub_bucket_half_count_magnitude sf = int m"
    "u + m \<le> 61 \<Longrightarrow> \<exists>c. hdr_cfg_ok c \<and> lowest_trackable_value c = lo \<and> highest_trackable_value c = hi \<and> significant_figures c = sf \<and>
       hdr_config lo hi sf = Some (if s64 (lo * 2) > hi then Inl HighestTooSmall else Inr c)"
    using hdr_config_cases [OF a assms(2)] by metis
  with s assms(1) show ?thesis by (auto split: if_splits)
qed

subsection \<open>Equivalence classes\<close>

lemma hdr_range:
  assumes "hdr_shape u m (hh_cfg h)" "0 \<le> v" "v < 2 ^ 63"
  shows "0 \<le> lowest_equivalent_value h v" "lowest_equivalent_value h v \<le> v"
    "v < lowest_equivalent_value h v + size_of_equivalent_value_range h v"
    "lowest_equivalent_value h v + size_of_equivalent_value_range h v \<le> 2 ^ 63"
    "0 < size_of_equivalent_value_range h v"
proof -
  obtain b q :: nat where c: "b + u + m \<le> 62" "int q = v div 2 ^ (b + u)" "q < 2 ^ (m + 1)"
    "lowest_equivalent_value h v = int q * 2 ^ (b + u)" "size_of_equivalent_value_range h v = 2 ^ (b + u)"
    using hdr_class [OF assms] by metis
  show "0 \<le> lowest_equivalent_value h v" "0 < size_of_equivalent_value_range h v" by (simp_all add: c(4,5))
  show "lowest_equivalent_value h v \<le> v" unfolding c by (rule int_div_bounds(1)) simp
  have "v < (int q + 1) * 2 ^ (b + u)" unfolding c by (rule int_div_bounds(2)) simp
  then show "v < lowest_equivalent_value h v + size_of_equivalent_value_range h v" by (simp add: c(4,5) distrib_right)
  have "int q + 1 \<le> 2 ^ (m + 1)" using c(3) by (metis Suc_eq_plus1 Suc_leI of_nat_1 of_nat_add of_nat_le_iff of_nat_numeral of_nat_power)
  then have "(int q + 1) * 2 ^ (b + u) \<le> 2 ^ (m + 1) * 2 ^ (b + u)" by (intro mult_right_mono) auto
  also have "\<dots> = 2 ^ (b + u + m + 1)" by (simp add: power_add)
  also have "\<dots> \<le> 2 ^ 63" using c(1) by (intro power_increasing) auto
  finally show "lowest_equivalent_value h v + size_of_equivalent_value_range h v \<le> 2 ^ 63" by (simp add: c(4,5) distrib_right)
qed

lemma s64_s64_minus: "s64 (s64 x - 1) = s64 (x - 1)"
proof -
  have "take_bit 64 (s64 x) = take_bit 64 x" by (simp add: s64_def take_bit_signed_take_bit)
  then have "take_bit 64 (s64 x - 1) = take_bit 64 (x - 1)" by (metis take_bit_diff)
  then show ?thesis by (simp add: s64_def signed_take_bit_eq_iff_take_bit_eq)
qed

lemma highest_equivalent_eq:
  assumes "hdr_shape u m (hh_cfg h)" "0 \<le> v" "v < 2 ^ 63"
  shows "highest_equivalent_value h v = lowest_equivalent_value h v + size_of_equivalent_value_range h v - 1"
  unfolding highest_equivalent_value_def next_non_equivalent_value_def s64_s64_minus
  using hdr_range [OF assms] by (intro s64_id) auto

text \<open>The class is determined by the bucket and the sub-bucket.\<close>

lemma pow2_bucket:
  fixes q b :: nat
  assumes "int q * 2 ^ (b + u) \<le> v" "v < (int q + 1) * 2 ^ (b + u)" "q < 2 ^ (m + 1)"
  shows "v < 2 ^ (b + u + m + 1)" "2 ^ m \<le> q \<Longrightarrow> 2 ^ (b + u + m) \<le> v"
proof -
  have "int q + 1 \<le> 2 ^ (m + 1)" using assms(3) by (metis Suc_eq_plus1 Suc_leI of_nat_1 of_nat_add of_nat_le_iff of_nat_numeral of_nat_power)
  then have "(int q + 1) * 2 ^ (b + u) \<le> 2 ^ (m + 1) * 2 ^ (b + u)" by (intro mult_right_mono) auto
  also have "\<dots> = 2 ^ (b + u + m + 1)" by (simp add: power_add)
  finally show "v < 2 ^ (b + u + m + 1)" using assms(2) by linarith
  assume "2 ^ m \<le> q"
  then have "2 ^ m \<le> int q" by (metis of_nat_le_iff of_nat_numeral of_nat_power)
  then have "2 ^ m * 2 ^ (b + u) \<le> int q * 2 ^ (b + u)" by (intro mult_right_mono) auto
  also note assms(1)
  also have "2 ^ m * 2 ^ (b + u) = (2 :: int) ^ (b + u + m)" by (simp add: power_add)
  finally show "2 ^ (b + u + m) \<le> v" .
qed

lemma bucket_unique:
  fixes v :: int
  assumes "v < 2 ^ (b + u + m + 1)" "b = 0 \<or> 2 ^ (b + u + m) \<le> v" "v < 2 ^ (c + u + m + 1)" "c = 0 \<or> 2 ^ (c + u + m) \<le> v"
  shows "b = c"
proof -
  have *: "\<not> b < c" if "v < 2 ^ (b + u + m + 1)" "c = 0 \<or> 2 ^ (c + u + m) \<le> v" for b c
  proof
    assume "b < c"
    then have "(2 :: int) ^ (b + u + m + 1) \<le> 2 ^ (c + u + m)" by (intro power_increasing) auto
    with that \<open>b < c\<close> show False by linarith
  qed
  from * [of b c] * [of c b] assms show ?thesis by linarith
qed

lemma hdr_classI:
  fixes q b :: nat
  assumes s: "hdr_shape u m (hh_cfg h)" and b: "b + u + m \<le> 62" and q: "q < 2 ^ (m + 1)" "b = 0 \<or> 2 ^ m \<le> q"
    and v: "int q * 2 ^ (b + u) \<le> v" "v < (int q + 1) * 2 ^ (b + u)"
  shows "0 \<le> v" "v < 2 ^ 63" "counts_index_for h v = int (b * 2 ^ m + q)" "lowest_equivalent_value h v = int q * 2 ^ (b + u)"
    "size_of_equivalent_value_range h v = 2 ^ (b + u)"
proof -
  have "0 \<le> int q * 2 ^ (b + u)" by simp
  with v show v0: "0 \<le> v" by linarith
  have "(2 :: int) ^ (b + u + m + 1) \<le> 2 ^ 63" using b by (intro power_increasing) auto
  with pow2_bucket(1) [OF v q(1)] show v63: "v < 2 ^ 63" by linarith
  obtain c r :: nat where c: "int r = v div 2 ^ (c + u)" "r < 2 ^ (m + 1)" "c = 0 \<or> 2 ^ m \<le> r"
    "counts_index_for h v = int (c * 2 ^ m + r)" "lowest_equivalent_value h v = int r * 2 ^ (c + u)"
    "size_of_equivalent_value_range h v = 2 ^ (c + u)"
    using hdr_class [OF s v0 v63] by metis
  have r: "int r * 2 ^ (c + u) \<le> v" "v < (int r + 1) * 2 ^ (c + u)"
    unfolding c(1) by (rule int_div_bounds, simp)+
  have "b = c"
    using bucket_unique [of v b u m c] pow2_bucket [OF v q(1)] pow2_bucket [OF r c(2)] q(2) c(3) by blast
  moreover have "r = q"
  proof -
    have "v div 2 ^ (b + u) = int q"
      using int_div_bounds(3) [of "2 ^ (b + u)" v "int q + 1"] int_div_bounds(4) [of "2 ^ (b + u)" "int q" v] v by simp
    with c(1) \<open>b = c\<close> show ?thesis by simp
  qed
  ultimately show "counts_index_for h v = int (b * 2 ^ m + q)" "lowest_equivalent_value h v = int q * 2 ^ (b + u)"
    "size_of_equivalent_value_range h v = 2 ^ (b + u)" using c by simp_all
qed

lemma hdr_class_const:
  assumes s: "hdr_shape u m (hh_cfg h)" and v: "0 \<le> v" "v < 2 ^ 63"
    and w: "lowest_equivalent_value h v \<le> w" "w < lowest_equivalent_value h v + size_of_equivalent_value_range h v"
  shows "counts_index_for h w = counts_index_for h v" "lowest_equivalent_value h w = lowest_equivalent_value h v"
    "size_of_equivalent_value_range h w = size_of_equivalent_value_range h v"
proof -
  obtain b q :: nat where c: "b + u + m \<le> 62" "q < 2 ^ (m + 1)" "b = 0 \<or> 2 ^ m \<le> q" "counts_index_for h v = int (b * 2 ^ m + q)"
    "lowest_equivalent_value h v = int q * 2 ^ (b + u)" "size_of_equivalent_value_range h v = 2 ^ (b + u)"
    using hdr_class [OF s v] by metis
  from hdr_classI [OF s c(1-3), of w] w c show "counts_index_for h w = counts_index_for h v"
    "lowest_equivalent_value h w = lowest_equivalent_value h v" "size_of_equivalent_value_range h w = size_of_equivalent_value_range h v"
    by (simp_all add: distrib_right)
qed

subsection \<open>Values and indices\<close>

lemma value_at_index_eq:
  fixes q b :: nat
  assumes s: "hdr_shape u m (hh_cfg h)" and b: "b + u + m \<le> 62" and q: "q < 2 ^ (m + 1)" "b = 0 \<or> 2 ^ m \<le> q"
  shows "value_at_index h (int (b * 2 ^ m + q)) = int q * 2 ^ (b + u)"
proof -
  have sh: "unit_magnitude (hh_cfg h) = int u" "sub_bucket_half_count_magnitude (hh_cfg h) = int m"
    "sub_bucket_half_count (hh_cfg h) = 2 ^ m" using s by (auto simp: hdr_shape_def)
  define i where "i = b * 2 ^ m + q"
  have d: "drop_bit m (int i) = int (i div 2 ^ m)" by (simp add: drop_bit_int_def zdiv_int)
  have "int i AND (2 ^ m - 1) = int i mod 2 ^ m"
    by (simp flip: take_bit_eq_mask [of m "int i", unfolded mask_eq_exp_minus_1] add: take_bit_int_def)
  then have a: "int i AND (2 ^ m - 1) = int (i mod 2 ^ m)" by (simp add: zmod_int)
  have "s64 (int q * 2 ^ (b + u)) = int q * 2 ^ (b + u)"
    using hdr_classI(2) [OF s b q, of "int q * 2 ^ (b + u)"] by (intro s64_id) (auto simp: distrib_right intro: order_trans [of _ 0])
  then have vf: "value_from_index (int b) (int q) (int u) = int q * 2 ^ (b + u)"
    by (simp add: value_from_index_def push_bit_eq_mult nat_int_add)
  show ?thesis
  proof (cases "b = 0 \<and> q < 2 ^ m")
    case True
    then have "i div 2 ^ m = 0" "i mod 2 ^ m = q" by (simp_all add: i_def)
    with d a have di: "drop_bit m (int i) = 0" "int i AND (2 ^ m - 1) = int q" by simp_all
    show ?thesis unfolding i_def [symmetric] value_at_index_def Let_def sh nat_int di using vf True by simp
  next
    case False
    with q have "2 ^ m \<le> q" by linarith
    then obtain r where r: "q = 2 ^ m + r" "r < 2 ^ m" using q(1) by (auto simp: le_iff_add)
    then have i: "i = (b + 1) * 2 ^ m + r" by (simp add: i_def)
    have "i div 2 ^ m = b + 1" unfolding i by (subst div_mult_self3) (use r(2) in simp_all)
    moreover have "i mod 2 ^ m = r" unfolding i by (subst mod_mult_self3) (use r(2) in simp)
    ultimately have di: "drop_bit m (int i) = int b + 1" "int i AND (2 ^ m - 1) = int r" using d a by simp_all
    show ?thesis unfolding i_def [symmetric] value_at_index_def Let_def sh nat_int di using vf r(1) by (simp add: add.commute)
  qed
qed

lemma value_at_counts_index:
  assumes s: "hdr_shape u m (hh_cfg h)" and v: "0 \<le> v" "v < 2 ^ 63"
  shows "value_at_index h (counts_index_for h v) = lowest_equivalent_value h v"
proof -
  obtain b q :: nat where c: "b + u + m \<le> 62" "q < 2 ^ (m + 1)" "b = 0 \<or> 2 ^ m \<le> q" "counts_index_for h v = int (b * 2 ^ m + q)"
    "lowest_equivalent_value h v = int q * 2 ^ (b + u)"
    using hdr_class [OF s v] by metis
  show ?thesis unfolding c(4,5) by (rule value_at_index_eq [OF s c(1-3)])
qed

text \<open>Every index below \<open>(bc+1) 2^m\<close> has a bucket and a sub-bucket.\<close>

lemma index_split:
  assumes "i < (bc + 1) * 2 ^ m" "1 \<le> bc"
  obtains b q :: nat where "i = b * 2 ^ m + q" "b < bc" "q < 2 ^ (m + 1)" "b = 0 \<or> 2 ^ m \<le> q"
proof (cases "i < 2 ^ m")
  case True
  with assms show thesis by (intro that [of 0 i]) auto
next
  case False
  define b where "b = i div 2 ^ m - 1"
  have "1 \<le> i div 2 ^ m" using False by (simp add: Suc_le_eq div_greater_zero_iff)
  then have d: "i div 2 ^ m = b + 1" by (simp add: b_def)
  then have i: "i = b * 2 ^ m + (2 ^ m + i mod 2 ^ m)" using div_mult_mod_eq [of i "2 ^ m"] by (simp add: algebra_simps)
  have "i div 2 ^ m < bc + 1" using assms(1) by (simp add: less_mult_imp_div_less)
  with d have "b < bc" by simp
  then show thesis by (intro that [OF i]) auto
qed

subsection \<open>Recording\<close>

text \<open>\<open>hdr_holds h vs\<close>: the histogram \<open>h\<close> has counted exactly the values \<open>vs\<close>.\<close>

definition hdr_holds :: "HdrHistogram \<Rightarrow> int list \<Rightarrow> bool" where
  "hdr_holds h vs \<longleftrightarrow> hdr_cfg_ok (hh_cfg h) \<and> normalizing_index_offset h = 0 \<and> length (counts h) = nat (counts_len (hh_cfg h)) \<and>
     (\<forall>v \<in> set vs. 0 \<le> v \<and> v < 2 ^ 63 \<and> counts_index_for h v < counts_len (hh_cfg h)) \<and>
     (\<forall>i < length (counts h). counts h ! i = int (length (filter (\<lambda>v. counts_index_for h v = int i) vs))) \<and>
     total_count h = int (length vs) \<and>
     min_value h = Min (insert int64_max (set vs - {0})) \<and> max_value h = Max (insert 0 (set vs))"

lemma counts_index_cong: "hh_cfg h = hh_cfg h' \<Longrightarrow> counts_index_for h v = counts_index_for h' v"
  by (simp add: counts_index_for_def counts_index_def get_bucket_index_def)

lemma counts_index_nonneg:
  assumes "hdr_cfg_ok (hh_cfg h)" "0 \<le> v" "v < 2 ^ 63"
  shows "0 \<le> counts_index_for h v"
proof -
  from assms(1) obtain u m where "hdr_shape u m (hh_cfg h)" by (auto simp: hdr_cfg_ok_def)
  from hdr_class [OF this assms(2,3)] show ?thesis by (metis of_nat_0_le_iff)
qed

lemma counts_index_trackable:
  assumes "hdr_cfg_ok (hh_cfg h)" "0 \<le> v" "v \<le> highest_trackable_value (hh_cfg h)"
  shows "v < 2 ^ 63" "counts_index_for h v < counts_len (hh_cfg h)"
proof -
  from assms(1) obtain u m bc where c: "hdr_shape u m (hh_cfg h)" "1 \<le> bc" "counts_len (hh_cfg h) = int ((bc + 1) * 2 ^ m)"
     "u + m + bc \<le> 63" "highest_trackable_value (hh_cfg h) < 2 ^ (u + m + bc)" by (auto simp: hdr_cfg_ok_def)
  have v1: "v < 2 ^ (u + m + bc)" using c(5) assms(3) by linarith
  also have "(2 :: int) ^ (u + m + bc) \<le> 2 ^ 63" using c(4) by (intro power_increasing) auto
  finally show v63: "v < 2 ^ 63" .
  obtain b q :: nat where k: "int q = v div 2 ^ (b + u)" "q < 2 ^ (m + 1)" "b = 0 \<or> 2 ^ m \<le> q" "counts_index_for h v = int (b * 2 ^ m + q)"
    using hdr_class [OF c(1) assms(2) v63] by metis
  have "b < bc"
  proof (cases "b = 0")
    case False
    have r: "int q * 2 ^ (b + u) \<le> v" "v < (int q + 1) * 2 ^ (b + u)" unfolding k(1) by (rule int_div_bounds, simp)+
    have "2 ^ (b + u + m) \<le> v" using pow2_bucket(2) [OF r k(2)] k(3) False by blast
    with v1 have "(2 :: int) ^ (b + u + m) < 2 ^ (u + m + bc)" by linarith
    from power_less_imp_less_exp [OF _ this] show ?thesis by simp
  qed (use c in simp)
  then have "(b + 2) * 2 ^ m \<le> (bc + 1) * 2 ^ m" by (intro mult_right_mono) auto
  moreover have "b * 2 ^ m + q < (b + 2) * 2 ^ m" using k(2) by (simp add: algebra_simps)
  ultimately show "counts_index_for h v < counts_len (hh_cfg h)" unfolding k c(3) by linarith
qed

lemma hdr_new_holds: "hdr_cfg_ok c \<Longrightarrow> hdr_holds (hdr_new c) []"
  by (simp add: hdr_holds_def hdr_new_def)

lemma filter_length_s64: "length xs < 2 ^ 62 \<Longrightarrow> s64 (int (length (filter P xs)) + 1) = int (length (filter P xs)) + 1"
  using le_less_trans [OF length_filter_le [of P xs]] by (intro s64_id) fastforce+

lemma record_value_holds:
  assumes H: "hdr_holds h vs" and v: "v < 2 ^ 63" and n: "length vs < 2 ^ 62" and r: "record_value v h = (ok, h')"
  shows "ok \<longleftrightarrow> 0 \<le> v \<and> counts_index_for h v < counts_len (hh_cfg h)" and "\<not> ok \<Longrightarrow> h' = h"
    and "hdr_holds h' (if ok then vs @ [v] else vs)" and "hh_cfg h' = hh_cfg h"
proof -
  have len: "hh_counts_len h = counts_len (hh_cfg h)" "0 \<le> counts_len (hh_cfg h)"
    using H by (auto simp: hdr_holds_def hh_counts_len_def hdr_cfg_ok_def)
  show ok: "ok \<longleftrightarrow> 0 \<le> v \<and> counts_index_for h v < counts_len (hh_cfg h)"
    using r len counts_index_nonneg [of h v] H v
    by (auto simp: record_value_def record_values_def Let_def hdr_holds_def split: if_splits)
  show same: "\<not> ok \<Longrightarrow> h' = h"
    using r by (auto simp: record_value_def record_values_def Let_def split: if_splits)
  have upd: "h' = update_min_max v (counts_inc_normalised (counts_index_for h v) 1 h)" if ok
    using r that by (auto simp: record_value_def record_values_def Let_def split: if_splits)
  show cfg: "hh_cfg h' = hh_cfg h"
    using upd same by (cases ok) (auto simp: update_min_max_def counts_inc_normalised_def Let_def)
  show "hdr_holds h' (if ok then vs @ [v] else vs)"
  proof (cases ok)
    case False
    with same H show ?thesis by simp
  next
    case True
    have v0: "0 \<le> v" "counts_index_for h v < counts_len (hh_cfg h)" using True ok by auto
    define i where "i = nat (counts_index_for h v)"
    have i: "counts_index_for h v = int i" "i < length (counts h)"
      using counts_index_nonneg [of h v] v0 v H by (auto simp: i_def hdr_holds_def)
    have idx: "counts_index_for h' w = counts_index_for h w" for w by (rule counts_index_cong) (rule cfg)
    have cn: "counts h ! j = int (length (filter (\<lambda>w. counts_index_for h w = int j) vs))" if "j < length (counts h)" for j
      using H that by (simp add: hdr_holds_def)
    have f: "normalizing_index_offset h = 0" "total_count h = int (length vs)" using H by (auto simp: hdr_holds_def)
    have h': "counts h' = (counts h)[i := s64 (counts h ! i + 1)]" "total_count h' = s64 (total_count h + 1)"
      "normalizing_index_offset h' = 0" "min_value h' = (if v \<noteq> 0 then min (min_value h) v else min_value h)"
      "max_value h' = max (max_value h) v"
      using upd [OF True] f i by (auto simp: update_min_max_def counts_inc_normalised_def Let_def normalize_index_def)
    have "counts h' ! j = int (length (filter (\<lambda>w. counts_index_for h' w = int j) (vs @ [v])))" if "j < length (counts h')" for j
      using that i cn [of j] filter_length_s64 [OF n] by (auto simp: h' idx nth_list_update)
    moreover have "total_count h' = int (length (vs @ [v]))" using f n by (simp add: h' s64_id)
    moreover have "min_value h' = Min (insert int64_max (set (vs @ [v]) - {0}))"
    proof -
      have "min_value h = Min (insert int64_max (set vs - {0}))" using H by (simp add: hdr_holds_def)
      moreover have "insert int64_max (set (vs @ [v]) - {0}) = (if v = 0 then id else insert v) (insert int64_max (set vs - {0}))" by auto
      ultimately show ?thesis by (simp add: h' min.commute)
    qed
    moreover have "max_value h' = Max (insert 0 (set (vs @ [v])))"
    proof -
      have "max_value h = Max (insert 0 (set vs))" using H by (simp add: hdr_holds_def)
      moreover have "insert 0 (set (vs @ [v])) = insert v (insert 0 (set vs))" by auto
      ultimately show ?thesis by (simp add: h' max.commute)
    qed
    ultimately show ?thesis using H True v0 v by (auto simp: hdr_holds_def cfg idx h')
  qed
qed

lemma counts_index_mono:
  assumes s: "hdr_shape u m (hh_cfg h)" and v: "0 \<le> v" "v \<le> w" "w < 2 ^ 63"
  shows "counts_index_for h v \<le> counts_index_for h w"
proof -
  have v63: "v < 2 ^ 63" and w0: "0 \<le> w" using v by linarith+
  obtain b q :: nat where k: "int q = v div 2 ^ (b + u)" "q < 2 ^ (m + 1)" "b = 0 \<or> 2 ^ m \<le> q" "counts_index_for h v = int (b * 2 ^ m + q)"
    using hdr_class [OF s v(1) v63] by metis
  obtain c r :: nat where l: "int r = w div 2 ^ (c + u)" "r < 2 ^ (m + 1)" "c = 0 \<or> 2 ^ m \<le> r" "counts_index_for h w = int (c * 2 ^ m + r)"
    using hdr_class [OF s w0 v(3)] by metis
  have kb: "int q * 2 ^ (b + u) \<le> v" "v < (int q + 1) * 2 ^ (b + u)" unfolding k(1) by (rule int_div_bounds, simp)+
  have lb: "int r * 2 ^ (c + u) \<le> w" "w < (int r + 1) * 2 ^ (c + u)" unfolding l(1) by (rule int_div_bounds, simp)+
  consider "b = c" | "b < c" | "c < b" by linarith
  then have "b * 2 ^ m + q \<le> c * 2 ^ m + r"
  proof cases
    case 1
    have "int q \<le> int r" unfolding k(1) l(1) 1 using v(2) by (intro zdiv_mono1) auto
    with 1 show ?thesis by simp
  next
    case 2
    then have "(b + 2) * 2 ^ m \<le> (c + 1) * 2 ^ m" by (intro mult_right_mono) auto
    with 2 k(2) l(3) show ?thesis by (simp add: algebra_simps)
  next
    case 3
    then have "2 ^ (b + u + m) \<le> v" using pow2_bucket(2) [OF kb k(2)] k(3) by simp
    moreover have "(2 :: int) ^ (c + u + m + 1) \<le> 2 ^ (b + u + m)" using 3 by (intro power_increasing) auto
    ultimately show ?thesis using pow2_bucket(1) [OF lb l(2)] v(2) by linarith
  qed
  then show ?thesis unfolding k(4) l(4) by (simp only: of_nat_le_iff)
qed

lemma same_index_iff:
  assumes s: "hdr_shape u m (hh_cfg h)" and v: "0 \<le> v" "v < 2 ^ 63" and w: "0 \<le> w" "w < 2 ^ 63"
  shows "counts_index_for h v = counts_index_for h w \<longleftrightarrow> lowest_equivalent_value h v = lowest_equivalent_value h w"
proof
  show "lowest_equivalent_value h v = lowest_equivalent_value h w" if "counts_index_for h v = counts_index_for h w"
    using value_at_counts_index [OF s v] value_at_counts_index [OF s w] that by simp
  show "counts_index_for h v = counts_index_for h w" if e: "lowest_equivalent_value h v = lowest_equivalent_value h w"
  proof -
    have "counts_index_for h (lowest_equivalent_value h x) = counts_index_for h x" if "0 \<le> x" "x < 2 ^ 63" for x
      using hdr_class_const(1) [OF s that order_refl] hdr_range [OF s that] by simp
    from this [OF v] this [OF w] e show ?thesis by simp
  qed
qed

fun hdr_records :: "int list \<Rightarrow> HdrHistogram \<Rightarrow> bool list \<times> HdrHistogram" where
  "hdr_records [] h = ([], h)"
| "hdr_records (v # vs) h = (case record_value v h of (ok, h1) \<Rightarrow> (case hdr_records vs h1 of (oks, h2) \<Rightarrow> (ok # oks, h2)))"

lemma hdr_records_holds:
  "hdr_holds h us \<Longrightarrow> \<forall>v \<in> set vs. 0 \<le> v \<and> v \<le> highest_trackable_value (hh_cfg h) \<Longrightarrow> length us + length vs < 2 ^ 62 \<Longrightarrow>
   hdr_records vs h = (oks, h') \<Longrightarrow> oks = map (\<lambda>_. True) vs \<and> hdr_holds h' (us @ vs) \<and> hh_cfg h' = hh_cfg h"
proof (induction vs arbitrary: h us oks h')
  case Nil
  then show ?case by simp
next
  case (Cons v vs)
  obtain ok h1 where r: "record_value v h = (ok, h1)" by fastforce
  obtain oks2 h2 where r2: "hdr_records vs h1 = (oks2, h2)" by fastforce
  have ok: "hdr_cfg_ok (hh_cfg h)" using Cons.prems(1) by (simp add: hdr_holds_def)
  note T = counts_index_trackable [OF ok, of v]
  have v: "0 \<le> v" "v < 2 ^ 63" "counts_index_for h v < counts_len (hh_cfg h)" using T Cons.prems(2) by auto
  have n: "length us < 2 ^ 62" using Cons.prems(3) by simp
  note R = record_value_holds [OF Cons.prems(1) v(2) n r]
  have "ok" using R(1) v by simp
  with R have "hdr_holds h1 (us @ [v])" "hh_cfg h1 = hh_cfg h" by auto
  with Cons.IH [OF this(1) _ _ r2] Cons.prems r r2 \<open>ok\<close> show ?case by simp
qed

text \<open>
  C39: What the constructor of the configuration does for a positive lowest value and one to five significant figures. If the magnitudes of the lowest value and
  of the resolution add up to at most 61, it returns: the error for a highest value that is too small, or a configuration whose counters cover every value up to
  the highest. Otherwise, for a highest value that is not negative, it never returns, since the buckets are counted before the magnitudes are checked.
\<close>

theorem hdr_constructor_outcome:
  assumes "1 \<le> lo" "lo < 2 ^ 63" "hi < 2 ^ 63" "1 \<le> sf" "sf \<le> 5"
  shows "(if bitlen lo - 1 + get_sub_bucket_half_count_magnitude sf \<le> 61
      then if s64 (lo * 2) > hi then hdr_config lo hi sf = Some (Inl HighestTooSmall)
        else \<exists>c. hdr_config lo hi sf = Some (Inr c) \<and>
          (\<forall>v. 0 \<le> v \<and> v \<le> hi \<longrightarrow> 0 \<le> counts_index_for (hdr_new c) v \<and> counts_index_for (hdr_new c) v < counts_len c)
      else 0 \<le> hi \<longrightarrow> hdr_config lo hi sf = None)"
proof -
  obtain u m where um: "bitlen lo - 1 = int u" "get_sub_bucket_half_count_magnitude sf = int m" and
    n: "u + m \<ge> 62 \<Longrightarrow> 0 \<le> hi \<Longrightarrow> hdr_config lo hi sf = None" and
    r: "u + m \<le> 61 \<Longrightarrow> \<exists>c. hdr_cfg_ok c \<and> lowest_trackable_value c = lo \<and> highest_trackable_value c = hi \<and> significant_figures c = sf \<and>
       hdr_config lo hi sf = Some (if s64 (lo * 2) > hi then Inl HighestTooSmall else Inr c)"
    using hdr_config_cases [OF assms(1,4,5,3)] by metis
  have cover: "0 \<le> counts_index_for (hdr_new c) v \<and> counts_index_for (hdr_new c) v < counts_len c"
    if "hdr_cfg_ok c" "highest_trackable_value c = hi" "0 \<le> v" "v \<le> hi" for c v
  proof -
    have h: "hh_cfg (hdr_new c) = c" by (simp add: hdr_new_def)
    have ok: "hdr_cfg_ok (hh_cfg (hdr_new c))" "highest_trackable_value (hh_cfg (hdr_new c)) = hi" using that(1,2) h by auto
    show ?thesis using counts_index_trackable [OF ok(1) that(3)] counts_index_nonneg [OF ok(1) that(3)] ok(2) that(4) h by simp
  qed
  show ?thesis
  proof (cases "u + m \<le> 61")
    case True
    with r obtain c where c: "hdr_cfg_ok c" "highest_trackable_value c = hi" "hdr_config lo hi sf = Some (if s64 (lo * 2) > hi then Inl HighestTooSmall else Inr c)" by blast
    from True have i: "int u + int m \<le> 61" by simp
    show ?thesis unfolding um using i c cover [OF c(1,2)] by auto
  next
    case False
    then have "u + m \<ge> 62" "\<not> int u + int m \<le> 61" by auto
    with n show ?thesis unfolding um by simp
  qed
qed

lemma hdr_config_1_30_1:
  "hdr_config 1 30 1 = Some (Inr \<lparr>lowest_trackable_value = 1, highest_trackable_value = 30, significant_figures = 1,
     unit_magnitude = 0, sub_bucket_half_count_magnitude = 4, sub_bucket_count = 32, sub_bucket_half_count = 16,
     sub_bucket_mask = 31, bucket_count = 1, counts_len = 32\<rparr>)"
proof -
  have b: "bitlen 1 = 1" "bitlen 19 = 5" using bitlen_eqI [of 0 1] bitlen_eqI [of 4 19] by simp_all
  have "buckets_needed_to_cover_value 30 32 0 = Some 1"
    by (simp add: buckets_needed_to_cover_value_def s64_def buckets_loop.simps [of 30 32 1])
  then show ?thesis
    by (simp add: hdr_config_def get_sub_bucket_half_count_magnitude_def b s64_def s32_def)
qed

lemma bitlen_2_46: "bitlen (2 ^ 46 :: int) = 47" "get_sub_bucket_half_count_magnitude 5 = 17" "get_sub_bucket_half_count_magnitude 1 = 4"
  using bitlen_eqI [of 46 "2 ^ 46"] bitlen_eqI [of 17 199999] bitlen_eqI [of 4 19] by (simp_all add: get_sub_bucket_half_count_magnitude_def Let_def)

theorem hdr_constructor_outcome_witness:
  "(\<exists>c. hdr_config 1 30 1 = Some (Inr c) \<and> counts_index_for (hdr_new c) 30 < counts_len c) \<and> hdr_config (2 ^ 46) (2 ^ 47) 5 = None"
proof -
  have "s64 (1 * 2) = 2" "bitlen (1 :: int) = 1" using bitlen_eqI [of 0 1] by (simp_all add: s64_def)
  then have "\<exists>c. hdr_config 1 30 1 = Some (Inr c) \<and> counts_index_for (hdr_new c) 30 < counts_len c"
    using hdr_constructor_outcome [of 1 30 1] bitlen_2_46 by auto
  moreover have "hdr_config (2 ^ 46) (2 ^ 47) 5 = None" using hdr_constructor_outcome [of "2 ^ 46" "2 ^ 47" 5] bitlen_2_46 by simp
  ultimately show ?thesis ..
qed

text \<open>
  C13: The promised precision. Every value lies between the lowest and the highest value equivalent to it, all values of that
  range share its counter, and the range is no wider than the lowest trackable value or than the value divided by
  \<open>10^significant_figures\<close>.
\<close>

theorem hdr_precision:
  assumes "hdr_config lo hi sf = Some (Inr c)" "lo < 2 ^ 63" "hi < 2 ^ 63" "0 \<le> v" "v < 2 ^ 63"
  shows "lowest_equivalent_value (hdr_new c) v \<le> v \<and> v \<le> highest_equivalent_value (hdr_new c) v \<and>
    (\<forall>w. lowest_equivalent_value (hdr_new c) v \<le> w \<and> w \<le> highest_equivalent_value (hdr_new c) v \<longrightarrow>
       counts_index_for (hdr_new c) w = counts_index_for (hdr_new c) v) \<and>
    (size_of_equivalent_value_range (hdr_new c) v \<le> lo \<or> size_of_equivalent_value_range (hdr_new c) v * 10 ^ nat sf \<le> v)"
proof -
  let ?h = "hdr_new c"
  have "hdr_cfg_ok c" "lowest_trackable_value c = lo" "significant_figures c = sf"
    using hdr_config_ok [OF assms(1,3)] by auto
  then obtain u m where s: "hdr_shape u m (hh_cfg ?h)" and p: "10 ^ nat sf \<le> (2 :: int) ^ m" "2 ^ u \<le> lo"
    by (auto simp: hdr_cfg_ok_def hdr_new_def)
  note R = hdr_range [OF s assms(4,5)] and H = highest_equivalent_eq [OF s assms(4,5)]
  have "\<forall>w. lowest_equivalent_value ?h v \<le> w \<and> w \<le> highest_equivalent_value ?h v \<longrightarrow> counts_index_for ?h w = counts_index_for ?h v"
  proof (intro allI impI)
    fix w assume "lowest_equivalent_value ?h v \<le> w \<and> w \<le> highest_equivalent_value ?h v"
    with H show "counts_index_for ?h w = counts_index_for ?h v" by (intro hdr_class_const(1) [OF s assms(4,5)]) linarith+
  qed
  moreover have "size_of_equivalent_value_range ?h v \<le> lo \<or> size_of_equivalent_value_range ?h v * 10 ^ nat sf \<le> v"
  proof -
    obtain b q :: nat where k: "b = 0 \<or> 2 ^ m \<le> q" "lowest_equivalent_value ?h v = int q * 2 ^ (b + u)"
      "size_of_equivalent_value_range ?h v = 2 ^ (b + u)"
      using hdr_class [OF s assms(4,5)] by metis
    show ?thesis
    proof (cases "b = 0")
      case True
      with p k show ?thesis by simp
    next
      case False
      then have "2 ^ m \<le> int q" using k(1) by (metis of_nat_le_iff of_nat_numeral of_nat_power)
      with p(1) have "10 ^ nat sf \<le> int q" by linarith
      then have "10 ^ nat sf * 2 ^ (b + u) \<le> int q * 2 ^ (b + u)" by (intro mult_right_mono) auto
      also have "\<dots> \<le> v" using k(2) R(2) by simp
      finally show ?thesis by (simp add: k(3) mult.commute)
    qed
  qed
  moreover have "v \<le> highest_equivalent_value ?h v" using R(3) H by linarith
  ultimately show ?thesis using R(2) by blast
qed

theorem hdr_precision_witness:
  "\<exists>c. hdr_config 1 30 1 = Some (Inr c) \<and> lowest_equivalent_value (hdr_new c) 45 \<le> 45 \<and> 45 \<le> highest_equivalent_value (hdr_new c) 45 \<and>
    (size_of_equivalent_value_range (hdr_new c) 45 \<le> 1 \<or> size_of_equivalent_value_range (hdr_new c) 45 * 10 \<le> 45)"
  using hdr_precision [OF hdr_config_1_30_1, of 45] hdr_config_1_30_1 by simp

text \<open>
  Values and counter indices correspond: the value of an index is the smallest one counted there, so going from an index to
  its value and back is the identity, and going from a value to its index and back gives the lowest equivalent value.
\<close>

theorem hdr_index_roundtrip:
  assumes "hdr_config lo hi sf = Some (Inr c)" "lo < 2 ^ 63" "hi < 2 ^ 63"
  shows "(0 \<le> i \<and> i < counts_len c \<longrightarrow> counts_index_for (hdr_new c) (value_at_index (hdr_new c) i) = i) \<and>
    (0 \<le> v \<and> v < 2 ^ 63 \<longrightarrow> value_at_index (hdr_new c) (counts_index_for (hdr_new c) v) = lowest_equivalent_value (hdr_new c) v)"
proof -
  have "hdr_cfg_ok c" using hdr_config_ok [OF assms(1,3)] by auto
  then obtain u m bc where s: "hdr_shape u m (hh_cfg (hdr_new c))" and bc: "1 \<le> bc" "counts_len c = int ((bc + 1) * 2 ^ m)" "u + m + bc \<le> 63"
    by (auto simp: hdr_cfg_ok_def hdr_new_def)
  have "counts_index_for (hdr_new c) (value_at_index (hdr_new c) i) = i" if i: "0 \<le> i" "i < counts_len c"
  proof -
    have "nat i < (bc + 1) * 2 ^ m" using i bc(2) by linarith
    then obtain b q :: nat where k: "nat i = b * 2 ^ m + q" "b < bc" "q < 2 ^ (m + 1)" "b = 0 \<or> 2 ^ m \<le> q"
      using index_split [of "nat i" bc m] bc(1) by metis
    have i': "i = int (b * 2 ^ m + q)" using k(1) i(1) by linarith
    have b: "b + u + m \<le> 62" using k(2) bc(3) by simp
    show ?thesis unfolding i' value_at_index_eq [OF s b k(3,4)]
      by (rule hdr_classI(3) [OF s b k(3,4)]) (simp_all add: distrib_right)
  qed
  with value_at_counts_index [OF s] show ?thesis by blast
qed

theorem hdr_index_roundtrip_witness:
  "\<exists>c. hdr_config 1 30 1 = Some (Inr c) \<and> counts_index_for (hdr_new c) (value_at_index (hdr_new c) 31) = 31 \<and>
    value_at_index (hdr_new c) (counts_index_for (hdr_new c) 77) = lowest_equivalent_value (hdr_new c) 77"
  using hdr_index_roundtrip [OF hdr_config_1_30_1, of 31 77] hdr_config_1_30_1 by simp

lemma hdr_holds_count:
  assumes H: "hdr_holds h vs" and v: "0 \<le> v" "v < 2 ^ 63" "counts_index_for h v < counts_len (hh_cfg h)"
  shows "count_at_value h v = Some (int (length (filter (\<lambda>w. values_are_equivalent h w v) vs)))"
proof -
  have ok: "hdr_cfg_ok (hh_cfg h)" and vs: "\<forall>w \<in> set vs. 0 \<le> w \<and> w < 2 ^ 63" using H by (auto simp: hdr_holds_def)
  then obtain u m where s: "hdr_shape u m (hh_cfg h)" by (auto simp: hdr_cfg_ok_def)
  define i where "i = nat (counts_index_for h v)"
  have i: "counts_index_for h v = int i" "i < length (counts h)"
    using counts_index_nonneg [OF ok v(1,2)] v(3) H by (auto simp: i_def hdr_holds_def)
  have "normalizing_index_offset h = 0" using H by (simp add: hdr_holds_def)
  then have "count_at_value h v = Some (counts h ! i)"
    using i by (simp add: count_at_value_def counts_get_normalised_def normalize_index_def hh_counts_len_def Let_def)
  also have "counts h ! i = int (length (filter (\<lambda>w. counts_index_for h w = int i) vs))" using H i by (simp add: hdr_holds_def)
  also have "filter (\<lambda>w. counts_index_for h w = int i) vs = filter (\<lambda>w. values_are_equivalent h w v) vs"
    using same_index_iff [OF s _ _ v(1,2)] vs by (intro filter_cong) (auto simp: values_are_equivalent_def i(1) [symmetric])
  finally show ?thesis .
qed

lemma hdr_holds_min:
  assumes H: "hdr_holds h vs" and ne: "vs \<noteq> []" and lt: "\<forall>v \<in> set vs. v < int64_max"
  shows "hdr_min h = Some (lowest_equivalent_value h (Min (set vs)))"
proof -
  have ok: "hdr_cfg_ok (hh_cfg h)" and vs: "\<forall>w \<in> set vs. 0 \<le> w \<and> w < 2 ^ 63" using H by (auto simp: hdr_holds_def)
  then obtain u m bc where s: "hdr_shape u m (hh_cfg h)" and cl: "counts_len (hh_cfg h) = int ((bc + 1) * 2 ^ m)" by (auto simp: hdr_cfg_ok_def)
  let ?a = "Min (set vs)"
  have a: "?a \<in> set vs" using ne by simp
  have a0: "0 \<le> ?a" "?a < 2 ^ 63" using vs a by auto
  have i0: "counts_index_for h 0 = 0" "lowest_equivalent_value h 0 = 0"
    using hdr_classI(3,4) [OF s, of 0 0 0] s by (simp_all add: hdr_shape_def)
  have len: "0 < length (counts h)" using H cl by (simp add: hdr_holds_def nat_mult_distrib nat_add_distrib)
  have c0: "count_at_index h 0 = Some (int (length (filter (\<lambda>w. counts_index_for h w = 0) vs)))"
  proof -
    have "normalizing_index_offset h = 0" "counts h ! 0 = int (length (filter (\<lambda>w. counts_index_for h w = int 0) vs))"
      using H len by (auto simp: hdr_holds_def)
    then show ?thesis using len by (simp add: count_at_index_def counts_get_normalised_def normalize_index_def hh_counts_len_def Let_def)
  qed
  show ?thesis
  proof (cases "\<exists>w \<in> set vs. counts_index_for h w = 0")
    case True
    then obtain w where w: "w \<in> set vs" "counts_index_for h w = 0" by blast
    have "counts_index_for h ?a \<le> 0"
      using counts_index_mono [OF s a0(1), of w] vs w by simp
    with counts_index_nonneg [OF ok a0] have "counts_index_for h ?a = counts_index_for h 0" using i0 by simp
    with same_index_iff [OF s a0, of 0] i0 have "lowest_equivalent_value h ?a = 0" by simp
    moreover from w have "filter (\<lambda>w. counts_index_for h w = 0) vs \<noteq> []" by (auto simp: filter_empty_conv)
    ultimately show ?thesis using c0 by (simp add: hdr_min_def)
  next
    case False
    then have f: "filter (\<lambda>w. counts_index_for h w = 0) vs = []" by (auto simp: filter_empty_conv)
    have nz: "set vs - {0} = set vs" using False i0 by auto
    have "min_value h = min int64_max ?a" using H ne by (simp add: hdr_holds_def nz)
    moreover have "?a < int64_max" using lt a by blast
    ultimately have "min_value h = ?a" "?a \<noteq> int64_max" by simp_all
    with c0 f show ?thesis by (simp add: hdr_min_def non_zero_min_def)
  qed
qed

text \<open>
  C12: Counting is exact up to the resolution: after recording any list of values between 0 and the highest trackable value, every
  recording has succeeded, the total is the length of the list, the count at a value is the number of recorded values equivalent
  to it, and \<open>min\<close> and \<open>max\<close> are the lowest equivalent of the smallest and the highest equivalent of the largest one.
\<close>

theorem hdr_counts_exact:
  assumes "hdr_config lo hi sf = Some (Inr c)" "lo < 2 ^ 63" "hi < 2 ^ 63"
    and "\<forall>v \<in> set vs. 0 \<le> v \<and> v \<le> hi" "length vs < 2 ^ 62" and "hdr_records vs (hdr_new c) = (oks, h)"
  shows "oks = map (\<lambda>_. True) vs \<and> total_count h = int (length vs) \<and>
    (\<forall>v. 0 \<le> v \<and> v \<le> hi \<longrightarrow> count_at_value h v = Some (int (length (filter (\<lambda>w. values_are_equivalent h w v) vs)))) \<and>
    (vs \<noteq> [] \<and> int64_max \<notin> set vs \<longrightarrow> hdr_min h = Some (lowest_equivalent_value h (Min (set vs)))) \<and>
    hdr_max h = (if set vs \<subseteq> {0} then 0 else highest_equivalent_value h (Max (set vs)))"
proof -
  have c: "hdr_cfg_ok c" "highest_trackable_value c = hi"
    using hdr_config_ok [OF assms(1,3)] by auto
  have cfg: "hh_cfg (hdr_new c) = c" by (simp add: hdr_new_def)
  have R: "oks = map (\<lambda>_. True) vs" "hdr_holds h vs" "hh_cfg h = c"
    using hdr_records_holds [OF hdr_new_holds [OF c(1)] _ _ assms(6)] assms(4,5) c(2) cfg by auto
  have t: "v < 2 ^ 63" "counts_index_for h v < counts_len (hh_cfg h)" if "0 \<le> v" "v \<le> hi" for v
    using counts_index_trackable [of h v] that c R(3) by simp_all
  have "v < int64_max" if "v \<in> set vs" "int64_max \<notin> set vs" for v
  proof -
    have "v < 2 ^ 63" using t(1) assms(4) that(1) by blast
    moreover have "v \<noteq> int64_max" using that by blast
    ultimately show ?thesis by (simp add: int64_max_def)
  qed
  then have mn: "vs \<noteq> [] \<and> int64_max \<notin> set vs \<longrightarrow> hdr_min h = Some (lowest_equivalent_value h (Min (set vs)))"
    using hdr_holds_min [OF R(2)] by blast
  have "hdr_max h = (if set vs \<subseteq> {0} then 0 else highest_equivalent_value h (Max (set vs)))"
  proof (cases "set vs \<subseteq> {0}")
    case True
    then have "insert 0 (set vs) = {0}" by auto
    with R(2) True show ?thesis by (simp add: hdr_max_def hdr_holds_def)
  next
    case False
    then obtain w where w: "w \<in> set vs" "0 < w" using assms(4) by (metis insertCI order_neq_le_trans subsetI singletonI)
    then have p: "0 < Max (set vs)" by (meson List.finite_set Max_ge order_less_le_trans)
    have "vs \<noteq> []" using w by auto
    then have "max_value h = Max (set vs)" using R(2) p by (simp add: hdr_holds_def)
    with p False show ?thesis by (simp add: hdr_max_def)
  qed
  with R mn hdr_holds_count [OF R(2)] t show ?thesis by (auto simp: hdr_holds_def)
qed

theorem hdr_counts_exact_witness:
  "\<exists>c h. hdr_config 1 30 1 = Some (Inr c) \<and> hdr_records [3, 9, 3] (hdr_new c) = ([True, True, True], h) \<and> total_count h = 3 \<and>
     hdr_min h = Some (lowest_equivalent_value h 3) \<and> hdr_max h = highest_equivalent_value h 9"
proof -
  let ?vs = "[3, 9, 3] :: int list"
  from hdr_config_1_30_1 obtain c where c: "hdr_config 1 30 1 = Some (Inr c)" by blast
  obtain oks h where r: "hdr_records ?vs (hdr_new c) = (oks, h)" by fastforce
  have "hdr_min h = Some (lowest_equivalent_value h (Min (set ?vs)))" "oks = map (\<lambda>_. True) ?vs" "total_count h = 3"
    "hdr_max h = (if set ?vs \<subseteq> {0} then 0 else highest_equivalent_value h (Max (set ?vs)))"
    using hdr_counts_exact [OF c _ _ _ _ r] by (simp_all add: int64_max_def)
  with c r show ?thesis by auto
qed

end
