(* ===== verification/HdrIterators.thy ===== *)
theory HdrIterators
  imports Histograms
begin

text \<open>
  The histogram iterators of \<open>hdr/Iterator.hpp\<close> and \<open>hdr/Iterator.cpp\<close> and the statistics of \<open>hdr/Utility.cpp\<close> that are
  computed with them. Percentiles, means and logarithmic bases are \<open>double\<close> in the code and rational numbers here. An
  access outside the counters is \<open>None\<close>; the iterators never make one.
\<close>

subsection \<open>HdrIterator\<close>

record hdr_iterator =
  it_counts_index :: int
  it_total_count :: int
  it_count :: int
  it_cumulative_count :: int
  it_value :: int
  it_highest_equivalent_value :: int
  it_lowest_equivalent_value :: "int option"
  it_median_equivalent_value :: "int option"
  it_value_iterated_from :: int
  it_value_iterated_to :: int

text \<open>The constructor leaves the lowest and the median equivalent value uninitialised.\<close>

definition it_new :: "HdrHistogram \<Rightarrow> hdr_iterator" where
  "it_new h = \<lparr>it_counts_index = -1, it_total_count = total_count h, it_count = 0, it_cumulative_count = 0, it_value = 0,
     it_highest_equivalent_value = 0, it_lowest_equivalent_value = None, it_median_equivalent_value = None,
     it_value_iterated_from = 0, it_value_iterated_to = 0\<rparr>"

definition has_buckets :: "HdrHistogram \<Rightarrow> hdr_iterator \<Rightarrow> bool" where
  "has_buckets h it \<longleftrightarrow> it_counts_index it < hh_counts_len h"

definition has_next :: "hdr_iterator \<Rightarrow> bool" where
  "has_next it \<longleftrightarrow> it_cumulative_count it < it_total_count it"

definition peek_next_value_from_index :: "HdrHistogram \<Rightarrow> hdr_iterator \<Rightarrow> int" where
  "peek_next_value_from_index h it = value_at_index h (it_counts_index it + 1)"

definition next_value_greater_than_reporting_level_upper_bound :: "HdrHistogram \<Rightarrow> int \<Rightarrow> hdr_iterator \<Rightarrow> bool" where
  "next_value_greater_than_reporting_level_upper_bound h bound it \<longleftrightarrow>
     (if it_counts_index it \<ge> hh_counts_len h then False else peek_next_value_from_index h it > bound)"

definition move_next :: "HdrHistogram \<Rightarrow> hdr_iterator \<Rightarrow> (bool \<times> hdr_iterator) option" where
  "move_next h it =
     (let it1 = it\<lparr>it_counts_index := it_counts_index it + 1\<rparr> in
      if \<not> has_buckets h it1 then Some (False, it1)
      else case counts_get_normalised h (it_counts_index it1) of
        None \<Rightarrow> None
      | Some n \<Rightarrow>
          let v = value_at_index h (it_counts_index it1) in
          Some (True, it1\<lparr>it_count := n, it_cumulative_count := s64 (it_cumulative_count it1 + n), it_value := v,
            it_highest_equivalent_value := highest_equivalent_value h v,
            it_lowest_equivalent_value := Some (lowest_equivalent_value h v),
            it_median_equivalent_value := Some (median_equivalent_value h v)\<rparr>))"

definition basic_next :: "HdrHistogram \<Rightarrow> hdr_iterator \<Rightarrow> (bool \<times> hdr_iterator) option" where
  "basic_next h it =
     (if \<not> has_next it \<or> it_counts_index it \<ge> hh_counts_len h then Some (False, it)
      else map_option (\<lambda>(_, it1). (True, it1)) (move_next h it))"

definition update_iterated_values :: "int \<Rightarrow> hdr_iterator \<Rightarrow> hdr_iterator" where
  "update_iterated_values new_value it = it\<lparr>it_value_iterated_from := it_value_iterated_to it, it_value_iterated_to := new_value\<rparr>"

definition it_do_next :: "HdrHistogram \<Rightarrow> hdr_iterator \<Rightarrow> (bool \<times> hdr_iterator) option" where
  "it_do_next h it = (case move_next h it of
     None \<Rightarrow> None
   | Some (result, it1) \<Rightarrow> Some (result, if result then update_iterated_values (it_value it1) it1 else it1))"

subsection \<open>HdrRecordedIterator\<close>

text \<open>The iterator together with \<open>count_added_in_this_iteration_step_\<close>.\<close>

partial_function (option) recorded_do_next :: "HdrHistogram \<Rightarrow> hdr_iterator \<times> int \<Rightarrow> (bool \<times> hdr_iterator \<times> int) option" where
  "recorded_do_next h s = (case basic_next h (fst s) of
     None \<Rightarrow> None
   | Some (moved, it1) \<Rightarrow>
       if \<not> moved then Some (False, it1, snd s)
       else if it_count it1 \<noteq> 0 then Some (True, update_iterated_values (it_value it1) it1, it_count it1)
       else recorded_do_next h (it1, snd s))"

subsection \<open>HdrLinearIterator and HdrLogIterator\<close>

record level_iterator =
  lv_it :: hdr_iterator
  lv_added :: int
  lv_level :: int
  lv_level_lowest :: int

definition lv_new :: "HdrHistogram \<Rightarrow> int \<Rightarrow> level_iterator" where
  "lv_new h units = \<lparr>lv_it = it_new h, lv_added = 0, lv_level = units, lv_level_lowest = lowest_equivalent_value h units\<rparr>"

text \<open>The body both iterators share; \<open>adv\<close> is how the reporting level grows.\<close>

partial_function (option) level_loop ::
  "(int \<Rightarrow> int) \<Rightarrow> HdrHistogram \<Rightarrow> level_iterator \<Rightarrow> (bool \<times> level_iterator) option" where
  "level_loop adv h s =
     (if it_value (lv_it s) \<ge> lv_level_lowest s then
        let level = adv (lv_level s) in
        Some (True, s\<lparr>lv_it := update_iterated_values (lv_level s) (lv_it s), lv_level := level,
          lv_level_lowest := lowest_equivalent_value h level\<rparr>)
      else case move_next h (lv_it s) of
        None \<Rightarrow> None
      | Some (moved, it1) \<Rightarrow>
          if \<not> moved then Some (True, s\<lparr>lv_it := it1\<rparr>)
          else level_loop adv h (s\<lparr>lv_it := it1, lv_added := s64 (lv_added s + it_count it1)\<rparr>))"

definition level_do_next :: "(int \<Rightarrow> int) \<Rightarrow> HdrHistogram \<Rightarrow> level_iterator \<Rightarrow> (bool \<times> level_iterator) option" where
  "level_do_next adv h s =
     (let s1 = s\<lparr>lv_added := 0\<rparr> in
      if has_next (lv_it s1) \<or> next_value_greater_than_reporting_level_upper_bound h (lv_level_lowest s1) (lv_it s1)
      then level_loop adv h s1 else Some (False, s1))"

definition linear_do_next :: "int \<Rightarrow> HdrHistogram \<Rightarrow> level_iterator \<Rightarrow> (bool \<times> level_iterator) option" where
  "linear_do_next value_units_per_bucket h s = level_do_next (\<lambda>level. s64 (level + value_units_per_bucket)) h s"

definition trunc_rat :: "rat \<Rightarrow> int" where
  "trunc_rat x = (if x \<ge> 0 then \<lfloor>x\<rfloor> else \<lceil>x\<rceil>)"

definition log_do_next :: "rat \<Rightarrow> HdrHistogram \<Rightarrow> level_iterator \<Rightarrow> (bool \<times> level_iterator) option" where
  "log_do_next log_base h s = level_do_next (\<lambda>level. s64 (trunc_rat (of_int level * log_base))) h s"

subsection \<open>HdrPercentileIterator\<close>

record percentile_iterator =
  pc_it :: hdr_iterator
  pc_seen_last_value :: bool
  pc_ticks_per_half_distance :: int
  pc_percentile_to_iterate_to :: rat
  pc_percentile :: rat

definition pc_new :: "HdrHistogram \<Rightarrow> int \<Rightarrow> percentile_iterator" where
  "pc_new h ticks = \<lparr>pc_it = it_new h, pc_seen_last_value = False, pc_ticks_per_half_distance = ticks,
     pc_percentile_to_iterate_to = 0, pc_percentile = 0\<rparr>"

text \<open>
  \<open>(log(x) / log(2)) + 1.0\<close> truncated, for \<open>x \<ge> 1\<close>, is the number of binary digits of the integer part of \<open>x\<close>.
\<close>

definition pc_report :: "HdrHistogram \<Rightarrow> percentile_iterator \<Rightarrow> percentile_iterator" where
  "pc_report h s =
     (let p = pc_percentile_to_iterate_to s;
          temp = bitlen \<lfloor>100 / (100 - p)\<rfloor>;
          half_distance = 2 ^ nat temp;
          percentile_reporting_ticks = pc_ticks_per_half_distance s * half_distance
      in s\<lparr>pc_it := update_iterated_values (highest_equivalent_value h (it_value (pc_it s))) (pc_it s), pc_percentile := p,
           pc_percentile_to_iterate_to := p + 100 / of_int percentile_reporting_ticks\<rparr>)"

partial_function (option) pc_loop :: "HdrHistogram \<Rightarrow> percentile_iterator \<Rightarrow> (bool \<times> percentile_iterator) option" where
  "pc_loop h s =
     (let current_percentile = of_int (it_cumulative_count (pc_it s)) * 100 / of_int (total_count h) in
      if it_count (pc_it s) \<noteq> 0 \<and> pc_percentile_to_iterate_to s \<le> current_percentile then Some (True, pc_report h s)
      else case basic_next h (pc_it s) of
        None \<Rightarrow> None
      | Some (moved, it1) \<Rightarrow> if moved then pc_loop h (s\<lparr>pc_it := it1\<rparr>) else Some (True, s\<lparr>pc_it := it1\<rparr>))"

definition pc_do_next :: "HdrHistogram \<Rightarrow> percentile_iterator \<Rightarrow> (bool \<times> percentile_iterator) option" where
  "pc_do_next h s =
     (if \<not> has_next (pc_it s) then
        if pc_seen_last_value s then Some (False, s)
        else Some (True, s\<lparr>pc_seen_last_value := True, pc_percentile := 100\<rparr>)
      else if it_counts_index (pc_it s) = -1 then
        (case basic_next h (pc_it s) of
          None \<Rightarrow> None
        | Some (moved, it1) \<Rightarrow> if moved then pc_loop h (s\<lparr>pc_it := it1\<rparr>) else Some (False, s\<lparr>pc_it := it1\<rparr>))
      else pc_loop h s)"

subsection \<open>Statistics\<close>

definition get_count_at_percentile :: "HdrHistogram \<Rightarrow> rat \<Rightarrow> int" where
  "get_count_at_percentile h percentile =
     (let p = (if percentile > 100 then 100 else percentile);
          count_at_percentile = s32 (trunc_rat (p * of_int (total_count h) / 100 + 1 / 2))
      in max count_at_percentile 1)"

partial_function (option) percentile_loop :: "HdrHistogram \<Rightarrow> int \<Rightarrow> int \<Rightarrow> hdr_iterator \<Rightarrow> int option" where
  "percentile_loop h count_at_percentile running it = (case it_do_next h it of
     None \<Rightarrow> None
   | Some (moved, it1) \<Rightarrow>
       if \<not> moved then Some 0
       else let total1 = s64 (running + it_count it1) in
         if total1 \<ge> count_at_percentile then Some (highest_equivalent_value h (it_value it1))
         else percentile_loop h count_at_percentile total1 it1)"

definition value_at_percentile :: "HdrHistogram \<Rightarrow> rat \<Rightarrow> int option" where
  "value_at_percentile h percentile = percentile_loop h (get_count_at_percentile h percentile) 0 (it_new h)"

partial_function (option) mean_loop :: "HdrHistogram \<Rightarrow> int \<Rightarrow> hdr_iterator \<Rightarrow> int option" where
  "mean_loop h running it = (case it_do_next h it of
     None \<Rightarrow> None
   | Some (moved, it1) \<Rightarrow>
       if \<not> moved then Some running
       else mean_loop h
         (if it_count it1 \<noteq> 0 then s64 (running + s64 (it_count it1 * median_equivalent_value h (it_value it1))) else running) it1)"

text \<open>\<open>double(total) / total_count\<close>, \<open>None\<close> for the NaN of an empty histogram.\<close>

definition hdr_mean :: "HdrHistogram \<Rightarrow> rat option" where
  "hdr_mean h = (case mean_loop h 0 (it_new h) of
     None \<Rightarrow> None
   | Some running \<Rightarrow> if total_count h = 0 then None else Some (of_int running / of_int (total_count h)))"

partial_function (option) stddev_loop :: "HdrHistogram \<Rightarrow> rat \<Rightarrow> rat \<Rightarrow> hdr_iterator \<Rightarrow> rat option" where
  "stddev_loop h mean_val dev_total it = (case it_do_next h it of
     None \<Rightarrow> None
   | Some (moved, it1) \<Rightarrow>
       if \<not> moved then Some dev_total
       else stddev_loop h mean_val
         (if it_count it1 \<noteq> 0 then
            let dev = of_int (median_equivalent_value h (it_value it1)) - mean_val in dev_total + (dev * dev) * of_int (it_count it1)
          else dev_total) it1)"

definition hdr_stddev :: "HdrHistogram \<Rightarrow> real option" where
  "hdr_stddev h = (case hdr_mean h of
     None \<Rightarrow> None
   | Some mean_val \<Rightarrow> (case stddev_loop h mean_val 0 (it_new h) of
       None \<Rightarrow> None
     | Some dev_total \<Rightarrow> Some (sqrt (of_rat (dev_total / of_int (total_count h))))))"

subsection \<open>One step of an iterator\<close>

text \<open>The number of recorded values whose index is below \<open>i\<close>.\<close>

definition count_below :: "HdrHistogram \<Rightarrow> int list \<Rightarrow> nat \<Rightarrow> int" where
  "count_below h vs i = int (length (filter (\<lambda>v. counts_index_for h v < int i) vs))"

lemma count_below_0: "hdr_holds h vs \<Longrightarrow> count_below h vs 0 = 0"
  using counts_index_nonneg [of h] by (force simp: count_below_def hdr_holds_def filter_empty_conv not_less)

lemma length_filter_disjoint:
  "(\<And>x. \<not> (P x \<and> Q x)) \<Longrightarrow> length (filter (\<lambda>x. P x \<or> Q x) xs) = length (filter P xs) + length (filter Q xs)"
  by (induction xs) auto

lemma count_below_Suc:
  assumes "hdr_holds h vs" "i < length (counts h)"
  shows "count_below h vs (Suc i) = count_below h vs i + counts h ! i"
proof -
  have "(\<lambda>v. counts_index_for h v < int (Suc i)) = (\<lambda>v. counts_index_for h v < int i \<or> counts_index_for h v = int i)" by auto
  then show ?thesis
    using assms length_filter_disjoint [of "\<lambda>v. counts_index_for h v < int i" "\<lambda>v. counts_index_for h v = int i" vs]
    by (simp add: count_below_def hdr_holds_def)
qed

lemma count_below_all: "hdr_holds h vs \<Longrightarrow> count_below h vs (length (counts h)) = int (length vs)"
  by (auto simp: count_below_def hdr_holds_def hdr_cfg_ok_def)

lemma count_below_le: "0 \<le> count_below h vs i" "count_below h vs i \<le> int (length vs)"
  by (simp_all add: count_below_def)

text \<open>The iterator has made \<open>i\<close> moves.\<close>

definition it_at :: "HdrHistogram \<Rightarrow> int list \<Rightarrow> nat \<Rightarrow> hdr_iterator \<Rightarrow> bool" where
  "it_at h vs i it \<longleftrightarrow> it_counts_index it = int i - 1 \<and> it_total_count it = int (length vs) \<and>
     it_cumulative_count it = count_below h vs i \<and>
     (0 < i \<longrightarrow> it_count it = counts h ! (i - 1) \<and> it_value it = value_at_index h (int i - 1))"

lemma it_at_new: "hdr_holds h vs \<Longrightarrow> it_at h vs 0 (it_new h)"
  using count_below_0 [of h vs] by (simp add: it_at_def it_new_def hdr_holds_def)

lemma it_at_update [simp]: "it_at h vs i (update_iterated_values v it) = it_at h vs i it"
  "it_count (update_iterated_values v it) = it_count it" "it_value (update_iterated_values v it) = it_value it"
  by (simp_all add: it_at_def update_iterated_values_def)

lemma move_next_Some:
  assumes H: "hdr_holds h vs" and n: "length vs < 2 ^ 62" and a: "it_at h vs i it" and i: "i < length (counts h)"
  obtains it1 where "move_next h it = Some (True, it1)" "it_at h vs (Suc i) it1"
    "it_count it1 = counts h ! i" "it_value it1 = value_at_index h (int i)"
proof -
  have "normalizing_index_offset h = 0" using H by (simp add: hdr_holds_def)
  then have c: "counts_get_normalised h (int i) = Some (counts h ! i)"
    using i by (simp add: counts_get_normalised_def normalize_index_def hh_counts_len_def)
  have "count_below h vs i + counts h ! i \<le> int (length vs)" "0 \<le> count_below h vs i + counts h ! i"
    using count_below_Suc [OF H i] count_below_le [of h vs "Suc i"] by auto
  then have s: "s64 (count_below h vs i + counts h ! i) = count_below h vs (Suc i)"
    using n count_below_Suc [OF H i] by (subst s64_id) auto
  let ?v = "value_at_index h (int i)"
  show thesis
    using a i c s
    by (intro that [of "it\<lparr>it_counts_index := int i, it_count := counts h ! i, it_cumulative_count := count_below h vs (Suc i),
         it_value := ?v, it_highest_equivalent_value := highest_equivalent_value h ?v,
         it_lowest_equivalent_value := Some (lowest_equivalent_value h ?v),
         it_median_equivalent_value := Some (median_equivalent_value h ?v)\<rparr>"])
       (simp_all add: move_next_def Let_def has_buckets_def hh_counts_len_def it_at_def)
qed

lemma move_next_end:
  assumes "it_at h vs (length (counts h)) it"
  shows "move_next h it = Some (False, it\<lparr>it_counts_index := int (length (counts h))\<rparr>)"
  using assms by (simp add: move_next_def Let_def has_buckets_def hh_counts_len_def it_at_def)

lemma it_do_next_Some:
  assumes H: "hdr_holds h vs" and n: "length vs < 2 ^ 62" and a: "it_at h vs i it" and i: "i < length (counts h)"
  obtains it1 where "it_do_next h it = Some (True, it1)" "it_at h vs (Suc i) it1"
    "it_count it1 = counts h ! i" "it_value it1 = value_at_index h (int i)"
proof -
  obtain it1 where "move_next h it = Some (True, it1)" "it_at h vs (Suc i) it1"
    "it_count it1 = counts h ! i" "it_value it1 = value_at_index h (int i)"
    by (rule move_next_Some [OF H n a i])
  then show thesis by (intro that [of "update_iterated_values (it_value it1) it1"]) (simp_all add: it_do_next_def)
qed

lemma it_do_next_end: "it_at h vs (length (counts h)) it \<Longrightarrow> \<exists>it1. it_do_next h it = Some (False, it1)"
  by (simp add: it_do_next_def move_next_end)

subsection \<open>Percentiles\<close>

lemma sorted_filter_prefix:
  "sorted xs \<Longrightarrow> (\<And>x y. P y \<Longrightarrow> x \<in> set xs \<Longrightarrow> y \<in> set xs \<Longrightarrow> x \<le> y \<Longrightarrow> P x) \<Longrightarrow> j < length xs \<Longrightarrow> P (xs ! j) \<longleftrightarrow> j < length (filter P xs)"
proof (induction xs arbitrary: j)
  case (Cons a xs)
  show ?case
  proof (cases "P a")
    case True
    show ?thesis
    proof (cases j)
      case (Suc k)
      have "P (xs ! k) \<longleftrightarrow> k < length (filter P xs)"
        by (rule Cons.IH) (use Cons.prems Suc in auto)
      with True Suc show ?thesis by simp
    qed (use True in simp)
  next
    case False
    have "\<not> P y" if "y \<in> set xs" for y using Cons.prems(1) Cons.prems(2) [of y a] False that by auto
    then have "filter P (a # xs) = []" "\<not> P ((a # xs) ! j)" using False Cons.prems(3) by (auto simp: filter_empty_conv nth_Cons split: nat.splits)
    then show ?thesis by simp
  qed
qed simp

lemma length_filter_sort: "length (filter P (sort vs)) = length (filter P vs)"
  by (metis filter_sort length_sort)

lemma highest_of_class:
  assumes s: "hdr_shape u m (hh_cfg h)" and v: "0 \<le> v" "v < 2 ^ 63"
  shows "highest_equivalent_value h (lowest_equivalent_value h v) = highest_equivalent_value h v"
    and "median_equivalent_value h (lowest_equivalent_value h v) = median_equivalent_value h v"
proof -
  let ?l = "lowest_equivalent_value h v"
  note R = hdr_range [OF s v]
  have l: "0 \<le> ?l" "?l < 2 ^ 63" using R v by linarith+
  have "?l < ?l + size_of_equivalent_value_range h v" using R(5) by simp
  note C = hdr_class_const [OF s v order_refl this]
  show "highest_equivalent_value h ?l = highest_equivalent_value h v"
    unfolding highest_equivalent_eq [OF s l] highest_equivalent_eq [OF s v] C ..
  show "median_equivalent_value h ?l = median_equivalent_value h v" unfolding median_equivalent_value_def C ..
qed

text \<open>The \<open>k\<close>-th smallest recorded value is counted at the first index where the running count reaches \<open>k\<close>.\<close>

lemma rank_index:
  assumes H: "hdr_holds h vs" and k: "count_below h vs i < k" "k \<le> count_below h vs (Suc i)"
  shows "counts_index_for h (sort vs ! nat (k - 1)) = int i" "sort vs ! nat (k - 1) \<in> set vs"
proof -
  let ?P = "\<lambda>j v. counts_index_for h v < int j"
  have k1: "1 \<le> k" using k(1) count_below_le(1) [of h vs i] by linarith
  have kn: "nat (k - 1) < length (sort vs)" using k k1 count_below_le(2) [of h vs "Suc i"] by simp
  then show "sort vs ! nat (k - 1) \<in> set vs" by (metis nth_mem set_sort)
  from H obtain u m where s: "hdr_shape u m (hh_cfg h)" by (auto simp: hdr_holds_def hdr_cfg_ok_def)
  have mono: "?P j x" if "?P j y" "x \<in> set (sort vs)" "y \<in> set (sort vs)" "x \<le> y" for j x y
    using counts_index_mono [OF s, of x y] that H by (auto simp: hdr_holds_def)
  have "?P j (sort vs ! nat (k - 1)) \<longleftrightarrow> k \<le> count_below h vs j" for j
  proof -
    have "?P j (sort vs ! nat (k - 1)) \<longleftrightarrow> nat (k - 1) < length (filter (?P j) (sort vs))"
      by (rule sorted_filter_prefix [OF sorted_sort _ kn]) (rule mono)
    also have "\<dots> \<longleftrightarrow> k \<le> count_below h vs j" using k1 by (simp add: length_filter_sort count_below_def) arith
    finally show ?thesis .
  qed
  from this [of i] this [of "Suc i"] k show "counts_index_for h (sort vs ! nat (k - 1)) = int i" by simp
qed

lemma percentile_loop_finds:
  assumes H: "hdr_holds h vs" and n: "length vs < 2 ^ 62"
  shows "it_at h vs i it \<Longrightarrow> i \<le> length (counts h) \<Longrightarrow> count_below h vs i < k \<Longrightarrow> k \<le> int (length vs) \<Longrightarrow>
    percentile_loop h k (count_below h vs i) it = Some (highest_equivalent_value h (sort vs ! nat (k - 1)))"
proof (induction "length (counts h) - i" arbitrary: i it)
  case 0
  then show ?case using count_below_all [OF H] by simp
next
  case (Suc d)
  then have i: "i < length (counts h)" by simp
  obtain it1 where d: "it_do_next h it = Some (True, it1)" "it_at h vs (Suc i) it1"
    "it_count it1 = counts h ! i" "it_value it1 = value_at_index h (int i)"
    by (rule it_do_next_Some [OF H n Suc.prems(1) i])
  have t1: "s64 (count_below h vs i + counts h ! i) = count_below h vs (Suc i)"
    unfolding count_below_Suc [OF H i, symmetric]
    using count_below_le [of h vs "Suc i"] n by (intro s64_id) auto
  show ?case
  proof (cases "k \<le> count_below h vs (Suc i)")
    case True
    let ?x = "sort vs ! nat (k - 1)"
    from rank_index [OF H Suc.prems(3) True] have x: "counts_index_for h ?x = int i" "?x \<in> set vs" .
    from H obtain u m where s: "hdr_shape u m (hh_cfg h)" by (auto simp: hdr_holds_def hdr_cfg_ok_def)
    have x0: "0 \<le> ?x" "?x < 2 ^ 63" using H x(2) by (auto simp: hdr_holds_def)
    have "value_at_index h (int i) = lowest_equivalent_value h ?x" using value_at_counts_index [OF s x0] x(1) by simp
    then show ?thesis using True d t1 highest_of_class(1) [OF s x0] by (subst percentile_loop.simps) simp
  next
    case False
    then have "percentile_loop h k (count_below h vs i) it = percentile_loop h k (count_below h vs (Suc i)) it1"
      using d t1 by (subst percentile_loop.simps) simp
    also have "\<dots> = Some (highest_equivalent_value h (sort vs ! nat (k - 1)))"
      using Suc.hyps(1) [OF _ d(2)] Suc.hyps(2) Suc.prems False i by simp
    finally show ?thesis .
  qed
qed

lemma get_count_at_percentile_bounds:
  assumes "total_count h = int n" "1 \<le> n" "n < 2 ^ 31" "0 \<le> p"
  shows "1 \<le> get_count_at_percentile h p" "get_count_at_percentile h p \<le> int n"
    "get_count_at_percentile h p = max 1 \<lfloor>min p 100 * of_nat n / 100 + 1 / 2\<rfloor>"
proof -
  let ?x = "min p 100 * of_nat n / 100 + 1 / 2 :: rat"
  have x0: "0 \<le> ?x" using assms(4) by simp
  have "min p 100 * of_nat n \<le> 100 * (of_nat n :: rat)" by (intro mult_right_mono) auto
  then have "?x < of_int (int n + 1)" by simp
  then have xn: "\<lfloor>?x\<rfloor> \<le> int n" by (simp add: floor_less_iff flip: zle_add1_eq_le)
  have "0 \<le> \<lfloor>?x\<rfloor>" using x0 by simp
  moreover have "int n < 2 ^ 31" using assms(3) by simp
  with xn have "\<lfloor>?x\<rfloor> < 2 ^ 31" by linarith
  ultimately have "s32 \<lfloor>?x\<rfloor> = \<lfloor>?x\<rfloor>" by (intro s32_id) linarith+
  moreover have "(if p > 100 then 100 else p) * of_int (total_count h) / 100 + 1 / 2 = ?x" using assms(1) by (simp add: min_def)
  ultimately show e: "get_count_at_percentile h p = max 1 \<lfloor>?x\<rfloor>"
    using x0 by (simp add: get_count_at_percentile_def trunc_rat_def max.commute)
  show "1 \<le> get_count_at_percentile h p" "get_count_at_percentile h p \<le> int n" unfolding e using xn assms(2) by auto
qed

text \<open>
  C4: \<open>value_at_percentile\<close> is the percentile: on a histogram that has recorded the values \<open>vs\<close> (at least one, fewer than
  \<open>2^31\<close>), the search returns, and its result is the highest value equivalent to the element of rank
  \<open>max 1 (floor (p n / 100 + 1/2))\<close> of the sorted list of recorded values.
\<close>

theorem hdr_value_at_percentile:
  assumes "hdr_config lo hi sf = Some (Inr c)" "lo < 2 ^ 63" "hi < 2 ^ 63"
    and "\<forall>v \<in> set vs. 0 \<le> v \<and> v \<le> hi" "vs \<noteq> []" "length vs < 2 ^ 31" and "hdr_records vs (hdr_new c) = (oks, h)" and "0 \<le> p"
  shows "value_at_percentile h p =
    Some (highest_equivalent_value h (sort vs ! nat (max 1 \<lfloor>min p 100 * of_nat (length vs) / 100 + 1 / 2\<rfloor> - 1)))"
proof -
  have c: "hdr_cfg_ok c" "highest_trackable_value c = hi"
    using hdr_config_ok [OF assms(1,3)] by auto
  have cfg: "hh_cfg (hdr_new c) = c" by (simp add: hdr_new_def)
  have H: "hdr_holds h vs"
    using hdr_records_holds [OF hdr_new_holds [OF c(1)] _ _ assms(7)] assms(4,6) c(2) cfg by auto
  have t: "total_count h = int (length vs)" "1 \<le> length vs" using H assms(5) by (auto simp: hdr_holds_def Suc_le_eq)
  note B = get_count_at_percentile_bounds [OF t assms(6,8)]
  have "percentile_loop h (get_count_at_percentile h p) (count_below h vs 0) (it_new h) =
      Some (highest_equivalent_value h (sort vs ! nat (get_count_at_percentile h p - 1)))"
    using B(1,2) assms(6) count_below_0 [OF H]
    by (intro percentile_loop_finds [OF H _ it_at_new [OF H]]) auto
  then show ?thesis unfolding value_at_percentile_def B(3) count_below_0 [OF H] .
qed

theorem hdr_value_at_percentile_witness:
  "\<exists>c oks h. hdr_config 1 30 1 = Some (Inr c) \<and> hdr_records [9, 3, 5] (hdr_new c) = (oks, h) \<and>
     value_at_percentile h 50 = Some (highest_equivalent_value h 5)"
proof -
  from hdr_config_1_30_1 obtain c where c: "hdr_config 1 30 1 = Some (Inr c)" by blast
  obtain oks h where r: "hdr_records [9, 3, 5] (hdr_new c) = (oks, h)" by fastforce
  have "value_at_percentile h 50 = Some (highest_equivalent_value h (sort [9, 3, 5] ! nat (max 1 \<lfloor>2 :: rat\<rfloor> - 1)))"
    using hdr_value_at_percentile [OF c _ _ _ _ _ r, of 50] by simp
  moreover have "sort [9, 3, 5 :: int] ! nat (max 1 \<lfloor>2 :: rat\<rfloor> - 1) = 5" by simp
  ultimately show ?thesis using c r by auto
qed

subsection \<open>Recorded values\<close>

partial_function (option) recorded_list :: "HdrHistogram \<Rightarrow> hdr_iterator \<times> int \<Rightarrow> (int \<times> int) list option" where
  "recorded_list h s = (case recorded_do_next h s of
     None \<Rightarrow> None
   | Some (moved, s1) \<Rightarrow>
       if \<not> moved then Some []
       else Option.bind (recorded_list h s1) (\<lambda>xs. Some ((it_value (fst s1), snd s1) # xs)))"

lemma count_below_mono: "i \<le> j \<Longrightarrow> count_below h vs i \<le> count_below h vs j"
  by (induction vs) (auto simp: count_below_def)

abbreviation nonzero_from :: "HdrHistogram \<Rightarrow> nat \<Rightarrow> nat list" where
  "nonzero_from h i \<equiv> filter (\<lambda>j. counts h ! j \<noteq> 0) [i..<length (counts h)]"

lemma nonzero_from_seen:
  assumes "hdr_holds h vs" "\<not> count_below h vs i < int (length vs)"
  shows "nonzero_from h i = []"
proof -
  have "counts h ! j = 0" if "i \<le> j" "j < length (counts h)" for j
    using count_below_Suc [OF assms(1) that(2)] count_below_mono [OF that(1), of h vs] count_below_mono [of i "Suc j" h vs] that(1)
      count_below_le(2) [of h vs j] count_below_le(2) [of h vs "Suc j"] assms(2) by simp
  then show ?thesis by (auto simp: filter_empty_conv)
qed

lemma recorded_do_next_law:
  assumes H: "hdr_holds h vs" and n: "length vs < 2 ^ 62"
  shows "it_at h vs i it \<Longrightarrow> i \<le> length (counts h) \<Longrightarrow>
    (case nonzero_from h i of
       [] \<Rightarrow> \<exists>s1. recorded_do_next h (it, a) = Some (False, s1)
     | j # js \<Rightarrow> \<exists>it1. recorded_do_next h (it, a) = Some (True, it1, counts h ! j) \<and> it_at h vs (Suc j) it1 \<and> j < length (counts h) \<and>
         it_value it1 = value_at_index h (int j) \<and> js = nonzero_from h (Suc j))"
proof (induction "length (counts h) - i" arbitrary: i it)
  case 0
  then have "i = length (counts h)" by simp
  then have "\<not> has_next it" using 0 count_below_all [OF H] by (simp add: it_at_def has_next_def)
  then show ?case using 0 by (subst recorded_do_next.simps) (simp add: basic_next_def)
next
  case (Suc d)
  then have i: "i < length (counts h)" by simp
  then have up: "[i..<length (counts h)] = i # [Suc i..<length (counts h)]" by (simp add: upt_conv_Cons)
  show ?case
  proof (cases "count_below h vs i < int (length vs)")
    case False
    then have "\<not> has_next it" using Suc.prems by (simp add: it_at_def has_next_def)
    then show ?thesis unfolding nonzero_from_seen [OF H False]
      by (subst recorded_do_next.simps) (simp add: basic_next_def)
  next
    case True
    obtain it1 where d: "move_next h it = Some (True, it1)" "it_at h vs (Suc i) it1"
      "it_count it1 = counts h ! i" "it_value it1 = value_at_index h (int i)"
      by (rule move_next_Some [OF H n Suc.prems(1) i])
    have b: "basic_next h it = Some (True, it1)"
      using True Suc.prems(1) i d(1) by (simp add: basic_next_def has_next_def it_at_def hh_counts_len_def)
    show ?thesis
    proof (cases "counts h ! i = 0")
      case False
      then show ?thesis using b d i by (subst recorded_do_next.simps) (simp add: up)
    next
      case z: True
      have "recorded_do_next h (it, a) = recorded_do_next h (it1, a)"
        using b d z by (subst recorded_do_next.simps) simp
      moreover have "nonzero_from h i = nonzero_from h (Suc i)" using z by (simp add: up)
      moreover have "d = length (counts h) - Suc i" "Suc i \<le> length (counts h)" using Suc.hyps(2) i by simp_all
      ultimately show ?thesis using Suc.hyps(1) [OF _ d(2)] by (simp only:)
    qed
  qed
qed

lemma recorded_list_law:
  assumes H: "hdr_holds h vs" and n: "length vs < 2 ^ 62"
  shows "it_at h vs i it \<Longrightarrow> i \<le> length (counts h) \<Longrightarrow>
    recorded_list h (it, a) = Some (map (\<lambda>j. (value_at_index h (int j), counts h ! j)) (nonzero_from h i))"
proof (induction "nonzero_from h i" arbitrary: i it a)
  case Nil
  have nz: "nonzero_from h i = []" using Nil.hyps by simp
  obtain s1 where "recorded_do_next h (it, a) = Some (False, s1)"
    using recorded_do_next_law [OF H n Nil.prems, of a] unfolding nz list.case by blast
  then show ?case unfolding nz by (subst recorded_list.simps) simp
next
  case (Cons j js)
  have nz: "nonzero_from h i = j # js" using Cons.hyps(2) by simp
  obtain it1 where
    r: "recorded_do_next h (it, a) = Some (True, it1, counts h ! j)" "it_at h vs (Suc j) it1" "j < length (counts h)"
      "it_value it1 = value_at_index h (int j)" "js = nonzero_from h (Suc j)"
    using recorded_do_next_law [OF H n Cons.prems, of a] unfolding nz list.case by blast
  have "Suc j \<le> length (counts h)" using r(3) by simp
  from Cons.hyps(1) [OF r(5) r(2) this]
  have "recorded_list h (it1, counts h ! j) = Some (map (\<lambda>j. (value_at_index h (int j), counts h ! j)) js)" unfolding r(5) .
  with r(1,4) show ?case unfolding nz by (subst recorded_list.simps) simp
qed

text \<open>
  \<open>HdrRecordedIterator\<close> visits exactly the non-empty counters, once each and in increasing order of value, with their
  counts, and then reports the end; it never reads outside the counters.
\<close>

theorem hdr_recorded_iterator:
  assumes "hdr_config lo hi sf = Some (Inr c)" "lo < 2 ^ 63" "hi < 2 ^ 63"
    and "\<forall>v \<in> set vs. 0 \<le> v \<and> v \<le> hi" "length vs < 2 ^ 62" and "hdr_records vs (hdr_new c) = (oks, h)"
  shows "recorded_list h (it_new h, 0) =
    Some (map (\<lambda>j. (value_at_index h (int j), counts h ! j)) (filter (\<lambda>j. counts h ! j \<noteq> 0) [0..<length (counts h)]))"
proof -
  have c: "hdr_cfg_ok c" "highest_trackable_value c = hi"
    using hdr_config_ok [OF assms(1,3)] by auto
  have H: "hdr_holds h vs"
    using hdr_records_holds [OF hdr_new_holds [OF c(1)] _ _ assms(6)] assms(4,5) c(2) by (auto simp: hdr_new_def)
  show ?thesis by (rule recorded_list_law [OF H assms(5) it_at_new [OF H]]) simp
qed

theorem hdr_recorded_iterator_witness:
  "\<exists>c oks h. hdr_config 1 30 1 = Some (Inr c) \<and> hdr_records [9, 3, 9] (hdr_new c) = (oks, h) \<and> recorded_list h (it_new h, 0) =
     Some (map (\<lambda>j. (value_at_index h (int j), counts h ! j)) (filter (\<lambda>j. counts h ! j \<noteq> 0) [0..<length (counts h)]))"
proof -
  from hdr_config_1_30_1 obtain c where c: "hdr_config 1 30 1 = Some (Inr c)" by blast
  obtain oks h where r: "hdr_records [9, 3, 9] (hdr_new c) = (oks, h)" by fastforce
  from hdr_recorded_iterator [OF c _ _ _ _ r] c r show ?thesis by auto
qed

subsection \<open>Mean\<close>

definition median_below :: "HdrHistogram \<Rightarrow> int list \<Rightarrow> nat \<Rightarrow> int" where
  "median_below h vs i = sum_list (map (median_equivalent_value h) (filter (\<lambda>v. counts_index_for h v < int i) vs))"

lemma median_nonneg:
  assumes "hdr_shape u m (hh_cfg h)" "0 \<le> v" "v < 2 ^ 63"
  shows "0 \<le> median_equivalent_value h v"
proof -
  note R = hdr_range [OF assms]
  have "drop_bit 1 (size_of_equivalent_value_range h v) < size_of_equivalent_value_range h v"
    "0 \<le> drop_bit 1 (size_of_equivalent_value_range h v)" using R(5) by (simp_all add: drop_bit_int_def)
  with R show ?thesis unfolding median_equivalent_value_def by (subst s64_id) linarith+
qed

lemma median_below_Suc:
  assumes H: "hdr_holds h vs" and i: "i < length (counts h)"
  shows "median_below h vs (Suc i) = median_below h vs i + counts h ! i * median_equivalent_value h (value_at_index h (int i))"
proof -
  from H obtain u m where s: "hdr_shape u m (hh_cfg h)" by (auto simp: hdr_holds_def hdr_cfg_ok_def)
  let ?M = "median_equivalent_value h (value_at_index h (int i))"
  have eq: "median_equivalent_value h v = ?M" if "v \<in> set vs" "counts_index_for h v = int i" for v
    using highest_of_class(2) [OF s, of v] value_at_counts_index [OF s, of v] that H by (auto simp: hdr_holds_def)
  have "\<forall>v \<in> set ws. counts_index_for h v = int i \<longrightarrow> median_equivalent_value h v = ?M \<Longrightarrow>
      sum_list (map (median_equivalent_value h) (filter (\<lambda>v. counts_index_for h v < int (Suc i)) ws)) =
      sum_list (map (median_equivalent_value h) (filter (\<lambda>v. counts_index_for h v < int i) ws)) +
      int (length (filter (\<lambda>v. counts_index_for h v = int i) ws)) * ?M" for ws
    by (induction ws) (auto simp: distrib_right)
  with eq have "median_below h vs (Suc i) = median_below h vs i + int (length (filter (\<lambda>v. counts_index_for h v = int i) vs)) * ?M"
    by (simp add: median_below_def)
  then show ?thesis using H i by (simp add: hdr_holds_def)
qed

lemma median_below_bounds:
  assumes "\<forall>v \<in> set vs. 0 \<le> median_equivalent_value h v"
  shows "0 \<le> median_below h vs i" "median_below h vs i \<le> sum_list (map (median_equivalent_value h) vs)"
  using assms by (induction vs) (auto simp: median_below_def)

lemma mean_loop_sums:
  assumes H: "hdr_holds h vs" and n: "length vs < 2 ^ 62" and b: "sum_list (map (median_equivalent_value h) vs) < 2 ^ 63"
  shows "it_at h vs i it \<Longrightarrow> i \<le> length (counts h) \<Longrightarrow>
    mean_loop h (median_below h vs i) it = Some (sum_list (map (median_equivalent_value h) vs))"
proof (induction "length (counts h) - i" arbitrary: i it)
  case 0
  then have i: "i = length (counts h)" by simp
  then obtain it1 where "it_do_next h it = Some (False, it1)" using it_do_next_end 0 by blast
  moreover have "median_below h vs i = sum_list (map (median_equivalent_value h) vs)"
  proof -
    have "filter (\<lambda>v. counts_index_for h v < int i) vs = vs" using H i by (auto simp: filter_id_conv hdr_holds_def hdr_cfg_ok_def)
    then show ?thesis by (simp add: median_below_def)
  qed
  ultimately show ?case by (subst mean_loop.simps) simp
next
  case (Suc d)
  then have i: "i < length (counts h)" by simp
  obtain it1 where d: "it_do_next h it = Some (True, it1)" "it_at h vs (Suc i) it1"
    "it_count it1 = counts h ! i" "it_value it1 = value_at_index h (int i)"
    by (rule it_do_next_Some [OF H n Suc.prems(1) i])
  let ?p = "counts h ! i * median_equivalent_value h (value_at_index h (int i))"
  from H obtain u m where s: "hdr_shape u m (hh_cfg h)" by (auto simp: hdr_holds_def hdr_cfg_ok_def)
  have nn: "\<forall>v \<in> set vs. 0 \<le> median_equivalent_value h v" using median_nonneg [OF s] H by (auto simp: hdr_holds_def)
  note E = median_below_Suc [OF H i]
  note B1 = median_below_bounds [OF nn, of i] and B2 = median_below_bounds [OF nn, of "Suc i"]
  have pm: "?p = median_below h vs (Suc i) - median_below h vs i" using E by linarith
  have "0 \<le> ?p"
  proof (cases "counts h ! i = 0")
    case False
    then have "filter (\<lambda>v. counts_index_for h v = int i) vs \<noteq> []" using H i by (auto simp: hdr_holds_def)
    then obtain v where v: "v \<in> set vs" "counts_index_for h v = int i" by (auto simp: filter_empty_conv)
    then have "0 \<le> v" "v < 2 ^ 63" using H by (auto simp: hdr_holds_def)
    then have "median_equivalent_value h (value_at_index h (int i)) = median_equivalent_value h v"
      using highest_of_class(2) [OF s, of v] value_at_counts_index [OF s, of v] v(2) by simp
    then have "0 \<le> median_equivalent_value h (value_at_index h (int i))" using nn v(1) by simp
    moreover have "0 \<le> counts h ! i" using H i by (simp add: hdr_holds_def)
    ultimately show ?thesis by simp
  qed simp
  then have sp: "s64 ?p = ?p" using pm B1 B2 b by (intro s64_id) linarith+
  have st: "s64 (median_below h vs i + ?p) = median_below h vs (Suc i)" using E B2 b by (subst s64_id) linarith+
  have z: "counts h ! i = 0 \<Longrightarrow> median_below h vs (Suc i) = median_below h vs i" using E by simp
  have "mean_loop h (median_below h vs i) it = mean_loop h (median_below h vs (Suc i)) it1"
    using d sp st z by (subst mean_loop.simps) simp
  also have "\<dots> = Some (sum_list (map (median_equivalent_value h) vs))"
    using Suc.hyps(1) [OF _ d(2)] Suc.hyps(2) i by simp
  finally show ?case .
qed

text \<open>
  \<open>mean\<close> is the arithmetic mean of the recorded values at the histogram's resolution: as long as their sum fits in 64 bits,
  it is the sum of the median equivalents of the recorded values divided by their number.
\<close>

theorem hdr_mean_exact:
  assumes "hdr_config lo hi sf = Some (Inr c)" "lo < 2 ^ 63" "hi < 2 ^ 63"
    and "\<forall>v \<in> set vs. 0 \<le> v \<and> v \<le> hi" "vs \<noteq> []" "length vs < 2 ^ 62" and "hdr_records vs (hdr_new c) = (oks, h)"
    and "sum_list (map (median_equivalent_value h) vs) < 2 ^ 63"
  shows "hdr_mean h = Some (of_int (sum_list (map (median_equivalent_value h) vs)) / of_nat (length vs))"
proof -
  have c: "hdr_cfg_ok c" "highest_trackable_value c = hi"
    using hdr_config_ok [OF assms(1,3)] by auto
  have H: "hdr_holds h vs"
    using hdr_records_holds [OF hdr_new_holds [OF c(1)] _ _ assms(7)] assms(4,6) c(2) by (auto simp: hdr_new_def)
  have "median_below h vs 0 = 0"
    using count_below_0 [OF H] by (simp add: median_below_def count_below_def)
  with mean_loop_sums [OF H assms(6,8) it_at_new [OF H]]
  have "mean_loop h 0 (it_new h) = Some (sum_list (map (median_equivalent_value h) vs))" by simp
  moreover have "total_count h = int (length vs)" using H by (simp add: hdr_holds_def)
  ultimately show ?thesis using assms(5) by (simp add: hdr_mean_def)
qed

theorem hdr_mean_exact_witness:
  "\<exists>c oks h. hdr_config 1 30 1 = Some (Inr c) \<and> hdr_records [7] (hdr_new c) = (oks, h) \<and>
     hdr_mean h = Some (of_int (median_equivalent_value h 7))"
proof -
  from hdr_config_1_30_1 obtain c where c: "hdr_config 1 30 1 = Some (Inr c)" by blast
  obtain oks h where r: "hdr_records [7] (hdr_new c) = (oks, h)" by fastforce
  have "sum_list (map (median_equivalent_value h) [7]) < 2 ^ 63"
    using signed_take_bit_int_less_exp [of 63] by (simp add: median_equivalent_value_def s64_def)
  from hdr_mean_exact [OF c _ _ _ _ _ r this] c r show ?thesis by auto
qed

subsection \<open>Linear and logarithmic iteration\<close>

text \<open>Positions of a level iterator: \<open>j\<close> moves made, or past the last counter.\<close>

definition lv_at :: "HdrHistogram \<Rightarrow> int list \<Rightarrow> nat \<Rightarrow> level_iterator \<Rightarrow> bool" where
  "lv_at h vs j s \<longleftrightarrow> it_at h vs j (lv_it s) \<and> j \<le> length (counts h) \<or>
     j = length (counts h) \<and> it_counts_index (lv_it s) = int j \<and> it_total_count (lv_it s) = int (length vs) \<and>
       it_cumulative_count (lv_it s) = int (length vs)"

lemma level_loop_law:
  assumes H: "hdr_holds h vs" and n: "length vs < 2 ^ 62"
  shows "it_at h vs i (lv_it s) \<Longrightarrow> i \<le> length (counts h) \<Longrightarrow> a \<le> i \<Longrightarrow> lv_added s = count_below h vs i - count_below h vs a \<Longrightarrow>
    \<exists>s1 j. level_loop adv h s = Some (True, s1) \<and> i \<le> j \<and> lv_at h vs j s1 \<and> lv_added s1 = count_below h vs j - count_below h vs a"
proof (induction "length (counts h) - i" arbitrary: i s)
  case 0
  then have i: "i = length (counts h)" by simp
  show ?case
  proof (cases "it_value (lv_it s) \<ge> lv_level_lowest s")
    case True
    then show ?thesis using 0 i by (subst level_loop.simps) (auto simp: Let_def lv_at_def)
  next
    case False
    with 0 i move_next_end [of h vs "lv_it s"] count_below_all [OF H] show ?thesis
      by (subst level_loop.simps) (auto simp: lv_at_def it_at_def)
  qed
next
  case (Suc d)
  then have i: "i < length (counts h)" by simp
  show ?case
  proof (cases "it_value (lv_it s) \<ge> lv_level_lowest s")
    case True
    then show ?thesis using Suc.prems by (subst level_loop.simps) (auto simp: Let_def lv_at_def)
  next
    case False
    obtain it1 where d: "move_next h (lv_it s) = Some (True, it1)" "it_at h vs (Suc i) it1" "it_count it1 = counts h ! i"
      by (rule move_next_Some [OF H n Suc.prems(1) i])
    let ?s1 = "s\<lparr>lv_it := it1, lv_added := s64 (lv_added s + it_count it1)\<rparr>"
    have "count_below h vs a \<le> count_below h vs (Suc i)" using Suc.prems(3) by (intro count_below_mono) simp
    then have add: "s64 (lv_added s + it_count it1) = count_below h vs (Suc i) - count_below h vs a"
      using Suc.prems(4) d(3) count_below_Suc [OF H i] count_below_le [of h vs "Suc i"] count_below_le [of h vs a] n
      by (subst s64_id) auto
    have "level_loop adv h s = level_loop adv h ?s1" using False d by (subst level_loop.simps) simp
    moreover have "\<exists>s1 j. level_loop adv h ?s1 = Some (True, s1) \<and> Suc i \<le> j \<and> lv_at h vs j s1 \<and>
        lv_added s1 = count_below h vs j - count_below h vs a"
      by (rule Suc.hyps(1)) (use Suc.hyps(2) d i Suc.prems add in simp_all)
    ultimately show ?thesis using Suc_leD by metis
  qed
qed

lemma level_do_next_law:
  assumes H: "hdr_holds h vs" and n: "length vs < 2 ^ 62" and a: "lv_at h vs i s"
  shows "\<exists>moved s1 j. level_do_next adv h s = Some (moved, s1) \<and> i \<le> j \<and> lv_at h vs j s1 \<and>
    lv_added s1 = count_below h vs j - count_below h vs i \<and> (\<not> moved \<longrightarrow> j = i \<and> count_below h vs j = int (length vs))"
proof (cases "has_next (lv_it s) \<or> next_value_greater_than_reporting_level_upper_bound h (lv_level_lowest s) (lv_it s)")
  case True
  then have at: "it_at h vs i (lv_it s)" "i \<le> length (counts h)"
    using a by (auto simp: lv_at_def has_next_def next_value_greater_than_reporting_level_upper_bound_def hh_counts_len_def)
  have "\<exists>s1 j. level_loop adv h (s\<lparr>lv_added := 0\<rparr>) = Some (True, s1) \<and> i \<le> j \<and> lv_at h vs j s1 \<and>
      lv_added s1 = count_below h vs j - count_below h vs i"
    by (rule level_loop_law [OF H n]) (use at in simp_all)
  with True show ?thesis by (auto simp: level_do_next_def Let_def)
next
  case False
  then have "count_below h vs i = int (length vs)"
    using a count_below_le(2) [of h vs i] count_below_all [OF H] by (auto simp: lv_at_def has_next_def it_at_def)
  moreover have "lv_at h vs i (s\<lparr>lv_added := 0\<rparr>)" using a by (simp add: lv_at_def)
  ultimately show ?thesis using False by (intro exI [of _ False] exI [of _ "s\<lparr>lv_added := 0\<rparr>"] exI [of _ i]) (simp add: level_do_next_def Let_def)
qed

text \<open>\<open>k\<close> calls of \<open>next\<close> with the counts they add; the run ends early when \<open>next\<close> reports the end.\<close>

fun level_run :: "(level_iterator \<Rightarrow> (bool \<times> level_iterator) option) \<Rightarrow> nat \<Rightarrow> level_iterator \<Rightarrow> (bool \<times> int list) option" where
  "level_run nxt 0 s = Some (False, [])"
| "level_run nxt (Suc k) s = (case nxt s of
     None \<Rightarrow> None
   | Some (moved, s1) \<Rightarrow>
       if \<not> moved then Some (True, [])
       else (case level_run nxt k s1 of None \<Rightarrow> None | Some (ended, xs) \<Rightarrow> Some (ended, lv_added s1 # xs)))"

lemma level_run_law:
  assumes H: "hdr_holds h vs" and n: "length vs < 2 ^ 62"
  shows "lv_at h vs i s \<Longrightarrow> \<exists>ended xs j. level_run (level_do_next adv h) k s = Some (ended, xs) \<and> sum_list xs = count_below h vs j - count_below h vs i \<and>
     (ended \<longrightarrow> count_below h vs j = int (length vs))"
proof (induction k arbitrary: i s)
  case (Suc k)
  from level_do_next_law [OF H n Suc.prems, of adv] obtain moved s1 j where d: "level_do_next adv h s = Some (moved, s1)" "i \<le> j"
    "lv_at h vs j s1" "lv_added s1 = count_below h vs j - count_below h vs i" "\<not> moved \<longrightarrow> j = i \<and> count_below h vs j = int (length vs)" by blast
  show ?case
  proof (cases moved)
    case False
    with d False show ?thesis by (auto intro!: exI [of _ True] exI [of _ i])
  next
    case True
    from Suc.IH [OF d(3)] obtain ended xs l where "level_run (level_do_next adv h) k s1 = Some (ended, xs)"
      "sum_list xs = count_below h vs l - count_below h vs j" "ended \<longrightarrow> count_below h vs l = int (length vs)" by blast
    with d True show ?thesis by (auto intro!: exI [of _ ended] exI [of _ l])
  qed
qed auto

lemma lv_at_new: "hdr_holds h vs \<Longrightarrow> lv_at h vs 0 (lv_new h units)"
  by (simp add: lv_at_def lv_new_def it_at_new)

text \<open>
  The linear and the logarithmic iterator account for every recorded value: any number of calls of \<open>next\<close> returns, the counts
  they report add up to at most the number of recorded values, and to exactly that number once \<open>next\<close> has reported the end,
  whatever the bucket width or the base is.
\<close>

theorem hdr_level_iterators:
  assumes "hdr_config lo hi sf = Some (Inr c)" "lo < 2 ^ 63" "hi < 2 ^ 63"
    and "\<forall>v \<in> set vs. 0 \<le> v \<and> v \<le> hi" "length vs < 2 ^ 62" and "hdr_records vs (hdr_new c) = (oks, h)"
  shows "\<exists>e1 xs e2 ys. level_run (linear_do_next units h) k (lv_new h first) = Some (e1, xs) \<and>
      level_run (log_do_next base h) k (lv_new h first) = Some (e2, ys) \<and>
      sum_list xs \<le> int (length vs) \<and> (e1 \<longrightarrow> sum_list xs = int (length vs)) \<and>
      sum_list ys \<le> int (length vs) \<and> (e2 \<longrightarrow> sum_list ys = int (length vs))"
proof -
  have c: "hdr_cfg_ok c" "highest_trackable_value c = hi"
    using hdr_config_ok [OF assms(1,3)] by auto
  have H: "hdr_holds h vs"
    using hdr_records_holds [OF hdr_new_holds [OF c(1)] _ _ assms(6)] assms(4,5) c(2) by (auto simp: hdr_new_def)
  have L: "\<exists>e xs. level_run (level_do_next adv h) k (lv_new h first) = Some (e, xs) \<and>
      sum_list xs \<le> int (length vs) \<and> (e \<longrightarrow> sum_list xs = int (length vs))" for adv
    using level_run_law [OF H assms(5) lv_at_new [OF H], of adv k first] count_below_0 [OF H] count_below_le(2) [of h vs] by force
  have e: "linear_do_next units h = level_do_next (\<lambda>level. s64 (level + units)) h"
    "log_do_next base h = level_do_next (\<lambda>level. s64 (trunc_rat (of_int level * base))) h"
    by (rule ext, simp add: linear_do_next_def, rule ext, simp add: log_do_next_def)
  from L [of "\<lambda>level. s64 (level + units)"] L [of "\<lambda>level. s64 (trunc_rat (of_int level * base))"]
  show ?thesis unfolding e by blast
qed

theorem hdr_level_iterators_witness:
  "\<exists>c oks h e1 xs. hdr_config 1 30 1 = Some (Inr c) \<and> hdr_records [9, 3] (hdr_new c) = (oks, h) \<and>
     level_run (linear_do_next 5 h) 9 (lv_new h 5) = Some (e1, xs) \<and> sum_list xs \<le> 2"
proof -
  from hdr_config_1_30_1 obtain c where c: "hdr_config 1 30 1 = Some (Inr c)" by blast
  obtain oks h where r: "hdr_records [9, 3] (hdr_new c) = (oks, h)" by fastforce
  from hdr_level_iterators [OF c _ _ _ _ r, of 5 9 5 2] c r show ?thesis by auto
qed

subsection \<open>Percentile ticks\<close>

text \<open>
  Every report of \<open>HdrPercentileIterator\<close> moves its next percentile strictly forward
  and never reaches 100: only the final report of the iterator says 100.
\<close>

theorem percentile_report_progress:
  assumes "0 \<le> pc_percentile_to_iterate_to s" "pc_percentile_to_iterate_to s < 100" "1 \<le> pc_ticks_per_half_distance s"
  shows "pc_percentile (pc_report h s) = pc_percentile_to_iterate_to s \<and>
    pc_percentile_to_iterate_to s < pc_percentile_to_iterate_to (pc_report h s) \<and>
    pc_percentile_to_iterate_to (pc_report h s) < 100"
proof -
  let ?p = "pc_percentile_to_iterate_to s" and ?t = "pc_ticks_per_half_distance s"
  define q where "q = 100 / (100 - ?p)"
  have q1: "1 \<le> q" using assms(1,2) by (simp add: q_def field_simps)
  then have f: "0 < \<lfloor>q\<rfloor>" by simp
  define D :: int where "D = ?t * 2 ^ nat (bitlen \<lfloor>q\<rfloor>)"
  have "\<lfloor>q\<rfloor> < 2 ^ nat (bitlen \<lfloor>q\<rfloor>)" using bitlen_bounds [OF f] by simp
  also have "2 ^ nat (bitlen \<lfloor>q\<rfloor>) \<le> D" using assms(3) by (simp add: D_def)
  finally have D: "q < of_int D" by (simp add: floor_less_iff)
  then have D0: "0 < (of_int D :: rat)" using q1 by simp
  have "100 / of_int D < 100 / q" using D q1 by (intro divide_strict_left_mono) auto
  also have "100 / q = 100 - ?p" using assms(2) by (simp add: q_def)
  finally have "?p + 100 / of_int D < 100" by simp
  moreover have "pc_percentile_to_iterate_to (pc_report h s) = ?p + 100 / of_int D"
    by (simp add: pc_report_def Let_def D_def q_def)
  ultimately show ?thesis using D0 by (simp add: pc_report_def Let_def)
qed

theorem percentile_report_progress_witness:
  "\<forall>h. pc_percentile_to_iterate_to (pc_report h (pc_new h 5)) < 100"
proof
  fix h
  show "pc_percentile_to_iterate_to (pc_report h (pc_new h 5)) < 100"
    using percentile_report_progress [of "pc_new h 5" h] by (simp add: pc_new_def)
qed

end
