(* ===== verification/Dates.thy ===== *)
theory Dates
  imports Prelude "HOL-Library.Signed_Division"
begin

text \<open>
  The calendar arithmetic of \<open>sys/Date.hpp\<close>: Gregorian dates, ISO 8601 dates (\<open>yyyymmdd\<close>) and Julian days. Division of
  C++ integers truncates toward zero, which is \<open>sdiv\<close>. The reference is the Gregorian calendar itself: the month
  lengths, the leap year rule and the successor of a day.
\<close>

subsection \<open>Conversions\<close>

definition ymd_to_iso :: "int \<Rightarrow> int \<Rightarrow> int \<Rightarrow> int" where
  "ymd_to_iso year mon mday = year * 10000 + mon * 100 + mday"

definition ymd_to_jd :: "int \<Rightarrow> int \<Rightarrow> int \<Rightarrow> int" where
  "ymd_to_jd i j k = k - 32075 + (1461 * (i + 4800 + (j - 14) sdiv 12)) sdiv 4
     + (367 * (j - 2 - (j - 14) sdiv 12 * 12)) sdiv 12
     - (3 * ((i + 4900 + (j - 14) sdiv 12) sdiv 100)) sdiv 4"

definition iso_to_jd :: "int \<Rightarrow> int" where
  "iso_to_jd n = (let year = n sdiv 10000; mon = (n sdiv 100) smod 100; mday = n smod 100 in ymd_to_jd year mon mday)"

definition jd_to_iso :: "int \<Rightarrow> int" where
  "jd_to_iso jd =
     (let l = jd + 68569;
          n = (4 * l) sdiv 146097;
          l = l - (146097 * n + 3) sdiv 4;
          i = (4000 * (l + 1)) sdiv 1461001;
          l = l - (1461 * i) sdiv 4 + 31;
          j = (80 * l) sdiv 2447;
          k = l - (2447 * j) sdiv 80;
          l = j sdiv 11;
          j = j + 2 - 12 * l;
          i = 100 * (n - 49) + i + l
      in i * 10000 + j * 100 + k)"

definition jd_to_mjd :: "int \<Rightarrow> int" where "jd_to_mjd jd = jd - 2400000"
definition mjd_to_jd :: "int \<Rightarrow> int" where "mjd_to_jd mjd = mjd + 2400000"
definition jd_to_tjd :: "int \<Rightarrow> int" where "jd_to_tjd jd = jd - 2440000"
definition tjd_to_jd :: "int \<Rightarrow> int" where "tjd_to_jd tjd = tjd + 2440000"

definition maybe_jd_to_iso :: "int \<Rightarrow> int" where
  "maybe_jd_to_iso jd = (if jd \<noteq> 0 then jd_to_iso jd else 0)"

definition maybe_iso_to_jd :: "int \<Rightarrow> int" where
  "maybe_iso_to_jd n = (if n \<noteq> 0 then iso_to_jd n else 0)"

definition is_week_day :: "int \<Rightarrow> bool" where
  "is_week_day jday \<longleftrightarrow> jday smod 7 < 5"

definition is_weekend_day :: "int \<Rightarrow> bool" where
  "is_weekend_day jday \<longleftrightarrow> \<not> is_week_day jday"

subsection \<open>The Gregorian calendar\<close>

definition leap :: "int \<Rightarrow> bool" where
  "leap y \<longleftrightarrow> y mod 4 = 0 \<and> (y mod 100 \<noteq> 0 \<or> y mod 400 = 0)"

definition month_len :: "int \<Rightarrow> int \<Rightarrow> int" where
  "month_len y m = (if m = 2 then (if leap y then 29 else 28) else if m \<in> {4, 6, 9, 11} then 30 else 31)"

definition valid_ymd :: "int \<Rightarrow> int \<Rightarrow> int \<Rightarrow> bool" where
  "valid_ymd y m d \<longleftrightarrow> 0 \<le> y \<and> y \<le> 9999 \<and> 1 \<le> m \<and> m \<le> 12 \<and> 1 \<le> d \<and> d \<le> month_len y m"

definition next_ymd :: "int \<Rightarrow> int \<Rightarrow> int \<Rightarrow> int \<times> int \<times> int" where
  "next_ymd y m d = (if d < month_len y m then (y, m, d + 1) else if m < 12 then (y, m + 1, 1) else (y + 1, 1, 1))"

subsection \<open>March-based years\<close>

text \<open>
  Both formulas count years from March: \<open>mar_year\<close> is the year since March of \<open>-4800\<close> and \<open>mar_off\<close> the day offset of the
  month in that year, plus 30.
\<close>

definition mar_year :: "int \<Rightarrow> int \<Rightarrow> int" where "mar_year y m = y + 4800 - (if m \<le> 2 then 1 else 0)"

definition mar_off :: "int \<Rightarrow> int" where
  "mar_off m = (if m = 1 then 336 else if m = 2 then 367 else if m = 3 then 30 else if m = 4 then 61 else if m = 5 then 91
     else if m = 6 then 122 else if m = 7 then 152 else if m = 8 then 183 else if m = 9 then 214 else if m = 10 then 244
     else if m = 11 then 275 else 305)"

lemma sdiv_nonneg: "0 \<le> a \<Longrightarrow> 0 < b \<Longrightarrow> a sdiv b = a div b" for a b :: int
  by (simp add: signed_divide_int_def sgn_if)

lemma smod_nonneg: "0 \<le> a \<Longrightarrow> 0 < b \<Longrightarrow> a smod b = a mod b" for a b :: int
  by (simp only: minus_sdiv_mult_eq_smod [symmetric] sdiv_nonneg minus_div_mult_eq_mod)

lemma month_cases:
  fixes m :: int
  assumes "1 \<le> m" "m \<le> 12"
  shows "m \<in> {1, 2, 3, 4, 5, 6, 7, 8, 9, 10, 11, 12}"
proof -
  have "m = 1 \<or> m = 2 \<or> m = 3 \<or> m = 4 \<or> m = 5 \<or> m = 6 \<or> m = 7 \<or> m = 8 \<or> m = 9 \<or> m = 10 \<or> m = 11 \<or> m = 12"
    using assms by presburger
  then show ?thesis by simp
qed

lemma month_terms:
  assumes "1 \<le> m" "m \<le> 12"
  shows "(m - 14) sdiv 12 = (if m \<le> 2 then -1 else 0)"
    and "(367 * (m - 2 - (m - 14) sdiv 12 * 12)) sdiv 12 = mar_off m"
  using month_cases [OF assms] by (auto simp: signed_divide_int_def mar_off_def)

lemma ymd_to_jd_eq:
  assumes "0 \<le> y" "1 \<le> m" "m \<le> 12"
  shows "ymd_to_jd y m d = d - 32075 + 365 * mar_year y m + mar_year y m div 4 + mar_off m - (3 * (mar_year y m div 100 + 1)) div 4"
proof -
  let ?Y = "mar_year y m"
  have Y: "y + 4800 + (m - 14) sdiv 12 = ?Y" "y + 4900 + (m - 14) sdiv 12 = ?Y + 100" "0 \<le> ?Y"
    using month_terms(1) [OF assms(2,3)] assms(1) by (simp_all add: mar_year_def)
  have "(1461 * ?Y) sdiv 4 = 365 * ?Y + ?Y div 4" using Y(3) by (simp add: sdiv_nonneg)
  moreover have "(?Y + 100) sdiv 100 = ?Y div 100 + 1" using Y(3) by (simp add: sdiv_nonneg)
  moreover have "(3 * (?Y div 100 + 1)) sdiv 4 = (3 * (?Y div 100 + 1)) div 4" using Y(3) by (intro sdiv_nonneg) (auto simp: pos_imp_zdiv_nonneg_iff)
  ultimately show ?thesis unfolding ymd_to_jd_def Y month_terms(2) [OF assms(2,3)] by simp
qed

lemma int_div_step:
  fixes Y :: int
  assumes "0 < n"
  shows "(Y + 1) div n = Y div n + (if (Y + 1) mod n = 0 then 1 else 0)"
proof (cases "(Y + 1) mod n = 0")
  case True
  then have "Y = n * ((Y + 1) div n - 1) + (n - 1)" by (simp add: right_diff_distrib) (metis add_diff_cancel_right' mult_div_mod_eq add.right_neutral)
  from int_div_pos_eq [OF this] assms have "Y div n = (Y + 1) div n - 1" by simp
  with True show ?thesis by simp
next
  case False
  have "0 < (Y + 1) mod n" "(Y + 1) mod n < n"
    using False pos_mod_sign [OF assms, of "Y + 1"] pos_mod_bound [OF assms, of "Y + 1"] by linarith+
  moreover have "Y = n * ((Y + 1) div n) + ((Y + 1) mod n - 1)" using mult_div_mod_eq [of n "Y + 1"] by linarith
  ultimately have "Y div n = (Y + 1) div n" by (intro int_div_pos_eq [of Y n _ "(Y + 1) mod n - 1"]) linarith+
  with False show ?thesis by simp
qed

lemma three_quarters: "(3 * (C + 1)) div 4 = (3 * C) div 4 + (if C mod 4 = 0 then 0 else 1)" for C :: int
  by presburger

lemma february:
  assumes "0 \<le> y"
  shows "ymd_to_jd y 3 1 = ymd_to_jd y 2 (month_len y 2) + 1"
proof -
  define Y where "Y = y + 4799"
  have Y: "mar_year y 3 = Y + 1" "mar_year y 2 = Y" by (simp_all add: mar_year_def Y_def)
  have Y1: "Y + 1 = y + 1200 * 4" "Y + 1 = y + 48 * 100" by (simp_all add: Y_def)
  define C where "C = Y div 100 + 1"
  define d4 :: int where "d4 = (if y mod 4 = 0 then 1 else 0)"
  define d100 :: int where "d100 = (if y mod 100 = 0 then 1 else 0)"
  have "(Y + 1) mod 4 = y mod 4" unfolding Y1(1) by (rule mod_mult_self1)
  then have s4: "(Y + 1) div 4 = Y div 4 + d4" using int_div_step [of 4 Y] by (simp add: d4_def)
  have "(Y + 1) mod 100 = y mod 100" unfolding Y1(2) by (rule mod_mult_self1)
  then have s100: "(Y + 1) div 100 + 1 = C + d100" using int_div_step [of 100 Y] by (simp add: d100_def C_def)
  have "(Y + 1) div 100 = y div 100 + 48" unfolding Y1(2) by simp
  with s100 have cy: "C + d100 = y div 100 + 49" by simp
  have "y mod 400 = 100 * (y div 100 mod 4) + y mod 100" using zmod_zmult2_eq [of 4 y 100] by simp
  moreover have "0 \<le> y mod 100" "0 \<le> y div 100 mod 4" by simp_all
  ultimately have m400: "y mod 400 = 0 \<longleftrightarrow> y mod 100 = 0 \<and> y div 100 mod 4 = 0" by linarith
  have m4: "y mod 4 = 0" if "y mod 100 = 0"
  proof -
    have "y = 4 * (25 * (y div 100))" using mult_div_mod_eq [of 100 y] that by simp
    then show ?thesis by (metis mod_mult_self1_is_0)
  qed
  have c4: "C mod 4 = y div 100 mod 4" if "y mod 100 = 0"
  proof -
    have "C = y div 100 + 12 * 4" using cy that by (simp add: d100_def)
    then show ?thesis by (simp only: mod_mult_self1)
  qed
  have len: "month_len y 2 = 28 + d4 - ((3 * (C + d100)) div 4 - (3 * C) div 4)"
    using three_quarters [of C] c4 m4 by (auto simp: month_len_def leap_def m400 d4_def d100_def)
  have "ymd_to_jd y 3 1 = 1 - 32075 + 365 * (Y + 1) + (Y + 1) div 4 + 30 - (3 * ((Y + 1) div 100 + 1)) div 4"
    using ymd_to_jd_eq [OF assms, of 3 1] by (simp only: Y) (simp add: mar_off_def)
  moreover have "ymd_to_jd y 2 d = d - 32075 + 365 * Y + Y div 4 + 367 - (3 * C) div 4" for d
    using ymd_to_jd_eq [OF assms, of 2 d] unfolding C_def by (simp only: Y) (simp add: mar_off_def)
  ultimately show ?thesis unfolding len s4 s100 by simp
qed

lemma next_day:
  assumes "valid_ymd y m d" "next_ymd y m d = (y', m', d')"
  shows "ymd_to_jd y' m' d' = ymd_to_jd y m d + 1"
proof -
  have v: "0 \<le> y" "1 \<le> m" "m \<le> 12" "1 \<le> d" "d \<le> month_len y m" using assms(1) by (auto simp: valid_ymd_def)
  consider "d < month_len y m" | "d = month_len y m" "m = 2" | "d = month_len y m" "m \<noteq> 2" "m < 12" | "d = month_len y m" "m = 12"
    using v by linarith
  then show ?thesis
  proof cases
    case 1
    with assms(2) v show ?thesis by (simp add: next_ymd_def ymd_to_jd_def)
  next
    case 2
    with assms(2) february [OF v(1)] show ?thesis by (simp add: next_ymd_def)
  next
    case 3
    have "mar_year y (m + 1) = mar_year y m" using 3 by (simp add: mar_year_def)
    moreover have "mar_off (m + 1) + 1 = mar_off m + d + 1"
      using month_cases [OF v(2,3)] 3 by (auto simp: mar_off_def month_len_def)
    ultimately show ?thesis using 3 v assms(2) by (simp add: next_ymd_def ymd_to_jd_eq)
  next
    case 4
    have "mar_year (y + 1) 1 = mar_year y 12" by (simp add: mar_year_def)
    then show ?thesis using 4 v assms(2) by (simp add: next_ymd_def ymd_to_jd_eq mar_off_def month_len_def)
  qed
qed

text \<open>The remainders of the inverse formula: century \<open>c\<close>, year \<open>t\<close> in the century, day \<open>e\<close> of the March-based year.\<close>

lemma jd_century:
  fixes c t e :: int
  assumes "0 \<le> c" "0 \<le> t" "t \<le> 99" "0 \<le> e" "e \<le> 365" "e = 365 \<longrightarrow> t mod 4 = 3 \<and> (t = 99 \<longrightarrow> c mod 4 = 3)"
  defines "l \<equiv> e + 365 * t + t div 4 + 36525 + 36524 * c + c div 4"
  shows "(4 * l) div 146097 = c + 1" "l - (146097 * (c + 1) + 3) div 4 = e + 365 * t + t div 4"
    "(4000 * (e + 365 * t + t div 4 + 1)) div 1461001 = t" "(1461 * t) div 4 = 365 * t + t div 4"
proof -
  define a r where "a = t div 4" and "r = t mod 4"
  define p s where "p = c div 4" and "s = c mod 4"
  have t4: "t = 4 * a + r" "0 \<le> r" "r \<le> 3" using pos_mod_bound [of 4 t] by (simp_all add: a_def r_def)
  have c4: "c = 4 * p + s" "0 \<le> s" "s \<le> 3" using pos_mod_bound [of 4 c] by (simp_all add: p_def s_def)
  let ?k = "e + 365 * t + a"
  have leapy: "e = 365 \<Longrightarrow> r = 3 \<and> (t = 99 \<longrightarrow> s = 3)" using assms(6) by (simp add: r_def s_def)
  have l: "l = ?k + 36525 + 36524 * c + p" by (simp add: l_def a_def p_def)
  have l4: "4 * l = 4 * ?k + 146100 + 146097 * c - s" unfolding l using c4(1) by simp
  have k4: "4 * ?k = 4 * e + 1461 * t - r" using t4(1) by simp
  have "r = 3" if "t = 99" using that by (simp add: r_def)
  then consider "t \<le> 98" | "t = 99" "e = 365" "s = 3" "r = 3" | "t = 99" "e \<le> 364" "r = 3"
    by (cases "t \<le> 98"; cases "e = 365") (use assms(3,5) leapy in auto)
  then have ub: "4 * ?k + 3 - s < 146097" unfolding k4 by cases (use assms(5) t4 c4 in linarith)+
  have "4 * l = 146097 * (c + 1) + (4 * ?k + 3 - s)" unfolding l4 by (simp add: algebra_simps)
  moreover have "0 \<le> a" using assms(2) by (simp add: a_def pos_imp_zdiv_nonneg_iff)
  then have "0 \<le> 4 * ?k + 3 - s" using assms(2,4) c4(3) by simp
  ultimately show "(4 * l) div 146097 = c + 1" using ub by (rule int_div_pos_eq)
  have "(146097 * (c + 1) + 3) div 4 = 36525 + 36524 * c + p"
  proof (rule int_div_pos_eq [of _ _ _ s])
    show "146097 * (c + 1) + 3 = 4 * (36525 + 36524 * c + p) + s" using c4(1) by simp
  qed (use c4 in simp_all)
  then show "l - (146097 * (c + 1) + 3) div 4 = e + 365 * t + t div 4" unfolding l by (simp add: a_def)
  have k: "4000 * (?k + 1) = 4000 * e + 4000 + 1461000 * t - 1000 * r" using t4(1) by simp
  consider "e = 365" "r = 3" | "e \<le> 364" using assms(5) leapy by linarith
  then have ub2: "4000 * (?k + 1) - 1461001 * t < 1461001" unfolding k by cases (use assms(2) t4 in linarith)+
  have "0 \<le> 4000 * (?k + 1) - 1461001 * t" unfolding k using assms(3,4) t4(3) by linarith
  then have "(4000 * (?k + 1)) div 1461001 = t"
    by (rule int_div_pos_eq [of _ _ _ "4000 * (?k + 1) - 1461001 * t", OF _ _ ub2, rotated]) simp
  then show "(4000 * (e + 365 * t + t div 4 + 1)) div 1461001 = t" by (simp only: a_def)
  have "1461 * t = t + (365 * t) * 4" by simp
  then show "(1461 * t) div 4 = 365 * t + t div 4" by (simp only: div_mult_self1)
qed

text \<open>The last step of the inverse formula: day \<open>mar_off m + d\<close> of the March-based year is day \<open>d\<close> of month \<open>m\<close>.\<close>

lemma jd_month:
  assumes "1 \<le> m" "m \<le> 12" "1 \<le> d" "d \<le> (if m = 2 then 29 else if m \<in> {4, 6, 9, 11} then 30 else 31)"
  defines "j \<equiv> (80 * (mar_off m + d)) div 2447"
  shows "j = (if m \<le> 2 then m + 10 else m - 2)" "mar_off m + d - (2447 * j) div 80 = d"
    "j div 11 = (if m \<le> 2 then 1 else 0)"
proof -
  have "2447 * (if m \<le> 2 then m + 10 else m - 2) \<le> 80 * (mar_off m + d) \<and>
      80 * (mar_off m + d) < 2447 * ((if m \<le> 2 then m + 10 else m - 2) + 1)"
    using month_cases [OF assms(1,2)] assms(3,4) by (auto simp: mar_off_def)
  then show j: "j = (if m \<le> 2 then m + 10 else m - 2)"
    unfolding j_def
    by (intro int_div_pos_eq [of _ _ _ "80 * (mar_off m + d) - 2447 * (if m \<le> 2 then m + 10 else m - 2)"]) simp_all
  show "mar_off m + d - (2447 * j) div 80 = d" "j div 11 = (if m \<le> 2 then 1 else 0)"
    unfolding j using month_cases [OF assms(1,2)] by (auto simp: mar_off_def)
qed

lemma jd_to_iso_ymd:
  assumes v: "valid_ymd y m d"
  shows "jd_to_iso (ymd_to_jd y m d) = ymd_to_iso y m d"
proof -
  have y: "0 \<le> y" and m: "1 \<le> m" "m \<le> 12" and d: "1 \<le> d" "d \<le> month_len y m" using v by (auto simp: valid_ymd_def)
  define Y where "Y = mar_year y m"
  define c t where "c = Y div 100" and "t = Y mod 100"
  define e where "e = mar_off m + d - 31"
  have Y0: "0 \<le> Y" using y by (simp add: Y_def mar_year_def)
  then have c0: "0 \<le> c" by (simp add: c_def pos_imp_zdiv_nonneg_iff)
  have t0: "0 \<le> t" "t \<le> 99" using pos_mod_bound [of 100 Y] by (simp_all add: t_def)
  have Yct: "Y = 100 * c + t" by (simp add: c_def t_def)
  have d': "d \<le> (if m = 2 then 29 else if m \<in> {4, 6, 9, 11} then 30 else 31)" using d(2) by (auto simp: month_len_def split: if_splits)
  have e0: "0 \<le> e" "e \<le> 365" using month_cases [OF m] d(1) d' by (auto simp: e_def mar_off_def)
  have feb29: "m = 2 \<and> d = 29" if "e = 365" using that month_cases [OF m] d(1) d' by (auto simp: e_def mar_off_def)
  have leapy: "t mod 4 = 3 \<and> (t = 99 \<longrightarrow> c mod 4 = 3)" if "e = 365"
  proof -
    have lp: "leap y" "y = Y - 4799" using feb29 [OF that] d(2) by (auto simp: month_len_def Y_def mar_year_def split: if_splits)
    have y4: "y = t + 1 + 4 * (25 * c - 1200)" using lp(2) Yct by simp
    have "y mod 4 = (t + 1) mod 4" unfolding y4 by (rule mod_mult_self2)
    then have t3: "t mod 4 = 3" using lp(1) unfolding leap_def by presburger
    have "c mod 4 = 3" if "t = 99"
    proof -
      have y100: "y = 100 * (c - 47)" using y4 that by simp
      then have "y mod 400 = 0" using lp(1) by (simp add: leap_def)
      moreover have "(100 * (c - 47)) mod (100 * 4) = 100 * ((c - 47) mod 4)" by (rule mult_mod_right [symmetric])
      ultimately have "(c - 47) mod 4 = 0" using y100 by simp
      then show ?thesis by presburger
    qed
    with t3 show ?thesis by blast
  qed
  define l where "l = e + 365 * t + t div 4 + 36525 + 36524 * c + c div 4"
  from leapy have "e = 365 \<longrightarrow> t mod 4 = 3 \<and> (t = 99 \<longrightarrow> c mod 4 = 3)" by blast
  note J = jd_century [OF c0 t0 e0 this, folded l_def]
  have "Y div 4 = 25 * c + t div 4" unfolding Yct by simp
  moreover have "(3 * (c + 1)) div 4 = c - c div 4" by presburger
  ultimately have jd: "ymd_to_jd y m d + 68569 = l"
    using ymd_to_jd_eq [OF y m, of d] unfolding Y_def [symmetric] c_def [symmetric]
    by (simp add: l_def e_def Yct)
  have l0: "0 \<le> l" using e0 t0 c0 by (simp add: l_def pos_imp_zdiv_nonneg_iff)
  have k0: "0 \<le> e + 365 * t + t div 4" using e0 t0 by (simp add: pos_imp_zdiv_nonneg_iff)
  note M = jd_month [OF m d(1) d']
  have em: "e + 31 = mar_off m + d" by (simp add: e_def)
  have mo: "0 \<le> mar_off m + d" using e0 em by simp
  define j where "j = (80 * (mar_off m + d)) div 2447"
  have j0: "0 \<le> j" using M(1) m by (simp add: j_def)
  have n1: "(4 * l) sdiv 146097 = c + 1" using J(1) l0 by (simp add: sdiv_nonneg)
  have n2: "(146097 * (c + 1) + 3) sdiv 4 = (146097 * (c + 1) + 3) div 4" using c0 by (intro sdiv_nonneg) simp_all
  have n3: "(4000 * (e + 365 * t + t div 4 + 1)) sdiv 1461001 = t" using J(3) k0 by (simp add: sdiv_nonneg)
  have n4: "(1461 * t) sdiv 4 = 365 * t + t div 4" using J(4) t0 by (simp add: sdiv_nonneg)
  have n5: "e + 365 * t + t div 4 - (365 * t + t div 4) + 31 = mar_off m + d" using em by simp
  have n6: "(80 * (mar_off m + d)) sdiv 2447 = j" "(2447 * j) sdiv 80 = (2447 * j) div 80" "j sdiv 11 = j div 11"
    using mo j0 by (simp_all add: sdiv_nonneg j_def)
  have "jd_to_iso (ymd_to_jd y m d) = (100 * (c + 1 - 49) + t + j div 11) * 10000 + (j + 2 - 12 * (j div 11)) * 100 + d"
    unfolding jd_to_iso_def Let_def jd n1 n2 J(2) n3 n4 n5 n6 M(2) [folded j_def] ..
  also have "j div 11 = (if m \<le> 2 then 1 else 0)" using M(3) by (simp add: j_def)
  also have "j + 2 - 12 * (if m \<le> 2 then 1 else 0) = m" using M(1) by (simp add: j_def)
  also have "100 * (c + 1 - 49) + t + (if m \<le> 2 then 1 else 0) = y" using Yct by (simp add: Y_def mar_year_def split: if_splits)
  finally show ?thesis by (simp add: ymd_to_iso_def)
qed

lemma iso_to_jd_iso:
  assumes "valid_ymd y m d"
  shows "iso_to_jd (ymd_to_iso y m d) = ymd_to_jd y m d"
proof -
  have v: "0 \<le> y" "1 \<le> m" "m \<le> 12" "1 \<le> d" "d \<le> 31"
    using assms by (auto simp: valid_ymd_def month_len_def split: if_splits)
  define n where "n = ymd_to_iso y m d"
  have "0 \<le> n" using v by (simp add: n_def ymd_to_iso_def)
  moreover have "n div 10000 = y" using v by (intro int_div_pos_eq [of _ _ _ "m * 100 + d"]) (simp_all add: n_def ymd_to_iso_def)
  moreover have "n mod 100 = d" using v by (intro int_mod_pos_eq [of _ _ "y * 100 + m"]) (simp_all add: n_def ymd_to_iso_def)
  moreover have "n div 100 = y * 100 + m" using v by (intro int_div_pos_eq [of _ _ _ d]) (simp_all add: n_def ymd_to_iso_def)
  moreover have "(y * 100 + m) mod 100 = m" using v by (intro int_mod_pos_eq [of _ _ y]) simp_all
  moreover have "0 \<le> y * 100 + m" using v by simp
  ultimately show ?thesis unfolding n_def [symmetric] iso_to_jd_def by (simp add: sdiv_nonneg smod_nonneg)
qed

text \<open>
  \<open>ymd_to_jd\<close> counts days: the day after any date of the Gregorian calendar (by the month lengths and the leap year rule)
  has the next Julian day number, and 1 January 1970 is day 2440588. Together these determine the number of every date.
\<close>

theorem julian_day_counts_days:
  "ymd_to_jd 1970 1 1 = 2440588 \<and>
   (valid_ymd y m d \<and> next_ymd y m d = (y', m', d') \<longrightarrow> ymd_to_jd y' m' d' = ymd_to_jd y m d + 1)"
  using next_day by (simp add: ymd_to_jd_eq mar_year_def mar_off_def)

theorem julian_day_counts_days_witness:
  "valid_ymd 2000 2 29 \<and> ymd_to_jd 2000 3 1 = ymd_to_jd 2000 2 29 + 1"
  using julian_day_counts_days [of 2000 2 29 2000 3 1] by (simp add: valid_ymd_def next_ymd_def month_len_def leap_def)

text \<open>
  Dates survive the conversions: for every valid date of the years 0 to 9999, the ISO number of its Julian day is its own
  ISO number, and the Julian day of its ISO number is its own Julian day.
\<close>

theorem iso_julian_roundtrip:
  assumes "valid_ymd y m d"
  shows "jd_to_iso (iso_to_jd (ymd_to_iso y m d)) = ymd_to_iso y m d \<and> iso_to_jd (ymd_to_iso y m d) = ymd_to_jd y m d"
  using jd_to_iso_ymd [OF assms] iso_to_jd_iso [OF assms] by simp

theorem iso_julian_roundtrip_witness:
  "jd_to_iso (iso_to_jd 20200229) = 20200229"
proof -
  have "valid_ymd 2020 2 29" by (simp add: valid_ymd_def month_len_def leap_def)
  from conjunct1 [OF iso_julian_roundtrip [OF this]] show ?thesis by (simp add: ymd_to_iso_def)
qed

text \<open>The days of the week: 17 January 2018 was a Wednesday; five of any seven consecutive days are week days.\<close>

lemma week_days:
  assumes "0 \<le> j"
  shows "length (filter is_week_day [j, j + 1, j + 2, j + 3, j + 4, j + 5, j + 6]) = 5" "is_week_day (j + 7) = is_week_day j"
proof -
  define r where "r = j mod 7"
  have r: "0 \<le> r" "r < 7" by (simp_all add: r_def)
  have e: "is_week_day (j + k) \<longleftrightarrow> (r + k) mod 7 < 5" if "0 \<le> k" for k
    using assms that by (simp add: is_week_day_def smod_nonneg r_def mod_add_left_eq)
  have "r = 0 \<or> r = 1 \<or> r = 2 \<or> r = 3 \<or> r = 4 \<or> r = 5 \<or> r = 6" using r by presburger
  moreover have "is_week_day j \<longleftrightarrow> r < 5" using e [of 0] r by simp
  ultimately show "length (filter is_week_day [j, j + 1, j + 2, j + 3, j + 4, j + 5, j + 6]) = 5"
    by (elim disjE) (simp_all add: e)
  show "is_week_day (j + 7) = is_week_day j" using assms by (simp add: is_week_day_def smod_nonneg)
qed

text \<open>
  The epochs in the comments are those of the usual definitions, which subtract half a day more: day 0 of \<open>jd_to_mjd\<close> is the
  Julian day that starts at noon of 16 November 1858, and day 0 of \<open>jd_to_tjd\<close> that of 23 May 1968.
\<close>

lemma epochs: "mjd_to_jd 0 = ymd_to_jd 1858 11 16" "tjd_to_jd 0 = ymd_to_jd 1968 5 23"
  "jd_to_mjd (mjd_to_jd n) = n" "jd_to_tjd (tjd_to_jd n) = n"
  by (simp_all add: mjd_to_jd_def tjd_to_jd_def jd_to_mjd_def jd_to_tjd_def ymd_to_jd_eq mar_year_def mar_off_def)

end
