(* ===== verification/Strings.thy ===== *)
theory Strings
  imports Prelude
begin

text \<open>
  The string helpers of \<open>util/String.hpp\<close>, \<open>util/String.cpp\<close>, \<open>util/Utility.hpp\<close>, \<open>util/Utility.cpp\<close> and the
  tokeniser of \<open>util/Tokeniser.hpp\<close>. A \<open>string_view\<close> is the list of its characters; a \<open>char\<close> is signed, so characters
  from 128 on are negative numbers.
\<close>

subsection \<open>Numbers\<close>

definition isdigit :: "char \<Rightarrow> bool" where
  "isdigit c \<longleftrightarrow> of_char c \<ge> (48 :: nat) \<and> of_char c \<le> (57 :: nat)"

text \<open>\<open>c - '0'\<close>\<close>

definition digit_val :: "char \<Rightarrow> nat" where
  "digit_val c = of_char c - 48"

fun ston_digits :: "u64 \<Rightarrow> string \<Rightarrow> u64" where
  "ston_digits n [] = n"
| "ston_digits n (c # cs) = (if isdigit c then ston_digits (n * 10 + of_nat (digit_val c)) cs else n)"

definition ston_magnitude :: "string \<Rightarrow> u64" where
  "ston_magnitude sv = (case sv of [] \<Rightarrow> 0 | c # cs \<Rightarrow> if isdigit c then ston_digits (of_nat (digit_val c)) cs else 0)"

text \<open>\<open>ston\<close> for a signed type of \<open>w\<close> bits: the 64 bit magnitude, negated modulo \<open>2^64\<close>, is converted to the type.\<close>

definition ston_signed :: "nat \<Rightarrow> string \<Rightarrow> int" where
  "ston_signed w sv =
     (case sv of
        [] \<Rightarrow> 0
      | c # cs \<Rightarrow>
          if c = CHR ''-'' then (if cs = [] then 0 else signed_take_bit (w - 1) (uint (- ston_magnitude cs)))
          else signed_take_bit (w - 1) (uint (ston_magnitude sv)))"

definition ston_unsigned :: "nat \<Rightarrow> string \<Rightarrow> nat" where
  "ston_unsigned w sv = take_bit w (unat (ston_magnitude sv))"

definition stob :: "string \<Rightarrow> bool \<Rightarrow> bool" where
  "stob sv dfl =
     (case sv of
        [a] \<Rightarrow> if a \<in> set ''0FNfn'' then False else if a \<in> set ''1TYty'' then True else dfl
      | [a, b] \<Rightarrow>
          if a \<in> set ''Nn'' \<and> b \<in> set ''Oo'' then False
          else if a \<in> set ''Oo'' \<and> b \<in> set ''Nn'' then True else dfl
      | [a, b, c] \<Rightarrow>
          if a \<in> set ''Oo'' \<and> b \<in> set ''Ff'' \<and> c \<in> set ''Ff'' then False
          else if a \<in> set ''Yy'' \<and> b \<in> set ''Ee'' \<and> c \<in> set ''Ss'' then True else dfl
      | [a, b, c, d] \<Rightarrow> if a \<in> set ''Tt'' \<and> b \<in> set ''Rr'' \<and> c \<in> set ''Uu'' \<and> d \<in> set ''Ee'' then True else dfl
      | [a, b, c, d, e] \<Rightarrow>
          if a \<in> set ''Ff'' \<and> b \<in> set ''Aa'' \<and> c \<in> set ''Ll'' \<and> d \<in> set ''Ss'' \<and> e \<in> set ''Ee'' then False else dfl
      | _ \<Rightarrow> dfl)"

text \<open>\<open>std::to_string\<close>, the decimal notation.\<close>

fun nat_string :: "nat \<Rightarrow> string" where
  "nat_string n = (if n < 10 then [char_of (48 + n)] else nat_string (n div 10) @ [char_of (48 + n mod 10)])"

declare nat_string.simps [simp del]

definition int_string :: "int \<Rightarrow> string" where
  "int_string i = (if i < 0 then CHR ''-'' # nat_string (nat (- i)) else nat_string (nat i))"

subsection \<open>Trimming and splitting\<close>

definition Space :: string where
  "Space = [CHR '' '', CHR 0x09, CHR 0x0A, CHR 0x0B, CHR 0x0C, CHR 0x0D]"

text \<open>\<open>find_first_not_of\<close>, \<open>find_last_not_of\<close> and \<open>find_first_of\<close>; \<open>npos\<close> is \<open>None\<close>.\<close>

fun find_first :: "('a \<Rightarrow> bool) \<Rightarrow> 'a list \<Rightarrow> nat option" where
  "find_first P [] = None"
| "find_first P (x # xs) = (if P x then Some 0 else map_option Suc (find_first P xs))"

definition find_last :: "('a \<Rightarrow> bool) \<Rightarrow> 'a list \<Rightarrow> nat option" where
  "find_last P xs = map_option (\<lambda>i. length xs - 1 - i) (find_first P (rev xs))"

definition ltrim :: "string \<Rightarrow> string" where
  "ltrim s = drop (case find_first (\<lambda>c. c \<notin> set Space) s of Some pos \<Rightarrow> pos | None \<Rightarrow> length s) s"

definition rtrim :: "string \<Rightarrow> string" where
  "rtrim s = take (case find_last (\<lambda>c. c \<notin> set Space) s of Some pos \<Rightarrow> pos + 1 | None \<Rightarrow> 0) s"

definition trim :: "string \<Rightarrow> string" where
  "trim s = rtrim (ltrim s)"

definition split_pair :: "string \<Rightarrow> char \<Rightarrow> string \<times> string" where
  "split_pair s delim =
     (case find_first (\<lambda>c. c = delim) s of
        None \<Rightarrow> (s, [])
      | Some pos \<Rightarrow> (take pos s, drop (pos + 1) s))"

definition ends_with :: "'a list \<Rightarrow> 'a list \<Rightarrow> bool" where
  "ends_with str m \<longleftrightarrow> length str \<ge> length m \<and> take (length m) (drop (length str - length m) str) = m"

subsection \<open>Padded strings\<close>

definition pstrlen :: "char \<Rightarrow> string \<Rightarrow> nat" where
  "pstrlen pad src = (case find_first (\<lambda>c. c = pad) src of Some i \<Rightarrow> i | None \<Rightarrow> length src)"

text \<open>Copies of a zero-terminated and of a sized string into a field of \<open>n\<close> characters.\<close>

definition pstrcpy_cstr :: "char \<Rightarrow> string \<Rightarrow> nat \<Rightarrow> nat \<times> string" where
  "pstrcpy_cstr pad src n =
     (let s = take n (takeWhile (\<lambda>c. c \<noteq> CHR 0x00) src) in (length s, s @ replicate (n - length s) pad))"

definition pstrcpy :: "char \<Rightarrow> string \<Rightarrow> nat \<Rightarrow> nat \<times> string" where
  "pstrcpy pad src n = (let len = min n (length src) in (len, take len src @ replicate (n - len) pad))"

text \<open>\<open>to_chars\<close> fails when the digits do not fit; the field is then left as it was.\<close>

definition pstrcpyid :: "char \<Rightarrow> int \<Rightarrow> string \<Rightarrow> nat \<times> string" where
  "pstrcpyid pad ident dst =
     (let s = int_string ident; n = length dst in
      if length s > n then (0, dst) else (length s, s @ replicate (n - length s) pad))"

definition hex_char :: "nat \<Rightarrow> char" where
  "hex_char k = ''0123456789ABCDEF'' ! k"

definition to_hex_dump :: "string \<Rightarrow> string" where
  "to_hex_dump buf =
     concat (map (\<lambda>c. [hex_char (of_char c div 16), hex_char (of_char c mod 16), CHR '' '']) buf) @ [CHR 0x0A] @
     concat (map (\<lambda>c. [CHR '' '', if of_char c < (32 :: nat) \<or> of_char c \<ge> (128 :: nat) then CHR '' '' else c, CHR '' '']) buf)"

subsection \<open>Tokeniser\<close>

record tokeniser =
  tk_buf :: string
  tk_delims :: string
  tk_i :: nat
  tk_j :: nat

definition tk_find :: "string \<Rightarrow> string \<Rightarrow> nat \<Rightarrow> nat" where
  "tk_find buf delims i = (case find_first (\<lambda>c. c \<in> set delims) (drop i buf) of Some k \<Rightarrow> i + k | None \<Rightarrow> length buf)"

definition tk_reset :: "string \<Rightarrow> string \<Rightarrow> tokeniser" where
  "tk_reset buf delims = \<lparr>tk_buf = buf, tk_delims = delims, tk_i = 0, tk_j = tk_find buf delims 0\<rparr>"

definition tk_consumed :: "tokeniser \<Rightarrow> nat" where "tk_consumed t = tk_i t"
definition tk_empty :: "tokeniser \<Rightarrow> bool" where "tk_empty t \<longleftrightarrow> tk_i t = length (tk_buf t)"
definition tk_has_delim :: "tokeniser \<Rightarrow> bool" where "tk_has_delim t \<longleftrightarrow> tk_j t \<noteq> length (tk_buf t)"
definition tk_top :: "tokeniser \<Rightarrow> string" where "tk_top t = take (tk_j t - tk_i t) (drop (tk_i t) (tk_buf t))"

definition tk_pop :: "tokeniser \<Rightarrow> tokeniser" where
  "tk_pop t = (if tk_j t \<noteq> length (tk_buf t)
     then t\<lparr>tk_i := tk_j t + 1, tk_j := tk_find (tk_buf t) (tk_delims t) (tk_j t + 1)\<rparr>
     else t\<lparr>tk_i := tk_j t\<rparr>)"

definition tk_next :: "tokeniser \<Rightarrow> string \<times> tokeniser" where
  "tk_next t = (tk_top t, tk_pop t)"

text \<open>The loop of \<open>parse_line\<close>, with the lines passed to the function object.\<close>

partial_function (option) parse_line_loop :: "tokeniser \<Rightarrow> (string list \<times> nat) option" where
  "parse_line_loop t = (if tk_has_delim t
     then Option.bind (parse_line_loop (tk_pop t)) (\<lambda>(ls, n). Some (tk_top t # ls, n))
     else Some ([], tk_consumed t))"

definition parse_line :: "string \<Rightarrow> (string list \<times> nat) option" where
  "parse_line buf = parse_line_loop (tk_reset buf [CHR 0x0A])"

text \<open>\<open>split\<close> fills the columns of a row and leaves those it has no token for.\<close>

fun split_cols :: "tokeniser \<Rightarrow> string list \<Rightarrow> string list" where
  "split_cols t [] = []"
| "split_cols t (col # cols) = (if tk_empty t then col # cols else tk_top t # split_cols (tk_pop t) cols)"

definition split_row :: "string \<Rightarrow> string \<Rightarrow> string list \<Rightarrow> string list" where
  "split_row line delims row = split_cols (tk_reset line delims) row"

subsection \<open>Numbers: proofs\<close>

lemma of_char_digit: "d < 10 \<Longrightarrow> of_char (char_of (48 + d) :: char) = 48 + d" for d :: nat
  by (simp add: of_char_of)

lemma isdigit_digit [simp]: "d < 10 \<Longrightarrow> isdigit (char_of (48 + d))" "d < 10 \<Longrightarrow> digit_val (char_of (48 + d)) = d" for d :: nat
  by (simp_all add: isdigit_def digit_val_def of_char_digit)

lemma nat_string_digits: "\<forall>c \<in> set (nat_string n). isdigit c" "nat_string n \<noteq> []"
proof (induction n rule: nat_string.induct)
  case (1 n)
  show "\<forall>c \<in> set (nat_string n). isdigit c" by (subst nat_string.simps) (use 1 in auto)
  show "nat_string n \<noteq> []" by (subst nat_string.simps) simp
qed

lemma ston_digits_append:
  "\<forall>c \<in> set xs. isdigit c \<Longrightarrow> ston_digits n (xs @ ys) = ston_digits (ston_digits n xs) ys"
  by (induction xs arbitrary: n) auto

lemma ston_digits_nat_string: "ston_digits 0 (nat_string n) = of_nat n"
proof (induction n rule: nat_string.induct)
  case (1 n)
  show ?case
  proof (cases "n < 10")
    case True
    then show ?thesis by (subst nat_string.simps) simp
  next
    case False
    have "ston_digits 0 (nat_string n) = of_nat (n div 10) * 10 + of_nat (n mod 10)"
      using 1 [OF False] False nat_string_digits(1) [of "n div 10"] by (subst nat_string.simps) (simp add: ston_digits_append)
    also have "\<dots> = of_nat (n div 10 * 10 + n mod 10)" by (simp only: of_nat_add of_nat_mult of_nat_numeral)
    finally show ?thesis by simp
  qed
qed

lemma ston_magnitude_eq: "(case sv of [] \<Rightarrow> True | c # _ \<Rightarrow> isdigit c) \<Longrightarrow> ston_magnitude sv = ston_digits 0 sv"
  by (cases sv) (auto simp: ston_magnitude_def)

lemma ston_magnitude_nat_string: "ston_magnitude (nat_string n) = of_nat n"
  using nat_string_digits [of n] ston_digits_nat_string [of n]
  by (subst ston_magnitude_eq) (auto split: list.splits)

lemma digit_not_minus: "isdigit c \<Longrightarrow> c \<noteq> CHR ''-''"
  by (auto simp: isdigit_def)

lemma ston_int_string:
  assumes "1 \<le> w" "w \<le> 64" "- (2 ^ (w - 1)) \<le> i" "i < 2 ^ (w - 1)"
  shows "ston_signed w (int_string i) = i"
proof -
  have id: "signed_take_bit (w - 1) i = i" using assms by (intro signed_take_bit_int_eq_self)
  have tb: "signed_take_bit (w - 1) (take_bit 64 j) = signed_take_bit (w - 1) j" for j :: int
    using assms(1,2) by (simp add: signed_take_bit_eq_iff_take_bit_eq take_bit_take_bit min_def)
  obtain c cs where s: "nat_string (nat \<bar>i\<bar>) = c # cs" "isdigit c"
    using nat_string_digits [of "nat \<bar>i\<bar>"] by (cases "nat_string (nat \<bar>i\<bar>)") auto
  show ?thesis
  proof (cases "i < 0")
    case True
    have "uint (- ston_magnitude (nat_string (nat (- i)))) = take_bit 64 i"
      using True by (simp add: ston_magnitude_nat_string unsigned_of_int)
    with True s tb id show ?thesis by (simp add: ston_signed_def int_string_def)
  next
    case False
    have "uint (ston_magnitude (nat_string (nat i))) = take_bit 64 i"
      using False by (simp add: ston_magnitude_nat_string unsigned_of_int)
    with False s tb id digit_not_minus show ?thesis by (auto simp: ston_signed_def int_string_def)
  qed
qed

text \<open>
  Reading back what \<open>std::to_string\<close> prints gives the number: for every width up to 64 bits and every value of the signed type
  of that width, \<open>ston\<close> of its decimal notation is the value.
\<close>

theorem ston_reads_to_string:
  assumes "1 \<le> w" "w \<le> 64" "- (2 ^ (w - 1)) \<le> i" "i < 2 ^ (w - 1)"
  shows "ston_signed w (int_string i) = i"
  by (rule ston_int_string [OF assms])

theorem ston_reads_to_string_witness: "ston_signed 8 ''-128'' = - 128"
proof -
  have c: "char_of (49 :: nat) = CHR ''1''" "char_of (50 :: nat) = CHR ''2''" "char_of (56 :: nat) = CHR ''8''" by code_simp+
  have "int_string (- 128) = ''-128''"
    by (simp add: int_string_def nat_string.simps [of 128] nat_string.simps [of 12] nat_string.simps [of "Suc 0"] c)
  with ston_reads_to_string [of 8 "- 128"] show ?thesis by simp
qed

subsection \<open>Trimming and splitting: proofs\<close>

lemma find_first_None: "find_first P xs = None \<longleftrightarrow> (\<forall>x \<in> set xs. \<not> P x)"
  by (induction xs) auto

lemma find_first_Some: "find_first P xs = Some i \<longleftrightarrow> i < length xs \<and> P (xs ! i) \<and> (\<forall>x \<in> set (take i xs). \<not> P x)"
  by (induction xs arbitrary: i) (auto simp: nth_Cons take_Cons split: nat.splits)

lemma find_first_dropWhile: "drop (case find_first P s of Some pos \<Rightarrow> pos | None \<Rightarrow> length s) s = dropWhile (\<lambda>c. \<not> P c) s"
  by (induction s) (auto split: option.splits)

lemma ltrim_eq: "ltrim s = dropWhile (\<lambda>c. c \<in> set Space) s"
  unfolding ltrim_def find_first_dropWhile by simp

lemma rtrim_eq: "rtrim s = rev (dropWhile (\<lambda>c. c \<in> set Space) (rev s))"
proof (cases "find_first (\<lambda>c. c \<notin> set Space) (rev s)")
  case None
  then have "dropWhile (\<lambda>c. c \<in> set Space) (rev s) = []" by (auto simp: find_first_None)
  with None show ?thesis by (simp add: rtrim_def find_last_def)
next
  case (Some i)
  then have i: "i < length s" by (simp add: find_first_Some)
  have "dropWhile (\<lambda>c. c \<in> set Space) (rev s) = drop i (rev s)"
    using find_first_dropWhile [where P = "\<lambda>c. c \<notin> set Space" and s = "rev s"] Some by simp
  also have "\<dots> = rev (take (length s - i) s)" using i by (simp add: rev_take)
  finally show ?thesis using Some i by (simp add: rtrim_def find_last_def Suc_diff_Suc)
qed

text \<open>
  \<open>trim\<close> removes exactly the white space at both ends: the string is the trimmed one between two runs of white space, and the
  trimmed one is empty or starts and ends with other characters.
\<close>

theorem trim_spec:
  "(\<exists>a b. s = a @ trim s @ b \<and> set a \<subseteq> set Space \<and> set b \<subseteq> set Space) \<and>
   (trim s = [] \<or> hd (trim s) \<notin> set Space \<and> last (trim s) \<notin> set Space)"
proof -
  let ?P = "\<lambda>c. c \<in> set Space"
  let ?l = "dropWhile ?P s"
  have t: "trim s = rev (dropWhile ?P (rev ?l))" by (simp add: trim_def ltrim_eq rtrim_eq)
  have l: "?l = trim s @ rev (takeWhile ?P (rev ?l))" unfolding t by (metis rev_append rev_rev_ident takeWhile_dropWhile_id)
  have "s = takeWhile ?P s @ trim s @ rev (takeWhile ?P (rev ?l))" using l by (metis takeWhile_dropWhile_id)
  moreover have "set (takeWhile ?P s) \<subseteq> set Space" "set (rev (takeWhile ?P (rev ?l))) \<subseteq> set Space"
    by (auto dest: set_takeWhileD)
  moreover have "trim s = [] \<or> hd (trim s) \<notin> set Space \<and> last (trim s) \<notin> set Space"
  proof (cases "trim s = []")
    case False
    then have "hd (trim s) = hd ?l" using l by (metis hd_append2)
    moreover have "?l \<noteq> []" using l False by (metis append_is_Nil_conv)
    ultimately have "hd (trim s) = hd ?l" "?l \<noteq> []" by simp_all
    then have "hd (trim s) \<notin> set Space" using hd_dropWhile [of ?P s] by simp
    moreover have "last (trim s) \<notin> set Space"
      using False hd_dropWhile [of ?P "rev ?l"] by (simp add: t last_rev)
    ultimately show ?thesis by blast
  qed simp
  ultimately show ?thesis by blast
qed

lemma split_pair_join:
  assumes "delim \<notin> set k"
  shows "split_pair (k @ delim # v) delim = (k, v)"
proof -
  have "find_first (\<lambda>c. c = delim) (k @ delim # v) = Some (length k)"
    unfolding find_first_Some using assms by auto
  then show ?thesis by (simp add: split_pair_def)
qed

lemma split_pair_none: "delim \<notin> set s \<Longrightarrow> split_pair s delim = (s, [])"
proof -
  assume "delim \<notin> set s"
  then have "find_first (\<lambda>c. c = delim) s = None" unfolding find_first_None by blast
  then show ?thesis by (simp add: split_pair_def)
qed

lemma split_pair_some:
  assumes "delim \<in> set s" "split_pair s delim = (k, v)"
  shows "s = k @ delim # v \<and> delim \<notin> set k"
proof -
  obtain k' v' where s: "s = k' @ delim # v'" "delim \<notin> set k'" using split_list_first [OF assms(1)] by blast
  with assms(2) split_pair_join [OF s(2)] show ?thesis by simp
qed

lemma ends_with_suffix: "ends_with str m \<longleftrightarrow> (\<exists>p. str = p @ m)"
proof
  assume e: "ends_with str m"
  then have "drop (length str - length m) str = m" by (auto simp: ends_with_def)
  then show "\<exists>p. str = p @ m" by (metis append_take_drop_id)
qed (auto simp: ends_with_def)

text \<open>A padded field gives back the string, as far as it fits and if it does not contain the pad character.\<close>

lemma pstrlen_pstrcpy:
  assumes "pad \<notin> set src"
  shows "length (snd (pstrcpy pad src n)) = n" "pstrlen pad (snd (pstrcpy pad src n)) = fst (pstrcpy pad src n)"
    "take (pstrlen pad (snd (pstrcpy pad src n))) (snd (pstrcpy pad src n)) = take n src"
proof -
  show "length (snd (pstrcpy pad src n)) = n" by (simp add: pstrcpy_def Let_def min_def)
  have t: "pad \<notin> set (take n src)" using assms by (meson in_set_takeD)
  show l: "pstrlen pad (snd (pstrcpy pad src n)) = fst (pstrcpy pad src n)"
  proof (cases "n \<le> length src")
    case True
    then have "find_first (\<lambda>c. c = pad) (take n src) = None" using t by (auto simp: find_first_None)
    with True show ?thesis by (simp add: pstrcpy_def pstrlen_def Let_def min_def)
  next
    case False
    then have "find_first (\<lambda>c. c = pad) (src @ replicate (n - length src) pad) = Some (length src)"
      using assms by (auto simp: find_first_Some nth_append)
    with False show ?thesis by (simp add: pstrcpy_def pstrlen_def Let_def min_def)
  qed
  show "take (pstrlen pad (snd (pstrcpy pad src n))) (snd (pstrcpy pad src n)) = take n src"
    unfolding l by (simp add: pstrcpy_def Let_def min_def)
qed

subsection \<open>Tokeniser: proofs\<close>

definition tk_at :: "string \<Rightarrow> string \<Rightarrow> nat \<Rightarrow> tokeniser \<Rightarrow> bool" where
  "tk_at buf delims i t \<longleftrightarrow> tk_buf t = buf \<and> tk_delims t = delims \<and> tk_i t = i \<and> i \<le> length buf \<and> tk_j t = tk_find buf delims i"

lemma tk_at_reset: "tk_at buf delims 0 (tk_reset buf delims)"
  by (simp add: tk_at_def tk_reset_def)

lemma tk_step_delim:
  assumes "tk_at buf delims i t" "drop i buf = l @ d # rest" "d \<in> set delims" "\<forall>c \<in> set l. c \<notin> set delims"
  shows "tk_has_delim t" "tk_top t = l" "tk_at buf delims (i + length l + 1) (tk_pop t)"
    "drop (i + length l + 1) buf = rest" "\<not> tk_empty t"
proof -
  have "find_first (\<lambda>c. c \<in> set delims) (drop i buf) = Some (length l)"
    unfolding find_first_Some assms(2) using assms(3,4) by simp
  then have j: "tk_j t = i + length l" using assms(1) by (simp add: tk_at_def tk_find_def)
  have "length (drop i buf) = length l + 1 + length rest" by (simp add: assms(2))
  then have len: "length buf = i + length l + 1 + length rest" using assms(1) by (simp add: tk_at_def)
  show "tk_has_delim t" "\<not> tk_empty t" using j len assms(1) by (simp_all add: tk_has_delim_def tk_empty_def tk_at_def)
  have ib: "tk_i t = i" "tk_buf t = buf" using assms(1) by (simp_all add: tk_at_def)
  show "tk_top t = l" by (simp add: tk_top_def j ib assms(2))
  show "tk_at buf delims (i + length l + 1) (tk_pop t)" using j len assms(1) by (simp add: tk_pop_def tk_at_def)
  have "drop (i + length l + 1) buf = drop (length l + 1) (drop i buf)" by (simp add: add.commute add.left_commute)
  then show "drop (i + length l + 1) buf = rest" by (simp add: assms(2))
qed

lemma tk_step_last:
  assumes "tk_at buf delims i t" "\<forall>c \<in> set (drop i buf). c \<notin> set delims"
  shows "\<not> tk_has_delim t" "tk_top t = drop i buf" "tk_empty t \<longleftrightarrow> drop i buf = []" "tk_empty (tk_pop t)"
proof -
  have "find_first (\<lambda>c. c \<in> set delims) (drop i buf) = None" unfolding find_first_None using assms(2) by blast
  then have j: "tk_j t = length buf" using assms(1) by (simp add: tk_at_def tk_find_def)
  then show "\<not> tk_has_delim t" "tk_top t = drop i buf" "tk_empty t \<longleftrightarrow> drop i buf = []" "tk_empty (tk_pop t)"
    using assms(1) by (auto simp: tk_has_delim_def tk_top_def tk_empty_def tk_pop_def tk_at_def)
qed

lemma parse_line_loop_lines:
  "tk_at buf [CHR 0x0A] i t \<Longrightarrow> drop i buf = concat (map (\<lambda>l. l @ [CHR 0x0A]) ls) @ rest \<Longrightarrow>
   \<forall>l \<in> set ls. CHR 0x0A \<notin> set l \<Longrightarrow> CHR 0x0A \<notin> set rest \<Longrightarrow>
   parse_line_loop t = Some (ls, i + length (concat (map (\<lambda>l. l @ [CHR 0x0A]) ls)))"
proof (induction ls arbitrary: i t)
  case Nil
  then have "\<forall>c \<in> set (drop i buf). c \<notin> set [CHR 0x0A]" by auto
  from tk_step_last(1) [OF Nil.prems(1) this] Nil.prems(1) show ?case
    by (subst parse_line_loop.simps) (simp add: tk_consumed_def tk_at_def)
next
  case (Cons l ls)
  have d: "drop i buf = l @ CHR 0x0A # (concat (map (\<lambda>l. l @ [CHR 0x0A]) ls) @ rest)" using Cons.prems(2) by simp
  have "\<forall>c \<in> set l. c \<notin> set [CHR 0x0A]" using Cons.prems(3) by auto
  note S = tk_step_delim [OF Cons.prems(1) d _ this]
  have "parse_line_loop (tk_pop t) = Some (ls, i + length l + 1 + length (concat (map (\<lambda>l. l @ [CHR 0x0A]) ls)))"
    using Cons.IH [of "i + length l + 1" "tk_pop t"] S(3,4) Cons.prems(3,4) by simp
  then show ?case using S(1,2) by (subst parse_line_loop.simps) simp
qed

text \<open>
  \<open>parse_line\<close> delivers the complete lines of its input, in order and without their line feeds, returns the number of bytes of
  those lines, and leaves the incomplete rest unconsumed.
\<close>

theorem parse_line_delivers:
  assumes "\<forall>l \<in> set ls. CHR 0x0A \<notin> set l" "CHR 0x0A \<notin> set rest"
  shows "parse_line (concat (map (\<lambda>l. l @ [CHR 0x0A]) ls) @ rest) = Some (ls, length (concat (map (\<lambda>l. l @ [CHR 0x0A]) ls)))"
  unfolding parse_line_def
  using parse_line_loop_lines [OF tk_at_reset, of _ ls rest] assms by simp

theorem parse_line_delivers_witness:
  "parse_line (''ab'' @ [CHR 0x0A, CHR 0x0A] @ ''cd'') = Some ([''ab'', ''''], 4)"
  using parse_line_delivers [of "[''ab'', '''']" "''cd''"] by simp

text \<open>The fields of a line: what \<open>split\<close> is meant to compute. A delimiter at the very end does not start another field.\<close>

function fields :: "string \<Rightarrow> string \<Rightarrow> string list" where
  "fields delims s = (if s = [] then [] else
     case find_first (\<lambda>c. c \<in> set delims) s of None \<Rightarrow> [s] | Some k \<Rightarrow> take k s # fields delims (drop (k + 1) s))"
  by pat_completeness auto
termination by (relation "measure (\<lambda>(d, s). length s)") auto

declare fields.simps [simp del]

lemma split_cols_fields:
  "tk_at buf delims i t \<Longrightarrow>
   split_cols t cols = take (length cols) (fields delims (drop i buf)) @ drop (length (fields delims (drop i buf))) cols"
proof (induction cols arbitrary: i t)
  case (Cons col cols)
  show ?case
  proof (cases "find_first (\<lambda>c. c \<in> set delims) (drop i buf)")
    case None
    then have n: "\<forall>c \<in> set (drop i buf). c \<notin> set delims" by (simp add: find_first_None)
    have e: "split_cols (tk_pop t) cols = cols" using tk_step_last(4) [OF Cons.prems n] by (cases cols) simp_all
    show ?thesis using tk_step_last [OF Cons.prems n] e None by (subst (1 2) fields.simps) auto
  next
    case (Some k)
    then have k: "k < length (drop i buf)" "drop i buf ! k \<in> set delims" "\<forall>c \<in> set (take k (drop i buf)). c \<notin> set delims"
      by (auto simp: find_first_Some)
    have d: "drop i buf = take k (drop i buf) @ drop i buf ! k # drop (Suc k) (drop i buf)" using k(1) by (rule id_take_nth_drop)
    note S = tk_step_delim [OF Cons.prems d k(2,3)]
    have len: "length (take k (drop i buf)) = k" using k(1) by simp
    have f: "fields delims (drop i buf) = take k (drop i buf) # fields delims (drop (i + k + 1) buf)"
      using Some k(1) by (subst fields.simps) (auto simp: add.commute add.left_commute)
    show ?thesis unfolding f using Cons.IH [OF S(3)] S(2,5) by (simp only: len) simp
  qed
qed simp

text \<open>
  \<open>split\<close> puts the fields of a line into the columns of a row: the first fields fill the columns, surplus fields are dropped and
  surplus columns keep their value.
\<close>

theorem split_row_fields:
  "split_row line delims row = take (length row) (fields delims line) @ drop (length (fields delims line)) row"
  using split_cols_fields [OF tk_at_reset] by (simp add: split_row_def)

end
