(* ===== verification/Times.thy ===== *)
theory Times
  imports Dates Strings
begin

text \<open>
  Durations, clocks, \<open>timeval\<close> and \<open>timespec\<close> arithmetic and the parsers of times of \<open>sys/Time.hpp\<close>, with the date and
  time parser of \<open>sys/Date.hpp\<close>. A \<open>Nanos\<close> count and a time point are 64 bit integers; results that can leave that range are
  written with \<open>s64\<close>. \<open>duration_cast\<close> to a coarser unit truncates toward zero.
\<close>

subsection \<open>Durations and time points\<close>

definition is_zero_duration :: "int \<Rightarrow> bool" where "is_zero_duration d \<longleftrightarrow> d = 0"

definition us_since_epoch :: "int \<Rightarrow> int" where "us_since_epoch t = t sdiv 1000"
definition ms_since_epoch :: "int \<Rightarrow> int" where "ms_since_epoch t = t sdiv 1000000"
definition ns_since_epoch :: "int \<Rightarrow> int" where "ns_since_epoch t = t"

text \<open>\<open>to_time\<close> of a duration of \<open>unit\<close> nanoseconds per tick.\<close>

definition to_time :: "int \<Rightarrow> int \<Rightarrow> int" where "to_time unit d = s64 (d * unit)"

definition clock_max :: int where "clock_max = (2 ^ 31 - 1) * 1000000000"
definition to_time_t :: "int \<Rightarrow> int" where "to_time_t tp = tp sdiv 1000000000"
definition from_time_t :: "int \<Rightarrow> int" where "from_time_t t = s64 (t * 1000000000)"

subsection \<open>timeval and timespec\<close>

record timeval =
  tv_sec :: int
  tv_usec :: int

record timespec =
  ts_sec :: int
  ts_nsec :: int

definition time_of_timeval :: "timeval \<Rightarrow> int" where
  "time_of_timeval tv = to_time 1000 (s64 (tv_sec tv * 1000000 + tv_usec tv))"

definition time_of_timespec :: "timespec \<Rightarrow> int" where
  "time_of_timespec ts = to_time 1 (s64 (ts_sec ts * 1000000000 + ts_nsec ts))"

definition to_timeval :: "int \<Rightarrow> timeval" where
  "to_timeval d = (let us = d sdiv 1000 in \<lparr>tv_sec = us sdiv 1000000, tv_usec = us smod 1000000\<rparr>)"

definition to_timespec :: "int \<Rightarrow> timespec" where
  "to_timespec d = \<lparr>ts_sec = d sdiv 1000000000, ts_nsec = d smod 1000000000\<rparr>"

definition is_zero_timeval :: "timeval \<Rightarrow> bool" where "is_zero_timeval tv \<longleftrightarrow> tv_sec tv = 0 \<and> tv_usec tv = 0"
definition clear_timeval :: "timeval \<Rightarrow> timeval" where "clear_timeval tv = tv\<lparr>tv_sec := 0, tv_usec := 0\<rparr>"

definition timeval_add :: "timeval \<Rightarrow> timeval \<Rightarrow> timeval" where
  "timeval_add lhs rhs =
     (let tv = \<lparr>tv_sec = s64 (tv_sec lhs + tv_sec rhs), tv_usec = s64 (tv_usec lhs + tv_usec rhs)\<rparr> in
      if tv_usec tv \<ge> 1000000 then \<lparr>tv_sec = s64 (tv_sec tv + 1), tv_usec = tv_usec tv - 1000000\<rparr> else tv)"

definition timeval_sub :: "timeval \<Rightarrow> timeval \<Rightarrow> timeval" where
  "timeval_sub lhs rhs =
     (let tv = \<lparr>tv_sec = s64 (tv_sec lhs - tv_sec rhs), tv_usec = s64 (tv_usec lhs - tv_usec rhs)\<rparr> in
      if tv_usec tv < 0 then \<lparr>tv_sec = s64 (tv_sec tv - 1), tv_usec = tv_usec tv + 1000000\<rparr> else tv)"

definition is_zero_timespec :: "timespec \<Rightarrow> bool" where "is_zero_timespec ts \<longleftrightarrow> ts_sec ts = 0 \<and> ts_nsec ts = 0"
definition clear_timespec :: "timespec \<Rightarrow> timespec" where "clear_timespec ts = ts\<lparr>ts_sec := 0, ts_nsec := 0\<rparr>"

definition timespec_add :: "timespec \<Rightarrow> timespec \<Rightarrow> timespec" where
  "timespec_add lhs rhs =
     (let ts = \<lparr>ts_sec = s64 (ts_sec lhs + ts_sec rhs), ts_nsec = s64 (ts_nsec lhs + ts_nsec rhs)\<rparr> in
      if ts_nsec ts \<ge> 1000000000 then \<lparr>ts_sec = s64 (ts_sec ts + 1), ts_nsec = ts_nsec ts - 1000000000\<rparr> else ts)"

definition timespec_sub :: "timespec \<Rightarrow> timespec \<Rightarrow> timespec" where
  "timespec_sub lhs rhs =
     (let ts = \<lparr>ts_sec = s64 (ts_sec lhs - ts_sec rhs), ts_nsec = s64 (ts_nsec lhs - ts_nsec rhs)\<rparr> in
      if ts_nsec ts < 0 then \<lparr>ts_sec = s64 (ts_sec ts - 1), ts_nsec = ts_nsec ts + 1000000000\<rparr> else ts)"

definition get_time :: "timespec \<Rightarrow> int" where
  "get_time ts = s64 (ts_sec ts * 1000000000 + ts_nsec ts)"

subsection \<open>Cycle time\<close>

text \<open>The thread-local time of the current cycle; the clocks are read by the caller.\<close>

record cycl_time =
  mono_time :: int
  wall_time :: int

definition cycl_now :: "int \<Rightarrow> int \<Rightarrow> cycl_time" where
  "cycl_now mono_clock wall_clock = \<lparr>mono_time = mono_clock, wall_time = wall_clock\<rparr>"

definition cycl_set_wall_time :: "int \<Rightarrow> cycl_time \<Rightarrow> cycl_time" where
  "cycl_set_wall_time t c = c\<lparr>wall_time := t\<rparr>"

subsection \<open>Parsers\<close>

definition nanos_scale :: "int list" where
  "nanos_scale = [0, 100000000, 10000000, 1000000, 100000, 10000, 1000, 100, 10, 1]"

fun nanos_loop :: "int \<Rightarrow> nat \<Rightarrow> string \<Rightarrow> int \<times> nat" where
  "nanos_loop ns it [] = (ns, it)"
| "nanos_loop ns it (c # cs) = (if isdigit c then nanos_loop (ns * 10 + int (digit_val c)) (it + 1) cs else (ns, it))"

text \<open>An empty string has no first character to look at: the read is past its end.\<close>

definition parse_nanos :: "string \<Rightarrow> int option" where
  "parse_nanos sv0 =
     (let sv = take 9 sv0 in
      case sv of
        [] \<Rightarrow> None
      | c # cs \<Rightarrow>
          (let (ns, it) = (if isdigit c then nanos_loop (int (digit_val c)) 1 cs else (0, 0))
           in Some (ns * nanos_scale ! it)))"

definition two_digits :: "string \<Rightarrow> nat \<Rightarrow> int" where
  "two_digits sv i = int (digit_val (sv ! i)) * 10 + int (digit_val (sv ! (i + 1)))"

text \<open>The outer option is \<open>None\<close> for the undefined read, the inner one for a string that is not a time.\<close>

definition parse_time_only :: "string \<Rightarrow> int option option" where
  "parse_time_only sv =
     (if length sv < 8 \<or> \<not> isdigit (sv ! 0) \<or> \<not> isdigit (sv ! 1) \<or> sv ! 2 \<noteq> CHR '':'' \<or> \<not> isdigit (sv ! 3) \<or> \<not> isdigit (sv ! 4)
        \<or> sv ! 5 \<noteq> CHR '':'' \<or> \<not> isdigit (sv ! 6) \<or> \<not> isdigit (sv ! 7)
      then Some None
      else
        let ns = (two_digits sv 0 * 3600 + two_digits sv 3 * 60 + two_digits sv 6) * 1000000000 in
        if length sv > 8 then
          if sv ! 8 \<noteq> CHR ''.'' then Some None
          else map_option (\<lambda>frac. Some (ns + frac)) (parse_nanos (drop 9 sv))
        else Some (Some ns))"

definition parse_date :: "string \<Rightarrow> int" where
  "parse_date sv = ston_signed 32 sv"

definition jd_to_time :: "int \<Rightarrow> int" where
  "jd_to_time jd =
     (let jd_unix_epoc = 2440588; ms_in_day = 24 * 60 * 60 * 1000
      in to_time 1000000 ((jd - jd_unix_epoc) * ms_in_day + ms_in_day div 2))"

definition parse_time :: "string \<Rightarrow> int option option" where
  "parse_time sv =
     (if length sv < 8 then Some None
      else
        let d = parse_date (take 8 sv);
            dt = (if d \<noteq> 0 then s64 (jd_to_time (iso_to_jd d) - 12 * 3600 * 1000000000) else 0)
        in if length sv > 8 then
             if sv ! 8 \<noteq> CHR ''-'' \<and> sv ! 8 \<noteq> CHR ''T'' then Some None
             else (case parse_time_only (drop 9 sv) of
                 None \<Rightarrow> None
               | Some None \<Rightarrow> Some None
               | Some (Some t) \<Rightarrow> Some (Some (s64 (dt + t))))
           else Some (Some dt))"

subsection \<open>Arithmetic\<close>

definition timespec_ok :: "timespec \<Rightarrow> bool" where
  "timespec_ok ts \<longleftrightarrow> 0 \<le> ts_nsec ts \<and> ts_nsec ts < 1000000000"

definition timespec_ns :: "timespec \<Rightarrow> int" where
  "timespec_ns ts = ts_sec ts * 1000000000 + ts_nsec ts"

text \<open>
  Adding and subtracting \<open>timespec\<close> values is exact and keeps them normalised, as long as the seconds stay within 62 bits; a
  difference may have negative seconds but its nanoseconds are still between 0 and \<open>10^9\<close>.
\<close>

theorem timespec_arithmetic:
  assumes "timespec_ok a" "timespec_ok b" "\<bar>ts_sec a\<bar> < 2 ^ 61" "\<bar>ts_sec b\<bar> < 2 ^ 61"
  shows "timespec_ok (timespec_add a b) \<and> timespec_ns (timespec_add a b) = timespec_ns a + timespec_ns b \<and>
    timespec_ok (timespec_sub a b) \<and> timespec_ns (timespec_sub a b) = timespec_ns a - timespec_ns b"
proof -
  have n: "0 \<le> ts_nsec a" "ts_nsec a < 1000000000" "0 \<le> ts_nsec b" "ts_nsec b < 1000000000"
    using assms(1,2) by (auto simp: timespec_ok_def)
  have b: "- (2 ^ 61) < ts_sec a" "ts_sec a < 2 ^ 61" "- (2 ^ 61) < ts_sec b" "ts_sec b < 2 ^ 61" using assms(3,4) by auto
  have s: "s64 (ts_sec a + ts_sec b) = ts_sec a + ts_sec b" "s64 (ts_sec a - ts_sec b) = ts_sec a - ts_sec b"
    "s64 (ts_nsec a + ts_nsec b) = ts_nsec a + ts_nsec b" "s64 (ts_nsec a - ts_nsec b) = ts_nsec a - ts_nsec b"
    "s64 (ts_sec a + ts_sec b + 1) = ts_sec a + ts_sec b + 1" "s64 (ts_sec a - ts_sec b - 1) = ts_sec a - ts_sec b - 1"
    using b n by (auto intro!: s64_id)
  show ?thesis using n by (auto simp: timespec_add_def timespec_sub_def Let_def s timespec_ok_def timespec_ns_def)
qed

theorem timespec_arithmetic_witness:
  "timespec_sub \<lparr>ts_sec = 3, ts_nsec = 5\<rparr> \<lparr>ts_sec = 1, ts_nsec = 7\<rparr> = \<lparr>ts_sec = 1, ts_nsec = 999999998\<rparr> \<and>
   timespec_ok (timespec_sub \<lparr>ts_sec = 3, ts_nsec = 5\<rparr> \<lparr>ts_sec = 1, ts_nsec = 7\<rparr>)"
proof
  show "timespec_sub \<lparr>ts_sec = 3, ts_nsec = 5\<rparr> \<lparr>ts_sec = 1, ts_nsec = 7\<rparr> = \<lparr>ts_sec = 1, ts_nsec = 999999998\<rparr>"
    by (simp add: timespec_sub_def s64_def)
  show "timespec_ok (timespec_sub \<lparr>ts_sec = 3, ts_nsec = 5\<rparr> \<lparr>ts_sec = 1, ts_nsec = 7\<rparr>)"
    using timespec_arithmetic [of "\<lparr>ts_sec = 3, ts_nsec = 5\<rparr>" "\<lparr>ts_sec = 1, ts_nsec = 7\<rparr>"] by (simp add: timespec_ok_def)
qed

text \<open>A nonnegative duration survives the conversion to \<open>timespec\<close> and is normalised.\<close>

lemma timespec_roundtrip:
  assumes "0 \<le> d" "d < 2 ^ 63"
  shows "timespec_ok (to_timespec d)" "time_of_timespec (to_timespec d) = d"
proof -
  have e: "d div 1000000000 * 1000000000 + d mod 1000000000 = d" by simp
  show "timespec_ok (to_timespec d)" using assms(1) by (simp add: to_timespec_def timespec_ok_def smod_nonneg)
  show "time_of_timespec (to_timespec d) = d"
    using assms by (simp add: time_of_timespec_def to_timespec_def to_time_def sdiv_nonneg smod_nonneg e s64_id del: div_mult_mod_eq)
qed

subsection \<open>Parsing fixed-width decimals\<close>

text \<open>The decimal notation of \<open>n\<close> with leading zeros, \<open>k\<close> digits wide.\<close>

fun fixed :: "nat \<Rightarrow> nat \<Rightarrow> string" where
  "fixed 0 n = []"
| "fixed (Suc k) n = fixed k (n div 10) @ [char_of (48 + n mod 10)]"

lemma length_fixed [simp]: "length (fixed k n) = k"
  by (induction k arbitrary: n) auto

lemma fixed_digits: "\<forall>c \<in> set (fixed k n). isdigit c"
  by (induction k arbitrary: n) auto

lemma ston_digits_fixed: "n < 10 ^ k \<Longrightarrow> ston_digits 0 (fixed k n) = of_nat n"
proof (induction k arbitrary: n)
  case (Suc k)
  have "n div 10 < 10 ^ k" using Suc.prems by (simp add: less_mult_imp_div_less mult.commute)
  then have "ston_digits 0 (fixed (Suc k) n) = of_nat (n div 10) * 10 + of_nat (n mod 10)"
    using Suc.IH fixed_digits [of k "n div 10"] by (simp add: ston_digits_append)
  also have "\<dots> = of_nat (n div 10 * 10 + n mod 10)" by (simp only: of_nat_add of_nat_mult of_nat_numeral)
  finally show ?case by simp
qed simp

lemma ston_signed_digits:
  assumes "sv \<noteq> []" "\<forall>c \<in> set sv. isdigit c" "ston_digits 0 sv = of_nat n" "n < 2 ^ 31"
  shows "ston_signed 32 sv = int n"
proof -
  obtain c cs where sv: "sv = c # cs" "isdigit c" using assms(1,2) by (cases sv) auto
  have "ston_magnitude sv = of_nat n" using assms(3) sv by (subst ston_magnitude_eq) auto
  moreover have "uint (of_nat n :: u64) = int n" using assms(4) by (simp add: unsigned_of_nat take_bit_nat_eq_self)
  moreover have "signed_take_bit 31 (int n) = int n" using assms(4) by (intro signed_take_bit_int_eq_self) auto
  ultimately show ?thesis using sv digit_not_minus [OF sv(2)] by (simp add: ston_signed_def)
qed

lemma nanos_loop_fixed:
  "n < 10 ^ k \<Longrightarrow> nanos_loop a it (fixed k n @ cs) = nanos_loop (a * 10 ^ k + int n) (it + k) cs"
proof (induction k arbitrary: n cs)
  case (Suc k)
  have "n div 10 < 10 ^ k" using Suc.prems by (simp add: less_mult_imp_div_less mult.commute)
  from Suc.IH [OF this, of "char_of (48 + n mod 10) # cs"]
  have "nanos_loop a it (fixed (Suc k) n @ cs) = nanos_loop ((a * 10 ^ k + int (n div 10)) * 10 + int (n mod 10)) (it + Suc k) cs" by simp
  also have "int (n mod 10) = int n - int (n div 10) * 10"
    using div_mult_mod_eq [of n 10] by linarith
  also have "(a * 10 ^ k + int (n div 10)) * 10 + (int n - int (n div 10) * 10) = a * 10 ^ Suc k + int n"
    by (simp add: distrib_right)
  finally show ?case by simp
qed simp

lemma nanos_scale_pow: "1 \<le> k \<Longrightarrow> k \<le> 9 \<Longrightarrow> nanos_scale ! k = 10 ^ (9 - k)"
proof -
  assume "1 \<le> k" "k \<le> 9"
  then have "k = 1 \<or> k = 2 \<or> k = 3 \<or> k = 4 \<or> k = 5 \<or> k = 6 \<or> k = 7 \<or> k = 8 \<or> k = 9" by presburger
  then show ?thesis by (elim disjE) (simp_all add: nanos_scale_def)
qed

lemma parse_nanos_fixed:
  assumes "1 \<le> k" "k \<le> 9" "n < 10 ^ k"
  shows "parse_nanos (fixed k n) = Some (int n * 10 ^ (9 - k))"
proof -
  obtain c cs where f: "fixed k n = c # cs" using assms(1) by (cases "fixed k n") (auto dest: arg_cong [where f = length])
  have d: "isdigit c" using fixed_digits [of k n] f by simp
  have "nanos_loop 0 0 (fixed k n @ []) = nanos_loop (0 * 10 ^ k + int n) (0 + k) []" by (rule nanos_loop_fixed [OF assms(3)])
  then have "nanos_loop (int (digit_val c)) 1 cs = (int n, k)" using f d by simp
  moreover have "take 9 (fixed k n) = fixed k n" using assms(2) by simp
  ultimately show ?thesis using f d nanos_scale_pow [OF assms(1,2)] by (simp add: parse_nanos_def)
qed

text \<open>
  \<open>parse_nanos\<close> reads a decimal fraction: a string of \<open>k \<le> 9\<close> digits with value \<open>n\<close> is \<open>n * 10 ^ (9 - k)\<close> nanoseconds, further digits are
  ignored, a string without leading digit is zero, and an empty string reads past its end.
\<close>

theorem parse_nanos_cases:
  "(1 \<le> k \<and> k \<le> 9 \<and> n < 10 ^ k \<longrightarrow> parse_nanos (fixed k n) = Some (int n * 10 ^ (9 - k))) \<and>
   (n < 10 ^ 9 \<longrightarrow> parse_nanos (fixed 9 n @ rest) = Some (int n)) \<and>
   (\<not> isdigit c \<longrightarrow> parse_nanos (c # rest) = Some 0) \<and> parse_nanos [] = None"
proof -
  have "parse_nanos (fixed 9 n @ rest) = parse_nanos (fixed 9 n)" by (simp add: parse_nanos_def)
  then show ?thesis using parse_nanos_fixed [of k n] parse_nanos_fixed [of 9 n] by (auto simp: parse_nanos_def nanos_scale_def)
qed

theorem parse_nanos_cases_witness: "parse_nanos (fixed 3 123) = Some 123000000 \<and> parse_nanos ''x'' = Some 0"
  using parse_nanos_cases [of 3 123 "[]" "CHR ''x''"] by (simp add: isdigit_def)

subsection \<open>Parsing times\<close>

lemma fixed_2: "fixed 2 n = [char_of (48 + n div 10 mod 10), char_of (48 + n mod 10)]"
  by (simp add: numeral_2_eq_2)

definition hms :: "nat \<Rightarrow> nat \<Rightarrow> nat \<Rightarrow> string" where
  "hms h m s = fixed 2 h @ CHR '':'' # fixed 2 m @ CHR '':'' # fixed 2 s"

lemma two_digit_val:
  assumes "n < 100"
  shows "int (digit_val (char_of (48 + n div 10 mod 10))) * 10 + int (digit_val (char_of (48 + n mod 10))) = int n"
proof -
  have "digit_val (char_of (48 + n div 10 mod 10)) = n div 10" "digit_val (char_of (48 + n mod 10)) = n mod 10"
    using assms by (simp_all add: mod_less)
  then show ?thesis using div_mult_mod_eq [of n 10] by linarith
qed

lemma length_hms: "length (hms h m s) = 8"
  by (simp add: hms_def)

lemma parse_time_only_hms:
  assumes "h < 100" "m < 100" "s < 100"
  shows "parse_time_only (hms h m s) = Some (Some ((int h * 3600 + int m * 60 + int s) * 1000000000))"
    and "parse_time_only (hms h m s @ CHR ''.'' # frac) =
      map_option (\<lambda>f. Some ((int h * 3600 + int m * 60 + int s) * 1000000000 + f)) (parse_nanos frac)"
    and "c \<noteq> CHR ''.'' \<Longrightarrow> parse_time_only (hms h m s @ c # frac) = Some None"
proof -
  note d = two_digit_val [OF assms(1)] two_digit_val [OF assms(2)] two_digit_val [OF assms(3)]
  let ?T = "\<lambda>rest. [char_of (48 + h div 10 mod 10), char_of (48 + h mod 10), CHR '':'', char_of (48 + m div 10 mod 10),
      char_of (48 + m mod 10), CHR '':'', char_of (48 + s div 10 mod 10), char_of (48 + s mod 10)] @ rest"
  have e: "hms h m s @ rest = ?T rest" for rest by (simp add: hms_def fixed_2)
  have t: "two_digits (?T rest) 0 = int h" "two_digits (?T rest) 3 = int m" "two_digits (?T rest) 6 = int s" for rest
    using d by (simp_all add: two_digits_def)
  have i: "\<not> (length (?T rest) < 8 \<or> \<not> isdigit (?T rest ! 0) \<or> \<not> isdigit (?T rest ! 1) \<or> ?T rest ! 2 \<noteq> CHR '':'' \<or>
      \<not> isdigit (?T rest ! 3) \<or> \<not> isdigit (?T rest ! 4) \<or> ?T rest ! 5 \<noteq> CHR '':'' \<or> \<not> isdigit (?T rest ! 6) \<or>
      \<not> isdigit (?T rest ! 7))" for rest
    by simp
  have "parse_time_only (?T rest) =
      (let ns = (int h * 3600 + int m * 60 + int s) * 1000000000 in
        if length (?T rest) > 8 then
          if ?T rest ! 8 \<noteq> CHR ''.'' then Some None
          else map_option (\<lambda>frac. Some (ns + frac)) (parse_nanos (drop 9 (?T rest)))
        else Some (Some ns))" for rest
    unfolding parse_time_only_def if_not_P [OF i] t ..
  note P = this [folded e]
  have H: "(hms h m s @ c # r) ! 8 = c" "drop 9 (hms h m s @ c # r) = r" for c r
    using nth_append_length [of "hms h m s" c r] by (simp_all add: length_hms)
  show "parse_time_only (hms h m s) = Some (Some ((int h * 3600 + int m * 60 + int s) * 1000000000))"
    using P [of "[]"] by (simp add: length_hms)
  show "parse_time_only (hms h m s @ CHR ''.'' # frac) =
      map_option (\<lambda>f. Some ((int h * 3600 + int m * 60 + int s) * 1000000000 + f)) (parse_nanos frac)"
    using P [of "CHR ''.'' # frac"] by (simp add: Let_def length_hms H)
  show "parse_time_only (hms h m s @ c # frac) = Some None" if "c \<noteq> CHR ''.''"
    using P [of "c # frac"] that by (simp add: Let_def length_hms H)
qed

definition day_ns :: int where "day_ns = 86400 * 1000000000"

lemma jd_to_time_midnight:
  assumes "\<bar>jd - 2440588\<bar> < 100000"
  shows "s64 (jd_to_time jd - 12 * 3600 * 1000000000) = (jd - 2440588) * day_ns"
proof -
  have "jd_to_time jd = s64 (((jd - 2440588) * 86400000 + 43200000) * 1000000)" by (simp add: jd_to_time_def to_time_def)
  also have "\<dots> = (jd - 2440588) * day_ns + 43200 * 1000000000"
    using assms by (subst s64_id) (auto simp: day_ns_def)
  finally show ?thesis using assms by (subst s64_id) (auto simp: day_ns_def)
qed

lemma ymd_range:
  assumes "valid_ymd y m d" "1970 \<le> y" "y \<le> 2199"
  shows "\<bar>ymd_to_jd y m d - 2440588\<bar> < 90000"
proof -
  have v: "0 \<le> y" "1 \<le> m" "m \<le> 12" "1 \<le> d" "d \<le> 31" using assms(1) by (auto simp: valid_ymd_def month_len_def split: if_splits)
  define Y where "Y = mar_year y m"
  have Y: "6769 \<le> Y" "Y \<le> 6999" using assms(2,3) by (simp_all add: Y_def mar_year_def)
  have J: "ymd_to_jd y m d = d - 32075 + 365 * Y + Y div 4 + mar_off m - (3 * (Y div 100 + 1)) div 4"
    using ymd_to_jd_eq [OF v(1-3)] by (simp add: Y_def)
  have q: "Y - 3 \<le> 4 * (Y div 4)" "4 * (Y div 4) \<le> Y" using pos_mod_bound [of 4 Y] pos_mod_sign [of 4 Y] minus_mod_eq_mult_div [of Y 4] by linarith+
  have "Y div 100 \<le> 69" "67 \<le> Y div 100" using zdiv_mono1 [of Y 6999 100] zdiv_mono1 [of 6769 Y 100] Y by simp_all
  then have c: "51 \<le> (3 * (Y div 100 + 1)) div 4" "(3 * (Y div 100 + 1)) div 4 \<le> 52"
    using zdiv_mono1 [of "3 * (Y div 100 + 1)" 210 4] zdiv_mono1 [of 204 "3 * (Y div 100 + 1)" 4] by simp_all
  have o: "30 \<le> mar_off m" "mar_off m \<le> 367" using month_cases [OF v(2,3)] by (auto simp: mar_off_def)
  show ?thesis using J q c o Y v by linarith
qed

definition ymd_string :: "int \<Rightarrow> int \<Rightarrow> int \<Rightarrow> string" where
  "ymd_string y m d = fixed 8 (nat (ymd_to_iso y m d))"

lemma parse_date_ymd:
  assumes "valid_ymd y m d"
  shows "parse_date (ymd_string y m d) = ymd_to_iso y m d" "0 < ymd_to_iso y m d"
proof -
  have v: "0 \<le> y" "y \<le> 9999" "1 \<le> m" "m \<le> 12" "1 \<le> d" "d \<le> 31"
    using assms by (auto simp: valid_ymd_def month_len_def split: if_splits)
  then show p: "0 < ymd_to_iso y m d" by (simp add: ymd_to_iso_def)
  have n: "nat (ymd_to_iso y m d) < 10 ^ 8" using v by (simp add: ymd_to_iso_def)
  have ne: "fixed 8 (nat (ymd_to_iso y m d)) \<noteq> []" by (metis length_fixed list.size(3) zero_neq_numeral)
  have "nat (ymd_to_iso y m d) < 2 ^ 31" using n by simp
  from ston_signed_digits [OF ne fixed_digits ston_digits_fixed [OF n] this] p
  show "parse_date (ymd_string y m d) = ymd_to_iso y m d" by (simp add: parse_date_def ymd_string_def)
qed

text \<open>
  Timestamps are parsed to the right instant: \<open>YYYYMMDD-HH:MM:SS.fff\<close>, for every valid date of the years 1970 to 2199, any
  two-digit time fields and one to nine fraction digits, is the number of nanoseconds given by the day count of the calendar and the
  time of day; the same holds without the fraction and for a date alone.
\<close>

theorem parse_time_exact:
  assumes "valid_ymd y m d" "1970 \<le> y" "y \<le> 2199" "h < 100" "mi < 100" "s < 100" "1 \<le> k" "k \<le> 9" "n < 10 ^ k"
  defines "midnight \<equiv> (ymd_to_jd y m d - 2440588) * (86400 * 1000000000)"
    and "tod \<equiv> (int h * 3600 + int mi * 60 + int s) * 1000000000"
  shows "parse_time (ymd_string y m d) = Some (Some midnight) \<and>
    parse_time (ymd_string y m d @ CHR ''-'' # hms h mi s) = Some (Some (midnight + tod)) \<and>
    parse_time (ymd_string y m d @ CHR ''-'' # hms h mi s @ CHR ''.'' # fixed k n) = Some (Some (midnight + tod + int n * 10 ^ (9 - k)))"
proof -
  note D = parse_date_ymd [OF assms(1)]
  note R = ymd_range [OF assms(1-3)]
  have len: "length (ymd_string y m d) = 8" by (simp add: ymd_string_def)
  have dt: "s64 (jd_to_time (iso_to_jd (ymd_to_iso y m d)) - 12 * 3600 * 1000000000) = midnight"
    unfolding iso_to_jd_iso [OF assms(1)] using jd_to_time_midnight [of "ymd_to_jd y m d"] R by (simp add: midnight_def day_ns_def)
  have mb: "\<bar>midnight\<bar> < 8 * 10 ^ 18" using R unfolding midnight_def abs_less_iff by simp
  have tb: "0 \<le> tod" "tod < 10 ^ 15" using assms(4-6) by (simp_all add: tod_def)
  have fb: "0 \<le> int n * 10 ^ (9 - k)" "int n * 10 ^ (9 - k) < 10 ^ 9"
  proof -
    have "int n < 10 ^ k" using assms(9) by (metis of_nat_less_iff of_nat_numeral of_nat_power)
    then have "int n * 10 ^ (9 - k) < 10 ^ k * 10 ^ (9 - k)" by (intro mult_strict_right_mono) auto
    also have "(10 :: int) ^ k * 10 ^ (9 - k) = 10 ^ 9" using assms(8) by (simp flip: power_add)
    finally show "int n * 10 ^ (9 - k) < 10 ^ 9" .
  qed simp
  have P: "parse_time (ymd_string y m d @ CHR ''-'' # t) = (case parse_time_only t of
      None \<Rightarrow> None | Some None \<Rightarrow> Some None | Some (Some x) \<Rightarrow> Some (Some (s64 (midnight + x))))" for t
    using D dt len by (simp add: parse_time_def Let_def nth_append split: option.splits)
  have "parse_time (ymd_string y m d) = Some (Some midnight)" using D dt len by (simp add: parse_time_def Let_def)
  moreover have "parse_time (ymd_string y m d @ CHR ''-'' # hms h mi s) = Some (Some (midnight + tod))"
    unfolding P parse_time_only_hms(1) [OF assms(4-6)] tod_def [symmetric] using mb tb by (simp add: s64_id)
  moreover have "parse_time (ymd_string y m d @ CHR ''-'' # hms h mi s @ CHR ''.'' # fixed k n) =
      Some (Some (midnight + tod + int n * 10 ^ (9 - k)))"
    unfolding P parse_time_only_hms(2) [OF assms(4-6)] parse_nanos_fixed [OF assms(7-9)] tod_def [symmetric]
  proof -
    have "s64 (midnight + (tod + f)) = midnight + (tod + f)" if "0 \<le> f" "f < 10 ^ 9" for f
      using mb tb that by (intro s64_id) (simp_all add: abs_less_iff)
    from this [OF fb] show "(case map_option (\<lambda>f. Some (tod + f)) (Some (int n * 10 ^ (9 - k))) of None \<Rightarrow> None | Some None \<Rightarrow> Some None
        | Some (Some x) \<Rightarrow> Some (Some (s64 (midnight + x)))) = Some (Some (midnight + tod + int n * 10 ^ (9 - k)))"
      by (simp add: add.assoc)
  qed
  ultimately show ?thesis by blast
qed

text \<open>
  Timestamps far in the future are not parsed to the right instant, although years up to 9999 are documented as valid: the
  nanoseconds of 1 January 2300 do not fit in 64 bits, and the result lies before 1970.
\<close>

theorem parse_time_overflow:
  "\<exists>t. parse_time (ymd_string 2300 1 1) = Some (Some t) \<and> t < 0 \<and> t \<noteq> (ymd_to_jd 2300 1 1 - 2440588) * (86400 * 1000000000)"
proof -
  have v: "valid_ymd 2300 1 1" by (simp add: valid_ymd_def month_len_def)
  note D = parse_date_ymd [OF v]
  have j: "iso_to_jd (ymd_to_iso 2300 1 1) = 2561118"
    unfolding iso_to_jd_iso [OF v] by (simp add: ymd_to_jd_eq mar_year_def mar_off_def)
  have len: "length (ymd_string 2300 1 1) = 8" by (simp add: ymd_string_def)
  have s: "s64 (jd_to_time 2561118 - 12 * 3600 * 1000000000) = - 8032952073709551616"
    by (simp add: jd_to_time_def to_time_def s64_def signed_take_bit_eq_take_bit_shift take_bit_int_def)
  have "parse_time (ymd_string 2300 1 1) = Some (Some (- 8032952073709551616))"
    using D len j s by (simp add: parse_time_def Let_def)
  then show ?thesis using iso_to_jd_iso [OF v] j by auto
qed

theorem parse_time_exact_witness:
  "parse_time (ymd_string 2018 8 24 @ CHR ''-'' # hms 5 32 29 @ CHR ''.'' # fixed 3 123) = Some (Some 1535088749123000000)"
proof -
  have v: "valid_ymd 2018 8 24" by (simp add: valid_ymd_def month_len_def)
  have j: "ymd_to_jd 2018 8 24 = 2458355" by (simp add: ymd_to_jd_eq mar_year_def mar_off_def)
  from parse_time_exact [OF v, of 5 32 29 3 123] show ?thesis by (simp add: j)
qed

end
