(* ===== verification/Values.thy ===== *)
theory Values
  imports Strings "HOL-Library.List_Lexorder" "HOL-Library.Char_ord"
begin

text \<open>
  Small value types: three-way comparison (\<open>util/Compare.hpp\<close>), versions (\<open>util/Version.hpp\<close>), string buffers of fixed size
  (\<open>util/StringBuf.hpp\<close>) and bit masks over enums (\<open>util/Enum.hpp\<close>).
\<close>

subsection \<open>Three-way comparison\<close>

definition compare3 :: "'a::linorder \<Rightarrow> 'a \<Rightarrow> int" where
  "compare3 lhs rhs = (if lhs < rhs then - 1 else if lhs > rhs then 1 else 0)"

text \<open>The operators that \<open>Comparable\<close> derives from \<open>compare\<close>.\<close>

definition cmp_eq :: "('a \<Rightarrow> 'a \<Rightarrow> int) \<Rightarrow> 'a \<Rightarrow> 'a \<Rightarrow> bool" where "cmp_eq cmp l r \<longleftrightarrow> cmp l r = 0"
definition cmp_ne :: "('a \<Rightarrow> 'a \<Rightarrow> int) \<Rightarrow> 'a \<Rightarrow> 'a \<Rightarrow> bool" where "cmp_ne cmp l r \<longleftrightarrow> cmp l r \<noteq> 0"
definition cmp_lt :: "('a \<Rightarrow> 'a \<Rightarrow> int) \<Rightarrow> 'a \<Rightarrow> 'a \<Rightarrow> bool" where "cmp_lt cmp l r \<longleftrightarrow> cmp l r < 0"
definition cmp_le :: "('a \<Rightarrow> 'a \<Rightarrow> int) \<Rightarrow> 'a \<Rightarrow> 'a \<Rightarrow> bool" where "cmp_le cmp l r \<longleftrightarrow> cmp l r \<le> 0"
definition cmp_gt :: "('a \<Rightarrow> 'a \<Rightarrow> int) \<Rightarrow> 'a \<Rightarrow> 'a \<Rightarrow> bool" where "cmp_gt cmp l r \<longleftrightarrow> cmp l r > 0"
definition cmp_ge :: "('a \<Rightarrow> 'a \<Rightarrow> int) \<Rightarrow> 'a \<Rightarrow> 'a \<Rightarrow> bool" where "cmp_ge cmp l r \<longleftrightarrow> cmp l r \<ge> 0"

lemmas cmp_defs = cmp_eq_def cmp_ne_def cmp_lt_def cmp_le_def cmp_gt_def cmp_ge_def

text \<open>What a type promises that derives its operators from \<open>compare\<close>: the sign is that of the comparison of a key.\<close>

locale comparable =
  fixes cmp :: "'a \<Rightarrow> 'a \<Rightarrow> int" and key :: "'a \<Rightarrow> 'k::linorder" and ok :: "'a \<Rightarrow> bool"
  assumes cmp_sign: "\<lbrakk>ok a; ok b\<rbrakk> \<Longrightarrow> sgn (cmp a b) = compare3 (key a) (key b)"
begin

lemma cmp_cases:
  assumes "ok a" "ok b"
  shows "cmp a b < 0 \<and> key a < key b \<or> cmp a b = 0 \<and> key a = key b \<or> cmp a b > 0 \<and> key b < key a"
  using cmp_sign [OF assms] by (auto simp: compare3_def sgn_if split: if_splits)

lemma operators:
  assumes "ok a" "ok b"
  shows "cmp_eq cmp a b \<longleftrightarrow> key a = key b" "cmp_ne cmp a b \<longleftrightarrow> key a \<noteq> key b" "cmp_lt cmp a b \<longleftrightarrow> key a < key b"
    "cmp_le cmp a b \<longleftrightarrow> key a \<le> key b" "cmp_gt cmp a b \<longleftrightarrow> key b < key a" "cmp_ge cmp a b \<longleftrightarrow> key b \<le> key a"
  using cmp_cases [OF assms] by (auto simp: cmp_defs)

lemma antisymmetric: "\<lbrakk>ok a; ok b\<rbrakk> \<Longrightarrow> sgn (cmp b a) = - sgn (cmp a b)"
  by (auto simp: cmp_sign compare3_def dest: less_asym)

end

lemma sgn_compare3 [simp]: "sgn (compare3 a b) = compare3 a b"
  by (simp add: compare3_def)

subsection \<open>Version\<close>

datatype version = Version (ver_major: int) (ver_minor: int)

definition ver_compare :: "version \<Rightarrow> version \<Rightarrow> int" where
  "ver_compare l r = (let i = compare3 (ver_major l) (ver_major r) in if i = 0 then compare3 (ver_minor l) (ver_minor r) else i)"

definition ver_empty :: "version \<Rightarrow> bool" where "ver_empty v \<longleftrightarrow> ver_major v = 0 \<and> ver_minor v = 0"
definition ver_clear :: "version \<Rightarrow> version" where "ver_clear v = Version 0 0"

definition ver_from_string :: "string \<Rightarrow> version" where
  "ver_from_string sv = (case split_pair sv CHR ''.'' of (ma, mi) \<Rightarrow> Version (ston_signed 32 ma) (ston_signed 32 mi))"

definition ver_string :: "version \<Rightarrow> string" where
  "ver_string v = int_string (ver_major v) @ ''.'' @ int_string (ver_minor v)"

text \<open>The order of versions is the one \<open>compare\<close> gives.\<close>

instantiation version :: linorder
begin

definition less_eq_version :: "version \<Rightarrow> version \<Rightarrow> bool" where "less_eq_version l r \<longleftrightarrow> cmp_le ver_compare l r"
definition less_version :: "version \<Rightarrow> version \<Rightarrow> bool" where "less_version l r \<longleftrightarrow> cmp_lt ver_compare l r"

instance
proof
  fix x y z :: version
  have s: "ver_compare x y \<le> 0 \<longleftrightarrow> ver_major x < ver_major y \<or> ver_major x = ver_major y \<and> ver_minor x \<le> ver_minor y" for x y
    by (auto simp: ver_compare_def compare3_def Let_def)
  have t: "ver_compare x y < 0 \<longleftrightarrow> ver_major x < ver_major y \<or> ver_major x = ver_major y \<and> ver_minor x < ver_minor y" for x y
    by (auto simp: ver_compare_def compare3_def Let_def)
  show "x < y \<longleftrightarrow> x \<le> y \<and> \<not> y \<le> x" by (auto simp: less_version_def less_eq_version_def cmp_defs s t)
  show "x \<le> x" by (simp add: less_eq_version_def cmp_defs s)
  show "x \<le> y \<Longrightarrow> y \<le> z \<Longrightarrow> x \<le> z" by (auto simp: less_eq_version_def cmp_defs s)
  show "x \<le> y \<Longrightarrow> y \<le> x \<Longrightarrow> x = y" by (cases x; cases y) (auto simp: less_eq_version_def cmp_defs s)
  show "x \<le> y \<or> y \<le> x" by (auto simp: less_eq_version_def cmp_defs s)
qed

end

interpretation ver: comparable ver_compare "\<lambda>v. v" "\<lambda>v. True"
proof
  fix a b
  have "a = b \<longleftrightarrow> ver_compare a b = 0" by (cases a; cases b) (auto simp: ver_compare_def compare3_def Let_def)
  moreover have "ver_compare a b \<in> {- 1, 0, 1}" "ver_compare b a = - ver_compare a b"
    by (auto simp: ver_compare_def compare3_def Let_def)
  ultimately show "sgn (ver_compare a b) = compare3 a b"
    by (auto simp: compare3_def less_version_def cmp_lt_def)
qed

lemma int_string_no_dot: "CHR ''.'' \<notin> set (int_string i)"
proof -
  have "CHR ''.'' \<notin> set (nat_string n)" for n using nat_string_digits(1) [of n] by (auto simp: isdigit_def)
  thus ?thesis by (simp add: int_string_def)
qed

text \<open>Versions with components of 32 bits are read back from their text.\<close>

lemma ver_roundtrip:
  assumes "- (2 ^ 31) \<le> ver_major v" "ver_major v < 2 ^ 31" "- (2 ^ 31) \<le> ver_minor v" "ver_minor v < 2 ^ 31"
  shows "ver_from_string (ver_string v) = v"
  using ston_int_string [of 32 "ver_major v"] ston_int_string [of 32 "ver_minor v"] assms
  by (simp add: ver_from_string_def ver_string_def split_pair_join int_string_no_dot)

subsection \<open>StringBuf\<close>

text \<open>\<open>sb_buf\<close> has \<open>MaxN\<close> characters, of which the first \<open>sb_len\<close> count.\<close>

record string_buf =
  sb_len :: nat
  sb_buf :: string

definition sb_str :: "string_buf \<Rightarrow> string" where "sb_str s = take (sb_len s) (sb_buf s)"
definition sb_size :: "string_buf \<Rightarrow> nat" where "sb_size s = sb_len s"
definition sb_empty :: "string_buf \<Rightarrow> bool" where "sb_empty s \<longleftrightarrow> sb_len s = 0"
definition sb_clear :: "string_buf \<Rightarrow> string_buf" where "sb_clear s = s\<lparr>sb_len := 0\<rparr>"

definition sb_assign :: "string \<Rightarrow> string_buf \<Rightarrow> string_buf" where
  "sb_assign rdata s =
     (let len = min (length rdata) (length (sb_buf s));
          s1 = s\<lparr>sb_len := len\<rparr>
      in if len > 0 then s1\<lparr>sb_buf := take len rdata @ drop len (sb_buf s)\<rparr> else s1)"

definition sb_append :: "string \<Rightarrow> string_buf \<Rightarrow> string_buf" where
  "sb_append rdata s =
     (let rlen = min (length rdata) (length (sb_buf s) - sb_len s) in
      if rlen > 0 then s\<lparr>sb_buf := take (sb_len s) (sb_buf s) @ take rlen rdata @ drop (sb_len s + rlen) (sb_buf s), sb_len := sb_len s + rlen\<rparr>
      else s)"

text \<open>\<open>memcmp\<close> compares bytes.\<close>

fun memcmp :: "string \<Rightarrow> string \<Rightarrow> nat \<Rightarrow> int" where
  "memcmp (a # as) (b # bs) (Suc n) = (if a = b then memcmp as bs n else of_char a - of_char b)"
| "memcmp _ _ _ = 0"

definition sb_compare :: "string_buf \<Rightarrow> string \<Rightarrow> int" where
  "sb_compare s rdata =
     (let result = memcmp (sb_buf s) rdata (min (sb_size s) (length rdata)) in
      if result = 0 then compare3 (sb_size s) (length rdata) else result)"

definition sb_inv :: "nat \<Rightarrow> string_buf \<Rightarrow> bool" where
  "sb_inv n s \<longleftrightarrow> length (sb_buf s) = n \<and> sb_len s \<le> n"

text \<open>A string buffer keeps what fits, and comparing it is comparing its text in byte order.\<close>

lemma sb_assign_ok: "sb_inv n s \<Longrightarrow> sb_inv n (sb_assign r s) \<and> sb_str (sb_assign r s) = take n r"
  by (auto simp: sb_inv_def sb_assign_def sb_str_def Let_def min_def)

lemma sb_append_ok: "sb_inv n s \<Longrightarrow> sb_inv n (sb_append r s) \<and> sb_str (sb_append r s) = take n (sb_str s @ r)"
  by (auto simp: sb_inv_def sb_append_def sb_str_def Let_def min_def)

lemma of_char_less: "a \<noteq> b \<Longrightarrow> sgn ((of_char a :: int) - of_char b) = compare3 a b"
proof -
  assume "a \<noteq> b"
  moreover have "(of_char a :: int) < of_char b \<longleftrightarrow> a < b" for a b
    using of_nat_less_iff [of "of_char a" "of_char b", where 'a = int] by (simp add: less_char_def of_nat_of_char)
  ultimately show ?thesis by (auto simp: compare3_def sgn_if not_less)
qed

lemma memcmp_lex:
  "sgn (if memcmp xs ys (min (length xs) (length ys)) = 0 then compare3 (length xs) (length ys)
     else memcmp xs ys (min (length xs) (length ys))) = compare3 xs ys"
proof (induction xs arbitrary: ys)
  case Nil
  show ?case by (cases ys) (simp_all add: compare3_def)
next
  case (Cons a xs)
  show ?case
  proof (cases ys)
    case Nil
    thus ?thesis by (simp add: compare3_def)
  next
    case (Cons b bs)
    show ?thesis
    proof (cases "a = b")
      case True
      have "min (length (a # xs)) (length (b # bs)) = Suc (min (length xs) (length bs))" by simp
      moreover have "compare3 (length (a # xs)) (length (b # bs)) = compare3 (length xs) (length bs)" "compare3 (a # xs) (b # bs) = compare3 xs bs"
        using True by (simp_all add: compare3_def)
      ultimately show ?thesis using Cons.IH [of bs] True Cons by (simp only: memcmp.simps if_True simp_thms)
    next
      case False
      moreover have "(of_char a :: int) - of_char b \<noteq> 0" using False by simp
      ultimately show ?thesis using of_char_less [OF False] by (auto simp: Cons compare3_def)
    qed
  qed
qed

lemma memcmp_take: "k \<le> n \<Longrightarrow> memcmp (take n xs) ys k = memcmp xs ys k"
  by (induction xs ys k arbitrary: n rule: memcmp.induct) (auto simp: take_Cons split: nat.splits)

lemma sb_compare_lex: "sb_inv n s \<Longrightarrow> sgn (sb_compare s r) = compare3 (sb_str s) r"
proof -
  assume "sb_inv n s"
  hence len: "length (sb_str s) = sb_len s" by (auto simp: sb_inv_def sb_str_def)
  have mem: "memcmp (sb_str s) r (min (sb_len s) (length r)) = memcmp (sb_buf s) r (min (sb_len s) (length r))"
    unfolding sb_str_def by (rule memcmp_take) simp
  from memcmp_lex [of "sb_str s" r] show ?thesis unfolding sb_compare_def sb_size_def Let_def len mem .
qed

text \<open>Two string buffers, possibly of different sizes.\<close>

definition sb_compare_buf :: "string_buf \<Rightarrow> string_buf \<Rightarrow> int" where
  "sb_compare_buf s r = sb_compare s (sb_str r)"

interpretation sb: comparable sb_compare_buf sb_str "\<lambda>s. sb_inv (length (sb_buf s)) s"
  by unfold_locales (simp add: sb_compare_buf_def sb_compare_lex)

text \<open>
  String buffers of any two sizes compare, with all six operators, as the texts they hold do in byte order, and hold what was
  assigned and appended up to their size.
\<close>

lemma string_buf_order:
  assumes "sb_inv n s" "sb_inv m r"
  shows "(cmp_lt sb_compare_buf s r \<longleftrightarrow> sb_str s < sb_str r) \<and> (cmp_le sb_compare_buf s r \<longleftrightarrow> sb_str s \<le> sb_str r) \<and>
    (cmp_eq sb_compare_buf s r \<longleftrightarrow> sb_str s = sb_str r) \<and> (cmp_gt sb_compare_buf s r \<longleftrightarrow> sb_str s > sb_str r) \<and>
    sb_str (sb_append y (sb_assign x s)) = take n (x @ y)"
proof -
  have "sb_inv (length (sb_buf s)) s" "sb_inv (length (sb_buf r)) r" using assms by (auto simp: sb_inv_def)
  note o = sb.operators [OF this]
  have "sb_inv n (sb_assign x s)" "sb_str (sb_assign x s) = take n x" using sb_assign_ok [OF assms(1)] by auto
  with sb_append_ok [of n "sb_assign x s" y] have "sb_str (sb_append y (sb_assign x s)) = take n (take n x @ y)" by simp
  moreover have "take n (take n x @ y) = take n (x @ y)" by (simp add: min_def)
  ultimately show ?thesis using o by simp
qed

lemma string_buf_order_witness:
  "cmp_lt sb_compare_buf \<lparr>sb_len = 2, sb_buf = ''abzz''\<rparr> \<lparr>sb_len = 3, sb_buf = ''abc''\<rparr>"
proof -
  have "sb_inv 4 \<lparr>sb_len = 2, sb_buf = ''abzz''\<rparr>" "sb_inv 3 \<lparr>sb_len = 3, sb_buf = ''abc''\<rparr>" by (simp_all add: sb_inv_def)
  from string_buf_order [OF this, of "[]" "[]"] show ?thesis by (simp add: sb_str_def)
qed

text \<open>The operators between a string buffer and a string view, on either side.\<close>

definition sb_eq_view :: "string_buf \<Rightarrow> string \<Rightarrow> bool" where "sb_eq_view l r \<longleftrightarrow> sb_compare l r = 0"
definition view_eq_sb :: "string \<Rightarrow> string_buf \<Rightarrow> bool" where "view_eq_sb l r \<longleftrightarrow> 0 = sb_compare r l"
definition sb_ne_view :: "string_buf \<Rightarrow> string \<Rightarrow> bool" where "sb_ne_view l r \<longleftrightarrow> sb_compare l r \<noteq> 0"
definition view_ne_sb :: "string \<Rightarrow> string_buf \<Rightarrow> bool" where "view_ne_sb l r \<longleftrightarrow> 0 \<noteq> sb_compare r l"
definition sb_lt_view :: "string_buf \<Rightarrow> string \<Rightarrow> bool" where "sb_lt_view l r \<longleftrightarrow> sb_compare l r < 0"
definition view_lt_sb :: "string \<Rightarrow> string_buf \<Rightarrow> bool" where "view_lt_sb l r \<longleftrightarrow> 0 < sb_compare r l"
definition sb_le_view :: "string_buf \<Rightarrow> string \<Rightarrow> bool" where "sb_le_view l r \<longleftrightarrow> sb_compare l r \<le> 0"
definition view_le_sb :: "string \<Rightarrow> string_buf \<Rightarrow> bool" where "view_le_sb l r \<longleftrightarrow> 0 \<le> sb_compare r l"
definition sb_gt_view :: "string_buf \<Rightarrow> string \<Rightarrow> bool" where "sb_gt_view l r \<longleftrightarrow> sb_compare l r > 0"
definition view_gt_sb :: "string \<Rightarrow> string_buf \<Rightarrow> bool" where "view_gt_sb l r \<longleftrightarrow> 0 > sb_compare r l"
definition sb_ge_view :: "string_buf \<Rightarrow> string \<Rightarrow> bool" where "sb_ge_view l r \<longleftrightarrow> sb_compare l r \<ge> 0"
definition view_ge_sb :: "string \<Rightarrow> string_buf \<Rightarrow> bool" where "view_ge_sb l r \<longleftrightarrow> 0 \<ge> sb_compare r l"

lemma sb_view_operators:
  assumes "sb_inv n s"
  shows "sb_eq_view s v \<longleftrightarrow> sb_str s = v" "sb_ne_view s v \<longleftrightarrow> sb_str s \<noteq> v" "sb_lt_view s v \<longleftrightarrow> sb_str s < v"
    "sb_le_view s v \<longleftrightarrow> sb_str s \<le> v" "sb_gt_view s v \<longleftrightarrow> sb_str s > v" "sb_ge_view s v \<longleftrightarrow> sb_str s \<ge> v"
    "view_eq_sb v s \<longleftrightarrow> v = sb_str s" "view_ne_sb v s \<longleftrightarrow> v \<noteq> sb_str s" "view_lt_sb v s \<longleftrightarrow> v < sb_str s"
    "view_le_sb v s \<longleftrightarrow> v \<le> sb_str s" "view_gt_sb v s \<longleftrightarrow> v > sb_str s" "view_ge_sb v s \<longleftrightarrow> v \<ge> sb_str s"
proof -
  have "sb_compare s v < 0 \<and> sb_str s < v \<or> sb_compare s v = 0 \<and> sb_str s = v \<or> sb_compare s v > 0 \<and> v < sb_str s"
    using sb_compare_lex [OF assms, of v] by (auto simp: compare3_def sgn_if split: if_splits)
  thus "sb_eq_view s v \<longleftrightarrow> sb_str s = v" "sb_ne_view s v \<longleftrightarrow> sb_str s \<noteq> v" "sb_lt_view s v \<longleftrightarrow> sb_str s < v"
    "sb_le_view s v \<longleftrightarrow> sb_str s \<le> v" "sb_gt_view s v \<longleftrightarrow> sb_str s > v" "sb_ge_view s v \<longleftrightarrow> sb_str s \<ge> v"
    "view_eq_sb v s \<longleftrightarrow> v = sb_str s" "view_ne_sb v s \<longleftrightarrow> v \<noteq> sb_str s" "view_lt_sb v s \<longleftrightarrow> v < sb_str s"
    "view_le_sb v s \<longleftrightarrow> v \<le> sb_str s" "view_gt_sb v s \<longleftrightarrow> v > sb_str s" "view_ge_sb v s \<longleftrightarrow> v \<ge> sb_str s"
    unfolding sb_eq_view_def sb_ne_view_def sb_lt_view_def sb_le_view_def sb_gt_view_def sb_ge_view_def
      view_eq_sb_def view_ne_sb_def view_lt_sb_def view_le_sb_def view_gt_sb_def view_ge_sb_def
    by auto
qed

subsection \<open>BitMask\<close>

text \<open>A shift by 64 or more is undefined: \<open>None\<close>.\<close>

definition to_mask :: "nat \<Rightarrow> u64 option" where
  "to_mask v = (if v < 64 then Some (push_bit v 1) else None)"

definition bm_test :: "u64 \<Rightarrow> nat \<Rightarrow> bool option" where "bm_test m v = map_option (\<lambda>k. m AND k \<noteq> 0) (to_mask v)"
definition bm_set :: "u64 \<Rightarrow> nat \<Rightarrow> u64 option" where "bm_set m v = map_option (\<lambda>k. m OR k) (to_mask v)"
definition bm_reset :: "u64 \<Rightarrow> nat \<Rightarrow> u64 option" where "bm_reset m v = map_option (\<lambda>k. m AND NOT k) (to_mask v)"
definition bm_set_all :: "u64" where "bm_set_all = - 1"
definition bm_reset_all :: "u64" where "bm_reset_all = 0"
definition bm_bool :: "u64 \<Rightarrow> bool" where "bm_bool m \<longleftrightarrow> m \<noteq> 0"
definition bm_assign :: "u64 \<Rightarrow> nat \<Rightarrow> bool \<Rightarrow> u64 option" where "bm_assign m v b = (if b then bm_set m v else bm_reset m v)"

text \<open>The constructor from a list of enumerators.\<close>

definition bm_of_list :: "nat list \<Rightarrow> u64 option" where
  "bm_of_list vs = foldl (\<lambda>m v. case (m, to_mask v) of (Some m, Some k) \<Rightarrow> Some (m OR k) | _ \<Rightarrow> None) (Some 0) vs"

definition bm_none :: "u64 \<Rightarrow> bool" where "bm_none m \<longleftrightarrow> m \<noteq> 0"
definition bm_and :: "u64 \<Rightarrow> u64 \<Rightarrow> u64" where "bm_and l r = l AND r"
definition bm_or :: "u64 \<Rightarrow> u64 \<Rightarrow> u64" where "bm_or l r = l OR r"
definition bm_not :: "u64 \<Rightarrow> u64" where "bm_not l = NOT l"

definition bm_elems :: "u64 \<Rightarrow> nat set" where "bm_elems m = {v. bit m v}"

lemma mask_bit: "bit (push_bit v 1 :: u64) w \<longleftrightarrow> v < 64 \<and> w = v"
  by (auto simp: bit_simps)

lemma bm_elems_ops:
  assumes "v < 64"
  shows "bm_test m v = Some (v \<in> bm_elems m)"
    and "\<exists>m'. bm_set m v = Some m' \<and> bm_elems m' = insert v (bm_elems m)"
    and "\<exists>m'. bm_reset m v = Some m' \<and> bm_elems m' = bm_elems m - {v}"
proof -
  have "m AND push_bit v 1 \<noteq> 0 \<longleftrightarrow> bit m v"
    by (simp add: and_exp_eq_0_iff_not_bit)
  with assms show "bm_test m v = Some (v \<in> bm_elems m)" by (simp add: bm_test_def to_mask_def bm_elems_def)
  show "\<exists>m'. bm_set m v = Some m' \<and> bm_elems m' = insert v (bm_elems m)"
    using assms by (auto simp: bm_set_def to_mask_def bm_elems_def bit_or_iff bit_exp_iff possible_bit_def)
  show "\<exists>m'. bm_reset m v = Some m' \<and> bm_elems m' = bm_elems m - {v}"
    using assms by (auto simp: bm_reset_def to_mask_def bm_elems_def bit_and_iff bit_not_iff bit_exp_iff possible_bit_def)
      (use bit_imp_le_length [of m] in force)
qed

lemma bm_of_list_elems: "\<forall>v \<in> set vs. v < 64 \<Longrightarrow> \<exists>m. bm_of_list vs = Some m \<and> bm_elems m = set vs"
proof (induction vs rule: rev_induct)
  case (snoc v vs)
  then obtain m where m: "bm_of_list vs = Some m" "bm_elems m = set vs" and v: "v < 64" by auto
  have "bm_of_list (vs @ [v]) = bm_set m v" using m(1) v by (simp add: bm_of_list_def bm_set_def to_mask_def)
  with bm_elems_ops(2) [OF v, of m] m(2) show ?case by auto
qed (simp add: bm_of_list_def bm_elems_def)

lemma bm_elems_and_or:
  "bm_elems (bm_and l r) = bm_elems l \<inter> bm_elems r" "bm_elems (bm_or l r) = bm_elems l \<union> bm_elems r"
  "bm_elems (bm_not l) = {..<64} - bm_elems l" "bm_elems bm_set_all = {..<64}" "bm_elems bm_reset_all = {}"
  by (auto simp: bm_elems_def bm_and_def bm_or_def bm_not_def bm_set_all_def bm_reset_all_def bit_and_iff bit_or_iff bit_not_iff
    possible_bit_def dest: bit_imp_le_length)

text \<open>\<open>none\<close> says the opposite of its name.\<close>

lemma bm_none_inverted: "bm_none m \<longleftrightarrow> bm_elems m \<noteq> {}"
  by (auto simp: bm_none_def bm_elems_def bit_eq_iff) (use bit_imp_le_length [of m] in force)

end
