(* ===== verification/Signals.thy ===== *)
theory Signals
  imports Prelude
begin

text \<open>
  Slots and signals, \<open>util/Slot.hpp\<close>. A slot is empty (\<open>None\<close>) or has a function with its object. Calls are lists of the functions called with
  their arguments; the functions do not change the signal they are called from.
\<close>

subsection \<open>BasicSlot\<close>

type_synonym 'f slot = "'f option"

definition slot_call :: "'f slot \<Rightarrow> 'a \<Rightarrow> ('f \<times> 'a) list" where
  "slot_call s x = (case s of Some f \<Rightarrow> [(f, x)] | None \<Rightarrow> [])"

text \<open>\<open>invoke\<close> of an empty slot is undefined.\<close>

definition slot_invoke :: "'f slot \<Rightarrow> 'a \<Rightarrow> ('f \<times> 'a) list option" where
  "slot_invoke s x = (case s of Some f \<Rightarrow> Some [(f, x)] | None \<Rightarrow> None)"

definition slot_release :: "'f slot \<Rightarrow> 'f slot \<times> 'f slot" where "slot_release s = (s, None)"
definition slot_connect :: "'f slot \<Rightarrow> 'f slot \<Rightarrow> bool \<times> 'f slot" where "slot_connect rhs s = (True, rhs)"
definition slot_disconnect :: "'f slot \<Rightarrow> 'f slot \<Rightarrow> bool \<times> 'f slot" where "slot_disconnect rhs s = (True, None)"

subsection \<open>BasicSignal\<close>

definition sig_connect :: "'f slot \<Rightarrow> 'f slot list \<Rightarrow> bool \<times> 'f slot list" where
  "sig_connect s ss = (if s \<notin> set ss then (True, ss @ [s]) else (False, ss))"

definition sig_disconnect :: "'f slot \<Rightarrow> 'f slot list \<Rightarrow> bool \<times> 'f slot list" where
  "sig_disconnect s ss = (if s \<in> set ss then (True, remove1 s ss) else (False, ss))"

definition sig_disconnect_all :: "'f slot list \<Rightarrow> 'f slot list" where "sig_disconnect_all ss = []"
definition sig_empty :: "'f slot list \<Rightarrow> bool" where "sig_empty ss \<longleftrightarrow> ss = []"

fun sig_invoke :: "'f slot list \<Rightarrow> 'a \<Rightarrow> ('f \<times> 'a) list" where
  "sig_invoke [] x = []"
| "sig_invoke (s # ss) x = slot_call s x @ sig_invoke ss x"

text \<open>
  A handle has the slot it subscribed. Its constructor connects and its destructor disconnects; the defaulted move constructor copies the
  slot, so both handles have it.
\<close>

definition handle_new :: "'f slot \<Rightarrow> 'f slot list \<Rightarrow> 'f slot \<times> 'f slot list" where
  "handle_new s ss = (s, snd (sig_connect s ss))"

definition handle_destroy :: "'f slot \<Rightarrow> 'f slot list \<Rightarrow> 'f slot list" where
  "handle_destroy h ss = snd (sig_disconnect h ss)"

definition handle_move :: "'f slot \<Rightarrow> 'f slot \<times> 'f slot" where
  "handle_move rhs = (rhs, rhs)"

text \<open>Any use of a signal.\<close>

datatype 'f sig_op = Connect 'f | Disconnect 'f | DisconnectAll

fun sig_step :: "'f sig_op \<Rightarrow> 'f slot list \<Rightarrow> 'f slot list" where
  "sig_step (Connect f) ss = snd (sig_connect (Some f) ss)"
| "sig_step (Disconnect f) ss = snd (sig_disconnect (Some f) ss)"
| "sig_step DisconnectAll ss = sig_disconnect_all ss"

text \<open>Whether the history leaves a function connected: the last operation on it connected it.\<close>

fun connected :: "'f \<Rightarrow> 'f sig_op list \<Rightarrow> bool" where
  "connected f [] \<longleftrightarrow> False"
| "connected f (Connect g # ops) \<longleftrightarrow> f = g \<or> connected f ops"
| "connected f (Disconnect g # ops) \<longleftrightarrow> f \<noteq> g \<and> connected f ops"
| "connected f (DisconnectAll # ops) \<longleftrightarrow> False"

lemma sig_run:
  "distinct (foldr sig_step ops []) \<and> None \<notin> set (foldr sig_step ops []) \<and> (Some f \<in> set (foldr sig_step ops []) \<longleftrightarrow> connected f ops)"
proof (induction ops)
  case (Cons op ops)
  thus ?case by (cases op) (auto simp: sig_connect_def sig_disconnect_def sig_disconnect_all_def dest: notin_set_remove1)
qed simp

lemma sig_invoke_count:
  "distinct ss \<Longrightarrow> length (filter (\<lambda>c. fst c = f) (sig_invoke ss x)) = (if Some f \<in> set ss then 1 else 0)"
proof (induction ss)
  case (Cons s ss)
  thus ?case by (cases s) (auto simp: slot_call_def)
qed simp

text \<open>
  Invoking a signal calls exactly the functions that are connected, each once and with the arguments of the call, whatever was
  connected and disconnected before, and however often.
\<close>

lemma signal_calls_connected:
  "length (filter (\<lambda>c. fst c = f) (sig_invoke (foldr sig_step ops []) x)) = (if connected f ops then 1 else 0) \<and>
   snd ` set (sig_invoke (foldr sig_step ops []) x) \<subseteq> {x}"
proof -
  have "snd ` set (sig_invoke ss x) \<subseteq> {x}" for ss :: "'a slot list"
    by (induction ss) (auto simp: slot_call_def split: option.splits)
  moreover have "length (filter (\<lambda>c. fst c = f) (sig_invoke (foldr sig_step ops []) x)) = (if connected f ops then 1 else 0)"
    using sig_run [of ops f] sig_invoke_count [of "foldr sig_step ops []" f x] by auto
  ultimately show ?thesis by blast
qed

text \<open>Two handles of one slot, or a handle and the handle it was moved to, share the subscription: the end of one ends the other's.\<close>

lemma handle_duplicate_unsubscribes:
  "distinct ss \<Longrightarrow> s \<notin> set (handle_destroy (fst (handle_new s ss1)) (snd (handle_new s ss)))"
  by (auto simp: handle_destroy_def handle_new_def sig_connect_def sig_disconnect_def remove1_append)

lemma handle_move_unsubscribes:
  "s \<notin> set ss \<Longrightarrow> snd (handle_move (fst (handle_new s ss))) \<notin> set (handle_destroy (fst (handle_move (fst (handle_new s ss)))) (snd (handle_new s ss)))"
  by (simp add: handle_destroy_def handle_new_def handle_move_def sig_connect_def sig_disconnect_def remove1_append)

subsection \<open>SignalMap\<close>

type_synonym ('k, 'f) signal_map = "'k \<rightharpoonup> 'f slot"

definition sm_empty :: "'k \<Rightarrow> ('k, 'f) signal_map \<Rightarrow> bool" where "sm_empty k m \<longleftrightarrow> m k = None"

definition sm_emplace :: "'k \<Rightarrow> 'f slot \<Rightarrow> ('k, 'f) signal_map \<Rightarrow> bool \<times> ('k, 'f) signal_map" where
  "sm_emplace k s m = (if m k = None then (True, m(k \<mapsto> s)) else (False, m))"

definition sm_erase :: "'k \<Rightarrow> ('k, 'f) signal_map \<Rightarrow> bool \<times> ('k, 'f) signal_map" where
  "sm_erase k m = (if m k \<noteq> None then (True, m(k := None)) else (False, m))"

definition sm_call :: "'k \<Rightarrow> 'a \<Rightarrow> ('k, 'f) signal_map \<Rightarrow> ('f \<times> 'a) list" where
  "sm_call k x m = (case m k of Some s \<Rightarrow> slot_call s x | None \<Rightarrow> [])"

definition sm_invoke :: "'k \<Rightarrow> 'a \<Rightarrow> ('k, 'f) signal_map \<Rightarrow> ('f \<times> 'a) list option" where
  "sm_invoke k x m = (case m k of Some s \<Rightarrow> slot_invoke s x | None \<Rightarrow> Some [])"

definition sm_notify :: "'k \<Rightarrow> 'a \<Rightarrow> ('k, 'f) signal_map \<Rightarrow> (('f \<times> 'a) list \<times> ('k, 'f) signal_map) option" where
  "sm_notify k x m = (case m k of Some s \<Rightarrow> map_option (\<lambda>c. (c, m(k := None))) (slot_invoke s x) | None \<Rightarrow> Some ([], m))"

definition sm_at :: "'k \<Rightarrow> ('k, 'f) signal_map \<Rightarrow> 'f slot \<times> ('k, 'f) signal_map" where
  "sm_at k m = (case m k of Some s \<Rightarrow> (s, m) | None \<Rightarrow> (None, m(k \<mapsto> None)))"

text \<open>A notified slot is called at most once.\<close>

lemma sm_notify_once:
  "sm_notify k x m = Some (c, m1) \<Longrightarrow> sm_notify k y m1 = Some ([], m1)"
  by (auto simp: sm_notify_def split: option.splits)

end
