(* ===== verification/Commands.thy ===== *)
theory Commands
  imports Strings "HOL-Library.List_Lexorder" "HOL-Library.Char_ord"
begin

text \<open>
  Command lines: the lexer of \<open>util/Argv.hpp\<close> and \<open>util/Argv.cpp\<close>, and the options parser of \<open>util/Options.hpp\<close> and
  \<open>util/Options.cpp\<close> on top of it. An exception is the left value of a sum.
\<close>

subsection \<open>ArgvLexer\<close>

datatype opt_error =
    UnexpectedValue string | MissingValue string | UnexpectedArgument string | UnknownOption string
  | DuplicateOption string | MissingRequired string | MissingPositional | DuplicateRegistration string

text \<open>\<open>lx_args\<close> are the arguments from \<open>it_\<close> to \<open>end_\<close>.\<close>

record argv_lexer =
  lx_args :: "string list"
  lx_opt :: string
  lx_val :: "string option"

definition lx_empty :: "argv_lexer \<Rightarrow> bool" where "lx_empty l \<longleftrightarrow> lx_args l = []"

definition lx_next :: "argv_lexer \<Rightarrow> argv_lexer" where
  "lx_next l =
     (case lx_args l of
        [] \<Rightarrow> l\<lparr>lx_opt := [], lx_val := None\<rparr>
      | arg # _ \<Rightarrow>
          if \<not> (length arg > 1 \<and> arg ! 0 = CHR ''-'') then l\<lparr>lx_opt := [], lx_val := Some arg\<rparr>
          else if arg ! 1 = CHR ''-'' then
            if length arg = 2 then l\<lparr>lx_opt := [], lx_val := Some arg\<rparr>
            else (case find_first (\<lambda>c. c = CHR ''='') (drop 2 arg) of
                Some k \<Rightarrow> l\<lparr>lx_opt := take k (drop 2 arg), lx_val := Some (drop (2 + k + 1) arg)\<rparr>
              | None \<Rightarrow> l\<lparr>lx_opt := drop 2 arg, lx_val := None\<rparr>)
          else l\<lparr>lx_opt := take 1 (drop 1 arg), lx_val := if length arg > 2 then Some (drop 2 arg) else None\<rparr>)"

definition lx_new :: "string list \<Rightarrow> argv_lexer" where
  "lx_new args = lx_next \<lparr>lx_args = args, lx_opt = [], lx_val = None\<rparr>"

text \<open>\<open>++it_\<close>; the callers make sure that the lexer is not empty.\<close>

definition lx_advance :: "argv_lexer \<Rightarrow> argv_lexer" where
  "lx_advance l = l\<lparr>lx_args := tl (lx_args l)\<rparr>"

definition lx_pop :: "argv_lexer \<Rightarrow> argv_lexer" where
  "lx_pop l = lx_next (lx_advance l)"

definition pop_switch :: "argv_lexer \<Rightarrow> opt_error + argv_lexer" where
  "pop_switch l = (let l1 = lx_advance l in
     if lx_val l1 \<noteq> None then Inl (UnexpectedValue (lx_opt l1)) else Inr (lx_next l1))"

definition pop_value :: "argv_lexer \<Rightarrow> opt_error + string \<times> argv_lexer" where
  "pop_value l = (let l1 = lx_advance l in
     case lx_val l1 of
       Some v \<Rightarrow> Inr (v, lx_next l1)
     | None \<Rightarrow> if lx_empty l1 then Inl (MissingValue (lx_opt l1))
               else Inr (hd (lx_args l1), lx_next (lx_advance l1)))"

subsection \<open>Options\<close>

text \<open>
  A \<open>Value\<close> passes its arguments to a conversion that stores them in a program variable: \<open>vl_runs\<close> are the arguments passed so
  far, in order. \<open>OSwitch b\<close> has the flag it sets.
\<close>

record opt_value =
  vl_required :: bool
  vl_multitoken :: bool
  vl_set :: bool
  vl_runs :: "string list"

datatype opt_data = OValue opt_value | OHelp | ONoOp | OSwitch bool

definition vl_new :: opt_value where
  "vl_new = \<lparr>vl_required = False, vl_multitoken = False, vl_set = False, vl_runs = []\<rparr>"

definition vl_require :: "opt_value \<Rightarrow> opt_value" where "vl_require v = v\<lparr>vl_required := True\<rparr>"
definition vl_default_value :: "string \<Rightarrow> opt_value \<Rightarrow> opt_value" where "vl_default_value arg v = v\<lparr>vl_runs := vl_runs v @ [arg]\<rparr>"
definition vl_set_multitoken :: "opt_value \<Rightarrow> opt_value" where "vl_set_multitoken v = v\<lparr>vl_multitoken := True\<rparr>"

definition vl_run :: "string \<Rightarrow> opt_value \<Rightarrow> opt_value" where
  "vl_run arg v = v\<lparr>vl_runs := vl_runs v @ [arg], vl_set := True\<rparr>"

text \<open>
  \<open>help_\<close> owns the option data; \<open>opts_\<close> maps the short and the long name of an option to its position there, so both names share
  the data.
\<close>

record option_data =
  od_short :: string
  od_long :: string
  od_data :: opt_data
  od_description :: string

record options =
  op_description :: string
  op_help :: "option_data list"
  op_opts :: "(string \<times> nat) list"
  op_positional :: "opt_data list"

definition op_new :: "string \<Rightarrow> options" where
  "op_new description = \<lparr>op_description = description, op_help = [], op_opts = [], op_positional = []\<rparr>"

definition od_opt :: "option_data \<Rightarrow> string" where
  "od_opt d = (if od_long d = [] then od_short d else od_long d)"

text \<open>\<open>std::map\<close> as a list sorted by its keys.\<close>

fun opts_insert :: "string \<Rightarrow> nat \<Rightarrow> (string \<times> nat) list \<Rightarrow> (string \<times> nat) list" where
  "opts_insert k v [] = [(k, v)]"
| "opts_insert k v ((k', v') # xs) = (if k < k' then (k, v) # (k', v') # xs else (k', v') # opts_insert k v xs)"

definition opts_find :: "string \<Rightarrow> options \<Rightarrow> nat option" where
  "opts_find k os = map_of (op_opts os) k"

text \<open>Registration; no short option is the null character.\<close>

definition op_add :: "char option \<Rightarrow> string \<Rightarrow> opt_data \<Rightarrow> string \<Rightarrow> options \<Rightarrow> opt_error + options" where
  "op_add short_opt long_opt data description os =
     (let short = (case short_opt of None \<Rightarrow> [] | Some c \<Rightarrow> [c]);
          d = \<lparr>od_short = short, od_long = long_opt, od_data = data, od_description = description\<rparr>;
          k = length (op_help os);
          os1 = os\<lparr>op_help := op_help os @ [d]\<rparr>
      in if short \<noteq> [] \<and> opts_find short os1 \<noteq> None then Inl (DuplicateRegistration short)
         else
           let os2 = (if short \<noteq> [] then os1\<lparr>op_opts := opts_insert short k (op_opts os1)\<rparr> else os1)
           in if long_opt \<noteq> [] \<and> opts_find long_opt os2 \<noteq> None then Inl (DuplicateRegistration long_opt)
              else Inr (if long_opt \<noteq> [] then os2\<lparr>op_opts := opts_insert long_opt k (op_opts os2)\<rparr> else os2))"

definition op_add_positional :: "opt_data \<Rightarrow> options \<Rightarrow> options" where
  "op_add_positional data os = os\<lparr>op_positional := op_positional os @ [data]\<rparr>"

definition op_has :: "string \<Rightarrow> options \<Rightarrow> bool" where
  "op_has opt os \<longleftrightarrow> opts_find opt os \<noteq> None"

text \<open>The place of the data that an argument is for.\<close>

datatype opt_place = AtOpt nat | AtPos nat

definition op_get :: "opt_place \<Rightarrow> options \<Rightarrow> opt_data" where
  "op_get p os = (case p of AtOpt k \<Rightarrow> od_data (op_help os ! k) | AtPos k \<Rightarrow> op_positional os ! k)"

definition op_put :: "opt_place \<Rightarrow> opt_data \<Rightarrow> options \<Rightarrow> options" where
  "op_put p d os = (case p of
     AtOpt k \<Rightarrow> os\<lparr>op_help := (op_help os)[k := (op_help os ! k)\<lparr>od_data := d\<rparr>]\<rparr>
   | AtPos k \<Rightarrow> os\<lparr>op_positional := (op_positional os)[k := d]\<rparr>)"

definition op_place :: "nat \<Rightarrow> argv_lexer \<Rightarrow> options \<Rightarrow> opt_error + opt_place \<times> nat" where
  "op_place idx lx os =
     (if lx_opt lx \<noteq> [] then
        (case opts_find (lx_opt lx) os of None \<Rightarrow> Inl (UnknownOption (lx_opt lx)) | Some k \<Rightarrow> Inr (AtOpt k, idx))
      else if idx \<ge> length (op_positional os) then Inl (UnexpectedArgument (hd (lx_args lx)))
      else Inr (AtPos idx, idx + 1))"

text \<open>The visit of the option's data; \<open>Inr (True, \<dots>)\<close> is the exit after printing the help.\<close>

definition op_visit :: "opt_place \<Rightarrow> argv_lexer \<Rightarrow> options \<Rightarrow> opt_error + bool \<times> argv_lexer \<times> options" where
  "op_visit p lx os =
     (case op_get p os of
        OHelp \<Rightarrow> (case pop_switch lx of Inl e \<Rightarrow> Inl e | Inr l1 \<Rightarrow> Inr (True, l1, os))
      | OSwitch _ \<Rightarrow> (case pop_switch lx of Inl e \<Rightarrow> Inl e | Inr l1 \<Rightarrow> Inr (False, l1, op_put p (OSwitch True) os))
      | OValue v \<Rightarrow>
          (case pop_value lx of
             Inl e \<Rightarrow> Inl e
           | Inr (val, l1) \<Rightarrow>
               if vl_set v \<and> \<not> vl_multitoken v then Inl (DuplicateOption (lx_opt lx))
               else Inr (False, l1, op_put p (OValue (vl_run val v)) os))
      | ONoOp \<Rightarrow> Inr (False, lx_pop lx, os))"

definition op_step :: "nat \<Rightarrow> argv_lexer \<Rightarrow> options \<Rightarrow> opt_error + bool \<times> nat \<times> argv_lexer \<times> options" where
  "op_step idx lx os =
     (case op_place idx lx os of
        Inl e \<Rightarrow> Inl e
      | Inr (p, idx1) \<Rightarrow>
          (case op_visit p lx os of Inl e \<Rightarrow> Inl e | Inr (exits, l1, os1) \<Rightarrow> Inr (exits, idx1, l1, os1)))"

lemma lx_next_args [simp]: "lx_args (lx_next l) = lx_args l"
  by (simp add: lx_next_def split: list.splits option.splits)

lemma pop_args:
  "lx_args (lx_pop l) = tl (lx_args l)"
  "pop_switch l = Inr l1 \<Longrightarrow> lx_args l1 = tl (lx_args l)"
  "pop_value l = Inr (v, l1) \<Longrightarrow> lx_args l1 = tl (lx_args l) \<or> lx_args l1 = tl (tl (lx_args l))"
  by (auto simp: lx_pop_def pop_switch_def pop_value_def lx_advance_def Let_def split: if_splits option.splits)

lemma op_visit_args:
  "op_visit p lx os = Inr (b, l1, os1) \<Longrightarrow> lx_args l1 = tl (lx_args lx) \<or> lx_args l1 = tl (tl (lx_args lx))"
  unfolding op_visit_def
  by (cases "op_get p os") (auto simp: pop_args dest: pop_args(2,3) split: sum.splits prod.splits if_splits)

lemma op_step_split:
  assumes "op_step idx lx os = Inr (b, idx1, l1, os1)"
  obtains p where "op_place idx lx os = Inr (p, idx1)" "op_visit p lx os = Inr (b, l1, os1)"
  using assms by (auto simp: op_step_def split: sum.splits prod.splits)

lemma op_step_args:
  assumes "op_step idx lx os = Inr (b, idx1, l1, os1)" "\<not> lx_empty lx"
  shows "length (lx_args l1) < length (lx_args lx)"
proof -
  from op_step_split [OF assms(1)] obtain p where "op_visit p lx os = Inr (b, l1, os1)" by metis
  from op_visit_args [OF this] assms(2) show ?thesis
    by (cases "lx_args lx") (auto simp: lx_empty_def intro: le_imp_less_Suc)
qed

function op_loop :: "nat \<Rightarrow> argv_lexer \<Rightarrow> options \<Rightarrow> opt_error + bool \<times> options" where
  "op_loop idx lx os =
     (if lx_empty lx then Inr (False, os)
      else case op_step idx lx os of
        Inl e \<Rightarrow> Inl e
      | Inr (exits, idx1, l1, os1) \<Rightarrow> if exits then Inr (True, os1) else op_loop idx1 l1 os1)"
  by pat_completeness auto
termination
  by (relation "measure (\<lambda>(idx, lx, os). length (lx_args lx))") (auto dest: op_step_args)

declare op_loop.simps [simp del]

definition data_missing :: "opt_data \<Rightarrow> bool" where
  "data_missing d = (case d of OValue v \<Rightarrow> vl_required v \<and> \<not> vl_set v | _ \<Rightarrow> False)"

text \<open>\<open>parse\<close>: \<open>args\<close> are the arguments after the program name.\<close>

definition op_parse :: "string list \<Rightarrow> options \<Rightarrow> opt_error + bool \<times> options" where
  "op_parse args os =
     (case op_loop 0 (lx_new args) os of
        Inl e \<Rightarrow> Inl e
      | Inr (exits, os1) \<Rightarrow>
          if exits then Inr (True, os1)
          else (case filter (\<lambda>(n, k). data_missing (od_data (op_help os1 ! k))) (op_opts os1) of
             (n, k) # _ \<Rightarrow> Inl (MissingRequired (od_opt (op_help os1 ! k)))
           | [] \<Rightarrow> if list_ex data_missing (op_positional os1) then Inl MissingPositional else Inr (False, os1)))"

subsection \<open>Lexing what was written\<close>

text \<open>The ways to write an option, a flag or a positional argument.\<close>

datatype item =
    ILong string string | ILongSep string string | IShort char string | IShortSep char string
  | IFlagLong string | IFlagShort char | IArg string

fun render :: "item \<Rightarrow> string list" where
  "render (ILong n v) = [''--'' @ n @ ''='' @ v]"
| "render (ILongSep n v) = [''--'' @ n, v]"
| "render (IShort c v) = [CHR ''-'' # c # v]"
| "render (IShortSep c v) = [[CHR ''-'', c], v]"
| "render (IFlagLong n) = [''--'' @ n]"
| "render (IFlagShort c) = [[CHR ''-'', c]]"
| "render (IArg a) = [a]"

fun item_ok :: "item \<Rightarrow> bool" where
  "item_ok (ILong n v) \<longleftrightarrow> n \<noteq> [] \<and> CHR ''='' \<notin> set n"
| "item_ok (ILongSep n v) \<longleftrightarrow> n \<noteq> [] \<and> CHR ''='' \<notin> set n"
| "item_ok (IShort c v) \<longleftrightarrow> c \<noteq> CHR ''-'' \<and> v \<noteq> []"
| "item_ok (IShortSep c v) \<longleftrightarrow> c \<noteq> CHR ''-''"
| "item_ok (IFlagLong n) \<longleftrightarrow> n \<noteq> [] \<and> CHR ''='' \<notin> set n"
| "item_ok (IFlagShort c) \<longleftrightarrow> c \<noteq> CHR ''-''"
| "item_ok (IArg a) \<longleftrightarrow> a = ''--'' \<or> length a \<le> 1 \<or> hd a \<noteq> CHR ''-''"

fun item_opt :: "item \<Rightarrow> string" where
  "item_opt (ILong n v) = n"
| "item_opt (ILongSep n v) = n"
| "item_opt (IShort c v) = [c]"
| "item_opt (IShortSep c v) = [c]"
| "item_opt (IFlagLong n) = n"
| "item_opt (IFlagShort c) = [c]"
| "item_opt (IArg a) = []"

fun item_value :: "item \<Rightarrow> string option" where
  "item_value (ILong n v) = Some v"
| "item_value (ILongSep n v) = Some v"
| "item_value (IShort c v) = Some v"
| "item_value (IShortSep c v) = Some v"
| "item_value (IFlagLong n) = None"
| "item_value (IFlagShort c) = None"
| "item_value (IArg a) = Some a"

text \<open>Items whose value is in the same argument, so that it is there whether the option wants it or not.\<close>

fun item_attached :: "item \<Rightarrow> bool" where
  "item_attached (ILong n v) \<longleftrightarrow> True"
| "item_attached (IShort c v) \<longleftrightarrow> True"
| "item_attached (IArg a) \<longleftrightarrow> True"
| "item_attached _ \<longleftrightarrow> False"

lemma lx_next_new: "lx_next l = lx_new (lx_args l)"
  by (cases l) (simp add: lx_new_def lx_next_def split: list.splits option.splits)

lemma lx_new_args [simp]: "lx_args (lx_new args) = args"
  by (simp add: lx_new_def)

lemma lx_new_long_eq:
  assumes "n \<noteq> []" "CHR ''='' \<notin> set n"
  shows "lx_new ((''--'' @ n @ ''='' @ v) # rest) = \<lparr>lx_args = (''--'' @ n @ ''='' @ v) # rest, lx_opt = n, lx_val = Some v\<rparr>"
proof -
  have "find_first (\<lambda>c. c = CHR ''='') (n @ CHR ''='' # v) = Some (length n)"
    unfolding find_first_Some using assms(2) by auto
  with assms(1) show ?thesis by (simp add: lx_new_def lx_next_def)
qed

lemma lx_new_long:
  assumes "n \<noteq> []" "CHR ''='' \<notin> set n"
  shows "lx_new ((''--'' @ n) # rest) = \<lparr>lx_args = (''--'' @ n) # rest, lx_opt = n, lx_val = None\<rparr>"
proof -
  have "find_first (\<lambda>c. c = CHR ''='') n = None" unfolding find_first_None using assms(2) by auto
  with assms(1) show ?thesis by (simp add: lx_new_def lx_next_def)
qed

lemma lx_new_short:
  assumes "c \<noteq> CHR ''-''"
  shows "lx_new ((CHR ''-'' # c # v) # rest) =
    \<lparr>lx_args = (CHR ''-'' # c # v) # rest, lx_opt = [c], lx_val = if v = [] then None else Some v\<rparr>"
  using assms by (simp add: lx_new_def lx_next_def)

lemma lx_new_arg:
  assumes "a = ''--'' \<or> length a \<le> 1 \<or> hd a \<noteq> CHR ''-''"
  shows "lx_new (a # rest) = \<lparr>lx_args = a # rest, lx_opt = [], lx_val = Some a\<rparr>"
  using assms by (cases a) (auto simp: lx_new_def lx_next_def)

lemmas lexer_simps = lx_new_long_eq lx_new_long lx_new_short lx_new_arg pop_value_def pop_switch_def lx_advance_def lx_empty_def
  lx_next_new

lemma lex_item:
  assumes "item_ok it"
  shows "lx_opt (lx_new (render it @ rest)) = item_opt it"
    and "item_value it = Some v \<Longrightarrow> pop_value (lx_new (render it @ rest)) = Inr (v, lx_new rest)"
    and "item_value it = None \<Longrightarrow> pop_switch (lx_new (render it @ rest)) = Inr (lx_new rest)"
    and "\<not> lx_empty (lx_new (render it @ rest))"
  using assms lx_new_long_eq lx_new_long by (cases it; simp add: lexer_simps)+

lemma lex_misuse:
  assumes "item_ok it"
  shows "item_attached it \<Longrightarrow> pop_switch (lx_new (render it @ rest)) = Inl (UnexpectedValue (item_opt it))"
    and "item_attached it \<Longrightarrow> lx_pop (lx_new (render it @ rest)) = lx_new rest"
    and "item_value it = None \<Longrightarrow> pop_value (lx_new (render it)) = Inl (MissingValue (item_opt it))"
  using assms lx_new_long_eq [where rest = rest] lx_new_long by (cases it; simp add: lexer_simps lx_pop_def)+

text \<open>
  The lexer reads back every way of writing an argument (\<open>--name=value\<close>, \<open>--name value\<close>, \<open>-nvalue\<close>, \<open>-n value\<close>, the flags
  \<open>--name\<close> and \<open>-n\<close>, and positional arguments including \<open>--\<close> and \<open>-\<close>): it reports the name, hands out the value, and goes on with
  the rest of the command line.
\<close>

theorem argv_lexer_reads_items:
  assumes "item_ok it"
  shows "lx_opt (lx_new (render it @ rest)) = item_opt it \<and>
    (case item_value it of
       Some v \<Rightarrow> pop_value (lx_new (render it @ rest)) = Inr (v, lx_new rest)
     | None \<Rightarrow> pop_switch (lx_new (render it @ rest)) = Inr (lx_new rest))"
  using lex_item [OF assms] by (cases "item_value it") auto

theorem argv_lexer_reads_items_witness:
  "lx_opt (lx_new [''--n=3'', ''x'']) = ''n'' \<and> pop_value (lx_new [''--n=3'', ''x'']) = Inr (''3'', lx_new [''x''])"
  using argv_lexer_reads_items [of "ILong ''n'' ''3''" "[''x'']"] by simp

subsection \<open>The parser against its specification\<close>

text \<open>
  What a command line means, item by item. A value in the argument of an option that takes none is an error, as is an option at the end that lacks its value.
  \<open>None\<close> is a division into items that is not the one of the options: a flag for an option that takes a value, in front of an argument that is then its value, or a
  value in an argument of its own for an option that takes none.
\<close>

definition item_place :: "nat \<Rightarrow> item \<Rightarrow> options \<Rightarrow> opt_error + opt_place \<times> nat" where
  "item_place idx it os =
     (if item_opt it \<noteq> [] then
        (case opts_find (item_opt it) os of None \<Rightarrow> Inl (UnknownOption (item_opt it)) | Some k \<Rightarrow> Inr (AtOpt k, idx))
      else if idx \<ge> length (op_positional os) then Inl (UnexpectedArgument (hd (render it)))
      else Inr (AtPos idx, idx + 1))"

fun items_run :: "nat \<Rightarrow> item list \<Rightarrow> options \<Rightarrow> (opt_error + bool \<times> options) option" where
  "items_run idx [] os = Some (Inr (False, os))"
| "items_run idx (it # its) os =
     (case item_place idx it os of
        Inl e \<Rightarrow> Some (Inl e)
      | Inr (p, idx1) \<Rightarrow>
          (case (op_get p os, item_value it) of
             (OValue v, Some x) \<Rightarrow>
               if vl_set v \<and> \<not> vl_multitoken v then Some (Inl (DuplicateOption (item_opt it)))
               else items_run idx1 its (op_put p (OValue (vl_run x v)) os)
           | (OSwitch _, None) \<Rightarrow> items_run idx1 its (op_put p (OSwitch True) os)
           | (OHelp, None) \<Rightarrow> Some (Inr (True, os))
           | (ONoOp, v) \<Rightarrow> if v = None \<or> item_attached it then items_run idx1 its os else None
           | (OValue v, None) \<Rightarrow> if its = [] then Some (Inl (MissingValue (item_opt it))) else None
           | (_, Some x) \<Rightarrow> if item_attached it then Some (Inl (UnexpectedValue (item_opt it))) else None))"

lemma lex_place:
  assumes "item_ok it"
  shows "op_place idx (lx_new (render it @ rest)) os = item_place idx it os"
proof -
  have "hd (render it @ rest) = hd (render it)" by (cases it) auto
  thus ?thesis by (simp add: op_place_def item_place_def lex_item(1) [OF assms] split: option.split)
qed

lemma lex_noop:
  assumes "item_value it = None"
  shows "lx_pop (lx_new (render it @ rest)) = lx_new rest"
  using assms by (cases it) (simp_all add: lx_pop_def lx_next_new lx_advance_def)

lemma op_visit_item:
  assumes ok: "item_ok it"
  shows "op_get p os = OValue v \<Longrightarrow> item_value it = Some x \<Longrightarrow>
      op_visit p (lx_new (render it @ rest)) os =
        (if vl_set v \<and> \<not> vl_multitoken v then Inl (DuplicateOption (item_opt it))
         else Inr (False, lx_new rest, op_put p (OValue (vl_run x v)) os))"
    and "op_get p os = OSwitch b \<Longrightarrow> item_value it = None \<Longrightarrow>
      op_visit p (lx_new (render it @ rest)) os = Inr (False, lx_new rest, op_put p (OSwitch True) os)"
    and "op_get p os = OHelp \<Longrightarrow> item_value it = None \<Longrightarrow>
      op_visit p (lx_new (render it @ rest)) os = Inr (True, lx_new rest, os)"
    and "op_get p os = ONoOp \<Longrightarrow> item_value it = None \<or> item_attached it \<Longrightarrow>
      op_visit p (lx_new (render it @ rest)) os = Inr (False, lx_new rest, os)"
    and "op_get p os = OValue v \<Longrightarrow> item_value it = None \<Longrightarrow> op_visit p (lx_new (render it)) os = Inl (MissingValue (item_opt it))"
    and "op_get p os = OSwitch b \<or> op_get p os = OHelp \<Longrightarrow> item_attached it \<Longrightarrow>
      op_visit p (lx_new (render it @ rest)) os = Inl (UnexpectedValue (item_opt it))"
  using lex_misuse [OF ok] by (auto simp: op_visit_def lex_item [OF ok] lex_noop)

lemma op_loop_item:
  assumes "item_ok it"
  shows "op_loop idx (lx_new (render it @ rest)) os =
    (case item_place idx it os of
       Inl e \<Rightarrow> Inl e
     | Inr (p, idx1) \<Rightarrow> (case op_visit p (lx_new (render it @ rest)) os of
         Inl e \<Rightarrow> Inl e
       | Inr (exits, l1, os1) \<Rightarrow> if exits then Inr (True, os1) else op_loop idx1 l1 os1))"
  by (subst op_loop.simps)
    (simp add: lex_item(4) [OF assms] op_step_def lex_place [OF assms] split: sum.splits prod.splits)

lemma op_loop_items:
  "\<lbrakk>items_run idx its os = Some r; list_all item_ok its\<rbrakk> \<Longrightarrow> op_loop idx (lx_new (concat (map render its))) os = r"
proof (induction idx its os rule: items_run.induct)
  case (1 idx os)
  thus ?case by (simp add: op_loop.simps [of idx "lx_new []"] lx_empty_def)
next
  case (2 idx it its os)
  from 2(5) have ok: "item_ok it" "list_all item_ok its" by auto
  show ?case
  proof (cases "item_place idx it os")
    case (Inl e)
    with 2(4) show ?thesis by (simp add: op_loop_item [OF ok(1)])
  next
    case (Inr q)
    then obtain p idx1 where q: "item_place idx it os = Inr (p, idx1)" by (cases q) auto
    show ?thesis
      by (cases "op_get p os"; cases "item_value it")
        (use 2 q ok in \<open>auto simp: op_loop_item op_visit_item split: if_splits\<close>)
  qed
qed

text \<open>
  C37: Parsing a command line written as a sequence of items does what the items mean, in order: each value goes to the option of its name, or to the next
  positional option, and each switch sets its flag. The first unknown option, surplus positional argument, repeated option, unexpected or missing value is the error
  that the parse ends with; an option for help ends it at once; otherwise a required option that got no value is reported at the end. The division into items has
  to be the one of the options: no value in an argument of its own for an option that takes none, no flag in front of an argument that is its value.
\<close>

theorem options_parse_items:
  assumes "list_all item_ok its" "items_run 0 its os = Some r"
  shows "op_parse (concat (map render its)) os =
    (case r of
       Inl e \<Rightarrow> Inl e
     | Inr (exits, os1) \<Rightarrow>
         if exits then Inr (True, os1)
         else (case filter (\<lambda>(n, k). data_missing (od_data (op_help os1 ! k))) (op_opts os1) of
             (n, k) # _ \<Rightarrow> Inl (MissingRequired (od_opt (op_help os1 ! k)))
           | [] \<Rightarrow> if list_ex data_missing (op_positional os1) then Inl MissingPositional else Inr (False, os1)))"
  by (simp add: op_parse_def op_loop_items [OF assms(2,1)])

definition demo_options :: options where
  "demo_options =
     (case op_add (Some CHR ''n'') ''num'' (OValue (vl_require vl_new)) [] (op_new []) of
        Inr os \<Rightarrow> op_add_positional (OValue vl_new) os
      | Inl e \<Rightarrow> op_new [])"

theorem options_parse_items_witness:
  "map_sum id (\<lambda>(b, os). (b, map od_data (op_help os), op_positional os))
     (op_parse [''x'', ''--num'', ''3''] demo_options) =
   Inr (False, [OValue (vl_run ''3'' (vl_require vl_new))], [OValue (vl_run ''x'' vl_new)]) \<and>
   op_parse [''--num=3'', ''-n4''] demo_options = Inl (DuplicateOption ''n'') \<and>
   op_parse [''--no''] demo_options = Inl (UnknownOption ''no'') \<and>
   op_parse [''x'', ''y''] demo_options = Inl (UnexpectedArgument ''y'')"
proof (intro conjI)
  have e: "items_run 0 [IArg ''x'', ILongSep ''num'' ''3''] demo_options =
    Some (Inr (False, op_put (AtOpt 0) (OValue (vl_run ''3'' (vl_require vl_new)))
      (op_put (AtPos 0) (OValue (vl_run ''x'' vl_new)) demo_options)))"
    by code_simp
  show "map_sum id (\<lambda>(b, os). (b, map od_data (op_help os), op_positional os)) (op_parse [''x'', ''--num'', ''3''] demo_options) =
    Inr (False, [OValue (vl_run ''3'' (vl_require vl_new))], [OValue (vl_run ''x'' vl_new)])"
    using options_parse_items [OF _ e] by simp code_simp
  have "items_run 0 [ILong ''num'' ''3'', IShort CHR ''n'' ''4''] demo_options = Some (Inl (DuplicateOption ''n''))" by code_simp
  from options_parse_items [OF _ this] show "op_parse [''--num=3'', ''-n4''] demo_options = Inl (DuplicateOption ''n'')" by simp
  have "items_run 0 [IFlagLong ''no''] demo_options = Some (Inl (UnknownOption ''no''))" by code_simp
  from options_parse_items [OF _ this] show "op_parse [''--no''] demo_options = Inl (UnknownOption ''no'')" by simp
  have "items_run 0 [IArg ''x'', IArg ''y''] demo_options = Some (Inl (UnexpectedArgument ''y''))" by code_simp
  from options_parse_items [OF _ this] show "op_parse [''x'', ''y''] demo_options = Inl (UnexpectedArgument ''y'')" by simp
qed

subsection \<open>What a parse does to the options\<close>

fun data_evolve :: "opt_data \<Rightarrow> opt_data \<Rightarrow> bool" where
  "data_evolve (OValue v) (OValue w) \<longleftrightarrow>
     vl_required w = vl_required v \<and> vl_multitoken w = vl_multitoken v \<and>
     take (length (vl_runs v)) (vl_runs w) = vl_runs v \<and>
     (vl_set w \<longleftrightarrow> vl_set v \<or> length (vl_runs v) < length (vl_runs w)) \<and>
     (vl_multitoken v \<or> length (vl_runs w) \<le> length (vl_runs v) + (if vl_set v then 0 else 1))"
| "data_evolve (OSwitch a) (OSwitch b) \<longleftrightarrow> (a \<longrightarrow> b)"
| "data_evolve OHelp OHelp \<longleftrightarrow> True"
| "data_evolve ONoOp ONoOp \<longleftrightarrow> True"
| "data_evolve _ _ \<longleftrightarrow> False"

definition opts_evolve :: "options \<Rightarrow> options \<Rightarrow> bool" where
  "opts_evolve os os1 \<longleftrightarrow> op_opts os1 = op_opts os \<and>
     list_all2 (\<lambda>d e. od_short e = od_short d \<and> od_long e = od_long d \<and> data_evolve (od_data d) (od_data e))
       (op_help os) (op_help os1) \<and>
     list_all2 data_evolve (op_positional os) (op_positional os1)"

definition opts_wf :: "options \<Rightarrow> bool" where
  "opts_wf os \<longleftrightarrow> list_all (\<lambda>(n, k). k < length (op_help os)) (op_opts os)"

fun place_ok :: "opt_place \<Rightarrow> options \<Rightarrow> bool" where
  "place_ok (AtOpt k) os \<longleftrightarrow> k < length (op_help os)"
| "place_ok (AtPos k) os \<longleftrightarrow> k < length (op_positional os)"

lemma data_evolve_refl [simp]: "data_evolve d d"
  by (cases d) auto

lemma opts_evolve_refl [simp]: "opts_evolve os os"
  by (simp add: opts_evolve_def list_all2_refl)

lemma data_evolve_run:
  assumes "data_evolve d (OValue v)" "vl_set v \<longrightarrow> vl_multitoken v"
  shows "data_evolve d (OValue (vl_run x v))"
proof (cases d)
  case (OValue u)
  with assms show ?thesis
    using linorder_not_less [of "length (vl_runs u)" "length (vl_runs v)"] by (auto simp: vl_run_def min_def dest: arg_cong [where f = length])
qed (use assms in auto)

lemma data_evolve_switch:
  "data_evolve d (OSwitch b) \<Longrightarrow> data_evolve d (OSwitch True)"
  by (cases d) auto

lemma opts_evolve_put:
  assumes "opts_evolve os os1" "place_ok p os"
    and "\<And>d. data_evolve d (op_get p os1) \<Longrightarrow> data_evolve d e"
  shows "opts_evolve os (op_put p e os1)"
  using assms
  by (cases p)
    (auto simp: opts_evolve_def op_put_def op_get_def list_all2_conv_all_nth nth_list_update)

lemma opts_find_wf: "\<lbrakk>opts_wf os; opts_find n os = Some k\<rbrakk> \<Longrightarrow> k < length (op_help os)"
  by (auto simp: opts_wf_def opts_find_def list_all_iff dest: map_of_SomeD)

lemma op_place_ok:
  assumes "opts_wf os" "opts_evolve os os1" "op_place idx lx os1 = Inr (p, idx1)"
  shows "place_ok p os"
proof -
  have "opts_find n os1 = opts_find n os" "length (op_positional os1) = length (op_positional os)" for n
    using assms(2) by (auto simp: opts_evolve_def opts_find_def dest: list_all2_lengthD)
  with assms(3) opts_find_wf [OF assms(1)] show ?thesis
    by (auto simp: op_place_def split: if_splits option.splits)
qed

lemma op_visit_evolve:
  assumes "opts_evolve os os1" "place_ok p os" "op_visit p lx os1 = Inr (b, l1, os2)"
  shows "opts_evolve os os2"
proof (cases "op_get p os1")
  case (OValue v)
  with assms(3) obtain x where x: "vl_set v \<longrightarrow> vl_multitoken v" "os2 = op_put p (OValue (vl_run x v)) os1"
    by (auto simp: op_visit_def split: sum.splits if_splits)
  have "opts_evolve os (op_put p (OValue (vl_run x v)) os1)"
    by (rule opts_evolve_put [OF assms(1,2)]) (use OValue x(1) data_evolve_run in auto)
  with x(2) show ?thesis by simp
next
  case (OSwitch c)
  with assms(3) have "os2 = op_put p (OSwitch True) os1" by (auto simp: op_visit_def split: sum.splits)
  moreover have "opts_evolve os (op_put p (OSwitch True) os1)"
    by (rule opts_evolve_put [OF assms(1,2)]) (use OSwitch data_evolve_switch in auto)
  ultimately show ?thesis by simp
qed (use assms in \<open>auto simp: op_visit_def split: sum.splits\<close>)

lemma op_loop_evolve:
  assumes "opts_wf os"
  shows "\<lbrakk>opts_evolve os os1; op_loop idx lx os1 = Inr (b, os2)\<rbrakk> \<Longrightarrow> opts_evolve os os2"
proof (induction idx lx os1 rule: op_loop.induct)
  case (1 idx lx os1)
  show ?case
  proof (cases "lx_empty lx")
    case True
    with 1 show ?thesis by (simp add: op_loop.simps [of idx lx])
  next
    case False
    with 1(3) obtain c idx1 l1 os3 where s: "op_step idx lx os1 = Inr (c, idx1, l1, os3)"
      by (subst (asm) op_loop.simps) (auto split: sum.splits)
    from op_step_split [OF s] obtain p where "op_place idx lx os1 = Inr (p, idx1)" "op_visit p lx os1 = Inr (c, l1, os3)" by metis
    with 1(2) assms have e: "opts_evolve os os3" by (metis op_place_ok op_visit_evolve)
    show ?thesis
    proof (cases c)
      case True
      with 1(3) s False e show ?thesis by (simp add: op_loop.simps [of idx lx])
    next
      case c: False
      with 1(3) s False have "op_loop idx1 l1 os3 = Inr (b, os2)" by (simp add: op_loop.simps [of idx lx])
      with 1(1) [OF False s _ _ _ c] e show ?thesis by auto
    qed
  qed
qed

text \<open>
  A successful parse leaves the registration of the options as it was, passes each option the arguments given for it after
  its default value, at most one unless the option takes several, never resets a switch, and has given a value to every
  required option that can be named and to every required positional option.
\<close>

theorem options_parse_contract:
  assumes "opts_wf os" "op_parse args os = Inr (False, os1)"
  shows "opts_evolve os os1 \<and> list_all (\<lambda>(n, k). \<not> data_missing (od_data (op_help os1 ! k))) (op_opts os) \<and>
    list_all (\<lambda>d. \<not> data_missing d) (op_positional os1)"
proof -
  obtain c where c: "op_loop 0 (lx_new args) os = Inr (c, os1)" "\<not> c"
      "filter (\<lambda>(n, k). data_missing (od_data (op_help os1 ! k))) (op_opts os1) = []"
      "\<not> list_ex data_missing (op_positional os1)"
    using assms(2) unfolding op_parse_def by (auto split: sum.splits list.splits if_splits)
  from op_loop_evolve [OF assms(1) opts_evolve_refl c(1)] have e: "opts_evolve os os1" .
  hence "op_opts os1 = op_opts os" by (simp add: opts_evolve_def)
  with c(3,4) e show ?thesis by (auto simp: filter_empty_conv list_all_iff list_ex_iff)
qed

theorem options_parse_contract_witness:
  "\<exists>os1. op_parse [''--num=3''] demo_options = Inr (False, os1) \<and> opts_evolve demo_options os1"
proof -
  have "opts_wf demo_options" by code_simp
  moreover have e: "op_parse [''--num=3''] demo_options =
    Inr (False, op_put (AtOpt 0) (OValue (vl_run ''3'' (vl_require vl_new))) demo_options)" by code_simp
  ultimately show ?thesis using options_parse_contract by blast
qed

text \<open>An option name can be registered once: registering keeps the map of names sorted and its places valid, and a taken name is refused.\<close>

lemma opts_insert_set [simp]: "set (opts_insert k v xs) = insert (k, v) (set xs)"
  by (induction k v xs rule: opts_insert.induct) auto

lemma op_add_registers:
  assumes "opts_wf os" "op_add so lo d desc os = Inr os1"
  shows "opts_wf os1 \<and> set (op_opts os1) = set (op_opts os) \<union>
    (case so of None \<Rightarrow> {} | Some c \<Rightarrow> {([c], length (op_help os))}) \<union> (if lo = [] then {} else {(lo, length (op_help os))}) \<and>
    (lo \<noteq> [] \<longrightarrow> opts_find lo os = None) \<and> (\<forall>c. so = Some c \<longrightarrow> opts_find [c] os = None \<and> lo \<noteq> [c])"
proof -
  have "b < Suc (length (op_help os))" if "(a, b) \<in> set (op_opts os)" for a b
    using assms(1) that by (auto simp: opts_wf_def list_all_iff)
  with assms(2) show ?thesis
    by (auto simp: op_add_def Let_def opts_wf_def opts_find_def list_all_iff map_of_eq_None_iff
      split: if_splits option.splits)
qed

subsection \<open>The usage text\<close>

text \<open>
  \<open>max_width\<close> is an \<open>unsigned\<close> that wraps around; \<open>setw\<close> takes it as an \<open>int\<close>, and the space it pads is printed in any case.
\<close>

definition usage_width :: "option_data \<Rightarrow> 32 word" where
  "usage_width d =
     15 - (if od_short d = [] then 0 else 2)
        - (if od_long d = [] then 0 else (if od_short d = [] then 0 else 2) + (2 + of_nat (length (od_long d))))"

definition usage_names :: "option_data \<Rightarrow> string" where
  "usage_names d = (if od_short d = [] then [] else CHR ''-'' # od_short d)
     @ (if od_long d = [] then [] else (if od_short d = [] then [] else '', '') @ ''--'' @ od_long d)"

definition usage_line :: "option_data \<Rightarrow> string" where
  "usage_line d = ''  '' @ usage_names d @ replicate (nat (sint (usage_width d)) - 1) CHR '' '' @ '' '' @ od_description d @ [CHR 0x0A]"

definition op_usage :: "options \<Rightarrow> string" where
  "op_usage os = ''Usage: '' @ op_description os @ [CHR 0x0A] @ ''Options:'' @ [CHR 0x0A] @ concat (map usage_line (op_help os))"

text \<open>The descriptions start in one column as long as the names take fewer than 15 characters.\<close>

lemma usage_width_names:
  assumes "length (od_short d) \<le> 1"
  shows "usage_width d = 15 - of_nat (length (usage_names d))"
  using assms by (cases "od_short d") (simp_all add: usage_width_def usage_names_def algebra_simps)

lemma sint_small: "m \<le> 15 \<Longrightarrow> sint (of_nat m :: 32 word) = int m"
  by (simp add: signed_of_nat signed_take_bit_int_eq_self)

lemma usage_column:
  assumes "length (od_short d) \<le> 1" "length (usage_names d) < 15"
  shows "\<exists>pad. usage_line d = pad @ od_description d @ [CHR 0x0A] \<and> length pad = 17"
proof -
  from assms(2) have "usage_width d = of_nat (15 - length (usage_names d))"
    by (simp add: usage_width_names [OF assms(1)] of_nat_diff)
  hence "nat (sint (usage_width d)) = 15 - length (usage_names d)" by (simp add: sint_small)
  with assms(2) show ?thesis
    by (intro exI [of _ "''  '' @ usage_names d @ replicate (14 - length (usage_names d)) CHR '' '' @ '' ''"])
      (simp add: usage_line_def)
qed

end
