(* ===== verification/VarSubs.thy ===== *)
theory VarSubs
  imports Strings
begin

text \<open>
  Variable substitution, \<open>util/VarSub.hpp\<close> and \<open>util/VarSub.cpp\<close>. The function \<open>fn\<close> that gives the value of a variable is a parameter, as
  it is in the code. Positions are indices into the string, which the code edits in place. A substitution need not end, so it is a partial
  function: \<open>None\<close> is a run that never returns.
\<close>

subsection \<open>VarSub\<close>

text \<open>
  \<open>ctx\<close> has the position of the opening brace and the names already substituted there (\<open>i\<close> and \<open>*outer\<close>), and is \<open>None\<close> at the top level;
  the names come back with the edited string. \<open>state\<close> is the escape or the dollar sign that was just read.
\<close>

definition erase_at :: "nat \<Rightarrow> nat \<Rightarrow> string \<Rightarrow> string" where
  "erase_at i n s = take i s @ drop (i + n) s"

definition replace_at :: "nat \<Rightarrow> nat \<Rightarrow> string \<Rightarrow> string \<Rightarrow> string" where
  "replace_at i n t s = take i s @ t @ drop (i + n) s"

definition close_brace :: "(string \<Rightarrow> string) \<Rightarrow> nat \<Rightarrow> string list \<Rightarrow> nat \<Rightarrow> string \<Rightarrow> string \<times> string list" where
  "close_brace fn i outer j s =
     (let n = j - i; name = take (n - 2) (drop (i + 2) s) in
      if name \<notin> set outer then (replace_at i (n + 1) (fn name) s, name # outer) else (erase_at i (n + 1) s, outer))"

definition scan_state :: "char \<Rightarrow> char option" where
  "scan_state ch = (if ch = CHR ''$'' \<or> ch = CHR 0x5C then Some ch else None)"

partial_function (option) substitute ::
  "(string \<Rightarrow> string) \<Rightarrow> (nat \<times> string list) option \<Rightarrow> string \<Rightarrow> nat \<Rightarrow> nat \<Rightarrow> string list \<Rightarrow> char option
   \<Rightarrow> (bool \<times> string \<times> string list) option" where
  "substitute fn ctx s j last_pos inner state =
     (if j \<ge> length s then Some (False, s, (case ctx of None \<Rightarrow> [] | Some (i, outer) \<Rightarrow> outer))
      else if state = Some (CHR 0x5C) then substitute fn ctx (erase_at (j - 1) 1 s) (j + 1) last_pos inner None
      else if state = Some (CHR ''$'') \<and> s ! j = CHR ''{'' then
        Option.bind (substitute fn (Some (j - 1, if j > last_pos then [] else inner)) s (j + 1) 0 [] None)
          (\<lambda>(found, s1, inner1).
             if found then substitute fn ctx s1 (j - 1) (if j > last_pos then j else last_pos) inner1 None
             else Some (False, s1, (case ctx of None \<Rightarrow> [] | Some (i, outer) \<Rightarrow> outer)))
      else if s ! j = CHR ''}'' \<and> ctx \<noteq> None then
        (case the ctx of (i, outer) \<Rightarrow> Some (True, close_brace fn i outer j s))
      else substitute fn ctx s (j + 1) last_pos inner (scan_state (s ! j)))"

definition var_sub :: "(string \<Rightarrow> string) \<Rightarrow> string \<Rightarrow> string option" where
  "var_sub fn s = map_option (\<lambda>(found, s1, names). s1) (substitute fn None s 0 0 [] None)"

text \<open>\<open>get_env\<close>, with the environment of the process.\<close>

definition get_env :: "(string \<Rightarrow> string option) \<Rightarrow> string \<Rightarrow> string" where
  "get_env env name = (case env name of Some val \<Rightarrow> val | None \<Rightarrow> [])"

subsection \<open>Templates\<close>

text \<open>
  A template is text with variables, whose names are templates again: \<open>${a${b}}\<close> is the variable whose name is \<open>a\<close> followed by the value
  of \<open>b\<close>.
\<close>

datatype part = PLit char | PVar "part list"

fun parts_text :: "part list \<Rightarrow> string" where
  "parts_text [] = []"
| "parts_text (PLit c # ts) = c # parts_text ts"
| "parts_text (PVar ns # ts) = ''${'' @ parts_text ns @ ''}'' @ parts_text ts"

fun parts_value :: "(string \<Rightarrow> string) \<Rightarrow> part list \<Rightarrow> string" where
  "parts_value fn [] = []"
| "parts_value fn (PLit c # ts) = c # parts_value fn ts"
| "parts_value fn (PVar ns # ts) = fn (parts_value fn ns) @ parts_value fn ts"

definition plain :: "char \<Rightarrow> bool" where
  "plain c \<longleftrightarrow> c \<noteq> CHR ''$'' \<and> c \<noteq> CHR 0x5C \<and> c \<noteq> CHR ''}''"

fun parts_ok :: "part list \<Rightarrow> bool" where
  "parts_ok [] \<longleftrightarrow> True"
| "parts_ok (PLit c # ts) \<longleftrightarrow> plain c \<and> parts_ok ts"
| "parts_ok (PVar ns # ts) \<longleftrightarrow> parts_ok ns \<and> parts_ok ts"

lemma nth_middle [simp]: "(pre @ c # rest) ! length pre = c"
  by (simp add: nth_append)

lemma sub_plain1:
  assumes "plain c"
  shows "substitute fn ctx (pre @ c # rest) (length pre) l inner None =
    substitute fn ctx (pre @ c # rest) (length pre + 1) l inner None"
  using assms by (subst substitute.simps) (auto simp: plain_def scan_state_def)

lemma sub_plain:
  assumes "list_all plain t"
  shows "substitute fn ctx (pre @ t @ rest) (length pre) l inner None =
    substitute fn ctx (pre @ t @ rest) (length (pre @ t)) l inner None"
  using assms
proof (induction t arbitrary: pre)
  case (Cons c t)
  from Cons.prems have "plain c" "list_all plain t" by auto
  with Cons.IH [of "pre @ [c]"] sub_plain1 [of c fn ctx pre "t @ rest"] show ?case by simp
qed simp

lemma sub_end: "substitute fn None s (length s) l inner st = Some (False, s, [])"
  by (subst substitute.simps) simp

lemma sub_close:
  "substitute fn (Some (length pre, outer)) (pre @ ''${'' @ name @ ''}'' @ rest) (length pre + 2 + length name) l inner None =
   Some (True, if name \<in> set outer then pre @ rest else pre @ fn name @ rest, if name \<in> set outer then outer else name # outer)"
proof -
  let ?s = "pre @ ''${'' @ name @ ''}'' @ rest"
  have "?s ! (length pre + 2 + length name) = CHR ''}''" by (simp add: nth_append)
  moreover have "length pre + 2 + length name < length ?s" by simp
  ultimately show ?thesis
    by (subst substitute.simps) (simp add: close_brace_def erase_at_def replace_at_def Let_def numeral_eq_Suc)
qed

text \<open>From the dollar sign of a variable to the substituted text, once the inner scan has found the closing brace.\<close>

lemma sub_open:
  assumes "substitute fn (Some (length pre, if length pre + 1 > l then [] else inner)) (pre @ ''${'' @ rest) (length pre + 2) 0 [] None =
    Some (True, s1, inner1)"
  shows "substitute fn ctx (pre @ ''${'' @ rest) (length pre) l inner None =
    substitute fn ctx s1 (length pre) (max l (length pre + 1)) inner1 None"
proof -
  have 1: "substitute fn ctx (pre @ ''${'' @ rest) (length pre) l inner None =
      substitute fn ctx (pre @ ''${'' @ rest) (length pre + 1) l inner (Some (CHR ''$''))"
    by (subst substitute.simps) (simp add: scan_state_def)
  have n: "(pre @ ''${'' @ rest) ! (length pre + 1) = CHR ''{''" by (simp add: nth_append)
  have m: "(if length pre + 1 > l then length pre + 1 else l) = max l (length pre + 1)" by auto
  have 2: "substitute fn ctx (pre @ ''${'' @ rest) (length pre + 1) l inner (Some (CHR ''$'')) =
      substitute fn ctx s1 (length pre) (max l (length pre + 1)) inner1 None"
    by (subst substitute.simps) (use n assms in \<open>simp add: m [simplified]\<close>)
  from 1 2 show ?thesis by simp
qed

text \<open>
  Where the scan stands at the start of a template: no substitution was made beyond this position, and those made at the very position
  had empty values.
\<close>

definition scan_inv :: "(string \<Rightarrow> string) \<Rightarrow> nat \<Rightarrow> nat \<Rightarrow> string list \<Rightarrow> bool" where
  "scan_inv fn j l inner \<longleftrightarrow> l \<le> j + 1 \<and> (l = j + 1 \<longrightarrow> (\<forall>name \<in> set inner. fn name = []))"

lemma sub_parts:
  assumes vals: "\<And>n. list_all plain (fn n)"
  shows "\<lbrakk>parts_ok ts; scan_inv fn (length pre) l inner\<rbrakk> \<Longrightarrow>
    \<exists>l' inner'. scan_inv fn (length (pre @ parts_value fn ts)) l' inner' \<and>
      substitute fn ctx (pre @ parts_text ts @ rest) (length pre) l inner None =
      substitute fn ctx (pre @ parts_value fn ts @ rest) (length (pre @ parts_value fn ts)) l' inner' None"
proof (induction ts arbitrary: pre l inner ctx rest rule: parts_text.induct)
  case 1
  thus ?case by (intro exI [of _ l] exI [of _ inner]) simp
next
  case (2 c ts)
  from 2(2) have "plain c" "parts_ok ts" by auto
  moreover from 2(3) have "scan_inv fn (length (pre @ [c])) l inner" by (auto simp: scan_inv_def)
  ultimately show ?case using 2(1) [of "pre @ [c]" l inner ctx rest] sub_plain1 [of c fn ctx pre "parts_text ts @ rest"] by simp
next
  case (3 ns ts)
  from 3(3) have ok: "parts_ok ns" "parts_ok ts" by auto
  define outer where "outer = (if length pre + 1 > l then [] else inner)"
  define name where "name = parts_value fn ns"
  define v where "v = fn name"
  define after where "after = parts_text ts @ rest"
  have known: "name \<in> set outer \<Longrightarrow> v = []"
    using 3(4) by (auto simp: outer_def v_def scan_inv_def split: if_splits)
  have "scan_inv fn (length (pre @ ''${'')) 0 []" by (simp add: scan_inv_def)
  from 3(1) [OF ok(1) this, of "Some (length pre, outer)" "''}'' @ after"] obtain l1 inner1 where
    "substitute fn (Some (length pre, outer)) ((pre @ ''${'') @ parts_text ns @ ''}'' @ after) (length (pre @ ''${'')) 0 [] None =
     substitute fn (Some (length pre, outer)) ((pre @ ''${'') @ name @ ''}'' @ after) (length ((pre @ ''${'') @ name)) l1 inner1 None"
    unfolding name_def by blast
  moreover define seen where "seen = (if name \<in> set outer then outer else name # outer)"
  ultimately have scan: "substitute fn (Some (length pre, outer)) (pre @ ''${'' @ parts_text ns @ ''}'' @ after) (length pre + 2) 0 [] None =
      Some (True, pre @ v @ after, seen)"
    using sub_close [of fn pre outer name after l1 inner1] known by (auto simp: v_def seen_def algebra_simps)
  have opened: "substitute fn ctx (pre @ ''${'' @ parts_text ns @ ''}'' @ after) (length pre) l inner None =
      substitute fn ctx (pre @ v @ after) (length pre) (max l (length pre + 1)) seen None"
    using sub_open [where rest = "parts_text ns @ ''}'' @ after" and l = l and inner = inner and pre = pre and ctx = ctx] scan
    by (simp add: outer_def)
  have vplain: "list_all plain v" using vals by (simp add: v_def)
  have l': "max l (length pre + 1) = length pre + 1" using 3(4) by (auto simp: scan_inv_def)
  have seen_empty: "\<forall>n \<in> set seen. fn n = []" if "v = []"
    using 3(4) that by (auto simp: seen_def outer_def v_def scan_inv_def split: if_splits)
  have "scan_inv fn (length (pre @ v)) (length pre + 1) seen"
    using seen_empty by (cases v) (auto simp: scan_inv_def)
  from 3(2) [OF ok(2) this, of ctx rest] obtain l2 inner2 where
    i: "scan_inv fn (length ((pre @ v) @ parts_value fn ts)) l2 inner2" and
    e: "substitute fn ctx ((pre @ v) @ parts_text ts @ rest) (length (pre @ v)) (length pre + 1) seen None =
     substitute fn ctx ((pre @ v) @ parts_value fn ts @ rest) (length ((pre @ v) @ parts_value fn ts)) l2 inner2 None" by blast
  have "substitute fn ctx (pre @ parts_text (PVar ns # ts) @ rest) (length pre) l inner None =
      substitute fn ctx (pre @ parts_value fn (PVar ns # ts) @ rest) (length (pre @ parts_value fn (PVar ns # ts))) l2 inner2 None"
    using opened sub_plain [OF vplain, of fn ctx pre after "length pre + 1" seen] e l'
    by (simp add: after_def v_def name_def)
  with i show ?case by (auto simp: v_def name_def)
qed

text \<open>
  C30: When the values of the variables contain no variables themselves, the substitution returns, and replaces every variable of
  the template, also those whose names are built from other variables, by its value.
\<close>

theorem var_sub_template:
  assumes "\<And>n. list_all plain (fn n)" "parts_ok ts"
  shows "var_sub fn (parts_text ts) = Some (parts_value fn ts)"
proof -
  have "scan_inv fn (length []) 0 []" by (simp add: scan_inv_def)
  from sub_parts [OF assms(1,2) this, of None "[]"] obtain l inner where
    "substitute fn None (parts_text ts) 0 0 [] None =
     substitute fn None (parts_value fn ts) (length (parts_value fn ts)) l inner None" by auto
  thus ?thesis by (simp add: var_sub_def sub_end)
qed

definition demo_fn :: "string \<Rightarrow> string" where
  "demo_fn name = (if name = ''b'' then ''c'' else if name = ''ac'' then ''9'' else [])"

theorem var_sub_template_witness: "var_sub demo_fn ''<${a${b}}>'' = Some ''<9>''"
proof -
  have "list_all plain (demo_fn n)" for n by (simp add: demo_fn_def plain_def)
  from var_sub_template [of demo_fn, OF this, of "[PLit CHR ''<'', PVar [PLit CHR ''a'', PVar [PLit CHR ''b'']], PLit CHR ''>'']"]
  show ?thesis by (simp add: plain_def demo_fn_def)
qed

subsection \<open>Escapes and endless substitution\<close>

text \<open>
  A backslash is removed and the character after it kept, but the character after that is not looked at: a variable there is not
  substituted.
\<close>

lemma sub_escape:
  "substitute fn ctx (pre @ CHR 0x5C # c # rest) (length pre) l inner None =
   substitute fn ctx (pre @ c # rest) (length pre + 2) l inner None"
proof -
  have "substitute fn ctx (pre @ CHR 0x5C # c # rest) (length pre) l inner None =
      substitute fn ctx (pre @ CHR 0x5C # c # rest) (length pre + 1) l inner (Some (CHR 0x5C))"
    by (subst substitute.simps) (simp add: scan_state_def)
  also have "\<dots> = substitute fn ctx (pre @ c # rest) (length pre + 2) l inner None"
    by (subst substitute.simps) (simp add: erase_at_def)
  finally show ?thesis .
qed

lemma var_sub_escape_skips:
  "var_sub (\<lambda>_. ''1'') (CHR 0x5C # ''a${b}'') = Some ''a${b}''"
  using sub_escape [of "\<lambda>_. ''1''" None "[]" "CHR ''a''" "''${b}''" 0 "[]"]
  by (simp add: var_sub_def substitute.simps scan_state_def)

text \<open>The strings that the value \<open>x${a}\<close> of \<open>a\<close> leads through.\<close>

definition grow :: "string \<Rightarrow> string" where
  "grow name = ''x${a}''"

definition growing :: "nat \<Rightarrow> string" where
  "growing n = replicate n (CHR ''x'') @ ''${a}''"

definition grow_at :: "(string \<Rightarrow> string) \<Rightarrow> (nat \<times> string list) option \<Rightarrow> string \<Rightarrow> nat \<Rightarrow> nat \<Rightarrow> char option \<Rightarrow> bool" where
  "grow_at fn ctx s j l state \<longleftrightarrow> fn = grow \<and> ctx = None \<and>
     (\<exists>n. s = growing n \<and> l \<le> n \<and> (j \<le> n \<and> state = None \<or> j = n + 1 \<and> state = Some (CHR ''$'')))"

lemma growing_inner:
  "substitute grow (Some (n, [])) (growing n) (n + 2) 0 [] None = Some (True, growing (n + 1), [''a''])"
proof -
  have pl: "plain CHR ''a''" by (simp add: plain_def)
  have "replicate n (CHR ''x'') @ ''x${a}'' = growing (n + 1)" by (simp add: growing_def replicate_append_same [symmetric])
  with sub_plain1 [OF pl, of grow "Some (n, [])" "replicate n (CHR ''x'') @ ''${''" "''}''" 0 "[]"]
    sub_close [of grow "replicate n (CHR ''x'')" "[]" "''a''" "[]" 0 "[]"]
  show ?thesis by (simp add: growing_def grow_def)
qed

lemma growing_nth:
  "j < n \<Longrightarrow> growing n ! j = CHR ''x''" "growing n ! n = CHR ''$''" "growing n ! (n + 1) = CHR ''{''" "length (growing n) = n + 4"
  by (simp_all add: growing_def nth_append)

lemma substitute_grow:
  "substitute fn ctx s j l inner state = Some r \<Longrightarrow> \<not> grow_at fn ctx s j l state"
proof -
  assume ret: "substitute fn ctx s j l inner state = Some r"
  have "substitute fn ctx s j l inner state = Some r \<and> \<not> grow_at fn ctx s j l state"
  proof (rule substitute.raw_induct [where P = "\<lambda>fn ctx s j l inner state r.
      substitute fn ctx s j l inner state = Some r \<and> \<not> grow_at fn ctx s j l state", OF _ ret])
    fix f fn ctx s j l inner state r
    assume IH: "\<And>fn ctx s j l inner state r. f fn ctx s j l inner state = Some r \<Longrightarrow>
        substitute fn ctx s j l inner state = Some r \<and> \<not> grow_at fn ctx s j l state"
      and eq: "(if j \<ge> length s then Some (False, s, (case ctx of None \<Rightarrow> [] | Some (i, outer) \<Rightarrow> outer))
      else if state = Some (CHR 0x5C) then f fn ctx (erase_at (j - 1) 1 s) (j + 1) l inner None
      else if state = Some (CHR ''$'') \<and> s ! j = CHR ''{'' then
        Option.bind (f fn (Some (j - 1, if j > l then [] else inner)) s (j + 1) 0 [] None)
          (\<lambda>(found, s1, inner1).
             if found then f fn ctx s1 (j - 1) (if j > l then j else l) inner1 None
             else Some (False, s1, (case ctx of None \<Rightarrow> [] | Some (i, outer) \<Rightarrow> outer)))
      else if s ! j = CHR ''}'' \<and> ctx \<noteq> None then
        (case the ctx of (i, outer) \<Rightarrow> Some (True, close_brace fn i outer j s))
      else f fn ctx s (j + 1) l inner (scan_state (s ! j))) = Some r"
    have "substitute fn ctx s j l inner state = Some r"
      using eq IH by (subst substitute.simps) (auto split: if_splits option.splits prod.splits bind_splits)
    moreover have "\<not> grow_at fn ctx s j l state"
    proof
      assume "grow_at fn ctx s j l state"
      then obtain n where g: "fn = grow" "ctx = None" "s = growing n" "l \<le> n"
          "j \<le> n \<and> state = None \<or> j = n + 1 \<and> state = Some (CHR ''$'')"
        by (auto simp: grow_at_def)
      show False
      proof (cases "state = None")
        case True
        with eq g have "f grow None s (j + 1) l inner (scan_state (s ! j)) = Some r"
          by (auto simp: growing_nth split: if_splits)
        from IH [OF this] g True show False
          by (cases "j = n") (auto simp: growing_nth grow_at_def scan_state_def)
      next
        case False
        with eq g obtain q where "f grow (Some (n, [])) s (n + 2) 0 [] None = Some q"
            "(case q of (found, s1, inner1) \<Rightarrow> if found then f grow None s1 n (n + 1) inner1 None
              else Some (False, s1, [])) = Some r"
          using growing_nth(3) [of n] by (auto simp: growing_nth split: if_splits bind_splits)
        moreover from IH [OF this(1)] growing_inner [of n] g(3) have "q = (True, growing (n + 1), [''a''])" by simp
        ultimately have "f grow None (growing (n + 1)) n (n + 1) [''a''] None = Some r" by simp
        from IH [OF this] show False by (auto simp: grow_at_def)
      qed
    qed
    ultimately show "substitute fn ctx s j l inner state = Some r \<and> \<not> grow_at fn ctx s j l state" ..
  qed
  thus ?thesis ..
qed

text \<open>
  The check for loops only sees a name that comes back at the very same position: a variable whose value contains the variable
  after other text makes the substitution run forever.
\<close>

theorem var_sub_runs_forever: "var_sub grow ''${a}'' = None"
proof -
  have "grow_at grow None ''${a}'' 0 0 None" by (auto simp: grow_at_def growing_def intro: exI [of _ 0])
  then have "substitute grow None ''${a}'' 0 0 [] None = None"
    using substitute_grow by (cases "substitute grow None ''${a}'' 0 0 [] None") blast+
  thus ?thesis by (simp add: var_sub_def)
qed

end
