(* ===== verification/Configs.thy ===== *)
theory Configs
  imports VarSubs
begin

text \<open>
  Configuration files: \<open>util/Config.hpp\<close> and \<open>util/Config.cpp\<close>. The pointer from a configuration to its parent is an address in a store,
  so that what it points to after moves and destruction can be said. An exception is the left value of a sum.
\<close>

subsection \<open>Input streams\<close>

text \<open>What the code uses of \<open>std::istream\<close>: the text left, \<open>eofbit\<close> and \<open>failbit\<close>.\<close>

record stream =
  is_text :: string
  is_eof :: bool
  is_fail :: bool

definition is_open :: "string \<Rightarrow> stream" where
  "is_open t = \<lparr>is_text = t, is_eof = False, is_fail = False\<rparr>"

definition getline :: "stream \<Rightarrow> string \<times> stream" where
  "getline st =
     (if is_eof st \<or> is_fail st then ([], st\<lparr>is_fail := True\<rparr>)
      else case find_first (\<lambda>c. c = CHR 0x0A) (is_text st) of
          Some k \<Rightarrow> (take k (is_text st), st\<lparr>is_text := drop (k + 1) (is_text st)\<rparr>)
        | None \<Rightarrow> (is_text st, st\<lparr>is_text := [], is_eof := True, is_fail := is_text st = []\<rparr>))"

lemma getline_shorter:
  assumes "getline st = (line, st1)" "\<not> is_fail st1"
  shows "length (is_text st1) + (if is_eof st1 then 0 else 1) < length (is_text st) + (if is_eof st then 0 else 1)"
proof (cases "find_first (\<lambda>c. c = CHR 0x0A) (is_text st)")
  case None
  with assms show ?thesis by (cases "is_text st") (auto simp: getline_def split: if_splits)
next
  case (Some k)
  hence "k < length (is_text st)" unfolding find_first_Some by simp
  with assms Some show ?thesis by (auto simp: getline_def split: if_splits)
qed

subsection \<open>Sections\<close>

text \<open>
  \<open>parse_section\<close> with the function it passes the pairs to, which threads a state and need not return. The result has the name of the next section.
\<close>

function parse_section :: "(string \<Rightarrow> string \<Rightarrow> 's \<Rightarrow> 's option) \<Rightarrow> stream \<Rightarrow> 's \<Rightarrow> (stream \<times> string \<times> 's) option" where
  "parse_section fn st x =
     (case getline st of (l, st1) \<Rightarrow>
        if is_fail st1 then Some (st1, [], x)
        else
          let line = trim l in
          if line = [] \<or> hd line = CHR ''#'' then parse_section fn st1 x
          else if hd line = CHR ''['' \<and> last line = CHR '']'' then Some (st1, trim (take (length line - 2) (drop 1 line)), x)
          else case split_pair line CHR ''='' of (key, val) \<Rightarrow>
            (case fn (rtrim key) (ltrim val) x of None \<Rightarrow> None | Some y \<Rightarrow> parse_section fn st1 y))"
  by pat_completeness auto
termination
  by (relation "measure (\<lambda>(fn, st, x). length (is_text st) + (if is_eof st then 0 else 1))")
    (auto dest: getline_shorter [OF sym])

declare parse_section.simps [simp del]

subsection \<open>Config\<close>

text \<open>\<open>cf_map\<close> has one entry for each key; the order of the keys of the \<open>flat_map\<close> cannot be observed.\<close>

record config =
  cf_map :: "(string \<times> string) list"
  cf_parent :: "nat option"

datatype config_error = MissingKey string | DanglingParent

definition cf_new :: config where
  "cf_new = \<lparr>cf_map = [], cf_parent = None\<rparr>"

definition map_emplace :: "'k \<Rightarrow> 'v \<Rightarrow> ('k \<times> 'v) list \<Rightarrow> ('k \<times> 'v) list" where
  "map_emplace k v m = (if map_of m k = None then m @ [(k, v)] else m)"

definition cf_set :: "string \<Rightarrow> string \<Rightarrow> config \<Rightarrow> config" where
  "cf_set key val c = c\<lparr>cf_map := map_emplace key val (cf_map c)\<rparr>"

definition cf_set_parent :: "nat \<Rightarrow> config \<Rightarrow> config" where
  "cf_set_parent a c = c\<lparr>cf_parent := Some a\<rparr>"

definition cf_size :: "config \<Rightarrow> nat" where "cf_size c = length (cf_map c)"
definition cf_clear :: "config \<Rightarrow> config" where "cf_clear c = c\<lparr>cf_map := []\<rparr>"

text \<open>
  \<open>get\<close>, with the objects at their addresses; a chain of parents that comes back to itself is followed forever. \<open>get\<close> with a default
  gives the default where this one throws.
\<close>

partial_function (option) cf_get :: "(nat \<rightharpoonup> config) \<Rightarrow> config \<Rightarrow> string \<Rightarrow> (config_error + string) option" where
  "cf_get store c key =
     (case map_of (cf_map c) key of
        Some val \<Rightarrow> Some (Inr val)
      | None \<Rightarrow> (case cf_parent c of
          None \<Rightarrow> Some (Inl (MissingKey key))
        | Some a \<Rightarrow> (case store a of None \<Rightarrow> Some (Inl DanglingParent) | Some p \<Rightarrow> cf_get store p key)))"

partial_function (option) cf_get_dfl :: "(nat \<rightharpoonup> config) \<Rightarrow> config \<Rightarrow> string \<Rightarrow> string option \<Rightarrow> (config_error + string option) option" where
  "cf_get_dfl store c key dfl =
     (case map_of (cf_map c) key of
        Some val \<Rightarrow> Some (Inr (Some val))
      | None \<Rightarrow> (case cf_parent c of
          None \<Rightarrow> Some (Inr dfl)
        | Some a \<Rightarrow> (case store a of None \<Rightarrow> Some (Inl DanglingParent) | Some p \<Rightarrow> cf_get_dfl store p key dfl)))"

text \<open>\<open>read_section\<close>; \<open>env\<close> is the environment that \<open>VarSub\<close> takes the values from.\<close>

definition read_pair :: "(string \<Rightarrow> string option) \<Rightarrow> string \<Rightarrow> string \<Rightarrow> config \<Rightarrow> config option" where
  "read_pair env key val c = (case var_sub (get_env env) val of None \<Rightarrow> None | Some v \<Rightarrow> Some (cf_set key v c))"

definition read_section :: "(string \<Rightarrow> string option) \<Rightarrow> stream \<Rightarrow> config \<Rightarrow> (stream \<times> string \<times> config) option" where
  "read_section env st c = parse_section (read_pair env) st c"

subsection \<open>MultiConfig\<close>

text \<open>\<open>mc_addr\<close> is the address of the member \<open>root_\<close>, which the sections point to.\<close>

record multi_config =
  mc_addr :: nat
  mc_map :: "(string \<times> config) list"

definition mc_new :: "nat \<Rightarrow> (nat \<rightharpoonup> config) \<Rightarrow> (nat \<rightharpoonup> config) \<times> multi_config" where
  "mc_new a store = (store(a \<mapsto> cf_new), \<lparr>mc_addr = a, mc_map = []\<rparr>)"

definition mc_root :: "(nat \<rightharpoonup> config) \<Rightarrow> multi_config \<Rightarrow> config" where
  "mc_root store mc = (case store (mc_addr mc) of Some c \<Rightarrow> c | None \<Rightarrow> cf_new)"

definition mc_clear :: "(nat \<rightharpoonup> config) \<Rightarrow> multi_config \<Rightarrow> (nat \<rightharpoonup> config) \<times> multi_config" where
  "mc_clear store mc = (store(mc_addr mc \<mapsto> cf_clear (mc_root store mc)), mc\<lparr>mc_map := []\<rparr>)"

text \<open>The loop over the named sections. It returns because a section that is read without reaching the end consumes its last line.\<close>

partial_function (option) mc_sections ::
  "(string \<Rightarrow> string option) \<Rightarrow> nat \<Rightarrow> stream \<Rightarrow> string \<Rightarrow> (string \<times> config) list \<Rightarrow> (stream \<times> (string \<times> config) list) option" where
  "mc_sections env a st name m =
     (case read_section env st (cf_set_parent a cf_new) of
        None \<Rightarrow> None
      | Some (st1, next_name, c) \<Rightarrow>
          let m1 = map_emplace name c m in
          if \<not> is_eof st1 then mc_sections env a st1 next_name m1 else Some (st1, m1))"

definition mc_read :: "(string \<Rightarrow> string option) \<Rightarrow> stream \<Rightarrow> (nat \<rightharpoonup> config) \<Rightarrow> multi_config
    \<Rightarrow> (stream \<times> (nat \<rightharpoonup> config) \<times> multi_config) option" where
  "mc_read env st store mc =
     (case read_section env st (mc_root store mc) of
        None \<Rightarrow> None
      | Some (st1, name, root) \<Rightarrow>
          let store1 = store(mc_addr mc \<mapsto> root) in
          if is_eof st1 then Some (st1, store1, mc)
          else map_option (\<lambda>(st2, m). (st2, store1, mc\<lparr>mc_map := m\<rparr>)) (mc_sections env (mc_addr mc) st1 name (mc_map mc)))"

definition mc_section :: "(nat \<rightharpoonup> config) \<Rightarrow> multi_config \<Rightarrow> string \<Rightarrow> config" where
  "mc_section store mc name = (case map_of (mc_map mc) name of Some c \<Rightarrow> c | None \<Rightarrow> mc_root store mc)"

text \<open>
  The move constructor moves both members to an object at address \<open>b\<close>; the sections still have the address of the old root, which is
  left empty. The destructor ends the life of the root.
\<close>

definition mc_move :: "nat \<Rightarrow> (nat \<rightharpoonup> config) \<Rightarrow> multi_config \<Rightarrow> (nat \<rightharpoonup> config) \<times> multi_config" where
  "mc_move b store mc =
     (store(b \<mapsto> mc_root store mc, mc_addr mc \<mapsto> (mc_root store mc)\<lparr>cf_map := []\<rparr>), mc\<lparr>mc_addr := b\<rparr>)"

definition mc_destroy :: "(nat \<rightharpoonup> config) \<Rightarrow> multi_config \<Rightarrow> (nat \<rightharpoonup> config)" where
  "mc_destroy store mc = store(mc_addr mc := None)"

subsection \<open>What the lines of a file mean\<close>

definition skip_line :: "string \<Rightarrow> bool" where
  "skip_line l \<longleftrightarrow> trim l = [] \<or> hd (trim l) = CHR ''#''"

definition header_line :: "string \<Rightarrow> bool" where
  "header_line l \<longleftrightarrow> trim l \<noteq> [] \<and> hd (trim l) = CHR ''['' \<and> last (trim l) = CHR '']''"

definition header_name :: "string \<Rightarrow> string" where
  "header_name l = trim (take (length (trim l) - 2) (drop 1 (trim l)))"

text \<open>The key is what stands before the first equals sign and the value what stands after it, both without the space around them.\<close>

definition line_pairs :: "string \<Rightarrow> (string \<times> string) list" where
  "line_pairs l = (if skip_line l then [] else case split_pair l CHR ''='' of (k, v) \<Rightarrow> [(trim k, trim v)])"

fun fold_pairs :: "(string \<Rightarrow> string \<Rightarrow> 's \<Rightarrow> 's option) \<Rightarrow> (string \<times> string) list \<Rightarrow> 's \<Rightarrow> 's option" where
  "fold_pairs fn [] x = Some x"
| "fold_pairs fn ((k, v) # ps) x = (case fn k v x of None \<Rightarrow> None | Some y \<Rightarrow> fold_pairs fn ps y)"

abbreviation nl :: char where "nl \<equiv> CHR 0x0A"

definition lines_text :: "string list \<Rightarrow> string" where
  "lines_text ls = concat (map (\<lambda>l. l @ [nl]) ls)"

definition body_line :: "string \<Rightarrow> bool" where
  "body_line l \<longleftrightarrow> nl \<notin> set l \<and> \<not> header_line l"

lemma ltrim_rtrim: "ltrim (rtrim s) = rtrim (ltrim s)"
proof -
  let ?P = "\<lambda>c. c \<in> set Space"
  show ?thesis
  proof (cases "\<forall>c \<in> set s. ?P c")
    case True
    hence d: "dropWhile ?P s = []" "dropWhile ?P (rev s) = []" by simp_all
    show ?thesis unfolding ltrim_eq rtrim_eq d by simp
  next
    case False
    then obtain c where c: "c \<in> set s" "\<not> ?P c" by blast
    from split_list [OF c(1)] obtain xs ys where s: "s = xs @ c # ys" by blast
    have "dropWhile ?P (xs @ c # zs) = dropWhile ?P xs @ c # zs" for xs zs
      using c(2) by (induction xs) auto
    thus ?thesis by (simp add: ltrim_eq rtrim_eq s)
  qed
qed

lemma trim_around:
  assumes "c \<notin> set Space"
  shows "trim (a @ c # b) = ltrim a @ c # rtrim b"
proof -
  have d: "dropWhile (\<lambda>c. c \<in> set Space) (xs @ c # zs) = dropWhile (\<lambda>c. c \<in> set Space) xs @ c # zs" for xs zs
    using assms by (induction xs) auto
  show ?thesis by (simp add: trim_def ltrim_eq rtrim_eq d)
qed

lemma trim_set: "set (trim s) \<subseteq> set s"
  by (auto simp: trim_def ltrim_eq rtrim_eq dest!: set_dropWhileD)

lemma split_pair_trim:
  "map_prod rtrim ltrim (split_pair (trim s) CHR ''='') = map_prod trim trim (split_pair s CHR ''='')"
proof (cases "CHR ''='' \<in> set s")
  case True
  then obtain a b where s: "s = a @ CHR ''='' # b" "CHR ''='' \<notin> set a" using split_list_first by metis
  have "set (ltrim a) \<subseteq> set a" by (auto simp: ltrim_eq dest: set_dropWhileD)
  with s(2) have "CHR ''='' \<notin> set (ltrim a)" by blast
  moreover have "CHR ''='' \<notin> set Space" by (simp add: Space_def)
  moreover have "trim a = rtrim (ltrim a)" "trim b = ltrim (rtrim b)" by (simp_all add: trim_def ltrim_rtrim)
  ultimately show ?thesis
    by (simp add: s(1) trim_around split_pair_join s(2))
next
  case False
  with trim_set [of s] have "CHR ''='' \<notin> set (trim s)" by blast
  moreover have "rtrim (trim s) = trim s" by (simp add: trim_def rtrim_eq dropWhile_idem)
  moreover have "trim [] = []" "ltrim [] = []" by (simp_all add: trim_def ltrim_eq rtrim_eq)
  ultimately show ?thesis by (simp add: split_pair_none False)
qed

lemma is_open_simps [simp]: "is_text (is_open t) = t" "\<not> is_eof (is_open t)" "\<not> is_fail (is_open t)"
  by (simp_all add: is_open_def)

lemma getline_line:
  "nl \<notin> set l \<Longrightarrow> getline (is_open (l @ nl # rest)) = (l, is_open rest)"
proof -
  assume "nl \<notin> set l"
  hence "find_first (\<lambda>c. c = nl) (l @ nl # rest) = Some (length l)"
    unfolding find_first_Some by auto
  thus ?thesis by (simp add: getline_def is_open_def)
qed

lemma parse_line1:
  assumes "body_line l"
  shows "parse_section fn (is_open (l @ nl # rest)) x =
    (case fold_pairs fn (line_pairs l) x of None \<Rightarrow> None | Some y \<Rightarrow> parse_section fn (is_open rest) y)"
proof -
  from assms have l: "nl \<notin> set l" "\<not> header_line l" by (auto simp: body_line_def)
  obtain k v where s: "split_pair (trim l) CHR ''='' = (k, v)" by (cases "split_pair (trim l) CHR ''=''")
  obtain k' v' where s': "split_pair l CHR ''='' = (k', v')" by (cases "split_pair l CHR ''=''")
  from split_pair_trim [of l] s s' have "rtrim k = trim k'" "ltrim v = trim v'" by simp_all
  with l s s' show ?thesis
    by (subst parse_section.simps)
      (auto simp: getline_line line_pairs_def skip_line_def header_line_def Let_def split: option.splits)
qed

lemma parse_lines:
  "list_all body_line ls \<Longrightarrow> parse_section fn (is_open (lines_text ls @ rest)) x =
    (case fold_pairs fn (concat (map line_pairs ls)) x of None \<Rightarrow> None | Some y \<Rightarrow> parse_section fn (is_open rest) y)"
proof (induction ls arbitrary: x)
  case (Cons l ls)
  have f: "fold_pairs fn (ps @ qs) x = (case fold_pairs fn ps x of None \<Rightarrow> None | Some y \<Rightarrow> fold_pairs fn qs y)" for ps qs x
    by (induction fn ps x rule: fold_pairs.induct) (auto split: option.splits)
  from Cons.prems have "body_line l" "list_all body_line ls" by auto
  with Cons.IH show ?case
    using parse_line1 [of l fn "lines_text ls @ rest" x] by (auto simp: lines_text_def f split: option.splits)
qed (simp add: lines_text_def)

lemma parse_end: "parse_section fn (is_open []) x = Some (\<lparr>is_text = [], is_eof = True, is_fail = True\<rparr>, [], x)"
  by (subst parse_section.simps) (simp add: getline_def is_open_def)

lemma parse_header:
  assumes "nl \<notin> set h" "header_line h"
  shows "parse_section fn (is_open (h @ nl # rest)) x = Some (is_open rest, header_name h, x)"
  using assms
  by (subst parse_section.simps) (auto simp: getline_line header_line_def header_name_def Let_def)

text \<open>
  A section of a file is read line by line up to the next header, whose name is returned with the rest of the file: blank lines and
  comments are left out, and every other line gives a key and a value, in order, split at its first equals sign and trimmed.
\<close>

theorem parse_section_lines:
  assumes "list_all body_line ls" "nl \<notin> set h" "header_line h"
  shows "parse_section fn (is_open (lines_text ls @ h @ nl # rest)) x =
    map_option (\<lambda>y. (is_open rest, header_name h, y)) (fold_pairs fn (concat (map line_pairs ls)) x)"
  by (simp add: parse_lines [OF assms(1)] parse_header [OF assms(2,3)] split: option.splits)

theorem parse_section_lines_witness:
  "parse_section (\<lambda>k v c. Some ((k, v) # c)) (is_open (lines_text [''# x'', '' a = b = c ''] @ '' [ s ]'' @ nl # ''d'')) [] =
   Some (is_open ''d'', ''s'', [(''a'', ''b = c'')])"
proof -
  have "list_all body_line [''# x'', '' a = b = c '']" "nl \<notin> set '' [ s ]''" "header_line '' [ s ]''" by code_simp+
  note parse_section_lines [OF this, of "\<lambda>k v c. Some ((k, v) # c)" "''d''" "[]"]
  moreover have "header_name '' [ s ]'' = ''s''" "concat (map line_pairs [''# x'', '' a = b = c '']) = [(''a'', ''b = c'')]" by code_simp+
  ultimately show ?thesis by simp
qed

subsection \<open>Whole files\<close>

lemma map_emplace_of: "map_of (map_emplace k v m) = map_of (m @ [(k, v)])"
  by (rule ext) (auto simp: map_emplace_def map_add_def split: option.splits)

fun emplace_all :: "('k \<times> 'v) list \<Rightarrow> ('k \<times> 'v) list \<Rightarrow> ('k \<times> 'v) list" where
  "emplace_all [] m = m"
| "emplace_all ((k, v) # ps) m = emplace_all ps (map_emplace k v m)"

lemma emplace_all_of: "map_of (emplace_all ps m) = map_of (m @ ps)"
proof (induction ps m rule: emplace_all.induct)
  case (2 k v ps m)
  have "map_of (map_emplace k v m @ ps) = map_of (m @ (k, v) # ps)"
    by (simp only: map_of_append map_emplace_of) simp
  with 2 show ?case by simp
qed simp

text \<open>The pairs of some lines, with the variables in the values substituted.\<close>

definition lines_map :: "(string \<Rightarrow> string) \<Rightarrow> string list \<Rightarrow> (string \<times> string) list" where
  "lines_map sub ls = map (\<lambda>(k, v). (k, sub v)) (concat (map line_pairs ls))"

text \<open>Whether the substitution of every value returns; it need not, see \<open>var_sub_runs_forever\<close>.\<close>

definition env_sub :: "(string \<Rightarrow> string option) \<Rightarrow> string \<Rightarrow> string" where
  "env_sub env v = the (var_sub (get_env env) v)"

definition subs_return :: "(string \<Rightarrow> string option) \<Rightarrow> string list \<Rightarrow> bool" where
  "subs_return env ls \<longleftrightarrow> list_all (\<lambda>(k, v). var_sub (get_env env) v \<noteq> None) (concat (map line_pairs ls))"

lemma subs_return_append [simp]: "subs_return env (ls @ ls') \<longleftrightarrow> subs_return env ls \<and> subs_return env ls'"
  by (simp add: subs_return_def)

lemma fold_read_pairs:
  "fold_pairs (read_pair env) ps c =
    (if list_all (\<lambda>(k, v). var_sub (get_env env) v \<noteq> None) ps
     then Some (c\<lparr>cf_map := emplace_all (map (\<lambda>(k, v). (k, env_sub env v)) ps) (cf_map c)\<rparr>) else None)"
proof (induction ps arbitrary: c)
  case (Cons p ps)
  then show ?case by (cases p) (auto simp: read_pair_def cf_set_def env_sub_def split: option.splits)
qed simp

definition read_lines :: "(string \<Rightarrow> string option) \<Rightarrow> string list \<Rightarrow> config \<Rightarrow> config" where
  "read_lines env ls c = c\<lparr>cf_map := emplace_all (lines_map (env_sub env) ls) (cf_map c)\<rparr>"

lemma fold_read_lines:
  "fold_pairs (read_pair env) (concat (map line_pairs ls)) c = (if subs_return env ls then Some (read_lines env ls c) else None)"
  by (simp add: fold_read_pairs subs_return_def read_lines_def lines_map_def)

text \<open>
  A file as the lines before the first header and the named sections. A last line that has no newline counts, unless it is a header: the end of
  the stream has been seen by then, and no section is read after it.
\<close>

fun split_lines :: "string \<Rightarrow> string list \<times> string" where
  "split_lines [] = ([], [])"
| "split_lines (c # cs) = (case split_lines cs of (ls, ending) \<Rightarrow>
     if c = nl then ([] # ls, ending) else case ls of [] \<Rightarrow> ([], c # ending) | l # ls1 \<Rightarrow> ((c # l) # ls1, ending))"

fun group_lines :: "string list \<Rightarrow> string list \<times> (string \<times> string list) list" where
  "group_lines [] = ([], [])"
| "group_lines (l # ls) = (case group_lines ls of (body, ss) \<Rightarrow> if header_line l then ([], (l, body) # ss) else (l # body, ss))"

definition tail_lines :: "string \<Rightarrow> string list" where
  "tail_lines ending = (if ending = [] \<or> header_line ending then [] else [ending])"

definition file_parts :: "string \<Rightarrow> string list \<times> (string \<times> string list) list" where
  "file_parts t = (case split_lines t of (ls, ending) \<Rightarrow> group_lines (ls @ tail_lines ending))"

fun sections_text :: "(string \<times> string list) list \<Rightarrow> string" where
  "sections_text [] = []"
| "sections_text ((h, ls) # ss) = h @ nl # lines_text ls @ sections_text ss"

fun add_tail :: "string list \<Rightarrow> string list \<times> (string \<times> string list) list \<Rightarrow> string list \<times> (string \<times> string list) list" where
  "add_tail tls (ls, []) = (ls @ tls, [])"
| "add_tail tls (ls, (h, hs) # ss) = (ls, (case add_tail tls (hs, ss) of (hs1, ss1) \<Rightarrow> (h, hs1) # ss1))"

lemma split_lines_text:
  "split_lines t = (ls, ending) \<Longrightarrow> t = lines_text ls @ ending \<and> nl \<notin> set ending \<and> list_all (\<lambda>l. nl \<notin> set l) ls"
  by (induction t arbitrary: ls ending) (auto simp: lines_text_def split: prod.splits if_splits list.splits)

definition section_ok :: "string \<times> string list \<Rightarrow> bool" where
  "section_ok s \<longleftrightarrow> nl \<notin> set (fst s) \<and> header_line (fst s) \<and> list_all body_line (snd s)"

lemma group_lines_text:
  "\<lbrakk>group_lines ls = (b, ss); list_all (\<lambda>l. nl \<notin> set l) ls\<rbrakk> \<Longrightarrow>
   lines_text ls = lines_text b @ sections_text ss \<and> list_all body_line b \<and> list_all section_ok ss"
  by (induction ls arbitrary: b ss) (auto simp: lines_text_def body_line_def section_ok_def split: prod.splits if_splits)

lemma group_lines_tail: "group_lines (ls @ tail_lines ending) = add_tail (tail_lines ending) (group_lines ls)"
proof (induction ls)
  case Nil
  then show ?case by (simp add: tail_lines_def)
next
  case (Cons l ls)
  obtain b ss where g: "group_lines ls = (b, ss)" by (cases "group_lines ls")
  show ?case
  proof (cases "header_line l")
    case True
    then show ?thesis using Cons g by (auto split: prod.splits)
  next
    case False
    then show ?thesis using Cons g by (cases ss) (auto split: prod.splits)
  qed
qed

lemma parse_tail:
  assumes "nl \<notin> set ending"
  shows "\<exists>st nm. is_eof st \<and> parse_section fn (is_open ending) x = map_option (\<lambda>y. (st, nm, y)) (fold_pairs fn (concat (map line_pairs (tail_lines ending))) x)"
proof -
  have ff: "find_first (\<lambda>c. c = nl) ending = None" using assms by (auto simp: find_first_None)
  let ?e = "\<lparr>is_text = [], is_eof = True, is_fail = False\<rparr>"
  have g: "getline (is_open ending) = (ending, \<lparr>is_text = [], is_eof = True, is_fail = ending = []\<rparr>)" using ff by (simp add: getline_def is_open_def)
  have e: "parse_section fn ?e y = Some (\<lparr>is_text = [], is_eof = True, is_fail = True\<rparr>, [], y)" for y
    by (subst parse_section.simps) (simp add: getline_def)
  consider "ending = []" | "ending \<noteq> []" "header_line ending" | "ending \<noteq> []" "\<not> header_line ending" by blast
  then show ?thesis
  proof cases
    case 1
    then show ?thesis using parse_end [of fn x] by (auto simp: tail_lines_def)
  next
    case 2
    then have "parse_section fn (is_open ending) x = Some (?e, header_name ending, x)"
      by (subst parse_section.simps) (auto simp: g header_line_def header_name_def Let_def)
    with 2 show ?thesis by (auto simp: tail_lines_def)
  next
    case 3
    obtain k v where s: "split_pair (trim ending) CHR ''='' = (k, v)" by (cases "split_pair (trim ending) CHR ''=''")
    obtain k' v' where s': "split_pair ending CHR ''='' = (k', v')" by (cases "split_pair ending CHR ''=''")
    from split_pair_trim [of ending] s s' have "rtrim k = trim k'" "ltrim v = trim v'" by simp_all
    with 3 s s' have "parse_section fn (is_open ending) x =
        map_option (\<lambda>y. (\<lparr>is_text = [], is_eof = True, is_fail = True\<rparr>, [], y)) (fold_pairs fn (line_pairs ending) x)"
      by (subst parse_section.simps) (auto simp: g e line_pairs_def skip_line_def header_line_def Let_def split: option.splits)
    with 3 show ?thesis
      by (intro exI [of _ "\<lparr>is_text = [], is_eof = True, is_fail = True\<rparr>"] exI [of _ "[]"]) (simp add: tail_lines_def)
  qed
qed

lemma read_lines_append: "read_lines env (ls @ ls') c = read_lines env ls' (read_lines env ls c)"
proof -
  have "emplace_all (ps @ qs) m = emplace_all qs (emplace_all ps m)" for ps qs and m :: "(string \<times> string) list"
    by (induction ps m rule: emplace_all.induct) simp_all
  then show ?thesis by (simp add: read_lines_def lines_map_def)
qed

lemma read_section_lines:
  assumes "list_all body_line ls"
  shows "read_section env (is_open (lines_text ls @ rest)) c =
    (if subs_return env ls then parse_section (read_pair env) (is_open rest) (read_lines env ls c) else None)"
  by (simp add: read_section_def parse_lines [OF assms] fold_read_lines)

lemma read_section_text:
  assumes "list_all body_line ls"
  shows "nl \<notin> set ending \<Longrightarrow> \<exists>st nm. is_eof st \<and> read_section env (is_open (lines_text ls @ ending)) c =
      (if subs_return env (ls @ tail_lines ending) then Some (st, nm, read_lines env (ls @ tail_lines ending) c) else None)"
    and "\<lbrakk>nl \<notin> set h; header_line h\<rbrakk> \<Longrightarrow> read_section env (is_open (lines_text ls @ h @ nl # rest)) c =
      (if subs_return env ls then Some (is_open rest, header_name h, read_lines env ls c) else None)"
proof -
  assume t: "nl \<notin> set ending"
  obtain st nm where p: "is_eof st" "parse_section (read_pair env) (is_open ending) (read_lines env ls c) =
      map_option (\<lambda>y. (st, nm, y)) (fold_pairs (read_pair env) (concat (map line_pairs (tail_lines ending))) (read_lines env ls c))"
    using parse_tail [OF t, of "read_pair env" "read_lines env ls c"] by metis
  show "\<exists>st nm. is_eof st \<and> read_section env (is_open (lines_text ls @ ending)) c =
      (if subs_return env (ls @ tail_lines ending) then Some (st, nm, read_lines env (ls @ tail_lines ending) c) else None)"
    unfolding read_section_lines [OF assms] p(2) fold_read_lines read_lines_append subs_return_append
    using p(1) by (intro exI [of _ st] exI [of _ nm]) simp
next
  assume "nl \<notin> set h" "header_line h"
  then show "read_section env (is_open (lines_text ls @ h @ nl # rest)) c =
      (if subs_return env ls then Some (is_open rest, header_name h, read_lines env ls c) else None)"
    by (simp add: read_section_lines [OF assms] parse_header)
qed

definition section_config :: "(string \<Rightarrow> string option) \<Rightarrow> nat \<Rightarrow> string list \<Rightarrow> config" where
  "section_config env a ls = \<lparr>cf_map = emplace_all (lines_map (env_sub env) ls) [], cf_parent = Some a\<rparr>"

definition section_configs :: "(string \<Rightarrow> string option) \<Rightarrow> nat \<Rightarrow> (string \<times> string list) list \<Rightarrow> (string \<times> config) list" where
  "section_configs env a ss = map (\<lambda>(h, ls). (header_name h, section_config env a ls)) ss"

definition all_return :: "(string \<Rightarrow> string option) \<Rightarrow> string list \<times> (string \<times> string list) list \<Rightarrow> bool" where
  "all_return env parts \<longleftrightarrow> subs_return env (fst parts) \<and> list_all (\<lambda>(h, ls). subs_return env ls) (snd parts)"

lemma read_lines_section: "read_lines env ls (cf_set_parent a cf_new) = section_config env a ls"
  by (simp add: read_lines_def section_config_def cf_set_parent_def cf_new_def)

lemma mc_sections_text:
  assumes ending: "nl \<notin> set ending"
  shows "\<lbrakk>list_all body_line ls; list_all section_ok ss; add_tail (tail_lines ending) (ls, ss) = (ls1, ss1)\<rbrakk> \<Longrightarrow>
   \<exists>st. mc_sections env a (is_open (lines_text ls @ sections_text ss @ ending)) name m =
     (if all_return env (ls1, ss1) then Some (st, emplace_all ((name, section_config env a ls1) # section_configs env a ss1) m) else None)"
proof (induction ss arbitrary: ls name m ls1 ss1)
  case Nil
  obtain st nm where "is_eof st" "read_section env (is_open (lines_text ls @ ending)) (cf_set_parent a cf_new) =
      (if subs_return env ls1 then Some (st, nm, section_config env a ls1) else None)"
    using read_section_text(1) [OF Nil(1) ending, of env "cf_set_parent a cf_new"] Nil(3) unfolding read_lines_section by auto
  then show ?case using Nil(3)
    by (intro exI [of _ st], subst mc_sections.simps) (auto simp: all_return_def section_configs_def Let_def)
next
  case (Cons s ss)
  obtain h hs where s: "s = (h, hs)" by (cases s)
  obtain hs1 ss2 where t: "add_tail (tail_lines ending) (hs, ss) = (hs1, ss2)" by fastforce
  then have r: "ls1 = ls" "ss1 = (h, hs1) # ss2" using Cons.prems(3) by (auto simp: s)
  from Cons.prems(2) have h: "nl \<notin> set h" "header_line h" "list_all body_line hs" "list_all section_ok ss" by (simp_all add: s section_ok_def [of "(h, hs)"])
  obtain st where "mc_sections env a (is_open (lines_text hs @ sections_text ss @ ending)) (header_name h) (map_emplace name (section_config env a ls) m) =
      (if all_return env (hs1, ss2) then Some (st, emplace_all ((header_name h, section_config env a hs1) # section_configs env a ss2)
        (map_emplace name (section_config env a ls) m)) else None)"
    using Cons.IH [OF h(3,4) t] by blast
  then show ?case using read_section_text(2) [OF Cons.prems(1) h(1,2), of env "lines_text hs @ sections_text ss @ ending" "cf_set_parent a cf_new"]
    by (intro exI [of _ st], subst mc_sections.simps)
      (auto simp: s r read_lines_section Let_def all_return_def section_configs_def)
qed

text \<open>
  What a file says about a key in a section: the first line of the first section of that name that gives it, or else the first such line
  before the first header.
\<close>

definition file_lookup :: "(string \<times> string) list \<Rightarrow> (string \<times> (string \<times> string) list) list \<Rightarrow> string \<Rightarrow> string \<Rightarrow> config_error + string" where
  "file_lookup root secs name key =
     (let in_root = (case map_of root key of Some v \<Rightarrow> Inr v | None \<Rightarrow> Inl (MissingKey key)) in
      case map_of secs name of
        None \<Rightarrow> in_root
      | Some m \<Rightarrow> (case map_of m key of Some v \<Rightarrow> Inr v | None \<Rightarrow> in_root))"

lemma map_of_configs:
  "map_of (section_configs env a ss) name = map_option (section_config env a) (map_of (map (\<lambda>(h, ls). (header_name h, ls)) ss) name)"
  "map_of (map (\<lambda>(h, ls). (header_name h, lines_map sub ls)) ss) name = map_option (lines_map sub) (map_of (map (\<lambda>(h, ls). (header_name h, ls)) ss) name)"
  by (induction ss) (auto simp: section_configs_def)

lemma cf_get_root: "cf_get store \<lparr>cf_map = r, cf_parent = None\<rparr> key = Some (case map_of r key of Some v \<Rightarrow> Inr v | None \<Rightarrow> Inl (MissingKey key))"
  by (subst cf_get.simps) (simp split: option.splits)

lemma cf_get_section:
  assumes "store a = Some \<lparr>cf_map = r, cf_parent = None\<rparr>"
  shows "cf_get store (section_config env a ls) key = Some (case map_of (lines_map (env_sub env) ls) key of Some v \<Rightarrow> Inr v
    | None \<Rightarrow> (case map_of r key of Some v \<Rightarrow> Inr v | None \<Rightarrow> Inl (MissingKey key)))"
  by (subst cf_get.simps) (simp add: section_config_def emplace_all_of assms cf_get_root split: option.splits)

lemma mc_read_parts:
  fixes env a t
  defines "root \<equiv> \<lparr>cf_map = emplace_all (lines_map (env_sub env) (fst (file_parts t))) [], cf_parent = None\<rparr>"
  assumes "store a = Some cf_new"
  shows "\<exists>st. mc_read env (is_open t) store \<lparr>mc_addr = a, mc_map = []\<rparr> =
    (if all_return env (file_parts t)
     then Some (st, store(a \<mapsto> root), \<lparr>mc_addr = a, mc_map = emplace_all (section_configs env a (snd (file_parts t))) []\<rparr>) else None)"
proof -
  obtain ls ending where sp: "split_lines t = (ls, ending)" by fastforce
  obtain b ss where g: "group_lines ls = (b, ss)" by fastforce
  have ending: "nl \<notin> set ending" and ok: "list_all body_line b" "list_all section_ok ss" and whole: "t = lines_text b @ sections_text ss @ ending"
    using split_lines_text [OF sp] group_lines_text [OF g] by auto
  have parts: "file_parts t = add_tail (tail_lines ending) (b, ss)" using group_lines_tail [of ls ending] by (simp add: file_parts_def sp g)
  show ?thesis
  proof (cases ss)
    case Nil
    then have p: "file_parts t = (b @ tail_lines ending, [])" using parts by simp
    obtain st nm where "is_eof st" "read_section env (is_open (lines_text b @ ending)) cf_new =
        (if subs_return env (b @ tail_lines ending) then Some (st, nm, read_lines env (b @ tail_lines ending) cf_new) else None)"
      using read_section_text(1) [OF ok(1) ending] by blast
    moreover have e: "is_open t = is_open (lines_text b @ ending)" by (simp add: whole Nil)
    ultimately show ?thesis using assms(2)
      by (intro exI [of _ st])
        (auto simp: root_def mc_read_def mc_root_def Let_def all_return_def section_configs_def read_lines_def cf_new_def p)
  next
    case (Cons s ss1)
    obtain h hs where s: "s = (h, hs)" by (cases s)
    obtain hs1 ss2 where t: "add_tail (tail_lines ending) (hs, ss1) = (hs1, ss2)" by fastforce
    then have p: "file_parts t = (b, (h, hs1) # ss2)" using parts by (simp add: Cons s)
    from ok(2) have h: "nl \<notin> set h" "header_line h" "list_all body_line hs" "list_all section_ok ss1" by (simp_all add: Cons s section_ok_def [of "(h, hs)"])
    obtain st where m: "mc_sections env a (is_open (lines_text hs @ sections_text ss1 @ ending)) (header_name h) [] =
        (if all_return env (hs1, ss2) then Some (st, emplace_all ((header_name h, section_config env a hs1) # section_configs env a ss2) []) else None)"
      using mc_sections_text [OF ending h(3,4) t] by blast
    have e: "is_open t = is_open (lines_text b @ h @ nl # lines_text hs @ sections_text ss1 @ ending)" by (simp add: whole Cons s)
    have "mc_read env (is_open t) store \<lparr>mc_addr = a, mc_map = []\<rparr> = (if subs_return env b \<and> all_return env (hs1, ss2)
        then Some (st, store(a \<mapsto> read_lines env b cf_new),
          \<lparr>mc_addr = a, mc_map = emplace_all ((header_name h, section_config env a hs1) # section_configs env a ss2) []\<rparr>) else None)"
      unfolding e mc_read_def using m assms(2) read_section_text(2) [OF ok(1) h(1,2)] by (simp add: mc_root_def Let_def)
    then show ?thesis
      by (intro exI [of _ st]) (auto simp: root_def p all_return_def section_configs_def read_lines_def cf_new_def)
  qed
qed

text \<open>
  C26: Reading a file into a new \<open>MultiConfig\<close> returns if, and only if, the substitution of variables returns for every value of the file. Every lookup
  afterwards gives what the file says: the section's own value, else the value at the top of the file, else the error for a missing key; the
  first of several lines or sections of one name counts. This holds for any file, whether or not its last line ends with a newline.
\<close>

theorem config_file_lookup:
  "case mc_new a store of (store0, mc0) \<Rightarrow> case file_parts t of (front, secs) \<Rightarrow>
     if all_return env (front, secs)
     then \<exists>st store1 mc1. mc_read env (is_open t) store0 mc0 = Some (st, store1, mc1) \<and>
       (\<forall>name key. cf_get store1 (mc_section store1 mc1 name) key =
          Some (file_lookup (lines_map (env_sub env) front) (map (\<lambda>(h, ls). (header_name h, lines_map (env_sub env) ls)) secs) name key))
     else mc_read env (is_open t) store0 mc0 = None"
proof -
  obtain front secs where p: "file_parts t = (front, secs)" by fastforce
  let ?r = "\<lparr>cf_map = emplace_all (lines_map (env_sub env) front) [], cf_parent = None\<rparr>"
  let ?mc = "\<lparr>mc_addr = a, mc_map = emplace_all (section_configs env a secs) []\<rparr>"
  let ?store = "store(a \<mapsto> ?r)"
  have "cf_get ?store (mc_section ?store ?mc name) key =
      Some (file_lookup (lines_map (env_sub env) front) (map (\<lambda>(h, ls). (header_name h, lines_map (env_sub env) ls)) secs) name key)" for name key
    by (cases "map_of (map (\<lambda>(h, ls). (header_name h, ls)) secs) name")
      (simp_all add: mc_section_def mc_root_def file_lookup_def map_of_configs emplace_all_of cf_get_root
        cf_get_section [of ?store a "emplace_all (lines_map (env_sub env) front) []"] Let_def split: option.splits)
  with mc_read_parts [of "store(a \<mapsto> cf_new)" a env t] show ?thesis by (auto simp: mc_new_def p)
qed

theorem config_file_lookup_witness:
  "file_parts (''a=1'' @ nl # ''[s]'' @ nl # ''b=2'') = ([''a=1''], [(''[s]'', [''b=2''])]) \<and>
   (case mc_new 0 Map.empty of (store0, mc0) \<Rightarrow>
    \<exists>st store1 mc1. mc_read Map.empty (is_open (''a=1'' @ nl # ''[s]'' @ nl # ''b=2'')) store0 mc0 = Some (st, store1, mc1) \<and>
      cf_get store1 (mc_section store1 mc1 ''s'') ''a'' = Some (Inr ''1''))"
proof -
  have f: "file_parts (''a=1'' @ nl # ''[s]'' @ nl # ''b=2'') = ([''a=1''], [(''[s]'', [''b=2''])])" by code_simp
  have p: "concat (map line_pairs [''a=1'']) = [(''a'', ''1'')]" "concat (map line_pairs [''b=2'']) = [(''b'', ''2'')]" by code_simp+
  have v: "var_sub (get_env Map.empty) ''1'' = Some ''1''" "var_sub (get_env Map.empty) ''2'' = Some ''2''"
    by (simp_all add: var_sub_def substitute.simps scan_state_def)
  have r: "all_return Map.empty ([''a=1''], [(''[s]'', [''b=2''])])"
    by (simp only: all_return_def subs_return_def fst_conv snd_conv list.pred_inject split_conv p) (simp add: v)
  have "file_lookup (lines_map (env_sub Map.empty) [''a=1''])
      (map (\<lambda>(h, ls). (header_name h, lines_map (env_sub Map.empty) ls)) [(''[s]'', [''b=2''])]) ''s'' ''a'' = Inr ''1''"
  proof -
    have "header_name ''[s]'' = ''s''" by code_simp
    moreover have "lines_map (env_sub Map.empty) [''a=1''] = [(''a'', ''1'')]" "lines_map (env_sub Map.empty) [''b=2''] = [(''b'', ''2'')]"
      unfolding lines_map_def p by (simp_all add: env_sub_def v)
    ultimately show ?thesis by (simp add: file_lookup_def)
  qed
  with config_file_lookup [where a = 0 and store = Map.empty and t = "''a=1'' @ nl # ''[s]'' @ nl # ''b=2''" and env = Map.empty, unfolded f] r f show ?thesis
    by (auto simp: mc_new_def)
qed

text \<open>
  After a \<open>MultiConfig\<close> is moved and the object it was moved from is gone, a lookup in a section that falls back to the root follows a
  dangling pointer.
\<close>

theorem multi_config_move_dangles:
  assumes "map_of (mc_map mc) name = Some c" "cf_parent c = Some (mc_addr mc)" "map_of (cf_map c) key = None" "b \<noteq> mc_addr mc"
  shows "(case mc_move b store mc of (store1, mc1) \<Rightarrow> cf_get (mc_destroy store1 mc) (mc_section (mc_destroy store1 mc) mc1 name) key) =
    Some (Inl DanglingParent)"
  using assms by (subst cf_get.simps) (simp add: mc_move_def mc_destroy_def mc_section_def)

theorem multi_config_move_dangles_witness:
  "cf_get (mc_destroy (fst (mc_move 1 (Map.empty(0 \<mapsto> cf_new)) \<lparr>mc_addr = 0, mc_map = [(''s'', cf_set_parent 0 cf_new)]\<rparr>)) \<lparr>mc_addr = 0, mc_map = [(''s'', cf_set_parent 0 cf_new)]\<rparr>)
     (cf_set_parent 0 cf_new) ''a'' = Some (Inl DanglingParent)"
  using multi_config_move_dangles [of "\<lparr>mc_addr = 0, mc_map = [(''s'', cf_set_parent 0 cf_new)]\<rparr>" "''s''" "cf_set_parent 0 cf_new" "''a''" 1 "Map.empty(0 \<mapsto> cf_new)"]
  by (simp add: cf_set_parent_def cf_new_def mc_move_def mc_destroy_def mc_section_def)

text \<open>\<open>get\<close> with a default value is \<open>get\<close> with the error for a missing key replaced by the default.\<close>

lemma cf_get_default:
  assumes ret: "cf_get store c key = Some r"
  shows "cf_get_dfl store c key dfl =
    Some (case r of Inl (MissingKey k) \<Rightarrow> Inr dfl | Inl DanglingParent \<Rightarrow> Inl DanglingParent | Inr v \<Rightarrow> Inr (Some v))"
proof (rule cf_get.raw_induct [where P = "\<lambda>store c key r. cf_get_dfl store c key dfl =
    Some (case r of Inl (MissingKey k) \<Rightarrow> Inr dfl | Inl DanglingParent \<Rightarrow> Inl DanglingParent | Inr v \<Rightarrow> Inr (Some v))", OF _ ret],
    goal_cases)
  case (1 f store c key r)
  thus ?case by (subst cf_get_dfl.simps) (auto split: option.splits)
qed

text \<open>\<open>set\<close> does not replace the value of a key that is there already.\<close>

lemma cf_set_keeps: "map_of (cf_map (cf_set k v' (cf_set k v c))) k = map_of (cf_map (cf_set k v c)) k"
  by (simp add: cf_set_def map_emplace_of split: option.splits)

end
