(* ===== verification/RateLimits.thy ===== *)
theory RateLimits
  imports Times
begin

text \<open>
  Rate limits and the sliding window of \<open>net/RateLimit.hpp\<close> and \<open>net/RateLimit.cpp\<close>. Counts are 64 bit words that wrap around.
\<close>

subsection \<open>RateLimit\<close>

record rate_limit =
  rl_limit :: nat
  rl_interval :: int

definition parse_rate_limit :: "string \<Rightarrow> rate_limit" where
  "parse_rate_limit s =
     (case split_pair s CHR ''/'' of (limit, interval) \<Rightarrow> \<lparr>rl_limit = ston_unsigned 64 limit, rl_interval = ston_signed 32 interval\<rparr>)"

definition rate_limit_string :: "rate_limit \<Rightarrow> string" where
  "rate_limit_string rl = nat_string (rl_limit rl) @ ''/'' @ int_string (rl_interval rl)"

subsection \<open>RateWindow\<close>

record rate_window =
  rw_count :: u64
  rw_last_time :: int
  rw_buckets :: "u64 list"

definition rw_new :: "nat \<Rightarrow> rate_window" where
  "rw_new interval = \<lparr>rw_count = 0, rw_last_time = 0, rw_buckets = replicate interval 0\<rparr>"

text \<open>\<open>at(t)\<close> is a reference to a bucket, here its index.\<close>

definition rw_at :: "rate_window \<Rightarrow> int \<Rightarrow> nat" where
  "rw_at w t = nat (t mod int (length (rw_buckets w)))"

text \<open>The loop that advances past the buckets in between; it ends when \<open>last_time_\<close> has come to \<open>t\<close>.\<close>

definition rw_clear_bucket :: "rate_window \<Rightarrow> rate_window" where
  "rw_clear_bucket w = (let b = rw_at w (rw_last_time w) in
     w\<lparr>rw_count := rw_count w - rw_buckets w ! b, rw_buckets := (rw_buckets w)[b := 0]\<rparr>)"

partial_function (option) rw_advance :: "int \<Rightarrow> rate_window \<Rightarrow> rate_window option" where
  "rw_advance t w =
     (let w1 = w\<lparr>rw_last_time := rw_last_time w + 1\<rparr> in
      if rw_last_time w1 = t then Some w1 else rw_advance t (rw_clear_bucket w1))"

text \<open>\<open>add\<close> at the second \<open>t\<close>.\<close>

definition rw_add_at :: "int \<Rightarrow> u64 \<Rightarrow> rate_window \<Rightarrow> rate_window option" where
  "rw_add_at t count w =
     (let b = rw_at w t in
      if t = rw_last_time w then
        Some (w\<lparr>rw_count := rw_count w + count, rw_buckets := (rw_buckets w)[b := rw_buckets w ! b + count]\<rparr>)
      else
        map_option (\<lambda>w1. w1\<lparr>rw_last_time := t, rw_buckets := (rw_buckets w1)[b := count]\<rparr>)
          (if t - rw_last_time w < int (length (rw_buckets w)) then
             map_option (\<lambda>w1. w1\<lparr>rw_count := rw_count w1 + count - rw_buckets w1 ! b\<rparr>) (rw_advance t w)
           else Some (w\<lparr>rw_buckets := replicate (length (rw_buckets w)) 0, rw_count := count\<rparr>)))"

definition rw_add :: "int \<Rightarrow> u64 \<Rightarrow> rate_window \<Rightarrow> rate_window option" where
  "rw_add time count w = rw_add_at (to_time_t time) count w"

subsection \<open>The window counts what it should\<close>

text \<open>\<open>f\<close> gives the count of each second; the window is right for the seconds up to the last one.\<close>

definition window :: "nat \<Rightarrow> int \<Rightarrow> int set" where
  "window n l = {l - int n <.. l}"

definition rw_inv :: "nat \<Rightarrow> (int \<Rightarrow> u64) \<Rightarrow> int \<Rightarrow> rate_window \<Rightarrow> bool" where
  "rw_inv n f l w \<longleftrightarrow> 0 < n \<and> length (rw_buckets w) = n \<and> rw_count w = sum f (window n l) \<and>
     (\<forall>s \<in> window n l. rw_buckets w ! nat (s mod int n) = f s)"

lemma finite_window [simp]: "finite (window n l)"
  by (simp add: window_def)

lemma window_next: "0 < n \<Longrightarrow> window n (l + 1) = insert (l + 1) (window n l - {l + 1 - int n})"
  by (auto simp: window_def)

lemma window_edge: "0 < n \<Longrightarrow> l + 1 - int n \<in> window n l" "l + 1 \<notin> window n l"
  by (auto simp: window_def)

lemma sum_window_next:
  "0 < n \<Longrightarrow> sum f (window n (l + 1)) = sum f (window n l) - f (l + 1 - int n) + f (l + 1)" for f :: "int \<Rightarrow> u64"
  using window_edge [where n = n and l = l] by (simp add: window_next sum_diff1)

text \<open>Different seconds of a window are in different buckets.\<close>

lemma window_buckets:
  assumes "s \<in> window n l" "t \<in> window n l" "s mod int n = t mod int n"
  shows "s = t"
proof -
  have "int n dvd s - t" using assms(3) by (simp add: mod_eq_dvd_iff)
  moreover have "\<bar>s - t\<bar> < int n" using assms(1,2) by (auto simp: window_def)
  ultimately show ?thesis using zdvd_not_zless [of "\<bar>s - t\<bar>" "int n"] by (cases "s = t") auto
qed

text \<open>Giving the bucket of the oldest second to the next second.\<close>

lemma rw_inv_next:
  assumes i: "rw_inv n f l w" and w': "rw_buckets w' = (rw_buckets w)[nat ((l + 1) mod int n) := f (l + 1)]"
    "rw_count w' = rw_count w - rw_buckets w ! nat ((l + 1) mod int n) + f (l + 1)"
  shows "rw_inv n f (l + 1) w'"
proof -
  from i have n: "0 < n" "length (rw_buckets w) = n" by (auto simp: rw_inv_def)
  have e: "(l + 1 - int n) mod int n = (l + 1) mod int n" by simp
  from i have "\<forall>s \<in> window n l. rw_buckets w ! nat (s mod int n) = f s" by (simp add: rw_inv_def)
  from bspec [OF this window_edge(1) [OF n(1)]]
  have "rw_buckets w ! nat ((l + 1 - int n) mod int n) = f (l + 1 - int n)" .
  hence old: "rw_buckets w ! nat ((l + 1) mod int n) = f (l + 1 - int n)" by (simp only: e)
  have "rw_buckets w' ! nat (s mod int n) = f s" if "s \<in> window n (l + 1)" for s
  proof (cases "s = l + 1")
    case True
    with n show ?thesis by (simp add: w' nat_less_iff)
  next
    case False
    have "l + 1 \<in> window n (l + 1)" using n(1) by (simp add: window_def)
    with False window_buckets [OF that] have "s mod int n \<noteq> (l + 1) mod int n" by blast
    hence "nat (s mod int n) \<noteq> nat ((l + 1) mod int n)" using n(1) by (simp add: eq_nat_nat_iff)
    moreover from that False have "s \<in> window n l" by (auto simp: window_next [OF n(1)])
    ultimately show ?thesis using i by (simp add: w' rw_inv_def)
  qed
  with i n old show ?thesis by (simp add: rw_inv_def w' sum_window_next)
qed

lemma rw_advance_ok:
  assumes "\<And>s. l < s \<Longrightarrow> s < t \<Longrightarrow> f s = 0" "l < t" "rw_inv n f l w" "rw_last_time w = l"
  shows "\<exists>w'. rw_advance t w = Some w' \<and> rw_inv n f (t - 1) w'"
  using assms
proof (induction "nat (t - l)" arbitrary: l w)
  case (Suc k)
  let ?w1 = "w\<lparr>rw_last_time := l + 1\<rparr>"
  have i1: "rw_inv n f l ?w1" using Suc.prems by (simp add: rw_inv_def)
  show ?case
  proof (cases "l + 1 = t")
    case True
    with i1 Suc.prems show ?thesis by (subst rw_advance.simps) (auto simp: Let_def)
  next
    case False
    hence z: "f (l + 1) = 0" "l + 1 < t" using Suc.prems(1) [of "l + 1"] Suc.prems(2) by auto
    from Suc.prems have len: "length (rw_buckets w) = n" by (simp add: rw_inv_def)
    let ?w2 = "rw_clear_bucket ?w1"
    have "rw_inv n f (l + 1) ?w2"
      by (rule rw_inv_next [OF i1]) (simp_all add: rw_clear_bucket_def rw_at_def len z Let_def)
    moreover have "rw_last_time ?w2 = l + 1" by (simp add: rw_clear_bucket_def Let_def)
    moreover have "k = nat (t - (l + 1))" using Suc.hyps(2) by linarith
    moreover have "f s = 0" if "l + 1 < s" "s < t" for s using Suc.prems(1) [of s] that by linarith
    ultimately obtain w' where "rw_advance t ?w2 = Some w'" "rw_inv n f (t - 1) w'"
      using Suc.hyps(1) [of "l + 1" ?w2] z(2) by blast
    with False Suc.prems show ?thesis by (subst rw_advance.simps) (simp add: Let_def)
  qed
qed simp

lemma rw_inv_same:
  assumes "rw_inv n f l w"
  shows "rw_inv n (f(l := f l + c)) l (w\<lparr>rw_count := rw_count w + c,
      rw_buckets := (rw_buckets w)[nat (l mod int n) := rw_buckets w ! nat (l mod int n) + c]\<rparr>)"
proof -
  from assms have n: "0 < n" "length (rw_buckets w) = n" by (auto simp: rw_inv_def)
  have l: "l \<in> window n l" using n(1) by (simp add: window_def)
  have lt: "nat (l mod int n) < n" using n(1) by (simp add: nat_less_iff)
  have ne: "nat (s mod int n) \<noteq> nat (l mod int n)" if "s \<in> window n l" "s \<noteq> l" for s
    using window_buckets [OF that(1) l] that(2) n(1) by (auto simp: eq_nat_nat_iff)
  have "(rw_buckets w)[nat (l mod int n) := rw_buckets w ! nat (l mod int n) + c] ! nat (s mod int n) = (f(l := f l + c)) s"
    if "s \<in> window n l" for s
    using assms n(2) lt l that ne [OF that] by (cases "s = l") (simp_all add: rw_inv_def)
  moreover have "sum (f(l := f l + c)) (window n l) = sum f (window n l) + c"
    using l by (simp add: sum.remove [of "window n l" l])
  ultimately show ?thesis
    using assms by (simp add: rw_inv_def)
qed

lemma rw_add_ok:
  assumes z: "\<And>s. l < s \<Longrightarrow> f s = 0" and t: "l \<le> t" and i: "rw_inv n f l w" "rw_last_time w = l"
  shows "\<exists>w'. rw_add_at t c w = Some w' \<and> rw_inv n (f(t := f t + c)) t w' \<and> rw_last_time w' = t"
proof -
  from i have n: "0 < n" "length (rw_buckets w) = n" by (auto simp: rw_inv_def)
  show ?thesis
  proof (cases "t = l")
    case True
    with rw_inv_same [OF i(1), of c] i(2) n show ?thesis
      by (simp add: rw_add_at_def rw_at_def Let_def)
  next
    case False
    with t have lt: "l < t" by simp
    let ?f = "f(t := f t + c)" let ?b = "nat (t mod int n)"
    from z [OF lt] have ft: "?f t = c" by simp
    show ?thesis
    proof (cases "t - l < int n")
      case True
      have "?f s = 0" if "l < s" "s < t" for s using z [OF that(1)] that(2) by simp
      moreover have "rw_inv n ?f l w"
      proof -
        have "\<forall>s \<in> window n l. ?f s = f s" using lt by (auto simp: window_def)
        with i(1) show ?thesis by (simp add: rw_inv_def cong: sum.cong)
      qed
      ultimately obtain w1 where w1: "rw_advance t w = Some w1" "rw_inv n ?f (t - 1) w1"
        using rw_advance_ok [OF _ lt, of ?f n w] i(2) by blast
      let ?w2 = "w1\<lparr>rw_count := rw_count w1 + c - rw_buckets w1 ! ?b, rw_last_time := t, rw_buckets := (rw_buckets w1)[?b := c]\<rparr>"
      have "rw_inv n ?f (t - 1 + 1) ?w2"
        by (rule rw_inv_next [OF w1(2)]) (simp_all add: z [OF lt])
      moreover have "rw_add_at t c w = Some ?w2"
        using False True i(2) n(2) w1(1) by (simp add: rw_add_at_def rw_at_def Let_def)
      ultimately show ?thesis by simp
    next
      case far: False
      let ?w2 = "w\<lparr>rw_buckets := (replicate n 0)[?b := c], rw_count := c, rw_last_time := t\<rparr>"
      have "?b < n" using n(1) by (simp add: nat_less_iff)
      have tw: "t \<in> window n t" using n(1) by (simp add: window_def)
      have zero: "?f s = 0" if "s \<in> window n t" "s \<noteq> t" for s
        using z [of s] that far by (auto simp: window_def)
      have "sum ?f (window n t) = c"
        using tw zero ft by (simp add: sum.remove [of "window n t" t])
      moreover have "(replicate n 0)[?b := c] ! nat (s mod int n) = ?f s" if "s \<in> window n t" for s
      proof (cases "s = t")
        case True
        with \<open>?b < n\<close> ft show ?thesis by simp
      next
        case ne: False
        have "nat (s mod int n) < n" using n(1) by (simp add: nat_less_iff)
        moreover have "nat (s mod int n) \<noteq> ?b"
          using window_buckets [OF that tw] ne n(1) by (auto simp: eq_nat_nat_iff)
        ultimately show ?thesis using zero [OF that ne] by simp
      qed
      ultimately have "rw_inv n ?f t ?w2" using n by (simp add: rw_inv_def)
      moreover have "rw_add_at t c w = Some ?w2"
        using False far i(2) n(2) by (simp add: rw_add_at_def rw_at_def Let_def)
      ultimately show ?thesis by auto
    qed
  qed
qed

text \<open>The calls to \<open>add\<close> of a run, each with its second and count.\<close>

fun rw_adds :: "(int \<times> u64) list \<Rightarrow> rate_window \<Rightarrow> rate_window option" where
  "rw_adds [] w = Some w"
| "rw_adds ((t, c) # es) w = Option.bind (rw_add_at t c w) (rw_adds es)"

definition per_second :: "(int \<times> u64) list \<Rightarrow> int \<Rightarrow> u64" where
  "per_second es s = (\<Sum>(t, c) \<leftarrow> es. if t = s then c else 0)"

lemma rw_adds_ok:
  assumes "\<And>s. l < s \<Longrightarrow> f s = 0" "rw_inv n f l w" "rw_last_time w = l" "sorted (map fst es)" "\<forall>e \<in> set es. l \<le> fst e"
  shows "\<exists>w' l'. rw_adds es w = Some w' \<and> l' = (if es = [] then l else fst (last es)) \<and>
    rw_inv n (\<lambda>s. f s + per_second es s) l' w'"
  using assms
proof (induction es arbitrary: f l w)
  case (Cons e es)
  obtain t c where e: "e = (t, c)" by (cases e)
  from rw_add_ok [OF Cons.prems(1) _ Cons.prems(2,3), of t c] Cons.prems(5) obtain w1 where
    w1: "rw_add_at t c w = Some w1" "rw_inv n (f(t := f t + c)) t w1" "rw_last_time w1 = t" by (auto simp: e)
  have z: "(f(t := f t + c)) s = 0" if "t < s" for s using Cons.prems(1) [of s] Cons.prems(5) that by (simp add: e)
  from Cons.prems(4) have so: "sorted (map fst es)" "\<forall>x \<in> set es. t \<le> fst x" by (auto simp: e)
  have "(\<lambda>s. (f(t := f t + c)) s + per_second es s) = (\<lambda>s. f s + per_second (e # es) s)"
    by (rule ext) (simp add: e per_second_def)
  with Cons.IH [OF z w1(2,3) so] w1(1) show ?case by (auto simp: e)
qed (auto simp: per_second_def)

lemma sum_per_second: "finite A \<Longrightarrow> sum (per_second es) A = (\<Sum>(t, c) \<leftarrow> es. if t \<in> A then c else 0)"
proof (induction es)
  case (Cons e es)
  obtain t c where e: "e = (t, c)" by (cases e)
  have "sum (per_second (e # es)) A = (\<Sum>s \<in> A. if t = s then c else 0) + sum (per_second es) A"
    by (simp add: per_second_def e sum.distrib)
  with Cons show ?case by (simp add: e)
qed (simp add: per_second_def)

text \<open>
  C27: The rate window returns from every call and counts exactly the requests of the last \<open>interval\<close> seconds, for any sequence of
  requests at times that do not go back, including pauses that skip buckets or the whole window.
\<close>

theorem rate_window_counts:
  assumes "0 < n" "sorted (map fst es)" "\<forall>e \<in> set es. 0 \<le> fst e" "es \<noteq> []"
  shows "\<exists>w. rw_adds es (rw_new n) = Some w \<and>
    rw_count w = (\<Sum>(t, c) \<leftarrow> es. if fst (last es) - int n < t then c else 0)"
proof -
  have "nat (s mod int n) < n" for s using assms(1) by (simp add: nat_less_iff)
  hence i: "rw_inv n (\<lambda>_. 0) 0 (rw_new n)" using assms(1) by (simp add: rw_inv_def rw_new_def)
  have l: "rw_last_time (rw_new n) = 0" by (simp add: rw_new_def)
  have "\<exists>w' l'. rw_adds es (rw_new n) = Some w' \<and> l' = (if es = [] then 0 else fst (last es)) \<and> rw_inv n (\<lambda>s. 0 + per_second es s) l' w'"
    by (rule rw_adds_ok [OF _ i l assms(2,3)]) simp
  then obtain w l' where w': "rw_adds es (rw_new n) = Some w" "l' = (if es = [] then 0 else fst (last es))" "rw_inv n (\<lambda>s. 0 + per_second es s) l' w"
    by blast
  hence w: "rw_adds es (rw_new n) = Some w" "rw_inv n (per_second es) (fst (last es)) w" using assms(4) by simp_all
  have last: "t \<le> fst (last es)" if e: "(t, c) \<in> set es" for t c
  proof -
    obtain i where i: "i < length es" "es ! i = (t, c)" using e unfolding in_set_conv_nth by blast
    from sorted_nth_mono [OF assms(2), of i "length es - 1"] i assms(4) show ?thesis by (simp add: last_conv_nth)
  qed
  from w(2) have "rw_count w = (\<Sum>(t, c) \<leftarrow> es. if t \<in> window n (fst (last es)) then c else 0)"
    by (simp add: rw_inv_def sum_per_second)
  also have "\<dots> = (\<Sum>(t, c) \<leftarrow> es. if fst (last es) - int n < t then c else 0)"
    by (rule arg_cong [of _ _ sum_list], rule map_cong) (use last in \<open>auto simp: window_def\<close>)
  finally show ?thesis using w(1) by blast
qed

theorem rate_window_counts_witness: "\<exists>w. rw_adds [(7, 1), (8, 2), (9, 5)] (rw_new 2) = Some w \<and> rw_count w = 7"
  using rate_window_counts [of 2 "[(7, 1), (8, 2), (9, 5)]"] by simp

lemma parse_rate_limit_string:
  assumes "rl_limit rl < 2 ^ 64" "- (2 ^ 31) \<le> rl_interval rl" "rl_interval rl < 2 ^ 31"
  shows "parse_rate_limit (rate_limit_string rl) = rl"
proof -
  have "CHR ''/'' \<notin> set (nat_string (rl_limit rl))" using nat_string_digits(1) [of "rl_limit rl"] by (auto simp: isdigit_def)
  hence "split_pair (rate_limit_string rl) CHR ''/'' = (nat_string (rl_limit rl), int_string (rl_interval rl))"
    by (simp add: rate_limit_string_def split_pair_join)
  moreover have "ston_unsigned 64 (nat_string (rl_limit rl)) = rl_limit rl"
    using assms(1) by (simp add: ston_unsigned_def ston_magnitude_nat_string unsigned_of_nat take_bit_nat_eq_self)
  moreover have "ston_signed 32 (int_string (rl_interval rl)) = rl_interval rl"
    using ston_int_string [of 32 "rl_interval rl"] assms(2,3) by simp
  ultimately show ?thesis by (simp add: parse_rate_limit_def)
qed

end
