(* ===== verification/HttpStreams.thy ===== *)
theory HttpStreams
  imports Buffers Strings
begin

text \<open>
  HTTP messages: the output stream of \<open>http/Stream.hpp\<close> and \<open>http/Stream.cpp\<close>, which writes behind the committed bytes of a \<open>Buffer\<close>, and the
  request and response of \<open>http/Request.hpp\<close> with the header callbacks of \<open>http/Parser.hpp\<close> that fill them.
\<close>

subsection \<open>HttpBuf and HttpStream\<close>

text \<open>
  \<open>hs_buf\<close> is the buffer the stream refers to. \<open>hs_pbase\<close> is the pointer to its write position, as an index into its storage. A \<open>streamsize\<close>
  is a natural number here: the counts only grow from zero.
\<close>

record http_stream =
  hs_buf :: buffer
  hs_pbase :: "nat option"
  hs_pcount :: nat
  hs_cloff :: nat
  hs_hcount :: nat

definition hs_new :: "buffer \<Rightarrow> http_stream" where
  "hs_new b = \<lparr>hs_buf = b, hs_pbase = None, hs_pcount = 0, hs_cloff = 0, hs_hcount = 0\<rparr>"

definition bytes :: "string \<Rightarrow> u8 list" where
  "bytes s = map of_char s"

text \<open>\<open>memcpy\<close> to an index of the storage.\<close>

definition bf_poke :: "nat \<Rightarrow> u8 list \<Rightarrow> buffer \<Rightarrow> buffer" where
  "bf_poke i bs b = b\<lparr>bf_buf := take i (bf_buf b) @ bs @ drop (i + length bs) (bf_buf b)\<rparr>"

definition hb_xsputn :: "u8 list \<Rightarrow> http_stream \<Rightarrow> http_stream" where
  "hb_xsputn s h =
     (let b = snd (bf_prepare (hs_pcount h + length s) (hs_buf h)); base = bf_wpos b in
      h\<lparr>hs_buf := bf_poke (base + hs_pcount h) s b, hs_pbase := Some base, hs_pcount := hs_pcount h + length s\<rparr>)"

definition hb_overflow :: "u8 option \<Rightarrow> http_stream \<Rightarrow> http_stream" where
  "hb_overflow c h =
     (case c of
        None \<Rightarrow> h
      | Some x \<Rightarrow>
          let b = snd (bf_prepare (hs_pcount h + 1) (hs_buf h)); base = bf_wpos b in
          h\<lparr>hs_buf := bf_poke (base + hs_pcount h) [x] b, hs_pbase := Some base, hs_pcount := hs_pcount h + 1\<rparr>)"

text \<open>The digits are stored from the last one backwards, before the position \<open>i\<close>.\<close>

fun store_digits :: "nat \<Rightarrow> nat \<Rightarrow> u8 list \<Rightarrow> u8 list" where
  "store_digits i len buf =
     (let buf1 = buf[i - 1 := 48 + of_nat (len mod 10)] in
      if len div 10 > 0 then store_digits (i - 1) (len div 10) buf1 else buf1)"

declare store_digits.simps [simp del]

text \<open>A call without a base pointer is undefined: \<open>None\<close>.\<close>

definition hb_set_content_length :: "nat \<Rightarrow> nat \<Rightarrow> http_stream \<Rightarrow> http_stream option" where
  "hb_set_content_length pos len h =
     (case hs_pbase h of
        None \<Rightarrow> None
      | Some base \<Rightarrow> Some (h\<lparr>hs_buf := (hs_buf h)\<lparr>bf_buf := store_digits (base + pos) len (bf_buf (hs_buf h))\<rparr>\<rparr>))"

definition hb_commit :: "http_stream \<Rightarrow> http_stream" where
  "hb_commit h = h\<lparr>hs_buf := bf_commit (hs_pcount h) (hs_buf h)\<rparr>"

definition hb_reset :: "http_stream \<Rightarrow> http_stream" where
  "hb_reset h = h\<lparr>hs_pbase := None, hs_pcount := 0\<rparr>"

definition hs_reset :: "http_stream \<Rightarrow> http_stream" where
  "hs_reset h = (hb_reset h)\<lparr>hs_cloff := 0, hs_hcount := 0\<rparr>"

definition hs_commit :: "http_stream \<Rightarrow> http_stream option" where
  "hs_commit h =
     map_option hb_commit
       (if hs_cloff h > 0 then hb_set_content_length (hs_cloff h) (hs_pcount h - hs_hcount h) h else Some h)"

text \<open>\<open>operator<<\<close> of a string.\<close>

definition hs_out :: "string \<Rightarrow> http_stream \<Rightarrow> http_stream" where
  "hs_out s h = hb_xsputn (bytes s) h"

definition CRLF :: string where "CRLF = [CHR 0x0D, CHR 0x0A]"

text \<open>\<open>reason\<close> is \<open>enum_string(status)\<close>.\<close>

definition http_status :: "nat \<Rightarrow> string \<Rightarrow> string option \<Rightarrow> bool \<Rightarrow> http_stream \<Rightarrow> http_stream" where
  "http_status status reason content_type no_cache h =
     (let h1 = hb_reset h;
          h2 = hs_out reason (hs_out '' '' (hs_out (nat_string status) (hs_out ''HTTP/1.1 '' h1)));
          h3 = (if no_cache then hs_out (CRLF @ ''Cache-Control: no-cache'') h2 else h2);
          h4 = (case content_type of
             Some ct \<Rightarrow>
               (let h5 = hs_out (CRLF @ ''Content-Length:          0'') (hs_out ct (hs_out (CRLF @ ''Content-Type: '') h3))
                in h5\<lparr>hs_cloff := hs_pcount h5\<rparr>)
           | None \<Rightarrow> h3\<lparr>hs_cloff := 0\<rparr>);
          h6 = hs_out (CRLF @ CRLF) h4
      in h6\<lparr>hs_hcount := hs_pcount h6\<rparr>)"

definition http_request_line :: "string \<Rightarrow> string \<Rightarrow> http_stream \<Rightarrow> http_stream" where
  "http_request_line meth url h =
     hs_out ('' HTTP/1.1'' @ CRLF @ CRLF) (hs_out '' '' (hs_out url (hs_out '' '' (hs_out meth h))))"

definition http_request_headers :: "string \<Rightarrow> string \<Rightarrow> (string \<times> string) list \<Rightarrow> http_stream \<Rightarrow> http_stream" where
  "http_request_headers meth url hdrs h =
     hs_out CRLF
       (fold (\<lambda>(k, v) h. hs_out CRLF (hs_out v (hs_out '':'' (hs_out k h)))) hdrs
         (hs_out ('' HTTP/1.1'' @ CRLF) (hs_out '' '' (hs_out url (hs_out '' '' (hs_out meth h))))))"

subsection \<open>What the stream writes\<close>

text \<open>The stream holds the data \<open>d\<close>, not yet committed, behind the bytes \<open>old\<close> of the buffer.\<close>

definition hs_holds :: "u8 list \<Rightarrow> u8 list \<Rightarrow> http_stream \<Rightarrow> bool" where
  "hs_holds old d h \<longleftrightarrow> bf_inv (hs_buf h) \<and> bf_str (hs_buf h) = old \<and> hs_pcount h = length d \<and>
     bf_wpos (hs_buf h) + length d \<le> length (bf_buf (hs_buf h)) \<and>
     take (length d) (drop (bf_wpos (hs_buf h)) (bf_buf (hs_buf h))) = d \<and>
     (d \<noteq> [] \<longrightarrow> hs_pbase h = Some (bf_wpos (hs_buf h)))"

lemma bf_prepare_keeps:
  assumes "bf_inv b" "bf_prepare n b = (avail, b')"
  shows "bf_inv b'" "bf_str b' = bf_str b" "bf_wpos b' = bf_wpos b" "bf_rpos b' = bf_rpos b"
    "bf_wpos b' + n \<le> length (bf_buf b')" "length (bf_buf b) \<le> length (bf_buf b')" "take (length (bf_buf b)) (bf_buf b') = bf_buf b"
proof -
  note P = bf_prepare_ok [OF assms]
  show "bf_inv b'" "bf_str b' = bf_str b" "bf_wpos b' = bf_wpos b" "bf_rpos b' = bf_rpos b" using P by simp_all
  show "bf_wpos b' + n \<le> length (bf_buf b')" using P by linarith
  have "b' = b \<or> (\<exists>m. b' = b\<lparr>bf_buf := bf_buf b @ replicate m 0\<rparr>)"
    using assms(2) unfolding bf_prepare_def Let_def by (auto split: if_splits)
  thus "length (bf_buf b) \<le> length (bf_buf b')" "take (length (bf_buf b)) (bf_buf b') = bf_buf b" by auto
qed

lemma bf_poke_str:
  assumes "bf_inv b" "bf_wpos b \<le> i" "i + length bs \<le> length (bf_buf b)"
  shows "bf_inv (bf_poke i bs b)" "bf_str (bf_poke i bs b) = bf_str b" "bf_wpos (bf_poke i bs b) = bf_wpos b"
    "length (bf_buf (bf_poke i bs b)) = length (bf_buf b)"
proof -
  have s: "bf_str c = drop (bf_rpos c) (take (bf_wpos c) (bf_buf c))" if "bf_inv c" for c
    using that by (simp add: bf_str_def bf_size_def bf_inv_def take_drop)
  have len: "length (bf_buf (bf_poke i bs b)) = length (bf_buf b)" using assms(3) by (simp add: bf_poke_def)
  show i: "bf_inv (bf_poke i bs b)" using assms(1) len by (simp add: bf_inv_def) (simp add: bf_poke_def)
  have "take (bf_wpos b) (take i (bf_buf b)) = take (bf_wpos b) (bf_buf b)" using assms(2) by (simp add: min_def)
  moreover have "bf_wpos b \<le> length (take i (bf_buf b))" using assms(2,3) by simp
  ultimately have "take (bf_wpos b) (bf_buf (bf_poke i bs b)) = take (bf_wpos b) (bf_buf b)" by (simp add: bf_poke_def)
  thus "bf_str (bf_poke i bs b) = bf_str b" unfolding s [OF i] s [OF assms(1)] by (simp add: bf_poke_def)
  show "bf_wpos (bf_poke i bs b) = bf_wpos b" by (simp add: bf_poke_def)
  show "length (bf_buf (bf_poke i bs b)) = length (bf_buf b)" by (rule len)
qed

lemma hb_xsputn_holds:
  assumes "hs_holds old d h"
  shows "hs_holds old (d @ s) (hb_xsputn s h)"
proof -
  obtain avail b where p: "bf_prepare (hs_pcount h + length s) (hs_buf h) = (avail, b)" by fastforce
  from assms have h: "bf_inv (hs_buf h)" "bf_str (hs_buf h) = old" "hs_pcount h = length d"
      "bf_wpos (hs_buf h) + length d \<le> length (bf_buf (hs_buf h))"
      "take (length d) (drop (bf_wpos (hs_buf h)) (bf_buf (hs_buf h))) = d" by (auto simp: hs_holds_def)
  note k = bf_prepare_keeps [OF h(1) p]
  let ?w = "bf_wpos b" let ?buf = "bf_buf b"
  let ?p = "bf_poke (?w + length d) s b"
  have "?w + length d + length s \<le> length ?buf" using k(5) h(3) by simp
  note q = bf_poke_str [OF k(1) _ this]
  have buf: "take (?w + length d) ?buf = take (?w + length d) (bf_buf (hs_buf h))"
    using k(3,7) h(4) by (metis min.absorb1 take_take)
  have "take (length d) (drop ?w ?buf) = take (length d) (drop ?w (bf_buf (hs_buf h)))"
    using buf by (metis add.commute take_drop)
  with h(5) k(3) have d: "take (length d) (drop ?w ?buf) = d" by simp
  have "take (length (d @ s)) (drop ?w (bf_buf ?p)) = d @ s"
  proof -
    have "drop ?w (take (?w + length d) ?buf) = d" using d by (simp add: drop_take)
    moreover have "?w \<le> length (take (?w + length d) ?buf)" using k(5) by simp
    ultimately show ?thesis by (simp add: bf_poke_def)
  qed
  with q k h(2,3) p show ?thesis by (simp add: hs_holds_def hb_xsputn_def Let_def)
qed

lemma hs_out_holds: "hs_holds old d h \<Longrightarrow> hs_holds old (d @ bytes s) (hs_out s h)"
  by (simp add: hs_out_def hb_xsputn_holds)

lemma hb_overflow_xsputn: "hb_overflow (Some c) h = hb_xsputn [c] h"
  by (simp add: hb_overflow_def hb_xsputn_def Let_def)

lemma hs_out_fields [simp]: "hs_cloff (hs_out s h) = hs_cloff h" "hs_hcount (hs_out s h) = hs_hcount h"
  by (simp_all add: hs_out_def hb_xsputn_def Let_def)

lemma hs_holds_fields [simp]:
  "hs_holds old d (h\<lparr>hs_cloff := x\<rparr>) = hs_holds old d h" "hs_holds old d (h\<lparr>hs_hcount := y\<rparr>) = hs_holds old d h"
  by (simp_all add: hs_holds_def)

lemma hs_holds_reset: "bf_inv (hs_buf h) \<Longrightarrow> hs_holds (bf_str (hs_buf h)) [] (hb_reset h)"
  by (simp add: hs_holds_def hb_reset_def) (simp add: bf_inv_def)

subsection \<open>Framed responses\<close>

lemma bytes_simps [simp]: "bytes (a @ b) = bytes a @ bytes b" "length (bytes a) = length a" "bytes [] = []" "bytes (c # a) = of_char c # bytes a"
  by (simp_all add: bytes_def)

lemma digit_byte: "d < 10 \<Longrightarrow> (of_char (char_of (48 + d)) :: u8) = 48 + of_nat d" for d :: nat
proof -
  assume "d < 10"
  hence "(of_nat (of_char (char_of (48 + d))) :: u8) = of_nat (48 + d)" by (simp only: of_char_of) simp
  thus ?thesis by (simp only: of_nat_of_char of_nat_add of_nat_numeral)
qed

lemma store_digits_nat_string:
  "\<lbrakk>length (nat_string n) \<le> i; i \<le> length buf\<rbrakk> \<Longrightarrow>
   store_digits i n buf = take (i - length (nat_string n)) buf @ bytes (nat_string n) @ drop i buf"
proof (induction i n buf rule: store_digits.induct)
  case (1 i n buf)
  let ?x = "48 + of_nat (n mod 10) :: u8"
  let ?buf1 = "buf[i - 1 := ?x]"
  have i: "0 < i" using 1(2) nat_string_digits(2) [of n] by (cases "nat_string n") auto
  hence d: "drop (i - 1) ?buf1 = ?x # drop i buf"
    using 1(3) by (subst upd_conv_take_nth_drop) auto
  have x: "of_char (char_of (48 + n mod 10)) = ?x" using digit_byte [of "n mod 10"] by simp
  show ?case
  proof (cases "n div 10 > 0")
    case False
    hence n: "n < 10" by (simp add: div_greater_zero_iff)
    hence ns: "nat_string n = [char_of (48 + n)]" by (subst nat_string.simps) simp
    have "take (i - 1) ?buf1 = take (i - 1) buf" by simp
    moreover have "?buf1 = take (i - 1) ?buf1 @ drop (i - 1) ?buf1" by (rule append_take_drop_id [symmetric])
    ultimately have "?buf1 = take (i - 1) buf @ ?x # drop i buf" using d by metis
    with False n ns x show ?thesis by (subst store_digits.simps) (simp add: Let_def)
  next
    case True
    hence ns: "nat_string n = nat_string (n div 10) @ [char_of (48 + n mod 10)]"
      by (subst nat_string.simps) (simp add: div_greater_zero_iff)
    have "store_digits (i - 1) (n div 10) ?buf1 =
        take (i - 1 - length (nat_string (n div 10))) ?buf1 @ bytes (nat_string (n div 10)) @ drop (i - 1) ?buf1"
      by (rule 1(1)) (use True 1(2,3) ns in auto)
    with True d ns x show ?thesis by (subst store_digits.simps) (simp add: Let_def)
  qed
qed

text \<open>The header of a response with the content length in the given digits, right-justified.\<close>

definition response_head :: "nat \<Rightarrow> string \<Rightarrow> string \<Rightarrow> bool \<Rightarrow> string \<Rightarrow> string" where
  "response_head status reason ct no_cache len =
     ''HTTP/1.1 '' @ nat_string status @ '' '' @ reason @ (if no_cache then CRLF @ ''Cache-Control: no-cache'' else []) @
     CRLF @ ''Content-Type: '' @ ct @ CRLF @ ''Content-Length:'' @ replicate (11 - length len) CHR '' '' @ len @ CRLF @ CRLF"

lemma http_status_holds:
  fixes status :: nat and reason ct :: string and no_cache :: bool
  assumes "bf_inv (hs_buf h)"
  defines "h' \<equiv> http_status status reason (Some ct) no_cache h"
  shows "hs_holds (bf_str (hs_buf h)) (bytes (response_head status reason ct no_cache ''0'')) h'"
    and "hs_cloff h' + 4 = hs_hcount h'" "hs_hcount h' = length (response_head status reason ct no_cache ''0'')"
proof -
  let ?h3 = "\<lambda>h. if no_cache then hs_out (CRLF @ ''Cache-Control: no-cache'') h else h"
  let ?d2 = "bytes (''HTTP/1.1 '' @ nat_string status @ '' '' @ reason)"
  let ?d3 = "bytes (''HTTP/1.1 '' @ nat_string status @ '' '' @ reason @ (if no_cache then CRLF @ ''Cache-Control: no-cache'' else []))"
  let ?d5 = "?d3 @ bytes (CRLF @ ''Content-Type: '') @ bytes ct @ bytes (CRLF @ ''Content-Length:          0'')"
  note h0 = hs_holds_reset [OF assms(1)]
  define h2 where "h2 = hs_out reason (hs_out '' '' (hs_out (nat_string status) (hs_out ''HTTP/1.1 '' (hb_reset h))))"
  define h5 where "h5 = hs_out (CRLF @ ''Content-Length:          0'') (hs_out ct (hs_out (CRLF @ ''Content-Type: '') (?h3 h2)))"
  have "hs_holds (bf_str (hs_buf h)) ?d2 h2"
    using hs_out_holds [OF hs_out_holds [OF hs_out_holds [OF hs_out_holds [OF h0]]], of "''HTTP/1.1 ''" "nat_string status" "'' ''" reason]
    by (simp add: h2_def)
  hence "hs_holds (bf_str (hs_buf h)) ?d3 (?h3 h2)"
    using hs_out_holds [of _ ?d2 h2 "CRLF @ ''Cache-Control: no-cache''"] by (cases no_cache) auto
  from hs_out_holds [OF hs_out_holds [OF hs_out_holds [OF this]], of "CRLF @ ''Content-Type: ''" ct "CRLF @ ''Content-Length:          0''"]
  have h5: "hs_holds (bf_str (hs_buf h)) ?d5 h5" by (simp only: h5_def append_assoc)
  define h6 where "h6 = hs_out (CRLF @ CRLF) (h5\<lparr>hs_cloff := hs_pcount h5\<rparr>)"
  have h': "h' = h6\<lparr>hs_hcount := hs_pcount h6\<rparr>"
    by (simp add: h'_def http_status_def Let_def h2_def h5_def h6_def)
  have d6: "?d5 @ bytes (CRLF @ CRLF) = bytes (response_head status reason ct no_cache ''0'')"
    by (simp add: response_head_def numeral_eq_Suc)
  have h6: "hs_holds (bf_str (hs_buf h)) (bytes (response_head status reason ct no_cache ''0'')) h6"
    unfolding d6 [symmetric] h6_def by (rule hs_out_holds) (simp only: hs_holds_fields h5)
  thus "hs_holds (bf_str (hs_buf h)) (bytes (response_head status reason ct no_cache ''0'')) h'" by (simp add: h')
  have p6: "hs_pcount h6 = hs_pcount h5 + 4" by (simp add: h6_def hs_out_def hb_xsputn_def Let_def CRLF_def)
  have "hs_cloff h6 = hs_pcount h5" by (simp add: h6_def)
  with p6 show "hs_cloff h' + 4 = hs_hcount h'" by (simp add: h')
  from h6 show "hs_hcount h' = length (response_head status reason ct no_cache ''0'')" by (simp add: h' hs_holds_def)
qed

text \<open>A sequence of writes.\<close>

definition hs_outs :: "string list \<Rightarrow> http_stream \<Rightarrow> http_stream" where
  "hs_outs ss h = fold hs_out ss h"

lemma hs_outs_fields [simp]: "hs_cloff (hs_outs ss h) = hs_cloff h" "hs_hcount (hs_outs ss h) = hs_hcount h"
  by (induction ss arbitrary: h) (simp_all add: hs_outs_def)

lemma hs_outs_holds: "hs_holds old d h \<Longrightarrow> hs_holds old (d @ bytes (concat ss)) (hs_outs ss h)"
proof (induction ss arbitrary: d h)
  case (Cons s ss)
  from Cons.IH [OF hs_out_holds [OF Cons.prems, of s]] show ?case by (simp add: hs_outs_def)
qed (simp add: hs_outs_def)

lemma hb_commit_holds:
  assumes "hs_holds old d h"
  shows "bf_str (hs_buf (hb_commit h)) = old @ d" "bf_inv (hs_buf (hb_commit h))"
proof -
  let ?b = "hs_buf h"
  from assms have h: "bf_inv ?b" "bf_str ?b = old" "hs_pcount h = length d" "bf_wpos ?b + length d \<le> length (bf_buf ?b)"
    "take (length d) (drop (bf_wpos ?b) (bf_buf ?b)) = d" by (auto simp: hs_holds_def)
  let ?r = "bf_rpos ?b" let ?w = "bf_wpos ?b"
  have r: "?r \<le> ?w" using h(1) by (simp add: bf_inv_def)
  have "take (?w + length d - ?r) (drop ?r (bf_buf ?b)) = take (?w - ?r) (drop ?r (bf_buf ?b)) @ take (length d) (drop (?w - ?r) (drop ?r (bf_buf ?b)))"
    using r take_add [of "?w - ?r" "length d" "drop ?r (bf_buf ?b)"] by simp
  also have "drop (?w - ?r) (drop ?r (bf_buf ?b)) = drop ?w (bf_buf ?b)" using r by simp
  finally show "bf_str (hs_buf (hb_commit h)) = old @ d"
    using h(2,3,5) by (simp add: hb_commit_def bf_commit_def bf_str_def bf_size_def)
  show "bf_inv (hs_buf (hb_commit h))" using r h(3,4) by (simp add: hb_commit_def bf_commit_def bf_inv_def)
qed

text \<open>Storing the content length in the data the stream holds.\<close>

lemma set_content_length_holds:
  assumes "hs_holds old (a @ p @ b) h" "length (nat_string n) = length p" "p \<noteq> []"
  shows "\<exists>h'. hb_set_content_length (length a + length p) n h = Some h' \<and> hs_holds old (a @ bytes (nat_string n) @ b) h'"
proof -
  let ?b = "hs_buf h" let ?w = "bf_wpos ?b" let ?buf = "bf_buf ?b" let ?ds = "bytes (nat_string n)"
  let ?i = "?w + (length a + length p)"
  from assms(1) have h: "bf_inv ?b" "bf_str ?b = old" "hs_pcount h = length (a @ p @ b)" "?w + length (a @ p @ b) \<le> length ?buf"
    "take (length (a @ p @ b)) (drop ?w ?buf) = a @ p @ b" and base: "hs_pbase h = Some ?w"
    using assms(3) by (auto simp: hs_holds_def)
  have "store_digits ?i n ?buf = take (?i - length p) ?buf @ ?ds @ drop ?i ?buf"
    using store_digits_nat_string [of n ?i ?buf] assms(2) h(4) by simp
  hence st: "?b\<lparr>bf_buf := store_digits ?i n ?buf\<rparr> = bf_poke (?w + length a) ?ds ?b"
    using assms(2) by (simp add: bf_poke_def add.assoc)
  have "?w \<le> ?w + length a" "?w + length a + length ?ds \<le> length ?buf" using h(4) assms(2) by simp_all
  note q = bf_poke_str [OF h(1) this]
  have "?buf = take ?w ?buf @ (a @ p @ b) @ drop (length (a @ p @ b)) (drop ?w ?buf)"
    using h(5) by (metis append_take_drop_id)
  moreover have "length (take ?w ?buf) = ?w" using h(4) by simp
  ultimately obtain x r where buf: "?buf = x @ (a @ p @ b) @ r" "length x = ?w" by metis
  have "bf_buf (bf_poke (?w + length a) ?ds ?b) = x @ (a @ ?ds @ b) @ r"
    using assms(2) buf(2) by (simp add: bf_poke_def buf(1) flip: buf(2))
  hence "take (length (a @ ?ds @ b)) (drop ?w (bf_buf (bf_poke (?w + length a) ?ds ?b))) = a @ ?ds @ b" using buf(2) by simp
  with q h assms(2) have "hs_holds old (a @ ?ds @ b) (h\<lparr>hs_buf := bf_poke (?w + length a) ?ds ?b\<rparr>)"
    by (simp add: hs_holds_def base)
  with st base show ?thesis by (simp add: hb_set_content_length_def)
qed

lemma nat_string_length: "n < 10 ^ k \<Longrightarrow> length (nat_string n) \<le> max 1 k"
proof (induction n arbitrary: k rule: nat_string.induct)
  case (1 n)
  show ?case
  proof (cases "n < 10")
    case True
    thus ?thesis by (subst nat_string.simps) simp
  next
    case False
    then obtain j where k: "k = Suc j" using 1(2) by (cases k) auto
    from False 1(2) have "n div 10 < 10 ^ j" by (simp add: k less_mult_imp_div_less mult.commute)
    moreover from this False have "0 < j" by (cases j) auto
    ultimately show ?thesis using 1(1) [OF False, of j] False k by (subst nat_string.simps) simp
  qed
qed

lemma response_framed:
  assumes "bf_inv (hs_buf h)" "length (concat body) < 10 ^ 10"
  shows "\<exists>h'. hs_commit (hs_outs body (http_status status reason (Some ct) no_cache h)) = Some h' \<and> bf_inv (hs_buf h') \<and>
    bf_str (hs_buf h') = bf_str (hs_buf h) @
      bytes (response_head status reason ct no_cache (nat_string (length (concat body))) @ concat body)"
proof -
  let ?n = "length (concat body)" let ?len = "nat_string ?n"
  define a where "a = ''HTTP/1.1 '' @ nat_string status @ '' '' @ reason @ (if no_cache then CRLF @ ''Cache-Control: no-cache'' else []) @
     CRLF @ ''Content-Type: '' @ ct @ CRLF @ ''Content-Length:''"
  have head: "response_head status reason ct no_cache l = a @ replicate (11 - length l) CHR '' '' @ l @ CRLF @ CRLF" for l
    by (simp add: response_head_def a_def)
  have len: "length ?len \<le> 10" "0 < length ?len"
    using nat_string_length [OF assms(2)] nat_string_digits(2) [of ?n] by auto
  have z: "replicate 10 CHR '' '' @ ''0'' = replicate (11 - length ?len) CHR '' '' @ (replicate (length ?len - 1) CHR '' '' @ ''0'')"
  proof -
    have "11 - length ?len + (length ?len - 1) = 10" using len by linarith
    thus ?thesis by (metis append_assoc replicate_add)
  qed
  let ?h1 = "http_status status reason (Some ct) no_cache h"
  let ?p = "bytes (replicate (length ?len - 1) CHR '' '' @ ''0'')"
  let ?a = "bytes (a @ replicate (11 - length ?len) CHR '' '')"
  let ?b = "bytes (CRLF @ CRLF @ concat body)"
  note st = http_status_holds [OF assms(1), of status reason ct no_cache]
  have "bytes (response_head status reason ct no_cache ''0'') = ?a @ ?p @ bytes (CRLF @ CRLF)"
    using z by (simp add: head flip: bytes_simps(1))
  with hs_outs_holds [OF st(1), of body] have h2: "hs_holds (bf_str (hs_buf h)) (?a @ ?p @ ?b) (hs_outs body ?h1)" by simp
  have "length (response_head status reason ct no_cache ''0'') = length ?a + length ?p + 4"
    using len by (simp add: head CRLF_def)
  with st(2,3) have cl: "hs_cloff ?h1 = length ?a + length ?p" "hs_hcount ?h1 = length ?a + length ?p + 4" by simp_all
  have pc: "hs_pcount (hs_outs body ?h1) - hs_hcount ?h1 = ?n"
    using h2 cl(2) by (simp add: hs_holds_def CRLF_def)
  have "length ?len = length ?p" "?p \<noteq> []" using len by simp_all
  from set_content_length_holds [OF h2 this] obtain h3 where h3:
    "hb_set_content_length (length ?a + length ?p) ?n (hs_outs body ?h1) = Some h3"
    "hs_holds (bf_str (hs_buf h)) (?a @ bytes ?len @ ?b) h3" by blast
  have "hs_commit (hs_outs body ?h1) = Some (hb_commit h3)"
    using h3(1) cl pc len by (simp add: hs_commit_def)
  moreover have "?a @ bytes ?len @ ?b = bytes (response_head status reason ct no_cache ?len @ concat body)" by (simp add: head)
  ultimately show ?thesis using hb_commit_holds [OF h3(2)] by simp
qed

text \<open>
  C17: A response of up to \<open>10^10 - 1\<close> bytes in the body reaches the buffer as one framed message behind the bytes that were there: the
  status line and headers, a content length that is the length of the body, and the body, whatever pieces it is written in and whatever
  the stream was used for before.
\<close>

theorem http_response_framed:
  assumes "bf_inv (hs_buf h)" "length (concat body) < 10 ^ 10"
  shows "\<exists>h'. hs_commit (hs_outs body (http_status status reason (Some ct) no_cache h)) = Some h' \<and> bf_inv (hs_buf h') \<and>
    bf_str (hs_buf h') = bf_str (hs_buf h) @
      bytes (response_head status reason ct no_cache (nat_string (length (concat body))) @ concat body)"
  by (rule response_framed [OF assms])

theorem http_response_framed_witness:
  "\<exists>h'. hs_commit (hs_outs [''hello'', '' world''] (http_status 200 ''OK'' (Some ''text/plain'') False (hs_new bf_new))) = Some h' \<and>
    bf_str (hs_buf h') = bytes (response_head 200 ''OK'' ''text/plain'' False (nat_string 11) @ ''hello world'')"
proof -
  have e: "length ''hello world'' = 11" "concat [''hello'', '' world''] = ''hello world''" by simp_all
  from http_response_framed [of "hs_new bf_new" "[''hello'', '' world'']" 200 "''OK''" "''text/plain''" False]
  show ?thesis unfolding e by (simp add: hs_new_def) (metis bytes_simps(1))
qed

text \<open>
  A request written by a client is left behind the committed bytes: neither \<open>http_request\<close> nor its caller commits it.
\<close>

lemma http_request_uncommitted:
  assumes "hs_holds old d h"
  shows "\<exists>d'. hs_holds old d' (http_request_headers meth url hdrs h)"
proof -
  have f: "\<exists>d'. hs_holds old d' (fold (\<lambda>(k, v) h. hs_out CRLF (hs_out v (hs_out '':'' (hs_out k h)))) hdrs h)"
    if "hs_holds old d h" for d h
    using that
  proof (induction hdrs arbitrary: d h)
    case (Cons x hdrs)
    obtain k v where x: "x = (k, v)" by (cases x)
    from Cons.IH [OF hs_out_holds [OF hs_out_holds [OF hs_out_holds [OF hs_out_holds [OF Cons.prems]]]], of CRLF v "'':''" k]
    show ?case by (simp add: x)
  qed auto
  from f [OF hs_out_holds [OF hs_out_holds [OF hs_out_holds [OF hs_out_holds [OF hs_out_holds [OF assms]]]]],
      of "'' HTTP/1.1'' @ CRLF" "'' ''" url "'' ''" meth]
  obtain d' where "hs_holds old d' (fold (\<lambda>(k, v) h. hs_out CRLF (hs_out v (hs_out '':'' (hs_out k h)))) hdrs
      (hs_out ('' HTTP/1.1'' @ CRLF) (hs_out '' '' (hs_out url (hs_out '' '' (hs_out meth h))))))" by blast
  from hs_out_holds [OF this, of CRLF] show ?thesis unfolding http_request_headers_def by blast
qed

subsection \<open>Requests and responses\<close>

text \<open>\<open>HttpMethod\<close> is the number that the parser reports; \<open>Get\<close> is 1.\<close>

definition Get :: nat where "Get = 1"

record http_request =
  rq_method :: nat
  rq_url :: string
  rq_headers :: "(string \<times> string) list"
  rq_body :: string

definition rq_new :: http_request where
  "rq_new = \<lparr>rq_method = Get, rq_url = [], rq_headers = [], rq_body = []\<rparr>"

definition rq_clear :: "http_request \<Rightarrow> http_request" where
  "rq_clear r = r\<lparr>rq_method := Get, rq_url := [], rq_headers := [], rq_body := []\<rparr>"

definition rq_set_method :: "nat \<Rightarrow> http_request \<Rightarrow> http_request" where "rq_set_method m r = r\<lparr>rq_method := m\<rparr>"
definition rq_append_url :: "string \<Rightarrow> http_request \<Rightarrow> http_request" where "rq_append_url sv r = r\<lparr>rq_url := rq_url r @ sv\<rparr>"
definition rq_append_body :: "string \<Rightarrow> http_request \<Rightarrow> http_request" where "rq_append_body sv r = r\<lparr>rq_body := rq_body r @ sv\<rparr>"

text \<open>\<open>headers_.back()\<close> of an empty vector is undefined: \<open>None\<close>.\<close>

definition on_back :: "('a \<Rightarrow> 'a) \<Rightarrow> 'a list \<Rightarrow> 'a list option" where
  "on_back f xs = (if xs = [] then None else Some (butlast xs @ [f (last xs)]))"

definition rq_append_header_field :: "string \<Rightarrow> bool \<Rightarrow> http_request \<Rightarrow> http_request option" where
  "rq_append_header_field sv is_first r =
     map_option (\<lambda>hs. r\<lparr>rq_headers := hs\<rparr>)
       (if is_first then Some (rq_headers r @ [(sv, [])]) else on_back (\<lambda>(k, v). (k @ sv, v)) (rq_headers r))"

definition rq_append_header_value :: "string \<Rightarrow> bool \<Rightarrow> http_request \<Rightarrow> http_request option" where
  "rq_append_header_value sv is_first r =
     map_option (\<lambda>hs. r\<lparr>rq_headers := hs\<rparr>) (on_back (\<lambda>(k, v). (k, v @ sv)) (rq_headers r))"

definition http_request_string :: "(nat \<Rightarrow> string) \<Rightarrow> http_request \<Rightarrow> string" where
  "http_request_string method_name r =
     method_name (rq_method r) @ '', url='' @ rq_url r @ concat (map (\<lambda>(k, v). '', hdr: '' @ k @ '':'' @ v) (rq_headers r))"

record http_response =
  rs_headers :: "(string \<times> string) list"
  rs_status :: string

definition rs_reset :: "http_response \<Rightarrow> http_response" where
  "rs_reset r = r\<lparr>rs_headers := [], rs_status := []\<rparr>"

definition rs_set_status :: "string \<Rightarrow> http_response \<Rightarrow> http_response" where
  "rs_set_status val r = r\<lparr>rs_status := val\<rparr>"

subsection \<open>Header callbacks\<close>

text \<open>
  The parser hands out the names and values of headers in pieces; \<open>last_header_elem_\<close> tells the first piece of a name or of a value
  from those that continue it.
\<close>

datatype header_elem = HNone | HField | HValue

definition header_field :: "string \<Rightarrow> header_elem \<times> http_request \<Rightarrow> (header_elem \<times> http_request) option" where
  "header_field sv s = (case s of (e, r) \<Rightarrow> map_option (Pair HField) (rq_append_header_field sv (e \<noteq> HField) r))"

definition header_value :: "string \<Rightarrow> header_elem \<times> http_request \<Rightarrow> (header_elem \<times> http_request) option" where
  "header_value sv s = (case s of (e, r) \<Rightarrow> map_option (Pair HValue) (rq_append_header_value sv (e \<noteq> HValue) r))"

text \<open>The callbacks for headers given as pieces of names and pieces of values.\<close>

fun fold_opt :: "('a \<Rightarrow> 's \<Rightarrow> 's option) \<Rightarrow> 'a list \<Rightarrow> 's \<Rightarrow> 's option" where
  "fold_opt f [] s = Some s"
| "fold_opt f (x # xs) s = Option.bind (f x s) (fold_opt f xs)"

definition header_calls :: "(string list \<times> string list) \<Rightarrow> header_elem \<times> http_request \<Rightarrow> (header_elem \<times> http_request) option" where
  "header_calls kv s = (case kv of (ks, vs) \<Rightarrow> Option.bind (fold_opt header_field ks s) (fold_opt header_value vs))"

lemma header_fields_more:
  "rq_headers r = hs @ [(k, v)] \<Longrightarrow>
   fold_opt header_field ks (HField, r) = Some (HField, r\<lparr>rq_headers := hs @ [(k @ concat ks, v)]\<rparr>)"
proof (induction ks arbitrary: k r)
  case (Cons x ks)
  thus ?case using Cons.IH [of "r\<lparr>rq_headers := hs @ [(k @ x, v)]\<rparr>" "k @ x"]
    by (simp add: header_field_def rq_append_header_field_def on_back_def)
qed (cases r; simp)

lemma header_values_more:
  "rq_headers r = hs @ [(k, v)] \<Longrightarrow>
   fold_opt header_value vs (e, r) = Some (if vs = [] then e else HValue, r\<lparr>rq_headers := hs @ [(k, v @ concat vs)]\<rparr>)"
proof (induction vs arbitrary: v r e)
  case (Cons x vs)
  thus ?case using Cons.IH [of "r\<lparr>rq_headers := hs @ [(k, v @ x)]\<rparr>" "v @ x" HValue]
    by (simp add: header_value_def rq_append_header_value_def on_back_def)
qed (cases r; simp)

lemma headers_assembled:
  assumes "\<forall>(ks, vs) \<in> set hs. ks \<noteq> [] \<and> vs \<noteq> []" "e \<noteq> HField"
  shows "\<exists>e'. e' \<noteq> HField \<and> fold_opt header_calls hs (e, r) =
    Some (e', r\<lparr>rq_headers := rq_headers r @ map (\<lambda>(ks, vs). (concat ks, concat vs)) hs\<rparr>)"
  using assms
proof (induction hs arbitrary: e r)
  case (Cons h hs)
  obtain ks vs where h: "h = (ks, vs)" by (cases h)
  with Cons.prems obtain k ks' where k: "ks = k # ks'" "vs \<noteq> []" by (cases ks) auto
  let ?r = "r\<lparr>rq_headers := rq_headers r @ [(concat ks, concat vs)]\<rparr>"
  have "header_calls h (e, r) = Some (HValue, ?r)"
    using header_fields_more [of "r\<lparr>rq_headers := rq_headers r @ [(k, [])]\<rparr>" "rq_headers r" k "[]" ks']
      header_values_more [of "r\<lparr>rq_headers := rq_headers r @ [(concat ks, [])]\<rparr>" "rq_headers r" "concat ks" "[]" vs HField] Cons.prems(2) k
    by (simp add: h header_calls_def header_field_def rq_append_header_field_def)
  moreover have "\<exists>e'. e' \<noteq> HField \<and> fold_opt header_calls hs (HValue, ?r) =
      Some (e', ?r\<lparr>rq_headers := rq_headers ?r @ map (\<lambda>(ks, vs). (concat ks, concat vs)) hs\<rparr>)"
    using Cons.IH [of HValue ?r] Cons.prems(1) by simp
  ultimately show ?case by (simp add: h)
qed (cases r; simp)

text \<open>
  Whatever pieces the parser cuts the names and values of the headers into, the request ends up with exactly the headers of the
  message, in order, behind those it had.
\<close>

theorem http_headers_assembled:
  assumes "\<forall>(ks, vs) \<in> set hs. ks \<noteq> [] \<and> vs \<noteq> []" "e \<noteq> HField"
  shows "\<exists>e'. e' \<noteq> HField \<and> fold_opt header_calls hs (e, r) =
    Some (e', r\<lparr>rq_headers := rq_headers r @ map (\<lambda>(ks, vs). (concat ks, concat vs)) hs\<rparr>)"
  by (rule headers_assembled [OF assms])

theorem http_headers_assembled_witness:
  "\<exists>e'. fold_opt header_calls [([''Ho'', ''st''], [''a'']), ([''X''], ['''', ''b''])] (HNone, rq_new) =
    Some (e', rq_new\<lparr>rq_headers := [(''Host'', ''a''), (''X'', ''b'')]\<rparr>)"
  using http_headers_assembled [of "[([''Ho'', ''st''], [''a'']), ([''X''], ['''', ''b''])]" HNone rq_new]
  by (auto simp: rq_new_def)

end
