(* ===== verification/HttpConns.thy ===== *)
theory HttpConns
  imports HttpStreams Reactors
begin

text \<open>
  Server connections, \<open>http/Conn.hpp\<close> (\<open>IsClient\<close> is false), with the parser of \<open>http/Parser.hpp\<close>. The vendored \<open>http_parser\<close> and the application
  are parameters; the socket answers with scripted results. The client variant uses operations that \<open>HttpResponse\<close> does not have and is
  not modelled.
\<close>

subsection \<open>State and environment\<close>

text \<open>The callbacks of the parser; \<open>on_headers_complete\<close> comes with the method of the message.\<close>

datatype parser_event =
    EvBegin | EvUrl string | EvStatus string | EvField string | EvValue string | EvHeadersEnd nat
  | EvBody string | EvMessageEnd | EvChunkHeader nat | EvChunkEnd

text \<open>A response of the application: status, reason, content type, whether \<open>no-cache\<close>, and the pieces of the body.\<close>

type_synonym response = "nat \<times> string \<times> string option \<times> bool \<times> string list"

text \<open>
  \<open>he_execute p buf\<close> is \<open>http_parser_execute\<close> as long as every callback returns zero: the callbacks in order, the number of bytes
  parsed, whether \<open>http_errno\<close> is still \<open>HPE_OK\<close>, and the new state. \<open>he_message\<close> is what the application does with a message: the
  responses it writes, and whether it throws afterwards.
\<close>

record 'p http_env =
  he_execute :: "'p \<Rightarrow> u8 list \<Rightarrow> parser_event list \<times> nat \<times> bool \<times> 'p"
  he_keep_alive :: "'p \<Rightarrow> bool"
  he_url_ok :: "string \<Rightarrow> bool"
  he_message :: "http_request \<Rightarrow> response list \<times> bool"
  he_error :: "response list"

datatype io_event = IoRead | IoWrite

datatype http_obs = ObsConnect | ObsMessage http_request | ObsResponse http_response | ObsError | ObsTimeout | ObsDisconnect

text \<open>
  \<open>hc_outs\<close> is the stream \<open>outs_\<close> with its buffer \<open>out_\<close>. \<open>hc_events\<close> are the events in the poll handle \<open>sub_\<close> and \<open>hc_interest\<close> those the
  handle has committed to the poller. \<open>hc_sent\<close> are the bytes the socket took, \<open>hc_log\<close> the calls of the application's slots.
\<close>

record 'p http_conn =
  hc_parser :: 'p
  hc_errno :: bool
  hc_elem :: header_elem
  hc_in :: buffer
  hc_outs :: http_stream
  hc_req :: http_request
  hc_resp :: http_response
  hc_in_progress :: bool
  hc_write_blocked :: bool
  hc_events :: "io_event set"
  hc_interest :: "io_event set"
  hc_deadline :: int
  hc_dp :: disposer
  hc_alive :: bool
  hc_sent :: "u8 list"
  hc_log :: "http_obs list"

definition hc_out :: "'p http_conn \<Rightarrow> buffer" where "hc_out c = hs_buf (hc_outs c)"

definition hc_set_out :: "buffer \<Rightarrow> 'p http_conn \<Rightarrow> 'p http_conn" where
  "hc_set_out b c = c\<lparr>hc_outs := (hc_outs c)\<lparr>hs_buf := b\<rparr>\<rparr>"

definition hc_note :: "http_obs \<Rightarrow> 'p http_conn \<Rightarrow> 'p http_conn" where
  "hc_note x c = c\<lparr>hc_log := hc_log c @ [x]\<rparr>"

text \<open>\<open>ceil<Seconds>\<close> of the time in nanoseconds, five seconds from now.\<close>

definition schedule_timeout :: "int \<Rightarrow> 'p http_conn \<Rightarrow> 'p http_conn" where
  "schedule_timeout now c = c\<lparr>hc_deadline := - ((- (now + 5000000000)) div 1000000000) * 1000000000\<rparr>"

definition hc_new :: "int \<Rightarrow> 'p \<Rightarrow> 'p http_conn" where
  "hc_new now p = hc_note ObsConnect (schedule_timeout now
     \<lparr>hc_parser = p, hc_errno = False, hc_elem = HNone, hc_in = bf_new, hc_outs = hs_new bf_new, hc_req = rq_new,
      hc_resp = \<lparr>rs_headers = [], rs_status = []\<rparr>, hc_in_progress = False, hc_write_blocked = False,
      hc_events = {IoRead}, hc_interest = {IoRead}, hc_deadline = 0, hc_dp = dp_new, hc_alive = True, hc_sent = [], hc_log = []\<rparr>)"

subsection \<open>Disposal\<close>

text \<open>\<open>dispose_now\<close>; \<open>drain\<close> is how much of the last write the socket takes.\<close>

definition hc_dispose_now :: "nat \<Rightarrow> 'p http_conn \<Rightarrow> 'p http_conn" where
  "hc_dispose_now drain c =
     (let c1 = hc_note ObsDisconnect c;
          c2 = (if \<not> bf_empty (hc_out c1) then c1\<lparr>hc_sent := hc_sent c1 @ take drain (bf_str (hc_out c1))\<rparr> else c1)
      in c2\<lparr>hc_alive := False\<rparr>)"

definition hc_with_dp :: "nat \<Rightarrow> disposer \<Rightarrow> 'p http_conn \<Rightarrow> 'p http_conn" where
  "hc_with_dp drain d c =
     (if dp_calls d > dp_calls (hc_dp c) then hc_dispose_now drain (c\<lparr>hc_dp := d\<rparr>) else c\<lparr>hc_dp := d\<rparr>)"

definition hc_dispose :: "nat \<Rightarrow> 'p http_conn \<Rightarrow> 'p http_conn" where
  "hc_dispose drain c = hc_with_dp drain (dp_dispose_op (hc_dp c)) c"

definition hc_lock :: "'p http_conn \<Rightarrow> 'p http_conn" where
  "hc_lock c = c\<lparr>hc_dp := dp_lock (hc_dp c)\<rparr>"

definition hc_unlock :: "nat \<Rightarrow> 'p http_conn \<Rightarrow> 'p http_conn" where
  "hc_unlock drain c = hc_with_dp drain (dp_unlock (hc_dp c)) c"

subsection \<open>Callbacks\<close>

definition hs_respond :: "response \<Rightarrow> http_stream \<Rightarrow> http_stream option" where
  "hs_respond r h = (case r of (status, reason, ct, no_cache, body) \<Rightarrow>
     hs_commit (hs_outs body (http_status status reason ct no_cache h)))"

definition hc_respond :: "response list \<Rightarrow> 'p http_conn \<Rightarrow> 'p http_conn option" where
  "hc_respond rs c = map_option (\<lambda>h. c\<lparr>hc_outs := h\<rparr>) (fold_opt hs_respond rs (hc_outs c))"

text \<open>\<open>on_http_error\<close> followed by \<open>dispose\<close>.\<close>

definition hc_fail :: "'p http_env \<Rightarrow> nat \<Rightarrow> 'p http_conn \<Rightarrow> 'p http_conn option" where
  "hc_fail env drain c = map_option (hc_dispose drain) (hc_respond (he_error env) (hc_note ObsError c))"

definition on_message_end :: "'p http_env \<Rightarrow> nat \<Rightarrow> 'p http_conn \<Rightarrow> ('p http_conn \<times> bool) option" where
  "on_message_end env drain c =
     (let c1 = c\<lparr>hc_in_progress := False\<rparr> in
      if \<not> he_url_ok env (rq_url (hc_req c1)) then map_option (\<lambda>c. (c, False)) (hc_fail env drain c1)
      else case he_message env (hc_req c1) of (rs, throws) \<Rightarrow>
        Option.bind (hc_respond rs (hc_note (ObsMessage (hc_req c1)) c1))
          (\<lambda>c2. if throws then map_option (\<lambda>c. (c, False)) (hc_fail env drain c2) else Some (c2, True)))"

text \<open>
  A callback; false makes the parser stop with an error. The slot that is called with the status of a response is assumed not to write to its stream, \<open>ins_\<close>,
  which is over the input buffer; a parser of requests never reports a status.
\<close>

definition hc_event :: "'p http_env \<Rightarrow> nat \<Rightarrow> parser_event \<Rightarrow> 'p http_conn \<Rightarrow> ('p http_conn \<times> bool) option" where
  "hc_event env drain e c =
     (case e of
        EvBegin \<Rightarrow> Some (c\<lparr>hc_in_progress := True, hc_req := rq_clear (hc_req c)\<rparr>, True)
      | EvUrl sv \<Rightarrow> Some (c\<lparr>hc_req := rq_append_url sv (hc_req c)\<rparr>, True)
      | EvStatus sv \<Rightarrow> (let rs = rs_set_status sv (rs_reset (hc_resp c)) in Some (hc_note (ObsResponse rs) (c\<lparr>hc_resp := rs\<rparr>), False))
      | EvField sv \<Rightarrow> map_option (\<lambda>(el, r). (c\<lparr>hc_elem := el, hc_req := r\<rparr>, True)) (header_field sv (hc_elem c, hc_req c))
      | EvValue sv \<Rightarrow> map_option (\<lambda>(el, r). (c\<lparr>hc_elem := el, hc_req := r\<rparr>, True)) (header_value sv (hc_elem c, hc_req c))
      | EvHeadersEnd m \<Rightarrow> Some (c\<lparr>hc_req := rq_set_method m (hc_req c)\<rparr>, True)
      | EvBody sv \<Rightarrow> Some (c\<lparr>hc_req := rq_append_body sv (hc_req c)\<rparr>, True)
      | EvMessageEnd \<Rightarrow> on_message_end env drain c
      | EvChunkHeader n \<Rightarrow> Some (c, True)
      | EvChunkEnd \<Rightarrow> Some (c, True))"

fun hc_run_events :: "'p http_env \<Rightarrow> nat \<Rightarrow> parser_event list \<Rightarrow> 'p http_conn \<Rightarrow> ('p http_conn \<times> bool) option" where
  "hc_run_events env drain [] c = Some (c, True)"
| "hc_run_events env drain (e # es) c =
     Option.bind (hc_event env drain e c) (\<lambda>(c1, ok). if ok then hc_run_events env drain es c1 else Some (c1, False))"

text \<open>
  \<open>parse\<close>: the number of bytes parsed, or \<open>None\<close> for the \<open>HttpException\<close>. A parser that is in error is not run again.
\<close>

definition hc_parse :: "'p http_env \<Rightarrow> nat \<Rightarrow> 'p http_conn \<Rightarrow> ('p http_conn \<times> nat option) option" where
  "hc_parse env drain c =
     (if hc_errno c then Some (c, None)
      else case he_execute env (hc_parser c) (bf_str (hc_in c)) of (evs, n, ok, p) \<Rightarrow>
        map_option (\<lambda>(c1, cont). if cont \<and> ok then (c1\<lparr>hc_parser := p\<rparr>, Some n) else (c1\<lparr>hc_parser := p, hc_errno := True\<rparr>, None))
          (hc_run_events env drain evs c))"

subsection \<open>Input and output\<close>

text \<open>The answers of the socket to \<open>read\<close>: nothing there, an error, or bytes, none at the end of the stream.\<close>

datatype sock_read = RBlock | RError | RData "u8 list"
datatype reads_end = ReadsStop | ReadsEof | ReadsError
datatype io_end = ThrowHttp | ThrowOther | RetTrue | RetFalse

fun hc_reads :: "nat \<Rightarrow> sock_read list \<Rightarrow> buffer \<Rightarrow> buffer \<times> reads_end" where
  "hc_reads 0 rs b = (b, ReadsStop)"
| "hc_reads (Suc i) rs b =
     (case bf_prepare 2944 b of (avail, b1) \<Rightarrow>
        case rs of
          [] \<Rightarrow> (b1, ReadsStop)
        | RBlock # _ \<Rightarrow> (b1, ReadsStop)
        | RError # _ \<Rightarrow> (b1, ReadsError)
        | RData d # rs1 \<Rightarrow>
            let s = take avail d in
            if s = [] then (b1, ReadsEof)
            else
              let b2 = bf_commit (length s) (bf_fill s b1) in
              if length s < avail then (b2, ReadsStop) else hc_reads i rs1 b2)"

definition flush_input :: "'p http_env \<Rightarrow> nat \<Rightarrow> 'p http_conn \<Rightarrow> ('p http_conn \<times> bool) option" where
  "flush_input env drain c =
     map_option (\<lambda>(c1, r). case r of Some n \<Rightarrow> (c1\<lparr>hc_in := bf_consume n (hc_in c1)\<rparr>, True) | None \<Rightarrow> (c1, False)) (hc_parse env drain c)"

definition drain_input :: "'p http_env \<Rightarrow> nat \<Rightarrow> int \<Rightarrow> sock_read list \<Rightarrow> 'p http_conn \<Rightarrow> ('p http_conn \<times> io_end) option" where
  "drain_input env drain now rs c =
     (case hc_reads 4 rs (hc_in c) of (b, e) \<Rightarrow>
        let c1 = c\<lparr>hc_in := b\<rparr> in
        case e of
          ReadsError \<Rightarrow> Some (c1, ThrowOther)
        | ReadsEof \<Rightarrow> map_option (\<lambda>(c2, ok). (c2, if ok then RetFalse else ThrowHttp)) (flush_input env drain c1)
        | ReadsStop \<Rightarrow>
            map_option (\<lambda>(c2, ok). if ok then (schedule_timeout now c2, RetTrue) else (c2, ThrowHttp)) (flush_input env drain c1))"

text \<open>\<open>flush_output\<close>; \<open>w\<close> is what the socket takes of the write, \<open>None\<close> if it fails, which \<open>os::write\<close> throws, also when it would block.\<close>

definition flush_output :: "'p http_env \<Rightarrow> nat \<Rightarrow> nat option \<Rightarrow> 'p http_conn \<Rightarrow> 'p http_conn option" where
  "flush_output env drain w c =
     (case w of
        None \<Rightarrow> None
      | Some k \<Rightarrow>
          let n = min k (bf_size (hc_out c));
              c1 = hc_set_out (bf_consume n (hc_out c)) (c\<lparr>hc_sent := hc_sent c @ take n (bf_str (hc_out c))\<rparr>)
          in Some
            (if bf_empty (hc_out c1) then
               if \<not> hc_in_progress c1 \<and> \<not> he_keep_alive env (hc_parser c1) then hc_dispose drain c1
               else if hc_write_blocked c1 then c1\<lparr>hc_events := {IoRead}, hc_write_blocked := False\<rparr>
               else c1
             else if \<not> hc_write_blocked c1 then c1\<lparr>hc_events := {IoRead, IoWrite}, hc_write_blocked := True\<rparr>
             else c1))"

definition hc_io_body :: "'p http_env \<Rightarrow> int \<Rightarrow> sock_read list \<Rightarrow> nat option \<Rightarrow> nat \<Rightarrow> io_event set \<Rightarrow> 'p http_conn \<Rightarrow> 'p http_conn option" where
  "hc_io_body env now rs w drain evs c =
     Option.bind (if IoRead \<in> evs then drain_input env drain now rs c else Some (c, RetTrue))
       (\<lambda>(c1, r). case r of
          RetFalse \<Rightarrow> Some (hc_dispose drain c1)
        | ThrowHttp \<Rightarrow> Some c1
        | ThrowOther \<Rightarrow> hc_fail env drain c1
        | RetTrue \<Rightarrow>
            if bf_empty (hc_out c1) \<or> (hc_write_blocked c1 \<and> IoWrite \<notin> evs) then Some c1
            else (case flush_output env drain w c1 of Some c2 \<Rightarrow> Some c2 | None \<Rightarrow> hc_fail env drain c1))"

definition on_io_event :: "'p http_env \<Rightarrow> int \<Rightarrow> sock_read list \<Rightarrow> nat option \<Rightarrow> nat \<Rightarrow> io_event set \<Rightarrow> 'p http_conn \<Rightarrow> 'p http_conn option" where
  "on_io_event env now rs w drain evs c = map_option (hc_unlock drain) (hc_io_body env now rs w drain evs (hc_lock c))"

definition on_timeout_timer :: "nat \<Rightarrow> 'p http_conn \<Rightarrow> 'p http_conn" where
  "on_timeout_timer drain c = hc_unlock drain (hc_dispose drain (hc_note ObsTimeout (hc_lock c)))"

subsection \<open>What the peer receives\<close>

definition response_bytes :: "response \<Rightarrow> u8 list" where
  "response_bytes r = (case r of (status, reason, ct, no_cache, body) \<Rightarrow>
     (case ct of
        Some t \<Rightarrow> bytes (response_head status reason t no_cache (nat_string (length (concat body))) @ concat body)
      | None \<Rightarrow> bytes (''HTTP/1.1 '' @ nat_string status @ '' '' @ reason @
          (if no_cache then CRLF @ ''Cache-Control: no-cache'' else []) @ CRLF @ CRLF @ concat body)))"

definition response_ok :: "response \<Rightarrow> bool" where
  "response_ok r \<longleftrightarrow> (case r of (status, reason, ct, no_cache, body) \<Rightarrow> length (concat body) < 10 ^ 10)"

definition responses_bytes :: "response list \<Rightarrow> u8 list" where
  "responses_bytes rs = concat (map response_bytes rs)"

lemma hs_respond_ok:
  assumes "bf_inv (hs_buf h)" "response_ok r"
  shows "\<exists>h'. hs_respond r h = Some h' \<and> bf_inv (hs_buf h') \<and> bf_str (hs_buf h') = bf_str (hs_buf h) @ response_bytes r"
proof -
  obtain status reason ct no_cache body where r: "r = (status, reason, ct, no_cache, body)" by (cases r)
  show ?thesis
  proof (cases ct)
    case (Some t)
    with response_framed [OF assms(1), of body status reason t no_cache] assms(2) show ?thesis
      by (simp add: r response_ok_def hs_respond_def response_bytes_def)
  next
    case None
    let ?h = "hs_out reason (hs_out '' '' (hs_out (nat_string status) (hs_out ''HTTP/1.1 '' (hb_reset h))))"
    let ?d = "bytes ''HTTP/1.1 '' @ bytes (nat_string status) @ bytes '' '' @ bytes reason"
    let ?h3 = "if no_cache then hs_out (CRLF @ ''Cache-Control: no-cache'') ?h else ?h"
    let ?d3 = "?d @ bytes (if no_cache then CRLF @ ''Cache-Control: no-cache'' else [])"
    have "hs_holds (bf_str (hs_buf h)) ?d ?h"
      using hs_out_holds [OF hs_out_holds [OF hs_out_holds [OF hs_out_holds [OF hs_holds_reset [OF assms(1)]]]],
          of "''HTTP/1.1 ''" "nat_string status" "'' ''" reason] by simp
    note d = this
    have "hs_holds (bf_str (hs_buf h)) ?d3 ?h3"
      using d hs_out_holds [OF d, of "CRLF @ ''Cache-Control: no-cache''"] by (cases no_cache) auto
    hence "hs_holds (bf_str (hs_buf h)) (?d3 @ bytes (CRLF @ CRLF)) (http_status status reason None no_cache h)"
      using hs_out_holds [of _ ?d3 "?h3\<lparr>hs_cloff := 0\<rparr>" "CRLF @ CRLF"] by (simp add: http_status_def Let_def)
    note o = hs_outs_holds [OF this, of body]
    have "hs_cloff (hs_outs body (http_status status reason None no_cache h)) = 0" by (simp add: http_status_def Let_def)
    with hb_commit_holds [OF o] None show ?thesis
      by (simp add: r hs_respond_def hs_commit_def response_bytes_def)
  qed
qed

lemma hs_responds_ok:
  "\<lbrakk>bf_inv (hs_buf h); list_all response_ok rs\<rbrakk> \<Longrightarrow>
   \<exists>h'. fold_opt hs_respond rs h = Some h' \<and> bf_inv (hs_buf h') \<and> bf_str (hs_buf h') = bf_str (hs_buf h) @ responses_bytes rs"
proof (induction rs arbitrary: h)
  case (Cons r rs)
  from hs_respond_ok [of h r] Cons.prems obtain h1 where
    1: "hs_respond r h = Some h1" "bf_inv (hs_buf h1)" "bf_str (hs_buf h1) = bf_str (hs_buf h) @ response_bytes r" by auto
  with Cons.IH [of h1] Cons.prems(2) show ?case by (auto simp: responses_bytes_def)
qed (simp add: responses_bytes_def)

text \<open>The bytes that a call of a slot writes.\<close>

definition obs_bytes :: "'p http_env \<Rightarrow> http_obs \<Rightarrow> u8 list" where
  "obs_bytes env x = (case x of
     ObsMessage r \<Rightarrow> responses_bytes (fst (he_message env r)) | ObsError \<Rightarrow> responses_bytes (he_error env) | _ \<Rightarrow> [])"

definition log_bytes :: "'p http_env \<Rightarrow> http_obs list \<Rightarrow> u8 list" where
  "log_bytes env xs = concat (map (obs_bytes env) xs)"

lemma log_bytes_snoc [simp]: "log_bytes env (xs @ [x]) = log_bytes env xs @ obs_bytes env x"
  by (simp add: log_bytes_def)

definition env_ok :: "'p http_env \<Rightarrow> bool" where
  "env_ok env \<longleftrightarrow> (\<forall>r. list_all response_ok (fst (he_message env r))) \<and> list_all response_ok (he_error env)"

text \<open>A connection in use, with \<open>n\<close> locks held.\<close>

definition hc_ok :: "'p http_env \<Rightarrow> nat \<Rightarrow> 'p http_conn \<Rightarrow> bool" where
  "hc_ok env n c \<longleftrightarrow> bf_inv (hc_out c) \<and> hc_sent c @ bf_str (hc_out c) = log_bytes env (hc_log c) \<and> hc_alive c \<and>
     hc_interest c = {IoRead} \<and> ObsDisconnect \<notin> set (hc_log c) \<and> dp_calls (hc_dp c) = 0 \<and> dp_locks (hc_dp c) = n"

lemma hc_ok_fields [simp]:
  "hc_ok env n (c\<lparr>hc_parser := x1\<rparr>) = hc_ok env n c" "hc_ok env n (c\<lparr>hc_errno := x2\<rparr>) = hc_ok env n c"
  "hc_ok env n (c\<lparr>hc_elem := x3\<rparr>) = hc_ok env n c" "hc_ok env n (c\<lparr>hc_in := x4\<rparr>) = hc_ok env n c"
  "hc_ok env n (c\<lparr>hc_req := x5\<rparr>) = hc_ok env n c" "hc_ok env n (c\<lparr>hc_resp := x6\<rparr>) = hc_ok env n c"
  "hc_ok env n (c\<lparr>hc_in_progress := x7\<rparr>) = hc_ok env n c" "hc_ok env n (c\<lparr>hc_write_blocked := x8\<rparr>) = hc_ok env n c"
  "hc_ok env n (c\<lparr>hc_events := x9\<rparr>) = hc_ok env n c" "hc_ok env n (c\<lparr>hc_deadline := x10\<rparr>) = hc_ok env n c"
  by (simp_all add: hc_ok_def hc_out_def)

lemma hc_dispose_locked: "hc_ok env (Suc n) c \<Longrightarrow> hc_dispose drain c = c\<lparr>hc_dp := (hc_dp c)\<lparr>dp_dispose := True\<rparr>\<rparr>"
  by (simp add: hc_ok_def hc_dispose_def hc_with_dp_def dp_dispose_op_def)

lemma hc_dispose_ok: "hc_ok env (Suc n) c \<Longrightarrow> hc_ok env (Suc n) (hc_dispose drain c)"
  using hc_dispose_locked [of env n c drain] by (simp add: hc_ok_def hc_out_def)

lemma hc_respond_note:
  assumes "hc_ok env n c" "list_all response_ok rs" "obs_bytes env x = responses_bytes rs" "x \<noteq> ObsDisconnect"
  shows "\<exists>c'. hc_respond rs (hc_note x c) = Some c' \<and> hc_ok env n c' \<and> hc_log c' = hc_log c @ [x] \<and>
    bf_str (hc_out c') = bf_str (hc_out c) @ responses_bytes rs \<and> hc_in_progress c' = hc_in_progress c \<and> hc_req c' = hc_req c"
proof -
  from assms(1) have "bf_inv (hs_buf (hc_outs c))" by (simp add: hc_ok_def hc_out_def)
  from hs_responds_ok [OF this assms(2)] obtain h where h: "fold_opt hs_respond rs (hc_outs c) = Some h"
    "bf_inv (hs_buf h)" "bf_str (hs_buf h) = bf_str (hs_buf (hc_outs c)) @ responses_bytes rs" by blast
  from assms(1) have "hc_sent c @ bf_str (hs_buf (hc_outs c)) = log_bytes env (hc_log c)" by (simp add: hc_ok_def hc_out_def)
  hence "hc_sent c @ bf_str (hs_buf (hc_outs c)) @ responses_bytes rs = log_bytes env (hc_log c) @ responses_bytes rs"
    by (metis append_assoc)
  with assms h show ?thesis by (auto simp: hc_respond_def hc_note_def hc_ok_def hc_out_def)
qed

lemma hc_fail_ok:
  assumes "env_ok env" "hc_ok env (Suc n) c" "hc_fail env drain c = Some c'"
  shows "hc_ok env (Suc n) c' \<and> hc_log c' = hc_log c @ [ObsError] \<and> dp_dispose (hc_dp c')"
proof -
  have "obs_bytes env ObsError = responses_bytes (he_error env)" by (simp add: obs_bytes_def)
  with hc_respond_note [OF assms(2), of "he_error env" ObsError] assms(1,3) obtain c1 where
    c1: "hc_ok env (Suc n) c1" "c' = hc_dispose drain c1" "hc_log c1 = hc_log c @ [ObsError]"
    by (auto simp: hc_fail_def env_ok_def)
  with hc_dispose_ok [OF c1(1), of drain] hc_dispose_locked [OF c1(1), of drain] show ?thesis by simp
qed

lemma on_message_end_ok:
  assumes "env_ok env" "hc_ok env (Suc n) c" "on_message_end env drain c = Some (c', b)"
  shows "hc_ok env (Suc n) c'"
proof (cases "he_url_ok env (rq_url (hc_req c))")
  case False
  with assms(3) obtain "hc_fail env drain (c\<lparr>hc_in_progress := False\<rparr>) = Some c'" by (auto simp: on_message_end_def Let_def)
  with hc_fail_ok [OF assms(1), of n "c\<lparr>hc_in_progress := False\<rparr>" drain c'] assms(2) show ?thesis by simp
next
  case True
  obtain rs th where m: "he_message env (hc_req c) = (rs, th)" by fastforce
  have "list_all response_ok rs" "obs_bytes env (ObsMessage (hc_req c)) = responses_bytes rs"
    using assms(1) m by (auto simp: env_ok_def obs_bytes_def dest: spec [of _ "hc_req c"])
  with hc_respond_note [of env "Suc n" "c\<lparr>hc_in_progress := False\<rparr>" rs "ObsMessage (hc_req c)"] assms(2) obtain c1 where
    c1: "hc_respond rs (hc_note (ObsMessage (hc_req c)) (c\<lparr>hc_in_progress := False\<rparr>)) = Some c1" "hc_ok env (Suc n) c1" by auto
  with assms(3) m True hc_fail_ok [OF assms(1) c1(2), of drain c'] show ?thesis
    by (auto simp: on_message_end_def Let_def split: if_splits)
qed

lemma hc_event_ok:
  assumes "env_ok env" "hc_ok env (Suc n) c" "hc_event env drain e c = Some (c', b)"
  shows "hc_ok env (Suc n) c'"
  using assms on_message_end_ok [OF assms(1,2)]
  by (cases e) (auto simp: hc_event_def Let_def hc_ok_def hc_note_def hc_out_def obs_bytes_def)

lemma hc_run_events_ok:
  assumes "env_ok env"
  shows "\<lbrakk>hc_ok env (Suc n) c; hc_run_events env drain es c = Some (c', b)\<rbrakk> \<Longrightarrow> hc_ok env (Suc n) c'"
proof (induction es arbitrary: c)
  case (Cons e es)
  from Cons.prems(2) obtain c1 b1 where "hc_event env drain e c = Some (c1, b1)"
      "(if b1 then hc_run_events env drain es c1 else Some (c1, False)) = Some (c', b)"
    by (auto split: bind_splits)
  with hc_event_ok [OF assms Cons.prems(1)] Cons.IH [of c1] show ?case by (cases b1) auto
qed simp

lemma flush_input_ok:
  assumes "env_ok env" "hc_ok env (Suc n) c" "flush_input env drain c = Some (c', b)"
  shows "hc_ok env (Suc n) c'"
proof (cases "hc_errno c")
  case True
  with assms(2,3) show ?thesis by (auto simp: flush_input_def hc_parse_def)
next
  case False
  obtain evs k ok p where e: "he_execute env (hc_parser c) (bf_str (hc_in c)) = (evs, k, ok, p)" by (metis prod_cases4)
  with False assms(3) obtain c1 cont where r: "hc_run_events env drain evs c = Some (c1, cont)"
    by (auto simp: flush_input_def hc_parse_def)
  from hc_run_events_ok [OF assms(1,2) r] have "hc_ok env (Suc n) c1" .
  with False assms(3) e r show ?thesis by (auto simp: flush_input_def hc_parse_def split: if_splits)
qed

lemma drain_input_ok:
  assumes "env_ok env" "hc_ok env (Suc n) c" "drain_input env drain now rs c = Some (c', r)"
  shows "hc_ok env (Suc n) c'"
proof -
  obtain b e where h: "hc_reads 4 rs (hc_in c) = (b, e)" by fastforce
  from assms(2) have i: "hc_ok env (Suc n) (c\<lparr>hc_in := b\<rparr>)" by simp
  from flush_input_ok [OF assms(1) i] assms(2,3) h show ?thesis
    by (cases e) (auto simp: drain_input_def schedule_timeout_def split: if_splits)
qed

lemma flush_output_ok:
  assumes "hc_ok env (Suc n) c" "flush_output env drain w c = Some c'"
  shows "hc_ok env (Suc n) c'"
proof -
  obtain k where w: "w = Some k" using assms(2) by (cases w) (auto simp: flush_output_def)
  let ?n = "min k (bf_size (hc_out c))"
  let ?c1 = "hc_set_out (bf_consume ?n (hc_out c)) (c\<lparr>hc_sent := hc_sent c @ take ?n (bf_str (hc_out c))\<rparr>)"
  from assms(1) have i: "bf_inv (hc_out c)" by (simp add: hc_ok_def)
  have "bf_inv (bf_consume ?n (hc_out c))" "bf_str (bf_consume ?n (hc_out c)) = drop ?n (bf_str (hc_out c))"
    using bf_consume_ok [OF i, of ?n] by auto
  with assms(1) have c1: "hc_ok env (Suc n) ?c1"
    by (simp add: hc_ok_def hc_set_out_def hc_out_def)
  with hc_dispose_ok [OF c1, of drain] assms(2) show ?thesis
    by (auto simp: flush_output_def w Let_def split: if_splits)
qed

lemma hc_io_body_ok:
  assumes "env_ok env" "hc_ok env (Suc n) c" "hc_io_body env now rs w drain evs c = Some c'"
  shows "hc_ok env (Suc n) c'"
proof -
  from assms(3) obtain c1 r where r: "(if IoRead \<in> evs then drain_input env drain now rs c else Some (c, RetTrue)) = Some (c1, r)"
    unfolding hc_io_body_def by (auto split: bind_splits)
  hence c1: "hc_ok env (Suc n) c1" using drain_input_ok [OF assms(1,2)] assms(2) by (auto split: if_splits)
  from assms(3) r have "(case r of RetFalse \<Rightarrow> Some (hc_dispose drain c1) | ThrowHttp \<Rightarrow> Some c1 | ThrowOther \<Rightarrow> hc_fail env drain c1
      | RetTrue \<Rightarrow> if bf_empty (hc_out c1) \<or> (hc_write_blocked c1 \<and> IoWrite \<notin> evs) then Some c1
          else (case flush_output env drain w c1 of Some c2 \<Rightarrow> Some c2 | None \<Rightarrow> hc_fail env drain c1)) = Some c'"
    by (simp add: hc_io_body_def)
  with c1 hc_dispose_ok [OF c1, of drain] hc_fail_ok [OF assms(1) c1, of drain c'] flush_output_ok [OF c1, of drain w] show ?thesis
    by (cases r) (auto split: if_splits option.splits)
qed

text \<open>A connection between events: in use and free of locks, or gone after its one disconnect.\<close>

definition hc_gone :: "'p http_env \<Rightarrow> 'p http_conn \<Rightarrow> bool" where
  "hc_gone env c \<longleftrightarrow> \<not> hc_alive c \<and> (\<exists>l rest. hc_log c = l @ [ObsDisconnect] \<and> ObsDisconnect \<notin> set l \<and>
     log_bytes env l = hc_sent c @ rest)"

definition hc_inv :: "'p http_env \<Rightarrow> 'p http_conn \<Rightarrow> bool" where
  "hc_inv env c \<longleftrightarrow> (if hc_alive c then hc_ok env 0 c \<and> \<not> dp_dispose (hc_dp c) else hc_gone env c)"

lemma hc_dispose_now_gone:
  assumes "hc_ok env n c"
  shows "hc_gone env (hc_dispose_now drain (c\<lparr>hc_dp := d\<rparr>))"
proof -
  let ?c = "c\<lparr>hc_dp := d\<rparr>"
  from assms have o: "hc_sent c @ bf_str (hc_out c) = log_bytes env (hc_log c)" "ObsDisconnect \<notin> set (hc_log c)"
    by (auto simp: hc_ok_def)
  have "log_bytes env (hc_log c) = (hc_sent c @ take drain (bf_str (hc_out c))) @ drop drain (bf_str (hc_out c))"
    using o(1) by simp
  moreover have "hc_sent (hc_dispose_now drain ?c) = hc_sent c @ (if bf_empty (hc_out c) then [] else take drain (bf_str (hc_out c)))"
    "hc_log (hc_dispose_now drain ?c) = hc_log c @ [ObsDisconnect]" "\<not> hc_alive (hc_dispose_now drain ?c)"
    by (simp_all add: hc_dispose_now_def hc_note_def hc_out_def Let_def)
  moreover have "\<exists>rest. log_bytes env (hc_log c) = (hc_sent c @ (if bf_empty (hc_out c) then [] else take drain (bf_str (hc_out c)))) @ rest"
    by (rule exI [of _ "if bf_empty (hc_out c) then bf_str (hc_out c) else drop drain (bf_str (hc_out c))"])
      (simp add: o(1) [symmetric])
  ultimately show ?thesis using o(2) unfolding hc_gone_def by (metis)
qed

lemma hc_unlock_inv:
  assumes "hc_ok env (Suc 0) c"
  shows "hc_inv env (hc_unlock drain c)"
proof (cases "dp_dispose (hc_dp c)")
  case True
  let ?d = "dp_unlock (hc_dp c)"
  from True assms have "dp_calls ?d > dp_calls (hc_dp c)" by (simp add: dp_unlock_def hc_ok_def Let_def)
  hence u: "hc_unlock drain c = hc_dispose_now drain (c\<lparr>hc_dp := ?d\<rparr>)" by (simp add: hc_unlock_def hc_with_dp_def)
  from hc_dispose_now_gone [OF assms, of drain ?d] show ?thesis unfolding u by (simp add: hc_inv_def hc_gone_def)
next
  case False
  with assms show ?thesis by (simp add: hc_unlock_def hc_with_dp_def dp_unlock_def hc_inv_def hc_ok_def hc_out_def Let_def)
qed

text \<open>
  The life of a connection: the poller delivers events it was asked for, the idle timer fires, or the owner disposes it. Nothing happens
  to a connection that is gone.
\<close>

inductive hc_step :: "'p http_env \<Rightarrow> 'p http_conn \<Rightarrow> 'p http_conn \<Rightarrow> bool" for env where
  io: "\<lbrakk>hc_alive c; evs \<subseteq> hc_interest c; on_io_event env now rs w drain evs c = Some c'\<rbrakk> \<Longrightarrow> hc_step env c c'"
| timeout: "hc_alive c \<Longrightarrow> hc_step env c (on_timeout_timer drain c)"
| owner: "hc_alive c \<Longrightarrow> hc_step env c (hc_dispose drain c)"

inductive_cases hc_stepE: "hc_step env c c'"

lemma hc_lock_ok: "hc_ok env n c \<Longrightarrow> hc_ok env (Suc n) (hc_lock c)"
  by (simp add: hc_ok_def hc_lock_def dp_lock_def hc_out_def)

lemma hc_step_inv:
  assumes "env_ok env" "hc_step env c c'" "hc_inv env c"
  shows "hc_inv env c'"
  using assms(2)
proof (cases rule: hc_step.cases)
  case (io evs now rs w drain)
  with assms(3) have "hc_ok env (Suc 0) (hc_lock c)" by (simp add: hc_inv_def hc_lock_ok)
  moreover from io(3) obtain c1 where "hc_io_body env now rs w drain evs (hc_lock c) = Some c1" "c' = hc_unlock drain c1"
    by (auto simp: on_io_event_def)
  ultimately show ?thesis using hc_io_body_ok [OF assms(1), of 0] hc_unlock_inv [of env c1 drain] by auto
next
  case (timeout drain)
  with assms(3) have "hc_ok env (Suc 0) (hc_lock c)" by (simp add: hc_inv_def hc_lock_ok)
  hence "hc_ok env (Suc 0) (hc_note ObsTimeout (hc_lock c))" by (simp add: hc_ok_def hc_note_def hc_out_def obs_bytes_def)
  from hc_unlock_inv [OF hc_dispose_ok [OF this], of drain drain] show ?thesis
    by (simp add: timeout on_timeout_timer_def)
next
  case (owner drain)
  with assms(3) have o: "hc_ok env 0 c" by (simp add: hc_inv_def)
  let ?d = "dp_dispose_op (hc_dp c)"
  from o have "hc_dispose drain c = hc_dispose_now drain (c\<lparr>hc_dp := ?d\<rparr>)"
    by (simp add: hc_dispose_def hc_with_dp_def hc_ok_def dp_dispose_op_def)
  with hc_dispose_now_gone [OF o, of drain ?d] show ?thesis by (simp add: owner hc_inv_def hc_gone_def)
qed

lemma hc_new_inv: "hc_inv env (hc_new now p)"
  by (simp add: hc_inv_def hc_ok_def hc_new_def hc_note_def schedule_timeout_def hc_out_def hs_new_def dp_new_def log_bytes_def obs_bytes_def)

lemma hc_reach_inv: "\<lbrakk>env_ok env; (hc_step env)\<^sup>*\<^sup>* (hc_new now p) c\<rbrakk> \<Longrightarrow> hc_inv env c"
  by (rotate_tac 1, induction rule: rtranclp_induct) (auto intro: hc_new_inv hc_step_inv)

text \<open>
  C3: Whatever happens on a connection, the peer receives the responses to its messages in the order of the messages, each complete
  before the next: the bytes sent are a prefix of them, the rest of which is in the output buffer while the connection is in use.
\<close>

theorem http_output_in_order:
  assumes "env_ok env" "(hc_step env)\<^sup>*\<^sup>* (hc_new now p) c"
  shows "\<exists>rest. log_bytes env (hc_log c) = hc_sent c @ rest \<and> (hc_alive c \<longrightarrow> rest = bf_str (hc_out c))"
proof (cases "hc_alive c")
  case True
  with hc_reach_inv [OF assms] show ?thesis by (auto simp: hc_inv_def hc_ok_def)
next
  case False
  with hc_reach_inv [OF assms] obtain l rest where "hc_log c = l @ [ObsDisconnect]" "log_bytes env l = hc_sent c @ rest"
    by (auto simp: hc_inv_def hc_gone_def)
  with False show ?thesis by (simp add: obs_bytes_def)
qed

text \<open>
  A connection tells the application of its end exactly once, as the last thing it does, and is deleted then, whichever of its
  timer, its owner, the peer and errors inside callbacks ask for it, and however often.
\<close>

theorem http_disposed_once:
  assumes "env_ok env" "(hc_step env)\<^sup>*\<^sup>* (hc_new now p) c"
  shows "(\<not> hc_alive c \<longleftrightarrow> ObsDisconnect \<in> set (hc_log c)) \<and>
    (ObsDisconnect \<in> set (hc_log c) \<longrightarrow> last (hc_log c) = ObsDisconnect \<and> ObsDisconnect \<notin> set (butlast (hc_log c)))"
  using hc_reach_inv [OF assms] by (cases "hc_alive c") (auto simp: hc_inv_def hc_ok_def hc_gone_def)

subsection \<open>Delivery of requests\<close>

text \<open>A message cut into pieces by the parser: the pieces of the URL, of the names and values of the headers, and of the body.\<close>

record message =
  ms_method :: nat
  ms_url :: "string list"
  ms_headers :: "(string list \<times> string list) list"
  ms_body :: "string list"

definition header_events :: "string list \<times> string list \<Rightarrow> parser_event list" where
  "header_events kv = (case kv of (ks, vs) \<Rightarrow> map EvField ks @ map EvValue vs)"

definition message_events :: "message \<Rightarrow> parser_event list" where
  "message_events m = EvBegin # map EvUrl (ms_url m) @ concat (map header_events (ms_headers m)) @ EvHeadersEnd (ms_method m) #
     map EvBody (ms_body m) @ [EvMessageEnd]"

definition message_request :: "message \<Rightarrow> http_request" where
  "message_request m = \<lparr>rq_method = ms_method m, rq_url = concat (ms_url m),
     rq_headers = map (\<lambda>(ks, vs). (concat ks, concat vs)) (ms_headers m), rq_body = concat (ms_body m)\<rparr>"

lemma run_events_append:
  "hc_run_events env drain (xs @ ys) c =
   Option.bind (hc_run_events env drain xs c) (\<lambda>(c1, ok). if ok then hc_run_events env drain ys c1 else Some (c1, False))"
proof (induction xs arbitrary: c)
  case (Cons x xs)
  show ?case by (cases "hc_event env drain x c") (auto simp: Cons split: if_splits)
qed simp

lemma run_urls:
  "hc_run_events env drain (map EvUrl us) c = Some (c\<lparr>hc_req := rq_append_url (concat us) (hc_req c)\<rparr>, True)"
  by (induction us arbitrary: c) (simp_all add: hc_event_def rq_append_url_def)

lemma run_bodies:
  "hc_run_events env drain (map EvBody bs) c = Some (c\<lparr>hc_req := rq_append_body (concat bs) (hc_req c)\<rparr>, True)"
  by (induction bs arbitrary: c) (simp_all add: hc_event_def rq_append_body_def)

lemma run_fields:
  "hc_run_events env drain (map EvField ks) c =
   map_option (\<lambda>(el, r). (c\<lparr>hc_elem := el, hc_req := r\<rparr>, True)) (fold_opt header_field ks (hc_elem c, hc_req c))"
proof (induction ks arbitrary: c)
  case (Cons k ks)
  show ?case by (cases "header_field k (hc_elem c, hc_req c)") (auto simp: hc_event_def Cons split: option.splits)
qed simp

lemma run_values:
  "hc_run_events env drain (map EvValue vs) c =
   map_option (\<lambda>(el, r). (c\<lparr>hc_elem := el, hc_req := r\<rparr>, True)) (fold_opt header_value vs (hc_elem c, hc_req c))"
proof (induction vs arbitrary: c)
  case (Cons v vs)
  show ?case by (cases "header_value v (hc_elem c, hc_req c)") (auto simp: hc_event_def Cons split: option.splits)
qed simp

lemma run_headers:
  "hc_run_events env drain (concat (map header_events hs)) c =
   map_option (\<lambda>(el, r). (c\<lparr>hc_elem := el, hc_req := r\<rparr>, True)) (fold_opt header_calls hs (hc_elem c, hc_req c))"
proof (induction hs arbitrary: c)
  case (Cons h hs)
  obtain ks vs where h: "h = (ks, vs)" by (cases h)
  show ?case
    by (cases "fold_opt header_field ks (hc_elem c, hc_req c)")
      (auto simp: h header_events_def [of "(ks, vs)"] header_calls_def [of "(ks, vs)"] run_events_append run_fields run_values Cons split: option.splits bind_splits)
qed simp

text \<open>
  C16: A message is given to the application exactly as it was sent (method, URL, headers in order, body), once, however the parser and
  the network cut it into pieces, and the application's responses are appended to the output.
\<close>

theorem http_message_delivered:
  assumes "env_ok env" "hc_ok env (Suc n) c" "hc_elem c \<noteq> HField"
    and "\<forall>(ks, vs) \<in> set (ms_headers m). ks \<noteq> [] \<and> vs \<noteq> []"
    and "he_url_ok env (concat (ms_url m))" "he_message env (message_request m) = (rs, False)"
  shows "\<exists>c'. hc_run_events env drain (message_events m) c = Some (c', True) \<and> hc_ok env (Suc n) c' \<and> hc_elem c' \<noteq> HField \<and>
    hc_log c' = hc_log c @ [ObsMessage (message_request m)] \<and> \<not> hc_in_progress c' \<and>
    bf_str (hc_out c') = bf_str (hc_out c) @ responses_bytes rs"
proof -
  let ?r0 = "rq_append_url (concat (ms_url m)) (rq_clear (hc_req c))"
  have "rq_headers ?r0 = []" by (simp add: rq_append_url_def rq_clear_def)
  with headers_assembled [OF assms(4,3), of ?r0] obtain e' where e': "e' \<noteq> HField" "fold_opt header_calls (ms_headers m) (hc_elem c, ?r0) =
      Some (e', ?r0\<lparr>rq_headers := map (\<lambda>(ks, vs). (concat ks, concat vs)) (ms_headers m)\<rparr>)" by auto
  let ?c1 = "c\<lparr>hc_in_progress := True, hc_req := message_request m, hc_elem := e'\<rparr>"
  let ?es = "EvBegin # map EvUrl (ms_url m) @ concat (map header_events (ms_headers m)) @ EvHeadersEnd (ms_method m) # map EvBody (ms_body m)"
  have "hc_run_events env drain ?es c = Some (?c1, True)"
    using e'(2)
    by (simp add: hc_event_def run_events_append run_urls run_headers run_bodies)
      (simp add: rq_append_body_def rq_set_method_def rq_append_url_def rq_clear_def message_request_def)
  moreover have "message_events m = ?es @ [EvMessageEnd]" by (simp add: message_events_def)
  ultimately have run: "hc_run_events env drain (message_events m) c = hc_run_events env drain [EvMessageEnd] ?c1"
    by (simp only: run_events_append) simp
  have rs: "list_all response_ok rs" "obs_bytes env (ObsMessage (message_request m)) = responses_bytes rs"
    using assms(1,6) by (auto simp: env_ok_def obs_bytes_def dest: spec [of _ "message_request m"])
  let ?c2 = "?c1\<lparr>hc_in_progress := False\<rparr>"
  have "hc_ok env (Suc n) ?c2" using assms(2) by simp
  from hc_respond_note [OF this rs(1), of "ObsMessage (message_request m)"] rs(2) obtain c' where
    c': "hc_respond rs (hc_note (ObsMessage (message_request m)) ?c2) = Some c'" "hc_ok env (Suc n) c'"
      "hc_log c' = hc_log c @ [ObsMessage (message_request m)]" "bf_str (hc_out c') = bf_str (hc_out c) @ responses_bytes rs"
      "\<not> hc_in_progress c'" by (auto simp: hc_out_def)
  have "hc_elem c' = e'" using c'(1) by (auto simp: hc_respond_def hc_note_def)
  moreover have "he_url_ok env (rq_url (message_request m))" using assms(5) by (simp add: message_request_def)
  ultimately show ?thesis using c' e'(1) assms(6) unfolding run by (simp add: hc_event_def on_message_end_def Let_def)
qed

subsection \<open>Blocked writes\<close>

text \<open>What stays the same while a lock is held and the output is not flushed.\<close>

definition hc_same :: "'p http_conn \<Rightarrow> 'p http_conn \<Rightarrow> bool" where
  "hc_same c c' \<longleftrightarrow> hc_write_blocked c' = hc_write_blocked c \<and> hc_sent c' = hc_sent c \<and> hc_interest c' = hc_interest c \<and>
     hc_alive c' = hc_alive c \<and> dp_calls (hc_dp c') = dp_calls (hc_dp c) \<and> dp_locks (hc_dp c') = dp_locks (hc_dp c)"

lemma hc_same_refl [simp]: "hc_same c c"
  by (simp add: hc_same_def)

lemma hc_same_fields [simp]:
  "hc_same c (d\<lparr>hc_parser := x1\<rparr>) = hc_same c d" "hc_same c (d\<lparr>hc_errno := x2\<rparr>) = hc_same c d"
  "hc_same c (d\<lparr>hc_in := x3\<rparr>) = hc_same c d" "hc_same c (d\<lparr>hc_deadline := x4\<rparr>) = hc_same c d"
  "hc_same (c\<lparr>hc_in := x3\<rparr>) d = hc_same c d"
  by (simp_all add: hc_same_def)

lemma hc_same_trans: "\<lbrakk>hc_same c d; hc_same d e\<rbrakk> \<Longrightarrow> hc_same c e"
  by (simp add: hc_same_def)

lemma hc_same_locks: "hc_same c c' \<Longrightarrow> dp_locks (hc_dp c') = dp_locks (hc_dp c)"
  by (simp add: hc_same_def)

lemma hc_dispose_same: "0 < dp_locks (hc_dp c) \<Longrightarrow> hc_same c (hc_dispose drain c)"
  by (simp add: hc_same_def hc_dispose_def hc_with_dp_def dp_dispose_op_def)

lemma hc_respond_same: "hc_respond rs c = Some c' \<Longrightarrow> hc_same c c'"
  by (auto simp: hc_respond_def hc_same_def)

lemma hc_note_same: "hc_same c (hc_note x c)"
  by (simp add: hc_note_def hc_same_def)

lemma hc_fail_same:
  assumes "0 < dp_locks (hc_dp c)" "hc_fail env drain c = Some c'"
  shows "hc_same c c'"
proof -
  obtain c1 where c1: "hc_respond (he_error env) (hc_note ObsError c) = Some c1" "c' = hc_dispose drain c1"
    using assms(2) by (auto simp: hc_fail_def)
  have s: "hc_same c c1" using hc_respond_same [OF c1(1)] hc_note_same hc_same_trans by blast
  with assms(1) have "0 < dp_locks (hc_dp c1)" by (simp add: hc_same_def)
  from hc_same_trans [OF s hc_dispose_same [OF this]] c1(2) show ?thesis by simp
qed

lemma on_message_end_same:
  assumes "0 < dp_locks (hc_dp c)" "on_message_end env drain c = Some (c', b)"
  shows "hc_same c c'"
proof -
  let ?c1 = "c\<lparr>hc_in_progress := False\<rparr>"
  have c1: "hc_same c ?c1" "0 < dp_locks (hc_dp ?c1)" using assms(1) by (simp_all add: hc_same_def)
  show ?thesis
  proof (cases "he_url_ok env (rq_url (hc_req c))")
    case False
    with assms(2) have "hc_fail env drain ?c1 = Some c'" by (auto simp: on_message_end_def Let_def)
    from hc_same_trans [OF c1(1) hc_fail_same [OF c1(2) this]] show ?thesis .
  next
    case True
    with assms(2) obtain rs th c2 where r: "hc_respond rs (hc_note (ObsMessage (hc_req c)) ?c1) = Some c2"
        "(if th then map_option (\<lambda>c. (c, False)) (hc_fail env drain c2) else Some (c2, True)) = Some (c', b)"
      by (auto simp: on_message_end_def Let_def split: prod.splits bind_splits)
    have s: "hc_same c c2" using hc_same_trans [OF c1(1) hc_same_trans [OF hc_note_same hc_respond_same [OF r(1)]]] .
    with assms(1) have "0 < dp_locks (hc_dp c2)" by (simp add: hc_same_def)
    with r(2) hc_fail_same [of c2 env drain c'] s hc_same_trans show ?thesis by (auto split: if_splits)
  qed
qed

lemma hc_event_same:
  "\<lbrakk>0 < dp_locks (hc_dp c); hc_event env drain e c = Some (c', b)\<rbrakk> \<Longrightarrow> hc_same c c'"
  by (cases e) (auto simp: hc_event_def hc_same_def Let_def hc_note_def dest: on_message_end_same)

lemma hc_run_events_same:
  "\<lbrakk>0 < dp_locks (hc_dp c); hc_run_events env drain es c = Some (c', b)\<rbrakk> \<Longrightarrow> hc_same c c'"
proof (induction es arbitrary: c)
  case (Cons e es)
  from Cons.prems(2) obtain c1 b1 where e: "hc_event env drain e c = Some (c1, b1)"
      "(if b1 then hc_run_events env drain es c1 else Some (c1, False)) = Some (c', b)"
    by (auto split: bind_splits)
  from hc_event_same [OF Cons.prems(1) e(1)] have s: "hc_same c c1" .
  with Cons.prems(1) have "0 < dp_locks (hc_dp c1)" by (simp add: hc_same_def)
  with Cons.IH [of c1] e(2) s hc_same_trans show ?case by (auto split: if_splits)
qed simp

lemma flush_input_same:
  assumes "0 < dp_locks (hc_dp c)" "flush_input env drain c = Some (c', b)"
  shows "hc_same c c'"
proof (cases "hc_errno c")
  case True
  with assms(2) show ?thesis by (auto simp: flush_input_def hc_parse_def)
next
  case False
  obtain evs k ok p where e: "he_execute env (hc_parser c) (bf_str (hc_in c)) = (evs, k, ok, p)" by (metis prod_cases4)
  with False assms(2) obtain c1 cont where r: "hc_run_events env drain evs c = Some (c1, cont)"
    by (auto simp: flush_input_def hc_parse_def)
  from hc_run_events_same [OF assms(1) r] have "hc_same c c1" .
  with False assms(2) e r show ?thesis by (auto simp: flush_input_def hc_parse_def split: if_splits)
qed

lemma drain_input_same:
  assumes "0 < dp_locks (hc_dp c)" "drain_input env drain now rs c = Some (c', r)"
  shows "hc_same c c'"
proof -
  obtain b e where h: "hc_reads 4 rs (hc_in c) = (b, e)" by fastforce
  let ?c1 = "c\<lparr>hc_in := b\<rparr>"
  have c1: "hc_same c ?c1" "0 < dp_locks (hc_dp ?c1)" using assms(1) by (simp_all add: hc_same_def)
  from flush_input_same [OF c1(2)] assms(2) h show ?thesis
    by (cases e) (auto simp: drain_input_def schedule_timeout_def split: if_splits)
qed

lemma hc_io_body_blocked:
  assumes "0 < dp_locks (hc_dp c)" "hc_write_blocked c" "IoWrite \<notin> evs" "hc_io_body env now rs w drain evs c = Some c'"
  shows "hc_same c c'"
proof -
  from assms(4) obtain c1 r where r: "(if IoRead \<in> evs then drain_input env drain now rs c else Some (c, RetTrue)) = Some (c1, r)"
    unfolding hc_io_body_def by (auto split: bind_splits)
  hence s: "hc_same c c1" using drain_input_same [OF assms(1)] by (auto split: if_splits)
  with assms(1,2) have c1: "0 < dp_locks (hc_dp c1)" "hc_write_blocked c1" by (simp_all add: hc_same_def)
  have "c' = c1 \<or> c' = hc_dispose drain c1 \<or> hc_fail env drain c1 = Some c'"
    using assms(3,4) c1(2) r by (cases r) (simp_all add: hc_io_body_def)
  with s hc_same_trans [OF s hc_dispose_same [OF c1(1)]] hc_same_trans [OF s hc_fail_same [OF c1(1)]] show ?thesis by blast
qed

lemma hc_step_blocked:
  assumes "env_ok env" "hc_inv env c" "hc_alive c" "hc_write_blocked c" "hc_step env c c'" "hc_alive c'"
  shows "hc_sent c' = hc_sent c \<and> hc_write_blocked c'"
  using assms(5)
proof (cases rule: hc_step.cases)
  case (io evs now rs w drain)
  from assms(2,3) have ok: "hc_ok env 0 c" by (simp add: hc_inv_def)
  with io(2) have "IoWrite \<notin> evs" by (auto simp: hc_ok_def)
  moreover have "0 < dp_locks (hc_dp (hc_lock c))" "hc_write_blocked (hc_lock c)" "hc_same c (hc_unlock drain (hc_lock c)) \<or> True"
    using assms(4) by (simp_all add: hc_lock_def dp_lock_def)
  moreover from io(3) obtain c1 where c1: "hc_io_body env now rs w drain evs (hc_lock c) = Some c1" "c' = hc_unlock drain c1"
    by (auto simp: on_io_event_def)
  ultimately have s: "hc_same (hc_lock c) c1" using hc_io_body_blocked by blast
  have "hc_alive (hc_with_dp drain d c1) \<Longrightarrow> hc_sent (hc_with_dp drain d c1) = hc_sent c1 \<and> hc_write_blocked (hc_with_dp drain d c1) = hc_write_blocked c1" for d
    by (auto simp: hc_with_dp_def hc_dispose_now_def Let_def split: if_splits)
  with assms(6) c1(2) s assms(4) show ?thesis by (simp add: hc_unlock_def hc_same_def hc_lock_def)
next
  case (timeout drain)
  from hc_step_inv [OF assms(1,5,2)] have i: "hc_inv env c'" .
  let ?c1 = "hc_dispose drain (hc_note ObsTimeout (hc_lock c))"
  from assms(2,3) have "hc_ok env (Suc 0) (hc_note ObsTimeout (hc_lock c))"
    by (simp add: hc_inv_def hc_ok_def hc_note_def hc_out_def obs_bytes_def hc_lock_def dp_lock_def)
  note d = hc_dispose_locked [OF this, of drain]
  have "dp_locks (hc_dp c) = 0" "dp_calls (hc_dp c) = 0" using assms(2,3) by (simp_all add: hc_inv_def hc_ok_def)
  moreover have "c' = hc_unlock drain ((hc_note ObsTimeout (hc_lock c))\<lparr>hc_dp := (hc_dp (hc_note ObsTimeout (hc_lock c)))\<lparr>dp_dispose := True\<rparr>\<rparr>)"
    by (simp only: timeout on_timeout_timer_def d)
  ultimately have "\<not> hc_alive c'"
    by (simp add: hc_unlock_def hc_with_dp_def dp_unlock_def hc_dispose_now_def Let_def hc_note_def hc_lock_def dp_lock_def)
  with assms(6) show ?thesis by simp
next
  case (owner drain)
  have "dp_locks (hc_dp c) = 0" "dp_calls (hc_dp c) = 0" using assms(2,3) by (simp_all add: hc_inv_def hc_ok_def)
  hence "\<not> hc_alive c'"
    by (simp add: owner hc_dispose_def hc_with_dp_def dp_dispose_op_def hc_dispose_now_def Let_def)
  with assms(6) show ?thesis by simp
qed

lemma hc_step_alive: "hc_step env c c' \<Longrightarrow> hc_alive c"
  by (auto elim: hc_stepE)

text \<open>
  C40: After a write that took a part of the output only, nothing more is sent for as long as the connection lives, whatever events, timers and calls follow:
  \<open>flush_output\<close> marks the connection as blocked and asks for write events in its poll handle, but does not commit the handle to the poller, so no write event
  arrives. What is left can go out only in the one write that is tried when the connection is disposed of.
\<close>

theorem http_partial_write_stalls:
  assumes "env_ok env" "(hc_step env)\<^sup>*\<^sup>* (hc_new now p) c" "hc_write_blocked c" "(hc_step env)\<^sup>*\<^sup>* c c'" "hc_alive c'"
  shows "hc_sent c' = hc_sent c \<and> hc_write_blocked c'"
  using assms(4,5)
proof (induction rule: rtranclp_induct)
  case base
  from assms(3) show ?case by simp
next
  case (step c1 c2)
  from step(2) have a: "hc_alive c1" by (rule hc_step_alive)
  with step(3) have c1: "hc_sent c1 = hc_sent c" "hc_write_blocked c1" by simp_all
  have "(hc_step env)\<^sup>*\<^sup>* (hc_new now p) c1" using assms(2) step(1) by simp
  from hc_reach_inv [OF assms(1) this] have "hc_inv env c1" .
  from hc_step_blocked [OF assms(1) this a c1(2) step(2,4)] c1(1) show ?case by simp
qed

subsection \<open>A run\<close>

text \<open>A parser that finds a message in any input, and an application that answers each with one small response.\<close>

definition demo_env :: "unit http_env" where
  "demo_env = \<lparr>he_execute = (\<lambda>p buf. ([EvBegin, EvMessageEnd], 0, True, ())), he_keep_alive = (\<lambda>p. True), he_url_ok = (\<lambda>u. True),
     he_message = (\<lambda>r. ([(200, ''OK'', None, False, [''x''])], False)), he_error = []\<rparr>"

lemma demo_env_ok: "env_ok demo_env"
  by (simp add: env_ok_def demo_env_def response_ok_def)

lemma hc_reads_idle:
  assumes "bf_inv b"
  shows "hc_reads 4 [] b = (snd (bf_prepare 2944 b), ReadsStop)" "bf_str (snd (bf_prepare 2944 b)) = bf_str b"
proof -
  obtain avail b1 where p: "bf_prepare 2944 b = (avail, b1)" by fastforce
  with bf_prepare_ok [OF assms p] show "hc_reads 4 [] b = (snd (bf_prepare 2944 b), ReadsStop)" "bf_str (snd (bf_prepare 2944 b)) = bf_str b"
    by (simp_all add: numeral_eq_Suc)
qed

text \<open>One message arrives, and the socket takes a single byte of the response.\<close>

lemma demo_blocks:
  "\<exists>c. hc_step demo_env (hc_new 0 ()) c \<and> hc_write_blocked c \<and> hc_alive c \<and> length (hc_sent c) = 1"
proof -
  let ?c0 = "(hc_lock (hc_new 0 ()) :: unit http_conn)\<lparr>hc_in := snd (bf_prepare 2944 bf_new)\<rparr>"
  let ?req = "rq_clear (hc_req ?c0)"
  let ?c1 = "?c0\<lparr>hc_req := ?req, hc_in_progress := False\<rparr>"
  let ?rs = "[(200, ''OK'', None, False, [''x''])]"
  have "hc_ok demo_env (Suc 0) ?c0"
    using hc_new_inv [of demo_env 0 "()"] hc_lock_ok [of demo_env 0 "hc_new 0 ()"]
    by (simp add: hc_inv_def) (simp add: hc_new_def hc_note_def schedule_timeout_def)
  hence ok: "hc_ok demo_env (Suc 0) ?c1" by simp
  have "list_all response_ok ?rs" "obs_bytes demo_env (ObsMessage ?req) = responses_bytes ?rs"
    by (simp_all add: response_ok_def obs_bytes_def demo_env_def)
  from hc_respond_note [OF ok this] obtain c2 where c2: "hc_respond ?rs (hc_note (ObsMessage ?req) ?c1) = Some c2" "hc_ok demo_env (Suc 0) c2"
    "bf_str (hc_out c2) = bf_str (hc_out ?c1) @ responses_bytes ?rs" "\<not> hc_in_progress c2" by auto
  have new: "bf_str (hc_out ?c1) = []" "hc_sent ?c1 = []" "\<not> hc_write_blocked ?c1" "\<not> dp_dispose (hc_dp ?c1)"
    by (simp_all add: hc_out_def hc_new_def hc_note_def schedule_timeout_def hs_new_def hc_lock_def dp_lock_def dp_new_def)
  from c2(1) new have f: "hc_sent c2 = []" "\<not> hc_write_blocked c2" "\<not> dp_dispose (hc_dp c2)"
    by (auto simp: hc_respond_def hc_note_def)
  have len: "length (bf_str (hc_out c2)) \<ge> 2" using c2(3) by (simp add: responses_bytes_def response_bytes_def CRLF_def)
  have i: "bf_inv (hc_out c2)" using c2(2) by (simp add: hc_ok_def)
  with len have sz: "bf_size (hc_out c2) \<ge> 2" by (simp add: length_bf_str)
  let ?c3 = "schedule_timeout 0 (c2\<lparr>hc_parser := (), hc_in := bf_consume 0 (hc_in c2)\<rparr>)"
  have e: "he_execute demo_env p buf = ([EvBegin, EvMessageEnd], 0, True, ())" for p buf by (simp add: demo_env_def)
  have "hc_run_events demo_env 0 [EvBegin, EvMessageEnd] ?c0 = Some (c2, True)"
    using c2(1) by (simp add: hc_event_def on_message_end_def Let_def demo_env_def)
  moreover have "\<not> hc_errno ?c0" by (simp add: hc_new_def hc_note_def schedule_timeout_def hc_lock_def)
  ultimately have "flush_input demo_env 0 ?c0 = Some (c2\<lparr>hc_parser := (), hc_in := bf_consume 0 (hc_in c2)\<rparr>, True)"
    by (simp add: flush_input_def hc_parse_def e)
  moreover have "hc_in (hc_lock (hc_new 0 ())) = bf_new" by (simp add: hc_new_def hc_note_def schedule_timeout_def hc_lock_def)
  ultimately have d: "drain_input demo_env 0 0 [] (hc_lock (hc_new 0 ())) = Some (?c3, RetTrue)"
    by (simp add: drain_input_def hc_reads_idle)
  let ?b4 = "bf_consume 1 (hc_out ?c3)"
  have o3: "hc_out ?c3 = hc_out c2" by (simp add: hc_out_def schedule_timeout_def)
  have "bf_inv ?b4" "bf_str ?b4 = drop 1 (bf_str (hc_out c2))" using bf_consume_ok [OF i, of 1] sz by (simp_all add: o3)
  hence "\<not> bf_empty ?b4" using len length_bf_str [of ?b4] by (auto simp: bf_empty_def)
  moreover have "min (Suc 0) (bf_size (hc_out c2)) = 1" using sz by simp
  ultimately have fl: "\<exists>c4. flush_output demo_env 0 (Some 1) ?c3 = Some c4 \<and> hc_write_blocked c4 \<and> hc_sent c4 = take 1 (bf_str (hc_out c2)) \<and>
      hc_dp c4 = hc_dp c2 \<and> hc_alive c4 = hc_alive c2"
    using f by (simp add: flush_output_def Let_def o3 hc_set_out_def hc_out_def schedule_timeout_def)
  then obtain c4 where c4: "flush_output demo_env 0 (Some 1) ?c3 = Some c4" "hc_write_blocked c4" "hc_sent c4 = take 1 (bf_str (hc_out c2))"
      "hc_dp c4 = hc_dp c2" "hc_alive c4 = hc_alive c2" by blast
  have "\<not> bf_empty (hc_out ?c3)" using sz by (simp add: o3 bf_empty_def)
  moreover have "\<not> hc_write_blocked ?c3" using f by (simp add: schedule_timeout_def)
  ultimately have "hc_io_body demo_env 0 [] (Some 1) 0 {IoRead} (hc_lock (hc_new 0 ())) = Some c4"
    using d c4(1) by (simp add: hc_io_body_def)
  hence io: "on_io_event demo_env 0 [] (Some 1) 0 {IoRead} (hc_new 0 ()) = Some (hc_unlock 0 c4)" by (simp add: on_io_event_def)
  have u: "hc_unlock 0 c4 = c4\<lparr>hc_dp := dp_unlock (hc_dp c4)\<rparr>"
    using f(3) c4(4) by (simp add: hc_unlock_def hc_with_dp_def dp_unlock_def Let_def)
  have "hc_alive (hc_new 0 ())" "hc_interest (hc_new 0 ()) = {IoRead}" by (simp_all add: hc_new_def hc_note_def schedule_timeout_def)
  with io have "hc_step demo_env (hc_new 0 ()) (hc_unlock 0 c4)" by (auto intro: hc_step.io)
  moreover have "hc_alive c2" using c2(2) by (simp add: hc_ok_def)
  moreover have "length (take 1 (bf_str (hc_out c2))) = 1" using len by simp
  ultimately show ?thesis using c4 by (auto simp: u)
qed

theorem http_output_in_order_witness:
  "\<exists>c rest. (hc_step demo_env)\<^sup>*\<^sup>* (hc_new 0 ()) c \<and> length (hc_sent c) = 1 \<and> log_bytes demo_env (hc_log c) = hc_sent c @ rest"
proof -
  obtain c where "hc_step demo_env (hc_new 0 ()) c" "length (hc_sent c) = 1" using demo_blocks by blast
  moreover from this(1) have r: "(hc_step demo_env)\<^sup>*\<^sup>* (hc_new 0 ()) c" by blast
  ultimately show ?thesis using http_output_in_order [OF demo_env_ok r] by blast
qed

theorem http_disposed_once_witness:
  "\<not> hc_alive (on_timeout_timer 0 (hc_new 0 ())) \<and> last (hc_log (on_timeout_timer 0 (hc_new 0 () :: unit http_conn))) = ObsDisconnect"
proof -
  let ?c = "on_timeout_timer 0 (hc_new 0 () :: unit http_conn)"
  have "hc_alive (hc_new 0 () :: unit http_conn)" by (simp add: hc_new_def hc_note_def schedule_timeout_def)
  hence "hc_step demo_env (hc_new 0 ()) ?c" by (rule hc_step.timeout)
  hence r: "(hc_step demo_env)\<^sup>*\<^sup>* (hc_new 0 ()) ?c" by blast
  have "\<not> hc_alive ?c"
    by (simp add: on_timeout_timer_def hc_unlock_def hc_dispose_def hc_with_dp_def hc_new_def hc_note_def schedule_timeout_def
        hc_lock_def dp_new_def dp_lock_def dp_dispose_op_def dp_unlock_def hc_dispose_now_def Let_def)
  with http_disposed_once [OF demo_env_ok r] show ?thesis by blast
qed

theorem http_message_delivered_witness:
  "\<exists>c'. hc_run_events demo_env 0 [EvBegin, EvUrl ''/a'', EvUrl ''b'', EvField ''H'', EvValue ''v'', EvHeadersEnd 3, EvBody ''z'', EvMessageEnd]
     (hc_lock (hc_new 0 ())) = Some (c', True) \<and>
   hc_log c' = [ObsConnect, ObsMessage \<lparr>rq_method = 3, rq_url = ''/ab'', rq_headers = [(''H'', ''v'')], rq_body = ''z''\<rparr>]"
proof -
  let ?m = "\<lparr>ms_method = 3, ms_url = [''/a'', ''b''], ms_headers = [([''H''], [''v''])], ms_body = [''z'']\<rparr>"
  have "hc_ok demo_env (Suc 0) (hc_lock (hc_new 0 ()))"
    using hc_new_inv [of demo_env 0 "()"] hc_lock_ok [of demo_env 0 "hc_new 0 ()"]
    by (simp add: hc_inv_def) (simp add: hc_new_def hc_note_def schedule_timeout_def)
  from http_message_delivered [OF demo_env_ok this, of ?m "[(200, ''OK'', None, False, [''x''])]" 0]
  show ?thesis
    by (auto simp: demo_env_def message_events_def header_events_def message_request_def hc_lock_def hc_new_def hc_note_def schedule_timeout_def)
qed

theorem http_partial_write_stalls_witness:
  "\<exists>c. (hc_step demo_env)\<^sup>*\<^sup>* (hc_new 0 ()) c \<and> hc_write_blocked c \<and>
    (\<forall>c'. \<not> ((hc_step demo_env)\<^sup>*\<^sup>* c c' \<and> hc_alive c' \<and> hc_sent c' \<noteq> hc_sent c))"
proof -
  obtain c where "hc_step demo_env (hc_new 0 ()) c" "hc_write_blocked c" using demo_blocks by blast
  moreover from this(1) have r: "(hc_step demo_env)\<^sup>*\<^sup>* (hc_new 0 ()) c" by blast
  ultimately show ?thesis using http_partial_write_stalls [OF demo_env_ok r] by blast
qed

text \<open>
  A request that the parser rejects is not reported: no callback has run, so nothing was said to the application, and the
  connection is neither answered nor disposed of; it waits for the idle timer, whatever else arrives.
\<close>

theorem http_parse_error_unreported:
  assumes "hc_inv env c" "hc_alive c" "hc_reads 4 rs (hc_in c) = (b, e)" "e \<noteq> ReadsError"
    and "hc_errno c \<or> he_execute env (hc_parser c) (bf_str b) = ([], k, False, p)"
  shows "\<exists>c'. on_io_event env now rs w drain {IoRead} c = Some c' \<and> hc_alive c' \<and> hc_inv env c' \<and> hc_log c' = hc_log c \<and>
    hc_sent c' = hc_sent c \<and> hc_errno c' \<and> hc_deadline c' = hc_deadline c"
proof -
  let ?c0 = "(hc_lock c)\<lparr>hc_in := b\<rparr>"
  let ?c1 = "if hc_errno c then ?c0 else ?c0\<lparr>hc_parser := p, hc_errno := True\<rparr>"
  have f: "hc_errno ?c0 = hc_errno c" "hc_parser ?c0 = hc_parser c" "hc_in (hc_lock c) = hc_in c" by (simp_all add: hc_lock_def)
  have "flush_input env drain ?c0 = Some (?c1, False)"
    using assms(5) f by (cases "hc_errno c") (simp_all add: flush_input_def hc_parse_def)
  with assms(3,4) f have "drain_input env drain now rs (hc_lock c) = Some (?c1, ThrowHttp)"
    by (cases e) (simp_all add: drain_input_def)
  hence io: "on_io_event env now rs w drain {IoRead} c = Some (hc_unlock drain ?c1)"
    by (simp add: on_io_event_def hc_io_body_def)
  from assms(1,2) have ok: "hc_ok env 0 c" "\<not> dp_dispose (hc_dp c)" by (simp_all add: hc_inv_def)
  hence "hc_ok env (Suc 0) ?c1" using hc_lock_ok [OF ok(1)] by simp
  note inv = hc_unlock_inv [OF this, of drain]
  have "hc_unlock drain ?c1 = ?c1\<lparr>hc_dp := dp_unlock (hc_dp ?c1)\<rparr>"
    using ok(2) by (simp add: hc_unlock_def hc_with_dp_def dp_unlock_def hc_lock_def dp_lock_def Let_def)
  with io inv assms(2) show ?thesis by (simp add: hc_lock_def)
qed

definition reject_env :: "unit http_env" where
  "reject_env = demo_env\<lparr>he_execute := (\<lambda>p buf. ([], 0, False, ()))\<rparr>"

theorem http_parse_error_unreported_witness:
  "\<exists>c'. on_io_event reject_env 0 [] None 0 {IoRead} (hc_new 0 ()) = Some c' \<and> hc_alive c' \<and> hc_log c' = [ObsConnect] \<and> hc_sent c' = []"
proof -
  have h: "hc_in (hc_new 0 () :: unit http_conn) = bf_new" "hc_alive (hc_new 0 () :: unit http_conn)"
      "hc_log (hc_new 0 () :: unit http_conn) = [ObsConnect]" "hc_sent (hc_new 0 () :: unit http_conn) = []"
    by (simp_all add: hc_new_def hc_note_def schedule_timeout_def)
  have x: "he_execute reject_env p buf = ([], 0, False, ())" for p buf by (simp add: reject_env_def)
  have "hc_errno (hc_new 0 ()) \<or> he_execute reject_env (hc_parser (hc_new 0 ())) (bf_str (snd (bf_prepare 2944 bf_new))) = ([], 0, False, ())"
    by (simp add: x)
  from http_parse_error_unreported [OF hc_new_inv h(2) _ _ this, of "[]" ReadsStop 0 None 0] h hc_reads_idle [of bf_new]
  show ?thesis by auto
qed

end
