(* ===== verification/HttpServs.thy ===== *)
theory HttpServs
  imports HttpConns
begin

text \<open>
  The HTTP server of \<open>http/Serv.hpp\<close> over the acceptor of \<open>net/StreamAcceptor.hpp\<close>: the list of its connections, each of which is a connection of
  \<open>HttpConns\<close>, and what becomes of them.
\<close>

subsection \<open>The server\<close>

text \<open>
  Connections have the number of their acceptance. \<open>hv_list\<close> is the intrusive list of active connections, \<open>hv_gone\<close> the connections that have deleted
  themselves, which unlinks them, and \<open>hv_accepts\<close> the calls of the slot.
\<close>

record 'p http_serv =
  hv_open :: bool
  hv_slot :: bool
  hv_next :: nat
  hv_list :: "(nat \<times> 'p http_conn) list"
  hv_gone :: "(nat \<times> 'p http_conn) list"
  hv_accepts :: "nat list"

definition hv_new :: "'p http_serv" where
  "hv_new = \<lparr>hv_open = True, hv_slot = False, hv_next = 0, hv_list = [], hv_gone = [], hv_accepts = []\<rparr>"

definition hv_set_accept :: "bool \<Rightarrow> 'p http_serv \<Rightarrow> 'p http_serv" where
  "hv_set_accept slot s = s\<lparr>hv_slot := slot\<rparr>"

definition on_sock_accept :: "int \<Rightarrow> 'p \<Rightarrow> 'p http_serv \<Rightarrow> 'p http_serv" where
  "on_sock_accept now p s =
     (let i = hv_next s;
          s1 = s\<lparr>hv_next := i + 1, hv_list := hv_list s @ [(i, hc_new now p)]\<rparr>
      in if hv_slot s1 then s1\<lparr>hv_accepts := hv_accepts s1 @ [i]\<rparr> else s1)"

text \<open>The event of the listening socket: an error of \<open>accept\<close> is thrown, \<open>False\<close>.\<close>

definition acceptor_on_io_event :: "int \<Rightarrow> 'p option \<Rightarrow> 'p http_serv \<Rightarrow> bool \<times> 'p http_serv" where
  "acceptor_on_io_event now sock s = (case sock of None \<Rightarrow> (False, s) | Some p \<Rightarrow> (True, on_sock_accept now p s))"

text \<open>A connection after one of its own events.\<close>

definition hv_update :: "nat \<Rightarrow> 'p http_conn \<Rightarrow> 'p http_serv \<Rightarrow> 'p http_serv" where
  "hv_update i c s = (if hc_alive c then s\<lparr>hv_list := map (\<lambda>(j, d). (j, if j = i then c else d)) (hv_list s)\<rparr>
     else s\<lparr>hv_list := filter (\<lambda>(j, d). j \<noteq> i) (hv_list s), hv_gone := hv_gone s @ [(i, c)]\<rparr>)"

text \<open>The destructor: \<open>clear_and_dispose\<close> unlinks each connection and disposes it.\<close>

fun hv_dispose_all :: "nat \<Rightarrow> (nat \<times> 'p http_conn) list \<Rightarrow> 'p http_serv \<Rightarrow> 'p http_serv" where
  "hv_dispose_all drain [] s = s"
| "hv_dispose_all drain ((i, c) # cs) s = hv_dispose_all drain cs (s\<lparr>hv_list := cs, hv_gone := hv_gone s @ [(i, hc_dispose drain c)]\<rparr>)"

definition hv_destroy :: "nat \<Rightarrow> 'p http_serv \<Rightarrow> 'p http_serv" where
  "hv_destroy drain s = (hv_dispose_all drain (hv_list s) s)\<lparr>hv_open := False\<rparr>"

inductive hv_step :: "'p http_env \<Rightarrow> 'p http_serv \<Rightarrow> 'p http_serv \<Rightarrow> bool" for env where
  hv_slot: "hv_open s \<Longrightarrow> hv_step env s (hv_set_accept b s)"
| hv_accept: "hv_open s \<Longrightarrow> hv_step env s (snd (acceptor_on_io_event now r s))"
| hv_conn: "(i, c) \<in> set (hv_list s) \<Longrightarrow> hc_step env c c' \<Longrightarrow> hv_step env s (hv_update i c' s)"
| hv_destroy: "hv_open s \<Longrightarrow> hv_step env s (hv_destroy drain s)"

subsection \<open>Connections are not lost\<close>

text \<open>The connections of the list are alive and between events, the others are gone after their one disconnect; numbers are used once.\<close>

definition hv_inv :: "'p http_env \<Rightarrow> 'p http_serv \<Rightarrow> bool" where
  "hv_inv env s \<longleftrightarrow> (\<forall>(i, c) \<in> set (hv_list s). hc_inv env c \<and> hc_alive c) \<and> (\<forall>(i, c) \<in> set (hv_gone s). hc_inv env c \<and> \<not> hc_alive c) \<and>
     sorted_wrt (<) (map fst (hv_list s)) \<and> distinct (map fst (hv_gone s)) \<and>
     set (map fst (hv_list s)) \<inter> set (map fst (hv_gone s)) = {} \<and> set (map fst (hv_list s)) \<union> set (map fst (hv_gone s)) = {..<hv_next s} \<and>
     (hv_open s \<or> hv_list s = []) \<and> sorted_wrt (<) (hv_accepts s) \<and> set (hv_accepts s) \<subseteq> {..<hv_next s}"

lemma hv_new_inv [inv_intros]: "hv_inv env hv_new"
  by (simp add: hv_inv_def hv_new_def)

lemma hc_new_alive: "hc_alive (hc_new now p)"
  by (simp add: hc_new_def hc_note_def schedule_timeout_def)

lemma on_sock_accept_inv [inv_intros]: "hv_inv env s \<Longrightarrow> hv_open s \<Longrightarrow> hv_inv env (on_sock_accept now p s)"
  by (auto simp: hv_inv_def on_sock_accept_def Let_def hc_new_inv hc_new_alive sorted_wrt_append image_Un)

lemma hv_update_inv:
  assumes "hv_inv env s" "(i, c) \<in> set (hv_list s)" "hc_inv env c'"
  shows "hv_inv env (hv_update i c' s)"
proof (cases "hc_alive c'")
  case True
  have e: "map fst (map (\<lambda>(j, d). (j, if j = i then c' else d)) (hv_list s)) = map fst (hv_list s)" by (simp add: case_prod_unfold comp_def)
  from assms True show ?thesis unfolding hv_inv_def hv_update_def
    by (simp add: e del: map_map set_map) auto
next
  case False
  have f: "map fst (filter (\<lambda>(j, d). j \<noteq> i) (hv_list s)) = filter (\<lambda>j. j \<noteq> i) (map fst (hv_list s))"
    by (simp add: filter_map comp_def case_prod_unfold)
  have i: "i \<in> set (map fst (hv_list s))" using assms(2) by force
  show ?thesis
    using assms False i unfolding hv_inv_def hv_update_def
    by (simp add: f sorted_wrt_filter) (auto simp: f)
qed

lemma hc_dispose_gone: "env_ok env \<Longrightarrow> hc_inv env c \<Longrightarrow> hc_alive c \<Longrightarrow> hc_inv env (hc_dispose drain c) \<and> \<not> hc_alive (hc_dispose drain c)"
proof -
  assume a: "env_ok env" "hc_inv env c" "hc_alive c"
  have "hc_inv env (hc_dispose drain c)" using hc_step_inv [OF a(1) hc_step.owner [OF a(3)] a(2)] .
  moreover have "\<not> hc_alive (hc_dispose drain c)"
    using a by (simp add: hc_inv_def hc_ok_def hc_dispose_def hc_with_dp_def dp_dispose_op_def hc_dispose_now_def Let_def)
  ultimately show ?thesis by blast
qed

lemma hv_dispose_all_eq:
  "hv_dispose_all drain cs s = s\<lparr>hv_list := (if cs = [] then hv_list s else []), hv_gone := hv_gone s @ map (\<lambda>(i, c). (i, hc_dispose drain c)) cs\<rparr>"
  by (induction drain cs s rule: hv_dispose_all.induct) auto

lemma hv_destroy_inv:
  assumes "env_ok env" "hv_inv env s"
  shows "hv_inv env (hv_destroy drain s)"
proof -
  have m: "map fst (map (\<lambda>(i, c). (i, hc_dispose drain c)) (hv_list s)) = map fst (hv_list s)" by (simp add: case_prod_unfold comp_def)
  have "distinct (map fst (hv_list s))" using assms(2) by (auto simp: hv_inv_def strict_sorted_iff)
  moreover have "(i, c) \<in> set (hv_list s) \<Longrightarrow> hc_inv env (hc_dispose drain c) \<and> \<not> hc_alive (hc_dispose drain c)" for i c
    using assms hc_dispose_gone [OF assms(1)] by (auto simp: hv_inv_def)
  ultimately show ?thesis using assms(2) unfolding hv_inv_def hv_destroy_def hv_dispose_all_eq
    by (auto simp: m simp del: map_map)
qed

lemma hv_step_inv: "env_ok env \<Longrightarrow> hv_step env s s' \<Longrightarrow> hv_inv env s \<Longrightarrow> hv_inv env s'"
proof (erule hv_step.cases)
  fix u b assume "env_ok env" "hv_inv env s" "s = u" "s' = hv_set_accept b u"
  then show "hv_inv env s'" by (simp add: hv_inv_def hv_set_accept_def)
next
  fix u now r assume "hv_inv env s" "s = u" "s' = snd (acceptor_on_io_event now r u)" "hv_open u"
  then show "hv_inv env s'" by (auto simp: acceptor_on_io_event_def intro: on_sock_accept_inv split: option.splits)
next
  fix i c u c' assume a: "env_ok env" "hv_inv env s" "s = u" "s' = hv_update i c' u" "(i, c) \<in> set (hv_list u)" "hc_step env c c'"
  then have "hc_inv env c" by (auto simp: hv_inv_def)
  with a hc_step_inv [OF a(1,6)] show "hv_inv env s'" by (auto intro: hv_update_inv)
next
  fix u drain assume "env_ok env" "hv_inv env s" "s = u" "s' = hv_destroy drain u"
  then show "hv_inv env s'" by (auto intro: hv_destroy_inv)
qed

lemma hv_reach_inv: "env_ok env \<Longrightarrow> (hv_step env)\<^sup>*\<^sup>* hv_new s \<Longrightarrow> hv_inv env s"
  by (rotate_tac 1, induction rule: rtranclp_induct) (auto intro: hv_new_inv hv_step_inv)

text \<open>C18: Whatever happens to a server and its connections, every connection it has accepted is either in its list, alive, in the order of acceptance, and
  has not reported its end, or it is gone after reporting its end exactly once, as its last action; none is there twice, none is lost, and after the
  destructor all of them are gone. The slot is called at most once for each.\<close>

theorem http_server_keeps_connections:
  assumes "env_ok env" "(hv_step env)\<^sup>*\<^sup>* hv_new s"
  shows "distinct (map fst (hv_list s @ hv_gone s)) \<and> set (map fst (hv_list s @ hv_gone s)) = {..<hv_next s} \<and> sorted_wrt (<) (map fst (hv_list s)) \<and>
    (\<forall>(i, c) \<in> set (hv_list s). hc_alive c \<and> ObsDisconnect \<notin> set (hc_log c)) \<and>
    (\<forall>(i, c) \<in> set (hv_gone s). \<not> hc_alive c \<and> last (hc_log c) = ObsDisconnect \<and> ObsDisconnect \<notin> set (butlast (hc_log c))) \<and>
    (\<not> hv_open s \<longrightarrow> hv_list s = []) \<and> distinct (hv_accepts s)"
proof -
  have inv: "hv_inv env s" by (rule hv_reach_inv [OF assms])
  have "distinct (map fst (hv_list s))" "distinct (hv_accepts s)" using inv by (auto simp: hv_inv_def strict_sorted_iff)
  moreover have "hc_inv env c \<Longrightarrow> hc_alive c \<Longrightarrow> ObsDisconnect \<notin> set (hc_log c)" for c :: "'a http_conn" by (auto simp: hc_inv_def hc_ok_def)
  moreover have "hc_inv env c \<Longrightarrow> \<not> hc_alive c \<Longrightarrow> last (hc_log c) = ObsDisconnect \<and> ObsDisconnect \<notin> set (butlast (hc_log c))" for c :: "'a http_conn"
    by (auto simp: hc_inv_def hc_gone_def)
  ultimately show ?thesis using inv by (auto simp: hv_inv_def)
qed

theorem http_server_keeps_connections_witness:
  "hv_list (hv_destroy 0 (on_sock_accept 0 () hv_new)) = [] \<and>
     (\<exists>c. hv_gone (hv_destroy 0 (on_sock_accept 0 () hv_new)) = [(0, c)] \<and> \<not> hc_alive c \<and> last (hc_log c) = ObsDisconnect)"
proof -
  let ?s = "on_sock_accept 0 () hv_new"
  have o: "hv_open (hv_new :: unit http_serv)" "hv_open ?s" by (simp_all add: hv_new_def on_sock_accept_def)
  have "hv_step demo_env hv_new ?s" using hv_accept [OF o(1), of demo_env 0 "Some ()"] by (simp add: acceptor_on_io_event_def)
  then have r: "(hv_step demo_env)\<^sup>*\<^sup>* hv_new (hv_destroy 0 ?s)" using hv_step.hv_destroy [OF o(2), of demo_env 0] by (meson converse_rtranclp_into_rtranclp r_into_rtranclp)
  obtain c where "hv_gone (hv_destroy 0 ?s) = [(0, c)]" by (simp add: hv_destroy_def hv_dispose_all_eq on_sock_accept_def hv_new_def)
  moreover have "\<not> hv_open (hv_destroy 0 ?s)" by (simp add: hv_destroy_def)
  ultimately show ?thesis using http_server_keeps_connections [OF demo_env_ok r] by fastforce
qed

end
