(* ===== verification/Urls.thy ===== *)
theory Urls
  imports Strings
begin

text \<open>
  The URLs of \<open>net/ParsedUrl.hpp\<close>, how \<open>net/Endpoint.cpp\<close> reads and prints endpoints with them, and the filters of \<open>net/EndpointFilter.hpp\<close>.
  Exceptions are left values. Resolution by \<open>getaddrinfo\<close> is not part of the model: \<open>parse_endpoint\<close> gives its arguments.
\<close>

subsection \<open>Searching in strings\<close>

text \<open>\<open>find\<close> and \<open>rfind\<close> of the standard library; \<open>npos\<close> is \<open>None\<close>.\<close>

fun find_text :: "string \<Rightarrow> string \<Rightarrow> nat option" where
  "find_text pat s = (if take (length pat) s = pat then Some 0 else (case s of [] \<Rightarrow> None | x # xs \<Rightarrow> map_option Suc (find_text pat xs)))"

definition find_from :: "string \<Rightarrow> string \<Rightarrow> nat \<Rightarrow> nat option" where
  "find_from pat s p = (if p > length s then None else map_option (\<lambda>n. p + n) (find_text pat (drop p s)))"

fun rfind_text :: "string \<Rightarrow> string \<Rightarrow> nat option" where
  "rfind_text pat s = (case s of
     [] \<Rightarrow> if pat = [] then Some 0 else None
   | x # xs \<Rightarrow> (case rfind_text pat xs of Some n \<Rightarrow> Some (Suc n) | None \<Rightarrow> if take (length pat) s = pat then Some 0 else None))"

declare find_text.simps [simp del] rfind_text.simps [simp del]

subsection \<open>URLs\<close>

datatype url_error = EqualsExpected

record parsed_url =
  pu_data :: string
  pu_url :: string
  pu_proto :: string
  pu_host :: string
  pu_service :: string
  pu_query :: string
  pu_params :: "(string \<times> string) list"

definition param_emplace :: "string \<Rightarrow> string \<Rightarrow> (string \<times> string) list \<Rightarrow> (string \<times> string) list" where
  "param_emplace k v m = (if map_of m k = None then m @ [(k, v)] else m)"

text \<open>The loop over the parameters from a separator at \<open>p\<close>. The length of a key is computed in 64 bits: it is everything if \<open>=\<close> is at \<open>p\<close>.\<close>

partial_function (option) params_loop :: "string \<Rightarrow> string \<Rightarrow> nat \<Rightarrow> (string \<times> string) list \<Rightarrow> (url_error + (string \<times> string) list) option" where
  "params_loop sep s p m =
     (if p \<ge> length s then Some (Inr m)
      else (case find_from ''='' s p of
        None \<Rightarrow> Some (Inl EqualsExpected)
      | Some e \<Rightarrow>
        (let key = (if e = p then drop (p + 1) s else take (e - p - 1) (drop (p + 1) s));
             q = (case find_from sep s e of None \<Rightarrow> length s | Some q \<Rightarrow> q);
             val = take (q - e - 1) (drop (e + 1) s)
         in params_loop sep s q (param_emplace key val m))))"

definition url_part :: "string \<Rightarrow> string \<Rightarrow> string" where
  "url_part sep s = (if sep = [] then s else take (case find_text sep s of None \<Rightarrow> length s | Some p \<Rightarrow> p) s)"

definition url_params :: "string \<Rightarrow> string \<Rightarrow> (string \<times> string) list \<Rightarrow> (url_error + (string \<times> string) list) option" where
  "url_params sep s m = (if sep = [] then Some (Inr m) else params_loop sep s (case find_text sep s of None \<Rightarrow> length s | Some p \<Rightarrow> p) m)"

text \<open>The parts: protocol and the rest, the rest and the query, host and service.\<close>

definition split_proto :: "string \<Rightarrow> string \<Rightarrow> string \<times> string" where
  "split_proto sep u = (if sep = [] then ('''', u) else (case find_text sep u of None \<Rightarrow> ('''', u) | Some p \<Rightarrow> (take p u, drop p u)))"

definition split_query :: "string \<Rightarrow> string \<Rightarrow> string \<times> string" where
  "split_query sep u = (if sep = [] then (u, '''') else (case find_text sep u of None \<Rightarrow> (u, '''') | Some p \<Rightarrow> (take p u, drop p u)))"

definition split_service :: "string \<Rightarrow> string \<Rightarrow> string \<times> string" where
  "split_service sep u = (if sep = [] then (u, '''') else (case rfind_text sep u of None \<Rightarrow> (u, '''') | Some p \<Rightarrow> (take p u, drop (p + 1) u)))"

definition pu_parse :: "string \<Rightarrow> string \<Rightarrow> string \<Rightarrow> string \<Rightarrow> string \<Rightarrow> parsed_url \<Rightarrow> (url_error + parsed_url) option" where
  "pu_parse s params_sep proto_sep query_sep service_sep pu =
     (case url_params params_sep s (pu_params pu) of
        None \<Rightarrow> None
      | Some (Inl err) \<Rightarrow> Some (Inl err)
      | Some (Inr m) \<Rightarrow>
        (case split_proto proto_sep (url_part params_sep s) of (proto, u) \<Rightarrow>
         (case split_query query_sep u of (u1, query) \<Rightarrow>
          (case split_service service_sep u1 of (host, service) \<Rightarrow>
             Some (Inr \<lparr>pu_data = s, pu_url = url_part params_sep s, pu_proto = proto, pu_host = host, pu_service = service, pu_query = query, pu_params = m\<rparr>)))))"

definition parsed_url :: "string \<Rightarrow> (url_error + parsed_url) option" where
  "parsed_url s = pu_parse s ''|'' ''://'' ''?'' '':'' \<lparr>pu_data = '''', pu_url = '''', pu_proto = '''', pu_host = '''', pu_service = '''', pu_query = '''', pu_params = []\<rparr>"

definition pu_param :: "parsed_url \<Rightarrow> string \<Rightarrow> string \<Rightarrow> string" where
  "pu_param pu key dflt = (case map_of (pu_params pu) key of Some v \<Rightarrow> v | None \<Rightarrow> dflt)"

subsection \<open>Searches: proofs\<close>

lemma find_text_1: "find_text [c] s = find_first (\<lambda>x. x = c) s"
  by (induction s) (simp_all add: find_text.simps [of "[c]"])

lemma rfind_text_Cons: "rfind_text [c] (x # s) = (case rfind_text [c] s of Some n \<Rightarrow> Some (Suc n) | None \<Rightarrow> if x = c then Some 0 else None)"
  by (subst rfind_text.simps) simp

lemma rfind_text_None: "rfind_text [c] s = None \<longleftrightarrow> c \<notin> set s"
  by (induction s) (auto simp: rfind_text_Cons rfind_text.simps [of _ "[]"] split: option.splits)

lemma rfind_text_last: "c \<notin> set v \<Longrightarrow> rfind_text [c] (u @ c # v) = Some (length u)"
  by (induction u) (simp_all add: rfind_text_Cons rfind_text_None iffD2 [OF rfind_text_None])

lemma find_char_at: "c \<notin> set u \<Longrightarrow> find_first (\<lambda>x. x = c) (u @ c # v) = Some (length u)"
  by (induction u) auto

lemma find_char_none: "c \<notin> set u \<Longrightarrow> find_first (\<lambda>x. x = c) u = None"
  by (induction u) auto

lemma find_text_proto_skip: "CHR '':'' \<noteq> x \<Longrightarrow> find_text ''://'' (x # s) = map_option Suc (find_text ''://'' s)"
  by (subst find_text.simps) simp

lemma find_text_proto: "CHR '':'' \<notin> set u \<Longrightarrow> find_text ''://'' (u @ ''://'' @ v) = Some (length u)"
proof (induction u)
  case (Cons x u)
  then show ?case by (simp add: find_text_proto_skip [of x])
qed (simp add: find_text.simps [of "''://''" "CHR '':'' # _"])

lemma find_text_no_proto: "(\<forall>p q. s \<noteq> p @ ''://'' @ q) \<Longrightarrow> find_text ''://'' s = None"
proof (induction s)
  case (Cons x s)
  have "take 3 (x # s) \<noteq> ''://''"
  proof
    assume "take 3 (x # s) = ''://''"
    with append_take_drop_id [of 3 "x # s"] have "x # s = [] @ ''://'' @ drop 3 (x # s)" by (metis append_Nil)
    with Cons.prems show False by blast
  qed
  moreover have "\<forall>p q. s \<noteq> p @ ''://'' @ q" using Cons.prems by (metis append_Cons)
  ultimately show ?case using Cons.IH by (subst find_text.simps) (simp add: eval_nat_numeral)
qed (simp add: find_text.simps)


subsection \<open>Parameters\<close>

fun params_text :: "(string \<times> string) list \<Rightarrow> string" where
  "params_text [] = ''''"
| "params_text ((k, v) # kvs) = ''|'' @ k @ ''='' @ v @ params_text kvs"

fun first_wins :: "(string \<times> string) list \<Rightarrow> (string \<times> string) list \<Rightarrow> (string \<times> string) list" where
  "first_wins m [] = m"
| "first_wins m ((k, v) # kvs) = first_wins (param_emplace k v m) kvs"

definition params_ok :: "(string \<times> string) list \<Rightarrow> bool" where
  "params_ok kvs \<longleftrightarrow> (\<forall>(k, v) \<in> set kvs. CHR ''='' \<notin> set k \<and> CHR ''|'' \<notin> set k \<and> CHR ''|'' \<notin> set v)"

lemma params_text_cases: "params_text kvs = [] \<or> (\<exists>r. params_text kvs = CHR ''|'' # r)"
  by (cases kvs) auto

lemma find_from_1: "find_from [c] (pre @ r) (length pre) = map_option (\<lambda>n. length pre + n) (find_first (\<lambda>x. x = c) r)"
  by (simp add: find_from_def find_text_1)

lemma params_loop_step:
  assumes "p < length s" "find_from ''='' s p = Some e" "e \<noteq> p" "(case find_from sep s e of None \<Rightarrow> length s | Some q \<Rightarrow> q) = q"
  shows "params_loop sep s p m = params_loop sep s q (param_emplace (take (e - p - 1) (drop (p + 1) s)) (take (q - e - 1) (drop (e + 1) s)) m)"
  using assms by (subst params_loop.simps) (simp add: Let_def)

lemma params_loop_text:
  "params_ok kvs \<Longrightarrow> params_loop ''|'' (pre @ params_text kvs) (length pre) m = Some (Inr (first_wins m kvs))"
proof (induction kvs arbitrary: pre m)
  case Nil
  then show ?case by (subst params_loop.simps) simp
next
  case (Cons kv kvs)
  obtain k v where kv: "kv = (k, v)" by fastforce
  have ok: "CHR ''='' \<notin> set k" "CHR ''|'' \<notin> set k" "CHR ''|'' \<notin> set v" "params_ok kvs" using Cons.prems by (auto simp: params_ok_def kv)
  let ?s = "pre @ params_text (kv # kvs)"
  let ?pre2 = "pre @ ''|'' @ k @ ''='' @ v"
  have s2: "?s = ?pre2 @ params_text kvs" by (simp add: kv)
  have e: "find_from ''='' ?s (length pre) = Some (length pre + Suc (length k))"
    using find_char_at [of "CHR ''=''" "CHR ''|'' # k" "v @ params_text kvs"] ok(1) by (simp add: find_from_1 kv)
  have q: "(case find_from ''|'' ?s (length pre + Suc (length k)) of None \<Rightarrow> length ?s | Some q \<Rightarrow> q) = length ?pre2"
  proof -
    have r: "find_from ''|'' ?s (length pre + Suc (length k)) = map_option (\<lambda>n. length pre + Suc (length k) + n) (find_first (\<lambda>x. x = CHR ''|'') (''='' @ v @ params_text kvs))"
      using find_from_1 [of "CHR ''|''" "pre @ ''|'' @ k" "''='' @ v @ params_text kvs"] by (simp add: kv)
    show ?thesis
    proof (cases "params_text kvs = []")
      case True
      then have "find_first (\<lambda>x. x = CHR ''|'') (''='' @ v @ params_text kvs) = None" using ok(3) by (simp add: find_char_none)
      then show ?thesis using True unfolding r by (simp add: kv)
    next
      case False
      then obtain t where t: "params_text kvs = CHR ''|'' # t" using params_text_cases by blast
      have "find_first (\<lambda>x. x = CHR ''|'') ((''='' @ v) @ CHR ''|'' # t) = Some (length (''='' @ v))"
        by (rule find_char_at) (use ok(3) in auto)
      then show ?thesis unfolding r t by simp
    qed
  qed
  have key: "take (length pre + Suc (length k) - length pre - 1) (drop (length pre + 1) ?s) = k"
    and val: "take (length ?pre2 - (length pre + Suc (length k)) - 1) (drop (length pre + Suc (length k) + 1) ?s) = v" by (simp_all add: kv)
  have "params_loop ''|'' ?s (length pre) m = params_loop ''|'' ?s (length ?pre2) (param_emplace k v m)"
    using params_loop_step [OF _ e _ q, of m] unfolding key val by (simp add: kv)
  also have "\<dots> = Some (Inr (first_wins (param_emplace k v m) kvs))"
    unfolding s2 by (rule Cons.IH [OF ok(4)])
  finally show ?case by (simp add: kv)
qed

text \<open>What comes before the parameters.\<close>

lemma url_part_text: "CHR ''|'' \<notin> set u \<Longrightarrow> url_part ''|'' (u @ params_text kvs) = u"
proof -
  assume u: "CHR ''|'' \<notin> set u"
  show ?thesis
  proof (cases "params_text kvs = []")
    case True
    with u have "find_first (\<lambda>x. x = CHR ''|'') u = None" by (simp add: find_char_none)
    with True show ?thesis by (simp add: url_part_def find_text_1)
  next
    case False
    then obtain t where "params_text kvs = CHR ''|'' # t" using params_text_cases by blast
    moreover from this u have "find_first (\<lambda>x. x = CHR ''|'') (u @ CHR ''|'' # t) = Some (length u)" by (intro find_char_at) auto
    ultimately show ?thesis by (simp add: url_part_def find_text_1)
  qed
qed

lemma url_params_text: "CHR ''|'' \<notin> set u \<Longrightarrow> params_ok kvs \<Longrightarrow> url_params ''|'' (u @ params_text kvs) m = Some (Inr (first_wins m kvs))"
proof -
  assume u: "CHR ''|'' \<notin> set u" and ok: "params_ok kvs"
  have "(case find_text ''|'' (u @ params_text kvs) of None \<Rightarrow> length (u @ params_text kvs) | Some p \<Rightarrow> p) = length u"
  proof (cases "params_text kvs = []")
    case True
    with u have "find_first (\<lambda>x. x = CHR ''|'') u = None" by (simp add: find_char_none)
    with True show ?thesis by (simp add: find_text_1)
  next
    case False
    then obtain t where "params_text kvs = CHR ''|'' # t" using params_text_cases by blast
    moreover from this u have "find_first (\<lambda>x. x = CHR ''|'') (u @ CHR ''|'' # t) = Some (length u)" by (intro find_char_at) auto
    ultimately show ?thesis by (simp add: find_text_1)
  qed
  with params_loop_text [OF ok, of u m] show ?thesis by (simp add: url_params_def)
qed

subsection \<open>Whole URLs\<close>

text \<open>An authority with an optional service, and a query.\<close>

definition authority :: "string \<Rightarrow> string option \<Rightarrow> string" where
  "authority host service = host @ (case service of None \<Rightarrow> '''' | Some sv \<Rightarrow> '':'' @ sv)"

definition query_text :: "string option \<Rightarrow> string" where
  "query_text query = (case query of None \<Rightarrow> '''' | Some q \<Rightarrow> ''?'' @ q)"

definition authority_ok :: "string \<Rightarrow> string option \<Rightarrow> bool" where
  "authority_ok host service \<longleftrightarrow> CHR ''?'' \<notin> set (authority host service) \<and> CHR ''|'' \<notin> set (authority host service) \<and>
     (case service of None \<Rightarrow> CHR '':'' \<notin> set host | Some sv \<Rightarrow> CHR '':'' \<notin> set sv)"

lemma split_service_authority: "authority_ok host service \<Longrightarrow> split_service '':'' (authority host service) = (host, case service of None \<Rightarrow> '''' | Some sv \<Rightarrow> sv)"
  by (cases service) (auto simp: authority_ok_def authority_def split_service_def rfind_text_last iffD2 [OF rfind_text_None])

lemma split_query_text: "CHR ''?'' \<notin> set u \<Longrightarrow> split_query ''?'' (u @ query_text query) = (u, query_text query)"
proof (cases query)
  case None
  assume "CHR ''?'' \<notin> set u"
  then have "find_first (\<lambda>x. x = CHR ''?'') u = None" by (simp add: find_char_none)
  with None show ?thesis by (simp add: split_query_def find_text_1 query_text_def)
next
  case (Some q)
  assume "CHR ''?'' \<notin> set u"
  then have "find_first (\<lambda>x. x = CHR ''?'') (u @ CHR ''?'' # q) = Some (length u)" by (intro find_char_at) auto
  with Some show ?thesis by (simp add: split_query_def find_text_1 query_text_def)
qed

lemma url_no_proto:
  assumes "authority_ok host service" "params_ok kvs" "CHR ''|'' \<notin> set (query_text query)"
    "\<forall>p q. authority host service @ query_text query \<noteq> p @ ''://'' @ q"
  shows "parsed_url (authority host service @ query_text query @ params_text kvs) =
    Some (Inr \<lparr>pu_data = authority host service @ query_text query @ params_text kvs, pu_url = authority host service @ query_text query, pu_proto = '''',
      pu_host = host, pu_service = (case service of None \<Rightarrow> '''' | Some sv \<Rightarrow> sv), pu_query = query_text query, pu_params = first_wins [] kvs\<rparr>)"
proof -
  let ?u = "authority host service @ query_text query"
  have bar: "CHR ''|'' \<notin> set ?u" using assms(1,3) by (auto simp: authority_ok_def)
  have np: "split_proto ''://'' ?u = ('''', ?u)" using find_text_no_proto [OF assms(4)] by (simp add: split_proto_def)
  have qs: "split_query ''?'' ?u = (authority host service, query_text query)" using assms(1) by (intro split_query_text) (simp add: authority_ok_def)
  show ?thesis
    using url_part_text [OF bar, of kvs] url_params_text [OF bar assms(2), of "[]"] np qs split_service_authority [OF assms(1)]
    by (simp add: parsed_url_def pu_parse_def)
qed

text \<open>A URL without a protocol is read into its parts: host, service behind the last colon, query with its question mark, and the parameters, of
  which the first of each key counts; the loop over the parameters returns.\<close>

theorem url_parts:
  assumes "authority_ok host service" "params_ok kvs" "CHR ''|'' \<notin> set (query_text query)"
    "\<forall>p q. authority host service @ query_text query \<noteq> p @ ''://'' @ q"
  shows "parsed_url (authority host service @ query_text query @ params_text kvs) =
    Some (Inr \<lparr>pu_data = authority host service @ query_text query @ params_text kvs, pu_url = authority host service @ query_text query, pu_proto = '''',
      pu_host = host, pu_service = (case service of None \<Rightarrow> '''' | Some sv \<Rightarrow> sv), pu_query = query_text query, pu_params = first_wins [] kvs\<rparr>)"
  using assms by (rule url_no_proto)

theorem url_parts_witness:
  "parsed_url ''[::1]:80?x|a=1|b=2|a=3'' = Some (Inr \<lparr>pu_data = ''[::1]:80?x|a=1|b=2|a=3'', pu_url = ''[::1]:80?x'', pu_proto = '''', pu_host = ''[::1]'',
     pu_service = ''80'', pu_query = ''?x'', pu_params = [(''a'', ''1''), (''b'', ''2'')]\<rparr>)"
proof -
  have np: "\<forall>p q. authority ''[::1]'' (Some ''80'') @ query_text (Some ''x'') \<noteq> p @ ''://'' @ q"
  proof (intro allI notI)
    fix p q assume a: "authority ''[::1]'' (Some ''80'') @ query_text (Some ''x'') = p @ ''://'' @ q"
    then have "CHR ''/'' \<in> set (authority ''[::1]'' (Some ''80'') @ query_text (Some ''x''))" by simp
    then show False by (simp add: authority_def query_text_def)
  qed
  from url_parts [OF _ _ _ np, of "[(''a'', ''1''), (''b'', ''2''), (''a'', ''3'')]"] show ?thesis
    by (simp add: authority_ok_def authority_def query_text_def params_ok_def param_emplace_def)
qed

text \<open>With a protocol the separator stays in front of the host; without a service it is even taken apart.\<close>

lemma url_with_proto:
  assumes "CHR '':'' \<notin> set proto" "CHR ''|'' \<notin> set proto" "authority_ok host service" "params_ok kvs" "CHR ''|'' \<notin> set (query_text query)"
  shows "parsed_url (proto @ ''://'' @ authority host service @ query_text query @ params_text kvs) =
    Some (Inr \<lparr>pu_data = proto @ ''://'' @ authority host service @ query_text query @ params_text kvs, pu_url = proto @ ''://'' @ authority host service @ query_text query,
      pu_proto = proto, pu_host = (case service of None \<Rightarrow> '''' | Some sv \<Rightarrow> ''://'' @ host), pu_service = (case service of None \<Rightarrow> ''//'' @ host | Some sv \<Rightarrow> sv),
      pu_query = query_text query, pu_params = first_wins [] kvs\<rparr>)"
proof -
  let ?u = "proto @ ''://'' @ authority host service @ query_text query"
  have bar: "CHR ''|'' \<notin> set ?u" using assms(2,3,5) by (auto simp: authority_ok_def)
  have np: "split_proto ''://'' ?u = (proto, ''://'' @ authority host service @ query_text query)" using find_text_proto [OF assms(1)] by (simp add: split_proto_def)
  have qs: "split_query ''?'' (''://'' @ authority host service @ query_text query) = (''://'' @ authority host service, query_text query)"
    using split_query_text [of "''://'' @ authority host service" query] assms(3) by (simp add: authority_ok_def)
  have sv: "split_service '':'' (''://'' @ authority host service) =
      (case service of None \<Rightarrow> '''' | Some sv \<Rightarrow> ''://'' @ host, case service of None \<Rightarrow> ''//'' @ host | Some sv \<Rightarrow> sv)"
  proof (cases service)
    case None
    then show ?thesis using assms(3) rfind_text_last [of "CHR '':''" "''//'' @ host" "[]"] by (simp add: authority_def authority_ok_def split_service_def)
  next
    case (Some sv)
    then show ?thesis using assms(3) rfind_text_last [of "CHR '':''" sv "''://'' @ host"] by (simp add: authority_def authority_ok_def split_service_def)
  qed
  show ?thesis
    using url_part_text [OF bar, of kvs] url_params_text [OF bar assms(4), of "[]"] np qs sv
    by (simp add: parsed_url_def pu_parse_def)
qed


text \<open>Parsing again keeps the parameters of the URL before, whose values win.\<close>

lemma url_parse_again:
  assumes "CHR ''|'' \<notin> set u" "params_ok kvs"
  shows "\<exists>pu'. pu_parse (u @ params_text kvs) ''|'' ''://'' ''?'' '':'' pu = Some (Inr pu') \<and> pu_params pu' = first_wins (pu_params pu) kvs"
  using url_params_text [OF assms, of "pu_params pu"] by (simp add: pu_parse_def split: prod.split)

lemma first_wins_old: "map_of m k = Some v \<Longrightarrow> map_of (first_wins m kvs) k = Some v"
  by (induction m kvs rule: first_wins.induct) (auto simp: param_emplace_def map_add_def)

subsection \<open>Every text is parsed\<close>

lemma find_text_char: "find_text [c] s = Some n \<Longrightarrow> n < length s \<and> s ! n = c"
  by (induction s arbitrary: n) (auto simp: find_text_1 split: if_splits option.splits)

lemma find_from_char: "find_from [c] s p = Some n \<Longrightarrow> p \<le> n \<and> n < length s \<and> s ! n = c"
  by (auto simp: find_from_def split: if_splits dest!: find_text_char)

text \<open>The loop is at a separator or at the end, so that the next \<open>=\<close> is behind it.\<close>

lemma params_loop_returns: "p \<ge> length s \<or> s ! p = CHR ''|'' \<Longrightarrow> params_loop ''|'' s p m \<noteq> None"
proof (induction "length s - p" arbitrary: p m rule: less_induct)
  case less
  show ?case
  proof (cases "p \<ge> length s")
    case True
    then show ?thesis by (subst params_loop.simps) simp
  next
    case False
    with less.prems have p: "p < length s" "s ! p = CHR ''|''" by auto
    show ?thesis
    proof (cases "find_from ''='' s p")
      case None
      with p show ?thesis by (subst params_loop.simps) simp
    next
      case (Some e)
      with find_from_char [OF Some] p have e: "p < e" "e < length s" by (auto simp: order_less_le)
      define q where "q = (case find_from ''|'' s e of None \<Rightarrow> length s | Some q \<Rightarrow> q)"
      have q: "p < q" "q \<ge> length s \<or> s ! q = CHR ''|''" using e by (auto simp: q_def split: option.splits dest!: find_from_char)
      have "params_loop ''|'' s q m' \<noteq> None" for m' using less.hyps [of q] q p by auto
      with Some p e show ?thesis by (subst params_loop.simps) (simp add: Let_def q_def)
    qed
  qed
qed

lemma parsed_url_returns: "parsed_url s \<noteq> None"
proof -
  have "url_params ''|'' s m \<noteq> None" for m
    unfolding url_params_def using find_text_char [of "CHR ''|''" s] by (auto split: option.splits intro!: params_loop_returns [unfolded not_None_eq])
  then show ?thesis by (simp add: parsed_url_def pu_parse_def split: option.splits sum.splits prod.splits)
qed

end
