(* ===== verification/Endpoints.thy ===== *)
theory Endpoints
  imports Urls
begin

text \<open>
  Endpoints as text: \<open>parse_endpoint\<close> and the output operators of \<open>net/Endpoint.cpp\<close>, and the filters of \<open>net/EndpointFilter.hpp\<close>. Addresses are
  what \<open>inet_ntop\<close> writes; constants are those of Linux.
\<close>

subsection \<open>Reading\<close>

definition AF_UNSPEC :: int where "AF_UNSPEC = 0"
definition AF_UNIX :: int where "AF_UNIX = 1"
definition AF_INET :: int where "AF_INET = 2"
definition AF_INET6 :: int where "AF_INET6 = 10"
definition SOCK_STREAM :: int where "SOCK_STREAM = 1"
definition SOCK_DGRAM :: int where "SOCK_DGRAM = 2"
definition IPPROTO_TCP :: int where "IPPROTO_TCP = 6"
definition IPPROTO_UDP :: int where "IPPROTO_UDP = 17"

lemmas socket_constants = AF_UNSPEC_def AF_UNIX_def AF_INET_def AF_INET6_def SOCK_STREAM_def SOCK_DGRAM_def IPPROTO_TCP_def IPPROTO_UDP_def

datatype endpoint_error = UrlError url_error | InvalidUri string

text \<open>What is asked of the resolver: \<open>get_unix_addrinfo(path, type)\<close> or \<open>getaddrinfo(node, service, family, type, protocol)\<close>.\<close>

datatype resolve = UnixAddr string int | GetAddrInfo "string option" "string option" int int int

definition c_str :: "string \<Rightarrow> string option" where
  "c_str s = (if s = [] then None else Some s)"

text \<open>The family and the protocol of a scheme.\<close>

definition scheme_family :: "string \<Rightarrow> int \<Rightarrow> int \<Rightarrow> int \<times> int" where
  "scheme_family scheme type default_family =
     (if scheme = ''ip4'' then (AF_INET, 0)
      else if scheme = ''ip6'' then (AF_INET6, 0)
      else if scheme = ''tcp4'' then (if type = SOCK_STREAM then (AF_INET, IPPROTO_TCP) else (default_family, 0))
      else if scheme = ''tcp6'' then (if type = SOCK_STREAM then (AF_INET6, IPPROTO_TCP) else (default_family, 0))
      else if scheme = ''udp4'' then (if type = SOCK_DGRAM then (AF_INET, IPPROTO_UDP) else (default_family, 0))
      else if scheme = ''udp6'' then (if type = SOCK_DGRAM then (AF_INET6, IPPROTO_UDP) else (default_family, 0))
      else if scheme = '''' \<and> (default_family = AF_INET \<or> default_family = AF_INET6)
      then (default_family, if type = SOCK_STREAM then IPPROTO_TCP else if type = SOCK_DGRAM then IPPROTO_UDP else 0)
      else (default_family, 0))"

definition parse_endpoint :: "string \<Rightarrow> int \<Rightarrow> int \<Rightarrow> (endpoint_error + resolve) option" where
  "parse_endpoint uri type default_family =
     (case parsed_url uri of
        None \<Rightarrow> None
      | Some (Inl err) \<Rightarrow> Some (Inl (UrlError err))
      | Some (Inr parsed) \<Rightarrow>
          if pu_proto parsed = ''unix'' then Some (Inr (UnixAddr (pu_host parsed) type))
          else
            (case scheme_family (pu_proto parsed) type default_family of (family, protocol) \<Rightarrow>
               if family < 0 then Some (Inl (InvalidUri uri))
               else Some (Inr (GetAddrInfo (c_str (pu_host parsed)) (c_str (pu_service parsed)) family type protocol))))"

text \<open>A multicast endpoint: the resolver's request and the interface.\<close>

definition mcast_from_string :: "string \<Rightarrow> (endpoint_error + resolve \<times> string) option" where
  "mcast_from_string s =
     (case parsed_url s of
        None \<Rightarrow> None
      | Some (Inl err) \<Rightarrow> Some (Inl (UrlError err))
      | Some (Inr url) \<Rightarrow>
          (case parse_endpoint (pu_url url) SOCK_DGRAM AF_UNSPEC of
             None \<Rightarrow> None
           | Some (Inl err) \<Rightarrow> Some (Inl err)
           | Some (Inr r) \<Rightarrow> Some (Inr (r, pu_param url ''interface'' ''''))))"

lemma parse_endpoint_returns: "parse_endpoint uri type fam \<noteq> None"
  using parsed_url_returns [of uri] by (auto simp: parse_endpoint_def split: option.splits sum.splits prod.splits)

subsection \<open>Printing\<close>

datatype sockaddr = SockaddrIn string nat | SockaddrIn6 string nat | SockaddrUn string | SockaddrOther

fun sockaddr_text :: "sockaddr \<Rightarrow> string" where
  "sockaddr_text (SockaddrIn addr port) = addr @ '':'' @ nat_string port"
| "sockaddr_text (SockaddrIn6 addr port) = ''['' @ addr @ '']:'' @ nat_string port"
| "sockaddr_text (SockaddrUn path) = path"
| "sockaddr_text SockaddrOther = ''<sockaddr>''"

definition dgram_text :: "int \<Rightarrow> int \<Rightarrow> sockaddr \<Rightarrow> string" where
  "dgram_text family protocol sa =
     (if family = AF_INET then (if protocol = IPPROTO_UDP then ''udp4://'' else ''ip4://'')
      else if family = AF_INET6 then (if protocol = IPPROTO_UDP then ''udp6://'' else ''ip6://'')
      else if family = AF_UNIX then ''unix://'' else '''') @ sockaddr_text sa"

definition stream_text :: "int \<Rightarrow> int \<Rightarrow> sockaddr \<Rightarrow> string" where
  "stream_text family protocol sa =
     (if family = AF_INET then (if protocol = IPPROTO_TCP then ''tcp4://'' else ''ip4://'')
      else if family = AF_INET6 then (if protocol = IPPROTO_TCP then ''tcp6://'' else ''ip6://'')
      else if family = AF_UNIX then ''unix://'' else '''') @ sockaddr_text sa"

definition addrinfo_text :: "int \<Rightarrow> int \<Rightarrow> sockaddr \<Rightarrow> string" where
  "addrinfo_text family protocol sa =
     (if family = AF_INET then (if protocol = IPPROTO_TCP then ''tcp4://'' else if protocol = IPPROTO_UDP then ''udp4://'' else ''ip4://'')
      else if family = AF_INET6 then (if protocol = IPPROTO_TCP then ''tcp6://'' else if protocol = IPPROTO_UDP then ''udp6://'' else ''ip6://'')
      else if family = AF_UNIX then ''unix://'' else '''') @ sockaddr_text sa"

subsection \<open>Reading what was printed\<close>

lemma port_chars: "CHR '':'' \<notin> set (nat_string n)" "CHR ''?'' \<notin> set (nat_string n)" "CHR ''|'' \<notin> set (nat_string n)" "CHR ''/'' \<notin> set (nat_string n)"
  using nat_string_digits(1) [of n] by (auto simp: isdigit_def)

text \<open>The characters of an address: none of those that separate the parts of a URL, a colon apart.\<close>

definition addr_ok :: "string \<Rightarrow> bool" where
  "addr_ok addr \<longleftrightarrow> addr \<noteq> [] \<and> set addr \<inter> set ''?|/'' = {}"

lemma parse_plain:
  assumes "addr_ok host"
  shows "parse_endpoint (host @ '':'' @ nat_string port) type fam =
    (case scheme_family '''' type fam of (family, protocol) \<Rightarrow>
       if family < 0 then Some (Inl (InvalidUri (host @ '':'' @ nat_string port)))
       else Some (Inr (GetAddrInfo (Some host) (Some (nat_string port)) family type protocol)))"
proof -
  have np: "\<forall>p q. authority host (Some (nat_string port)) @ query_text None \<noteq> p @ ''://'' @ q"
  proof (intro allI notI)
    fix p q assume "authority host (Some (nat_string port)) @ query_text None = p @ ''://'' @ q"
    moreover have "CHR ''/'' \<in> set (p @ ''://'' @ q)" by simp
    moreover have "CHR ''/'' \<notin> set (authority host (Some (nat_string port)) @ query_text None)"
      using assms port_chars by (auto simp: authority_def query_text_def addr_ok_def)
    ultimately show False by simp
  qed
  have "authority_ok host (Some (nat_string port))" using assms port_chars by (auto simp: authority_ok_def authority_def addr_ok_def)
  from url_no_proto [OF this _ _ np, of "[]"] assms show ?thesis
    by (simp add: parse_endpoint_def params_ok_def authority_def query_text_def c_str_def addr_ok_def nat_string_digits(2) split: prod.split)
qed

lemma parse_schemed:
  assumes "addr_ok host" "CHR '':'' \<notin> set scheme" "CHR ''|'' \<notin> set scheme" "scheme \<noteq> ''unix''"
  shows "parse_endpoint (scheme @ ''://'' @ host @ '':'' @ nat_string port) type fam =
    (case scheme_family scheme type fam of (family, protocol) \<Rightarrow>
       if family < 0 then Some (Inl (InvalidUri (scheme @ ''://'' @ host @ '':'' @ nat_string port)))
       else Some (Inr (GetAddrInfo (Some (''://'' @ host)) (Some (nat_string port)) family type protocol)))"
proof -
  have "authority_ok host (Some (nat_string port))" using assms(1) port_chars by (auto simp: authority_ok_def authority_def addr_ok_def)
  from url_with_proto [OF assms(2,3) this, of "[]" None] assms show ?thesis
    by (simp add: parse_endpoint_def params_ok_def authority_def query_text_def c_str_def nat_string_digits(2) split: prod.split)
qed

text \<open>The text of an endpoint is not read back. Its address and port alone, as in a configuration, ask the resolver for that address and that
  port; with the scheme that the output operators write in front, the host asked for begins with the separator, and every such name fails to
  resolve.\<close>

theorem endpoint_text_not_read_back:
  assumes "addr_ok addr"
  shows "parse_endpoint (sockaddr_text (SockaddrIn addr port)) SOCK_DGRAM AF_INET =
      Some (Inr (GetAddrInfo (Some addr) (Some (nat_string port)) AF_INET SOCK_DGRAM IPPROTO_UDP)) \<and>
    parse_endpoint (dgram_text AF_INET IPPROTO_UDP (SockaddrIn addr port)) SOCK_DGRAM fam =
      Some (Inr (GetAddrInfo (Some (''://'' @ addr)) (Some (nat_string port)) AF_INET SOCK_DGRAM IPPROTO_UDP)) \<and>
    parse_endpoint (stream_text AF_INET6 IPPROTO_TCP (SockaddrIn6 addr port)) SOCK_STREAM fam =
      Some (Inr (GetAddrInfo (Some (''://['' @ addr @ '']'')) (Some (nat_string port)) AF_INET6 SOCK_STREAM IPPROTO_TCP))"
proof -
  have six: "addr_ok (''['' @ addr @ '']'')" using assms by (auto simp: addr_ok_def)
  show ?thesis
    using parse_plain [OF assms, of port SOCK_DGRAM AF_INET] parse_schemed [OF assms, of "''udp4''" port SOCK_DGRAM fam]
      parse_schemed [OF six, of "''tcp6''" port SOCK_STREAM fam]
    by (simp add: dgram_text_def stream_text_def scheme_family_def socket_constants)
qed

theorem endpoint_text_not_read_back_witness:
  "parse_endpoint (dgram_text AF_INET IPPROTO_UDP (SockaddrIn ''10.0.0.1'' 80)) SOCK_DGRAM AF_UNSPEC =
     Some (Inr (GetAddrInfo (Some ''://10.0.0.1'') (Some (nat_string 80)) AF_INET SOCK_DGRAM IPPROTO_UDP))"
  using endpoint_text_not_read_back [of "''10.0.0.1''" 80] by (simp add: addr_ok_def)

text \<open>A scheme that is not known, or of the other type, is not an invalid URI unless the caller asks for a negative family, which no caller does.\<close>

lemma unknown_scheme_accepted:
  assumes "addr_ok host" "0 \<le> fam"
  shows "parse_endpoint (''tcp4'' @ ''://'' @ host @ '':'' @ nat_string port) SOCK_DGRAM fam =
      Some (Inr (GetAddrInfo (Some (''://'' @ host)) (Some (nat_string port)) fam SOCK_DGRAM 0))"
    and "parse_endpoint (''foo'' @ ''://'' @ host @ '':'' @ nat_string port) SOCK_DGRAM fam =
      Some (Inr (GetAddrInfo (Some (''://'' @ host)) (Some (nat_string port)) fam SOCK_DGRAM 0))"
  using parse_schemed [OF assms(1), of "''tcp4''" port SOCK_DGRAM fam] parse_schemed [OF assms(1), of "''foo''" port SOCK_DGRAM fam] assms(2)
  by (simp_all add: scheme_family_def socket_constants)

subsection \<open>Filters\<close>

text \<open>The type of addresses is a parameter.\<close>

record 'a endpoint =
  ep_address :: 'a
  ep_port :: nat

record 'a endpoint_filter =
  ef_address :: "'a option"
  ef_port :: "nat option"

definition ef_match :: "'a endpoint_filter \<Rightarrow> 'a endpoint \<Rightarrow> bool" where
  "ef_match f ep =
     (if ef_port f \<noteq> None \<and> ep_port ep \<noteq> the (ef_port f) then False
      else if ef_address f \<noteq> None \<and> ep_address ep \<noteq> the (ef_address f) then False
      else True)"

record 'a endpoints_filter =
  fs_tcp :: bool
  fs_udp :: bool
  fs_sources :: "'a endpoint_filter list"
  fs_destinations :: "'a endpoint_filter list"

fun fs_match :: "'a endpoint_filter list \<Rightarrow> 'a endpoint \<Rightarrow> bool" where
  "fs_match [] ep = False"
| "fs_match (f # fs) ep = (if ef_match f ep then True else fs_match fs ep)"

definition fs_pass :: "'a endpoints_filter \<Rightarrow> int \<Rightarrow> 'a endpoint \<Rightarrow> 'a endpoint \<Rightarrow> bool" where
  "fs_pass fs protocol src dst =
     (if \<not> fs_udp fs \<and> protocol = IPPROTO_UDP then False
      else if \<not> fs_tcp fs \<and> protocol = IPPROTO_TCP then False
      else if fs_sources fs \<noteq> [] \<and> \<not> fs_match (fs_sources fs) src then False
      else if fs_destinations fs \<noteq> [] \<and> \<not> fs_match (fs_destinations fs) dst then False
      else True)"

text \<open>A filter from text; \<open>resolve\<close> is the conversion of a string to an endpoint. The port is signed when it is read.\<close>

definition ef_from_string :: "(string \<Rightarrow> 'e + 'a endpoint) \<Rightarrow> string \<Rightarrow> 'e + 'a endpoint_filter" where
  "ef_from_string resolve s =
     (if s \<noteq> [] \<and> hd s = CHR '':'' then Inr \<lparr>ef_address = None, ef_port = Some (nat (take_bit 32 (ston_signed 32 (drop 1 s))))\<rparr>
      else (case resolve s of
          Inl err \<Rightarrow> Inl err
        | Inr ep \<Rightarrow> Inr \<lparr>ef_address = Some (ep_address ep), ef_port = (if ep_port ep \<noteq> 0 then Some (ep_port ep) else None)\<rparr>))"

lemma fs_match_any: "fs_match fs ep \<longleftrightarrow> (\<exists>f \<in> set fs. ef_match f ep)"
  by (induction fs) auto

lemma ef_port_only:
  assumes "p < 2 ^ 31" "ef_from_string resolve ('':'' @ nat_string p) = Inr f"
  shows "ef_match f ep \<longleftrightarrow> ep_port ep = p"
proof -
  have "int_string (int p) = nat_string p" by (simp add: int_string_def)
  with ston_int_string [of 32 "int p"] assms(1) have "ston_signed 32 (nat_string p) = int p" by simp
  then have "f = \<lparr>ef_address = None, ef_port = Some p\<rparr>" using assms by (auto simp: ef_from_string_def take_bit_int_eq_self)
  then show ?thesis by (simp add: ef_match_def)
qed

end
