(* ===== verification/Resolvers.thy ===== *)
theory Resolvers
  imports Endpoints
begin

text \<open>
  The resolver of \<open>net/Resolver.cpp\<close> and the threads of \<open>net/Runner.cpp\<close> that run it. What happens under the mutex is one step, and so is the execution of
  a task; any number of threads run the resolver. \<open>getaddrinfo\<close> is a parameter.
\<close>

subsection \<open>State\<close>

text \<open>What a future holds: an exception of the URL or of the system, or the addresses. A broken promise is one whose task was destroyed.\<close>

type_synonym 'a outcome = "(endpoint_error + string) + 'a"

datatype 'a future = FuturePending | FutureReady "'a outcome" | FutureBroken

text \<open>
  A task is the number of its request. \<open>rs_batch t\<close> are the tasks that thread \<open>t\<close> has still to execute in its call of \<open>run\<close>, and the number it has taken.
  \<open>rs_done\<close> are the tasks executed, \<open>rs_rets\<close> the values that \<open>run\<close> has returned, \<open>rs_ended\<close> the threads that have left their loop.
\<close>

record 'a resolver =
  rs_asked :: "(string \<times> int) list"
  rs_queue :: "nat list"
  rs_stopped :: bool
  rs_future :: "nat \<Rightarrow> 'a future"
  rs_batch :: "nat \<Rightarrow> (nat list \<times> nat) option"
  rs_done :: "nat list"
  rs_cleared :: bool
  rs_rets :: "(nat \<times> int) list"
  rs_ended :: "nat \<Rightarrow> bool"

definition rs_new :: "'a resolver" where
  "rs_new = \<lparr>rs_asked = [], rs_queue = [], rs_stopped = False, rs_future = (\<lambda>_. FuturePending), rs_batch = (\<lambda>_. None), rs_done = [], rs_cleared = False,
     rs_rets = [], rs_ended = (\<lambda>_. False)\<rparr>"

subsection \<open>Operations\<close>

definition resolve_task :: "(resolve \<Rightarrow> string + 'a) \<Rightarrow> string \<times> int \<Rightarrow> 'a outcome option" where
  "resolve_task gai q = (case parse_endpoint (fst q) (snd q) AF_UNSPEC of
     None \<Rightarrow> None
   | Some (Inl err) \<Rightarrow> Some (Inl (Inl err))
   | Some (Inr r) \<Rightarrow> Some (case gai r of Inl err \<Rightarrow> Inl (Inr err) | Inr a \<Rightarrow> Inr a))"

text \<open>\<open>None\<close> is the exception of a stopped resolver.\<close>

definition rs_resolve :: "string \<Rightarrow> int \<Rightarrow> 'a resolver \<Rightarrow> (nat \<times> 'a resolver) option" where
  "rs_resolve uri type s =
     (if rs_stopped s then None
      else Some (length (rs_asked s), s\<lparr>rs_asked := rs_asked s @ [(uri, type)], rs_queue := rs_queue s @ [length (rs_asked s)]\<rparr>))"

definition rs_clear :: "'a resolver \<Rightarrow> 'a resolver" where
  "rs_clear s = s\<lparr>rs_queue := [], rs_future := (\<lambda>i. if i \<in> set (rs_queue s) then FutureBroken else rs_future s i), rs_cleared := True\<rparr>"

definition rs_stop :: "'a resolver \<Rightarrow> 'a resolver" where
  "rs_stop s = s\<lparr>rs_stopped := True\<rparr>"

definition batch_size :: nat where "batch_size = 16"

text \<open>\<open>run\<close> under the mutex: the wait times out only if the queue is empty and the resolver is not stopped.\<close>

definition rs_run_locked :: "'a resolver \<Rightarrow> (int + nat list) \<times> 'a resolver" where
  "rs_run_locked s =
     (if rs_queue s = [] \<and> \<not> rs_stopped s then (Inl 0, s)
      else if rs_stopped s then (Inl (- 1), rs_clear s)
      else let n = min (length (rs_queue s)) batch_size in (Inr (take n (rs_queue s)), s\<lparr>rs_queue := drop n (rs_queue s)\<rparr>))"

definition rs_return :: "nat \<Rightarrow> int \<Rightarrow> 'a resolver \<Rightarrow> 'a resolver" where
  "rs_return t r s = s\<lparr>rs_batch := (rs_batch s)(t := None), rs_rets := rs_rets s @ [(t, r)], rs_ended := (if r \<ge> 0 then rs_ended s else (rs_ended s)(t := True))\<rparr>"

definition rs_execute :: "(resolve \<Rightarrow> string + 'a) \<Rightarrow> nat \<Rightarrow> nat \<Rightarrow> nat list \<Rightarrow> nat \<Rightarrow> 'a resolver \<Rightarrow> 'a resolver option" where
  "rs_execute gai t i js n s = (case resolve_task gai (rs_asked s ! i) of
     None \<Rightarrow> None
   | Some r \<Rightarrow> Some (s\<lparr>rs_future := (rs_future s)(i := FutureReady r), rs_batch := (rs_batch s)(t := Some (js, n)), rs_done := rs_done s @ [i]\<rparr>))"

text \<open>One step of a thread in the loop of \<open>run_resolver\<close>.\<close>

definition runner_step :: "(resolve \<Rightarrow> string + 'a) \<Rightarrow> nat \<Rightarrow> 'a resolver \<Rightarrow> 'a resolver option" where
  "runner_step gai t s =
     (if rs_ended s t then None
      else (case rs_batch s t of
        None \<Rightarrow> (case rs_run_locked s of
            (Inl r, s1) \<Rightarrow> Some (rs_return t r s1)
          | (Inr js, s1) \<Rightarrow> Some (s1\<lparr>rs_batch := (rs_batch s1)(t := Some (js, length js))\<rparr>))
      | Some ([], n) \<Rightarrow> Some (rs_return t (int n) s)
      | Some (i # js, n) \<Rightarrow> rs_execute gai t i js n s))"

inductive rs_step :: "(resolve \<Rightarrow> string + 'a) \<Rightarrow> nat set \<Rightarrow> 'a resolver \<Rightarrow> 'a resolver \<Rightarrow> bool" for gai T where
  rs_asks: "rs_resolve uri type s = Some (i, s') \<Longrightarrow> rs_step gai T s s'"
| rs_clears: "rs_step gai T s (rs_clear s)"
| rs_stops: "rs_step gai T s (rs_stop s)"
| rs_runs: "t \<in> T \<Longrightarrow> runner_step gai t s = Some s' \<Longrightarrow> rs_step gai T s s'"

subsection \<open>The tasks\<close>

definition rs_held :: "'a resolver \<Rightarrow> nat \<Rightarrow> nat list" where
  "rs_held s t = (case rs_batch s t of None \<Rightarrow> [] | Some (js, n) \<Rightarrow> js)"

text \<open>The effect of a thread's step, one case per kind.\<close>

lemma runner_cases:
  assumes "runner_step gai t s = Some s'"
  obtains (wait) "rs_batch s t = None" "rs_queue s = []" "\<not> rs_stopped s" "s' = rs_return t 0 s"
    | (ends) "rs_batch s t = None" "rs_stopped s" "s' = rs_return t (- 1) (rs_clear s)"
    | (takes) n where "rs_batch s t = None" "rs_queue s \<noteq> []" "\<not> rs_stopped s" "n = min (length (rs_queue s)) batch_size"
        "s' = s\<lparr>rs_queue := drop n (rs_queue s), rs_batch := (rs_batch s)(t := Some (take n (rs_queue s), n))\<rparr>"
    | (returns) n where "rs_batch s t = Some ([], n)" "s' = rs_return t (int n) s"
    | (executes) i js n r where "rs_batch s t = Some (i # js, n)" "resolve_task gai (rs_asked s ! i) = Some r"
        "s' = s\<lparr>rs_future := (rs_future s)(i := FutureReady r), rs_batch := (rs_batch s)(t := Some (js, n)), rs_done := rs_done s @ [i]\<rparr>"
  using assms
  by (auto simp: runner_step_def rs_run_locked_def rs_execute_def Let_def min_def split: if_splits option.splits prod.splits list.splits)

text \<open>The tasks of the queue are in order, those of the threads are apart from them and from each other.\<close>

definition tasks_ok :: "nat list \<Rightarrow> (nat \<Rightarrow> nat list) \<Rightarrow> nat \<Rightarrow> bool" where
  "tasks_ok q h m \<longleftrightarrow> sorted_wrt (<) q \<and> (\<forall>i \<in> set q. i < m) \<and> (\<forall>t. distinct (h t)) \<and> (\<forall>t. \<forall>i \<in> set (h t). i < m \<and> i \<notin> set q) \<and>
     (\<forall>t u i. i \<in> set (h t) \<longrightarrow> i \<in> set (h u) \<longrightarrow> t = u)"

definition waiting :: "nat list \<Rightarrow> (nat \<Rightarrow> nat list) \<Rightarrow> nat \<Rightarrow> nat \<Rightarrow> bool" where
  "waiting q h m i \<longleftrightarrow> m \<le> i \<or> i \<in> set q \<or> (\<exists>t. i \<in> set (h t))"

definition futures_ok :: "(nat \<Rightarrow> bool) \<Rightarrow> (nat \<Rightarrow> 'a outcome option) \<Rightarrow> (nat \<Rightarrow> 'a future) \<Rightarrow> nat list \<Rightarrow> bool \<Rightarrow> bool" where
  "futures_ok w run f d c \<longleftrightarrow> (\<forall>i. f i = FuturePending \<longleftrightarrow> w i) \<and> (\<forall>i r. f i = FutureReady r \<longrightarrow> run i = Some r) \<and> distinct d \<and>
     (\<forall>i. i \<in> set d \<longleftrightarrow> (\<exists>r. f i = FutureReady r)) \<and> (\<forall>i. f i = FutureBroken \<longrightarrow> c)"

definition runs_ok :: "'a resolver \<Rightarrow> bool" where
  "runs_ok s \<longleftrightarrow> (\<forall>t n js. rs_batch s t = Some (js, n) \<longrightarrow> n \<le> batch_size) \<and> (\<forall>(t, r) \<in> set (rs_rets s). - 1 \<le> r \<and> r \<le> int batch_size) \<and>
     (\<forall>t. rs_ended s t \<longrightarrow> rs_stopped s \<and> rs_queue s = [] \<and> rs_batch s t = None)"

abbreviation rs_waiting :: "'a resolver \<Rightarrow> nat \<Rightarrow> bool" where
  "rs_waiting s \<equiv> waiting (rs_queue s) (rs_held s) (length (rs_asked s))"

definition rs_inv :: "(resolve \<Rightarrow> string + 'a) \<Rightarrow> 'a resolver \<Rightarrow> bool" where
  "rs_inv gai s \<longleftrightarrow> tasks_ok (rs_queue s) (rs_held s) (length (rs_asked s)) \<and>
     futures_ok (rs_waiting s) (\<lambda>i. resolve_task gai (rs_asked s ! i)) (rs_future s) (rs_done s) (rs_cleared s) \<and> runs_ok s"

lemma tasks_ask: "tasks_ok q h m \<Longrightarrow> tasks_ok (q @ [m]) h (Suc m)"
  by (fastforce simp: tasks_ok_def sorted_wrt_append)

lemma tasks_clear: "tasks_ok q h m \<Longrightarrow> tasks_ok [] h m"
  by (simp add: tasks_ok_def)

lemma tasks_take: "tasks_ok q h m \<Longrightarrow> h t = [] \<Longrightarrow> tasks_ok (drop n q) (h(t := take n q)) m"
proof -
  assume q: "tasks_ok q h m" "h t = []"
  then have "distinct q" by (auto simp: tasks_ok_def strict_sorted_iff)
  then have "set (take n q) \<inter> set (drop n q) = {}" by (rule set_take_disj_set_drop_if_distinct) simp
  with q \<open>distinct q\<close> show ?thesis unfolding tasks_ok_def
    by (simp add: sorted_wrt_drop) (blast dest: in_set_takeD in_set_dropD)
qed

lemma tasks_tail: "tasks_ok q h m \<Longrightarrow> h t = i # js \<Longrightarrow> tasks_ok q (h(t := js)) m"
proof -
  assume a: "tasks_ok q h m" "h t = i # js"
  have "set ((h(t := js)) u) \<subseteq> set (h u)" "distinct ((h(t := js)) u)" for u using a by (auto simp: tasks_ok_def) (metis distinct.simps(2))
  with a(1) show ?thesis unfolding tasks_ok_def by (meson subsetD)
qed

lemma waiting_ask: "waiting (q @ [m]) h (Suc m) = waiting q h m"
  by (rule ext) (auto simp: waiting_def)

lemma held_upd: "(\<exists>u. i \<in> set ((h(t := js)) u)) \<longleftrightarrow> i \<in> set js \<or> (\<exists>u. u \<noteq> t \<and> i \<in> set (h u))"
  by auto

lemma waiting_take:
  assumes "h t = []"
  shows "waiting (drop n q) (h(t := take n q)) m i \<longleftrightarrow> waiting q h m i"
proof -
  have "i \<in> set q \<longleftrightarrow> i \<in> set (take n q) \<or> i \<in> set (drop n q)" by (metis Un_iff append_take_drop_id set_append)
  moreover have "(\<exists>u. u \<noteq> t \<and> i \<in> set (h u)) \<longleftrightarrow> (\<exists>u. i \<in> set (h u))" using assms by (metis empty_iff empty_set)
  ultimately show ?thesis unfolding waiting_def held_upd by blast
qed

lemma waiting_tail:
  assumes "tasks_ok q h m" "h t = j # js"
  shows "waiting q (h(t := js)) m i \<longleftrightarrow> waiting q h m i \<and> i \<noteq> j"
proof -
  have j: "j \<in> set (h t)" using assms(2) by simp
  have "distinct (h t)" using assms(1) by (simp add: tasks_ok_def)
  then have js: "j \<notin> set js" using assms(2) by simp
  have "j < m" "j \<notin> set q" "\<And>u. j \<in> set (h u) \<Longrightarrow> u = t" using assms(1) j unfolding tasks_ok_def by blast+
  moreover have "(\<exists>u. i \<in> set (h u)) \<longleftrightarrow> i = j \<or> i \<in> set js \<or> (\<exists>u. u \<noteq> t \<and> i \<in> set (h u))" using assms(2) by (metis set_ConsD list.set_intros)
  ultimately show ?thesis unfolding waiting_def held_upd using js by (auto dest: leD)
qed

lemma waiting_clear: "tasks_ok q h m \<Longrightarrow> waiting [] h m i \<longleftrightarrow> waiting q h m i \<and> i \<notin> set q"
  by (force simp: waiting_def tasks_ok_def)

lemma held_simps [simp]:
  "rs_held (rs_clear s) = rs_held s" "rs_held (rs_stop s) = rs_held s" "rs_held (rs_return t r s) = (rs_held s)(t := [])"
  "rs_held (s\<lparr>rs_asked := a\<rparr>) = rs_held s" "rs_held (s\<lparr>rs_queue := q\<rparr>) = rs_held s" "rs_held (s\<lparr>rs_future := f\<rparr>) = rs_held s"
  "rs_held (s\<lparr>rs_done := d\<rparr>) = rs_held s" "rs_held (s\<lparr>rs_batch := (rs_batch u)(t := Some (js, n))\<rparr>) = (rs_held u)(t := js)"
  by (auto simp: rs_held_def rs_clear_def rs_stop_def rs_return_def fun_eq_iff)


lemma futures_run: "futures_ok w run f d c \<Longrightarrow> (\<And>i. \<not> w i \<Longrightarrow> run' i = run i) \<Longrightarrow> futures_ok w run' f d c"
  unfolding futures_ok_def by (metis future.distinct(1))

lemma futures_clear:
  assumes "futures_ok w run f d c" "\<And>i. i \<in> set q \<Longrightarrow> w i" "\<And>i. w' i \<longleftrightarrow> w i \<and> i \<notin> set q"
  shows "futures_ok w' run (\<lambda>i. if i \<in> set q then FutureBroken else f i) d True"
proof -
  have "i \<in> set q \<Longrightarrow> f i = FuturePending" for i using assms(1,2) by (simp add: futures_ok_def)
  with assms show ?thesis unfolding futures_ok_def by simp (metis future.distinct(1))
qed

lemma futures_execute:
  assumes "futures_ok w run f d c" "w i" "run i = Some r" "\<And>j. w' j \<longleftrightarrow> w j \<and> j \<noteq> i"
  shows "futures_ok w' run (f(i := FutureReady r)) (d @ [i]) c"
proof -
  have "f i = FuturePending" using assms(1,2) by (simp add: futures_ok_def)
  then have "i \<notin> set d" using assms(1) unfolding futures_ok_def by (metis future.distinct(1))
  with assms show ?thesis unfolding futures_ok_def by auto
qed

subsection \<open>Every step keeps the invariant\<close>

lemma rs_new_inv [inv_intros]: "rs_inv gai rs_new"
  by (simp add: rs_inv_def rs_new_def rs_held_def tasks_ok_def futures_ok_def runs_ok_def waiting_def)

lemma rs_resolve_inv [inv_intros]:
  assumes "rs_inv gai s" "rs_resolve uri type s = Some (i, s')"
  shows "rs_inv gai s'"
proof -
  have s': "\<not> rs_stopped s" "s' = s\<lparr>rs_asked := rs_asked s @ [(uri, type)], rs_queue := rs_queue s @ [length (rs_asked s)]\<rparr>"
    using assms(2) by (auto simp: rs_resolve_def split: if_splits)
  have "futures_ok (rs_waiting s) (\<lambda>i. resolve_task gai (rs_asked s' ! i)) (rs_future s) (rs_done s) (rs_cleared s)"
    by (rule futures_run [of _ "\<lambda>i. resolve_task gai (rs_asked s ! i)"]) (use assms(1) in \<open>auto simp: rs_inv_def s'(2) nth_append waiting_def\<close>)
  then show ?thesis using assms(1) s' by (auto simp: rs_inv_def tasks_ask runs_ok_def waiting_ask)
qed

lemma rs_clear_inv [inv_intros]:
  assumes "rs_inv gai s"
  shows "rs_inv gai (rs_clear s)"
proof -
  let ?w = "waiting [] (rs_held s) (length (rs_asked s))"
  have t: "tasks_ok (rs_queue s) (rs_held s) (length (rs_asked s))" using assms by (simp add: rs_inv_def)
  have "futures_ok ?w (\<lambda>i. resolve_task gai (rs_asked s ! i)) (\<lambda>i. if i \<in> set (rs_queue s) then FutureBroken else rs_future s i) (rs_done s) True"
    by (rule futures_clear [of "rs_waiting s" _ _ _ "rs_cleared s"]) (use assms waiting_clear [OF t] in \<open>auto simp: rs_inv_def waiting_def\<close>)
  then show ?thesis using assms tasks_clear [OF t] by (auto simp: rs_inv_def runs_ok_def) (auto simp: rs_clear_def)
qed

lemma rs_stop_inv [inv_intros]: "rs_inv gai s \<Longrightarrow> rs_inv gai (rs_stop s)"
  by (auto simp: rs_inv_def runs_ok_def) (auto simp: rs_stop_def)

lemma rs_return_inv:
  assumes "rs_inv gai s" "rs_held s t = []" "- 1 \<le> r" "r \<le> int batch_size" "r < 0 \<Longrightarrow> rs_stopped s \<and> rs_queue s = []"
  shows "rs_inv gai (rs_return t r s)"
proof -
  have h: "(rs_held s)(t := []) = rs_held s" using assms(2) by auto
  show ?thesis using assms unfolding rs_inv_def held_simps h by (auto simp: rs_return_def runs_ok_def)
qed

lemma runner_step_inv:
  assumes "rs_inv gai s" "runner_step gai t s = Some s'"
  shows "rs_inv gai s'"
  using assms(2)
proof (cases rule: runner_cases)
  case wait
  then show ?thesis using assms(1) by (auto intro: rs_return_inv simp: rs_held_def)
next
  case ends
  then show ?thesis using rs_clear_inv [OF assms(1)] by (auto intro!: rs_return_inv simp: rs_held_def rs_clear_def)
next
  case (takes n)
  have h: "rs_held s t = []" using takes by (simp add: rs_held_def)
  have e: "\<not> rs_ended s t" using assms(2) by (auto simp: runner_step_def)
  have w: "waiting (drop k (rs_queue s)) ((rs_held s)(t := take k (rs_queue s))) (length (rs_asked s)) = rs_waiting s" for k using waiting_take [of "rs_held s" t] h by blast
  show ?thesis using assms(1) takes e tasks_take [of _ "rs_held s" _ t, OF _ h] by (auto simp: rs_inv_def runs_ok_def w)
next
  case (returns n)
  then have "n \<le> batch_size" using assms(1) by (auto simp: rs_inv_def runs_ok_def)
  with returns assms(1) show ?thesis by (auto intro!: rs_return_inv simp: rs_held_def)
next
  case (executes i js n r)
  have h: "rs_held s t = i # js" using executes by (simp add: rs_held_def)
  have t: "tasks_ok (rs_queue s) (rs_held s) (length (rs_asked s))" using assms(1) by (simp add: rs_inv_def)
  have e: "\<not> rs_ended s t" using assms(2) by (auto simp: runner_step_def)
  have i: "rs_waiting s i" using h by (auto simp: waiting_def intro!: exI [of _ t])
  have "futures_ok (waiting (rs_queue s) ((rs_held s)(t := js)) (length (rs_asked s))) (\<lambda>i. resolve_task gai (rs_asked s ! i))
    ((rs_future s)(i := FutureReady r)) (rs_done s @ [i]) (rs_cleared s)"
    by (rule futures_execute [of "rs_waiting s", OF _ i]) (use assms(1) executes waiting_tail [OF t h] in \<open>auto simp: rs_inv_def\<close>)
  then show ?thesis using assms(1) executes e tasks_tail [OF t h] by (auto simp: rs_inv_def runs_ok_def)
qed

lemma rs_step_inv: "rs_step gai T s s' \<Longrightarrow> rs_inv gai s \<Longrightarrow> rs_inv gai s'"
  by (induction rule: rs_step.induct) (auto intro: inv_intros runner_step_inv)

lemma rs_reach_inv: "(rs_step gai T)\<^sup>*\<^sup>* rs_new s \<Longrightarrow> rs_inv gai s"
  by (induction rule: rtranclp_induct) (auto intro: rs_new_inv rs_step_inv)


subsection \<open>What the resolver promises\<close>


text \<open>C20: Under any interleaving of requests, stops and clears with any number of running threads, a future is pending exactly while its task is queued or
  held by one thread; it becomes ready with the outcome of its own request, for which the task is executed once; and a promise is broken only after a clear,
  or after a stop.\<close>

theorem resolver_promises:
  assumes "(rs_step gai T)\<^sup>*\<^sup>* rs_new s" "i < length (rs_asked s)"
  shows "(rs_future s i = FuturePending \<longleftrightarrow> ((i \<in> set (rs_queue s)) \<noteq> (\<exists>!t. i \<in> set (rs_held s t)))) \<and>
    (\<forall>r. rs_future s i = FutureReady r \<longrightarrow> resolve_task gai (rs_asked s ! i) = Some r) \<and>
    count_list (rs_done s) i = (case rs_future s i of FutureReady r \<Rightarrow> 1 | _ \<Rightarrow> 0) \<and> (rs_future s i = FutureBroken \<longrightarrow> rs_cleared s)"
proof -
  have inv: "rs_inv gai s" by (rule rs_reach_inv [OF assms(1)])
  then have f: "futures_ok (rs_waiting s) (\<lambda>i. resolve_task gai (rs_asked s ! i)) (rs_future s) (rs_done s) (rs_cleared s)"
    and t: "tasks_ok (rs_queue s) (rs_held s) (length (rs_asked s))" by (auto simp: rs_inv_def)
  have u: "(\<exists>t. i \<in> set (rs_held s t)) \<longleftrightarrow> (\<exists>!t. i \<in> set (rs_held s t))" "(\<exists>t. i \<in> set (rs_held s t)) \<Longrightarrow> i \<notin> set (rs_queue s)"
    using t unfolding tasks_ok_def by blast+
  have "rs_future s i = FuturePending \<longleftrightarrow> i \<in> set (rs_queue s) \<or> (\<exists>t. i \<in> set (rs_held s t))"
    using f assms(2) by (auto simp: futures_ok_def waiting_def)
  then have "rs_future s i = FuturePending \<longleftrightarrow> ((i \<in> set (rs_queue s)) \<noteq> (\<exists>!t. i \<in> set (rs_held s t)))" using u by blast
  moreover have "count_list (rs_done s) i = (case rs_future s i of FutureReady r \<Rightarrow> 1 | _ \<Rightarrow> 0)"
    proof -
    have "distinct (rs_done s)" "i \<in> set (rs_done s) \<longleftrightarrow> (\<exists>r. rs_future s i = FutureReady r)" using f unfolding futures_ok_def by blast+
    then show ?thesis by (auto simp: count_distinct split: future.split)
  qed
  ultimately show ?thesis using f by (auto simp: futures_ok_def)
qed

text \<open>Tasks are executed in the order of the requests if one thread runs the resolver.\<close>

lemma fifo_step:
  assumes "rs_step gai {t} s s'" "rs_inv gai s" "sorted_wrt (<) (rs_done s @ rs_held s t @ rs_queue s)"
  shows "sorted_wrt (<) (rs_done s' @ rs_held s' t @ rs_queue s')"
  using assms(1)
proof cases
  case (rs_asks uri type i)
  have "\<forall>i \<in> set (rs_done s @ rs_held s t @ rs_queue s). i < length (rs_asked s)"
  proof -
    have "i < length (rs_asked s)" if "i \<in> set (rs_done s)" for i
    proof (rule ccontr)
      assume "\<not> ?thesis"
      then have "rs_future s i = FuturePending" using assms(2) by (simp add: rs_inv_def futures_ok_def waiting_def)
      with that assms(2) show False unfolding rs_inv_def futures_ok_def by (metis future.distinct(1))
    qed
    then show ?thesis using assms(2) by (auto simp: rs_inv_def tasks_ok_def)
  qed
  with rs_asks assms(3) show ?thesis by (auto simp: rs_resolve_def sorted_wrt_append split: if_splits)
next
  case rs_clears
  with assms(3) show ?thesis unfolding rs_clears held_simps by (simp add: rs_clear_def sorted_wrt_append)
next
  case rs_stops
  with assms(3) show ?thesis unfolding rs_stops held_simps by (simp add: rs_stop_def)
next
  case (rs_runs u)
  then have "runner_step gai t s = Some s'" by simp
  then show ?thesis
  proof (cases rule: runner_cases)
    case wait
    then have "rs_held s t = []" by (simp add: rs_held_def)
    with assms(3) wait(1,2) show ?thesis unfolding wait(4) held_simps by (simp add: rs_return_def)
  next
    case ends
    with assms(3) show ?thesis unfolding ends held_simps by (simp add: rs_return_def rs_clear_def sorted_wrt_append)
  next
    case (takes n)
    then have "rs_held s t = []" by (simp add: rs_held_def)
    with takes assms(3) show ?thesis by (simp del: append_assoc)
  next
    case (returns n)
    then have "rs_held s t = []" by (simp add: rs_held_def)
    with assms(3) show ?thesis unfolding returns(2) held_simps by (simp add: rs_return_def)
  next
    case (executes i js n r)
    then have "rs_held s t = i # js" by (simp add: rs_held_def)
    with executes assms(3) show ?thesis by simp
  qed
qed

text \<open>When one thread runs the resolver, tasks are executed in the order in which they were submitted.\<close>

theorem resolver_fifo:
  assumes "(rs_step gai {t})\<^sup>*\<^sup>* rs_new s"
  shows "sorted_wrt (<) (rs_done s @ rs_held s t @ rs_queue s)"
  using assms
proof (induction rule: rtranclp_induct)
  case (step s s')
  then show ?case by (intro fifo_step [OF step.hyps(2)]) (auto intro: rs_reach_inv)
qed (simp add: rs_new_def rs_held_def)

text \<open>The steps that a thread has still to do after a stop.\<close>

definition rs_togo :: "'a resolver \<Rightarrow> nat \<Rightarrow> nat" where
  "rs_togo s t = (if rs_ended s t then 0 else case rs_batch s t of None \<Rightarrow> 1 | Some (js, n) \<Rightarrow> length js + 2)"

lemma resolve_task_returns: "resolve_task gai q \<noteq> None"
  using parse_endpoint_returns by (auto simp: resolve_task_def split: option.splits sum.splits)

lemma runner_other:
  assumes "runner_step gai u s = Some s'" "u \<noteq> t"
  shows "rs_batch s' t = rs_batch s t \<and> rs_ended s' t = rs_ended s t"
  using assms(1) by (cases rule: runner_cases) (use assms(2) in \<open>auto simp: rs_return_def rs_clear_def\<close>)

lemma runner_stopped:
  assumes "runner_step gai t s = Some s'" "rs_stopped s"
  shows "rs_stopped s' \<and> rs_togo s' t + 1 = rs_togo s t"
proof -
  have e: "\<not> rs_ended s t" using assms(1) by (auto simp: runner_step_def)
  show ?thesis using assms(1)
    by (cases rule: runner_cases) (use assms(2) e in \<open>auto simp: rs_togo_def rs_return_def rs_clear_def\<close>)
qed

lemma runner_enabled: "\<not> rs_ended s t \<Longrightarrow> \<exists>s'. runner_step gai t s = Some s'"
  by (auto simp: runner_step_def rs_execute_def resolve_task_returns split: option.splits list.splits prod.splits sum.splits)

text \<open>C11: After a stop every running thread leaves its loop after as many of its own steps as it has tasks left to execute, and two, whatever the others do
  meanwhile; then the queue is empty, and stays so, since requests are refused.\<close>

theorem resolver_stop_ends:
  assumes "(rs_step gai T)\<^sup>*\<^sup>* rs_new s" "rs_stopped s"
  shows "rs_togo s t \<le> length (rs_held s t) + 2 \<and> (rs_togo s t > 0 \<longrightarrow> (\<exists>s'. runner_step gai t s = Some s' \<and> rs_stopped s' \<and> rs_togo s' t = rs_togo s t - 1)) \<and>
    (\<forall>s'. rs_step gai T s s' \<longrightarrow> rs_stopped s' \<and> rs_togo s' t \<le> rs_togo s t) \<and>
    (rs_togo s t = 0 \<longrightarrow> rs_ended s t \<and> rs_queue s = [] \<and> rs_held s t = []) \<and> rs_resolve uri type s = None"
proof (intro conjI impI allI)
  show "rs_togo s t \<le> length (rs_held s t) + 2" by (auto simp: rs_togo_def rs_held_def split: option.splits)
  show "rs_resolve uri type s = None" using assms(2) by (simp add: rs_resolve_def)
next
  assume "rs_togo s t > 0"
  then have "\<not> rs_ended s t" by (auto simp: rs_togo_def)
  then obtain s' where "runner_step gai t s = Some s'" using runner_enabled by blast
  with runner_stopped [OF this assms(2)] show "\<exists>s'. runner_step gai t s = Some s' \<and> rs_stopped s' \<and> rs_togo s' t = rs_togo s t - 1" by auto
next
  fix s' assume st: "rs_step gai T s s'"
  then have "rs_stopped s' \<and> rs_togo s' t \<le> rs_togo s t"
  proof cases
    case (rs_runs u)
    with runner_stopped [OF rs_runs(2) assms(2)] runner_other [OF rs_runs(2), of t] show ?thesis
      by (cases "u = t") (auto simp: rs_togo_def)
  qed (use assms(2) in \<open>auto simp: rs_resolve_def rs_clear_def rs_stop_def rs_togo_def split: if_splits\<close>)
  then show "rs_stopped s'" "rs_togo s' t \<le> rs_togo s t" by auto
next
  assume "rs_togo s t = 0"
  then have e: "rs_ended s t" by (auto simp: rs_togo_def split: if_splits option.splits)
  with rs_reach_inv [OF assms(1)] show "rs_ended s t" "rs_queue s = []" "rs_held s t = []" by (auto simp: rs_inv_def runs_ok_def rs_held_def)
qed

subsection \<open>Instances\<close>

definition ask_demo :: "'a resolver" where
  "ask_demo = snd (the (rs_resolve ''localhost:80'' SOCK_STREAM rs_new))"

lemma ask_demo_reached: "rs_step gai T rs_new ask_demo"
  by (rule rs_asks [of "''localhost:80''" SOCK_STREAM _ 0]) (simp add: ask_demo_def rs_resolve_def rs_new_def)

theorem resolver_promises_witness: "rs_future (ask_demo :: unit resolver) 0 = FuturePending \<and> rs_queue (ask_demo :: unit resolver) = [0]"
proof -
  have r: "(rs_step (\<lambda>_. Inr ()) {0})\<^sup>*\<^sup>* rs_new ask_demo" using ask_demo_reached by blast
  from resolver_promises [OF r, of 0] show ?thesis by (simp add: ask_demo_def rs_resolve_def rs_new_def rs_held_def)
qed

theorem resolver_fifo_witness: "sorted_wrt (<) (rs_queue (ask_demo :: unit resolver))"
proof -
  have r: "(rs_step (\<lambda>_. Inr ()) {0})\<^sup>*\<^sup>* rs_new ask_demo" using ask_demo_reached by blast
  from resolver_fifo [OF r] show ?thesis by (simp add: sorted_wrt_append)
qed

theorem resolver_stop_ends_witness: "\<exists>s'. runner_step (\<lambda>_. Inr ()) 0 (rs_stop (ask_demo :: unit resolver)) = Some s' \<and> rs_togo s' 0 = 0"
proof -
  have "rs_step (\<lambda>_. Inr ()) {0} ask_demo (rs_stop (ask_demo :: unit resolver))" by (rule rs_stops)
  with ask_demo_reached have r: "(rs_step (\<lambda>_. Inr ()) {0})\<^sup>*\<^sup>* rs_new (rs_stop (ask_demo :: unit resolver))" by (meson converse_rtranclp_into_rtranclp r_into_rtranclp)
  have "rs_togo (rs_stop (ask_demo :: unit resolver)) 0 = 1" by (simp add: rs_togo_def rs_stop_def ask_demo_def rs_resolve_def rs_new_def)
  with resolver_stop_ends [OF r, of 0 "[]" 0] show ?thesis by (auto simp: rs_stop_def)
qed

end
