(* ===== verification/HttpClnts.thy ===== *)
theory HttpClnts
  imports Resolvers
begin

text \<open>
  The HTTP client of \<open>http/Clnt.hpp\<close> over the connector of \<open>net/StreamConnector.hpp\<close> and the resolver of \<open>Resolvers\<close>: how it connects, reconnects and
  looks its address up again. Of a connection only its life is modelled here.
\<close>

subsection \<open>State\<close>

text \<open>
  \<open>cl_sock\<close> says that a connection attempt is pending, \<open>sock_\<close> with its handle; \<open>cl_future\<close> is the task of \<open>aifuture_\<close> if it is valid. \<open>cl_tries\<close> are the
  endpoints to which a connection was tried.
\<close>

record ('a, 'e) http_clnt =
  cl_res :: "'a resolver"
  cl_uri :: string
  cl_future :: "nat option"
  cl_ep :: 'e
  cl_inprogress :: bool
  cl_sock :: bool
  cl_sock_ep :: 'e
  cl_conns :: "nat list"
  cl_next :: nat
  cl_tries :: "'e list"
  cl_open :: bool

definition cl_new :: "'a resolver \<Rightarrow> string \<Rightarrow> 'e \<Rightarrow> ('a, 'e) http_clnt" where
  "cl_new r uri ep = \<lparr>cl_res = r, cl_uri = uri, cl_future = None, cl_ep = ep, cl_inprogress = False, cl_sock = False, cl_sock_ep = ep, cl_conns = [],
     cl_next = 0, cl_tries = [], cl_open = True\<rparr>"

text \<open>The kernel's answer to \<open>connect\<close>, and exceptions.\<close>

datatype connect_answer = ConnectDone | ConnectPending | ConnectFailed

datatype clnt_error = ConnectError | ResolverStopped

subsection \<open>Connecting\<close>

definition on_sock_connect :: "'e \<Rightarrow> ('a, 'e) http_clnt \<Rightarrow> ('a, 'e) http_clnt" where
  "on_sock_connect ep c = c\<lparr>cl_inprogress := False, cl_conns := cl_conns c @ [cl_next c], cl_next := cl_next c + 1\<rparr>"

text \<open>The call of \<open>resolve\<close>, whose future is assigned to \<open>aifuture_\<close>.\<close>

definition cl_resolve :: "('a, 'e) http_clnt \<Rightarrow> (clnt_error + ('a, 'e) http_clnt)" where
  "cl_resolve c = (case rs_resolve (cl_uri c) SOCK_STREAM (cl_res c) of
     None \<Rightarrow> Inl ResolverStopped
   | Some (i, r) \<Rightarrow> Inr (c\<lparr>cl_res := r, cl_future := Some i\<rparr>))"

definition on_sock_connect_error :: "('a, 'e) http_clnt \<Rightarrow> clnt_error option \<times> ('a, 'e) http_clnt" where
  "on_sock_connect_error c = (case cl_resolve c of
     Inl err \<Rightarrow> (Some err, c)
   | Inr c1 \<Rightarrow> (None, c1\<lparr>cl_inprogress := False\<rparr>))"

definition sc_connect :: "connect_answer \<Rightarrow> 'e \<Rightarrow> ('a, 'e) http_clnt \<Rightarrow> (clnt_error + bool) \<times> ('a, 'e) http_clnt" where
  "sc_connect ans ep c =
     (let c1 = c\<lparr>cl_tries := cl_tries c @ [ep]\<rparr> in
      case ans of
        ConnectFailed \<Rightarrow> (Inl ConnectError, c1)
      | ConnectPending \<Rightarrow> (Inr False, c1\<lparr>cl_sock_ep := ep, cl_sock := True\<rparr>)
      | ConnectDone \<Rightarrow> (Inr True, on_sock_connect ep c1))"

text \<open>The event of a pending socket, with the error it reports.\<close>

definition sc_on_io_event :: "bool \<Rightarrow> ('a, 'e) http_clnt \<Rightarrow> clnt_error option \<times> ('a, 'e) http_clnt" where
  "sc_on_io_event err c =
     (let c1 = c\<lparr>cl_sock := False\<rparr> in
      if err then on_sock_connect_error c1 else (None, on_sock_connect (cl_sock_ep c1) c1))"

subsection \<open>The timer\<close>

definition cl_reconnect :: "connect_answer \<Rightarrow> ('a, 'e) http_clnt \<Rightarrow> clnt_error option \<times> ('a, 'e) http_clnt" where
  "cl_reconnect ans c = (case sc_connect ans (cl_ep c) c of
     (Inl err, c1) \<Rightarrow> (Some err, c1)
   | (Inr done, c1) \<Rightarrow> (None, if \<not> done then c1\<lparr>cl_inprogress := True\<rparr> else c1))"

text \<open>\<open>ip_endpoint\<close>: the exception of the future, or the endpoint of its addresses, if they have one.\<close>

definition ip_endpoint :: "('a \<Rightarrow> 'e option) \<Rightarrow> 'a future \<Rightarrow> 'e option" where
  "ip_endpoint ep f = (case f of FutureReady (Inr a) \<Rightarrow> ep a | _ \<Rightarrow> None)"

definition cl_on_timer :: "('a \<Rightarrow> 'e option) \<Rightarrow> connect_answer \<Rightarrow> ('a, 'e) http_clnt \<Rightarrow> clnt_error option \<times> ('a, 'e) http_clnt" where
  "cl_on_timer ep ans c =
     (if cl_conns c \<noteq> [] \<or> cl_inprogress c then (None, c)
      else (case cl_future c of
        None \<Rightarrow> cl_reconnect ans c
      | Some i \<Rightarrow>
          (let f = rs_future (cl_res c) i in
           if f = FuturePending then (None, c)
           else (let c1 = c\<lparr>cl_future := None\<rparr> in
             (case ip_endpoint ep f of
                Some e \<Rightarrow> cl_reconnect ans (c1\<lparr>cl_ep := e\<rparr>)
              | None \<Rightarrow> (case cl_resolve c1 of Inl err \<Rightarrow> (Some err, c1) | Inr c2 \<Rightarrow> (None, c2)))))))"

text \<open>A connection deletes itself, which unlinks it; the destructor disposes what is left.\<close>

definition cl_gone :: "nat \<Rightarrow> ('a, 'e) http_clnt \<Rightarrow> ('a, 'e) http_clnt" where
  "cl_gone i c = c\<lparr>cl_conns := filter (\<lambda>j. j \<noteq> i) (cl_conns c)\<rparr>"

definition cl_destroy :: "('a, 'e) http_clnt \<Rightarrow> ('a, 'e) http_clnt" where
  "cl_destroy c = c\<lparr>cl_conns := [], cl_future := None, cl_sock := False, cl_inprogress := False, cl_open := False\<rparr>"

inductive cl_step :: "(resolve \<Rightarrow> string + 'a) \<Rightarrow> nat set \<Rightarrow> ('a \<Rightarrow> 'e option) \<Rightarrow> ('a, 'e) http_clnt \<Rightarrow> ('a, 'e) http_clnt \<Rightarrow> bool" for gai T ep where
  cl_timer: "cl_open c \<Longrightarrow> cl_step gai T ep c (snd (cl_on_timer ep ans c))"
| cl_event: "cl_open c \<Longrightarrow> cl_sock c \<Longrightarrow> cl_step gai T ep c (snd (sc_on_io_event err c))"
| cl_ends: "cl_open c \<Longrightarrow> cl_step gai T ep c (cl_gone i c)"
| cl_closes: "cl_open c \<Longrightarrow> cl_step gai T ep c (cl_destroy c)"
| cl_others: "rs_step gai T (cl_res c) r \<Longrightarrow> cl_step gai T ep c (c\<lparr>cl_res := r\<rparr>)"

subsection \<open>One connection\<close>

definition cl_inv :: "(resolve \<Rightarrow> string + 'a) \<Rightarrow> ('a, 'e) http_clnt \<Rightarrow> bool" where
  "cl_inv gai c \<longleftrightarrow> rs_inv gai (cl_res c) \<and> length (cl_conns c) \<le> 1 \<and> (cl_inprogress c \<longrightarrow> cl_conns c = []) \<and> (cl_sock c \<longrightarrow> cl_inprogress c) \<and>
     (cl_inprogress c \<and> \<not> cl_sock c \<longrightarrow> rs_stopped (cl_res c)) \<and>
     (\<forall>i. cl_future c = Some i \<longrightarrow> i < length (rs_asked (cl_res c)) \<and> rs_asked (cl_res c) ! i = (cl_uri c, SOCK_STREAM))"

lemma cl_new_inv: "rs_inv gai r \<Longrightarrow> cl_inv gai (cl_new r uri ep)"
  by (simp add: cl_inv_def cl_new_def)

lemma cl_resolve_cases:
  obtains (stopped) "rs_stopped (cl_res c)" "cl_resolve c = Inl ResolverStopped"
    | (asked) r where "\<not> rs_stopped (cl_res c)" "cl_resolve c = Inr (c\<lparr>cl_res := r, cl_future := Some (length (rs_asked (cl_res c)))\<rparr>)"
        "rs_resolve (cl_uri c) SOCK_STREAM (cl_res c) = Some (length (rs_asked (cl_res c)), r)" "rs_asked r = rs_asked (cl_res c) @ [(cl_uri c, SOCK_STREAM)]"
        "\<not> rs_stopped r"
  by (cases "rs_stopped (cl_res c)") (auto simp: cl_resolve_def rs_resolve_def)

lemma cl_resolve_inv: "cl_inv gai c \<Longrightarrow> cl_resolve c = Inr c1 \<Longrightarrow> cl_inv gai c1"
  by (cases rule: cl_resolve_cases [of c]) (auto simp: cl_inv_def intro: rs_resolve_inv)

lemma cl_reconnect_inv: "cl_inv gai c \<Longrightarrow> cl_conns c = [] \<Longrightarrow> \<not> cl_inprogress c \<Longrightarrow> cl_inv gai (snd (cl_reconnect ans c))"
  by (cases ans) (auto simp: cl_inv_def cl_reconnect_def sc_connect_def on_sock_connect_def Let_def)

lemma cl_on_timer_inv: "cl_inv gai c \<Longrightarrow> cl_inv gai (snd (cl_on_timer ep ans c))"
proof -
  assume a: "cl_inv gai c"
  then have n: "cl_inv gai (c\<lparr>cl_future := None\<rparr>)" "cl_inv gai (c\<lparr>cl_future := None, cl_ep := e\<rparr>)" for e by (auto simp: cl_inv_def)
  show ?thesis using a n cl_resolve_inv [OF n(1)]
    by (auto simp: cl_on_timer_def Let_def split: option.splits sum.splits intro: cl_reconnect_inv)
qed

lemma sc_on_io_event_inv:
  assumes "cl_inv gai c" "cl_sock c"
  shows "cl_inv gai (snd (sc_on_io_event err c))"
proof (cases err)
  case True
  show ?thesis
  proof (cases rule: cl_resolve_cases [of "c\<lparr>cl_sock := False\<rparr>"])
    case stopped
    with assms True show ?thesis by (auto simp: sc_on_io_event_def on_sock_connect_error_def cl_inv_def)
  next
    case (asked r)
    with assms True show ?thesis by (auto simp: sc_on_io_event_def on_sock_connect_error_def cl_inv_def intro: rs_resolve_inv)
  qed
next
  case False
  with assms show ?thesis by (auto simp: sc_on_io_event_def on_sock_connect_def cl_inv_def Let_def)
qed

lemma rs_step_asked: "rs_step gai T r r' \<Longrightarrow> (\<exists>xs. rs_asked r' = rs_asked r @ xs) \<and> (rs_stopped r \<longrightarrow> rs_stopped r')"
proof (induction rule: rs_step.induct)
  case (rs_runs t s s')
  from rs_runs(2) show ?case by (cases rule: runner_cases) (auto simp: rs_return_def rs_clear_def)
qed (auto simp: rs_resolve_def rs_clear_def rs_stop_def split: if_splits)

lemma cl_step_inv: "cl_step gai T ep c c' \<Longrightarrow> cl_inv gai c \<Longrightarrow> cl_inv gai c'"
proof (induction rule: cl_step.induct)
  case (cl_others c r)
  then obtain xs where "rs_asked r = rs_asked (cl_res c) @ xs" "rs_stopped (cl_res c) \<longrightarrow> rs_stopped r" using rs_step_asked by blast
  with cl_others rs_step_inv show ?case by (fastforce simp: cl_inv_def nth_append)
next
  case (cl_ends c i)
  have "length (filter (\<lambda>j. j \<noteq> i) (cl_conns c)) \<le> length (cl_conns c)" by simp
  with cl_ends show ?case by (auto simp: cl_inv_def cl_gone_def simp del: length_filter_le)
next
  case (cl_closes c)
  then show ?case by (simp add: cl_inv_def cl_destroy_def)
qed (auto intro: cl_on_timer_inv sc_on_io_event_inv)

lemma cl_reach_inv: "(cl_step gai T ep)\<^sup>*\<^sup>* (cl_new r uri e) c \<Longrightarrow> rs_inv gai r \<Longrightarrow> cl_inv gai c"
  by (induction rule: rtranclp_induct) (auto intro: cl_new_inv cl_step_inv)

text \<open>C22: The client has at most one connection or pending attempt; it tries to connect only if it has neither, to the endpoint it keeps, and in no other
  step; a future that it waits for belongs to a request for its own URI.\<close>

theorem http_client_one_connection:
  assumes "(cl_step gai T ep)\<^sup>*\<^sup>* (cl_new rs_new uri e) c" "cl_step gai T ep c c'"
  shows "length (cl_conns c) + (if cl_sock c then 1 else 0) \<le> 1 \<and>
    (cl_tries c' = cl_tries c \<or> cl_tries c' = cl_tries c @ [cl_ep c'] \<and> cl_conns c = [] \<and> \<not> cl_sock c \<and> length (cl_conns c') + (if cl_sock c' then 1 else 0) \<le> 1) \<and>
    (\<forall>i. cl_future c = Some i \<longrightarrow> rs_asked (cl_res c) ! i = (cl_uri c, SOCK_STREAM))"
proof -
  have inv: "cl_inv gai c" using cl_reach_inv [OF assms(1)] rs_new_inv by blast
  have one: "length (cl_conns c) + (if cl_sock c then 1 else 0) \<le> 1" using inv by (auto simp: cl_inv_def)
  have one': "length (cl_conns c') + (if cl_sock c' then 1 else 0) \<le> 1" using cl_step_inv [OF assms(2) inv] by (auto simp: cl_inv_def)
  have "cl_tries c' = cl_tries c \<or> cl_tries c' = cl_tries c @ [cl_ep c'] \<and> cl_conns c = [] \<and> \<not> cl_sock c" using assms(2)
  proof cases
    case (cl_timer ans)
    have "\<not> cl_inprogress c \<Longrightarrow> \<not> cl_sock c" using inv by (auto simp: cl_inv_def)
    with cl_timer show ?thesis
      by (auto simp: cl_on_timer_def cl_reconnect_def sc_connect_def on_sock_connect_def cl_resolve_def Let_def
          split: option.splits sum.splits connect_answer.splits if_splits)
  next
    case (cl_event err)
    then show ?thesis
      by (auto simp: sc_on_io_event_def on_sock_connect_error_def on_sock_connect_def cl_resolve_def Let_def split: option.splits sum.splits)
  qed (simp_all add: cl_gone_def cl_destroy_def)
  with one one' inv show ?thesis by (auto simp: cl_inv_def)
qed

text \<open>C23: A client without a connection is never stuck while the resolver runs: an attempt in progress has a socket, whose event ends it; otherwise the next
  timer tries to connect to the endpoint that was resolved last, asks the resolver again if the resolution failed, or waits for a task that is queued or
  held by a thread.\<close>

theorem http_client_recovers:
  assumes "(cl_step gai T ep)\<^sup>*\<^sup>* (cl_new rs_new uri e) c" "cl_conns c = []" "\<not> rs_stopped (cl_res c)"
  shows "(cl_inprogress c \<longrightarrow> cl_sock c \<and> \<not> cl_inprogress (snd (sc_on_io_event err c))) \<and>
    (\<not> cl_inprogress c \<longrightarrow>
      (case cl_future c of
         None \<Rightarrow> cl_tries (snd (cl_on_timer ep ans c)) = cl_tries c @ [cl_ep c]
       | Some i \<Rightarrow>
           if rs_future (cl_res c) i = FuturePending then i \<in> set (rs_queue (cl_res c)) \<or> (\<exists>t. i \<in> set (rs_held (cl_res c) t))
           else (case ip_endpoint ep (rs_future (cl_res c) i) of
               Some e' \<Rightarrow> cl_tries (snd (cl_on_timer ep ans c)) = cl_tries c @ [e'] \<and> (\<exists>a. resolve_task gai (cl_uri c, SOCK_STREAM) = Some (Inr a) \<and> ep a = Some e')
             | None \<Rightarrow> cl_future (snd (cl_on_timer ep ans c)) = Some (length (rs_asked (cl_res c))))))"
proof -
  have inv: "cl_inv gai c" using cl_reach_inv [OF assms(1)] rs_new_inv by blast
  have tries: "cl_tries (snd (cl_reconnect ans d)) = cl_tries d @ [cl_ep d]" for d :: "('a, 'b) http_clnt"
    by (cases ans) (simp_all add: cl_reconnect_def sc_connect_def on_sock_connect_def Let_def)
  have ev: "cl_inprogress c \<longrightarrow> cl_sock c \<and> \<not> cl_inprogress (snd (sc_on_io_event err c))"
    using inv assms(3) by (auto simp: cl_inv_def sc_on_io_event_def on_sock_connect_error_def on_sock_connect_def cl_resolve_def rs_resolve_def Let_def)
  have "case cl_future c of
         None \<Rightarrow> cl_tries (snd (cl_on_timer ep ans c)) = cl_tries c @ [cl_ep c]
       | Some i \<Rightarrow>
           if rs_future (cl_res c) i = FuturePending then i \<in> set (rs_queue (cl_res c)) \<or> (\<exists>t. i \<in> set (rs_held (cl_res c) t))
           else (case ip_endpoint ep (rs_future (cl_res c) i) of
               Some e' \<Rightarrow> cl_tries (snd (cl_on_timer ep ans c)) = cl_tries c @ [e'] \<and> (\<exists>a. resolve_task gai (cl_uri c, SOCK_STREAM) = Some (Inr a) \<and> ep a = Some e')
             | None \<Rightarrow> cl_future (snd (cl_on_timer ep ans c)) = Some (length (rs_asked (cl_res c))))"
    if idle: "\<not> cl_inprogress c"
  proof (cases "cl_future c")
    case None
    with assms(2) idle show ?thesis by (simp add: cl_on_timer_def tries)
  next
    case (Some i)
    have i: "i < length (rs_asked (cl_res c))" "rs_asked (cl_res c) ! i = (cl_uri c, SOCK_STREAM)" using inv Some by (auto simp: cl_inv_def)
    have f: "futures_ok (rs_waiting (cl_res c)) (\<lambda>i. resolve_task gai (rs_asked (cl_res c) ! i)) (rs_future (cl_res c)) (rs_done (cl_res c)) (rs_cleared (cl_res c))"
      using inv by (simp add: cl_inv_def rs_inv_def)
    show ?thesis
    proof (cases "rs_future (cl_res c) i = FuturePending")
      case True
      then have "rs_waiting (cl_res c) i" using f by (simp add: futures_ok_def)
      with True i(1) Some show ?thesis by (auto simp: waiting_def)
    next
      case False
      show ?thesis
      proof (cases "ip_endpoint ep (rs_future (cl_res c) i)")
        case None
        with Some False assms(2,3) idle show ?thesis by (simp add: cl_on_timer_def cl_resolve_def rs_resolve_def)
      next
        case (Some e')
        then obtain a where a: "rs_future (cl_res c) i = FutureReady (Inr a)" "ep a = Some e'" by (auto simp: ip_endpoint_def split: future.splits sum.splits)
        have "resolve_task gai (rs_asked (cl_res c) ! i) = Some (Inr a)" using f a(1) unfolding futures_ok_def by blast
        then have "resolve_task gai (cl_uri c, SOCK_STREAM) = Some (Inr a)" using i(2) by simp
        with Some a \<open>cl_future c = Some i\<close> False assms(2) idle show ?thesis by (simp add: cl_on_timer_def tries)
      qed
    qed
  qed
  with ev show ?thesis by blast
qed

text \<open>If the resolver is stopped when an attempt fails, the exception leaves \<open>inprogress_\<close> set, and the client does nothing more.\<close>

lemma http_client_stuck:
  assumes "cl_step gai T ep c c'" "cl_inprogress c" "\<not> cl_sock c" "cl_conns c = []"
  shows "cl_tries c' = cl_tries c \<and> cl_conns c' = [] \<and> (cl_open c' \<longrightarrow> cl_inprogress c' \<and> \<not> cl_sock c')"
  using assms by (cases rule: cl_step.cases) (auto simp: cl_on_timer_def cl_gone_def cl_destroy_def)

lemma http_client_gets_stuck:
  "cl_inprogress c \<Longrightarrow> rs_stopped (cl_res c) \<Longrightarrow> fst (sc_on_io_event True c) = Some ResolverStopped \<and> cl_inprogress (snd (sc_on_io_event True c)) \<and> \<not> cl_sock (snd (sc_on_io_event True c))"
  by (simp add: sc_on_io_event_def on_sock_connect_error_def cl_resolve_def rs_resolve_def Let_def)

text \<open>An attempt that fails at once is repeated with the same endpoint, without asking the resolver.\<close>

lemma http_client_stale_address:
  "cl_conns c = [] \<Longrightarrow> \<not> cl_inprogress c \<Longrightarrow> cl_future c = None \<Longrightarrow>
     cl_future (snd (cl_on_timer ep ConnectFailed c)) = None \<and> cl_ep (snd (cl_on_timer ep ConnectFailed c)) = cl_ep c"
  by (simp add: cl_on_timer_def cl_reconnect_def sc_connect_def Let_def)

theorem http_client_one_connection_witness:
  "cl_tries (snd (cl_on_timer Some ConnectDone (cl_new (rs_new :: nat resolver) ''a:1'' 5))) = [5] \<and>
     length (cl_conns (cl_new (rs_new :: nat resolver) ''a:1'' (5 :: nat))) \<le> 1"
proof -
  let ?c = "cl_new (rs_new :: nat resolver) ''a:1'' (5 :: nat)"
  have s: "cl_step (\<lambda>_. Inr 5) {0} Some ?c (snd (cl_on_timer Some ConnectDone ?c))" by (rule cl_timer) (simp add: cl_new_def)
  from http_client_one_connection [OF rtranclp.rtrancl_refl s] show ?thesis
    by (simp add: cl_on_timer_def cl_reconnect_def sc_connect_def on_sock_connect_def cl_new_def Let_def)
qed

theorem http_client_recovers_witness:
  "cl_tries (snd (cl_on_timer Some ConnectPending (cl_new (rs_new :: nat resolver) ''a:1'' 5))) = [5]"
proof -
  let ?c = "cl_new (rs_new :: nat resolver) ''a:1'' (5 :: nat)"
  have r: "(cl_step (\<lambda>_. Inr 5) {0} Some)\<^sup>*\<^sup>* ?c ?c" by simp
  from http_client_recovers [OF r] show ?thesis
    by (simp add: cl_new_def rs_new_def)
qed

end
