(* ===== verification/Sockets.thy ===== *)
theory Sockets
  imports Polling Buffers
begin

text \<open>
  Sockets with asynchronous operations: \<open>io/Socket.hpp\<close> with the operations of \<open>io/DgramSocket.hpp\<close>. \<open>Plain\<close> is a socket with the
  \<open>SocketRead\<close> and \<open>SocketWrite\<close> of \<open>BasicSocket\<close>, \<open>Mcast\<close> one with those of \<open>BasicDgramSocket\<close> (\<open>McastSocket\<close>), \<open>Dgram\<close> has a
  \<open>SocketWriteQueue\<close> of them (\<open>DgramSocket\<close>). The poller is that of \<open>Polling\<close>, the write buffers are those of \<open>Buffers\<close>.

  The kernel's answers to receive and send calls are two lists of results; when a list is used up, calls would block. What a completion
  slot does is a list of operations on the socket, which may depend on its state; it catches the exceptions of those operations.
  Addresses of the caller's buffers and endpoints are numbers.
\<close>

subsection \<open>Operations\<close>

datatype sock_kind = Plain | Mcast | Dgram
datatype sock_halt = Assertion | Undefined | Terminate

datatype const_buffer = CNull nat | CMem "u8 list"

fun cb_size :: "const_buffer \<Rightarrow> nat" where
  "cb_size (CNull n) = n"
| "cb_size (CMem bs) = length bs"

type_synonym mutable_buffer = "nat \<times> nat"

record read_op =
  ro_slot :: "nat option"
  ro_buf :: mutable_buffer
  ro_flags :: int
  ro_endpoint :: "nat option"

text \<open>\<open>wo_mut\<close> fills a prepared region of a given size: it returns the bytes it stores at its start.\<close>

record write_op =
  wo_slot :: "nat option"
  wo_data :: const_buffer
  wo_flags :: int
  wo_endpoint :: "nat option"
  wo_buf :: buffer
  wo_mut :: "(nat \<Rightarrow> u8 list) option"

definition ro_new :: read_op where
  "ro_new = \<lparr>ro_slot = None, ro_buf = (0, 0), ro_flags = 0, ro_endpoint = None\<rparr>"

definition wo_new :: write_op where
  "wo_new = \<lparr>wo_slot = None, wo_data = CNull 0, wo_flags = 0, wo_endpoint = None, wo_buf = bf_new, wo_mut = None\<rparr>"

definition ro_reset :: "read_op \<Rightarrow> read_op" where
  "ro_reset op = op\<lparr>ro_slot := None, ro_flags := 0\<rparr>"

definition wo_reset :: "write_op \<Rightarrow> write_op" where
  "wo_reset op = op\<lparr>wo_slot := None, wo_data := CNull 0, wo_endpoint := None, wo_flags := 0\<rparr>"

subsection \<open>The socket\<close>

text \<open>A result of a system call: the size, or \<open>- 1\<close>, and the error number.\<close>

type_synonym sys_result = "int \<times> int"

definition EWOULDBLOCK :: int where "EWOULDBLOCK = 11"

definition would_block :: "sys_result \<Rightarrow> bool" where
  "would_block r \<longleftrightarrow> fst r < 0 \<and> snd r = EWOULDBLOCK"

datatype io_log =
    RStart nat mutable_buffer | RThrow nat | RDone nat sys_result
  | WStart nat const_buffer "nat option" | WThrow nat | WDone nat sys_result
  | SysRecv mutable_buffer int "nat option" sys_result
  | SysSend "u8 list" int "nat option" sys_result

record sock =
  sk_kind :: sock_kind
  sk_fd :: int
  sk_poll :: poll_handle
  sk_ep :: epoll
  sk_io_slot :: "nat option"
  sk_read :: read_op
  sk_write :: write_op
  sk_queue :: "write_op list"
  sk_wbuf :: buffer
  sk_rx :: "sys_result list"
  sk_tx :: "sys_result list"
  sk_log :: "io_log list"
  sk_halt :: "sock_halt option"

text \<open>For \<open>Dgram\<close>, \<open>sk_write\<close> is the \<open>next_\<close> operation of the queue.\<close>

definition halt :: "sock_halt \<Rightarrow> sock \<Rightarrow> sock" where
  "halt h sk = (if sk_halt sk = None then sk\<lparr>sk_halt := Some h\<rparr> else sk)"

definition note_log :: "io_log \<Rightarrow> sock \<Rightarrow> sock" where
  "note_log l sk = sk\<lparr>sk_log := sk_log sk @ [l]\<rparr>"

text \<open>Poll handle operations do not throw: an exception of the poller ends the program.\<close>

definition poll_do :: "ph_op \<Rightarrow> sock \<Rightarrow> sock" where
  "poll_do op sk = (case ph_run op (sk_poll sk) (sk_ep sk) of
     Inl _ \<Rightarrow> halt Terminate sk
   | Inr (h, ep) \<Rightarrow> sk\<lparr>sk_poll := h, sk_ep := ep\<rparr>)"

definition sock_new :: "sock_kind \<Rightarrow> epoll \<Rightarrow> sys_result list \<Rightarrow> sys_result list \<Rightarrow> sock" where
  "sock_new kind ep rx tx = \<lparr>sk_kind = kind, sk_fd = - 1, sk_poll = ph_new 0, sk_ep = ep, sk_io_slot = None, sk_read = ro_new, sk_write = wo_new,
     sk_queue = [], sk_wbuf = bf_new, sk_rx = rx, sk_tx = tx, sk_log = [], sk_halt = None\<rparr>"

definition set_io_slot :: "nat \<Rightarrow> sock \<Rightarrow> sock" where
  "set_io_slot slot sk = (if sk_io_slot sk \<noteq> Some slot then poll_do (PMod (Some slot)) (sk\<lparr>sk_io_slot := Some slot\<rparr>) else sk)"

text \<open>
  \<open>open\<close>: the descriptor is the one the kernel returns. Assigning the new handle resets the old one and exchanges everything but the flags.
\<close>

definition sock_open :: "int \<Rightarrow> nat \<Rightarrow> sock \<Rightarrow> sock" where
  "sock_open fd io sk =
     (let sk1 = poll_do PReset (sk\<lparr>sk_fd := fd\<rparr>);
          sk2 = sk1\<lparr>sk_poll := (sk_poll sk1)\<lparr>pf_fd := fd, pf_sid := 0, pf_events := EvNone, pf_slot := None\<rparr>\<rparr>
      in set_io_slot io sk2)"

text \<open>The constructor with a reactor makes its handle from the poller alone; its descriptor is zero.\<close>

definition sock_construct :: "int \<Rightarrow> nat \<Rightarrow> sock \<Rightarrow> sock" where
  "sock_construct fd io sk = set_io_slot io (sk\<lparr>sk_fd := fd, sk_poll := ph_new 0\<rparr>)"

text \<open>\<open>close\<close>; the kernel drops a closed descriptor from its interest list.\<close>

definition sock_close :: "sock \<Rightarrow> sock" where
  "sock_close sk =
     (let sk1 = poll_do PReset sk in
      if 0 \<le> sk_fd sk then sk1\<lparr>sk_fd := - 1, sk_ep := (sk_ep sk1)\<lparr>ep_kernel := (ep_kernel (sk_ep sk1))(nat (sk_fd sk) := None)\<rparr>\<rparr> else sk1)"

subsection \<open>Starting operations\<close>

definition read_pending :: "sock \<Rightarrow> bool" where
  "read_pending sk \<longleftrightarrow> ro_slot (sk_read sk) \<noteq> None"

definition read_prepare :: "nat \<Rightarrow> mutable_buffer \<Rightarrow> sock \<Rightarrow> sock" where
  "read_prepare slot buf sk =
     (if read_pending sk then note_log (RThrow slot) sk
      else poll_do (PCommit False) (poll_do (PAdd EvRead)
        (note_log (RStart slot buf) (sk\<lparr>sk_read := (sk_read sk)\<lparr>ro_buf := buf, ro_slot := Some slot\<rparr>\<rparr>))))"

definition write_pending :: "sock \<Rightarrow> bool" where
  "write_pending sk \<longleftrightarrow> (if sk_kind sk = Dgram then sk_queue sk \<noteq> [] else wo_slot (sk_write sk) \<noteq> None)"

text \<open>\<open>SocketWrite::prepare\<close>; the flag says that it did not throw.\<close>

definition write_prepare1 :: "nat \<Rightarrow> const_buffer \<Rightarrow> sock \<Rightarrow> bool \<times> sock" where
  "write_prepare1 slot data sk =
     (if wo_slot (sk_write sk) \<noteq> None then (False, note_log (WThrow slot) sk)
      else (True, poll_do (PAdd EvWrite)
        (note_log (WStart slot data (wo_endpoint (sk_write sk))) (sk\<lparr>sk_write := (sk_write sk)\<lparr>wo_data := data, wo_slot := Some slot\<rparr>\<rparr>))))"

text \<open>\<open>SocketWriteQueue::prepare\<close> copies the data behind what is queued; copying from null is undefined.\<close>

definition write_prepare :: "nat \<Rightarrow> const_buffer \<Rightarrow> sock \<Rightarrow> sock" where
  "write_prepare slot data sk =
     (if sk_kind sk = Dgram then
        (case (data, write_prepare1 slot data sk) of
           (_, False, sk1) \<Rightarrow> sk1
         | (CNull _, True, _) \<Rightarrow> halt Undefined sk
         | (CMem bs, True, sk1) \<Rightarrow>
           (let sz = cb_size data;
                wbuf1 = bf_commit sz (bf_fill bs (snd (bf_prepare sz (sk_wbuf sk1))));
                op = (sk_write sk1)\<lparr>wo_data := CNull sz\<rparr>
            in sk1\<lparr>sk_wbuf := wbuf1, sk_queue := sk_queue sk1 @ [op], sk_write := wo_reset op\<rparr>))
      else snd (write_prepare1 slot data sk))"

definition write_prepare_mut :: "nat \<Rightarrow> nat \<Rightarrow> (nat \<Rightarrow> u8 list) \<Rightarrow> sock \<Rightarrow> sock" where
  "write_prepare_mut slot sz mut sk =
     (if wo_slot (sk_write sk) \<noteq> None then note_log (WThrow slot) sk
      else poll_do (PAdd EvWrite) (note_log (WStart slot (CNull sz) (wo_endpoint (sk_write sk)))
        (sk\<lparr>sk_write := (sk_write sk)\<lparr>wo_data := CNull sz, wo_mut := Some mut, wo_slot := Some slot\<rparr>\<rparr>)))"

definition set_read_flags :: "int \<Rightarrow> sock \<Rightarrow> sock" where "set_read_flags f sk = sk\<lparr>sk_read := (sk_read sk)\<lparr>ro_flags := f\<rparr>\<rparr>"
definition set_read_endpoint :: "nat \<Rightarrow> sock \<Rightarrow> sock" where "set_read_endpoint e sk = sk\<lparr>sk_read := (sk_read sk)\<lparr>ro_endpoint := Some e\<rparr>\<rparr>"
definition set_write_flags :: "int \<Rightarrow> sock \<Rightarrow> sock" where "set_write_flags f sk = sk\<lparr>sk_write := (sk_write sk)\<lparr>wo_flags := f\<rparr>\<rparr>"
definition set_write_endpoint :: "nat \<Rightarrow> sock \<Rightarrow> sock" where "set_write_endpoint e sk = sk\<lparr>sk_write := (sk_write sk)\<lparr>wo_endpoint := Some e\<rparr>\<rparr>"

definition async_recv :: "mutable_buffer \<Rightarrow> int \<Rightarrow> nat \<Rightarrow> sock \<Rightarrow> sock" where
  "async_recv buf flags slot sk = read_prepare slot buf (set_read_flags flags sk)"

definition async_read :: "mutable_buffer \<Rightarrow> nat \<Rightarrow> sock \<Rightarrow> sock" where
  "async_read buf slot sk = read_prepare slot buf (set_read_flags 0 sk)"

definition async_write :: "const_buffer \<Rightarrow> nat \<Rightarrow> sock \<Rightarrow> sock" where
  "async_write data slot sk = write_prepare slot data (set_write_flags 0 sk)"

definition async_write_mut :: "nat \<Rightarrow> (nat \<Rightarrow> u8 list) \<Rightarrow> nat \<Rightarrow> sock \<Rightarrow> sock" where
  "async_write_mut sz mut slot sk = write_prepare_mut slot sz mut (set_write_flags 0 sk)"

definition async_recvfrom :: "mutable_buffer \<Rightarrow> int \<Rightarrow> nat \<Rightarrow> nat \<Rightarrow> sock \<Rightarrow> sock" where
  "async_recvfrom buf flags ep slot sk =
     (if read_pending sk then halt Assertion sk else read_prepare slot buf (set_read_endpoint ep (set_read_flags flags sk)))"

definition async_sendto :: "const_buffer \<Rightarrow> nat \<Rightarrow> nat \<Rightarrow> sock \<Rightarrow> sock" where
  "async_sendto data ep slot sk =
     (if sk_kind sk \<noteq> Dgram \<and> write_pending sk then halt Assertion sk else write_prepare slot data (set_write_endpoint ep sk))"

definition async_sendto_mut :: "nat \<Rightarrow> (nat \<Rightarrow> u8 list) \<Rightarrow> int \<Rightarrow> nat \<Rightarrow> nat \<Rightarrow> sock \<Rightarrow> sock" where
  "async_sendto_mut sz mut flags ep slot sk =
     (if write_pending sk then halt Assertion sk
      else write_prepare_mut slot sz mut (set_write_endpoint ep (set_write_flags flags sk)))"

text \<open>What a client can do; the queue has no overload for zero-copy writes.\<close>

datatype sock_op = ARead mutable_buffer nat | ARecv mutable_buffer int nat | ARecvFrom mutable_buffer int nat nat
  | AWrite const_buffer nat | AWriteMut nat "nat \<Rightarrow> u8 list" nat | ASendTo const_buffer nat nat
  | ASendToMut nat "nat \<Rightarrow> u8 list" int nat nat | AClose

fun sock_op_run :: "sock_op \<Rightarrow> sock \<Rightarrow> sock" where
  "sock_op_run (ARead buf slot) sk = async_read buf slot sk"
| "sock_op_run (ARecv buf flags slot) sk = async_recv buf flags slot sk"
| "sock_op_run (ARecvFrom buf flags ep slot) sk = async_recvfrom buf flags ep slot sk"
| "sock_op_run (AWrite data slot) sk = async_write data slot sk"
| "sock_op_run (AWriteMut sz mut slot) sk = (if sk_kind sk = Dgram then sk else async_write_mut sz mut slot sk)"
| "sock_op_run (ASendTo data ep slot) sk = async_sendto data ep slot sk"
| "sock_op_run (ASendToMut sz mut flags ep slot) sk = (if sk_kind sk = Dgram then sk else async_sendto_mut sz mut flags ep slot sk)"
| "sock_op_run AClose sk = sock_close sk"

text \<open>What the completion slots do, given the slot, the result and the socket.\<close>

type_synonym sock_handler = "nat \<Rightarrow> sys_result \<Rightarrow> sock \<Rightarrow> sock_op list"

definition run_handler :: "sock_handler \<Rightarrow> nat \<Rightarrow> sys_result \<Rightarrow> sock \<Rightarrow> sock" where
  "run_handler cb slot r sk = fold sock_op_run (cb slot r sk) sk"

subsection \<open>Completing operations\<close>

definition next_result :: "sys_result list \<Rightarrow> sys_result \<times> sys_result list" where
  "next_result rs = (case rs of [] \<Rightarrow> ((- 1, EWOULDBLOCK), []) | r # rs' \<Rightarrow> (r, rs'))"

text \<open>\<open>SocketRead::complete\<close> and \<open>notify\<close>, with \<open>recv\<close> or \<open>recvfrom\<close>. The operation has a slot, as its callers check.\<close>

definition read_complete :: "sock_handler \<Rightarrow> sock \<Rightarrow> bool \<times> sock" where
  "read_complete cb sk =
     (let op = sk_read sk; from = (if sk_kind sk = Plain then None else ro_endpoint op) in
      if sk_kind sk \<noteq> Plain \<and> from = None then (False, halt Assertion sk)
      else
        (case next_result (sk_rx sk) of (r, rx) \<Rightarrow>
          (let sk1 = note_log (SysRecv (ro_buf op) (ro_flags op) from r) (sk\<lparr>sk_rx := rx\<rparr>) in
           if would_block r then (False, poll_do (PAdd EvRead) sk1)
           else
             (let slot = the (ro_slot op);
                  sk2 = run_handler cb slot r (note_log (RDone slot r) (sk1\<lparr>sk_read := ro_reset op\<rparr>))
              in (True, if read_pending sk2 then sk2 else poll_do (PDel EvRead) sk2)))))"

text \<open>
  The bytes \<open>SocketWrite::complete\<close> sends: its data, or for a zero-copy write all of the region prepared in its buffer.
\<close>

definition wo_bytes :: "write_op \<Rightarrow> u8 list \<times> write_op" where
  "wo_bytes op = (case wo_data op of
     CMem bs \<Rightarrow> (bs, op)
   | CNull n \<Rightarrow>
     (case bf_prepare n (wo_buf op) of (avail, b) \<Rightarrow>
       (let b1 = (case wo_mut op of Some mut \<Rightarrow> bf_fill (mut avail) b | None \<Rightarrow> b)
        in (take avail (drop (bf_wpos b1) (bf_buf b1)), op\<lparr>wo_buf := b1\<rparr>))))"

definition write_complete1 :: "sock_handler \<Rightarrow> sock \<Rightarrow> bool \<times> sock" where
  "write_complete1 cb sk =
     (let to = (if sk_kind sk = Plain then None else wo_endpoint (sk_write sk)) in
      if sk_kind sk \<noteq> Plain \<and> to = None then (False, halt Assertion sk)
      else
        (case (wo_bytes (sk_write sk), next_result (sk_tx sk)) of ((bytes, op), (r, tx)) \<Rightarrow>
          (let flags = (if sk_kind sk = Plain then 0 else wo_flags op);
               sk1 = note_log (SysSend bytes flags to r) (sk\<lparr>sk_tx := tx, sk_write := op\<rparr>) in
           if would_block r then (False, poll_do (PAdd EvWrite) sk1)
           else
             (let slot = the (wo_slot op);
                  sk2 = run_handler cb slot r (note_log (WDone slot r) (sk1\<lparr>sk_write := wo_reset op\<rparr>))
              in (True, if wo_slot (sk_write sk2) \<noteq> None then sk2 else poll_do (PDel EvWrite) sk2)))))"

text \<open>
  \<open>SocketWriteQueue::complete\<close>, one turn of its loop: the front operation is completed in its place, with the data at the front of the
  write buffer. It is empty after \<open>notify\<close>, so the write interest is removed. The result is \<open>None\<close> when the loop goes on.
\<close>

definition queue_turn :: "sock_handler \<Rightarrow> sock \<Rightarrow> bool option \<times> sock" where
  "queue_turn cb sk = (case sk_queue sk of
     [] \<Rightarrow> (Some True, sk)
   | op # ops \<Rightarrow>
     (let sz = cb_size (wo_data op);
          bytes = take sz (drop (bf_rpos (sk_wbuf sk)) (bf_buf (sk_wbuf sk)));
          op1 = op\<lparr>wo_data := CMem bytes\<rparr>
      in if sz = 0 \<or> wo_endpoint op = None then (Some False, halt Assertion (sk\<lparr>sk_queue := op1 # ops\<rparr>))
      else
        (case next_result (sk_tx sk) of (r, tx) \<Rightarrow>
          (let sk1 = note_log (SysSend bytes (wo_flags op) (wo_endpoint op) r) (sk\<lparr>sk_tx := tx, sk_queue := op1 # ops\<rparr>) in
           if would_block r then (Some False, poll_do (PAdd EvWrite) sk1)
           else
             (let slot = the (wo_slot op);
                  sk2 = run_handler cb slot r (note_log (WDone slot r) (sk1\<lparr>sk_queue := wo_reset op1 # ops\<rparr>));
                  sk3 = poll_do (PDel EvWrite) sk2
              in (None, sk3\<lparr>sk_wbuf := bf_consume sz (sk_wbuf sk3), sk_queue := tl (sk_queue sk3)\<rparr>))))))"

text \<open>Handlers do not touch the answers of the kernel, nor the kind of the socket.\<close>

lemma poll_do_frame [simp]:
  "sk_rx (poll_do op sk) = sk_rx sk" "sk_tx (poll_do op sk) = sk_tx sk" "sk_kind (poll_do op sk) = sk_kind sk" "sk_read (poll_do op sk) = sk_read sk"
  "sk_write (poll_do op sk) = sk_write sk" "sk_queue (poll_do op sk) = sk_queue sk" "sk_wbuf (poll_do op sk) = sk_wbuf sk" "sk_log (poll_do op sk) = sk_log sk"
  "sk_fd (poll_do op sk) = sk_fd sk" "sk_io_slot (poll_do op sk) = sk_io_slot sk"
  by (simp_all add: poll_do_def halt_def split: sum.splits prod.splits)

lemma halt_frame [simp]:
  "sk_rx (halt h sk) = sk_rx sk" "sk_tx (halt h sk) = sk_tx sk" "sk_kind (halt h sk) = sk_kind sk" "sk_read (halt h sk) = sk_read sk"
  "sk_write (halt h sk) = sk_write sk" "sk_queue (halt h sk) = sk_queue sk" "sk_wbuf (halt h sk) = sk_wbuf sk" "sk_log (halt h sk) = sk_log sk"
  "sk_fd (halt h sk) = sk_fd sk" "sk_poll (halt h sk) = sk_poll sk" "sk_ep (halt h sk) = sk_ep sk" "sk_halt (halt h sk) \<noteq> None"
  by (simp_all add: halt_def)

lemma note_log_frame [simp]:
  "sk_rx (note_log l sk) = sk_rx sk" "sk_tx (note_log l sk) = sk_tx sk" "sk_kind (note_log l sk) = sk_kind sk" "sk_read (note_log l sk) = sk_read sk"
  "sk_write (note_log l sk) = sk_write sk" "sk_queue (note_log l sk) = sk_queue sk" "sk_wbuf (note_log l sk) = sk_wbuf sk"
  "sk_log (note_log l sk) = sk_log sk @ [l]" "sk_fd (note_log l sk) = sk_fd sk" "sk_poll (note_log l sk) = sk_poll sk" "sk_ep (note_log l sk) = sk_ep sk"
  "sk_halt (note_log l sk) = sk_halt sk"
  by (simp_all add: note_log_def)

lemmas async_defs = async_read_def async_recv_def async_recvfrom_def async_write_def async_write_mut_def async_sendto_def async_sendto_mut_def
  read_prepare_def write_prepare_def write_prepare1_def write_prepare_mut_def set_read_flags_def set_read_endpoint_def set_write_flags_def
  set_write_endpoint_def

lemma sock_op_frame [simp]:
  "sk_rx (sock_op_run op sk) = sk_rx sk" "sk_tx (sock_op_run op sk) = sk_tx sk" "sk_kind (sock_op_run op sk) = sk_kind sk"
  by (cases op; simp add: async_defs sock_close_def Let_def split: prod.splits bool.splits const_buffer.splits)+

lemma fold_sock_op_frame [simp]:
  "sk_rx (fold sock_op_run ops sk) = sk_rx sk" "sk_tx (fold sock_op_run ops sk) = sk_tx sk" "sk_kind (fold sock_op_run ops sk) = sk_kind sk"
  by (induction ops arbitrary: sk) simp_all

lemma run_handler_frame [simp]:
  "sk_rx (run_handler cb slot r sk) = sk_rx sk" "sk_tx (run_handler cb slot r sk) = sk_tx sk" "sk_kind (run_handler cb slot r sk) = sk_kind sk"
  by (simp_all add: run_handler_def)

lemma next_result_cases:
  "next_result rs = (r, rs') \<Longrightarrow> \<not> would_block r \<Longrightarrow> rs = r # rs'"
  by (auto simp: next_result_def would_block_def split: list.splits)

lemma next_result_le: "next_result rs = (r, rs') \<Longrightarrow> length rs' \<le> length rs"
  by (auto simp: next_result_def split: list.splits)

lemma read_complete_less:
  "read_complete cb sk = (True, sk1) \<Longrightarrow> length (sk_rx sk1) < length (sk_rx sk)"
  by (auto simp: read_complete_def Let_def split: if_splits prod.splits dest!: next_result_cases)

lemma write_complete1_less:
  "write_complete1 cb sk = (True, sk1) \<Longrightarrow> length (sk_tx sk1) < length (sk_tx sk)"
  by (auto simp: write_complete1_def Let_def split: if_splits prod.splits dest!: next_result_cases)

lemma queue_turn_less:
  "queue_turn cb sk = (None, sk1) \<Longrightarrow> length (sk_tx sk1) < length (sk_tx sk)"
  by (auto simp: queue_turn_def Let_def split: if_splits prod.splits list.splits dest!: next_result_cases)

lemma queue_turn_kind: "queue_turn cb sk = (b, sk1) \<Longrightarrow> sk_kind sk1 = sk_kind sk"
  by (auto simp: queue_turn_def Let_def split: if_splits prod.splits list.splits)

subsection \<open>The loops\<close>

text \<open>A program that has stopped does nothing more.\<close>

function queue_complete :: "sock_handler \<Rightarrow> sock \<Rightarrow> bool \<times> sock" where
  "queue_complete cb sk = (case queue_turn cb sk of
     (Some b, sk1) \<Rightarrow> (b, sk1)
   | (None, sk1) \<Rightarrow> if sk_halt sk1 \<noteq> None then (False, sk1) else queue_complete cb sk1)"
  by pat_completeness auto
termination by (relation "measure (\<lambda>(cb, sk). length (sk_tx sk))") (auto dest: queue_turn_less [OF sym])

declare queue_complete.simps [simp del]

definition write_complete :: "sock_handler \<Rightarrow> sock \<Rightarrow> bool \<times> sock" where
  "write_complete cb sk = (if sk_kind sk = Dgram then queue_complete cb sk else write_complete1 cb sk)"

lemma queue_complete_le: "length (sk_tx (snd (queue_complete cb sk))) \<le> length (sk_tx sk)"
proof (induction cb sk rule: queue_complete.induct)
  case (1 cb sk)
  obtain b sk1 where t: "queue_turn cb sk = (b, sk1)" by fastforce
  show ?case
  proof (cases b)
    case None
    with 1 [OF t [symmetric]] queue_turn_less [of cb sk sk1] t show ?thesis
      by (cases "sk_halt sk1 = None") (auto simp: queue_complete.simps [of cb sk])
  next
    case (Some a)
    with t show ?thesis
      by (auto simp: queue_complete.simps [of cb sk] queue_turn_def Let_def split: if_splits prod.splits list.splits dest: next_result_le)
  qed
qed

lemma write_complete_less:
  assumes "write_complete cb sk = (True, sk1)" "write_pending sk"
  shows "length (sk_tx sk1) < length (sk_tx sk)"
proof (cases "sk_kind sk = Dgram")
  case True
  with assms have q: "queue_complete cb sk = (True, sk1)" "sk_queue sk \<noteq> []" by (simp_all add: write_complete_def write_pending_def)
  obtain b sk2 where t: "queue_turn cb sk = (b, sk2)" by fastforce
  moreover have "b \<noteq> Some True" using t q(2) by (auto simp: queue_turn_def Let_def split: if_splits prod.splits list.splits)
  ultimately have "b = None" "sk_halt sk2 = None" "queue_complete cb sk2 = (True, sk1)" using q(1)
    by (auto simp: queue_complete.simps [of cb sk] split: option.splits if_splits)
  with queue_turn_less t queue_complete_le [of cb sk2] show ?thesis by fastforce
next
  case False
  with assms show ?thesis by (auto simp: write_complete_def dest: write_complete1_less)
qed

function read_loop :: "sock_handler \<Rightarrow> bool \<Rightarrow> u32 \<Rightarrow> sock \<Rightarrow> bool \<times> u32 \<times> sock" where
  "read_loop cb again events sk =
     (if sk_halt sk \<noteq> None \<or> \<not> read_pending sk then (again, events, sk)
      else (case read_complete cb sk of
        (False, sk1) \<Rightarrow> (again, ev_minus events EvRead, sk1)
      | (True, sk1) \<Rightarrow> read_loop cb True events sk1))"
  by pat_completeness auto
termination by (relation "measure (\<lambda>(cb, again, events, sk). length (sk_rx sk))") (auto dest: read_complete_less [OF sym])

function write_loop :: "sock_handler \<Rightarrow> bool \<Rightarrow> u32 \<Rightarrow> sock \<Rightarrow> bool \<times> u32 \<times> sock" where
  "write_loop cb again events sk =
     (if sk_halt sk \<noteq> None \<or> \<not> write_pending sk then (again, events, sk)
      else (case write_complete cb sk of
        (False, sk1) \<Rightarrow> (again, ev_minus events EvWrite, sk1)
      | (True, sk1) \<Rightarrow> write_loop cb True events sk1))"
  by pat_completeness auto
termination by (relation "measure (\<lambda>(cb, again, events, sk). length (sk_tx sk))") (auto dest: write_complete_less [OF sym])

declare read_loop.simps [simp del] write_loop.simps [simp del]

text \<open>At most 64 rounds of reading and writing.\<close>

fun io_rounds :: "sock_handler \<Rightarrow> nat \<Rightarrow> u32 \<Rightarrow> sock \<Rightarrow> sock" where
  "io_rounds cb 0 events sk = sk"
| "io_rounds cb (Suc n) events sk =
     (case (if events AND EvRead \<noteq> 0 then read_loop cb False events sk else (False, events, sk)) of (again1, events1, sk1) \<Rightarrow>
      case (if events1 AND EvWrite \<noteq> 0 then write_loop cb again1 events1 sk1 else (again1, events1, sk1)) of (again2, events2, sk2) \<Rightarrow>
      if \<not> again2 \<or> events2 AND ev_plus EvRead EvWrite = 0 then sk2 else io_rounds cb n events2 sk2)"

definition set_batching :: "bool \<Rightarrow> sock \<Rightarrow> bool \<times> sock" where
  "set_batching b sk = (case ph_batching b (sk_poll sk) of (old, h) \<Rightarrow> (old, sk\<lparr>sk_poll := h\<rparr>))"

definition sock_on_io_event :: "sock_handler \<Rightarrow> u32 \<Rightarrow> sock \<Rightarrow> sock" where
  "sock_on_io_event cb events sk =
     (case set_batching True sk of (old, sk1) \<Rightarrow>
      poll_do (PCommit True) (snd (set_batching old (io_rounds cb 64 events sk1))))"

subsection \<open>Every operation completes once, in order\<close>

text \<open>A run: the client starts operations between events. A program that has stopped takes no more steps.\<close>

datatype sock_step = Client sock_op | Event u32

fun sock_step_run :: "sock_handler \<Rightarrow> sock_step \<Rightarrow> sock \<Rightarrow> sock" where
  "sock_step_run cb (Client op) sk = (if sk_halt sk \<noteq> None then sk else sock_op_run op sk)"
| "sock_step_run cb (Event events) sk = (if sk_halt sk \<noteq> None then sk else sock_on_io_event cb events sk)"

definition sock_run :: "sock_handler \<Rightarrow> sock_step list \<Rightarrow> sock \<Rightarrow> sock" where
  "sock_run cb steps sk = fold (sock_step_run cb) steps sk"

text \<open>What the log says was started, completed, submitted and sent.\<close>

fun rstarts rdones wstarts wdones :: "io_log list \<Rightarrow> nat list" where
  "rstarts [] = []"
| "rstarts (l # ls) = (case l of RStart s _ \<Rightarrow> s # rstarts ls | _ \<Rightarrow> rstarts ls)"
| "rdones [] = []"
| "rdones (l # ls) = (case l of RDone s _ \<Rightarrow> s # rdones ls | _ \<Rightarrow> rdones ls)"
| "wstarts [] = []"
| "wstarts (l # ls) = (case l of WStart s _ _ \<Rightarrow> s # wstarts ls | _ \<Rightarrow> wstarts ls)"
| "wdones [] = []"
| "wdones (l # ls) = (case l of WDone s _ \<Rightarrow> s # wdones ls | _ \<Rightarrow> wdones ls)"

fun submitted sent :: "io_log list \<Rightarrow> (u8 list \<times> nat option) list" where
  "submitted [] = []"
| "submitted (l # ls) = (case l of WStart _ (CMem bs) to \<Rightarrow> (bs, to) # submitted ls | _ \<Rightarrow> submitted ls)"
| "sent [] = []"
| "sent (l # ls) = (case l of SysSend bs _ to r \<Rightarrow> if would_block r then sent ls else (bs, to) # sent ls | _ \<Rightarrow> sent ls)"

lemma log_append [simp]:
  "rstarts (ls @ ls') = rstarts ls @ rstarts ls'" "rdones (ls @ ls') = rdones ls @ rdones ls'" "wstarts (ls @ ls') = wstarts ls @ wstarts ls'"
  "wdones (ls @ ls') = wdones ls @ wdones ls'" "submitted (ls @ ls') = submitted ls @ submitted ls'" "sent (ls @ ls') = sent ls @ sent ls'"
  by (induction ls) (auto split: io_log.splits const_buffer.splits)

definition slots_of :: "nat option \<Rightarrow> nat list" where
  "slots_of s = (case s of Some x \<Rightarrow> [x] | None \<Rightarrow> [])"

lemma slots_of_simps [simp]: "slots_of None = []" "slots_of (Some x) = [x]"
  by (simp_all add: slots_of_def)

text \<open>Reading, for all kinds of sockets, and writing without a queue.\<close>

definition read_once :: "sock \<Rightarrow> bool" where
  "read_once sk \<longleftrightarrow> rstarts (sk_log sk) = rdones (sk_log sk) @ slots_of (ro_slot (sk_read sk))"

definition write_once :: "sock \<Rightarrow> bool" where
  "write_once sk \<longleftrightarrow> sk_kind sk \<noteq> Dgram \<and> wstarts (sk_log sk) = wdones (sk_log sk) @ slots_of (wo_slot (sk_write sk))"

text \<open>The messages in a queue, whose data are behind each other in the write buffer.\<close>

fun queue_msgs :: "u8 list \<Rightarrow> write_op list \<Rightarrow> (u8 list \<times> nat option) list" where
  "queue_msgs bs [] = []"
| "queue_msgs bs (op # ops) = (take (cb_size (wo_data op)) bs, wo_endpoint op) # queue_msgs (drop (cb_size (wo_data op)) bs) ops"

definition queue_size :: "write_op list \<Rightarrow> nat" where
  "queue_size ops = sum_list (map (\<lambda>op. cb_size (wo_data op)) ops)"

lemma queue_size_simps [simp]:
  "queue_size [] = 0" "queue_size (op # ops) = cb_size (wo_data op) + queue_size ops" "queue_size (ops @ ops') = queue_size ops + queue_size ops'"
  by (simp_all add: queue_size_def)

lemma queue_msgs_append:
  "length bs = queue_size ops \<Longrightarrow> queue_msgs (bs @ new) (ops @ ops') = queue_msgs bs ops @ queue_msgs new ops'"
proof (induction ops arbitrary: bs)
  case (Cons op ops)
  then show ?case by (cases "wo_data op") auto
qed simp

text \<open>
  The invariant of the queue without its first \<open>n\<close> operations, whose data are the first \<open>k\<close> bytes of the write buffer.
\<close>

definition queue_ok :: "nat \<Rightarrow> nat \<Rightarrow> sock \<Rightarrow> bool" where
  "queue_ok k n sk \<longleftrightarrow> sk_kind sk = Dgram \<and> wo_slot (sk_write sk) = None \<and> bf_inv (sk_wbuf sk) \<and> n \<le> length (sk_queue sk) \<and>
     k + queue_size (drop n (sk_queue sk)) = bf_size (sk_wbuf sk) \<and>
     submitted (sk_log sk) = sent (sk_log sk) @ queue_msgs (drop k (bf_str (sk_wbuf sk))) (drop n (sk_queue sk)) \<and>
     wstarts (sk_log sk) = wdones (sk_log sk) @ concat (map (\<lambda>op. slots_of (wo_slot op)) (drop n (sk_queue sk))) \<and>
     (\<forall>op \<in> set (drop n (sk_queue sk)). wo_slot op \<noteq> None)"

lemma queue_ok_poll [simp]: "queue_ok k n (poll_do op sk) = queue_ok k n sk" "queue_ok k n (halt h sk) = queue_ok k n sk"
  by (simp_all add: queue_ok_def)

lemma once_poll [simp]: "read_once (poll_do op sk) = read_once sk" "read_once (halt h sk) = read_once sk"
  "write_once (poll_do op sk) = write_once sk" "write_once (halt h sk) = write_once sk"
  by (simp_all add: read_once_def write_once_def)

lemma sock_op_read_once: "read_once sk \<Longrightarrow> read_once (sock_op_run op sk)"
  by (cases op) (auto simp: async_defs read_once_def read_pending_def sock_close_def Let_def split: prod.splits bool.splits const_buffer.splits)

lemma sock_op_write_once: "write_once sk \<Longrightarrow> write_once (sock_op_run op sk)"
  by (cases op) (auto simp: async_defs write_once_def sock_close_def Let_def)

lemma write_prepare_queue_ok:
  assumes ok: "queue_ok k n sk"
  shows "queue_ok k n (write_prepare slot data (sk\<lparr>sk_write := (sk_write sk)\<lparr>wo_flags := f, wo_endpoint := e\<rparr>\<rparr>))"
proof (cases data)
  case (CNull m)
  with ok show ?thesis by (simp add: write_prepare_def write_prepare1_def queue_ok_def)
next
  case (CMem bs)
  let ?op = "(sk_write sk)\<lparr>wo_flags := f, wo_endpoint := e, wo_data := CNull (length bs), wo_slot := Some slot\<rparr>"
  let ?sk' = "write_prepare slot data (sk\<lparr>sk_write := (sk_write sk)\<lparr>wo_flags := f, wo_endpoint := e\<rparr>\<rparr>)"
  obtain b where put: "bf_put bs (sk_wbuf sk) = (True, b)" by (simp add: bf_put_def)
  have inv: "bf_inv (sk_wbuf sk)" "wo_slot (sk_write sk) = None" "sk_kind sk = Dgram" "n \<le> length (sk_queue sk)" using ok by (auto simp: queue_ok_def)
  from bf_put_law [OF inv(1) put] have b: "bf_inv b" "bf_str b = bf_str (sk_wbuf sk) @ bs" by auto
  have sz: "bf_size b = bf_size (sk_wbuf sk) + length bs"
    using length_bf_str [OF b(1)] length_bf_str [OF inv(1)] b(2) by simp
  have fields: "sk_queue ?sk' = sk_queue sk @ [?op]" "sk_wbuf ?sk' = b" "sk_log ?sk' = sk_log sk @ [WStart slot data e]"
     "wo_slot (sk_write ?sk') = None" "sk_kind ?sk' = Dgram"
    using CMem inv put by (auto simp: write_prepare_def write_prepare1_def wo_reset_def bf_put_def Let_def)
  have d: "drop n (sk_queue sk @ [?op]) = drop n (sk_queue sk) @ [?op]" using inv(4) by simp
  have "length (drop k (bf_str (sk_wbuf sk))) = queue_size (drop n (sk_queue sk))" "k \<le> length (bf_str (sk_wbuf sk))"
    using ok length_bf_str [OF inv(1)] by (auto simp: queue_ok_def)
  then have "queue_msgs (drop k (bf_str b)) (drop n (sk_queue sk @ [?op])) = queue_msgs (drop k (bf_str (sk_wbuf sk))) (drop n (sk_queue sk)) @ [(bs, e)]"
    unfolding d b(2) by (simp add: queue_msgs_append)
  then show ?thesis using ok b(1) sz inv(4) unfolding queue_ok_def fields d by (simp add: CMem)
qed

lemma sock_op_queue_ok: "queue_ok k n sk \<Longrightarrow> queue_ok k n (sock_op_run op sk)"
proof (cases op)
  case (AWrite data slot)
  assume "queue_ok k n sk"
  from write_prepare_queue_ok [OF this, where slot = slot and data = data and f = 0 and e = "wo_endpoint (sk_write sk)"] AWrite show ?thesis
    by (simp add: async_write_def set_write_flags_def)
next
  case (ASendTo data ep slot)
  assume ok: "queue_ok k n sk"
  from write_prepare_queue_ok [OF this, where slot = slot and data = data and f = "wo_flags (sk_write sk)" and e = "Some ep"] ASendTo ok show ?thesis
    by (simp add: async_sendto_def set_write_endpoint_def)
qed (auto simp: async_read_def async_recv_def async_recvfrom_def read_prepare_def set_read_flags_def set_read_endpoint_def queue_ok_def
  sock_close_def Let_def)

text \<open>Whatever the operations keep, handlers keep.\<close>

lemma run_handler_inv:
  assumes "P sk" and "\<And>op s. op \<in> set (cb slot r sk) \<Longrightarrow> P s \<Longrightarrow> P (sock_op_run op s)"
  shows "P (run_handler cb slot r sk)"
proof -
  have "P (fold sock_op_run ops s)" if "set ops \<subseteq> set (cb slot r sk)" "P s" for ops s
    using that by (induction ops arbitrary: s) (auto intro: assms(2))
  then show ?thesis using assms(1) by (simp add: run_handler_def)
qed


text \<open>An invariant that its callers' operations, the poller and the two log entries keep is kept by the completion of a read.\<close>

lemma read_complete_inv:
  assumes "P sk" "ro_slot (sk_read sk) = Some slot"
    and op: "\<And>op s. P s \<Longrightarrow> P (sock_op_run op s)"
    and poll: "\<And>op s. P s \<Longrightarrow> P (poll_do op s)" "\<And>h s. P s \<Longrightarrow> P (halt h s)"
    and sys: "\<And>b f e r rx. P (note_log (SysRecv b f e r) (sk\<lparr>sk_rx := rx\<rparr>))"
    and dn: "\<And>b f e r rx. P (note_log (RDone slot r) ((note_log (SysRecv b f e r) (sk\<lparr>sk_rx := rx\<rparr>))\<lparr>sk_read := ro_reset (sk_read sk)\<rparr>))"
  shows "P (snd (read_complete cb sk))"
proof -
  have "P (run_handler cb slot r (note_log (RDone slot r) ((note_log (SysRecv b f e r) (sk\<lparr>sk_rx := rx\<rparr>))\<lparr>sk_read := ro_reset (sk_read sk)\<rparr>)))" for b f e r rx
    by (rule run_handler_inv [where P = P, OF dn op])
  with assms(1,2) poll sys show ?thesis by (simp add: read_complete_def Let_def split: prod.splits)
qed

lemma read_complete_read_once:
  assumes "read_once sk" "read_pending sk"
  shows "read_once (snd (read_complete cb sk))"
proof -
  obtain s where s: "ro_slot (sk_read sk) = Some s" using assms(2) by (auto simp: read_pending_def)
  show ?thesis
    by (rule read_complete_inv [where P = read_once, OF assms(1) s sock_op_read_once]) (use assms s in \<open>auto simp: read_once_def ro_reset_def\<close>)
qed

lemma read_complete_queue_ok:
  assumes "queue_ok 0 0 sk" "read_pending sk"
  shows "queue_ok 0 0 (snd (read_complete cb sk))"
proof -
  obtain s where s: "ro_slot (sk_read sk) = Some s" using assms(2) by (auto simp: read_pending_def)
  show ?thesis
    by (rule read_complete_inv [where P = "queue_ok 0 0", OF assms(1) s sock_op_queue_ok]) (use assms in \<open>auto simp: queue_ok_def\<close>)
qed

lemma read_complete_write_once:
  assumes "write_once sk" "read_pending sk"
  shows "write_once (snd (read_complete cb sk))"
proof -
  obtain s where s: "ro_slot (sk_read sk) = Some s" using assms(2) by (auto simp: read_pending_def)
  show ?thesis
    by (rule read_complete_inv [where P = write_once, OF assms(1) s sock_op_write_once]) (use assms in \<open>auto simp: write_once_def\<close>)
qed

lemma write_complete1_inv:
  assumes "P sk" "wo_slot (sk_write sk) = Some slot"
    and op: "\<And>op s. P s \<Longrightarrow> P (sock_op_run op s)"
    and poll: "\<And>op s. P s \<Longrightarrow> P (poll_do op s)" "\<And>h s. P s \<Longrightarrow> P (halt h s)"
    and sys: "\<And>bs f e r tx op. wo_slot op = Some slot \<Longrightarrow> P (note_log (SysSend bs f e r) (sk\<lparr>sk_tx := tx, sk_write := op\<rparr>))"
    and dn: "\<And>bs f e r tx op. P (note_log (WDone slot r) ((note_log (SysSend bs f e r) (sk\<lparr>sk_tx := tx, sk_write := op\<rparr>))\<lparr>sk_write := wo_reset op\<rparr>))"
  shows "P (snd (write_complete1 cb sk))"
proof -
  have b: "wo_slot (snd (wo_bytes (sk_write sk))) = Some slot"
    using assms(2) by (auto simp: wo_bytes_def Let_def split: const_buffer.splits prod.splits)
  have "P (run_handler cb slot r (note_log (WDone slot r) ((note_log (SysSend bs f e r) (sk\<lparr>sk_tx := tx, sk_write := op\<rparr>))\<lparr>sk_write := wo_reset op\<rparr>)))" for bs f e r tx op
    by (rule run_handler_inv [where P = P, OF dn op])
  moreover obtain bs op where wb: "wo_bytes (sk_write sk) = (bs, op)" by fastforce
  moreover obtain r tx where nr: "next_result (sk_tx sk) = (r, tx)" by fastforce
  ultimately show ?thesis using assms(1) b poll sys by (simp add: write_complete1_def Let_def)
qed

lemma write_complete1_read_once:
  assumes "read_once sk" "wo_slot (sk_write sk) = Some slot"
  shows "read_once (snd (write_complete1 cb sk))"
  by (rule write_complete1_inv [where P = read_once, OF assms sock_op_read_once]) (use assms in \<open>auto simp: read_once_def\<close>)

lemma write_complete1_write_once:
  assumes "write_once sk" "wo_slot (sk_write sk) = Some slot"
  shows "write_once (snd (write_complete1 cb sk))"
  by (rule write_complete1_inv [where P = write_once, OF assms sock_op_write_once]) (use assms in \<open>auto simp: write_once_def wo_reset_def\<close>)

lemma queue_turn_read_once:
  assumes "read_once sk"
  shows "read_once (snd (queue_turn cb sk))"
proof -
  have "read_once (run_handler cb s r (note_log (WDone s r) ((note_log l (sk\<lparr>sk_tx := tx, sk_queue := q1\<rparr>))\<lparr>sk_queue := q\<rparr>)))"
    if "\<And>s b. l \<noteq> RStart s b" "\<And>s r. l \<noteq> RDone s r" for s r l tx q q1
    by (rule run_handler_inv [where P = read_once]) (use assms that in \<open>auto simp: read_once_def split: io_log.splits intro: sock_op_read_once [unfolded read_once_def]\<close>)
  note H = this [of "SysSend _ _ _ _", simplified]
  have R: "read_once (sk\<lparr>sk_wbuf := w, sk_queue := q\<rparr>) = read_once sk" "read_once (sk\<lparr>sk_queue := q\<rparr>) = read_once sk" for sk w q
    by (simp_all add: read_once_def)
  show ?thesis using assms H by (auto simp: queue_turn_def Let_def R note_log_def read_once_def split: list.splits prod.splits)
qed

text \<open>The turn of the queue: the front message is sent, its slot is called, and its bytes and its place are released.\<close>

lemma queue_turn_queue_ok:
  assumes ok: "queue_ok 0 0 sk"
  shows "queue_ok 0 0 (snd (queue_turn cb sk))"
proof (cases "sk_queue sk")
  case Nil
  with ok show ?thesis by (simp add: queue_turn_def)
next
  case (Cons op ops)
  let ?sz = "cb_size (wo_data op)"
  let ?bytes = "take ?sz (drop (bf_rpos (sk_wbuf sk)) (bf_buf (sk_wbuf sk)))"
  have inv: "bf_inv (sk_wbuf sk)" and sz: "?sz + queue_size ops = bf_size (sk_wbuf sk)" using ok Cons by (auto simp: queue_ok_def)
  have bytes: "?bytes = take ?sz (bf_str (sk_wbuf sk))" using sz by (simp add: bf_str_def)
  have len: "length ?bytes = ?sz" using sz inv by (auto simp: bf_inv_def bf_size_def)
  obtain slot where slot: "wo_slot op = Some slot" using ok Cons by (auto simp: queue_ok_def)
  obtain r tx where nr: "next_result (sk_tx sk) = (r, tx)" by fastforce
  let ?op = "op\<lparr>wo_data := CMem ?bytes\<rparr>"
  let ?sk1 = "note_log (SysSend ?bytes (wo_flags op) (wo_endpoint op) r) (sk\<lparr>sk_tx := tx, sk_queue := ?op # ops\<rparr>)"
  let ?sk2 = "note_log (WDone slot r) (?sk1\<lparr>sk_queue := wo_reset ?op # ops\<rparr>)"
  have front: "queue_ok 0 0 (sk\<lparr>sk_queue := ?op # ops\<rparr>)"
    using ok Cons len slot by (auto simp: queue_ok_def)
  have blocked: "queue_ok 0 0 ?sk1" if "would_block r"
    using ok Cons len slot that by (auto simp: queue_ok_def)
  have "queue_ok ?sz 1 ?sk2" if "\<not> would_block r"
    using ok Cons len slot that bytes by (auto simp: queue_ok_def)
  then have "queue_ok ?sz 1 (run_handler cb slot r ?sk2)" if "\<not> would_block r"
    using that by (intro run_handler_inv [where P = "queue_ok ?sz 1"] sock_op_queue_ok)
  moreover have "queue_ok 0 0 ((poll_do (PDel EvWrite) s)\<lparr>sk_wbuf := bf_consume ?sz (sk_wbuf s), sk_queue := tl (sk_queue s)\<rparr>)"
    if "queue_ok ?sz 1 s" for s
    using that bf_consume_ok [of "sk_wbuf s" ?sz] length_bf_str [of "bf_consume ?sz (sk_wbuf s)"] length_bf_str [of "sk_wbuf s"]
    by (auto simp: queue_ok_def drop_Suc)
  ultimately show ?thesis using blocked front nr slot Cons by (simp add: queue_turn_def Let_def)
qed

lemma queue_complete_inv:
  assumes "\<And>s. P s \<Longrightarrow> P (snd (queue_turn cb s))" "P sk"
  shows "P (snd (queue_complete cb sk))"
  using assms
proof (induction cb sk rule: queue_complete.induct)
  case (1 cb sk)
  obtain b sk1 where t: "queue_turn cb sk = (b, sk1)" by fastforce
  have P1: "P sk1" using 1(2) [OF 1(3)] t by simp
  show ?case
    using 1(1) [OF t [symmetric]] 1(2) P1 t by (cases b; cases "sk_halt sk1 = None") (simp_all add: queue_complete.simps [of cb sk])
qed

text \<open>The invariants together, for a socket of any kind, and the loops.\<close>

definition sock_once :: "sock_kind \<Rightarrow> sock \<Rightarrow> bool" where
  "sock_once k sk \<longleftrightarrow> sk_kind sk = k \<and> read_once sk \<and> (if sk_kind sk = Dgram then queue_ok 0 0 sk else write_once sk)"

lemma sock_once_poll [simp]: "sock_once k (poll_do op sk) = sock_once k sk" "sock_once k (sk\<lparr>sk_poll := h\<rparr>) = sock_once k sk"
  by (simp_all add: sock_once_def read_once_def write_once_def queue_ok_def)

lemma sock_op_once: "sock_once k sk \<Longrightarrow> sock_once k (sock_op_run op sk)"
  by (auto simp: sock_once_def sock_op_read_once sock_op_write_once sock_op_queue_ok split: if_splits)

lemma read_complete_once:
  assumes "sock_once k sk" "read_pending sk"
  shows "sock_once k (snd (read_complete cb sk))"
proof -
  have "sk_kind (snd (read_complete cb sk)) = sk_kind sk" by (simp add: read_complete_def Let_def split: prod.splits)
  with assms show ?thesis
    by (auto simp: sock_once_def read_complete_read_once read_complete_queue_ok read_complete_write_once split: if_splits)
qed

lemma write_complete_once:
  assumes "sock_once k sk" "write_pending sk"
  shows "sock_once k (snd (write_complete cb sk))"
proof (cases "sk_kind sk = Dgram")
  case True
  have "read_once (snd (queue_complete cb sk)) \<and> queue_ok 0 0 (snd (queue_complete cb sk))"
    by (rule queue_complete_inv [where P = "\<lambda>s. read_once s \<and> queue_ok 0 0 s"])
      (use assms True in \<open>auto simp: sock_once_def queue_turn_read_once queue_turn_queue_ok\<close>)
  then show ?thesis using True assms by (auto simp: write_complete_def sock_once_def queue_ok_def)
next
  case False
  then obtain s where s: "wo_slot (sk_write sk) = Some s" using assms by (auto simp: write_pending_def)
  have "write_once sk" "read_once sk" using assms False by (auto simp: sock_once_def)
  moreover have "sk_kind (snd (write_complete1 cb sk)) = sk_kind sk" by (simp add: write_complete1_def Let_def split: prod.splits)
  ultimately show ?thesis using write_complete1_write_once [of sk s cb] write_complete1_read_once [of sk s cb] s False assms(1)
    by (auto simp: write_complete_def sock_once_def write_once_def)
qed

lemma read_loop_once: "sock_once k sk \<Longrightarrow> sock_once k (snd (snd (read_loop cb again events sk)))"
proof (induction cb again events sk rule: read_loop.induct)
  case (1 cb again events sk)
  obtain b sk1 where t: "read_complete cb sk = (b, sk1)" by fastforce
  show ?case
    using 1 t read_complete_once [OF 1(2), of cb] by (cases b) (auto simp: read_loop.simps [of cb again events sk])
qed

lemma write_loop_once: "sock_once k sk \<Longrightarrow> sock_once k (snd (snd (write_loop cb again events sk)))"
proof (induction cb again events sk rule: write_loop.induct)
  case (1 cb again events sk)
  obtain b sk1 where t: "write_complete cb sk = (b, sk1)" by fastforce
  show ?case
    using 1 t write_complete_once [OF 1(2), of cb] by (cases b) (auto simp: write_loop.simps [of cb again events sk])
qed

text \<open>An invariant of the two loops is one of the rounds.\<close>

lemma io_rounds_inv:
  assumes "\<And>again ev s. P s \<Longrightarrow> P (snd (snd (read_loop cb again ev s)))" "\<And>again ev s. P s \<Longrightarrow> P (snd (snd (write_loop cb again ev s)))" "P sk"
  shows "P (io_rounds cb n events sk)"
  using assms(3)
proof (induction n arbitrary: events sk)
  case (Suc n)
  obtain a1 e1 s1 where 1: "(if events AND EvRead \<noteq> 0 then read_loop cb False events sk else (False, events, sk)) = (a1, e1, s1)" by (metis prod_cases3)
  obtain a2 e2 s2 where 2: "(if e1 AND EvWrite \<noteq> 0 then write_loop cb a1 e1 s1 else (a1, e1, s1)) = (a2, e2, s2)" by (metis prod_cases3)
  have "P s1" using assms(1) [OF Suc.prems, of False events] 1 Suc.prems by (auto split: if_splits)
  then have "P s2" using assms(2) [of s1 a1 e1] 2 by (auto split: if_splits)
  with Suc.IH show ?case by (simp add: 1 2)
qed simp

lemma on_io_event_once: "sock_once k sk \<Longrightarrow> sock_once k (sock_on_io_event cb events sk)"
  by (simp add: sock_on_io_event_def set_batching_def ph_batching_def)
    (rule io_rounds_inv [where P = "sock_once k"], auto simp: read_loop_once write_loop_once)

lemma sock_run_inv:
  assumes "\<And>op s. Client op \<in> set steps \<Longrightarrow> P s \<Longrightarrow> P (sock_op_run op s)" "\<And>e s. P s \<Longrightarrow> P (sock_on_io_event cb e s)" "P sk"
  shows "P (sock_run cb steps sk)"
  unfolding sock_run_def using assms(1,3)
proof (induction steps arbitrary: sk)
  case (Cons st steps)
  have "P (sock_step_run cb st sk)" using Cons.prems assms(2) by (cases st) auto
  with Cons show ?case by simp
qed simp

lemma sock_new_once [simp]: "sock_once k (sock_open fd io (sock_new k ep rx tx))"
proof -
  have "sock_once k (sk\<lparr>sk_fd := f\<rparr>) = sock_once k sk" "sock_once k (sk\<lparr>sk_io_slot := i\<rparr>) = sock_once k sk" for sk f i
    by (simp_all add: sock_once_def read_once_def write_once_def queue_ok_def)
  moreover have "sock_once k (sock_new k ep rx tx)"
    by (simp add: sock_once_def read_once_def write_once_def queue_ok_def sock_new_def ro_new_def wo_new_def bf_size_def bf_new_def bf_inv_def)
  ultimately show ?thesis by (simp add: sock_open_def set_io_slot_def Let_def)
qed

text \<open>
  C8: A datagram socket with a write queue sends every message that is submitted to it, once, in order, with its bytes and its destination, whatever
  the kernel takes or refuses, whatever the completion slots start in between, and however often the write buffer is moved: the messages
  submitted are the messages sent followed by those in the queue, and every slot has been called once except those of the queue. Reads
  complete once and in order as well.
\<close>

theorem dgram_send_fifo:
  "let sk = sock_run cb steps (sock_open fd io (sock_new Dgram ep rx tx)) in
   submitted (sk_log sk) = sent (sk_log sk) @ queue_msgs (bf_str (sk_wbuf sk)) (sk_queue sk) \<and>
   wstarts (sk_log sk) = wdones (sk_log sk) @ map (the \<circ> wo_slot) (sk_queue sk) \<and>
   rstarts (sk_log sk) = rdones (sk_log sk) @ slots_of (ro_slot (sk_read sk))"
proof -
  let ?sk = "sock_run cb steps (sock_open fd io (sock_new Dgram ep rx tx))"
  have "sock_once Dgram ?sk" by (rule sock_run_inv [where P = "sock_once Dgram"]) (rule sock_op_once on_io_event_once sock_new_once, assumption?)+
  then have q: "queue_ok 0 0 ?sk" "read_once ?sk" by (auto simp: sock_once_def)
  have "concat (map (\<lambda>op. slots_of (wo_slot op)) ops) = map (the \<circ> wo_slot) ops" if "\<forall>op \<in> set ops. wo_slot op \<noteq> None" for ops
    using that by (induction ops) auto
  with q show ?thesis unfolding Let_def by (auto simp: queue_ok_def read_once_def)
qed

text \<open>Without a queue, operations complete once and in order as well.\<close>

lemma socket_single_once:
  assumes "kind \<noteq> Dgram" and "sk = sock_run cb steps (sock_open fd io (sock_new kind ep rx tx))"
  shows "rstarts (sk_log sk) = rdones (sk_log sk) @ slots_of (ro_slot (sk_read sk))"
    and "wstarts (sk_log sk) = wdones (sk_log sk) @ slots_of (wo_slot (sk_write sk))"
proof -
  have "sock_once kind sk" unfolding assms(2)
    by (rule sock_run_inv [where P = "sock_once kind"]) (rule sock_op_once on_io_event_once sock_new_once, assumption?)+
  with assms(1) show "rstarts (sk_log sk) = rdones (sk_log sk) @ slots_of (ro_slot (sk_read sk))"
    and "wstarts (sk_log sk) = wdones (sk_log sk) @ slots_of (wo_slot (sk_write sk))" by (auto simp: sock_once_def read_once_def write_once_def)
qed

end
