(* ===== verification/SocketPolls.thy ===== *)
theory SocketPolls
  imports Sockets
begin

text \<open>
  How sockets (\<open>Sockets\<close>) subscribe to the poller (\<open>Polling\<close>): the kernel is asked for the directions with pending operations, and what becomes
  of the subscription of a socket that is closed, opened again or constructed with its reactor.
\<close>

subsection \<open>A handle and its entry\<close>

definition watch :: "nat \<Rightarrow> epoll \<Rightarrow> u32" where
  "watch fd ep = (case ep_kernel ep fd of None \<Rightarrow> 0 | Some e \<Rightarrow> ee_events e)"

definition ep_entry :: "nat \<Rightarrow> epoll \<Rightarrow> poll_fd option" where
  "ep_entry fd ep = (if fd < length (ep_data ep) \<and> \<not> pf_empty (ep_data ep ! fd) then Some (ep_data ep ! fd) else None)"

text \<open>The table entry of the descriptor, if there is one, is the handle's own.\<close>

definition ph_sync :: "poll_handle \<Rightarrow> epoll \<Rightarrow> bool" where
  "ph_sync h ep \<longleftrightarrow> ep_inv ep \<and> ph_own ep h \<and> \<not> pf_empty h \<and>
     (\<forall>ref. ep_entry (nat (pf_fd h)) ep = Some ref \<longrightarrow> pf_sid ref = pf_sid h)"

lemma watch_entry:
  assumes "ep_inv ep" "fd \<noteq> ep_tfd ep" "fd \<noteq> ep_notify ep"
  shows "watch fd ep = (case ep_entry fd ep of None \<Rightarrow> 0 | Some ref \<Rightarrow> to_epoll_events (pf_events ref))"
  using assms by (simp add: ep_inv_def watch_def ep_want_def ep_entry_def mk_event_def)

lemma to_epoll_0 [simp]: "to_epoll_events 0 = 0"
  by (simp add: to_epoll_events_def epoll_mode_def)

text \<open>After a commit the kernel has the events of the handle.\<close>

lemma ep_ctl_sync:
  assumes sync: "ph_sync h ep"
  shows "\<exists>b h' ep'. ep_ctl h ep = Inr (b, h', ep') \<and> ph_sync h' ep' \<and> pf_fd h' = pf_fd h \<and> pf_events h' = pf_events h \<and>
    pf_slot h' = pf_slot h \<and> ph_batch h' = ph_batch h \<and> watch (nat (pf_fd h)) ep' = to_epoll_events (pf_events h)"
proof -
  let ?ix = "nat (pf_fd h)"
  have inv: "ep_inv ep" and own: "ph_own ep h" and ne: "\<not> pf_empty h" using sync by (auto simp: ph_sync_def)
  have fd: "0 \<le> pf_fd h" "?ix \<noteq> ep_tfd ep" "?ix \<noteq> ep_notify ep" using own by (auto simp: ph_own_def)
  obtain b h' ep' where c: "ep_ctl h ep = Inr (b, h', ep')" and inv': "ep_inv ep'" and fr: "ep_tfd ep' = ep_tfd ep" "ep_notify ep' = ep_notify ep"
    and fd': "pf_fd h' = pf_fd h" using ep_ctl_ok [OF inv own] by blast
  define ep1 where "ep1 = (if ?ix \<ge> length (ep_data ep) then ep\<lparr>ep_data := resize_data (?ix + 1) (ep_data ep)\<rparr> else ep)"
  have l1: "?ix < length (ep_data ep1)" by (simp add: ep1_def resize_data_simps)
  have e1: "ep_entry ?ix ep1 = ep_entry ?ix ep" by (auto simp: ep1_def ep_entry_def resize_data_simps)
  let ?ref = "ep_data ep1 ! ?ix"
  have t: "poll_fd.truncate (next_sid h) = \<lparr>pf_fd = pf_fd h, pf_sid = pf_sid h + 1, pf_events = pf_events h, pf_slot = pf_slot h\<rparr>"
    by (simp add: poll_fd.defs next_sid_def)
  have "(\<forall>ref. ep_entry ?ix ep' = Some ref \<longrightarrow> pf_sid ref = pf_sid h') \<and> pf_events h' = pf_events h \<and> pf_slot h' = pf_slot h \<and> ph_batch h' = ph_batch h \<and>
     (case ep_entry ?ix ep' of None \<Rightarrow> 0 | Some ref \<Rightarrow> to_epoll_events (pf_events ref)) = to_epoll_events (pf_events h)"
  proof (cases "pf_empty ?ref")
    case True
    with c ne fd l1 t show ?thesis
      by (auto simp: ep_ctl_def Let_def ep1_def [symmetric] ep_add_def ep_entry_def pf_empty_def next_sid_def split: if_splits)
  next
    case False
    then have "pf_sid ?ref = pf_sid h" using sync e1 l1 by (simp add: ph_sync_def ep_entry_def)
    with False c ne fd l1 show ?thesis
      by (auto simp: ep_ctl_def Let_def ep1_def [symmetric] ep_mod_def ep_entry_def pf_empty_def split: if_splits sum.splits)
  qed
  then show ?thesis using c inv' fr fd' fd ne watch_entry [OF inv', of ?ix] by (auto simp: ph_sync_def ph_own_def pf_empty_def)
qed

lemma ph_sync_upd [simp]:
  "ph_sync (h\<lparr>pf_events := e\<rparr>) ep = ph_sync h ep" "ph_sync (h\<lparr>ph_batch := b\<rparr>) ep = ph_sync h ep" "ph_sync (h\<lparr>ph_pending := b\<rparr>) ep = ph_sync h ep"
  by (simp_all add: ph_sync_def ph_own_def pf_empty_def)

lemma ph_commit_sync:
  assumes "ph_sync h ep"
  shows "\<exists>h' ep'. ph_commit f h ep = Inr (h', ep') \<and> ph_sync h' ep' \<and> pf_fd h' = pf_fd h \<and> pf_events h' = pf_events h \<and>
    pf_slot h' = pf_slot h \<and> ph_batch h' = ph_batch h \<and> (f \<or> \<not> ph_batch h \<longrightarrow> watch (nat (pf_fd h)) ep' = to_epoll_events (pf_events h))"
  using ep_ctl_sync [OF assms] assms by (auto simp: ph_commit_def)

subsection \<open>What a socket is interested in\<close>

definition interest :: "bool \<Rightarrow> bool \<Rightarrow> u32" where
  "interest r w = (if r then EvRead else 0) OR (if w then EvWrite else 0)"

lemma interest_simps [simp]:
  "ev_plus (interest r w) EvRead = interest True w" "ev_plus (interest r w) EvWrite = interest r True"
  "ev_minus (interest r w) EvRead = interest False w" "ev_minus (interest r w) EvWrite = interest r False"
  "(interest r w AND EvRead \<noteq> 0) = r" "(interest r w AND EvWrite \<noteq> 0) = w"
  "(interest r w AND EvRead \<noteq> EvRead) = (\<not> r)" "(interest r w AND EvWrite \<noteq> EvWrite) = (\<not> w)"
  by (cases r; cases w; simp add: interest_def ev_plus_def ev_minus_def EvRead_def EvWrite_def)+

text \<open>The poller's part of the invariant: the handle is subscribed, with the events for reading and writing given.\<close>

definition polled :: "bool \<Rightarrow> bool \<Rightarrow> int \<Rightarrow> sock \<Rightarrow> bool" where
  "polled r w fd sk \<longleftrightarrow> ph_sync (sk_poll sk) (sk_ep sk) \<and> pf_fd (sk_poll sk) = fd \<and> pf_events (sk_poll sk) = interest r w \<and>
     (\<not> ph_batch (sk_poll sk) \<longrightarrow> watch (nat fd) (sk_ep sk) = to_epoll_events (interest r w)) \<and> sk_halt sk \<noteq> Some Terminate"

lemma poll_do_polled:
  assumes "polled r w fd sk"
  shows "polled True w fd (poll_do (PAdd EvRead) sk)" "polled r True fd (poll_do (PAdd EvWrite) sk)"
    "polled False w fd (poll_do (PDel EvRead) sk)" "polled r False fd (poll_do (PDel EvWrite) sk)" "polled r w fd (poll_do (PCommit f) sk)"
proof -
  note P = assms [unfolded polled_def]
  have slot: "pf_slot (sk_poll sk) \<noteq> None" using P by (simp add: ph_sync_def pf_empty_def)
  have C: "\<exists>h' ep'. ph_commit f (sk_poll sk\<lparr>pf_events := e\<rparr>) (sk_ep sk) = Inr (h', ep') \<and> ph_sync h' ep' \<and> pf_fd h' = fd \<and> pf_events h' = e \<and>
      (\<not> ph_batch h' \<longrightarrow> watch (nat fd) ep' = to_epoll_events e)" for e f
    using ph_commit_sync [of "sk_poll sk\<lparr>pf_events := e\<rparr>" "sk_ep sk" f] P by auto
  show "polled True w fd (poll_do (PAdd EvRead) sk)"
    using P slot C [of False "interest True w"] by (cases r) (auto simp: poll_do_def ph_add_def polled_def Let_def)
  show "polled r True fd (poll_do (PAdd EvWrite) sk)"
    using P slot C [of False "interest r True"] by (cases w) (auto simp: poll_do_def ph_add_def polled_def Let_def)
  show "polled False w fd (poll_do (PDel EvRead) sk)"
    using P slot C [of False "interest False w"] by (cases r) (auto simp: poll_do_def ph_del_def polled_def Let_def)
  show "polled r False fd (poll_do (PDel EvWrite) sk)"
    using P slot C [of False "interest r False"] by (cases w) (auto simp: poll_do_def ph_del_def polled_def Let_def)
  have "sk_poll sk\<lparr>pf_events := interest r w\<rparr> = sk_poll sk" using P by simp
  from C [of f "interest r w", unfolded this] show "polled r w fd (poll_do (PCommit f) sk)"
    using P by (auto simp: poll_do_def polled_def)
qed

lemma polled_frame [simp]:
  "polled r w fd (note_log l sk) = polled r w fd sk" "polled r w fd (sk\<lparr>sk_read := ro\<rparr>) = polled r w fd sk"
  "polled r w fd (sk\<lparr>sk_write := wo\<rparr>) = polled r w fd sk" "polled r w fd (sk\<lparr>sk_queue := q\<rparr>) = polled r w fd sk"
  "polled r w fd (sk\<lparr>sk_wbuf := b\<rparr>) = polled r w fd sk" "polled r w fd (sk\<lparr>sk_rx := x\<rparr>) = polled r w fd sk"
  "polled r w fd (sk\<lparr>sk_tx := x\<rparr>) = polled r w fd sk"
  by (simp_all add: polled_def note_log_def)

lemma halt_polled: "polled r w fd sk \<Longrightarrow> h \<noteq> Terminate \<Longrightarrow> polled r w fd (halt h sk)"
  by (auto simp: polled_def halt_def)

text \<open>An operation that starts reading or writing adds the interest in it.\<close>

lemma sock_op_polled:
  assumes "polled r w fd sk" "op \<noteq> AClose"
  shows "\<exists>r1 w1. polled (r \<or> r1) (w \<or> w1) fd (sock_op_run op sk) \<and>
    read_pending (sock_op_run op sk) = (read_pending sk \<or> r1) \<and> write_pending (sock_op_run op sk) = (write_pending sk \<or> w1)"
proof -
  note A = poll_do_polled halt_polled
  have rd: "\<exists>r1 w1. polled (r \<or> r1) (w \<or> w1) fd s' \<and> read_pending s' = (read_pending sk \<or> r1) \<and> write_pending s' = (write_pending sk \<or> w1)"
    if "s' = read_prepare slot buf (sk\<lparr>sk_read := (sk_read sk)\<lparr>ro_flags := f, ro_endpoint := e\<rparr>\<rparr>)" for s' slot buf f e
  proof (cases "read_pending sk")
    case True
    with that assms(1) show ?thesis by (intro exI [of _ False]) (auto simp: read_prepare_def read_pending_def write_pending_def)
  next
    case False
    with that assms(1) show ?thesis
      by (intro exI [of _ True] exI [of _ False]) (auto simp: read_prepare_def read_pending_def write_pending_def intro!: poll_do_polled)
  qed
  have wr: "\<exists>r1 w1. polled (r \<or> r1) (w \<or> w1) fd s' \<and> read_pending s' = (read_pending sk \<or> r1) \<and> write_pending s' = (write_pending sk \<or> w1)"
    if "s' = write_prepare slot data (sk\<lparr>sk_write := (sk_write sk)\<lparr>wo_flags := f, wo_endpoint := e\<rparr>\<rparr>)" for s' slot data f e
  proof (cases "wo_slot (sk_write sk) \<noteq> None \<or> sk_kind sk = Dgram \<and> (\<exists>n. data = CNull n)")
    case True
    with that assms(1) show ?thesis
      by (intro exI [of _ False]) (auto simp: write_prepare_def write_prepare1_def read_pending_def write_pending_def intro!: halt_polled
        split: const_buffer.splits)
  next
    case False
    with that assms(1) show ?thesis
      by (intro exI [of _ False] exI [of _ True]) (auto simp: write_prepare_def write_prepare1_def read_pending_def write_pending_def Let_def
        intro!: poll_do_polled split: const_buffer.splits)
  qed
  have wm: "\<exists>r1 w1. polled (r \<or> r1) (w \<or> w1) fd s' \<and> read_pending s' = (read_pending sk \<or> r1) \<and> write_pending s' = (write_pending sk \<or> w1)"
    if "s' = write_prepare_mut slot n mut (sk\<lparr>sk_write := (sk_write sk)\<lparr>wo_flags := f, wo_endpoint := e\<rparr>\<rparr>)" "sk_kind sk \<noteq> Dgram" for s' slot n mut f e
  proof (cases "wo_slot (sk_write sk) \<noteq> None")
    case True
    with that assms(1) show ?thesis by (intro exI [of _ False]) (auto simp: write_prepare_mut_def read_pending_def write_pending_def)
  next
    case False
    with that assms(1) show ?thesis
      by (intro exI [of _ False] exI [of _ True]) (auto simp: write_prepare_mut_def read_pending_def write_pending_def intro!: poll_do_polled)
  qed
  have same: "\<exists>r1 w1. polled (r \<or> r1) (w \<or> w1) fd s' \<and> read_pending s' = (read_pending sk \<or> r1) \<and> write_pending s' = (write_pending sk \<or> w1)"
    if "s' = halt Assertion sk \<or> s' = sk" for s'
    using that assms(1) by (intro exI [of _ False]) (auto simp: read_pending_def write_pending_def intro: halt_polled)
  show ?thesis
  proof (cases op)
    case (ARead buf slot) show ?thesis using rd [OF refl, of slot buf "ro_endpoint (sk_read sk)" 0] by (simp add: ARead async_read_def set_read_flags_def)
  next
    case (ARecv buf f slot) show ?thesis using rd [OF refl, of slot buf "ro_endpoint (sk_read sk)" f] by (simp add: ARecv async_recv_def set_read_flags_def)
  next
    case (ARecvFrom buf f e slot) show ?thesis
      using rd [OF refl, of slot buf "Some e" f] same [of "halt Assertion sk"]
      by (cases "read_pending sk") (simp_all add: ARecvFrom async_recvfrom_def set_read_flags_def set_read_endpoint_def)
  next
    case (AWrite data slot) show ?thesis using wr [OF refl, of slot data "wo_endpoint (sk_write sk)" 0] by (simp add: AWrite async_write_def set_write_flags_def)
  next
    case (AWriteMut n mut slot) show ?thesis
    proof (cases "sk_kind sk = Dgram")
      case True then show ?thesis using same [of sk] by (simp add: AWriteMut)
    next
      case False then show ?thesis using wm [OF refl, of slot n mut "wo_endpoint (sk_write sk)" 0] by (simp add: AWriteMut async_write_mut_def set_write_flags_def)
    qed
  next
    case (ASendTo data e slot) show ?thesis
    proof (cases "sk_kind sk \<noteq> Dgram \<and> write_pending sk")
      case True then show ?thesis using same [of "halt Assertion sk"] by (simp add: ASendTo async_sendto_def)
    next
      case False then show ?thesis using wr [OF refl, of slot data "Some e" "wo_flags (sk_write sk)"] by (simp add: ASendTo async_sendto_def set_write_endpoint_def if_not_P [OF False] del: de_Morgan_conj)
    qed
  next
    case (ASendToMut n mut f e slot) show ?thesis
    proof (cases "sk_kind sk = Dgram \<or> write_pending sk")
      case True then show ?thesis using same [of sk] same [of "halt Assertion sk"] by (auto simp: ASendToMut async_sendto_mut_def)
    next
      case False then show ?thesis
        using wm [OF refl, of slot n mut "Some e" f] by (simp add: ASendToMut async_sendto_mut_def set_write_flags_def set_write_endpoint_def)
    qed
  qed (use assms in simp)
qed

subsection \<open>The interest follows the operations\<close>

text \<open>The interests are those of the pending operations, and possibly one more in each direction.\<close>

definition tracked :: "bool \<Rightarrow> bool \<Rightarrow> int \<Rightarrow> sock \<Rightarrow> bool" where
  "tracked rx wx fd sk \<longleftrightarrow> polled (read_pending sk \<or> rx) (write_pending sk \<or> wx) fd sk"

text \<open>Reading is tracked, writing may have any interest.\<close>

definition read_tracked :: "int \<Rightarrow> sock \<Rightarrow> bool" where
  "read_tracked fd sk \<longleftrightarrow> (\<exists>w. polled (read_pending sk) w fd sk)"

definition never_closes :: "sock_handler \<Rightarrow> bool" where
  "never_closes cb \<longleftrightarrow> (\<forall>slot r sk. AClose \<notin> set (cb slot r sk))"

lemma sock_op_tracked:
  assumes "tracked rx wx fd sk" "op \<noteq> AClose"
  shows "tracked rx wx fd (sock_op_run op sk)"
proof -
  let ?s = "sock_op_run op sk"
  obtain r1 w1 where s: "polled ((read_pending sk \<or> rx) \<or> r1) ((write_pending sk \<or> wx) \<or> w1) fd ?s"
    and p: "read_pending ?s = (read_pending sk \<or> r1)" "write_pending ?s = (write_pending sk \<or> w1)"
    using sock_op_polled [OF assms(1) [unfolded tracked_def] assms(2)] by blast
  have "((read_pending sk \<or> rx) \<or> r1) = (read_pending ?s \<or> rx)" "((write_pending sk \<or> wx) \<or> w1) = (write_pending ?s \<or> wx)"
    unfolding p by blast+
  with s show ?thesis unfolding tracked_def by (simp only:)
qed

lemma sock_op_read_tracked:
  assumes "read_tracked fd sk" "op \<noteq> AClose"
  shows "read_tracked fd (sock_op_run op sk)"
proof -
  obtain w where w: "polled (read_pending sk) w fd sk" using assms(1) by (auto simp: read_tracked_def)
  obtain r1 w1 where s: "polled (read_pending sk \<or> r1) (w \<or> w1) fd (sock_op_run op sk)"
    and p: "read_pending (sock_op_run op sk) = (read_pending sk \<or> r1)"
    using sock_op_polled [OF w assms(2)] by blast
  show ?thesis unfolding read_tracked_def p using s by blast
qed

lemma tracked_read: "tracked False wx fd sk \<Longrightarrow> read_tracked fd sk"
  by (auto simp: tracked_def read_tracked_def)

lemma run_handler_tracked:
  assumes "never_closes cb"
  shows "tracked rx wx fd sk \<Longrightarrow> tracked rx wx fd (run_handler cb slot r sk)" "read_tracked fd sk \<Longrightarrow> read_tracked fd (run_handler cb slot r sk)"
proof -
  have c: "op \<noteq> AClose" if "op \<in> set (cb slot r sk)" for op using that assms unfolding never_closes_def by metis
  show "tracked rx wx fd sk \<Longrightarrow> tracked rx wx fd (run_handler cb slot r sk)"
    by (rule run_handler_inv [where P = "tracked rx wx fd"]) (use c in \<open>auto intro: sock_op_tracked\<close>)
  show "read_tracked fd sk \<Longrightarrow> read_tracked fd (run_handler cb slot r sk)"
    by (rule run_handler_inv [where P = "read_tracked fd"]) (use c in \<open>auto intro: sock_op_read_tracked\<close>)
qed

lemma pending_frame [simp]:
  "read_pending (note_log l sk) = read_pending sk" "write_pending (note_log l sk) = write_pending sk"
  "read_pending (poll_do op sk) = read_pending sk" "write_pending (poll_do op sk) = write_pending sk"
  "read_pending (halt h sk) = read_pending sk" "write_pending (halt h sk) = write_pending sk"
  "read_pending (sk\<lparr>sk_rx := x\<rparr>) = read_pending sk" "write_pending (sk\<lparr>sk_rx := x\<rparr>) = write_pending sk"
  "read_pending (sk\<lparr>sk_tx := x\<rparr>) = read_pending sk" "write_pending (sk\<lparr>sk_tx := x\<rparr>) = write_pending sk"
  "read_pending (sk\<lparr>sk_write := wo\<rparr>) = read_pending sk" "read_pending (sk\<lparr>sk_queue := q\<rparr>) = read_pending sk"
  "read_pending (sk\<lparr>sk_wbuf := b\<rparr>) = read_pending sk" "write_pending (sk\<lparr>sk_read := ro\<rparr>) = write_pending sk"
  "write_pending (sk\<lparr>sk_wbuf := b\<rparr>) = write_pending sk"
  by (simp_all add: read_pending_def write_pending_def)

text \<open>A program that has not stopped satisfies the invariant.\<close>

definition sock_tracked :: "int \<Rightarrow> sock \<Rightarrow> bool" where
  "sock_tracked fd sk \<longleftrightarrow> read_tracked fd sk \<and> (sk_halt sk = None \<longrightarrow> tracked False False fd sk)"

lemma sock_trackedI: "tracked False False fd sk \<Longrightarrow> sock_tracked fd sk"
  by (simp add: sock_tracked_def tracked_read)

lemma read_complete_tracked:
  assumes cb: "never_closes cb" and t: "tracked False False fd sk" and p: "read_pending sk"
  shows "tracked False False fd (snd (read_complete cb sk))"
proof -
  have e: "tracked True False fd (sk\<lparr>sk_read := ro_reset (sk_read sk), sk_rx := rx\<rparr>)" for rx
    using t p by (simp add: tracked_def)
  have h: "tracked False False fd (halt Assertion sk)" using t by (simp add: tracked_def halt_polled)
  have b: "tracked False False fd (poll_do (PAdd EvRead) (note_log l (sk\<lparr>sk_rx := rx\<rparr>)))" for l rx
    using t p poll_do_polled(1) [of True "write_pending sk" fd "note_log l (sk\<lparr>sk_rx := rx\<rparr>)"] by (simp add: tracked_def)
  have d: "tracked False False fd (if read_pending s then s else poll_do (PDel EvRead) s)"
    if "s = run_handler cb slot r (note_log l1 ((note_log l (sk\<lparr>sk_rx := rx\<rparr>))\<lparr>sk_read := ro_reset (sk_read sk)\<rparr>))" for s slot r l l1 rx
  proof -
    have "tracked True False fd s" unfolding that
      by (rule run_handler_tracked(1) [OF cb]) (use e [of rx] in \<open>simp add: tracked_def\<close>)
    then show ?thesis using poll_do_polled(3) by (auto simp: tracked_def)
  qed
  show ?thesis using h b d [OF refl] by (simp add: read_complete_def Let_def split: prod.splits)
qed

lemma write_complete1_tracked:
  assumes cb: "never_closes cb" and t: "tracked False False fd sk" and p: "wo_slot (sk_write sk) \<noteq> None" and k: "sk_kind sk \<noteq> Dgram"
  shows "tracked False False fd (snd (write_complete1 cb sk))"
proof -
  obtain bs op where wb: "wo_bytes (sk_write sk) = (bs, op)" by fastforce
  then have op: "wo_slot op \<noteq> None" using p by (auto simp: wo_bytes_def Let_def split: const_buffer.splits prod.splits)
  have w: "write_pending sk" using p k by (simp add: write_pending_def)
  have e: "tracked False True fd (sk\<lparr>sk_write := wo, sk_tx := tx\<rparr>)" for wo tx
    using t w by (simp add: tracked_def read_pending_def)
  have h: "tracked False False fd (halt Assertion sk)" using t by (simp add: tracked_def halt_polled)
  have b: "tracked False False fd (poll_do (PAdd EvWrite) (note_log l (sk\<lparr>sk_tx := tx, sk_write := op\<rparr>)))" for l tx
    using t w k op poll_do_polled(2) [of "read_pending sk" True fd "note_log l (sk\<lparr>sk_tx := tx, sk_write := op\<rparr>)"]
    by (simp add: tracked_def write_pending_def)
  have d: "tracked False False fd (if wo_slot (sk_write s) \<noteq> None then s else poll_do (PDel EvWrite) s)"
    if "s = run_handler cb slot r (note_log l1 ((note_log l (sk\<lparr>sk_tx := tx, sk_write := op\<rparr>))\<lparr>sk_write := wo_reset op\<rparr>))" for s slot r l l1 tx
  proof -
    have "tracked False True fd s" unfolding that
      by (rule run_handler_tracked(1) [OF cb]) (use e [of tx "wo_reset op"] in \<open>simp add: tracked_def\<close>)
    moreover have "sk_kind s = sk_kind sk" unfolding that by simp
    ultimately show ?thesis using poll_do_polled(4) k by (auto simp: tracked_def write_pending_def)
  qed
  obtain r tx where "next_result (sk_tx sk) = (r, tx)" by fastforce
  then show ?thesis using h b d [OF refl] wb by (simp add: write_complete1_def Let_def)
qed

text \<open>
  In the loop of the queue the write interest is lost after every message and comes back only when the kernel refuses one; when the
  loop ends it is there exactly if messages are left.
\<close>

definition queue_tracked :: "int \<Rightarrow> sock \<Rightarrow> bool" where
  "queue_tracked fd sk \<longleftrightarrow> sk_kind sk = Dgram \<and> (\<exists>w. polled (read_pending sk) w fd sk \<and> (sk_queue sk = [] \<longrightarrow> \<not> w))"

lemma queue_turn_tracked:
  assumes cb: "never_closes cb" and t: "queue_tracked fd sk" and turn: "queue_turn cb sk = (b, sk')"
  shows "queue_tracked fd sk' \<and> (b \<noteq> None \<longrightarrow> sock_tracked fd sk')"
proof (cases "sk_queue sk")
  case Nil
  with t turn show ?thesis
    by (auto simp: queue_turn_def queue_tracked_def sock_tracked_def tracked_def read_tracked_def write_pending_def)
next
  case (Cons op ops)
  obtain w where k: "sk_kind sk = Dgram" and w: "polled (read_pending sk) w fd sk" using t by (auto simp: queue_tracked_def)
  define bytes where "bytes = take (cb_size (wo_data op)) (drop (bf_rpos (sk_wbuf sk)) (bf_buf (sk_wbuf sk)))"
  let ?op1 = "op\<lparr>wo_data := CMem bytes\<rparr>"
  obtain r tx where nr: "next_result (sk_tx sk) = (r, tx)" by fastforce
  let ?sk1 = "note_log (SysSend bytes (wo_flags op) (wo_endpoint op) r) (sk\<lparr>sk_tx := tx, sk_queue := ?op1 # ops\<rparr>)"
  note T = turn [unfolded queue_turn_def Cons list.case Let_def bytes_def [symmetric] nr prod.case]
  consider "cb_size (wo_data op) = 0 \<or> wo_endpoint op = None" "b = Some False" "sk' = halt Assertion (sk\<lparr>sk_queue := ?op1 # ops\<rparr>)"
    | "would_block r" "b = Some False" "sk' = poll_do (PAdd EvWrite) ?sk1"
    | s where "b = None" "s = poll_do (PDel EvWrite) (run_handler cb (the (wo_slot op)) r (note_log (WDone (the (wo_slot op)) r)
         (?sk1\<lparr>sk_queue := wo_reset ?op1 # ops\<rparr>)))" "sk' = s\<lparr>sk_wbuf := bf_consume (cb_size (wo_data op)) (sk_wbuf s), sk_queue := tl (sk_queue s)\<rparr>"
    using T by (auto split: if_splits)
  then show ?thesis
  proof cases
    case 1
    have "polled (read_pending sk) w fd (halt Assertion (sk\<lparr>sk_queue := ?op1 # ops\<rparr>))" using w by (simp add: halt_polled)
    with 1 k show ?thesis by (auto simp: queue_tracked_def sock_tracked_def read_tracked_def)
  next
    case 2
    have "polled (read_pending sk) True fd sk'" unfolding 2 by (rule poll_do_polled(2)) (use w in simp)
    with 2 k show ?thesis by (auto simp: queue_tracked_def sock_tracked_def tracked_def read_tracked_def write_pending_def)
  next
    case (3 s)
    let ?h = "run_handler cb (the (wo_slot op)) r (note_log (WDone (the (wo_slot op)) r) (?sk1\<lparr>sk_queue := wo_reset ?op1 # ops\<rparr>))"
    have "read_tracked fd ?h" by (rule run_handler_tracked(2) [OF cb]) (use w in \<open>auto simp: read_tracked_def\<close>)
    then have "polled (read_pending s) False fd s" unfolding 3 using poll_do_polled(4) by (auto simp: read_tracked_def)
    moreover have "sk_kind s = Dgram" using k by (simp add: 3)
    ultimately show ?thesis unfolding 3 by (auto simp: queue_tracked_def)
  qed
qed

lemma queue_complete_tracked:
  assumes cb: "never_closes cb"
  shows "queue_tracked fd sk \<Longrightarrow> sock_tracked fd (snd (queue_complete cb sk)) \<and> sk_kind (snd (queue_complete cb sk)) = Dgram"
  using cb
proof (induction cb sk rule: queue_complete.induct)
  case (1 cb sk)
  obtain b sk1 where t: "queue_turn cb sk = (b, sk1)" by fastforce
  note Q = queue_turn_tracked [OF 1(3) 1(2) t]
  have halted: "sock_tracked fd sk1" if "sk_halt sk1 \<noteq> None" using Q that by (auto simp: queue_tracked_def sock_tracked_def read_tracked_def)
  show ?case
    using 1(1) [OF t [symmetric]] 1(3) Q halted t
    by (cases b; cases "sk_halt sk1 = None") (auto simp: queue_complete.simps [of cb sk] queue_tracked_def)
qed

lemma write_complete_tracked:
  assumes cb: "never_closes cb" and t: "tracked False False fd sk" and p: "write_pending sk"
  shows "sock_tracked fd (snd (write_complete cb sk))"
proof (cases "sk_kind sk = Dgram")
  case True
  have "queue_tracked fd sk" using t p True by (auto simp: queue_tracked_def tracked_def write_pending_def)
  with queue_complete_tracked [OF cb this] True show ?thesis by (simp add: write_complete_def)
next
  case False
  with write_complete1_tracked [OF cb t _ False] p show ?thesis by (simp add: write_complete_def write_pending_def sock_trackedI)
qed

lemma read_loop_tracked:
  assumes "never_closes cb" "sock_tracked fd sk"
  shows "sock_tracked fd (snd (snd (read_loop cb again events sk)))"
  using assms
proof (induction cb again events sk rule: read_loop.induct)
  case (1 cb again events sk)
  obtain b sk1 where t: "read_complete cb sk = (b, sk1)" by fastforce
  have "sock_tracked fd sk1" if "sk_halt sk = None" "read_pending sk"
    using sock_trackedI [OF read_complete_tracked [OF 1(2) _ that(2), of fd]] 1(3) that t by (simp add: sock_tracked_def)
  then show ?case using 1 t by (cases b) (auto simp: read_loop.simps [of cb again events sk])
qed

lemma write_loop_tracked:
  assumes "never_closes cb" "sock_tracked fd sk"
  shows "sock_tracked fd (snd (snd (write_loop cb again events sk)))"
  using assms
proof (induction cb again events sk rule: write_loop.induct)
  case (1 cb again events sk)
  obtain b sk1 where t: "write_complete cb sk = (b, sk1)" by fastforce
  have "sock_tracked fd sk1" if "sk_halt sk = None" "write_pending sk"
    using write_complete_tracked [OF 1(2) _ that(2)] 1(3) that t by (auto simp: sock_tracked_def)
  then show ?case using 1 t by (cases b) (auto simp: write_loop.simps [of cb again events sk])
qed

text \<open>The forced commit at the end of an event brings the kernel up to date, whether the changes were batched or not.\<close>

lemma polled_commit:
  assumes "polled r w fd (sk\<lparr>sk_poll := (sk_poll sk)\<lparr>ph_batch := True\<rparr>\<rparr>)"
  shows "polled r w fd (poll_do (PCommit True) sk)"
proof -
  have "ph_sync (sk_poll sk) (sk_ep sk)" "pf_fd (sk_poll sk) = fd" "pf_events (sk_poll sk) = interest r w" "sk_halt sk \<noteq> Some Terminate"
    using assms by (auto simp: polled_def)
  with ph_commit_sync [OF this(1), of True] show ?thesis by (auto simp: poll_do_def polled_def)
qed

lemma polled_batch: "polled r w fd sk \<Longrightarrow> polled r w fd (sk\<lparr>sk_poll := (sk_poll sk)\<lparr>ph_batch := True\<rparr>\<rparr>)"
  by (auto simp: polled_def)

lemma batch_frame [simp]:
  "read_pending (sk\<lparr>sk_poll := h\<rparr>) = read_pending sk" "write_pending (sk\<lparr>sk_poll := h\<rparr>) = write_pending sk"
  by (simp_all add: read_pending_def write_pending_def)

lemma poll_do_halt: "sk_halt (poll_do op sk) = None \<Longrightarrow> sk_halt sk = None"
  by (auto simp: poll_do_def halt_def split: sum.splits if_splits prod.splits)

lemma on_io_event_tracked:
  assumes "never_closes cb" "sock_tracked fd sk"
  shows "sock_tracked fd (sock_on_io_event cb events sk)"
proof -
  let ?b = "\<lambda>sk. sk\<lparr>sk_poll := (sk_poll sk)\<lparr>ph_batch := True\<rparr>\<rparr>"
  let ?s = "io_rounds cb 64 events (?b sk)"
  have "sock_tracked fd (?b sk)" using assms(2) polled_batch [of _ _ fd sk] by (auto simp: sock_tracked_def tracked_def read_tracked_def)
  then have s: "sock_tracked fd ?s"
    by (rule io_rounds_inv [where P = "sock_tracked fd", rotated 2]) (rule read_loop_tracked write_loop_tracked, rule assms, assumption)+
  have c: "polled r w fd (poll_do (PCommit True) (?s\<lparr>sk_poll := (sk_poll ?s)\<lparr>ph_batch := old\<rparr>\<rparr>))" if "polled r w fd ?s" for r w old
    by (rule polled_commit) (use polled_batch [OF that] in simp)
  have h: "sk_halt ?s = None" if "sk_halt (poll_do (PCommit True) (?s\<lparr>sk_poll := (sk_poll ?s)\<lparr>ph_batch := old\<rparr>\<rparr>)) = None" for old
    using poll_do_halt [OF that] by simp
  show ?thesis
    using s c h unfolding sock_on_io_event_def set_batching_def ph_batching_def
    by (auto simp: sock_tracked_def tracked_def read_tracked_def)
qed

text \<open>Opening a socket on a descriptor the poller has no entry for.\<close>

lemma sock_open_tracked:
  assumes "ep_inv ep" "0 \<le> fd" "nat fd \<noteq> ep_tfd ep" "nat fd \<noteq> ep_notify ep" "ep_entry (nat fd) ep = None"
  shows "sock_tracked fd (sock_open fd io (sock_new kind ep rx tx))"
proof -
  let ?h = "\<lparr>pf_fd = fd, pf_sid = 0, pf_events = EvNone, pf_slot = Some io, ph_batch = False, ph_pending = False\<rparr>"
  have i: "interest False False = EvNone" by (simp add: interest_def EvNone_def)
  have sync: "ph_sync ?h ep" using assms by (simp add: ph_sync_def ph_own_def pf_empty_def)
  obtain h' ep' where c: "ph_commit False ?h ep = Inr (h', ep')" and h': "ph_sync h' ep'" "pf_fd h' = fd" "pf_events h' = EvNone"
    "watch (nat fd) ep' = to_epoll_events EvNone" using ph_commit_sync [OF sync, of False] by auto
  have "sock_open fd io (sock_new kind ep rx tx) = (sock_new kind ep rx tx)\<lparr>sk_fd := fd, sk_io_slot := Some io, sk_poll := h', sk_ep := ep'\<rparr>"
    using c by (simp add: sock_open_def set_io_slot_def poll_do_def ph_reset_def ph_mod_def ph_new_def pf_reset_def sock_new_def EvNone_def Let_def)
  then have "tracked False False fd (sock_open fd io (sock_new kind ep rx tx))"
    using h' i by (simp add: tracked_def polled_def read_pending_def write_pending_def sock_new_def ro_new_def wo_new_def)
  then show ?thesis by (rule sock_trackedI)
qed

text \<open>Batching is on only within an event.\<close>

lemma poll_do_batch [simp]: "ph_batch (sk_poll (poll_do op sk)) = ph_batch (sk_poll sk)"
proof -
  have "ep_ctl h ep = Inr (b, h', ep') \<Longrightarrow> ph_batch h' = ph_batch h" for h ep b h' ep'
    by (auto simp: ep_ctl_def Let_def next_sid_def split: if_splits sum.splits)
  then have c: "ph_commit f h ep = Inr (h', ep') \<Longrightarrow> ph_batch h' = ph_batch h" for f h ep h' ep'
    by (fastforce simp: ph_commit_def split: if_splits sum.splits)
  have "ph_run op h ep = Inr (h', ep') \<Longrightarrow> ph_batch h' = ph_batch h" for h ep h' ep'
    by (cases op)
      (auto simp: ph_reset_def ph_del_def ph_del_slot_def ph_add_def ph_add_slot_def ph_mod_def pf_reset_def Let_def dest!: c split: if_splits sum.splits)
  then show ?thesis by (auto simp: poll_do_def split: sum.splits)
qed

lemma sock_op_batch [simp]: "ph_batch (sk_poll (sock_op_run op sk)) = ph_batch (sk_poll sk)"
  by (cases op) (auto simp: async_defs sock_close_def Let_def split: prod.splits bool.splits const_buffer.splits)

lemma on_io_event_batch [simp]: "ph_batch (sk_poll (sock_on_io_event cb events sk)) = ph_batch (sk_poll sk)"
  by (simp add: sock_on_io_event_def set_batching_def ph_batching_def)

lemma sock_op_halt: "sk_halt (sock_op_run op sk) = None \<Longrightarrow> sk_halt sk = None"
  by (cases op) (auto simp: async_defs sock_close_def Let_def split: prod.splits bool.splits const_buffer.splits if_splits dest!: poll_do_halt)

lemma socket_tracked:
  assumes "ep_inv ep" "0 \<le> fd" "nat fd \<noteq> ep_tfd ep" "nat fd \<noteq> ep_notify ep" "ep_entry (nat fd) ep = None"
    and "never_closes cb" "Client AClose \<notin> set steps"
    and "sk = sock_run cb steps (sock_open fd io (sock_new kind ep rx tx))"
  shows "sock_tracked fd sk \<and> \<not> ph_batch (sk_poll sk)"
proof -
  let ?P = "\<lambda>s. sock_tracked fd s \<and> \<not> ph_batch (sk_poll s)"
  show "?P sk" unfolding assms(8)
  proof (rule sock_run_inv [where P = ?P])
    show "?P (sock_op_run op s)" if "Client op \<in> set steps" "?P s" for op s
    proof -
      have "op \<noteq> AClose" using that(1) assms(7) by auto
      then show ?thesis using that(2) sock_op_tracked sock_op_read_tracked sock_op_halt [of op s] by (auto simp: sock_tracked_def)
    qed
    show "?P (sock_open fd io (sock_new kind ep rx tx))"
      using sock_open_tracked [OF assms(1-5)] by (simp add: sock_open_def set_io_slot_def sock_new_def ph_new_def Let_def)
  qed (use assms(6) on_io_event_tracked in auto)
qed

text \<open>
  C31: Let a socket of any kind be opened once, on a descriptor that the poller has no entry for, and not be closed, neither by a client nor in a handler. Then, after
  every operation and every event, whatever else the handlers start, the kernel is asked to watch the descriptor for reading exactly if a read is pending, and for
  writing exactly if a write is pending or messages are queued, unless an assertion has stopped the program; and no call of the poller ends it. Closing, opening again
  and the constructor with a reactor are left out; the next section shows what they do.
\<close>

theorem socket_interest:
  assumes "ep_inv ep" "0 \<le> fd" "nat fd \<noteq> ep_tfd ep" "nat fd \<noteq> ep_notify ep" "ep_entry (nat fd) ep = None"
    and "never_closes cb" "Client AClose \<notin> set steps"
    and "sk = sock_run cb steps (sock_open fd io (sock_new kind ep rx tx))"
  shows "sk_halt sk \<noteq> Some Terminate \<and>
    (sk_halt sk = None \<longrightarrow>
      watch (nat fd) (sk_ep sk) = to_epoll_events (interest (read_pending sk) (write_pending sk)))"
  using socket_tracked [OF assms] by (auto simp: sock_tracked_def read_tracked_def tracked_def polled_def)

theorem socket_interest_witness:
  "let sk = sock_run (\<lambda>_ _ _. []) [Client (ARead (0, 16) 1)] (sock_open 9 7 (sock_new Plain (ep_new 4 5 0) [] [])) in
   sk_halt sk = None \<and> watch 9 (sk_ep sk) = EpollIn"
proof -
  let ?sk = "sock_run (\<lambda>_ _ _. []) [Client (ARead (0, 16) 1)] (sock_open 9 7 (sock_new Plain (ep_new 4 5 0) [] []))"
  have e: "ep_entry 9 (ep_new 4 5 0) = None" "9 \<noteq> ep_tfd (ep_new 4 5 0)" "9 \<noteq> ep_notify (ep_new 4 5 0)"
    by (simp_all add: ep_entry_def ep_new_def)
  have c: "never_closes (\<lambda>_ _ _. [])" by (simp add: never_closes_def)
  have v: "sk_halt ?sk = None" "read_pending ?sk" "\<not> write_pending ?sk" by code_simp+
  have w: "to_epoll_events (interest True False) = EpollIn" by code_simp
  have "AClose \<noteq> ARead (0, 16) 1" by simp
  then show ?thesis
    using socket_interest [of "ep_new 4 5 0" 9 "\<lambda>_ _ _. []" "[Client (ARead (0, 16) 1)]" ?sk 7 Plain "[]" "[]", OF ep_new_inv _ _ _ _ c _ refl] e v w
    by (simp add: Let_def)
qed

subsection \<open>Closing, opening again and constructing\<close>

text \<open>
  A completion slot that closes its socket leaves the poller's entry for the descriptor behind: batching hides the handle's reset from
  the poller, and the commit at the end of the event no longer knows the descriptor. The next socket that gets the descriptor
  reads in vain: its subscription is taken for an old one and the kernel is never asked.
\<close>

theorem close_in_handler_blocks_descriptor:
  "let sk1 = sock_run (\<lambda>_ _ _. [AClose]) [Client (ARead (0, 16) 1), Event EvRead] (sock_open 9 7 (sock_new Plain (ep_new 4 5 0) [(5, 0)] []));
       sk2 = sock_run (\<lambda>_ _ _. []) [Client (ARead (64, 16) 2)] (sock_open 9 8 (sock_new Plain (sk_ep sk1) [] []))
   in sk_halt sk1 = None \<and> rdones (sk_log sk1) = [1] \<and> ep_kernel (sk_ep sk1) 9 = None \<and> ep_entry 9 (sk_ep sk1) \<noteq> None \<and>
     sk_halt sk2 = None \<and> read_pending sk2 \<and> watch 9 (sk_ep sk2) = 0"
  by code_simp

text \<open>A socket constructed with its reactor subscribes descriptor zero instead of its own.\<close>

lemma constructed_socket_polls_zero:
  "let sk = async_read (0, 16) 1 (sock_construct 9 7 (sock_new Plain (ep_new 4 5 0) [] []))
   in read_pending sk \<and> watch 9 (sk_ep sk) = 0 \<and> watch 0 (sk_ep sk) = EpollIn"
  by code_simp

text \<open>A socket with no slot on its handle.\<close>

definition deaf :: "nat \<Rightarrow> sock \<Rightarrow> bool" where
  "deaf fd sk \<longleftrightarrow> pf_slot (sk_poll sk) = None \<and> (0 \<le> pf_fd (sk_poll sk) \<longrightarrow> ep_entry (nat (pf_fd (sk_poll sk))) (sk_ep sk) = None) \<and>
     ep_kernel (sk_ep sk) fd = None"

lemma ep_ctl_deaf:
  "pf_slot h = None \<Longrightarrow> (0 \<le> pf_fd h \<longrightarrow> ep_entry (nat (pf_fd h)) ep = None) \<Longrightarrow> ep_ctl h ep = Inr (False, h, ep)"
  by (auto simp: ep_ctl_def pf_empty_def ep_entry_def Let_def split: if_splits)

lemma ph_commit_deaf:
  "pf_slot h = None \<Longrightarrow> (0 \<le> pf_fd h \<longrightarrow> ep_entry (nat (pf_fd h)) ep = None) \<Longrightarrow>
    \<exists>h'. ph_commit f h ep = Inr (h', ep) \<and> pf_slot h' = None \<and> pf_fd h' = pf_fd h"
  by (simp add: ph_commit_def ep_ctl_deaf)

lemma poll_do_deaf:
  assumes "deaf fd sk" "op = PReset \<or> op = PCommit False \<or> op = PAdd e"
  shows "deaf fd (poll_do op sk)"
proof -
  let ?h = "sk_poll sk"
  have P: "pf_slot ?h = None" "0 \<le> pf_fd ?h \<longrightarrow> ep_entry (nat (pf_fd ?h)) (sk_ep sk) = None" "ep_kernel (sk_ep sk) fd = None"
    using assms(1) by (auto simp: deaf_def)
  have C: "\<exists>h'. ph_commit False (?h\<lparr>pf_events := e\<rparr>) (sk_ep sk) = Inr (h', sk_ep sk) \<and> pf_slot h' = None \<and> pf_fd h' = pf_fd ?h" for e
    using ph_commit_deaf [of "?h\<lparr>pf_events := e\<rparr>" "sk_ep sk" False] P by simp
  have e: "?h\<lparr>pf_events := pf_events ?h\<rparr> = ?h" "?h\<lparr>pf_events := e, pf_slot := None\<rparr> = ?h\<lparr>pf_events := e\<rparr>" for e using P(1) by simp_all
  consider "op = PReset" | "op = PCommit False" | "op = PAdd e" using assms(2) by blast
  then show ?thesis
  proof cases
    case 1
    then show ?thesis using P C [of EvNone] by (auto simp: poll_do_def ph_reset_def deaf_def pf_reset_def e)
  next
    case 2
    then show ?thesis using P C [of "pf_events ?h", unfolded e] by (auto simp: poll_do_def deaf_def)
  next
    case 3
    then show ?thesis using P by (auto simp: poll_do_def ph_add_def deaf_def Let_def)
  qed
qed

lemma deaf_frame [simp]:
  "deaf fd (note_log l sk) = deaf fd sk" "deaf fd (sk\<lparr>sk_read := ro\<rparr>) = deaf fd sk" "deaf fd (sk\<lparr>sk_write := wo\<rparr>) = deaf fd sk"
  "deaf fd (sk\<lparr>sk_queue := q\<rparr>) = deaf fd sk" "deaf fd (sk\<lparr>sk_wbuf := b\<rparr>) = deaf fd sk" "deaf fd (halt h sk) = deaf fd sk"
  "deaf fd (sk\<lparr>sk_fd := i\<rparr>) = deaf fd sk"
  by (simp_all add: deaf_def note_log_def halt_def)

lemma sock_op_deaf: "deaf fd sk \<Longrightarrow> deaf fd (sock_op_run op sk)"
proof (cases op)
  case AClose
  assume d: "deaf fd sk"
  from poll_do_deaf [OF d, of PReset] have "deaf fd (poll_do PReset sk)" by simp
  then show ?thesis by (auto simp: AClose sock_close_def Let_def deaf_def ep_entry_def)
qed (auto simp: async_defs Let_def split: prod.splits bool.splits const_buffer.splits if_splits intro!: poll_do_deaf)

text \<open>
  A socket that was closed and is opened again never hears from the poller: \<open>open\<close> finds its slot unchanged and does not set it on the new
  handle, so no operation the client starts is subscribed for.
\<close>

theorem reopened_socket_deaf:
  assumes "ep_inv ep" "0 \<le> fd1" "0 \<le> fd2" "nat fd1 \<notin> {ep_tfd ep, ep_notify ep}" "nat fd2 \<notin> {ep_tfd ep, ep_notify ep}"
    and "ep_entry (nat fd1) ep = None" "ep_entry (nat fd2) ep = None"
  shows "watch (nat fd2) (sk_ep (fold sock_op_run ops (sock_open fd2 io (sock_close (sock_open fd1 io (sock_new kind ep rx tx)))))) = 0"
proof -
  let ?h = "\<lparr>pf_fd = fd1, pf_sid = 0, pf_events = EvNone, pf_slot = Some io, ph_batch = False, ph_pending = False\<rparr>"
  define ep1 where "ep1 = (if nat fd1 \<ge> length (ep_data ep) then ep\<lparr>ep_data := resize_data (nat fd1 + 1) (ep_data ep)\<rparr> else ep)"
  have e1: "ep_entry i ep1 = ep_entry i ep" for i by (auto simp: ep1_def ep_entry_def resize_data_simps)
  have l1: "nat fd1 < length (ep_data ep1)" by (simp add: ep1_def resize_data_simps)
  have k1: "ep_kernel ep1 = ep_kernel ep" by (simp add: ep1_def)
  have emp: "pf_empty (ep_data ep1 ! nat fd1)" using e1 [of "nat fd1"] l1 assms(6) by (simp add: ep_entry_def split: if_splits)
  have "ph_commit False ?h ep = Inr (?h, ep1)"
    using assms(2) emp by (simp add: ph_commit_def ep_ctl_def pf_empty_def Let_def ep1_def [symmetric] EvNone_def)
  then have o: "sock_open fd1 io (sock_new kind ep rx tx) = (sock_new kind ep rx tx)\<lparr>sk_fd := fd1, sk_io_slot := Some io, sk_poll := ?h, sk_ep := ep1\<rparr>"
    by (simp add: sock_open_def set_io_slot_def poll_do_def ph_reset_def ph_mod_def ph_new_def pf_reset_def sock_new_def EvNone_def Let_def)
  have c: "ep_ctl (?h\<lparr>pf_slot := None\<rparr>) ep1 = Inr (False, ?h\<lparr>pf_slot := None\<rparr>, ep1)"
    by (rule ep_ctl_deaf) (use e1 assms(6) in auto)
  let ?s = "sock_close (sock_open fd1 io (sock_new kind ep rx tx))"
  have s: "sk_poll ?s = ph_new (- 1)" "sk_ep ?s = ep1\<lparr>ep_kernel := (ep_kernel ep1)(nat fd1 := None)\<rparr>" "sk_io_slot ?s = Some io"
    unfolding o using c assms(2) by (simp_all add: sock_close_def Let_def poll_do_def ph_reset_def ph_commit_def pf_reset_def ph_new_def EvNone_def)
  define s2 where "s2 = ?s"
  note s = s [folded s2_def]
  have k2: "ep_kernel ep (nat fd2) = None" using assms(1,3,5,7) by (simp add: ep_inv_def ep_want_def ep_entry_def split: if_splits)
  have "deaf (nat fd2) (sock_open fd2 io s2)"
    using s k1 k2 e1 [of "nat fd2"] assms(3,7) emp l1
    by (auto simp: sock_open_def set_io_slot_def poll_do_def ph_reset_def ph_new_def pf_reset_def deaf_def Let_def EvNone_def ep_entry_def split: if_splits)
  then have "deaf (nat fd2) (fold sock_op_run ops (sock_open fd2 io s2))"
    by (induction ops rule: rev_induct) (auto simp: sock_op_deaf)
  then show ?thesis by (simp add: deaf_def watch_def s2_def)
qed

theorem reopened_socket_deaf_witness:
  "watch 9 (sk_ep (fold sock_op_run [ARead (0, 16) 1] (sock_open 9 7 (sock_close (sock_open 9 7 (sock_new Plain (ep_new 4 5 0) [] [])))))) = 0"
  using reopened_socket_deaf [of "ep_new 4 5 0" 9 9 "[ARead (0, 16) 1]" 7 Plain "[]" "[]", OF ep_new_inv]
  by (simp add: ep_entry_def ep_new_def del: fold.simps)

subsection \<open>Zero-copy writes and flags\<close>

text \<open>A zero-copy write sends the whole region its buffer has prepared, not the size it was asked for.\<close>

lemma zero_copy_sends_region:
  assumes "bf_inv (wo_buf op)" "wo_data op = CNull n" "\<And>mut k. wo_mut op = Some mut \<Longrightarrow> length (mut k) \<le> k"
  shows "length (fst (wo_bytes op)) = max n (bf_available (wo_buf op))"
proof -
  obtain avail b where p: "bf_prepare n (wo_buf op) = (avail, b)" by fastforce
  note B = bf_prepare_ok [OF assms(1) p]
  have a: "avail = max n (bf_available (wo_buf op))" using p by (auto simp: bf_prepare_def Let_def split: if_splits)
  have l: "length (bf_buf b) = bf_wpos b + avail" using B by simp
  show ?thesis
  proof (cases "wo_mut op")
    case None
    with assms(2) p B a l show ?thesis by (simp add: wo_bytes_def)
  next
    case (Some m)
    have "length (m avail) \<le> avail" using assms(3) Some by blast
    with Some assms(2) p B a l show ?thesis by (simp add: wo_bytes_def bf_fill_def Let_def)
  qed
qed

text \<open>A read that is refused because another is in progress clears the flags of that other read.\<close>

lemma refused_read_clears_flags:
  "read_pending sk \<Longrightarrow> ro_flags (sk_read (async_read buf slot sk)) = 0 \<and> sk_log (async_read buf slot sk) = sk_log sk @ [RThrow slot]"
  by (simp add: async_read_def read_prepare_def set_read_flags_def read_pending_def)

subsection \<open>The queue is emptied\<close>

lemma poll_do_halt_keeps: "polled r w fd (poll_do op sk) \<Longrightarrow> sk_halt (poll_do op sk) = sk_halt sk"
  by (auto simp: polled_def poll_do_def halt_def split: sum.splits if_splits)

text \<open>The calls of completion slots of writes, with their results.\<close>

fun wcalls :: "io_log list \<Rightarrow> (nat \<times> sys_result) list" where
  "wcalls [] = []"
| "wcalls (l # ls) = (case l of WDone s r \<Rightarrow> (s, r) # wcalls ls | _ \<Rightarrow> wcalls ls)"

lemma wcalls_append [simp]: "wcalls (ls @ ls') = wcalls ls @ wcalls ls'"
  by (induction ls) (auto split: io_log.splits)

lemma queue_drain:
  assumes quiet: "\<And>slot r s. cb slot r s = []"
    and "queue_tracked fd sk" "sk_halt sk = None" "\<forall>op \<in> set (sk_queue sk). cb_size (wo_data op) > 0 \<and> wo_endpoint op \<noteq> None"
    and "length (sk_queue sk) \<le> length (sk_tx sk)" "\<forall>r \<in> set (take (length (sk_queue sk)) (sk_tx sk)). \<not> would_block r"
  shows "\<exists>sk'. queue_complete cb sk = (True, sk') \<and> sk_queue sk' = [] \<and> sk_halt sk' = None \<and> sk_kind sk' = Dgram \<and>
    wcalls (sk_log sk') = wcalls (sk_log sk) @ zip (map (the \<circ> wo_slot) (sk_queue sk)) (sk_tx sk)"
  using assms(2-)
proof (induction "sk_queue sk" arbitrary: sk)
  case Nil
  then show ?case by (simp add: queue_complete.simps [of cb sk] queue_turn_def queue_tracked_def)
next
  case (Cons op ops)
  have cb: "never_closes cb" by (simp add: never_closes_def quiet)
  have rh: "run_handler cb slot r s = s" for slot r s by (simp add: run_handler_def quiet)
  obtain r tx where tx: "sk_tx sk = r # tx" using Cons.prems(4) Cons.hyps(2) by (cases "sk_tx sk") auto
  have nb: "\<not> would_block r" using Cons.prems(5) tx Cons.hyps(2) by (metis length_Cons list.set_intros(1) take_Suc_Cons)
  have op: "cb_size (wo_data op) > 0" "wo_endpoint op \<noteq> None" using Cons.prems(3) Cons.hyps(2) [symmetric] by auto
  obtain b sk1 where t: "queue_turn cb sk = (b, sk1)" by fastforce
  define bytes where "bytes = take (cb_size (wo_data op)) (drop (bf_rpos (sk_wbuf sk)) (bf_buf (sk_wbuf sk)))"
  let ?s = "note_log (WDone (the (wo_slot op)) r) ((note_log (SysSend bytes (wo_flags op) (wo_endpoint op) r)
    (sk\<lparr>sk_tx := tx, sk_queue := op\<lparr>wo_data := CMem bytes\<rparr> # ops\<rparr>))\<lparr>sk_queue := wo_reset (op\<lparr>wo_data := CMem bytes\<rparr>) # ops\<rparr>)"
  have t': "b = None" "sk1 = (poll_do (PDel EvWrite) ?s)\<lparr>sk_wbuf := bf_consume (cb_size (wo_data op)) (sk_wbuf sk), sk_queue := ops\<rparr>"
    using t Cons.hyps(2) [symmetric] op nb tx unfolding queue_turn_def by (auto simp: Let_def rh next_result_def bytes_def)
  obtain w where "polled (read_pending sk) w fd sk" using Cons.prems(1) by (auto simp: queue_tracked_def)
  then have "polled (read_pending sk) False fd (poll_do (PDel EvWrite) ?s)" by (intro poll_do_polled(4)) simp
  from poll_do_halt_keeps [OF this] have h1: "sk_halt sk1 = None" using Cons.prems(2) by (simp add: t'(2))
  have f1: "sk_queue sk1 = ops" "sk_tx sk1 = tx" by (simp_all add: t'(2))
  have l1: "wcalls (sk_log sk1) = wcalls (sk_log sk) @ [(the (wo_slot op), r)]" by (simp add: t'(2) note_log_def)
  have "queue_tracked fd sk1" using queue_turn_tracked [OF cb Cons.prems(1) t] by simp
  from Cons.hyps(1) [of sk1, OF f1(1) [symmetric] this h1] Cons.prems(3-5) Cons.hyps(2) [symmetric] tx f1
  obtain sk' where "queue_complete cb sk1 = (True, sk')" "sk_queue sk' = []" "sk_halt sk' = None" "sk_kind sk' = Dgram"
    "wcalls (sk_log sk') = wcalls (sk_log sk1) @ zip (map (the \<circ> wo_slot) ops) tx" by auto
  with t t'(1) h1 l1 tx Cons.hyps(2) [symmetric] show ?case by (simp add: queue_complete.simps [of cb sk])
qed

text \<open>
  C10: Queued datagrams get out. Let a datagram socket have been opened once, on a descriptor that the poller does not know, and never been closed, neither by a client
  nor in a handler; let the datagrams in its queue have data and a destination. When the descriptor becomes writable, the kernel takes as many messages as are queued
  and the handlers that are called do nothing to the socket, then one event sends all of them, in whatever way the queue was filled before: nothing is left, every
  message ever submitted has been sent, and the handler of each queued message is called once, in order, with the result of its own call of the kernel.
\<close>

theorem dgram_queue_drains:
  assumes "ep_inv ep" "0 \<le> fd" "nat fd \<noteq> ep_tfd ep" "nat fd \<noteq> ep_notify ep" "ep_entry (nat fd) ep = None"
    and "never_closes cb" "Client AClose \<notin> set steps"
    and sk: "sk = sock_run cb steps (sock_open fd io (sock_new Dgram ep rx tx))" "sk_halt sk = None"
    and quiet: "\<And>slot r s. cb' slot r s = []"
    and msgs: "\<forall>op \<in> set (sk_queue sk). cb_size (wo_data op) > 0 \<and> wo_endpoint op \<noteq> None"
    and takes: "length (sk_queue sk) \<le> length (sk_tx sk)" "\<forall>r \<in> set (take (length (sk_queue sk)) (sk_tx sk)). \<not> would_block r"
  shows "sk_queue (sock_on_io_event cb' EvWrite sk) = [] \<and>
    submitted (sk_log (sock_on_io_event cb' EvWrite sk)) = sent (sk_log (sock_on_io_event cb' EvWrite sk)) \<and>
    wcalls (sk_log (sock_on_io_event cb' EvWrite sk)) = wcalls (sk_log sk) @ zip (map (the \<circ> wo_slot) (sk_queue sk)) (sk_tx sk)"
proof -
  let ?b = "sk\<lparr>sk_poll := (sk_poll sk)\<lparr>ph_batch := True\<rparr>\<rparr>"
  have once: "sock_once Dgram sk" unfolding sk(1)
    by (rule sock_run_inv [where P = "sock_once Dgram"]) (rule sock_op_once on_io_event_once sock_new_once, assumption?)+
  have "sock_tracked fd sk"
    using socket_tracked [OF assms(1-7) sk(1)] by simp
  then have "tracked False False fd sk" using sk(2) by (simp add: sock_tracked_def)
  then have qt: "queue_tracked fd ?b"
    using once polled_batch [of "read_pending sk" "sk_queue sk \<noteq> []" fd sk] by (auto simp: queue_tracked_def tracked_def sock_once_def write_pending_def)
  obtain sk' where d: "queue_complete cb' ?b = (True, sk')" "sk_queue sk' = []" "sk_halt sk' = None" "sk_kind sk' = Dgram"
    "wcalls (sk_log sk') = wcalls (sk_log sk) @ zip (map (the \<circ> wo_slot) (sk_queue sk)) (sk_tx sk)"
    using queue_drain [of cb' fd ?b, OF quiet qt] sk(2) msgs takes by auto
  have bits: "EvWrite AND EvRead = 0" "EvWrite AND EvWrite \<noteq> 0" "EvWrite AND ev_plus EvRead EvWrite \<noteq> 0" by (code_simp+)
  have idle: "write_loop cb' a e s = (a, e, s)" if "sk_queue s = []" "sk_kind s = Dgram" for a e s
    using that by (simp add: write_loop.simps [of cb' a e s] write_pending_def)
  have empty: "sk_queue (io_rounds cb' 64 EvWrite ?b) = [] \<and>
      wcalls (sk_log (io_rounds cb' 64 EvWrite ?b)) = wcalls (sk_log sk) @ zip (map (the \<circ> wo_slot) (sk_queue sk)) (sk_tx sk)"
  proof (cases "sk_queue sk = []")
    case True
    have "io_rounds cb' (Suc n) EvWrite ?b = ?b" for n using True idle [of ?b False EvWrite] once bits by (simp add: sock_once_def)
    from this [of 63] show ?thesis using True by simp
  next
    case False
    have "write_loop cb' False EvWrite ?b = (True, EvWrite, sk')"
      using False once d idle [OF d(2,4)] sk(2) by (simp add: write_loop.simps [of cb' False EvWrite ?b] write_pending_def write_complete_def sock_once_def)
    moreover have "io_rounds cb' (Suc n) EvWrite sk' = sk'" for n using idle [OF d(2,4)] bits by simp
    ultimately have "io_rounds cb' (Suc (Suc n)) EvWrite ?b = sk'" for n using bits by simp
    from this [of 62] show ?thesis using d(2,5) by simp
  qed
  then have q: "sk_queue (sock_on_io_event cb' EvWrite sk) = []"
    and w: "wcalls (sk_log (sock_on_io_event cb' EvWrite sk)) = wcalls (sk_log sk) @ zip (map (the \<circ> wo_slot) (sk_queue sk)) (sk_tx sk)"
    by (simp_all add: sock_on_io_event_def set_batching_def ph_batching_def)
  have "queue_ok 0 0 (sock_on_io_event cb' EvWrite sk)" using on_io_event_once [OF once] by (simp add: sock_once_def)
  with q w show ?thesis by (simp add: queue_ok_def)
qed

theorem dgram_queue_drains_witness:
  "let sk = sock_run (\<lambda>_ _ _. []) [Client (ASendTo (CMem [1, 2]) 70 1), Client (ASendTo (CMem [3]) 71 2)]
      (sock_open 9 7 (sock_new Dgram (ep_new 4 5 0) [] [(2, 0), (1, 0)])) in
   length (sk_queue sk) = 2 \<and> sk_queue (sock_on_io_event (\<lambda>_ _ _. []) EvWrite sk) = [] \<and>
   submitted (sk_log (sock_on_io_event (\<lambda>_ _ _. []) EvWrite sk)) = sent (sk_log (sock_on_io_event (\<lambda>_ _ _. []) EvWrite sk)) \<and>
   wcalls (sk_log (sock_on_io_event (\<lambda>_ _ _. []) EvWrite sk)) = [(1, (2, 0)), (2, (1, 0))]"
proof -
  let ?steps = "[Client (ASendTo (CMem [1, 2]) 70 1), Client (ASendTo (CMem [3]) 71 2)]"
  let ?sk = "sock_run (\<lambda>_ _ _. []) ?steps (sock_open 9 7 (sock_new Dgram (ep_new 4 5 0) [] [(2, 0), (1, 0)]))"
  have e: "ep_entry (nat 9) (ep_new 4 5 0) = None" "nat 9 \<noteq> ep_tfd (ep_new 4 5 0)" "nat 9 \<noteq> ep_notify (ep_new 4 5 0)"
    by (simp_all add: ep_entry_def ep_new_def)
  have c: "never_closes (\<lambda>_ _ _. [])" by (simp add: never_closes_def)
  have v: "sk_halt ?sk = None" "map (cb_size \<circ> wo_data) (sk_queue ?sk) = [2, 1]" "map wo_endpoint (sk_queue ?sk) = [Some 70, Some 71]"
    "sk_tx ?sk = [(2, 0), (1, 0)]" "map wo_slot (sk_queue ?sk) = [Some 1, Some 2]" "wcalls (sk_log ?sk) = []" by code_simp+
  obtain a b where q: "sk_queue ?sk = [a, b]" "cb_size (wo_data a) = 2" "cb_size (wo_data b) = 1" "wo_endpoint a = Some 70" "wo_endpoint b = Some 71"
    "wo_slot a = Some 1" "wo_slot b = Some 2"
    using v(2,3,5) by (auto simp: map_eq_Cons_conv)
  have s: "Client AClose \<notin> set ?steps" by simp
  from dgram_queue_drains [OF ep_new_inv _ e(2,3,1) c s refl v(1), of "\<lambda>_ _ _. []"] q v(4,6) show ?thesis
    by (simp add: Let_def would_block_def)
qed

subsection \<open>Completion slots and the blocking read\<close>

text \<open>A completion slot is called once and empty afterwards; calling an empty one is undefined. The result is the slot called and what is left.\<close>

definition completion_invoke :: "nat option \<Rightarrow> (nat \<times> nat option) option" where
  "completion_invoke s = map_option (\<lambda>x. (x, None)) s"

text \<open>A pending slot is called when its counter reaches zero.\<close>

record pending_slot =
  ps_slot :: "nat option"
  ps_pending :: int

definition ps_inc :: "pending_slot \<Rightarrow> pending_slot" where
  "ps_inc p = p\<lparr>ps_pending := ps_pending p + 1\<rparr>"

definition ps_call :: "pending_slot \<Rightarrow> (nat option \<times> pending_slot) option" where
  "ps_call p = (let p1 = p\<lparr>ps_pending := ps_pending p - 1\<rparr> in
     if ps_pending p1 = 0 then map_option (\<lambda>(x, s). (Some x, p1\<lparr>ps_slot := s\<rparr>)) (completion_invoke (ps_slot p1)) else Some (None, p1))"

fun ps_calls :: "nat \<Rightarrow> pending_slot \<Rightarrow> (nat list \<times> pending_slot) option" where
  "ps_calls 0 p = Some ([], p)"
| "ps_calls (Suc n) p = (case ps_call p of None \<Rightarrow> None
     | Some (x, p1) \<Rightarrow> map_option (\<lambda>(xs, p2). ((case x of Some y \<Rightarrow> [y] | None \<Rightarrow> []) @ xs, p2)) (ps_calls n p1))"

lemma pending_slot_once:
  "ps_calls n \<lparr>ps_slot = Some s, ps_pending = int n + int k\<rparr> =
    Some (if k = 0 \<and> n \<noteq> 0 then ([s], \<lparr>ps_slot = None, ps_pending = 0\<rparr>) else ([], \<lparr>ps_slot = Some s, ps_pending = int k\<rparr>))"
  by (induction n) (auto simp: ps_call_def completion_invoke_def Let_def)

text \<open>
  \<open>read(sock, buffer, ec)\<close>: the loop reads until the buffer is full or an error occurs, which it stores in a variable of its own, not in the
  caller's. The arguments are the results of the calls to come, the size of the buffer, the number of the call and the total.
\<close>

partial_function (option) read_all :: "(nat \<Rightarrow> sys_result) \<Rightarrow> nat \<Rightarrow> nat \<Rightarrow> int \<Rightarrow> int option" where
  "read_all results sz i tot = (if sz = 0 then Some tot
     else let (n, ec) = results i in if ec \<noteq> 0 then Some tot else read_all results (sz - nat n) (i + 1) (tot + n))"

lemma read_all_total:
  assumes "\<And>i. snd (results i) = 0 \<Longrightarrow> fst (results i) > 0"
  shows "\<exists>k. read_all results sz i tot = Some k"
proof (induction sz arbitrary: i tot rule: less_induct)
  case (less sz)
  obtain n ec where r: "results i = (n, ec)" by fastforce
  show ?case
  proof (cases "sz = 0 \<or> ec \<noteq> 0")
    case True
    with r show ?thesis by (subst read_all.simps) auto
  next
    case False
    then have "sz - nat n < sz" using assms [of i] r by simp
    from less [OF this, of "i + 1" "tot + n"] False r show ?thesis by (subst read_all.simps) simp
  qed
qed

text \<open>At the end of the stream, where reads return zero, it never returns.\<close>

lemma read_all_eof:
  assumes "sz > 0" "\<And>i. results i = (0, 0)"
  shows "read_all results sz i tot = None"
proof -
  have "sz = 0" if ret: "read_all results sz i tot = Some k" for k
  proof -
    have "(\<forall>i. results i = (0, 0)) \<longrightarrow> sz = 0"
      by (rule read_all.raw_induct [where P = "\<lambda>results sz i tot k. (\<forall>i. results i = (0, 0)) \<longrightarrow> sz = 0", OF _ ret])
        (clarsimp split: if_splits, fastforce)
    with assms(2) show ?thesis by simp
  qed
  with assms(1) show ?thesis by (cases "read_all results sz i tot") auto
qed

end
