(* ===== verification/Jsons.thy ===== *)
theory Jsons
  imports Prelude
begin

text \<open>
  The mutable JSON documents of \<open>util/Json.hpp\<close>. A document owns its elements in a vector; addresses are indices into it, and the root is
  the document itself. Elements are linked: a container has a pointer to its first child, each child one to the next.

  \<open>None\<close> is undefined behaviour: a failed assertion, a null key, a member of the union that was not written, or the growth of the vector past its capacity,
  which moves the elements and leaves every pointer between them dangling. A left value is a \<open>JsonError\<close>. Strings are C strings: keys are
  kept as pointers to their characters. Numbers of 64 bits are words, also for doubles, whose text is a parameter.
\<close>

subsection \<open>Elements and documents\<close>

datatype element_type = ARRAY | OBJECT | INT64 | UINT64 | DOUBLE | STRING | BOOL | NULL_VALUE

datatype jvalue = VInt u64 | VDbl u64 | VBool bool | VStr string | VChild "nat option"

record jelem =
  je_type :: element_type
  je_val :: jvalue
  je_next :: "nat option"
  je_key :: "string option"
  je_size :: nat

datatype addr = Root | Node nat

record jdoc =
  jd_root :: jelem
  jd_elems :: "jelem list"
  jd_cap :: nat
  jd_owned :: bool

datatype json_error = ObjectExpected | ArrayExpected | TypeExpected element_type | KeyNotFound string

definition je_new :: "element_type \<Rightarrow> jelem" where
  "je_new t = \<lparr>je_type = t, je_val = VChild None, je_next = None, je_key = None, je_size = 0\<rparr>"

text \<open>The constructor of a document: \<open>jd_owned\<close> says that the root's pointer to its document is set.\<close>

definition jd_new :: "element_type \<Rightarrow> nat \<Rightarrow> jdoc" where
  "jd_new t capacity = \<lparr>jd_root = je_new t, jd_elems = [], jd_cap = capacity, jd_owned = True\<rparr>"

fun el :: "jdoc \<Rightarrow> addr \<Rightarrow> jelem" where
  "el d Root = jd_root d"
| "el d (Node i) = jd_elems d ! i"

fun jput_el :: "addr \<Rightarrow> jelem \<Rightarrow> jdoc \<Rightarrow> jdoc" where
  "jput_el Root e d = d\<lparr>jd_root := e\<rparr>"
| "jput_el (Node i) e d = d\<lparr>jd_elems := (jd_elems d)[i := e]\<rparr>"

fun valid :: "jdoc \<Rightarrow> addr \<Rightarrow> bool" where
  "valid d Root \<longleftrightarrow> True"
| "valid d (Node i) \<longleftrightarrow> i < length (jd_elems d)"

fun owned :: "jdoc \<Rightarrow> addr \<Rightarrow> bool" where
  "owned d Root \<longleftrightarrow> jd_owned d"
| "owned d (Node i) \<longleftrightarrow> True"

definition c_string :: "string \<Rightarrow> bool" where
  "c_string s \<longleftrightarrow> CHR 0x00 \<notin> set s"

definition child :: "jelem \<Rightarrow> nat option option" where
  "child e = (case je_val e of VChild p \<Rightarrow> Some p | _ \<Rightarrow> None)"

definition alloc_element :: "element_type \<Rightarrow> jdoc \<Rightarrow> (nat \<times> jdoc) option" where
  "alloc_element t d =
     (if length (jd_elems d) < jd_cap d \<or> jd_elems d = []
      then Some (length (jd_elems d), d\<lparr>jd_elems := jd_elems d @ [je_new t], jd_cap := max 1 (jd_cap d)\<rparr>)
      else None)"

text \<open>\<open>size\<close>, \<open>clear\<close> and the typed getters.\<close>

definition je_length :: "jelem \<Rightarrow> nat" where
  "je_length e = (if je_type e \<in> {ARRAY, OBJECT, STRING} then je_size e else 0)"

definition je_clear :: "jelem \<Rightarrow> jelem" where
  "je_clear e = e\<lparr>je_size := 0, je_val := VChild None\<rparr>"

definition get_string :: "jelem \<Rightarrow> (json_error + string) option" where
  "get_string e = (if je_type e \<noteq> STRING then Some (Inl (TypeExpected STRING))
     else case je_val e of VStr s \<Rightarrow> Some (Inr (take (je_size e) s)) | _ \<Rightarrow> None)"

definition get_int64 :: "jelem \<Rightarrow> (json_error + int) option" where
  "get_int64 e = (if je_type e \<noteq> INT64 then Some (Inl (TypeExpected INT64))
     else case je_val e of VInt n \<Rightarrow> Some (Inr (sint n)) | _ \<Rightarrow> None)"

definition get_uint64 :: "jelem \<Rightarrow> (json_error + nat) option" where
  "get_uint64 e = (if je_type e \<noteq> UINT64 then Some (Inl (TypeExpected UINT64))
     else case je_val e of VInt n \<Rightarrow> Some (Inr (unat n)) | _ \<Rightarrow> None)"

definition get_double :: "jelem \<Rightarrow> (json_error + u64) option" where
  "get_double e = (if je_type e \<noteq> DOUBLE then Some (Inl (TypeExpected DOUBLE))
     else case je_val e of VDbl x \<Rightarrow> Some (Inr x) | _ \<Rightarrow> None)"

text \<open>The result of \<open>get_bool\<close> is a \<open>double\<close>: one or zero, as the words of \<open>get_double\<close>.\<close>

definition bool_double :: "bool \<Rightarrow> u64" where
  "bool_double b = (if b then 0x3FF0000000000000 else 0)"

definition get_bool :: "jelem \<Rightarrow> (json_error + u64) option" where
  "get_bool e = (if je_type e \<noteq> BOOL then Some (Inl (TypeExpected BOOL))
     else case je_val e of VBool b \<Rightarrow> Some (Inr (bool_double b)) | _ \<Rightarrow> None)"

subsection \<open>Lookup\<close>

text \<open>The loop of \<open>at(key)\<close>: the child with the key, if there is one, and the last child that was passed.\<close>

partial_function (option) key_loop :: "jelem list \<Rightarrow> nat option \<Rightarrow> nat option \<Rightarrow> string \<Rightarrow> (nat option \<times> nat option) option" where
  "key_loop es e tail key = (case e of
     None \<Rightarrow> Some (None, tail)
   | Some i \<Rightarrow> if i \<ge> length es then None else
       (case je_key (es ! i) of
          None \<Rightarrow> None
        | Some k \<Rightarrow> if k = key then Some (Some i, tail) else key_loop es (je_next (es ! i)) (Some i) key))"

definition at_key :: "addr \<Rightarrow> string \<Rightarrow> jdoc \<Rightarrow> (json_error + addr \<times> jdoc) option" where
  "at_key a key d =
     (let e = el d a in
      if je_type e \<noteq> OBJECT \<and> je_type e \<noteq> NULL_VALUE then Some (Inl ObjectExpected)
      else
        let d1 = jput_el a (e\<lparr>je_type := OBJECT\<rparr>) d in
        Option.bind (child e) (\<lambda>p.
        Option.bind (key_loop (jd_elems d1) p p key) (\<lambda>(found, tail).
          (case found of
             Some i \<Rightarrow> Some (Inr (Node i, d1))
           | None \<Rightarrow>
             if \<not> owned d a \<or> \<not> c_string key then None
             else Option.bind (alloc_element NULL_VALUE d1) (\<lambda>(m, d2).
               let d3 = jput_el (Node m) ((el d2 (Node m))\<lparr>je_key := Some key\<rparr>) d2;
                   d4 = jput_el a ((el d3 a)\<lparr>je_size := je_size (el d3 a) + 1\<rparr>) d3;
                   d5 = (case tail of
                           Some t \<Rightarrow> jput_el (Node t) ((el d4 (Node t))\<lparr>je_next := Some m\<rparr>) d4
                         | None \<Rightarrow> jput_el a ((el d4 a)\<lparr>je_val := VChild (Some m)\<rparr>) d4)
               in Some (Inr (Node m, d5)))))))"

text \<open>The two loops of \<open>at(index)\<close>.\<close>

partial_function (option) index_loop :: "jelem list \<Rightarrow> nat option \<Rightarrow> nat \<Rightarrow> nat option \<Rightarrow> nat \<Rightarrow> (nat option \<times> nat \<times> nat option) option" where
  "index_loop es e i tail index = (case e of
     None \<Rightarrow> Some (None, i, tail)
   | Some n \<Rightarrow> if n \<ge> length es then None
       else if i = index then Some (Some n, i, tail) else index_loop es (je_next (es ! n)) (i + 1) (Some n) index)"

fun extend_loop :: "nat \<Rightarrow> addr \<Rightarrow> nat option \<Rightarrow> jdoc \<Rightarrow> (nat option \<times> jdoc) option" where
  "extend_loop 0 a tail d = Some (tail, d)"
| "extend_loop (Suc n) a tail d =
     (if \<not> owned d a then None
      else Option.bind (alloc_element NULL_VALUE d) (\<lambda>(m, d1).
        let d2 = jput_el a ((el d1 a)\<lparr>je_size := je_size (el d1 a) + 1\<rparr>) d1;
            d3 = (case tail of
                    Some t \<Rightarrow> jput_el (Node t) ((el d2 (Node t))\<lparr>je_next := Some m\<rparr>) d2
                  | None \<Rightarrow> jput_el a ((el d2 a)\<lparr>je_val := VChild (Some m)\<rparr>) d2)
        in extend_loop n a (Some m) d3))"

definition at_index :: "addr \<Rightarrow> nat \<Rightarrow> jdoc \<Rightarrow> (json_error + addr \<times> jdoc) option" where
  "at_index a index d =
     (let e = el d a in
      if je_type e \<noteq> ARRAY \<and> je_type e \<noteq> NULL_VALUE then Some (Inl ArrayExpected)
      else
        let d1 = jput_el a (e\<lparr>je_type := ARRAY\<rparr>) d in
        Option.bind (child e) (\<lambda>p.
        Option.bind (index_loop (jd_elems d1) p 0 p index) (\<lambda>(found, i, tail).
          (case found of
             Some n \<Rightarrow> Some (Inr (Node n, d1))
           | None \<Rightarrow> Option.bind (extend_loop (index + 1 - i) a tail d1) (\<lambda>(t, d2).
               (case t of Some m \<Rightarrow> Some (Inr (Node m, d2)) | None \<Rightarrow> None))))))"

text \<open>\<open>find\<close> does not add anything.\<close>

definition find_key :: "jelem \<Rightarrow> string \<Rightarrow> jdoc \<Rightarrow> (json_error + nat option) option" where
  "find_key e key d = (if je_type e \<noteq> OBJECT then Some (Inl (TypeExpected OBJECT))
     else Option.bind (child e) (\<lambda>p. Option.bind (key_loop (jd_elems d) p p key) (\<lambda>(found, _). Some (Inr found))))"

definition find_index :: "jelem \<Rightarrow> nat \<Rightarrow> jdoc \<Rightarrow> (json_error + nat option) option" where
  "find_index e index d = (if je_type e \<noteq> ARRAY then Some (Inl (TypeExpected ARRAY))
     else if index \<ge> je_length e then Some (Inr None)
     else Option.bind (child e) (\<lambda>p. Option.bind (index_loop (jd_elems d) p 0 p index) (\<lambda>(found, _). Some (Inr found))))"

subsection \<open>Assignment and copies\<close>

datatype json = JNull | JBool bool | JInt u64 | JUInt u64 | JDbl u64 | JStr string | JArr "json list" | JObj "(string \<times> json) list"

text \<open>Assigning a new element with a scalar: type, size and value are taken over, the string is interned.\<close>

fun scalar :: "json \<Rightarrow> (element_type \<times> nat \<times> jvalue) option" where
  "scalar JNull = Some (NULL_VALUE, 0, VChild None)"
| "scalar (JBool b) = Some (BOOL, 0, VBool b)"
| "scalar (JInt n) = Some (INT64, 0, VInt n)"
| "scalar (JUInt n) = Some (UINT64, 0, VInt n)"
| "scalar (JDbl x) = Some (DOUBLE, 0, VDbl x)"
| "scalar (JStr s) = Some (STRING, length s, VStr s)"
| "scalar _ = None"

definition assign_scalar :: "addr \<Rightarrow> json \<Rightarrow> jdoc \<Rightarrow> jdoc option" where
  "assign_scalar a v d = (case scalar v of
     None \<Rightarrow> None
   | Some (t, n, x) \<Rightarrow>
     if (case v of JStr s \<Rightarrow> owned d a \<and> \<not> c_string s | _ \<Rightarrow> False) then None
     else Some (jput_el a ((el d a)\<lparr>je_type := t, je_size := n, je_val := x\<rparr>) d))"

text \<open>
  \<open>copy\<close> from any source: the tree is what iterating over the source gives, and \<open>gb\<close> is the element that is constructed from what \<open>get_bool\<close>
  of the source returns. A parsed document returns a bool; a mutable element returns a double.
\<close>

definition mutable_bool :: "bool \<Rightarrow> json" where
  "mutable_bool b = JDbl (bool_double b)"

function jcopy :: "(bool \<Rightarrow> json) \<Rightarrow> json \<Rightarrow> addr \<Rightarrow> jdoc \<Rightarrow> (json_error + jdoc) option"
  and jcopy_obj :: "(bool \<Rightarrow> json) \<Rightarrow> (string \<times> json) list \<Rightarrow> addr \<Rightarrow> jdoc \<Rightarrow> (json_error + jdoc) option"
  and jcopy_arr :: "(bool \<Rightarrow> json) \<Rightarrow> json list \<Rightarrow> nat \<Rightarrow> addr \<Rightarrow> jdoc \<Rightarrow> (json_error + jdoc) option" where
  "jcopy gb v a d = (case v of
     JObj kvs \<Rightarrow> jcopy_obj gb kvs a d
   | JArr vs \<Rightarrow> jcopy_arr gb vs 0 a d
   | JBool b \<Rightarrow> map_option Inr (assign_scalar a (gb b) d)
   | _ \<Rightarrow> map_option Inr (assign_scalar a v d))"
| "jcopy_obj gb [] a d = Some (Inr d)"
| "jcopy_obj gb ((k, v) # kvs) a d = (case at_key a k d of
     None \<Rightarrow> None
   | Some (Inl err) \<Rightarrow> Some (Inl err)
   | Some (Inr (b, d1)) \<Rightarrow> (case jcopy gb v b d1 of
        None \<Rightarrow> None
      | Some (Inl err) \<Rightarrow> Some (Inl err)
      | Some (Inr d2) \<Rightarrow> jcopy_obj gb kvs a d2))"
| "jcopy_arr gb [] i a d = Some (Inr d)"
| "jcopy_arr gb (v # vs) i a d = (case at_index a i d of
     None \<Rightarrow> None
   | Some (Inl err) \<Rightarrow> Some (Inl err)
   | Some (Inr (b, d1)) \<Rightarrow> (case jcopy gb v b d1 of
        None \<Rightarrow> None
      | Some (Inl err) \<Rightarrow> Some (Inl err)
      | Some (Inr d2) \<Rightarrow> jcopy_arr gb vs (i + 1) a d2))"
  by pat_completeness auto
termination
  by (relation "measure (\<lambda>x. case x of Inl (_, v, _) \<Rightarrow> 2 * size v + 1 | Inr (Inl (_, kvs, _)) \<Rightarrow> 2 * size_list (size_prod (\<lambda>_. 0) size) kvs
      | Inr (Inr (_, vs, _)) \<Rightarrow> 2 * size_list size vs)") auto

declare jcopy.simps [simp del]

subsection \<open>What an element represents\<close>

text \<open>
  \<open>rep es e j A\<close>: the element \<open>e\<close> has the tree \<open>j\<close>, whose nodes below \<open>e\<close> are the addresses \<open>A\<close>. \<open>reps\<close> is the same for a list of children
  with their keys. Nodes of different subtrees are different.
\<close>

inductive rep :: "jelem list \<Rightarrow> jelem \<Rightarrow> json \<Rightarrow> nat set \<Rightarrow> bool"
  and reps :: "jelem list \<Rightarrow> nat option \<Rightarrow> (string option \<times> json) list \<Rightarrow> nat set \<Rightarrow> bool"
  for es :: "jelem list" where
  rep_scalar: "scalar j = Some (je_type e, je_size e, je_val e) \<Longrightarrow> rep es e j {}"
| rep_arr: "je_type e = ARRAY \<Longrightarrow> je_val e = VChild p \<Longrightarrow> je_size e = length kjs \<Longrightarrow> reps es p kjs A \<Longrightarrow> rep es e (JArr (map snd kjs)) A"
| rep_obj: "je_type e = OBJECT \<Longrightarrow> je_val e = VChild p \<Longrightarrow> je_size e = length kvs \<Longrightarrow> reps es p (map (\<lambda>(k, v). (Some k, v)) kvs) A \<Longrightarrow>
    rep es e (JObj kvs) A"
| reps_nil: "reps es None [] {}"
| reps_cons: "i < length es \<Longrightarrow> je_key (es ! i) = k \<Longrightarrow> rep es (es ! i) j A \<Longrightarrow> reps es (je_next (es ! i)) kjs B \<Longrightarrow>
    i \<notin> A \<Longrightarrow> i \<notin> B \<Longrightarrow> A \<inter> B = {} \<Longrightarrow> reps es (Some i) ((k, j) # kjs) (insert i (A \<union> B))"

inductive_cases reps_NilE: "reps es p [] A"
inductive_cases reps_ConsE: "reps es p ((k, j) # kjs) A"
inductive_cases rep_ArrE: "rep es e (JArr js) A"
inductive_cases rep_ObjE: "rep es e (JObj kvs) A"

lemma rep_scalar_iff: "scalar j \<noteq> None \<Longrightarrow> rep es e j A \<longleftrightarrow> A = {} \<and> scalar j = Some (je_type e, je_size e, je_val e)"
  by (auto intro: rep_scalar elim: rep.cases)

lemma rep_null [simp]: "rep es e JNull A \<longleftrightarrow> A = {} \<and> je_type e = NULL_VALUE \<and> je_size e = 0 \<and> je_val e = VChild None"
  by (subst rep_scalar_iff) auto

lemma rep_bound: "rep es e j A \<Longrightarrow> A \<subseteq> {..<length es}" "reps es p kjs A \<Longrightarrow> A \<subseteq> {..<length es}"
  by (induction rule: rep_reps.inducts) auto

text \<open>Only the type, the value and the size of the element matter, and its nodes.\<close>

definition agree :: "nat set \<Rightarrow> jelem list \<Rightarrow> jelem list \<Rightarrow> bool" where
  "agree A es es' \<longleftrightarrow> (\<forall>i \<in> A. i < length es \<longrightarrow> i < length es' \<and> es' ! i = es ! i)"

lemma rep_frame:
  "rep es e j A \<Longrightarrow> agree A es es' \<Longrightarrow> je_type e' = je_type e \<Longrightarrow> je_val e' = je_val e \<Longrightarrow> je_size e' = je_size e \<Longrightarrow> rep es' e' j A"
  "reps es p kjs A \<Longrightarrow> agree A es es' \<Longrightarrow> reps es' p kjs A"
proof (induction arbitrary: e' rule: rep_reps.inducts)
  case (rep_scalar j e)
  then show ?case by (auto intro: rep_reps.rep_scalar)
next
  case (rep_arr e p kjs A)
  then show ?case by (auto intro: rep_reps.rep_arr)
next
  case (rep_obj e p kvs A)
  then show ?case by (auto intro: rep_reps.rep_obj)
next
  case reps_nil
  then show ?case by (auto intro: rep_reps.reps_nil)
next
  case (reps_cons i k j A kjs B)
  then have i: "i < length es'" "es' ! i = es ! i" and ag: "agree A es es'" "agree B es es'" by (auto simp: agree_def)
  from reps_cons(4) [OF ag(1), of "es' ! i"] reps_cons(6) [OF ag(2)] i reps_cons(1-3,5,7-9) show ?case
    by (intro rep_reps.reps_cons) auto
qed

lemma reps_length: "reps es p kjs A \<Longrightarrow> p = None \<longleftrightarrow> kjs = []"
  by (auto elim: reps.cases)

text \<open>The loops find the node of a child, \<open>node_of\<close>, or end at the last one, \<open>last_of\<close>.\<close>

definition node_of :: "jelem list \<Rightarrow> nat option \<Rightarrow> (string option \<times> json) list \<Rightarrow> nat \<Rightarrow> nat \<Rightarrow> bool" where
  "node_of es p kjs n i \<longleftrightarrow>
     (\<forall>tail key. fst (kjs ! n) = Some key \<longrightarrow> (\<forall>m < n. fst (kjs ! m) \<notin> {None, Some key}) \<longrightarrow> (\<exists>t. key_loop es p tail key = Some (Some i, t))) \<and>
     (\<forall>tail i0. \<exists>t. index_loop es p i0 tail (i0 + n) = Some (Some i, i0 + n, t))"

definition last_of :: "jelem list \<Rightarrow> nat option \<Rightarrow> (string option \<times> json) list \<Rightarrow> nat \<Rightarrow> bool" where
  "last_of es p kjs t \<longleftrightarrow>
     (\<forall>tail key. (\<forall>kj \<in> set kjs. fst kj \<notin> {None, Some key}) \<longrightarrow> key_loop es p tail key = Some (None, Some t)) \<and>
     (\<forall>tail i0 index. index \<ge> i0 + length kjs \<longrightarrow> index_loop es p i0 tail index = Some (None, i0 + length kjs, Some t))"

lemma node_of_Cons:
  assumes "m < length es" "je_key (es ! m) = k" "node_of es (je_next (es ! m)) kjs n i"
  shows "node_of es (Some m) ((k, j) # kjs) (Suc n) i"
  unfolding node_of_def
proof (intro conjI allI impI)
  fix tail key
  assume "fst (((k, j) # kjs) ! Suc n) = Some key" and a: "\<forall>ma<Suc n. fst (((k, j) # kjs) ! ma) \<notin> {None, Some key}"
  then have "fst (kjs ! n) = Some key" "\<forall>ma<n. fst (kjs ! ma) \<notin> {None, Some key}" by (auto dest: spec [of _ "Suc _"])
  then obtain t where "key_loop es (je_next (es ! m)) (Some m) key = Some (Some i, t)" using assms(3) unfolding node_of_def by blast
  moreover have "k \<notin> {None, Some key}" using a [rule_format, of 0] by simp
  ultimately show "\<exists>t. key_loop es (Some m) tail key = Some (Some i, t)" using assms(1,2) by (subst key_loop.simps) auto
next
  fix tail i0
  obtain t where "index_loop es (je_next (es ! m)) (i0 + 1) (Some m) (i0 + 1 + n) = Some (Some i, i0 + 1 + n, t)"
    using assms(3) unfolding node_of_def by blast
  then show "\<exists>t. index_loop es (Some m) i0 tail (i0 + Suc n) = Some (Some i, i0 + Suc n, t)"
    using assms(1) by (subst index_loop.simps) simp
qed

lemma node_of_0: "m < length es \<Longrightarrow> je_key (es ! m) = k \<Longrightarrow> node_of es (Some m) ((k, j) # kjs) 0 m"
  unfolding node_of_def by (auto simp: key_loop.simps [of es "Some m"] index_loop.simps [of es "Some m"])

lemma last_of_Cons:
  assumes "m < length es" "je_key (es ! m) = k" "if kjs = [] then je_next (es ! m) = None \<and> t = m else last_of es (je_next (es ! m)) kjs t"
  shows "last_of es (Some m) ((k, j) # kjs) t"
proof (cases kjs)
  case Nil
  with assms show ?thesis
    unfolding last_of_def
    by (auto simp: key_loop.simps [of es "Some m"] index_loop.simps [of es "Some m"] key_loop.simps [of es None] index_loop.simps [of es None])
next
  case (Cons kj kjs')
  with assms(3) have l: "last_of es (je_next (es ! m)) kjs t" by simp
  show ?thesis
    unfolding last_of_def
  proof (intro conjI allI impI)
    fix tail key
    assume "\<forall>kj \<in> set ((k, j) # kjs). fst kj \<notin> {None, Some key}"
    with l assms(1,2) show "key_loop es (Some m) tail key = Some (None, Some t)"
      by (subst key_loop.simps) (auto simp: last_of_def)
  next
    fix tail i0 index
    assume "i0 + length ((k, j) # kjs) \<le> index"
    moreover from this l have "index_loop es (je_next (es ! m)) (i0 + 1) (Some m) index = Some (None, i0 + 1 + length kjs, Some t)" by (auto simp: last_of_def)
    ultimately show "index_loop es (Some m) i0 tail index = Some (None, i0 + length ((k, j) # kjs), Some t)"
      using assms(1) by (subst index_loop.simps) simp
  qed
qed

text \<open>One child of a list, and what happens to the list when it is replaced.\<close>

lemma reps_focus:
  assumes "reps es p kjs A" "n < length kjs"
  shows "\<exists>i B C. A = insert i (B \<union> C) \<and> i \<notin> B \<and> i \<notin> C \<and> B \<inter> C = {} \<and> i < length es \<and> je_key (es ! i) = fst (kjs ! n) \<and> rep es (es ! i) (snd (kjs ! n)) B \<and> node_of es p kjs n i \<and>
    (\<forall>es' j' B'. agree C es es' \<longrightarrow> i < length es' \<longrightarrow> je_key (es' ! i) = je_key (es ! i) \<longrightarrow> je_next (es' ! i) = je_next (es ! i) \<longrightarrow>
       rep es' (es' ! i) j' B' \<longrightarrow> i \<notin> B' \<longrightarrow> B' \<inter> C = {} \<longrightarrow> reps es' p (kjs[n := (fst (kjs ! n), j')]) (insert i (B' \<union> C)))"
  using assms
proof (induction kjs arbitrary: p A n)
  case (Cons kj kjs)
  obtain k j where kj: "kj = (k, j)" by fastforce
  from Cons.prems(1) [unfolded kj] obtain m A0 B0 where m: "p = Some m" "A = insert m (A0 \<union> B0)" "m < length es" "je_key (es ! m) = k"
    "rep es (es ! m) j A0" "reps es (je_next (es ! m)) kjs B0" "m \<notin> A0" "m \<notin> B0" "A0 \<inter> B0 = {}" by (auto elim!: reps_ConsE)
  show ?case
  proof (cases n)
    case 0
    show ?thesis
    proof (rule exI [of _ m], rule exI [of _ A0], rule exI [of _ B0], intro conjI allI impI)
      fix es' j' B'
      assume ag: "agree B0 es es'" and *: "m < length es'" "je_key (es' ! m) = je_key (es ! m)" "je_next (es' ! m) = je_next (es ! m)"
        "rep es' (es' ! m) j' B'" "m \<notin> B'" "B' \<inter> B0 = {}"
      show "reps es' p ((kj # kjs)[n := (fst ((kj # kjs) ! n), j')]) (insert m (B' \<union> B0))"
        using * m rep_frame(2) [OF m(6) ag] by (auto simp: 0 kj intro!: reps_cons)
    qed (use m 0 kj node_of_0 in auto)
  next
    case (Suc n')
    from Cons.IH [OF m(6), of n'] Cons.prems(2) Suc obtain i B C where f: "B0 = insert i (B \<union> C)" "i \<notin> B" "i \<notin> C" "B \<inter> C = {}" "i < length es"
      "je_key (es ! i) = fst (kjs ! n')" "rep es (es ! i) (snd (kjs ! n')) B" "node_of es (je_next (es ! m)) kjs n' i"
      "\<And>es' j' B'. agree C es es' \<Longrightarrow> i < length es' \<Longrightarrow> je_key (es' ! i) = je_key (es ! i) \<Longrightarrow> je_next (es' ! i) = je_next (es ! i) \<Longrightarrow>
       rep es' (es' ! i) j' B' \<Longrightarrow> i \<notin> B' \<Longrightarrow> B' \<inter> C = {} \<Longrightarrow> reps es' (je_next (es ! m)) (kjs[n' := (fst (kjs ! n'), j')]) (insert i (B' \<union> C))"
      by auto
    show ?thesis
    proof (rule exI [of _ i], rule exI [of _ B], rule exI [of _ "insert m (A0 \<union> C)"], intro conjI allI impI)
      fix es' j' B'
      assume ag: "agree (insert m (A0 \<union> C)) es es'" and *: "i < length es'" "je_key (es' ! i) = je_key (es ! i)" "je_next (es' ! i) = je_next (es ! i)"
        "rep es' (es' ! i) j' B'" "i \<notin> B'" "B' \<inter> insert m (A0 \<union> C) = {}"
      have e: "m < length es'" "es' ! m = es ! m" "agree A0 es es'" "agree C es es'" using ag m(3) by (auto simp: agree_def)
      have "reps es' (je_next (es ! m)) (kjs[n' := (fst (kjs ! n'), j')]) (insert i (B' \<union> C))" using f(9) e(4) * by auto
      moreover have "rep es' (es' ! m) j A0" using rep_frame(1) [OF m(5) e(3)] e(2) by simp
      ultimately have "reps es' (Some m) ((k, j) # kjs[n' := (fst (kjs ! n'), j')]) (insert m (A0 \<union> insert i (B' \<union> C)))"
        using m e * f by (intro reps_cons) auto
      moreover have "insert m (A0 \<union> insert i (B' \<union> C)) = insert i (B' \<union> insert m (A0 \<union> C))" by auto
      ultimately show "reps es' p ((kj # kjs)[n := (fst ((kj # kjs) ! n), j')]) (insert i (B' \<union> insert m (A0 \<union> C)))"
        using m(1) Suc kj by simp
    qed (use m f Suc kj node_of_Cons in auto)
  qed
qed simp

text \<open>Linking a new node behind the last one.\<close>

lemma reps_snoc:
  assumes "reps es p kjs A" "kjs \<noteq> []"
  shows "\<exists>t. t \<in> A \<and> t < length es \<and> last_of es p kjs t \<and>
    (\<forall>es' k j B m. agree (A - {t}) es es' \<longrightarrow> t < length es' \<longrightarrow> es' ! t = (es ! t)\<lparr>je_next := Some m\<rparr> \<longrightarrow> m < length es' \<longrightarrow> je_key (es' ! m) = k \<longrightarrow>
       je_next (es' ! m) = None \<longrightarrow> rep es' (es' ! m) j B \<longrightarrow> m \<notin> A \<longrightarrow> m \<notin> B \<longrightarrow> A \<inter> B = {} \<longrightarrow> 
       reps es' p (kjs @ [(k, j)]) (A \<union> insert m B) \<and> node_of es' p (kjs @ [(k, j)]) (length kjs) m)"
  using assms
proof (induction kjs arbitrary: p A)
  case (Cons kj kjs)
  obtain k0 j0 where kj: "kj = (k0, j0)" by fastforce
  from Cons.prems(1) [unfolded kj] obtain n A0 B0 where n: "p = Some n" "A = insert n (A0 \<union> B0)" "n < length es" "je_key (es ! n) = k0"
    "rep es (es ! n) j0 A0" "reps es (je_next (es ! n)) kjs B0" "n \<notin> A0" "n \<notin> B0" "A0 \<inter> B0 = {}" by (auto elim!: reps_ConsE)
  note IH = Cons.IH
  show ?case
  proof (cases kjs)
    case Nil
    then have B0: "je_next (es ! n) = None" "B0 = {}" using n(6) by (auto elim: reps_NilE)
    show ?thesis
    proof (rule exI [of _ n], intro conjI allI impI)
      fix es' k j B m
      assume ag: "agree (A - {n}) es es'" and *: "n < length es'" "es' ! n = (es ! n)\<lparr>je_next := Some m\<rparr>" "m < length es'" "je_key (es' ! m) = k"
        "je_next (es' ! m) = None" "rep es' (es' ! m) j B" "m \<notin> A" "m \<notin> B" "A \<inter> B = {}"
      have "agree A0 es es'" using ag n by (auto simp: agree_def)
      then have r: "rep es' (es' ! n) j0 A0" using rep_frame(1) [OF n(5)] * by simp
      have "reps es' (Some m) [(k, j)] (insert m (B \<union> {}))" using * by (intro reps_cons) (auto intro: reps_nil)
      then have "reps es' (Some n) ((k0, j0) # [(k, j)]) (insert n (A0 \<union> insert m (B \<union> {})))"
        using r * n by (intro reps_cons) auto
      then show "reps es' p ((kj # kjs) @ [(k, j)]) (A \<union> insert m B)" using n B0 Nil kj by (simp add: Un_commute)
      have "node_of es' (je_next (es' ! n)) [(k, j)] 0 m" using node_of_0 [of m es' k j "[]"] * by simp
      from node_of_Cons [OF *(1) _ this, of k0 j0] show "node_of es' p ((kj # kjs) @ [(k, j)]) (length (kj # kjs)) m"
        using n * Nil kj by simp
    qed (use n B0 Nil kj last_of_Cons [of n es k0 "[]" n j0] in auto)
  next
    case (Cons x xs)
    then have "kjs \<noteq> []" by simp
    from IH [OF n(6) this] obtain t where t: "t \<in> B0" "t < length es" "last_of es (je_next (es ! n)) kjs t"
      "\<forall>es' k j B m. agree (B0 - {t}) es es' \<longrightarrow> t < length es' \<longrightarrow> es' ! t = (es ! t)\<lparr>je_next := Some m\<rparr> \<longrightarrow> m < length es' \<longrightarrow> je_key (es' ! m) = k \<longrightarrow>
       je_next (es' ! m) = None \<longrightarrow> rep es' (es' ! m) j B \<longrightarrow> m \<notin> B0 \<longrightarrow> m \<notin> B \<longrightarrow> B0 \<inter> B = {} \<longrightarrow>
       reps es' (je_next (es ! n)) (kjs @ [(k, j)]) (B0 \<union> insert m B) \<and> node_of es' (je_next (es ! n)) (kjs @ [(k, j)]) (length kjs) m" by blast
    show ?thesis
    proof (rule exI [of _ t], intro conjI allI impI)
      fix es' k j B m
      assume ag: "agree (A - {t}) es es'" and *: "t < length es'" "es' ! t = (es ! t)\<lparr>je_next := Some m\<rparr>" "m < length es'" "je_key (es' ! m) = k"
        "je_next (es' ! m) = None" "rep es' (es' ! m) j B" "m \<notin> A" "m \<notin> B" "A \<inter> B = {}"
      have e: "agree A0 es es'" "agree (B0 - {t}) es es'" "n < length es'" "es' ! n = es ! n" using ag n t(1) by (auto simp: agree_def)
      have r: "reps es' (je_next (es ! n)) (kjs @ [(k, j)]) (B0 \<union> insert m B)" "node_of es' (je_next (es ! n)) (kjs @ [(k, j)]) (length kjs) m"
        using t(4) [rule_format, OF e(2), of m k j B] * n by auto
      moreover have "rep es' (es' ! n) j0 A0" using rep_frame(1) [OF n(5) e(1)] e(4) by simp
      moreover from node_of_Cons [OF e(3), of k0 "kjs @ [(k, j)]" "length kjs" m j0] show "node_of es' p ((kj # kjs) @ [(k, j)]) (length (kj # kjs)) m"
        using n e r(2) kj by simp
      ultimately have "reps es' (Some n) ((k0, j0) # (kjs @ [(k, j)])) (insert n (A0 \<union> (B0 \<union> insert m B)))"
        using n e * by (intro reps_cons) auto
      then show "reps es' p ((kj # kjs) @ [(k, j)]) (A \<union> insert m B)" using n kj by (simp add: Un_assoc insert_commute)
    qed (use n t Cons kj last_of_Cons [of n es k0 kjs t j0] in auto)
  qed
qed simp

end
