(* ===== verification/JsonTrees.thy ===== *)
theory JsonTrees
  imports Jsons
begin

text \<open>
  Documents as trees: the operations of \<open>util/Json.hpp\<close> on the linked elements of \<open>Jsons\<close> implement those of a tree, as long as the document's
  vector of elements does not grow past its capacity.
\<close>

subsection \<open>Changing what an element represents\<close>

fun below :: "addr \<Rightarrow> nat set \<Rightarrow> bool" where
  "below Root A \<longleftrightarrow> True"
| "below (Node x) A \<longleftrightarrow> x \<notin> A"

definition has :: "jdoc \<Rightarrow> addr \<Rightarrow> json \<Rightarrow> nat set \<Rightarrow> bool" where
  "has d a j A \<longleftrightarrow> valid d a \<and> rep (jd_elems d) (el d a) j A \<and> below a A"

text \<open>A container with its children, or an element without a value.\<close>

definition cont :: "jdoc \<Rightarrow> addr \<Rightarrow> element_type \<Rightarrow> nat option \<Rightarrow> (string option \<times> json) list \<Rightarrow> nat set \<Rightarrow> bool" where
  "cont d a t p kjs A \<longleftrightarrow> valid d a \<and> je_type (el d a) = t \<and> je_val (el d a) = VChild p \<and> je_size (el d a) = length kjs \<and>
     reps (jd_elems d) p kjs A \<and> below a A"

definition okeys :: "(string \<times> json) list \<Rightarrow> (string option \<times> json) list" where
  "okeys kvs = map (\<lambda>(k, v). (Some k, v)) kvs"

lemma okeys_simps [simp]: "okeys [] = []" "okeys (kvs @ kvs') = okeys kvs @ okeys kvs'" "okeys ((k, v) # kvs) = (Some k, v) # okeys kvs"
  "length (okeys kvs) = length kvs"
  by (simp_all add: okeys_def)

lemma has_obj: "has d a (JObj kvs) A \<longleftrightarrow> (\<exists>p. cont d a OBJECT p (okeys kvs) A)"
  by (auto simp: has_def cont_def okeys_def intro: rep_obj elim!: rep_ObjE)

lemma has_arr: "has d a (JArr js) A \<longleftrightarrow> (\<exists>p kjs. js = map snd kjs \<and> cont d a ARRAY p kjs A)"
  by (auto simp: has_def cont_def intro: rep_arr elim!: rep_ArrE)

lemma has_null: "has d a JNull A \<longleftrightarrow> cont d a NULL_VALUE None [] A"
  by (auto simp: has_def cont_def intro: reps_nil elim: reps_NilE)

text \<open>Only the element at \<open>a\<close>, the nodes \<open>A\<close> and new ones have changed; the element keeps its key and its place.\<close>

definition only :: "addr \<Rightarrow> nat set \<Rightarrow> jdoc \<Rightarrow> jdoc \<Rightarrow> bool" where
  "only a A d d' \<longleftrightarrow> length (jd_elems d) \<le> length (jd_elems d') \<and> jd_cap d' = jd_cap d \<and> jd_owned d' = jd_owned d \<and>
     (\<forall>i < length (jd_elems d). i \<notin> A \<longrightarrow> a \<noteq> Node i \<longrightarrow> jd_elems d' ! i = jd_elems d ! i) \<and>
     (a \<noteq> Root \<longrightarrow> jd_root d' = jd_root d) \<and> je_key (el d' a) = je_key (el d a) \<and> je_next (el d' a) = je_next (el d a)"

definition fresh :: "jdoc \<Rightarrow> jdoc \<Rightarrow> nat set" where
  "fresh d d' = {length (jd_elems d)..<length (jd_elems d')}"

definition changed :: "addr \<Rightarrow> nat set \<Rightarrow> json \<Rightarrow> jdoc \<Rightarrow> jdoc \<Rightarrow> bool" where
  "changed a A j' d d' \<longleftrightarrow> only a A d d' \<and> (\<exists>A'. has d' a j' A' \<and> A' \<subseteq> A \<union> fresh d d')"

lemma only_refl: "only a A d d"
  by (simp add: only_def)

lemma only_trans:
  assumes "only a A d d1" "only a A1 d1 d2" "A1 \<subseteq> A \<union> fresh d d1"
  shows "only a A d d2" and "fresh d1 d2 \<subseteq> fresh d d2" and "fresh d d1 \<subseteq> fresh d d2"
proof -
  have l: "length (jd_elems d) \<le> length (jd_elems d1)" "length (jd_elems d1) \<le> length (jd_elems d2)" using assms by (auto simp: only_def)
  show "fresh d1 d2 \<subseteq> fresh d d2" "fresh d d1 \<subseteq> fresh d d2" using l by (auto simp: fresh_def)
  have "jd_elems d2 ! i = jd_elems d ! i" if "i < length (jd_elems d)" "i \<notin> A" "a \<noteq> Node i" for i
  proof -
    have "i \<notin> A1" using that(1,2) assms(3) by (auto simp: fresh_def)
    with that l assms(1,2) show ?thesis by (simp add: only_def)
  qed
  with l assms(1,2) show "only a A d d2" by (auto simp: only_def)
qed

lemma changed_trans:
  assumes "changed a A j1 d d1" "\<And>A1. has d1 a j1 A1 \<Longrightarrow> changed a A1 j2 d1 d2"
  shows "changed a A j2 d d2"
proof -
  obtain A1 where A1: "has d1 a j1 A1" "A1 \<subseteq> A \<union> fresh d d1" and o: "only a A d d1" using assms(1) by (auto simp: changed_def)
  obtain A2 where A2: "has d2 a j2 A2" "A2 \<subseteq> A1 \<union> fresh d1 d2" and o1: "only a A1 d1 d2" using assms(2) [OF A1(1)] by (auto simp: changed_def)
  note T = only_trans [OF o o1 A1(2)]
  have "A2 \<subseteq> A \<union> fresh d d2" using A1(2) A2(2) T(2,3) by blast
  with T(1) A2(1) show ?thesis by (auto simp: changed_def)
qed

lemma el_jput [simp]: "valid d a \<Longrightarrow> el (jput_el a e d) a = e" "valid (jput_el b e d) a = valid d a"
  "jd_cap (jput_el a e d) = jd_cap d" "jd_owned (jput_el a e d) = jd_owned d" "length (jd_elems (jput_el a e d)) = length (jd_elems d)"
  by (cases a; simp; cases b; simp)+

lemma jput_nth: "i < length (jd_elems d) \<Longrightarrow> jd_elems (jput_el a e d) ! i = (if a = Node i then e else jd_elems d ! i)"
  by (cases a) (auto simp: nth_list_update)

lemma jput_root [simp]: "jd_root (jput_el a e d) = (if a = Root then e else jd_root d)"
  by (cases a) auto

lemma el_jput_other: "a \<noteq> b \<Longrightarrow> valid d b \<Longrightarrow> el (jput_el a e d) b = el d b"
  by (cases b) (auto simp: jput_nth)

lemma jput_same: "valid d a \<Longrightarrow> jput_el a (el d a) d = d"
  by (cases a) simp_all

text \<open>A change of a child is a change of its container.\<close>

lemma cont_child:
  assumes c: "cont d a t p kjs A" and n: "n < length kjs"
  shows "\<exists>i B. node_of (jd_elems d) p kjs n i \<and> has d (Node i) (snd (kjs ! n)) B \<and>
    (\<forall>d' j'. changed (Node i) B j' d d' \<longrightarrow> only a A d d' \<and>
      (\<exists>A'. cont d' a t p (kjs[n := (fst (kjs ! n), j')]) A' \<and> A' \<subseteq> A \<union> fresh d d'))"
proof -
  have r: "reps (jd_elems d) p kjs A" and v: "valid d a" "below a A" using c by (auto simp: cont_def)
  from reps_focus [OF r n] obtain i B C where f: "A = insert i (B \<union> C)" "i \<notin> B" "i \<notin> C" "B \<inter> C = {}" "i < length (jd_elems d)"
    "je_key (jd_elems d ! i) = fst (kjs ! n)" "rep (jd_elems d) (jd_elems d ! i) (snd (kjs ! n)) B" "node_of (jd_elems d) p kjs n i"
    and wand: "\<And>es' j' B'. agree C (jd_elems d) es' \<Longrightarrow> i < length es' \<Longrightarrow> je_key (es' ! i) = je_key (jd_elems d ! i) \<Longrightarrow>
       je_next (es' ! i) = je_next (jd_elems d ! i) \<Longrightarrow> rep es' (es' ! i) j' B' \<Longrightarrow> i \<notin> B' \<Longrightarrow> B' \<inter> C = {} \<Longrightarrow>
       reps es' p (kjs[n := (fst (kjs ! n), j')]) (insert i (B' \<union> C))" by blast
  have a: "a \<noteq> Node i" using f(1) v(2) by auto
  have bound: "A \<subseteq> {..<length (jd_elems d)}" by (rule rep_bound(2) [OF r])
  show ?thesis
  proof (rule exI [of _ i], rule exI [of _ B], intro conjI allI impI)
    show "node_of (jd_elems d) p kjs n i" by (rule f)
    show "has d (Node i) (snd (kjs ! n)) B" using f by (simp add: has_def)
    fix d' j'
    assume ch: "changed (Node i) B j' d d'"
    then obtain B' where o: "only (Node i) B d d'" and h: "has d' (Node i) j' B'" "B' \<subseteq> B \<union> fresh d d'" by (auto simp: changed_def)
    have ag: "agree C (jd_elems d) (jd_elems d')" using o f bound by (auto simp: agree_def only_def)
    have "C \<subseteq> {..<length (jd_elems d)}" using f(1) bound by blast
    then have disj: "B' \<inter> C = {}" using h(2) f(4) by (fastforce simp: fresh_def)
    have "reps (jd_elems d') p (kjs[n := (fst (kjs ! n), j')]) (insert i (B' \<union> C))"
      using o h f disj by (intro wand ag) (auto simp: only_def has_def)
    moreover have ea: "el d' a = el d a" using o a v f(1) by (cases a) (auto simp: only_def)
    moreover have "below a (insert i (B' \<union> C))" using v h(2) f(1) a by (cases a) (auto simp: fresh_def)
    moreover have "valid d' a" using o v by (cases a) (auto simp: only_def)
    ultimately have "cont d' a t p (kjs[n := (fst (kjs ! n), j')]) (insert i (B' \<union> C))" using c by (simp add: cont_def)
    moreover have "insert i (B' \<union> C) \<subseteq> A \<union> fresh d d'" using h(2) f(1) by auto
    ultimately show "\<exists>A'. cont d' a t p (kjs[n := (fst (kjs ! n), j')]) A' \<and> A' \<subseteq> A \<union> fresh d d'" by blast
    show "only a A d d'" using o ea f(1) by (auto simp: only_def)
  qed
qed

text \<open>Appending a new child, as \<open>at\<close> does with a key or an index.\<close>

definition new_child :: "addr \<Rightarrow> nat option \<Rightarrow> string option \<Rightarrow> jdoc \<Rightarrow> (nat \<times> jdoc) option" where
  "new_child a tail key d = Option.bind (alloc_element NULL_VALUE d) (\<lambda>(m, d2).
     let d3 = jput_el (Node m) ((el d2 (Node m))\<lparr>je_key := key\<rparr>) d2;
         d4 = jput_el a ((el d3 a)\<lparr>je_size := je_size (el d3 a) + 1\<rparr>) d3;
         d5 = (case tail of
                 Some t \<Rightarrow> jput_el (Node t) ((el d4 (Node t))\<lparr>je_next := Some m\<rparr>) d4
               | None \<Rightarrow> jput_el a ((el d4 a)\<lparr>je_val := VChild (Some m)\<rparr>) d4)
     in Some (m, d5))"

lemma cont_snoc:
  assumes c: "cont d a t p kjs A" and cap: "length (jd_elems d) < jd_cap d"
  shows "\<exists>tail. (\<forall>key. (\<forall>kj \<in> set kjs. fst kj \<notin> {None, Some key}) \<longrightarrow> key_loop (jd_elems d) p p key = Some (None, tail)) \<and>
    (\<forall>index \<ge> length kjs. index_loop (jd_elems d) p 0 p index = Some (None, length kjs, tail)) \<and>
    (\<exists>d' p' A'. new_child a tail key d = Some (length (jd_elems d), d') \<and> only a A d d' \<and> length (jd_elems d') = Suc (length (jd_elems d)) \<and>
       cont d' a t p' (kjs @ [(key, JNull)]) A' \<and> A' \<subseteq> A \<union> fresh d d' \<and> node_of (jd_elems d') p' (kjs @ [(key, JNull)]) (length kjs) (length (jd_elems d)) \<and>
       (kjs \<noteq> [] \<longrightarrow> tail \<noteq> None))"
proof -
  let ?m = "length (jd_elems d)"
  let ?new = "(je_new NULL_VALUE)\<lparr>je_key := key\<rparr>"
  have r: "reps (jd_elems d) p kjs A" and v: "valid d a" "below a A" "je_val (el d a) = VChild p" "je_size (el d a) = length kjs" "je_type (el d a) = t"
    using c by (auto simp: cont_def)
  have bound: "A \<subseteq> {..<?m}" by (rule rep_bound(2) [OF r])
  have am: "a \<noteq> Node ?m" using v(1) by auto
  define d3 where "d3 = d\<lparr>jd_elems := jd_elems d @ [?new]\<rparr>"
  have alloc: "alloc_element NULL_VALUE d = Some (?m, d\<lparr>jd_elems := jd_elems d @ [je_new NULL_VALUE]\<rparr>)"
    using cap by (simp add: alloc_element_def max_def)
  have d3: "jput_el (Node ?m) ((el (d\<lparr>jd_elems := jd_elems d @ [je_new NULL_VALUE]\<rparr>) (Node ?m))\<lparr>je_key := key\<rparr>) (d\<lparr>jd_elems := jd_elems d @ [je_new NULL_VALUE]\<rparr>) = d3"
    by (simp add: d3_def)
  have e3: "el d3 a = el d a" "valid d3 a" "length (jd_elems d3) = Suc ?m" "jd_elems d3 ! ?m = ?new" "\<And>i. i < ?m \<Longrightarrow> jd_elems d3 ! i = jd_elems d ! i"
    using v(1) by (cases a; simp add: d3_def nth_append)+
  define d4 where "d4 = jput_el a ((el d a)\<lparr>je_size := length kjs + 1\<rparr>) d3"
  have e4: "el d4 a = (el d a)\<lparr>je_size := length kjs + 1\<rparr>" "valid d4 a" "length (jd_elems d4) = Suc ?m"
    "\<And>i. i < Suc ?m \<Longrightarrow> a \<noteq> Node i \<Longrightarrow> jd_elems d4 ! i = jd_elems d3 ! i"
    using e3 by (simp_all add: d4_def jput_nth)
  have new: "new_child a tail key d = Some (?m, case tail of
         Some t \<Rightarrow> jput_el (Node t) ((jd_elems d4 ! t)\<lparr>je_next := Some ?m\<rparr>) d4 | None \<Rightarrow> jput_el a ((el d4 a)\<lparr>je_val := VChild (Some ?m)\<rparr>) d4)" for tail
    unfolding new_child_def alloc Option.bind.bind_lunit prod.case Let_def d3 e3(1) v(4) d4_def [symmetric] by (simp split: option.splits)
  have rn: "rep es (je_new NULL_VALUE\<lparr>je_key := k\<rparr>) JNull {}" for es k by (simp add: je_new_def)
  show ?thesis
  proof (cases "kjs = []")
    case True
    then have p: "p = None" "A = {}" using r by (auto elim: reps_NilE)
    define d5 where "d5 = jput_el a ((el d4 a)\<lparr>je_val := VChild (Some ?m)\<rparr>) d4"
    have m5: "jd_elems d5 ! ?m = ?new" "length (jd_elems d5) = Suc ?m" using e4 e3 am by (simp_all add: d5_def jput_nth)
    have "reps (jd_elems d5) (Some ?m) [(key, JNull)] (insert ?m ({} \<union> {}))"
      by (rule reps_cons) (use m5 in \<open>auto simp: je_new_def intro: reps_nil\<close>)
    then have "cont d5 a t (Some ?m) (kjs @ [(key, JNull)]) {?m}"
      using e4 v True am by (cases a) (auto simp: cont_def d5_def)
    moreover have "only a A d d5" using e4 e3 am v by (cases a) (auto simp: only_def d5_def d4_def d3_def jput_nth nth_append)
    moreover have "node_of (jd_elems d5) (Some ?m) (kjs @ [(key, JNull)]) (length kjs) ?m"
      using node_of_0 [of ?m "jd_elems d5" key JNull "[]"] m5 True by simp
    ultimately show ?thesis
      using new [of None] m5 p True
      by (intro exI [of _ None]) (auto simp: d5_def [symmetric] fresh_def key_loop.simps [of _ None] index_loop.simps [of _ None] simp del: fun_upd_apply)
  next
    case False
    from reps_snoc [OF r False] obtain tl where tl: "tl \<in> A" "tl < ?m" "last_of (jd_elems d) p kjs tl"
      and wand: "\<And>es' k j B m. agree (A - {tl}) (jd_elems d) es' \<Longrightarrow> tl < length es' \<Longrightarrow> es' ! tl = (jd_elems d ! tl)\<lparr>je_next := Some m\<rparr> \<Longrightarrow> m < length es' \<Longrightarrow>
       je_key (es' ! m) = k \<Longrightarrow> je_next (es' ! m) = None \<Longrightarrow> rep es' (es' ! m) j B \<Longrightarrow> m \<notin> A \<Longrightarrow> m \<notin> B \<Longrightarrow> A \<inter> B = {} \<Longrightarrow>
       reps es' p (kjs @ [(k, j)]) (A \<union> insert m B) \<and> node_of es' p (kjs @ [(k, j)]) (length kjs) m" by blast
    have atl: "a \<noteq> Node tl" using tl(1) v(2) by auto
    define d5 where "d5 = jput_el (Node tl) ((jd_elems d4 ! tl)\<lparr>je_next := Some ?m\<rparr>) d4"
    have e5: "length (jd_elems d5) = Suc ?m" "jd_elems d5 ! ?m = ?new" "jd_elems d5 ! tl = (jd_elems d ! tl)\<lparr>je_next := Some ?m\<rparr>"
      "\<And>i. i < ?m \<Longrightarrow> i \<noteq> tl \<Longrightarrow> a \<noteq> Node i \<Longrightarrow> jd_elems d5 ! i = jd_elems d ! i" "el d5 a = (el d a)\<lparr>je_size := length kjs + 1\<rparr>" "valid d5 a"
      using e4 e3 am atl tl(2) by (simp_all add: d5_def nth_list_update) (cases a; simp)+
    have ag: "agree (A - {tl}) (jd_elems d) (jd_elems d5)" using e5 v(2) by (cases a) (auto simp: agree_def)
    have "reps (jd_elems d5) p (kjs @ [(key, JNull)]) (A \<union> insert ?m {}) \<and> node_of (jd_elems d5) p (kjs @ [(key, JNull)]) (length kjs) ?m"
      by (rule wand [OF ag]) (use e5 tl bound in \<open>auto simp: je_new_def\<close>)
    moreover have "below a (A \<union> insert ?m {})" using v(2) am by (cases a) auto
    ultimately have "cont d5 a t p (kjs @ [(key, JNull)]) (A \<union> insert ?m {})" "node_of (jd_elems d5) p (kjs @ [(key, JNull)]) (length kjs) ?m"
      using e5 v by (auto simp: cont_def)
    moreover have "jd_cap d5 = jd_cap d" "jd_owned d5 = jd_owned d" "a \<noteq> Root \<longrightarrow> jd_root d5 = jd_root d"
      by (simp_all add: d5_def d4_def d3_def)
    then have "only a A d d5" using e5 tl(1) unfolding only_def by auto
    moreover have "key_loop (jd_elems d) p p k = Some (None, Some tl)" if "\<forall>kj \<in> set kjs. fst kj \<notin> {None, Some k}" for k
      using tl(3) that unfolding last_of_def by blast
    moreover have "index_loop (jd_elems d) p 0 p index = Some (None, length kjs, Some tl)" if "index \<ge> length kjs" for index
      using tl(3) that unfolding last_of_def by (metis add_0)
    moreover have "new_child a (Some tl) key d = Some (?m, d5)" using new [of "Some tl"] by (simp add: d5_def)
    ultimately show ?thesis using e5(1)
      by (intro exI [of _ "Some tl"]) (auto simp: fresh_def)
  qed
qed

subsection \<open>Access by key\<close>

fun obj_view :: "json \<Rightarrow> (string \<times> json) list option" where
  "obj_view JNull = Some []"
| "obj_view (JObj m) = Some m"
| "obj_view _ = None"

fun obj_get :: "string \<Rightarrow> (string \<times> json) list \<Rightarrow> json" where
  "obj_get k [] = JNull"
| "obj_get k ((k', v) # m) = (if k' = k then v else obj_get k m)"

fun obj_put :: "string \<Rightarrow> json \<Rightarrow> (string \<times> json) list \<Rightarrow> (string \<times> json) list" where
  "obj_put k v [] = [(k, v)]"
| "obj_put k v ((k', v') # m) = (if k' = k then (k, v) # m else (k', v') # obj_put k v m)"

lemma obj_absent: "k \<notin> fst ` set m \<Longrightarrow> obj_get k m = JNull \<and> obj_put k v m = m @ [(k, v)]"
  by (induction m) (auto simp: image_iff)

lemma obj_present:
  "k \<in> fst ` set m \<Longrightarrow> \<exists>n < length m. fst (m ! n) = k \<and> (\<forall>i < n. fst (m ! i) \<noteq> k) \<and> obj_get k m = snd (m ! n) \<and> (\<forall>v. obj_put k v m = m[n := (k, v)])"
proof (induction m)
  case (Cons kv m)
  obtain k' v' where kv: "kv = (k', v')" by fastforce
  show ?case
  proof (cases "k' = k")
    case True
    then show ?thesis by (intro exI [of _ 0]) (auto simp: kv)
  next
    case False
    with Cons kv obtain n where "n < length m" "fst (m ! n) = k" "\<forall>i < n. fst (m ! i) \<noteq> k" "obj_get k m = snd (m ! n)" "\<forall>v. obj_put k v m = m[n := (k, v)]"
      by auto
    with False show ?thesis by (intro exI [of _ "Suc n"]) (auto simp: kv nth_Cons split: nat.splits)
  qed
qed simp

lemma okeys_nth: "n < length m \<Longrightarrow> okeys m ! n = (Some (fst (m ! n)), snd (m ! n))"
  by (simp add: okeys_def split_def)

lemma okeys_update: "(okeys m)[n := (Some k, v)] = okeys (m[n := (k, v)])"
  by (simp add: okeys_def map_update)

lemma node_of_unique: "node_of es p kjs n i \<Longrightarrow> node_of es p kjs n i' \<Longrightarrow> i = i'"
  unfolding node_of_def by (metis Pair_inject option.inject)

lemma retype:
  assumes "cont d a t p kjs A" "d1 = jput_el a ((el d a)\<lparr>je_type := t'\<rparr>) d"
  shows "cont d1 a t' p kjs A" "only a A d d1" "fresh d d1 = {}" "length (jd_elems d1) = length (jd_elems d)" "jd_cap d1 = jd_cap d" "owned d1 b = owned d b"
proof -
  have v: "valid d a" "below a A" using assms(1) by (auto simp: cont_def)
  have "agree A (jd_elems d) (jd_elems d1)" using v by (cases a) (auto simp: agree_def assms(2) nth_list_update)
  with assms rep_frame(2) show "cont d1 a t' p kjs A" by (auto simp: cont_def)
  show "only a A d d1" using v by (auto simp: only_def assms(2) jput_nth)
qed (cases b; simp add: assms(2) fresh_def)+

text \<open>
  What access gives: an element that represents \<open>v\<close>, such that changing it to represent \<open>j'\<close> changes what \<open>a\<close> represents to \<open>f j'\<close>.
\<close>

definition access :: "addr \<Rightarrow> nat set \<Rightarrow> jdoc \<Rightarrow> nat \<Rightarrow> json \<Rightarrow> (json \<Rightarrow> json) \<Rightarrow> (json_error + addr \<times> jdoc) option \<Rightarrow> bool" where
  "access a A d n v f res \<longleftrightarrow> (\<exists>b B d1. res = Some (Inr (b, d1)) \<and> owned d1 b \<and> jd_owned d1 = jd_owned d \<and> jd_cap d1 = jd_cap d \<and>
     length (jd_elems d1) \<le> length (jd_elems d) + n \<and> has d1 b v B \<and> (\<forall>d' j'. changed b B j' d1 d' \<longrightarrow> changed a A (f j') d d'))"

lemma at_key_access:
  assumes h: "has d a j A" and m: "obj_view j = Some m" and own: "owned d a" "c_string k" "length (jd_elems d) < jd_cap d"
  shows "access a A d 1 (obj_get k m) (\<lambda>v. JObj (obj_put k v m)) (at_key a k d)"
proof -
  define d1 where "d1 = jput_el a ((el d a)\<lparr>je_type := OBJECT\<rparr>) d"
  obtain t p where c0: "cont d a t p (okeys m) A" and t: "t = OBJECT \<or> t = NULL_VALUE"
    using h m by (cases j) (auto simp: has_obj has_null)
  note R = retype [OF c0 d1_def]
  have ch: "child (el d a) = Some p" "je_type (el d a) = t" using c0 by (auto simp: cont_def child_def)
  note D = at_key_def Let_def ch d1_def [symmetric] Option.bind.bind_lunit
  show ?thesis
  proof (cases "k \<in> fst ` set m")
    case True
    from obj_present [OF True] obtain n where n: "n < length m" "fst (m ! n) = k" "\<forall>i < n. fst (m ! i) \<noteq> k" "obj_get k m = snd (m ! n)"
      "\<And>v. obj_put k v m = m[n := (k, v)]" by blast
    from cont_child [OF R(1), of n] n(1) obtain i B where i: "node_of (jd_elems d1) p (okeys m) n i" "has d1 (Node i) (snd (m ! n)) B"
      and w: "\<And>d' j'. changed (Node i) B j' d1 d' \<Longrightarrow> only a A d1 d' \<and>
        (\<exists>A'. cont d' a OBJECT p ((okeys m)[n := (fst (okeys m ! n), j')]) A' \<and> A' \<subseteq> A \<union> fresh d1 d')" by (auto simp: okeys_nth)
    have "fst (okeys m ! n) = Some k" "\<forall>i < n. fst (okeys m ! i) \<notin> {None, Some k}" using n by (auto simp: okeys_nth)
    with i(1) obtain tl where kl: "key_loop (jd_elems d1) p p k = Some (Some i, tl)" unfolding node_of_def by blast
    have "at_key a k d = Some (Inr (Node i, d1))" using t by (auto simp: D kl)
    moreover have "changed a A (JObj (obj_put k j' m)) d d'" if "changed (Node i) B j' d1 d'" for j' d'
    proof -
      from w [OF that] obtain A' where o: "only a A d1 d'" and A': "cont d' a OBJECT p (okeys (m[n := (k, j')])) A'" "A' \<subseteq> A \<union> fresh d1 d'"
        by (auto simp: okeys_nth n(1,2) okeys_update)
      from only_trans [OF R(2) o] A' n(5) show ?thesis unfolding changed_def has_obj by fastforce
    qed
    ultimately show ?thesis using i(2) R n(4) by (auto simp: access_def only_def)
  next
    case False
    note ab = obj_absent [OF False]
    from cont_snoc [OF R(1), of "Some k"] own R obtain tl d2 p2 A2 where
      tl: "\<forall>key. (\<forall>kj \<in> set (okeys m). fst kj \<notin> {None, Some key}) \<longrightarrow> key_loop (jd_elems d1) p p key = Some (None, tl)"
      and nc: "new_child a tl (Some k) d1 = Some (length (jd_elems d1), d2)" and o2: "only a A d1 d2" "length (jd_elems d2) = Suc (length (jd_elems d1))"
      and c2: "cont d2 a OBJECT p2 (okeys m @ [(Some k, JNull)]) A2" "A2 \<subseteq> A \<union> fresh d1 d2"
      and nd: "node_of (jd_elems d2) p2 (okeys m @ [(Some k, JNull)]) (length m) (length (jd_elems d1))"
      by auto
    have kl: "key_loop (jd_elems d1) p p k = Some (None, tl)"
      using tl [rule_format, of k] False by (force simp: okeys_def)
    have at: "at_key a k d = Some (Inr (Node (length (jd_elems d1)), d2))"
      using t nc own by (auto simp: D kl new_child_def split: option.splits bind_splits)
    let ?kjs = "okeys m @ [(Some k, JNull)]"
    from cont_child [OF c2(1), of "length m"] obtain i B where i: "node_of (jd_elems d2) p2 ?kjs (length m) i" "has d2 (Node i) JNull B"
      and w: "\<And>d' j'. changed (Node i) B j' d2 d' \<Longrightarrow> only a A2 d2 d' \<and>
        (\<exists>A'. cont d' a OBJECT p2 (?kjs[length m := (fst (?kjs ! length m), j')]) A' \<and> A' \<subseteq> A2 \<union> fresh d2 d')" by (auto simp: nth_append)
    have ii: "i = length (jd_elems d1)" using node_of_unique [OF i(1) nd] .
    have "changed a A (JObj (obj_put k j' m)) d d'" if ch': "changed (Node i) B j' d2 d'" for j' d'
    proof -
      have e: "?kjs[length m := (fst (?kjs ! length m), j')] = okeys (m @ [(k, j')])" by (simp add: nth_append list_update_append)
      from w [OF ch'] obtain A' where o: "only a A2 d2 d'" and A': "cont d' a OBJECT p2 (okeys (m @ [(k, j')])) A'" "A' \<subseteq> A2 \<union> fresh d2 d'" unfolding e by blast
      note T1 = only_trans [OF R(2) o2(1)]
      have s2: "A2 \<subseteq> A \<union> fresh d d2" using c2(2) T1 R(3) by (auto simp: fresh_def only_def)
      note T2 = only_trans [OF T1(1) o s2]
      have "A' \<subseteq> A \<union> fresh d d'" using A'(2) s2 T2(2,3) by blast
      with T2(1) A'(1) ab show ?thesis unfolding changed_def has_obj by auto
    qed
    with at i(2) ii o2 R ab show ?thesis by (auto simp: access_def only_def)
  qed
qed

subsection \<open>Access by index\<close>

fun arr_view :: "json \<Rightarrow> json list option" where
  "arr_view JNull = Some []"
| "arr_view (JArr js) = Some js"
| "arr_view _ = None"

definition arr_get :: "nat \<Rightarrow> json list \<Rightarrow> json" where
  "arr_get n js = (if n < length js then js ! n else JNull)"

definition arr_put :: "nat \<Rightarrow> json \<Rightarrow> json list \<Rightarrow> json list" where
  "arr_put n v js = (if n < length js then js[n := v] else js @ replicate (n - length js) JNull @ [v])"

text \<open>The node found last is the tail of a longer search.\<close>

lemma index_last:
  assumes "reps es p kjs A" "kjs \<noteq> []" "index_loop es p i0 tail0 (i0 + length kjs - 1) = Some (Some m, x)" "index \<ge> i0 + length kjs"
  shows "index_loop es p i0 tail0 index = Some (None, i0 + length kjs, Some m)"
  using assms
proof (induction kjs arbitrary: p A i0 tail0)
  case (Cons kj kjs)
  obtain k j where kj: "kj = (k, j)" by fastforce
  from Cons.prems(1) [unfolded kj] obtain n A0 B0 where n: "p = Some n" "n < length es" "reps es (je_next (es ! n)) kjs B0" by (auto elim!: reps_ConsE)
  show ?case
  proof (cases "kjs = []")
    case True
    then have "je_next (es ! n) = None" using n(3) by (auto elim: reps_NilE)
    moreover have "m = n" using Cons.prems(3) True n by (subst (asm) index_loop.simps) simp
    ultimately show ?thesis using True n Cons.prems(4) by (simp add: index_loop.simps [of es "Some n"] index_loop.simps [of es None])
  next
    case False
    then have "length kjs > 0" by simp
    then have "index_loop es (je_next (es ! n)) (i0 + 1) (Some n) (i0 + 1 + length kjs - 1) = Some (Some m, x)"
      using Cons.prems(3) n by (subst (asm) index_loop.simps) simp
    from Cons.IH [OF n(3) False this] Cons.prems(4) show ?thesis using n by (subst index_loop.simps) simp
  qed
qed simp

lemma extend_loop_Suc:
  "extend_loop (Suc n) a tail d = (if owned d a then Option.bind (new_child a tail None d) (\<lambda>(m, d'). extend_loop n a (Some m) d') else None)"
proof (cases "alloc_element NULL_VALUE d")
  case (Some md)
  obtain m d1 where md: "md = (m, d1)" by fastforce
  have k: "jput_el (Node m) ((el d1 (Node m))\<lparr>je_key := None\<rparr>) d1 = d1"
    using Some by (cases d) (auto simp: md alloc_element_def je_new_def split: if_splits)
  show ?thesis
    unfolding extend_loop.simps new_child_def Some md Option.bind.bind_lunit prod.case Let_def k by simp
qed (simp add: new_child_def)

lemma extend_loop_ok:
  assumes "cont d a t p kjs A" "index_loop (jd_elems d) p 0 p (length kjs) = Some (None, length kjs, tail)" "owned d a" "length (jd_elems d) + n \<le> jd_cap d" "n > 0"
  shows "\<exists>m d' p' A'. extend_loop n a tail d = Some (Some m, d') \<and> only a A d d' \<and> length (jd_elems d') = length (jd_elems d) + n \<and>
    cont d' a t p' (kjs @ replicate n (None, JNull)) A' \<and> A' \<subseteq> A \<union> fresh d d' \<and> node_of (jd_elems d') p' (kjs @ replicate n (None, JNull)) (length kjs + n - 1) m"
  using assms
proof (induction n arbitrary: d p kjs A tail)
  case (Suc n)
  let ?m = "length (jd_elems d)"
  from cont_snoc [OF Suc.prems(1), of None] Suc.prems(4) obtain tl d2 p2 A2 where
    tl: "\<forall>index \<ge> length kjs. index_loop (jd_elems d) p 0 p index = Some (None, length kjs, tl)"
    and nc: "new_child a tl None d = Some (?m, d2)" and o2: "only a A d d2" "length (jd_elems d2) = Suc ?m"
    and c2: "cont d2 a t p2 (kjs @ [(None, JNull)]) A2" "A2 \<subseteq> A \<union> fresh d d2"
    and nd: "node_of (jd_elems d2) p2 (kjs @ [(None, JNull)]) (length kjs) ?m" by auto
  have tail: "tl = tail" using tl Suc.prems(2) by auto
  have own2: "owned d2 a" "jd_cap d2 = jd_cap d" using Suc.prems(3) o2(1) by (cases a; auto simp: only_def)+
  have il: "index_loop (jd_elems d2) p2 0 p2 (length (kjs @ [(None, JNull)])) = Some (None, length (kjs @ [(None, JNull)]), Some ?m)"
  proof -
    obtain x where "index_loop (jd_elems d2) p2 0 p2 (0 + length kjs) = Some (Some ?m, x)" using nd unfolding node_of_def by blast
    with index_last [of "jd_elems d2" p2 "kjs @ [(None, JNull)]" A2 0 p2 ?m x "Suc (length kjs)"] c2(1) show ?thesis by (auto simp: cont_def)
  qed
  have step: "extend_loop (Suc n) a tail d = extend_loop n a (Some ?m) d2"
    using nc Suc.prems(3) by (simp add: tail extend_loop_Suc del: extend_loop.simps)
  show ?case
  proof (cases "n = 0")
    case True
    show ?thesis
      by (intro exI [of _ ?m] exI [of _ d2] exI [of _ p2] exI [of _ A2]) (use True step o2 c2 nd in auto)
  next
    case False
    from Suc.IH [OF c2(1) il own2(1)] False Suc.prems(4) own2 o2(2) obtain m d3 p3 A3 where 3: "extend_loop n a (Some ?m) d2 = Some (Some m, d3)" "only a A2 d2 d3"
      "length (jd_elems d3) = length (jd_elems d2) + n" "cont d3 a t p3 ((kjs @ [(None, JNull)]) @ replicate n (None, JNull)) A3" "A3 \<subseteq> A2 \<union> fresh d2 d3"
      "node_of (jd_elems d3) p3 ((kjs @ [(None, JNull)]) @ replicate n (None, JNull)) (length (kjs @ [(None, JNull)]) + n - 1) m" by auto
    note T = only_trans [OF o2(1) 3(2) c2(2)]
    have "A3 \<subseteq> A \<union> fresh d d3" using 3(5) c2(2) T(2,3) by blast
    with 3 T(1) step o2(2) show ?thesis by (intro exI [of _ m] exI [of _ d3] exI [of _ p3] exI [of _ A3]) auto
  qed
qed simp

lemma at_index_access:
  assumes h: "has d a j A" and m: "arr_view j = Some js" and own: "owned d a" "length (jd_elems d) + (n + 1 - length js) \<le> jd_cap d"
  shows "access a A d (n + 1 - length js) (arr_get n js) (\<lambda>v. JArr (arr_put n v js)) (at_index a n d)"
proof -
  define d1 where "d1 = jput_el a ((el d a)\<lparr>je_type := ARRAY\<rparr>) d"
  obtain t p kjs where c0: "cont d a t p kjs A" and t: "t = ARRAY \<or> t = NULL_VALUE" and js: "js = map snd kjs"
    using h m by (cases j) (auto simp: has_arr has_null)
  note R = retype [OF c0 d1_def]
  have ch: "child (el d a) = Some p" "je_type (el d a) = t" using c0 by (auto simp: cont_def child_def)
  note D = at_index_def Let_def ch d1_def [symmetric] Option.bind.bind_lunit
  have arr: "has d' a (JArr (map snd ks)) A'" if "cont d' a ARRAY p' ks A'" for d' p' ks A' using that by (auto simp: has_arr)
  show ?thesis
  proof (cases "n < length kjs")
    case True
    from cont_child [OF R(1) True] obtain i B where i: "node_of (jd_elems d1) p kjs n i" "has d1 (Node i) (snd (kjs ! n)) B"
      and w: "\<And>d' j'. changed (Node i) B j' d1 d' \<Longrightarrow> only a A d1 d' \<and>
        (\<exists>A'. cont d' a ARRAY p (kjs[n := (fst (kjs ! n), j')]) A' \<and> A' \<subseteq> A \<union> fresh d1 d')" by blast
    obtain tl where il: "index_loop (jd_elems d1) p 0 p n = Some (Some i, n, tl)" using i(1) unfolding node_of_def by (metis add_0)
    have "at_index a n d = Some (Inr (Node i, d1))" using t by (auto simp: D il)
    moreover have "changed a A (JArr (arr_put n j' js)) d d'" if "changed (Node i) B j' d1 d'" for j' d'
    proof -
      from w [OF that] obtain A' where o: "only a A d1 d'" and A': "cont d' a ARRAY p (kjs[n := (fst (kjs ! n), j')]) A'" "A' \<subseteq> A \<union> fresh d1 d'" by blast
      have "map snd (kjs[n := (fst (kjs ! n), j')]) = arr_put n j' js" using True by (simp add: js arr_put_def map_update)
      with arr [OF A'(1)] only_trans [OF R(2) o] A'(2) show ?thesis unfolding changed_def by fastforce
    qed
    ultimately show ?thesis using i(2) R True by (auto simp: access_def only_def arr_get_def js)
  next
    case False
    have r1: "reps (jd_elems d1) p kjs A" using R(1) by (simp add: cont_def)
    have cap1: "length (jd_elems d1) < jd_cap d1" using own R False by (simp add: js)
    from cont_snoc [OF R(1) cap1, of None] obtain tl where
      tl: "\<forall>index \<ge> length kjs. index_loop (jd_elems d1) p 0 p index = Some (None, length kjs, tl)" by auto
    let ?c = "n + 1 - length kjs"
    let ?ks = "kjs @ replicate ?c (None, JNull)"
    have oc: "owned d1 a" "length (jd_elems d1) + ?c \<le> jd_cap d1" "?c > 0" using own R False by (auto simp: js)
    from extend_loop_ok [OF R(1) _ oc, of tl] tl obtain m d2 p2 A2 where 2: "extend_loop ?c a tl d1 = Some (Some m, d2)" "only a A d1 d2"
      "length (jd_elems d2) = length (jd_elems d1) + ?c" "cont d2 a ARRAY p2 ?ks A2" "A2 \<subseteq> A \<union> fresh d1 d2" "node_of (jd_elems d2) p2 ?ks (length kjs + ?c - 1) m" by auto
    have ln: "length kjs + ?c - 1 = n" using False by simp
    have at: "at_index a n d = Some (Inr (Node m, d2))"
      using t tl False 2(1) by (auto simp: D)
    have nk: "?ks ! n = (None, JNull)" using False by (simp add: nth_append)
    have nl: "n < length ?ks" using False by simp
    from cont_child [OF 2(4) nl, unfolded nk fst_conv snd_conv] obtain i B where i: "node_of (jd_elems d2) p2 ?ks n i" "has d2 (Node i) JNull B"
      and w: "\<And>d' j'. changed (Node i) B j' d2 d' \<Longrightarrow> only a A2 d2 d' \<and>
        (\<exists>A'. cont d' a ARRAY p2 (?ks[n := (None, j')]) A' \<and> A' \<subseteq> A2 \<union> fresh d2 d')" by blast
    have ii: "i = m" by (rule node_of_unique [OF i(1) 2(6) [unfolded ln]])
    have "changed a A (JArr (arr_put n j' js)) d d'" if ch': "changed (Node i) B j' d2 d'" for j' d'
    proof -
      have "?ks[n := (None, j')] = kjs @ (replicate (n - length kjs) (None, JNull) @ [(None, JNull)])[n - length kjs := (None, j')]"
        using False by (simp add: list_update_append Suc_diff_le replicate_append_same del: replicate_Suc) (simp add: replicate_app_Cons_same replicate_append_same)
      also have "\<dots> = kjs @ replicate (n - length kjs) (None, JNull) @ [(None, j')]" by (simp add: list_update_append)
      finally have e: "map snd (?ks[n := (None, j')]) = arr_put n j' js" using False by (simp add: nk js arr_put_def)
      from w [OF ch'] obtain A' where o: "only a A2 d2 d'" and A': "cont d' a ARRAY p2 (?ks[n := (None, j')]) A'" "A' \<subseteq> A2 \<union> fresh d2 d'" by blast
      note T1 = only_trans [OF R(2) 2(2)]
      have s2: "A2 \<subseteq> A \<union> fresh d d2" using 2(5) T1 R(3) by (auto simp: fresh_def only_def)
      note T2 = only_trans [OF T1(1) o s2]
      have "A' \<subseteq> A \<union> fresh d d'" using A'(2) s2 T2(2,3) by blast
      with T2(1) arr [OF A'(1)] e show ?thesis unfolding changed_def by auto
    qed
    with at i(2) ii 2(2,3) R False show ?thesis by (auto simp: access_def only_def arr_get_def js)
  qed
qed


subsection \<open>Paths\<close>

text \<open>\<open>d[k1][k2]\<dots>\<close> with keys and indices, and an assignment to it.\<close>

datatype jstep = Key string | Idx nat

fun jd_at :: "jstep list \<Rightarrow> addr \<Rightarrow> jdoc \<Rightarrow> (json_error + addr \<times> jdoc) option" where
  "jd_at [] a d = Some (Inr (a, d))"
| "jd_at (p # ps) a d = (case (case p of Key k \<Rightarrow> at_key a k d | Idx n \<Rightarrow> at_index a n d) of
     None \<Rightarrow> None
   | Some (Inl err) \<Rightarrow> Some (Inl err)
   | Some (Inr (b, d1)) \<Rightarrow> jd_at ps b d1)"

definition jd_set :: "jstep list \<Rightarrow> json \<Rightarrow> addr \<Rightarrow> jdoc \<Rightarrow> (json_error + jdoc) option" where
  "jd_set ps v a d = (case jd_at ps a d of
     None \<Rightarrow> None
   | Some (Inl err) \<Rightarrow> Some (Inl err)
   | Some (Inr (b, d1)) \<Rightarrow> map_option Inr (assign_scalar b v d1))"

text \<open>The same on a tree.\<close>

fun jset :: "jstep list \<Rightarrow> json \<Rightarrow> json \<Rightarrow> json_error + json" where
  "jset [] v j = Inr v"
| "jset (Key k # ps) v j = (case obj_view j of None \<Rightarrow> Inl ObjectExpected
     | Some m \<Rightarrow> (case jset ps v (obj_get k m) of Inl err \<Rightarrow> Inl err | Inr v' \<Rightarrow> Inr (JObj (obj_put k v' m))))"
| "jset (Idx n # ps) v j = (case arr_view j of None \<Rightarrow> Inl ArrayExpected
     | Some js \<Rightarrow> (case jset ps v (arr_get n js) of Inl err \<Rightarrow> Inl err | Inr v' \<Rightarrow> Inr (JArr (arr_put n v' js))))"

text \<open>The elements a path may need, and the texts that are C strings.\<close>

fun path_cost :: "jstep list \<Rightarrow> nat" where
  "path_cost [] = 0"
| "path_cost (Key k # ps) = 1 + path_cost ps"
| "path_cost (Idx n # ps) = (n + 1) + path_cost ps"

fun path_ok :: "jstep list \<Rightarrow> bool" where
  "path_ok [] \<longleftrightarrow> True"
| "path_ok (Key k # ps) \<longleftrightarrow> c_string k \<and> path_ok ps"
| "path_ok (Idx n # ps) \<longleftrightarrow> path_ok ps"

definition scalar_ok :: "json \<Rightarrow> bool" where
  "scalar_ok v \<longleftrightarrow> scalar v \<noteq> None \<and> (case v of JStr s \<Rightarrow> c_string s | _ \<Rightarrow> True)"

lemma assign_scalar_ok:
  assumes "has d a j A" "scalar_ok v"
  shows "\<exists>d'. assign_scalar a v d = Some d' \<and> changed a A v d d' \<and> length (jd_elems d') = length (jd_elems d)"
proof -
  obtain t n x where s: "scalar v = Some (t, n, x)" using assms(2) by (auto simp: scalar_ok_def)
  define d' where "d' = jput_el a ((el d a)\<lparr>je_type := t, je_size := n, je_val := x\<rparr>) d"
  have v: "valid d a" using assms(1) by (simp add: has_def)
  have "assign_scalar a v d = Some d'" using assms(2) s by (auto simp: assign_scalar_def scalar_ok_def d'_def split: json.splits)
  moreover have "has d' a v {}" using v s by (cases a) (auto simp: has_def d'_def intro: rep_scalar)
  moreover have "only a A d d'" using v by (auto simp: only_def d'_def jput_nth)
  ultimately show ?thesis by (auto simp: changed_def d'_def)
qed

lemma at_key_error: "has d a j A \<Longrightarrow> obj_view j = None \<Longrightarrow> at_key a k d = Some (Inl ObjectExpected)"
  by (cases j) (auto simp: has_def at_key_def Let_def elim: rep.cases)

lemma at_index_error: "has d a j A \<Longrightarrow> arr_view j = None \<Longrightarrow> at_index a n d = Some (Inl ArrayExpected)"
  by (cases j) (auto simp: has_def at_index_def Let_def elim: rep.cases)

lemma jd_set_Cons:
  "jd_set (p # ps) v a d = (case (case p of Key k \<Rightarrow> at_key a k d | Idx n \<Rightarrow> at_index a n d) of
     None \<Rightarrow> None | Some (Inl err) \<Rightarrow> Some (Inl err) | Some (Inr (b, d1)) \<Rightarrow> jd_set ps v b d1)"
  by (simp add: jd_set_def split: option.splits sum.splits prod.splits)

text \<open>An assignment through the document is the assignment on the tree.\<close>

definition set_as :: "addr \<Rightarrow> nat set \<Rightarrow> jdoc \<Rightarrow> json_error + json \<Rightarrow> (json_error + jdoc) option \<Rightarrow> bool" where
  "set_as a A d res out \<longleftrightarrow> (case res of Inl err \<Rightarrow> out = Some (Inl err) | Inr j' \<Rightarrow> \<exists>d'. out = Some (Inr d') \<and> changed a A j' d d')"

lemma jd_set_tree:
  assumes "has d a j A" "owned d a" "path_ok ps" "scalar_ok v" "length (jd_elems d) + path_cost ps \<le> jd_cap d"
  shows "set_as a A d (jset ps v j) (jd_set ps v a d)"
  using assms
proof (induction ps v j arbitrary: d a A rule: jset.induct)
  case (1 v j)
  from assign_scalar_ok [OF 1(1,4)] show ?case by (auto simp: jd_set_def set_as_def)
next
  case (2 k ps v j)
  show ?case
  proof (cases "obj_view j")
    case None
    with at_key_error [OF 2(2) None] show ?thesis by (simp add: jd_set_Cons set_as_def)
  next
    case (Some m)
    from at_key_access [OF 2(2) Some 2(3), of k] 2(4,6) obtain b B d1 where b: "at_key a k d = Some (Inr (b, d1))" "owned d1 b" "jd_cap d1 = jd_cap d"
      "length (jd_elems d1) \<le> length (jd_elems d) + 1" "has d1 b (obj_get k m) B" "\<And>d' j'. changed b B j' d1 d' \<Longrightarrow> changed a A (JObj (obj_put k j' m)) d d'"
      by (auto simp: access_def)
    from 2(1) [OF Some b(5,2)] 2(4,5,6) b(3,4) have "set_as b B d1 (jset ps v (obj_get k m)) (jd_set ps v b d1)" by auto
    with b(6) show ?thesis by (auto simp: jd_set_Cons b(1) Some set_as_def split: sum.splits)
  qed
next
  case (3 n ps v j)
  show ?case
  proof (cases "arr_view j")
    case None
    with at_index_error [OF 3(2) None] show ?thesis by (simp add: jd_set_Cons set_as_def)
  next
    case (Some js)
    have cap: "length (jd_elems d) + (n + 1 - length js) \<le> jd_cap d" using 3(6) by simp
    from at_index_access [OF 3(2) Some 3(3) cap] obtain b B d1 where b: "at_index a n d = Some (Inr (b, d1))" "owned d1 b" "jd_cap d1 = jd_cap d"
      "length (jd_elems d1) \<le> length (jd_elems d) + (n + 1 - length js)" "has d1 b (arr_get n js) B"
      "\<And>d' j'. changed b B j' d1 d' \<Longrightarrow> changed a A (JArr (arr_put n j' js)) d d'"
      by (auto simp: access_def)
    from 3(1) [OF Some b(5,2)] 3(4,5,6) b(3,4) have "set_as b B d1 (jset ps v (arr_get n js)) (jd_set ps v b d1)" by auto
    with b(6) show ?thesis by (auto simp: jd_set_Cons b(1) Some set_as_def split: sum.splits)
  qed
qed


subsection \<open>Copies\<close>

text \<open>What copying a source tree into a target tree gives: objects are merged, arrays overwritten from the front, empty containers leave the target.\<close>

function jmerge :: "(bool \<Rightarrow> json) \<Rightarrow> json \<Rightarrow> json \<Rightarrow> json_error + json"
  and jmerge_obj :: "(bool \<Rightarrow> json) \<Rightarrow> (string \<times> json) list \<Rightarrow> json \<Rightarrow> json_error + json"
  and jmerge_arr :: "(bool \<Rightarrow> json) \<Rightarrow> json list \<Rightarrow> nat \<Rightarrow> json \<Rightarrow> json_error + json" where
  "jmerge gb v j = (case v of JObj kvs \<Rightarrow> jmerge_obj gb kvs j | JArr vs \<Rightarrow> jmerge_arr gb vs 0 j | JBool b \<Rightarrow> Inr (gb b) | _ \<Rightarrow> Inr v)"
| "jmerge_obj gb [] j = Inr j"
| "jmerge_obj gb ((k, v) # kvs) j = (case obj_view j of None \<Rightarrow> Inl ObjectExpected
     | Some m \<Rightarrow> (case jmerge gb v (obj_get k m) of Inl err \<Rightarrow> Inl err | Inr v' \<Rightarrow> jmerge_obj gb kvs (JObj (obj_put k v' m))))"
| "jmerge_arr gb [] i j = Inr j"
| "jmerge_arr gb (v # vs) i j = (case arr_view j of None \<Rightarrow> Inl ArrayExpected
     | Some js \<Rightarrow> (case jmerge gb v (arr_get i js) of Inl err \<Rightarrow> Inl err | Inr v' \<Rightarrow> jmerge_arr gb vs (i + 1) (JArr (arr_put i v' js))))"
  by pat_completeness auto
termination
  by (relation "measure (\<lambda>x. case x of Inl (_, v, _) \<Rightarrow> 2 * size v + 1 | Inr (Inl (_, kvs, _)) \<Rightarrow> 2 * size_list (size_prod (\<lambda>_. 0) size) kvs
      | Inr (Inr (_, vs, _)) \<Rightarrow> 2 * size_list size vs)") auto

declare jmerge.simps [simp del]

text \<open>The elements a copy may need, and sources whose texts are C strings.\<close>

function jcost :: "json \<Rightarrow> nat" and jcost_obj :: "(string \<times> json) list \<Rightarrow> nat" and jcost_arr :: "json list \<Rightarrow> nat" where
  "jcost v = (case v of JObj kvs \<Rightarrow> jcost_obj kvs | JArr vs \<Rightarrow> jcost_arr vs | _ \<Rightarrow> 0)"
| "jcost_obj [] = 0"
| "jcost_obj ((k, v) # kvs) = 1 + jcost v + jcost_obj kvs"
| "jcost_arr [] = 0"
| "jcost_arr (v # vs) = 1 + jcost v + jcost_arr vs"
  by pat_completeness auto
termination
  by (relation "measure (\<lambda>x. case x of Inl v \<Rightarrow> 2 * size v + 1 | Inr (Inl kvs) \<Rightarrow> 2 * size_list (size_prod (\<lambda>_. 0) size) kvs | Inr (Inr vs) \<Rightarrow> 2 * size_list size vs)") auto

declare jcost.simps [simp del]

fun texts_ok :: "json \<Rightarrow> bool" where
  "texts_ok (JStr s) \<longleftrightarrow> c_string s"
| "texts_ok (JObj kvs) \<longleftrightarrow> (\<forall>(k, v) \<in> set kvs. c_string k \<and> texts_ok v)"
| "texts_ok (JArr vs) \<longleftrightarrow> (\<forall>v \<in> set vs. texts_ok v)"
| "texts_ok _ \<longleftrightarrow> True"

definition copied_as :: "addr \<Rightarrow> nat set \<Rightarrow> jdoc \<Rightarrow> nat \<Rightarrow> json_error + json \<Rightarrow> (json_error + jdoc) option \<Rightarrow> bool" where
  "copied_as a A d n res out \<longleftrightarrow> (case res of Inl err \<Rightarrow> out = Some (Inl err)
     | Inr j' \<Rightarrow> \<exists>d'. out = Some (Inr d') \<and> changed a A j' d d' \<and> length (jd_elems d') \<le> length (jd_elems d) + n)"

lemma changed_refl: "has d a j A \<Longrightarrow> changed a A j d d"
  by (auto simp: changed_def only_refl)

lemma owned_only: "only a A d d' \<Longrightarrow> jd_cap d' = jd_cap d \<and> owned d' b = owned d b"
  by (cases b) (auto simp: only_def)

lemma copied_trans:
  assumes "changed a A j1 d d1" "length (jd_elems d1) \<le> length (jd_elems d) + n"
    "\<And>A1. has d1 a j1 A1 \<Longrightarrow> copied_as a A1 d1 n' res out" "n + n' \<le> n''"
  shows "copied_as a A d n'' res out"
proof -
  obtain A1 where A1: "has d1 a j1 A1" using assms(1) by (auto simp: changed_def)
  show ?thesis
  proof (cases res)
    case (Inl err)
    with assms(3) [OF A1] show ?thesis by (simp add: copied_as_def)
  next
    case (Inr j2)
    from assms(3) [OF A1] obtain d2 where d2: "out = Some (Inr d2)" "length (jd_elems d2) \<le> length (jd_elems d1) + n'" by (auto simp: copied_as_def Inr)
    have "changed a A j2 d d2"
      by (rule changed_trans [OF assms(1)]) (use assms(3) d2(1) in \<open>auto simp: copied_as_def Inr\<close>)
    with d2 assms(2,4) show ?thesis by (auto simp: copied_as_def Inr)
  qed
qed

lemma jcopy_merge:
  "has d a j A \<Longrightarrow> owned d a \<Longrightarrow> texts_ok v \<Longrightarrow> (\<And>b. scalar_ok (gb b)) \<Longrightarrow> length (jd_elems d) + jcost v \<le> jd_cap d \<Longrightarrow>
     copied_as a A d (jcost v) (jmerge gb v j) (jcopy gb v a d)"
  "has d a j A \<Longrightarrow> owned d a \<Longrightarrow> (\<forall>(k, v) \<in> set kvs. c_string k \<and> texts_ok v) \<Longrightarrow> (\<And>b. scalar_ok (gb b)) \<Longrightarrow> length (jd_elems d) + jcost_obj kvs \<le> jd_cap d \<Longrightarrow>
     copied_as a A d (jcost_obj kvs) (jmerge_obj gb kvs j) (jcopy_obj gb kvs a d)"
  "has d a j A \<Longrightarrow> owned d a \<Longrightarrow> (\<forall>v \<in> set vs. texts_ok v) \<Longrightarrow> (\<And>b. scalar_ok (gb b)) \<Longrightarrow> length (jd_elems d) + jcost_arr vs \<le> jd_cap d \<Longrightarrow>
     (\<forall>js. arr_view j = Some js \<longrightarrow> i \<le> length js) \<Longrightarrow>
     copied_as a A d (jcost_arr vs) (jmerge_arr gb vs i j) (jcopy_arr gb vs i a d)"
proof (induction gb v j and gb kvs j and gb vs i j arbitrary: d a A and d a A and d a A rule: jmerge_jmerge_obj_jmerge_arr.induct)
  case (1 gb v j)
  have sc: "copied_as a A d 0 (Inr w) (map_option Inr (assign_scalar a w d))" if "scalar_ok w" for w
    using assign_scalar_ok [OF 1(3) that] by (auto simp: copied_as_def)
  show ?case
  proof (cases v)
    case (JObj kvs)
    from 1(2) [OF JObj 1(3,4)] 1(5-7) show ?thesis by (simp add: JObj jmerge.simps jcopy.simps jcost.simps)
  next
    case (JArr vs)
    from 1(1) [OF JArr 1(3,4)] 1(5-7) show ?thesis by (simp add: JArr jmerge.simps jcopy.simps jcost.simps)
  qed (use sc 1(5,6) in \<open>simp_all add: jmerge.simps jcopy.simps jcost.simps scalar_ok_def\<close>)
next
  case (2 gb j)
  then show ?case by (auto simp: copied_as_def changed_refl)
next
  case (3 gb k v kvs j)
  show ?case
  proof (cases "obj_view j")
    case None
    with at_key_error [OF 3(3) None] show ?thesis by (simp add: copied_as_def)
  next
    case (Some m)
    from at_key_access [OF 3(3) Some 3(4), of k] 3(5,7) obtain b B d1 where b: "at_key a k d = Some (Inr (b, d1))" "owned d1 b" "jd_cap d1 = jd_cap d"
      "length (jd_elems d1) \<le> length (jd_elems d) + 1" "has d1 b (obj_get k m) B" "\<And>d' j'. changed b B j' d1 d' \<Longrightarrow> changed a A (JObj (obj_put k j' m)) d d'"
      by (auto simp: access_def)
    have cv: "copied_as b B d1 (jcost v) (jmerge gb v (obj_get k m)) (jcopy gb v b d1)"
      by (rule 3(1) [OF Some b(5,2)]) (use 3(5-7) b(3,4) in auto)
    show ?thesis
    proof (cases "jmerge gb v (obj_get k m)")
      case (Inl err)
      with cv show ?thesis by (simp add: copied_as_def b(1) Some)
    next
      case (Inr v')
      with cv obtain d2 where d2: "jcopy gb v b d1 = Some (Inr d2)" "changed b B v' d1 d2" "length (jd_elems d2) \<le> length (jd_elems d1) + jcost v" by (auto simp: copied_as_def)
      note ch = b(6) [OF d2(2)]
      have o: "jd_cap d2 = jd_cap d" "owned d2 a" using owned_only [of a A d d2 a] ch 3(4) by (auto simp: changed_def)
      have "copied_as a A2 d2 (jcost_obj kvs) (jmerge_obj gb kvs (JObj (obj_put k v' m))) (jcopy_obj gb kvs a d2)"
        if "has d2 a (JObj (obj_put k v' m)) A2" for A2
        by (rule 3(2) [OF Some Inr that o(2)]) (use 3(5-7) o b(4) d2(3) in auto)
      from copied_trans [OF ch _ this, of "1 + jcost v" "jcost_obj ((k, v) # kvs)"] b(4) d2(3) show ?thesis by (simp add: b(1) d2(1) Some Inr)
    qed
  qed
next
  case (4 gb i j)
  then show ?case by (auto simp: copied_as_def changed_refl)
next
  case (5 gb v vs i j)
  show ?case
  proof (cases "arr_view j")
    case None
    with at_index_error [OF 5(3) None] show ?thesis by (simp add: copied_as_def)
  next
    case (Some js)
    have i: "i + 1 - length js \<le> 1" using 5(8) Some by auto
    have cap: "length (jd_elems d) + (i + 1 - length js) \<le> jd_cap d" using i 5(7) by simp
    from at_index_access [OF 5(3) Some 5(4) cap] i obtain b B d1 where b: "at_index a i d = Some (Inr (b, d1))" "owned d1 b" "jd_cap d1 = jd_cap d"
      "length (jd_elems d1) \<le> length (jd_elems d) + 1" "has d1 b (arr_get i js) B" "\<And>d' j'. changed b B j' d1 d' \<Longrightarrow> changed a A (JArr (arr_put i j' js)) d d'"
      by (auto simp: access_def)
    have cv: "copied_as b B d1 (jcost v) (jmerge gb v (arr_get i js)) (jcopy gb v b d1)"
      by (rule 5(1) [OF Some b(5,2)]) (use 5(5-7) b(3,4) in auto)
    show ?thesis
    proof (cases "jmerge gb v (arr_get i js)")
      case (Inl err)
      with cv show ?thesis by (simp add: copied_as_def b(1) Some)
    next
      case (Inr v')
      with cv obtain d2 where d2: "jcopy gb v b d1 = Some (Inr d2)" "changed b B v' d1 d2" "length (jd_elems d2) \<le> length (jd_elems d1) + jcost v" by (auto simp: copied_as_def)
      note ch = b(6) [OF d2(2)]
      have o: "jd_cap d2 = jd_cap d" "owned d2 a" using owned_only [of a A d d2 a] ch 5(4) by (auto simp: changed_def)
      have "copied_as a A2 d2 (jcost_arr vs) (jmerge_arr gb vs (i + 1) (JArr (arr_put i v' js))) (jcopy_arr gb vs (i + 1) a d2)"
        if "has d2 a (JArr (arr_put i v' js)) A2" for A2
        by (rule 5(2) [OF Some Inr that o(2)]) (use 5(5-8) Some o b(4) d2(3) in \<open>auto simp: arr_put_def\<close>)
      from copied_trans [OF ch _ this, of "1 + jcost v" "jcost_arr (v # vs)"] b(4) d2(3) show ?thesis by (simp add: b(1) d2(1) Some Inr)
    qed
  qed
qed

end
