(* ===== verification/JsonTexts.thy ===== *)
theory JsonTexts
  imports JsonTrees Strings
begin

text \<open>
  What a user of a document of \<open>util/Json.hpp\<close> sees: assignments and copies from the root, the typed getters, the text that \<open>print\<close> writes, the comments
  that are removed before parsing, and \<open>push_back\<close>.
\<close>

subsection \<open>Documents from the root\<close>

text \<open>C9: An assignment \<open>d[k1]\<dots>[kn] = v\<close> through keys and indices does to the linked elements of a document what the assignment does to the tree they
  represent: missing members appear as null, an index past the end extends the array with nulls, nothing else of the tree changes, and a step through a
  value that is not a container of the right kind is the matching error. This holds while the elements fit in the capacity reserved.\<close>

theorem json_assign_tree:
  assumes "has d Root j A" "jd_owned d" "path_ok ps" "scalar_ok v" "length (jd_elems d) + path_cost ps \<le> jd_cap d"
  shows "case jset ps v j of
      Inl err \<Rightarrow> jd_set ps v Root d = Some (Inl err)
    | Inr j' \<Rightarrow> \<exists>d' A'. jd_set ps v Root d = Some (Inr d') \<and> has d' Root j' A' \<and> jd_cap d' = jd_cap d \<and> jd_owned d'"
  using jd_set_tree [OF assms(1) _ assms(3-5)] assms(2) by (auto simp: set_as_def changed_def only_def split: sum.splits)

lemma new_has_null: "has (jd_new NULL_VALUE n) Root JNull {}"
  by (simp add: has_def jd_new_def je_new_def)

theorem json_assign_tree_witness:
  "\<exists>d' A'. jd_set [Key ''a'', Idx 1, Key ''b''] (JStr ''x'') Root (jd_new NULL_VALUE 8) = Some (Inr d') \<and>
     has d' Root (JObj [(''a'', JArr [JNull, JObj [(''b'', JStr ''x'')]])]) A'"
  using json_assign_tree [OF new_has_null, of 8 "[Key ''a'', Idx 1, Key ''b'']" "JStr ''x''"]
  by (fastforce simp: jd_new_def c_string_def scalar_ok_def arr_get_def arr_put_def)

text \<open>
  What a source without repeated keys becomes in a new document: an empty object or array leaves the null that was there before, and a Boolean is what \<open>gb\<close> makes
  of it. Without empty containers, a parsed source comes out as it is.
\<close>

fun keys_once :: "json \<Rightarrow> bool" where
  "keys_once (JArr js) \<longleftrightarrow> (\<forall>j \<in> set js. keys_once j)"
| "keys_once (JObj kvs) \<longleftrightarrow> distinct (map fst kvs) \<and> (\<forall>(k, v) \<in> set kvs. keys_once v)"
| "keys_once _ \<longleftrightarrow> True"

fun copied :: "(bool \<Rightarrow> json) \<Rightarrow> json \<Rightarrow> json" where
  "copied gb (JBool b) = gb b"
| "copied gb (JArr vs) = (if vs = [] then JNull else JArr (map (copied gb) vs))"
| "copied gb (JObj kvs) = (if kvs = [] then JNull else JObj (map (\<lambda>(k, v). (k, copied gb v)) kvs))"
| "copied gb v = v"

fun no_empties :: "json \<Rightarrow> bool" where
  "no_empties (JObj kvs) \<longleftrightarrow> kvs \<noteq> [] \<and> (\<forall>(k, v) \<in> set kvs. no_empties v)"
| "no_empties (JArr vs) \<longleftrightarrow> vs \<noteq> [] \<and> (\<forall>v \<in> set vs. no_empties v)"
| "no_empties _ \<longleftrightarrow> True"

lemma copied_plain: "no_empties v \<Longrightarrow> copied JBool v = v"
proof (induction v rule: no_empties.induct)
  case (1 kvs)
  then have "map (\<lambda>(k, v). (k, copied JBool v)) kvs = kvs" by (intro map_idI) auto
  with 1 show ?case by simp
next
  case (2 vs)
  then have "map (copied JBool) vs = vs" by (intro map_idI) auto
  with 2 show ?case by simp
qed simp_all

lemma jmerge_copied:
  "keys_once v \<Longrightarrow> j = JNull \<Longrightarrow> jmerge gb v j = Inr (copied gb v)"
  "(\<forall>(k, v) \<in> set kvs. keys_once v) \<Longrightarrow> obj_view j = Some m \<Longrightarrow> distinct (map fst (m @ kvs)) \<Longrightarrow>
     jmerge_obj gb kvs j = Inr (if kvs = [] then j else JObj (m @ map (\<lambda>(k, v). (k, copied gb v)) kvs))"
  "(\<forall>v \<in> set vs. keys_once v) \<Longrightarrow> arr_view j = Some js \<Longrightarrow> length js = i \<Longrightarrow>
     jmerge_arr gb vs i j = Inr (if vs = [] then j else JArr (js @ map (copied gb) vs))"
proof (induction gb v j and gb kvs j and gb vs i j arbitrary: and m and js rule: jmerge_jmerge_obj_jmerge_arr.induct)
  case (1 gb v j)
  then show ?case by (cases v) (auto simp: jmerge.simps)
next
  case (3 gb k v kvs j)
  have k: "k \<notin> fst ` set m" using 3(5) by auto
  have v: "jmerge gb v JNull = Inr (copied gb v)" using 3(1) [OF 3(4)] 3(3) obj_absent [OF k] by auto
  moreover have "jmerge_obj gb kvs (JObj (m @ [(k, copied gb v)])) = Inr (JObj ((m @ [(k, copied gb v)]) @ map (\<lambda>(k, v). (k, copied gb v)) kvs))"
    using 3(2) [OF 3(4), of "copied gb v" "m @ [(k, copied gb v)]"] v 3(3,5) obj_absent [OF k] by auto
  ultimately show ?case using 3(4) obj_absent [OF k] by auto
next
  case (5 gb v vs i j)
  have n: "arr_get i js = JNull" "\<And>x. arr_put i x js = js @ [x]" using 5(5) by (auto simp: arr_get_def arr_put_def)
  have v: "jmerge gb v JNull = Inr (copied gb v)" using 5(1) [OF 5(4)] 5(3) n by auto
  moreover have "jmerge_arr gb vs (i + 1) (JArr (js @ [copied gb v])) = Inr (JArr ((js @ [copied gb v]) @ map (copied gb) vs))"
    using 5(2) [OF 5(4), of "copied gb v" "js @ [copied gb v]"] v 5(3,5) n by auto
  ultimately show ?case using 5(4) n by auto
qed auto

lemma jcopy_copied:
  assumes "keys_once v" "texts_ok v" "jcost v \<le> n" "\<And>b. scalar_ok (gb b)"
  shows "\<exists>d' A'. jcopy gb v Root (jd_new NULL_VALUE n) = Some (Inr d') \<and> has d' Root (copied gb v) A'"
proof -
  have "copied_as Root {} (jd_new NULL_VALUE n) (jcost v) (jmerge gb v JNull) (jcopy gb v Root (jd_new NULL_VALUE n))"
    by (rule jcopy_merge(1) [OF new_has_null _ assms(2,4)]) (use assms(3) in \<open>auto simp: jd_new_def\<close>)
  then show ?thesis using jmerge_copied(1) [OF assms(1) refl] by (auto simp: copied_as_def changed_def)
qed

text \<open>C32: Copying a source in which no object repeats a key, and whose elements fit in the capacity, into a new document succeeds. The document then represents
  the tree of the source, in which empty objects and arrays have become null and Booleans what the source's \<open>get_bool\<close> makes of them; a parsed source without
  empty objects and arrays is reproduced exactly.\<close>

theorem json_copy_reproduces:
  assumes "keys_once v" "texts_ok v" "jcost v \<le> n" "\<And>b. scalar_ok (gb b)"
  shows "(\<exists>d' A'. jcopy gb v Root (jd_new NULL_VALUE n) = Some (Inr d') \<and> has d' Root (copied gb v) A') \<and> (no_empties v \<longrightarrow> copied JBool v = v)"
  using jcopy_copied [where gb = gb, OF assms] copied_plain by blast

theorem json_copy_reproduces_witness:
  "\<exists>d' A'. jcopy JBool (JObj [(''a'', JArr [JInt 1, JBool True]), (''b'', JStr ''x'')]) Root (jd_new NULL_VALUE 256) = Some (Inr d') \<and>
     has d' Root (JObj [(''a'', JArr [JInt 1, JBool True]), (''b'', JStr ''x'')]) A'"
proof -
  let ?v = "JObj [(''a'', JArr [JInt 1, JBool True]), (''b'', JStr ''x'')]"
  have "keys_once ?v" "texts_ok ?v" "jcost ?v \<le> 256" "\<And>b. scalar_ok (JBool b)" "no_empties ?v" by (simp_all add: c_string_def jcost.simps scalar_ok_def)
  with json_copy_reproduces [of ?v 256 JBool] show ?thesis by auto
qed

text \<open>Other sources: an empty container leaves null, a repeated key the last of its values, and a copy of a mutable document turns booleans into numbers.\<close>

lemma copy_exceptions:
  "jmerge gb (JObj [(''a'', JObj []), (''b'', JArr [])]) JNull = Inr (JObj [(''a'', JNull), (''b'', JNull)])"
  "jmerge gb (JObj [(''a'', JInt 1), (''a'', JInt 2)]) JNull = Inr (JObj [(''a'', JInt 2)])"
  "jmerge mutable_bool (JArr [JBool True]) JNull = Inr (JArr [JDbl 0x3FF0000000000000])"
  by (simp_all add: jmerge.simps arr_get_def arr_put_def mutable_bool_def bool_double_def)

text \<open>A copy constructed from another document has no document of its own to allocate from: a container cannot be copied.\<close>

lemma copy_constructor_asserts:
  "jcopy gb (JObj ((k, v) # kvs)) Root ((jd_new NULL_VALUE 0)\<lparr>jd_owned := False\<rparr>) = None"
  by (simp add: jcopy.simps at_key_def jd_new_def je_new_def child_def Let_def key_loop.simps [of _ None])

lemma getters_typed:
  assumes "has d a j A"
  shows "get_string (el d a) = Some (case j of JStr s \<Rightarrow> Inr s | _ \<Rightarrow> Inl (TypeExpected STRING)) \<and>
    get_int64 (el d a) = Some (case j of JInt n \<Rightarrow> Inr (sint n) | _ \<Rightarrow> Inl (TypeExpected INT64)) \<and>
    get_uint64 (el d a) = Some (case j of JUInt n \<Rightarrow> Inr (unat n) | _ \<Rightarrow> Inl (TypeExpected UINT64)) \<and>
    get_double (el d a) = Some (case j of JDbl x \<Rightarrow> Inr x | _ \<Rightarrow> Inl (TypeExpected DOUBLE)) \<and>
    get_bool (el d a) = Some (case j of JBool b \<Rightarrow> Inr (bool_double b) | _ \<Rightarrow> Inl (TypeExpected BOOL)) \<and>
    je_length (el d a) = (case j of JStr s \<Rightarrow> length s | JArr js \<Rightarrow> length js | JObj kvs \<Rightarrow> length kvs | _ \<Rightarrow> 0)"
proof -
  have r: "rep (jd_elems d) (el d a) j A" using assms by (simp add: has_def)
  obtain t n x where e: "je_type (el d a) = t" "je_size (el d a) = n" "je_val (el d a) = x" by simp
  note D = get_string_def get_int64_def get_uint64_def get_double_def get_bool_def je_length_def e
  show ?thesis
  proof (cases "scalar j")
    case None
    with r have "t = ARRAY \<and> n = length (case j of JArr js \<Rightarrow> js) \<and> (\<exists>js. j = JArr js) \<or> t = OBJECT \<and> n = length (case j of JObj kvs \<Rightarrow> kvs) \<and> (\<exists>kvs. j = JObj kvs)"
      by cases (auto simp: e)
    then show ?thesis by (elim disjE conjE exE) (simp_all add: D)
  next
    case (Some s)
    with r have "scalar j = Some (t, n, x)" by (subst (asm) rep_scalar_iff) (simp_all add: e)
    then show ?thesis by (cases j) (simp_all add: D, auto simp: e)
  qed
qed



text \<open>\<open>value(key)\<close> with a getter; the key of another element, or one that is missing, is an error.\<close>

definition je_value :: "(jelem \<Rightarrow> (json_error + 'a) option) \<Rightarrow> string \<Rightarrow> jelem \<Rightarrow> jdoc \<Rightarrow> (json_error + 'a) option" where
  "je_value getter key e d = (case find_key e key d of
     None \<Rightarrow> None
   | Some (Inl err) \<Rightarrow> Some (Inl err)
   | Some (Inr None) \<Rightarrow> Some (Inl (KeyNotFound key))
   | Some (Inr (Some i)) \<Rightarrow> getter (jd_elems d ! i))"

lemma find_key_tree:
  assumes "has d a (JObj m) A"
  shows "if k \<in> fst ` set m then \<exists>i B. find_key (el d a) k d = Some (Inr (Some i)) \<and> has d (Node i) (obj_get k m) B else find_key (el d a) k d = Some (Inr None)"
proof -
  obtain p where c: "cont d a OBJECT p (okeys m) A" using assms by (auto simp: has_obj)
  then have r: "reps (jd_elems d) p (okeys m) A" and e: "je_type (el d a) = OBJECT" "child (el d a) = Some p" by (auto simp: cont_def child_def)
  show ?thesis
  proof (cases "k \<in> fst ` set m")
    case True
    from obj_present [OF True] obtain n where n: "n < length m" "fst (m ! n) = k" "\<forall>i < n. fst (m ! i) \<noteq> k" "obj_get k m = snd (m ! n)" by blast
    from cont_child [OF c, of n] n(1) obtain i B where i: "node_of (jd_elems d) p (okeys m) n i" "has d (Node i) (snd (m ! n)) B" by (auto simp: okeys_nth)
    have "fst (okeys m ! n) = Some k" "\<forall>i < n. fst (okeys m ! i) \<notin> {None, Some k}" using n by (auto simp: okeys_nth)
    with i(1) obtain x where "key_loop (jd_elems d) p p k = Some (Some i, x)" unfolding node_of_def by blast
    with i(2) n(4) True e show ?thesis by (auto simp: find_key_def)
  next
    case False
    have "\<exists>x. key_loop (jd_elems d) p p k = Some (None, x)"
    proof (cases "m = []")
      case True
      with r have "p = None" by (auto elim: reps_NilE)
      then show ?thesis by (simp add: key_loop.simps [of _ None])
    next
      case ne: False
      then have "okeys m \<noteq> []" by (simp add: okeys_def)
      from reps_snoc [OF r this] obtain t where "last_of (jd_elems d) p (okeys m) t" by blast
      moreover have "\<forall>kj \<in> set (okeys m). fst kj \<notin> {None, Some k}" using False by (force simp: okeys_def)
      ultimately show ?thesis unfolding last_of_def by blast
    qed
    with False e show ?thesis by (auto simp: find_key_def)
  qed
qed

lemma value_of_tree:
  assumes "has d a (JObj m) A"
  shows "je_value get_int64 k (el d a) d = Some (if k \<in> fst ` set m then (case obj_get k m of JInt n \<Rightarrow> Inr (sint n) | _ \<Rightarrow> Inl (TypeExpected INT64)) else Inl (KeyNotFound k))"
    and "je_value get_string k (el d a) d = Some (if k \<in> fst ` set m then (case obj_get k m of JStr s \<Rightarrow> Inr s | _ \<Rightarrow> Inl (TypeExpected STRING)) else Inl (KeyNotFound k))"
proof -
  note f = find_key_tree [OF assms, of k]
  show "je_value get_int64 k (el d a) d = Some (if k \<in> fst ` set m then (case obj_get k m of JInt n \<Rightarrow> Inr (sint n) | _ \<Rightarrow> Inl (TypeExpected INT64)) else Inl (KeyNotFound k))"
    using f by (auto simp: je_value_def dest!: getters_typed split: if_splits)
  show "je_value get_string k (el d a) d = Some (if k \<in> fst ` set m then (case obj_get k m of JStr s \<Rightarrow> Inr s | _ \<Rightarrow> Inl (TypeExpected STRING)) else Inl (KeyNotFound k))"
    using f by (auto simp: je_value_def dest!: getters_typed split: if_splits)
qed

subsection \<open>Printing\<close>

text \<open>Integers are printed in decimal; the text of doubles is a parameter.\<close>

definition new_line :: "int \<Rightarrow> string" where
  "new_line pad = CHR 0x0A # replicate (nat pad) CHR '' ''"

definition comma :: "nat \<Rightarrow> bool \<Rightarrow> nat \<Rightarrow> int \<Rightarrow> nat \<Rightarrow> string" where
  "comma ncols obj n pad cnt =
     (if cnt = 0 then ''''
      else '','' @ (if pad \<ge> 0 \<and> (if obj then n > 1 else cnt mod ncols = 0) then new_line pad else ''''))"

definition open_text :: "bool \<Rightarrow> nat \<Rightarrow> int \<Rightarrow> string" where
  "open_text obj n pad = (if obj then ''{'' @ (if pad \<ge> 0 \<and> n > 1 then new_line pad else '''') else ''['')"

definition close_text :: "bool \<Rightarrow> string" where
  "close_text obj = (if obj then ''}'' else '']'')"

text \<open>The key of a member, and the text of an element that is not a container: a left value; for a container the pointer to its children.\<close>

definition key_text :: "bool \<Rightarrow> jelem \<Rightarrow> string option" where
  "key_text obj e = (if obj then map_option (\<lambda>k. CHR 0x22 # k @ [CHR 0x22, CHR '':'']) (je_key e) else Some '''')"

definition print_head :: "(u64 \<Rightarrow> string) \<Rightarrow> jelem \<Rightarrow> (string + nat option) option" where
  "print_head dbl e = (case (je_type e, je_val e) of
     (BOOL, VBool b) \<Rightarrow> Some (Inl (if b then ''true'' else ''false''))
   | (INT64, VInt n) \<Rightarrow> Some (Inl (int_string (sint n)))
   | (UINT64, VInt n) \<Rightarrow> Some (Inl (int_string (uint n)))
   | (STRING, VStr s) \<Rightarrow> Some (Inl (CHR 0x22 # takeWhile (\<lambda>c. c \<noteq> CHR 0x00) s @ [CHR 0x22]))
   | (DOUBLE, VDbl x) \<Rightarrow> Some (Inl (dbl x))
   | (NULL_VALUE, _) \<Rightarrow> Some (Inl ''null'')
   | (ARRAY, VChild p) \<Rightarrow> Some (Inr p)
   | (OBJECT, VChild p) \<Rightarrow> Some (Inr p)
   | _ \<Rightarrow> None)"


text \<open>The loop over the children, with what \<open>print\<close> does for each; \<open>ncols\<close>, which divides, is 16 unless a caller says otherwise. It also counts, and a container whose size is not the count fails an assertion.\<close>

partial_function (option) print_kids ::
    "jelem list \<Rightarrow> (u64 \<Rightarrow> string) \<Rightarrow> nat \<Rightarrow> bool \<Rightarrow> nat \<Rightarrow> int \<Rightarrow> nat option \<Rightarrow> nat \<Rightarrow> (string \<times> nat) option" where
  "print_kids es dbl ncols obj n pad p cnt = (case p of
     None \<Rightarrow> Some ('''', cnt)
   | Some i \<Rightarrow> if i \<ge> length es then None else
     Option.bind (key_text obj (es ! i)) (\<lambda>key.
     Option.bind (print_head dbl (es ! i)) (\<lambda>h.
     Option.bind (case h of
         Inl t \<Rightarrow> Some t
       | Inr q \<Rightarrow> Option.bind (print_kids es dbl ncols (je_type (es ! i) = OBJECT) (je_size (es ! i)) (pad + 1) q 0) (\<lambda>(t, m).
           if m = je_size (es ! i) then Some (open_text (je_type (es ! i) = OBJECT) (je_size (es ! i)) (pad + 1) @ t @ close_text (je_type (es ! i) = OBJECT))
           else None)) (\<lambda>body.
     Option.bind (print_kids es dbl ncols obj n pad (je_next (es ! i)) (cnt + 1)) (\<lambda>(rest, m).
     Some (comma ncols obj n pad cnt @ key @ body @ rest, m))))))"

definition jprint :: "(u64 \<Rightarrow> string) \<Rightarrow> nat \<Rightarrow> int \<Rightarrow> addr \<Rightarrow> jdoc \<Rightarrow> string option" where
  "jprint dbl ncols pad a d = (let e = el d a in
     Option.bind (print_head dbl e) (\<lambda>h. case h of
       Inl t \<Rightarrow> Some t
     | Inr p \<Rightarrow> Option.bind (print_kids (jd_elems d) dbl ncols (je_type e = OBJECT) (je_size e) pad p 0) (\<lambda>(t, m).
         if m = je_size e then Some (open_text (je_type e = OBJECT) (je_size e) pad @ t @ close_text (je_type e = OBJECT)) else None)))"

text \<open>The text of a tree.\<close>

fun joined :: "nat \<Rightarrow> bool \<Rightarrow> nat \<Rightarrow> int \<Rightarrow> nat \<Rightarrow> string list \<Rightarrow> string" where
  "joined ncols obj n pad cnt [] = ''''"
| "joined ncols obj n pad cnt (t # ts) = comma ncols obj n pad cnt @ t @ joined ncols obj n pad (cnt + 1) ts"

fun jtext :: "(u64 \<Rightarrow> string) \<Rightarrow> nat \<Rightarrow> int \<Rightarrow> json \<Rightarrow> string" where
  "jtext dbl ncols pad JNull = ''null''"
| "jtext dbl ncols pad (JBool b) = (if b then ''true'' else ''false'')"
| "jtext dbl ncols pad (JInt n) = int_string (sint n)"
| "jtext dbl ncols pad (JUInt n) = int_string (uint n)"
| "jtext dbl ncols pad (JDbl x) = dbl x"
| "jtext dbl ncols pad (JStr s) = CHR 0x22 # s @ [CHR 0x22]"
| "jtext dbl ncols pad (JArr js) = ''['' @ joined ncols False (length js) pad 0 (map (jtext dbl ncols (pad + 1)) js) @ '']''"
| "jtext dbl ncols pad (JObj kvs) = open_text True (length kvs) pad @
     joined ncols True (length kvs) pad 0 (map (\<lambda>(k, v). CHR 0x22 # k @ [CHR 0x22, CHR '':''] @ jtext dbl ncols (pad + 1) v) kvs) @ ''}''"

definition print_body :: "jelem list \<Rightarrow> (u64 \<Rightarrow> string) \<Rightarrow> nat \<Rightarrow> int \<Rightarrow> jelem \<Rightarrow> string option" where
  "print_body es dbl ncols pad e = Option.bind (print_head dbl e) (\<lambda>h. case h of
       Inl t \<Rightarrow> Some t
     | Inr p \<Rightarrow> Option.bind (print_kids es dbl ncols (je_type e = OBJECT) (je_size e) pad p 0) (\<lambda>(t, m).
         if m = je_size e then Some (open_text (je_type e = OBJECT) (je_size e) pad @ t @ close_text (je_type e = OBJECT)) else None))"

lemma print_kids_Some:
  "i < length es \<Longrightarrow> print_kids es dbl ncols obj n pad (Some i) cnt =
     Option.bind (key_text obj (es ! i)) (\<lambda>key. Option.bind (print_body es dbl ncols (pad + 1) (es ! i)) (\<lambda>body.
     Option.bind (print_kids es dbl ncols obj n pad (je_next (es ! i)) (cnt + 1)) (\<lambda>(rest, m). Some (comma ncols obj n pad cnt @ key @ body @ rest, m))))"
  by (subst print_kids.simps) (simp add: print_body_def Option.bind_assoc)

lemma print_scalar: "scalar j = Some (je_type e, je_size e, je_val e) \<Longrightarrow> texts_ok j \<Longrightarrow> print_body es dbl ncols pad e = Some (jtext dbl ncols pad j)"
proof -
  assume s: "scalar j = Some (je_type e, je_size e, je_val e)" and t: "texts_ok j"
  obtain ty n x where e: "je_type e = ty" "je_size e = n" "je_val e = x" by simp
  have *: "takeWhile (\<lambda>c. c \<noteq> CHR 0x00) u = u" if "c_string u" for u using that by (auto simp: c_string_def takeWhile_eq_all_conv)
  show ?thesis using s t by (cases j) (auto simp: print_body_def print_head_def e *)
qed

text \<open>The key and the value of a member.\<close>

definition member_text :: "(u64 \<Rightarrow> string) \<Rightarrow> nat \<Rightarrow> bool \<Rightarrow> int \<Rightarrow> string option \<times> json \<Rightarrow> string" where
  "member_text dbl ncols obj pad kj = (if obj then CHR 0x22 # the (fst kj) @ [CHR 0x22, CHR '':''] else '''') @ jtext dbl ncols pad (snd kj)"

lemma print_rep:
  "rep es e j A \<Longrightarrow> texts_ok j \<Longrightarrow> print_body es dbl ncols pad e = Some (jtext dbl ncols pad j)"
  "reps es p kjs A \<Longrightarrow> (\<forall>kj \<in> set kjs. texts_ok (snd kj) \<and> (obj \<longrightarrow> fst kj \<noteq> None)) \<Longrightarrow>
     print_kids es dbl ncols obj n pad p cnt = Some (joined ncols obj n pad cnt (map (member_text dbl ncols obj (pad + 1)) kjs), cnt + length kjs)"
proof (induction arbitrary: pad and obj n pad cnt rule: rep_reps.inducts)
  case (rep_scalar j e)
  then show ?case by (rule print_scalar)
next
  case (rep_arr e p kjs A)
  from rep_arr(5) [where obj = False and n = "length kjs" and pad = pad and cnt = 0] rep_arr(1-3,6) show ?case
    by (simp add: print_body_def print_head_def open_text_def close_text_def member_text_def comp_def)
next
  case (rep_obj e p kvs A)
  have m: "map (member_text dbl ncols True (pad + 1)) (map (\<lambda>(k, v). (Some k, v)) kvs) =
      map (\<lambda>(k, v). CHR 0x22 # k @ [CHR 0x22, CHR '':''] @ jtext dbl ncols (pad + 1) v) kvs" by (auto simp: member_text_def)
  from rep_obj(5) [where obj = True and n = "length kvs" and pad = pad and cnt = 0] rep_obj(1-3,6) show ?case
    unfolding m by (force simp: print_body_def print_head_def close_text_def)
next
  case reps_nil
  then show ?case by (simp add: print_kids.simps [of _ _ _ _ _ _ None])
next
  case (reps_cons i k j A kjs B)
  have "key_text obj (es ! i) = Some (if obj then CHR 0x22 # the k @ [CHR 0x22, CHR '':''] else '''')" using reps_cons by (auto simp: key_text_def)
  moreover note reps_cons(4) [where pad = "pad + 1"] reps_cons(6) [where obj = obj and n = n and pad = pad and cnt = "cnt + 1"]
  ultimately show ?case using reps_cons(1,10) by (simp add: print_kids_Some member_text_def)
qed

text \<open>C33: \<open>print\<close> terminates and writes exactly the text of the tree that the linked elements represent, at every indentation.\<close>

theorem json_print_text:
  assumes "has d a j A" "texts_ok j" "0 < ncols"
  shows "jprint dbl ncols pad a d = Some (jtext dbl ncols pad j)"
  using print_rep(1) [of "jd_elems d" "el d a" j A dbl ncols pad] assms by (simp add: has_def jprint_def print_body_def Let_def)

theorem json_print_text_witness: "jprint (\<lambda>_. ''0'') 16 (-1) Root (jd_new NULL_VALUE 0) = Some ''null''"
  using json_print_text [OF new_has_null, where dbl = "\<lambda>_. ''0''" and ncols = 16 and pad = "-1"] by simp

text \<open>The text need not be JSON: strings and keys are not escaped. The indentation of \<open>operator<<\<close>, which asks for none, comes back one level down.\<close>

lemma print_unescaped: "jtext dbl 16 (-1) (JStr [CHR 0x22]) = [CHR 0x22, CHR 0x22, CHR 0x22]"
  by simp

lemma print_nested_lines:
  "jtext dbl 16 (-1) (JArr [JObj [(''a'', JNull), (''b'', JNull)]]) =
     ''[{'' @ [CHR 0x0A, CHR 0x22, CHR ''a'', CHR 0x22] @ '':null,'' @ [CHR 0x0A, CHR 0x22, CHR ''b'', CHR 0x22] @ '':null}]''"
  by (simp add: open_text_def comma_def new_line_def)


subsection \<open>Comments\<close>

text \<open>The buffer of \<open>cpp_comments_to_whitespace\<close>: what is behind the position, in reverse, and what is ahead of it.\<close>

fun comments_loop :: "string \<Rightarrow> string \<Rightarrow> bool \<Rightarrow> bool \<Rightarrow> string" where
  "comments_loop behind [] is_string is_comment = rev behind"
| "comments_loop behind (x # ahead) is_string is_comment =
     (if x = CHR ''/'' then
        (if behind \<noteq> [] \<and> behind ! 0 = CHR ''/'' \<and> \<not> is_string
         then comments_loop (CHR '' '' # behind[0 := CHR '' '']) ahead is_string True
         else comments_loop ((if is_comment then CHR '' '' else x) # behind) ahead is_string is_comment)
      else if x = CHR 0x0A then
        (let c = (if is_string then is_comment else False)
         in comments_loop ((if c then CHR '' '' else x) # behind) ahead is_string c)
      else if x = CHR 0x22 then
        (let s = (if \<not> is_comment \<and> \<not> (behind \<noteq> [] \<and> behind ! 0 = CHR 0x5C) then \<not> is_string else is_string)
         in comments_loop ((if is_comment then CHR '' '' else x) # behind) ahead s is_comment)
      else comments_loop ((if is_comment then CHR '' '' else x) # behind) ahead is_string is_comment)"

definition cpp_comments_to_whitespace :: "string \<Rightarrow> string" where
  "cpp_comments_to_whitespace buf = comments_loop [] buf False False"

text \<open>A text of code, strings and comments to the end of the line.\<close>

datatype piece = Code string | Quoted string | Comment string

fun piece_text :: "piece \<Rightarrow> string" where
  "piece_text (Code u) = u"
| "piece_text (Quoted u) = CHR 0x22 # u @ [CHR 0x22]"
| "piece_text (Comment u) = ''//'' @ u @ [CHR 0x0A]"

fun blanked :: "piece \<Rightarrow> string" where
  "blanked (Comment u) = replicate (2 + length u) CHR '' '' @ [CHR 0x0A]"
| "blanked q = piece_text q"

text \<open>Well-formed after a character: code has no quote and no two slashes, the only quotes in a string follow a backslash.\<close>

fun code_ok :: "char \<Rightarrow> string \<Rightarrow> bool" where
  "code_ok c [] \<longleftrightarrow> True"
| "code_ok c (x # u) \<longleftrightarrow> x \<noteq> CHR 0x22 \<and> \<not> (c = CHR ''/'' \<and> x = CHR ''/'') \<and> code_ok x u"

fun quoted_ok :: "char \<Rightarrow> string \<Rightarrow> bool" where
  "quoted_ok c [] \<longleftrightarrow> c \<noteq> CHR 0x5C"
| "quoted_ok c (x # u) \<longleftrightarrow> (x = CHR 0x22 \<longrightarrow> c = CHR 0x5C) \<and> quoted_ok x u"

fun piece_ok :: "char \<Rightarrow> piece \<Rightarrow> bool" where
  "piece_ok c (Code u) \<longleftrightarrow> code_ok c u"
| "piece_ok c (Quoted u) \<longleftrightarrow> c \<noteq> CHR 0x5C \<and> quoted_ok CHR 0x22 u"
| "piece_ok c (Comment u) \<longleftrightarrow> c \<noteq> CHR ''/'' \<and> CHR 0x0A \<notin> set u"

definition final_char :: "char \<Rightarrow> string \<Rightarrow> char" where
  "final_char c u = (if u = [] then c else last u)"

fun pieces_ok :: "char \<Rightarrow> piece list \<Rightarrow> bool" where
  "pieces_ok c [] \<longleftrightarrow> True"
| "pieces_ok c (q # qs) \<longleftrightarrow> piece_ok c q \<and> pieces_ok (final_char c (piece_text q)) qs"

text \<open>What is behind the position ends with \<open>c\<close>; the beginning counts as a new line.\<close>

definition ends :: "string \<Rightarrow> char \<Rightarrow> bool" where
  "ends behind c \<longleftrightarrow> (if behind = [] then c = CHR 0x0A else behind ! 0 = c)"

lemma ends_Cons [simp]: "ends (x # b) c \<longleftrightarrow> x = c"
  by (simp add: ends_def)

lemma comments_code:
  "ends b c \<Longrightarrow> code_ok c u \<Longrightarrow> comments_loop b (u @ r) False False = comments_loop (rev u @ b) r False False \<and> ends (rev u @ b) (final_char c u)"
proof (induction u arbitrary: b c)
  case (Cons x u)
  have "comments_loop b ((x # u) @ r) False False = comments_loop (x # b) (u @ r) False False" using Cons.prems by (auto simp: ends_def split: if_splits)
  with Cons.IH [of "x # b" x] Cons.prems show ?case by (auto simp: final_char_def)
qed (simp add: final_char_def)

lemma comments_quoted:
  "ends b c \<Longrightarrow> b \<noteq> [] \<Longrightarrow> quoted_ok c u \<Longrightarrow> comments_loop b (u @ [CHR 0x22] @ r) True False = comments_loop (CHR 0x22 # rev u @ b) r False False"
proof (induction u arbitrary: b c)
  case Nil
  then show ?case by (auto simp: ends_def)
next
  case (Cons x u)
  have "comments_loop b ((x # u) @ [CHR 0x22] @ r) True False = comments_loop (x # b) (u @ [CHR 0x22] @ r) True False"
    using Cons.prems by (auto simp: ends_def Let_def)
  with Cons.IH [of "x # b" x] Cons.prems show ?case by simp
qed

lemma comments_comment:
  "b ! 0 = CHR '' '' \<Longrightarrow> b \<noteq> [] \<Longrightarrow> CHR 0x0A \<notin> set u \<Longrightarrow>
     comments_loop b (u @ [CHR 0x0A] @ r) False True = comments_loop (CHR 0x0A # replicate (length u) CHR '' '' @ b) r False False"
proof (induction u arbitrary: b)
  case (Cons x u)
  have "comments_loop b ((x # u) @ [CHR 0x0A] @ r) False True = comments_loop (CHR '' '' # b) (u @ [CHR 0x0A] @ r) False True"
    using Cons.prems by (auto simp: Let_def)
  with Cons.IH [of "CHR '' '' # b"] Cons.prems show ?case by (simp add: replicate_app_Cons_same)
qed simp

lemma comments_pieces:
  "ends b c \<Longrightarrow> pieces_ok c qs \<Longrightarrow> comments_loop b (concat (map piece_text qs)) False False = rev b @ concat (map blanked qs)"
proof (induction qs arbitrary: b c)
  case (Cons q qs)
  note IH = Cons.IH [OF _ Cons.prems(2) [simplified, THEN conjunct2]]
  show ?case
  proof (cases q)
    case (Code u)
    then show ?thesis using comments_code [OF Cons.prems(1), of u "concat (map piece_text qs)"] Cons.prems(2) IH [of "rev u @ b"] by auto
  next
    case (Quoted u)
    have "comments_loop b (piece_text q @ concat (map piece_text qs)) False False = comments_loop (CHR 0x22 # b) (u @ [CHR 0x22] @ concat (map piece_text qs)) True False"
      using Cons.prems by (auto simp: Quoted ends_def Let_def split: if_splits)
    also have "\<dots> = comments_loop (CHR 0x22 # rev u @ CHR 0x22 # b) (concat (map piece_text qs)) False False"
      by (rule comments_quoted [of _ "CHR 0x22"]) (use Cons.prems(2) Quoted in auto)
    finally show ?thesis using IH [of "CHR 0x22 # rev u @ CHR 0x22 # b"] by (simp add: Quoted final_char_def)
  next
    case (Comment u)
    have "comments_loop b (piece_text q @ concat (map piece_text qs)) False False =
        comments_loop (CHR '' '' # CHR '' '' # b) (u @ [CHR 0x0A] @ concat (map piece_text qs)) False True"
      using Cons.prems by (auto simp: Comment ends_def Let_def split: if_splits)
    also have "\<dots> = comments_loop (CHR 0x0A # replicate (length u) CHR '' '' @ CHR '' '' # CHR '' '' # b) (concat (map piece_text qs)) False False"
      by (rule comments_comment) (use Cons.prems(2) Comment in auto)
    finally show ?thesis using IH [of "CHR 0x0A # replicate (length u) CHR '' '' @ CHR '' '' # CHR '' '' # b"]
      by (simp add: Comment final_char_def replicate_app_Cons_same [symmetric])
  qed
qed simp

text \<open>Comments are blanked, to the end of their line, and nothing else changes: a text of code, strings, which may contain slashes and escaped quotes,
  and comments becomes the same text with spaces for each comment, at the same length.\<close>

theorem json_comments_blanked:
  assumes "pieces_ok CHR 0x0A qs"
  shows "cpp_comments_to_whitespace (concat (map piece_text qs)) = concat (map blanked qs)"
  using comments_pieces [of "[]" "CHR 0x0A" qs] assms by (simp add: cpp_comments_to_whitespace_def ends_def)

theorem json_comments_blanked_witness:
  "cpp_comments_to_whitespace (concat (map piece_text [Code ''[1, '', Quoted ''a//b'', Comment '' note'', Code '']''])) =
     concat (map blanked [Code ''[1, '', Quoted ''a//b'', Comment '' note'', Code '']''])"
  by (rule json_comments_blanked) (simp add: final_char_def)

text \<open>A string that ends with an escaped backslash is not seen to end, so a comment behind it stays.\<close>

lemma comment_after_backslash:
  "cpp_comments_to_whitespace (CHR 0x22 # [CHR 0x5C, CHR 0x5C] @ CHR 0x22 # ''// x'') = CHR 0x22 # [CHR 0x5C, CHR 0x5C] @ CHR 0x22 # ''// x''"
  by (simp add: cpp_comments_to_whitespace_def)

end
