(* ===== verification/JsonLists.thy ===== *)
theory JsonLists
  imports JsonTexts
begin

text \<open>
  \<open>push_back\<close>, \<open>insert_after\<close> and \<open>erase\<close> of the elements of \<open>util/Json.hpp\<close>. An iterator is a pointer to an element, or null; the reference to a null
  pointer that \<open>back\<close> forms for an empty container is passed on as null.
\<close>

subsection \<open>Operations\<close>

partial_function (option) back_loop :: "jelem list \<Rightarrow> nat option \<Rightarrow> nat option option" where
  "back_loop es t = (case t of
     None \<Rightarrow> Some None
   | Some i \<Rightarrow> if i \<ge> length es then None else if je_next (es ! i) = None then Some (Some i) else back_loop es (je_next (es ! i)))"

text \<open>The element \<open>x\<close> is copied as it is, with its children; without a document the list would be linked to the caller's object.\<close>

definition insert_after :: "addr \<Rightarrow> nat option \<Rightarrow> jelem \<Rightarrow> jdoc \<Rightarrow> (nat \<times> jdoc) option" where
  "insert_after a prev x d =
     (if \<not> owned d a then None
      else Option.bind (alloc_element NULL_VALUE d) (\<lambda>(m, d1).
        let d2 = jput_el (Node m) x d1;
            d3 = (case prev of
                None \<Rightarrow> jput_el (Node m) ((el (jput_el a ((el d2 a)\<lparr>je_val := VChild (Some m)\<rparr>) d2) (Node m))\<lparr>je_next := None\<rparr>)
                          (jput_el a ((el d2 a)\<lparr>je_val := VChild (Some m)\<rparr>) d2)
              | Some t \<Rightarrow> jput_el (Node t) ((el (jput_el (Node m) ((el d2 (Node m))\<lparr>je_next := je_next (el d2 (Node t))\<rparr>) d2) (Node t))\<lparr>je_next := Some m\<rparr>)
                          (jput_el (Node m) ((el d2 (Node m))\<lparr>je_next := je_next (el d2 (Node t))\<rparr>) d2))
        in Some (m, jput_el a ((el d3 a)\<lparr>je_size := je_size (el d3 a) + 1\<rparr>) d3)))"

definition insert_back :: "addr \<Rightarrow> jelem \<Rightarrow> jdoc \<Rightarrow> (nat \<times> jdoc) option" where
  "insert_back a x d = Option.bind (child (el d a)) (\<lambda>p. Option.bind (back_loop (jd_elems d) p) (\<lambda>t. insert_after a t x d))"

definition push_back :: "addr \<Rightarrow> jelem \<Rightarrow> jdoc \<Rightarrow> (nat \<times> jdoc) option" where
  "push_back a x d = (if je_type (el d a) = ARRAY then insert_back a x d
     else insert_back a x (jput_el a ((el d a)\<lparr>je_type := ARRAY, je_val := VChild None\<rparr>) d))"

text \<open>The search of \<open>erase\<close> for the element before, and \<open>erase\<close>, which returns the element behind. Of an iterator that is not there it returns null.\<close>

partial_function (option) erase_loop :: "jelem list \<Rightarrow> nat option \<Rightarrow> nat \<Rightarrow> nat option option" where
  "erase_loop es e i = (case e of
     None \<Rightarrow> Some None
   | Some t \<Rightarrow> if t \<ge> length es then None else if je_next (es ! t) = Some i then Some (Some t) else erase_loop es (je_next (es ! t)) i)"

definition jerase :: "addr \<Rightarrow> nat option \<Rightarrow> jdoc \<Rightarrow> (nat option \<times> jdoc) option" where
  "jerase a it d = (case it of
     None \<Rightarrow> Some (None, d)
   | Some i \<Rightarrow> Option.bind (child (el d a)) (\<lambda>p.
       if p = Some i then
         let q = je_next (el d (Node i))
         in Some (q, jput_el a ((el d a)\<lparr>je_val := VChild q, je_size := je_size (el d a) - 1\<rparr>) d)
       else Option.bind (erase_loop (jd_elems d) p i) (\<lambda>prev. case prev of
           None \<Rightarrow> Some (None, d)
         | Some t \<Rightarrow>
             let q = je_next (el d (Node i));
                 d1 = jput_el (Node t) ((el d (Node t))\<lparr>je_next := q\<rparr>) d
             in Some (q, jput_el a ((el d1 a)\<lparr>je_size := je_size (el d1 a) - 1\<rparr>) d1))))"

subsection \<open>Appending\<close>

lemma back_last:
  assumes "reps es p kjs A" "index_loop es p i0 tail0 (i0 + length kjs) = Some (None, n, t)" "kjs \<noteq> []"
  shows "back_loop es p = Some t"
  using assms
proof (induction kjs arbitrary: p A i0 tail0)
  case (Cons kj kjs)
  obtain k j where kj: "kj = (k, j)" by fastforce
  from Cons.prems(1) [unfolded kj] obtain i B0 where i: "p = Some i" "i < length es" "reps es (je_next (es ! i)) kjs B0" by (auto elim!: reps_ConsE)
  have nx: "index_loop es (je_next (es ! i)) (i0 + 1) (Some i) (i0 + 1 + length kjs) = Some (None, n, t)"
    using Cons.prems(2) i by (subst (asm) index_loop.simps) simp
  show ?case
  proof (cases "kjs = []")
    case True
    with i(3) have "je_next (es ! i) = None" by (auto elim: reps_NilE)
    with nx i show ?thesis by (subst back_loop.simps) (auto simp: index_loop.simps [of es None])
  next
    case False
    then have "je_next (es ! i) \<noteq> None" using reps_length [OF i(3)] by simp
    with Cons.IH [OF i(3) nx False] i show ?thesis by (subst back_loop.simps) auto
  qed
qed simp

text \<open>A new element with a scalar, as \<open>push_back(v)\<close> constructs it.\<close>

definition scalar_elem :: "json \<Rightarrow> jelem" where
  "scalar_elem v = (case scalar v of Some (t, n, x) \<Rightarrow> (je_new t)\<lparr>je_size := n, je_val := x\<rparr> | None \<Rightarrow> je_new NULL_VALUE)"

lemma insert_after_new_child:
  assumes "owned d a" "valid d a" "scalar v \<noteq> None" "case prev of None \<Rightarrow> True | Some t \<Rightarrow> t < length (jd_elems d) \<and> a \<noteq> Node t \<and> je_next (jd_elems d ! t) = None"
    "new_child a prev None d = Some (m, d1)"
  shows "insert_after a prev (scalar_elem v) d =
    Some (m, jput_el (Node m) ((el d1 (Node m))\<lparr>je_type := je_type (scalar_elem v), je_size := je_size (scalar_elem v), je_val := je_val (scalar_elem v)\<rparr>) d1)"
proof -
  obtain d0 where al: "alloc_element NULL_VALUE d = Some (m, d0)" using assms(5) by (auto simp: new_child_def Let_def split: bind_splits)
  have d0: "d0 = d\<lparr>jd_elems := jd_elems d @ [je_new NULL_VALUE], jd_cap := max 1 (jd_cap d)\<rparr>" "m = length (jd_elems d)"
    using al by (auto simp: alloc_element_def split: if_splits)
  have sv: "je_next (scalar_elem v) = None" "je_key (scalar_elem v) = None" using assms(3) by (auto simp: scalar_elem_def je_new_def)
  show ?thesis
    using assms sv
    by (cases a; cases prev; force simp: insert_after_def new_child_def al d0 Let_def nth_append nth_list_update je_new_def list_update_append
        intro!: nth_equalityI jdoc.equality jelem.equality)
qed


lemma back_loop_end:
  assumes "reps es p kjs A" "back_loop es p = Some tail0"
  shows "case tail0 of None \<Rightarrow> True | Some i \<Rightarrow> i \<in> A \<and> i < length es \<and> je_next (es ! i) = None"
  using assms
proof (induction kjs arbitrary: p A)
  case Nil
  then show ?case by (auto elim!: reps_NilE simp: back_loop.simps [of _ None])
next
  case (Cons kj kjs)
  obtain k j where kj: "kj = (k, j)" by fastforce
  from Cons.prems(1) [unfolded kj] obtain i A0 B0 where i: "p = Some i" "i < length es" "reps es (je_next (es ! i)) kjs B0" "A = insert i (A0 \<union> B0)" by (auto elim!: reps_ConsE)
  show ?case
  proof (cases "je_next (es ! i)")
    case None
    with Cons.prems(2) i have "tail0 = Some i" by (subst (asm) back_loop.simps) auto
    with None i show ?thesis by auto
  next
    case (Some q)
    with Cons.prems(2) i have "back_loop es (je_next (es ! i)) = Some tail0" by (subst (asm) back_loop.simps) auto
    from Cons.IH [OF i(3) this] i show ?thesis by (auto split: option.splits)
  qed
qed


lemma insert_back_child:
  assumes c: "cont d a t p kjs A" and own: "owned d a" "length (jd_elems d) < jd_cap d" and v: "scalar_ok v"
  shows "\<exists>m d'. insert_back a (scalar_elem v) d = Some (m, d') \<and> only a A d d' \<and> (\<exists>p' A'. cont d' a t p' (kjs @ [(None, v)]) A' \<and> A' \<subseteq> A \<union> fresh d d')"
proof -
  obtain ty n x where sc: "scalar v = Some (ty, n, x)" using v by (auto simp: scalar_ok_def)
  have r: "reps (jd_elems d) p kjs A" and va: "valid d a" "below a A" and ch: "child (el d a) = Some p" using c by (auto simp: cont_def child_def)
  from cont_snoc [OF c own(2), of None] obtain tail0 d1 p1 A1 where
    tl0: "\<forall>index \<ge> length kjs. index_loop (jd_elems d) p 0 p index = Some (None, length kjs, tail0)"
    and nc: "new_child a tail0 None d = Some (length (jd_elems d), d1)" and o: "only a A d d1"
    and c1: "cont d1 a t p1 (kjs @ [(None, JNull)]) A1" "A1 \<subseteq> A \<union> fresh d d1"
    and nd: "node_of (jd_elems d1) p1 (kjs @ [(None, JNull)]) (length kjs) (length (jd_elems d))" by auto
  have tail0: "index_loop (jd_elems d) p 0 p (0 + length kjs) = Some (None, length kjs, tail0)" using tl0 by simp
  have bl: "back_loop (jd_elems d) p = Some tail0"
  proof (cases "kjs = []")
    case True
    with r have "p = None" by (auto elim: reps_NilE)
    with tail0 show ?thesis by (simp add: back_loop.simps [of _ None] index_loop.simps [of _ None])
  qed (use back_last [OF r tail0] in simp)
  have last: "case tail0 of None \<Rightarrow> True | Some i \<Rightarrow> i < length (jd_elems d) \<and> a \<noteq> Node i \<and> je_next (jd_elems d ! i) = None"
    using back_loop_end [OF r bl] va(2) by (cases a) (auto split: option.splits)
  let ?m = "length (jd_elems d)"
  let ?kjs = "kjs @ [(None, JNull)]"
  define d2 where "d2 = jput_el (Node ?m) ((el d1 (Node ?m))\<lparr>je_type := ty, je_size := n, je_val := x\<rparr>) d1"
  have ib: "insert_back a (scalar_elem v) d = Some (?m, d2)"
    using insert_after_new_child [OF own(1) va(1) _ last nc, of v] sc by (simp add: insert_back_def ch bl d2_def scalar_elem_def je_new_def)
  have nl: "length kjs < length ?kjs" and nk: "?kjs ! length kjs = (None, JNull)" by simp_all
  from cont_child [OF c1(1) nl, unfolded nk fst_conv snd_conv] obtain i B where i: "node_of (jd_elems d1) p1 ?kjs (length kjs) i" "has d1 (Node i) JNull B"
    and w: "\<And>d' j'. changed (Node i) B j' d1 d' \<Longrightarrow> only a A1 d1 d' \<and> (\<exists>A'. cont d' a t p1 (?kjs[length kjs := (None, j')]) A' \<and> A' \<subseteq> A1 \<union> fresh d1 d')" by blast
  have ii: "i = ?m" by (rule node_of_unique [OF i(1) nd])
  from assign_scalar_ok [OF i(2) v] obtain d3 where "assign_scalar (Node i) v d1 = Some d3" "changed (Node i) B v d1 d3" by blast
  moreover from this(1) sc ii have "d3 = d2" by (auto simp: assign_scalar_def d2_def split: if_splits)
  ultimately have "changed (Node i) B v d1 d2" by simp
  from w [OF this] obtain A2 where o2: "only a A1 d1 d2" and c2: "cont d2 a t p1 (kjs @ [(None, v)]) A2" "A2 \<subseteq> A1 \<union> fresh d1 d2" by (auto simp: list_update_append)
  note T = only_trans [OF o o2 c1(2)]
  have "A2 \<subseteq> A \<union> fresh d d2" using c2(2) c1(2) T(2,3) by blast
  with ib T(1) c2(1) show ?thesis by blast
qed

text \<open>\<open>push_back\<close> of a value appends it to an array, and makes an array of one element of a null.\<close>

theorem json_push_back_appends:
  assumes "has d a j A" "arr_view j = Some js" "owned d a" "length (jd_elems d) < jd_cap d" "scalar_ok v"
  shows "\<exists>m d'. push_back a (scalar_elem v) d = Some (m, d') \<and> changed a A (JArr (js @ [v])) d d'"
proof -
  define d0 where "d0 = (if je_type (el d a) = ARRAY then d else jput_el a ((el d a)\<lparr>je_type := ARRAY, je_val := VChild None\<rparr>) d)"
  have pb: "push_back a (scalar_elem v) d = insert_back a (scalar_elem v) d0" by (simp add: push_back_def d0_def)
  obtain p kjs where c: "cont d0 a ARRAY p kjs A" and js: "js = map snd kjs" and o: "only a A d d0" and e: "owned d0 a" "length (jd_elems d0) < jd_cap d0" "fresh d d0 = {}"
  proof (cases j)
    case JNull
    with assms have cn: "cont d a NULL_VALUE None [] A" by (simp add: has_null)
    then have d0: "d0 = jput_el a ((el d a)\<lparr>je_type := ARRAY\<rparr>) d" by (cases "el d a") (auto simp: d0_def cont_def)
    from retype [OF cn d0] assms JNull show ?thesis by (intro that [of None "[]"]) auto
  next
    case (JArr js')
    with assms obtain p kjs where "js = map snd kjs" "cont d a ARRAY p kjs A" by (auto simp: has_arr)
    moreover from this have "d0 = d" by (simp add: d0_def cont_def)
    ultimately show ?thesis using assms by (intro that [of p kjs]) (auto simp: only_refl fresh_def)
  qed (use assms in auto)
  from insert_back_child [OF c e(1,2) assms(5)] obtain m d' p' A' where r: "insert_back a (scalar_elem v) d0 = Some (m, d')" "only a A d0 d'"
    "cont d' a ARRAY p' (kjs @ [(None, v)]) A'" "A' \<subseteq> A \<union> fresh d0 d'" by blast
  note T = only_trans [OF o r(2)]
  have "has d' a (JArr (js @ [v])) A'" using r(3) by (auto simp: has_arr js intro!: exI [of _ p'] exI [of _ "kjs @ [(None, v)]"])
  moreover have "A' \<subseteq> A \<union> fresh d d'" using r(4) T(2) by auto
  ultimately show ?thesis using T(1) r(1) pb by (auto simp: changed_def)
qed

theorem json_push_back_appends_witness:
  "\<exists>m d'. push_back Root (scalar_elem (JInt 7)) (jd_new NULL_VALUE 4) = Some (m, d') \<and> changed Root {} (JArr [JInt 7]) (jd_new NULL_VALUE 4) d'"
  using json_push_back_appends [OF new_has_null, of "[]" 4 "JInt 7"] by (simp add: jd_new_def scalar_ok_def)


text \<open>A value of another type keeps its size, so that the size of the new array is wrong and printing it fails an assertion.\<close>

lemma push_back_keeps_size:
  "\<exists>m d'. push_back Root (scalar_elem (JInt 7)) ((jd_new NULL_VALUE 4)\<lparr>jd_root := scalar_elem (JStr ''abc'')\<rparr>) = Some (m, d') \<and>
     je_length (el d' Root) = 4 \<and> jprint dbl 16 pad Root d' = None"
  by (simp add: push_back_def insert_back_def insert_after_def scalar_elem_def je_new_def jd_new_def child_def alloc_element_def je_length_def jprint_def
      print_head_def print_kids.simps [of _ _ _ _ _ _ "Some _"] print_kids.simps [of _ _ _ _ _ _ None] key_text_def back_loop.simps [of _ None] Let_def)

subsection \<open>Erasing\<close>

lemma reps_erase:
  assumes "reps es p kjs A" "n < length kjs"
  shows "\<exists>i B C. A = insert i (B \<union> C) \<and> i \<notin> C \<and> i < length es \<and> node_of es p kjs n i \<and>
    (if n = 0 then p = Some i \<and> reps es (je_next (es ! i)) (drop (Suc n) kjs) C
     else p \<noteq> Some i \<and> (\<exists>t \<in> C. erase_loop es p i = Some (Some t) \<and>
       (\<forall>es'. agree (C - {t}) es es' \<longrightarrow> t < length es' \<longrightarrow> es' ! t = (es ! t)\<lparr>je_next := je_next (es ! i)\<rparr> \<longrightarrow>
          reps es' p (take n kjs @ drop (Suc n) kjs) C)))"
  using assms
proof (induction kjs arbitrary: p A n)
  case (Cons kj kjs)
  obtain k j where kj: "kj = (k, j)" by fastforce
  from Cons.prems(1) [unfolded kj] obtain m A0 B0 where m: "p = Some m" "A = insert m (A0 \<union> B0)" "m < length es" "je_key (es ! m) = k"
    "rep es (es ! m) j A0" "reps es (je_next (es ! m)) kjs B0" "m \<notin> A0" "m \<notin> B0" "A0 \<inter> B0 = {}" by (auto elim!: reps_ConsE)
  show ?case
  proof (cases n)
    case 0
    show ?thesis by (rule exI [of _ m], rule exI [of _ A0], rule exI [of _ B0]) (use m 0 kj node_of_0 in auto)
  next
    case (Suc n')
    have n': "n' < length kjs" using Cons.prems(2) Suc by simp
    from Cons.IH [OF m(6) n'] obtain i B C where f: "B0 = insert i (B \<union> C)" "i \<notin> C" "i < length es" "node_of es (je_next (es ! m)) kjs n' i"
      and g: "if n' = 0 then je_next (es ! m) = Some i \<and> reps es (je_next (es ! i)) (drop (Suc n') kjs) C
        else je_next (es ! m) \<noteq> Some i \<and> (\<exists>t \<in> C. erase_loop es (je_next (es ! m)) i = Some (Some t) \<and>
          (\<forall>es'. agree (C - {t}) es es' \<longrightarrow> t < length es' \<longrightarrow> es' ! t = (es ! t)\<lparr>je_next := je_next (es ! i)\<rparr> \<longrightarrow>
            reps es' (je_next (es ! m)) (take n' kjs @ drop (Suc n') kjs) C))" by (elim exE conjE) (rule that)
    have set: "A = insert i (B \<union> insert m (A0 \<union> C))" "i \<notin> insert m (A0 \<union> C)" "p \<noteq> Some i" using m f by auto
    have node: "node_of es p (kj # kjs) n i" using node_of_Cons [OF m(3,4) f(4)] m(1) Suc kj by simp
    have tk: "take n (kj # kjs) @ drop (Suc n) (kj # kjs) = (k, j) # take n' kjs @ drop (Suc n') kjs" by (simp add: Suc kj)
    have "\<exists>t \<in> insert m (A0 \<union> C). erase_loop es p i = Some (Some t) \<and>
       (\<forall>es'. agree (insert m (A0 \<union> C) - {t}) es es' \<longrightarrow> t < length es' \<longrightarrow> es' ! t = (es ! t)\<lparr>je_next := je_next (es ! i)\<rparr> \<longrightarrow>
          reps es' p (take n (kj # kjs) @ drop (Suc n) (kj # kjs)) (insert m (A0 \<union> C)))"
    proof (cases "n' = 0")
      case True
      with g have g0: "je_next (es ! m) = Some i" "reps es (je_next (es ! i)) (drop 1 kjs) C" by auto
      have "erase_loop es p i = Some (Some m)" using m g0 by (subst erase_loop.simps) simp
      moreover have "reps es' p ((k, j) # drop 1 kjs) (insert m (A0 \<union> C))"
        if "agree (insert m (A0 \<union> C) - {m}) es es'" "m < length es'" "es' ! m = (es ! m)\<lparr>je_next := je_next (es ! i)\<rparr>" for es'
      proof -
        have ag: "agree A0 es es'" "agree C es es'" using that(1) m f by (auto simp: agree_def)
        from rep_frame(1) [OF m(5) ag(1), of "es' ! m"] rep_frame(2) [OF g0(2) ag(2)] that(2,3) m f show ?thesis by (auto intro!: reps_cons)
      qed
      ultimately show ?thesis unfolding tk using True by (intro bexI [of _ m]) auto
    next
      case False
      with g obtain t where t: "je_next (es ! m) \<noteq> Some i" "t \<in> C" "erase_loop es (je_next (es ! m)) i = Some (Some t)"
        and w: "\<And>es'. agree (C - {t}) es es' \<Longrightarrow> t < length es' \<Longrightarrow> es' ! t = (es ! t)\<lparr>je_next := je_next (es ! i)\<rparr> \<Longrightarrow>
            reps es' (je_next (es ! m)) (take n' kjs @ drop (Suc n') kjs) C" by auto
      have "erase_loop es p i = Some (Some t)" using m t by (subst erase_loop.simps) simp
      moreover have "reps es' p ((k, j) # take n' kjs @ drop (Suc n') kjs) (insert m (A0 \<union> C))"
        if "agree (insert m (A0 \<union> C) - {t}) es es'" "t < length es'" "es' ! t = (es ! t)\<lparr>je_next := je_next (es ! i)\<rparr>" for es'
      proof -
        have ag: "agree A0 es es'" "agree (C - {t}) es es'" "m < length es'" "es' ! m = es ! m" using that(1) m f t(2) by (auto simp: agree_def)
        from rep_frame(1) [OF m(5) ag(1), of "es' ! m"] w [OF ag(2) that(2,3)] ag(3,4) m f show ?thesis by (auto intro!: reps_cons)
      qed
      ultimately show ?thesis unfolding tk using t(2) by (intro bexI [of _ t]) auto
    qed
    then show ?thesis
      by (rule_tac x = i in exI, rule_tac x = B in exI, rule_tac x = "insert m (A0 \<union> C)" in exI, intro conjI set(1,2) f(3) node) (simp only: Suc nat.simps if_False set(3) not_False_eq_True simp_thms)
  qed
qed simp

lemma cont_erase:
  assumes c: "cont d a t p kjs A" and n: "n < length kjs"
  shows "\<exists>i q d'. node_of (jd_elems d) p kjs n i \<and> jerase a (Some i) d = Some (q, d') \<and> only a A d d' \<and>
    (\<exists>p' A'. cont d' a t p' (take n kjs @ drop (Suc n) kjs) A' \<and> A' \<subseteq> A)"
proof -
  have r: "reps (jd_elems d) p kjs A" and va: "valid d a" "below a A" and ch: "child (el d a) = Some p" and sz: "je_size (el d a) = length kjs"
    using c by (auto simp: cont_def child_def)
  from reps_erase [OF r n] obtain i B C where f: "A = insert i (B \<union> C)" "i \<notin> C" "i < length (jd_elems d)" "node_of (jd_elems d) p kjs n i"
    and g: "if n = 0 then p = Some i \<and> reps (jd_elems d) (je_next (jd_elems d ! i)) (drop (Suc n) kjs) C
     else p \<noteq> Some i \<and> (\<exists>t \<in> C. erase_loop (jd_elems d) p i = Some (Some t) \<and>
       (\<forall>es'. agree (C - {t}) (jd_elems d) es' \<longrightarrow> t < length es' \<longrightarrow> es' ! t = (jd_elems d ! t)\<lparr>je_next := je_next (jd_elems d ! i)\<rparr> \<longrightarrow>
          reps es' p (take n kjs @ drop (Suc n) kjs) C))" by blast
  have bC: "below a C" using va(2) f(1) by (cases a) auto
  have bound: "C \<subseteq> {..<length (jd_elems d)}" using rep_bound(2) [OF r] f(1) by auto
  show ?thesis
  proof (cases "n = 0")
    case True
    let ?q = "je_next (jd_elems d ! i)"
    define d' where "d' = jput_el a ((el d a)\<lparr>je_val := VChild ?q, je_size := je_size (el d a) - 1\<rparr>) d"
    have "jerase a (Some i) d = Some (?q, d')" using g True by (simp add: jerase_def ch d'_def Let_def)
    moreover have "agree C (jd_elems d) (jd_elems d')" using bC bound by (auto simp: agree_def d'_def jput_nth)
    with rep_frame(2) g True have "reps (jd_elems d') ?q (drop (Suc n) kjs) C" by auto
    then have "cont d' a t ?q (take n kjs @ drop (Suc n) kjs) C" using c True n bC va by (auto simp: cont_def d'_def)
    moreover have "only a A d d'" using va by (auto simp: only_def d'_def jput_nth)
    ultimately show ?thesis using f by blast
  next
    case False
    let ?q = "je_next (jd_elems d ! i)"
    from g False obtain tn where tn: "p \<noteq> Some i" "tn \<in> C" "erase_loop (jd_elems d) p i = Some (Some tn)"
      and w: "\<And>es'. agree (C - {tn}) (jd_elems d) es' \<Longrightarrow> tn < length es' \<Longrightarrow> es' ! tn = (jd_elems d ! tn)\<lparr>je_next := ?q\<rparr> \<Longrightarrow>
          reps es' p (take n kjs @ drop (Suc n) kjs) C" by auto
    have tl: "tn < length (jd_elems d)" "a \<noteq> Node tn" using tn(2) bound bC by auto
    define d1 where "d1 = jput_el (Node tn) ((el d (Node tn))\<lparr>je_next := ?q\<rparr>) d"
    define d' where "d' = jput_el a ((el d1 a)\<lparr>je_size := je_size (el d1 a) - 1\<rparr>) d1"
    have "jerase a (Some i) d = Some (?q, d')" using tn by (simp add: jerase_def ch d'_def d1_def Let_def)
    moreover have e1: "el d1 a = el d a" "valid d1 a" using tl va unfolding d1_def by (simp_all add: el_jput_other del: jput_el.simps)
    have len: "length (jd_elems d') = length (jd_elems d)" by (simp add: d'_def d1_def)
    have nth: "jd_elems d' ! x = (if a = Node x then (el d a)\<lparr>je_size := je_size (el d a) - 1\<rparr> else if x = tn then (jd_elems d ! tn)\<lparr>je_next := ?q\<rparr> else jd_elems d ! x)"
      if "x < length (jd_elems d)" for x using that tl e1(1) unfolding d'_def by (auto simp: jput_nth d1_def)
    have "reps (jd_elems d') p (take n kjs @ drop (Suc n) kjs) C"
      by (rule w) (use len nth tl bC bound in \<open>auto simp: agree_def\<close>)
    then have "cont d' a t p (take n kjs @ drop (Suc n) kjs) C" using c n bC va e1 by (auto simp: cont_def d'_def)
    moreover have "only a A d d'" unfolding only_def
    proof (intro conjI allI impI)
      show "jd_elems d' ! x = jd_elems d ! x" if "x < length (jd_elems d)" "x \<notin> A" "a \<noteq> Node x" for x
        using that tn(2) f(1) by (simp add: nth) auto
      show "je_key (el d' a) = je_key (el d a)" "je_next (el d' a) = je_next (el d a)" using e1 by (simp_all add: d'_def)
    qed (use len in \<open>auto simp: d'_def d1_def\<close>)
    ultimately show ?thesis using f by blast
  qed
qed

text \<open>Erasing the member that \<open>find\<close> returns removes it from the array or object and leaves the others in their order.\<close>

theorem json_erase_found:
  "has d a (JArr js) A \<Longrightarrow> n < length js \<Longrightarrow> \<exists>i q d'. find_index (el d a) n d = Some (Inr (Some i)) \<and> jerase a (Some i) d = Some (q, d') \<and>
     changed a A (JArr (take n js @ drop (Suc n) js)) d d'"
proof -
  assume h: "has d a (JArr js) A" and n: "n < length js"
  obtain p kjs where js: "js = map snd kjs" and c: "cont d a ARRAY p kjs A" using h by (auto simp: has_arr)
  from cont_erase [OF c, of n] n js obtain i q d' p' A' where e: "node_of (jd_elems d) p kjs n i" "jerase a (Some i) d = Some (q, d')" "only a A d d'"
    "cont d' a ARRAY p' (take n kjs @ drop (Suc n) kjs) A'" "A' \<subseteq> A" by auto
  obtain x where "index_loop (jd_elems d) p 0 p n = Some (Some i, n, x)" using e(1) unfolding node_of_def by (metis add_0)
  then have "find_index (el d a) n d = Some (Inr (Some i))" using c n js by (auto simp: find_index_def cont_def je_length_def child_def)
  moreover have "has d' a (JArr (take n js @ drop (Suc n) js)) A'"
    using e(4) by (auto simp: has_arr js take_map drop_map intro!: exI [of _ p'] exI [of _ "take n kjs @ drop (Suc n) kjs"])
  ultimately show ?thesis using e by (auto simp: changed_def)
qed

theorem json_erase_found_witness:
  "\<exists>d A i q d'. has d Root (JArr [JNull, JNull]) A \<and> find_index (el d Root) 1 d = Some (Inr (Some i)) \<and> jerase Root (Some i) d = Some (q, d') \<and>
     changed Root A (JArr [JNull]) d d'"
proof -
  obtain d A where h: "has d Root (JArr [JNull, JNull]) A"
    using jcopy_copied [of "JArr [JNull, JNull]" 9 JBool] by (auto simp: jcost.simps scalar_ok_def)
  from json_erase_found [OF h, of 1] show ?thesis using h by (intro exI [of _ d] exI [of _ A]) auto
qed

end
