(* ===== verification/JsonCompares.thy ===== *)
theory JsonCompares
  imports JsonLists
begin

text \<open>
  Comparing JSON elements, \<open>operator==\<close> of \<open>util/Json.hpp\<close>, the search for a value, and lookups with a default: on elements, and on the trees they represent.
\<close>

subsection \<open>Equality of elements\<close>

text \<open>
  Types and scalars are compared first, \<open>Inl\<close>; \<open>Inr\<close> asks for the children. Numbers, doubles and Booleans are compared by the eight bytes of the union, so that
  doubles are equal if their words are. A Boolean sets one byte of a union whose other bytes its constructor has cleared.
\<close>

definition eq_head :: "jelem \<Rightarrow> jelem \<Rightarrow> (bool + bool) option" where
  "eq_head e e' =
     (if je_type e \<noteq> je_type e' then Some (Inl False)
      else case je_type e of
        NULL_VALUE \<Rightarrow> Some (Inl True)
      | ARRAY \<Rightarrow> Some (if je_length e \<noteq> je_length e' then Inl False else Inr False)
      | OBJECT \<Rightarrow> Some (if je_length e \<noteq> je_length e' then Inl False else Inr True)
      | STRING \<Rightarrow> (case (get_string e, get_string e') of (Some (Inr s), Some (Inr s')) \<Rightarrow> Some (Inl (s = s')) | _ \<Rightarrow> None)
      | _ \<Rightarrow> (case (je_val e, je_val e') of
            (VInt n, VInt n') \<Rightarrow> Some (Inl (n = n'))
          | (VDbl x, VDbl x') \<Rightarrow> Some (Inl (x = x'))
          | (VBool b, VBool b') \<Rightarrow> Some (Inl (b = b'))
          | _ \<Rightarrow> None))"

text \<open>
  The child of the other container that a child is compared with: of the same key, or the next by index. \<open>operator[]\<close> would append to an array that has fewer children
  than its size says, \<open>None\<close>.
\<close>

definition eq_partner :: "jdoc \<Rightarrow> bool \<Rightarrow> jelem \<Rightarrow> jelem \<Rightarrow> nat \<Rightarrow> nat option option" where
  "eq_partner d obj e' c i =
     (if obj then (case je_key c of
          None \<Rightarrow> None
        | Some k \<Rightarrow> (case find_key e' k d of Some (Inr q) \<Rightarrow> Some q | _ \<Rightarrow> None))
      else Option.bind (child e') (\<lambda>p. case index_loop (jd_elems d) p 0 p i of Some (Some q, _, _) \<Rightarrow> Some (Some q) | _ \<Rightarrow> None))"

text \<open>The loops over the children, with the comparison of each.\<close>

partial_function (option) eq_kids :: "jelem list \<Rightarrow> jdoc \<Rightarrow> bool \<Rightarrow> jelem \<Rightarrow> nat option \<Rightarrow> nat \<Rightarrow> bool option" where
  "eq_kids es d obj e' p i = (case p of
     None \<Rightarrow> Some True
   | Some c \<Rightarrow> if c \<ge> length es then None else
     Option.bind (eq_partner d obj e' (es ! c) i) (\<lambda>r. case r of
         None \<Rightarrow> Some False
       | Some q \<Rightarrow>
         Option.bind (eq_head (es ! c) (jd_elems d ! q)) (\<lambda>h.
         Option.bind (case h of
             Inl b \<Rightarrow> Some b
           | Inr o' \<Rightarrow> Option.bind (child (es ! c)) (\<lambda>p'. eq_kids es d o' (jd_elems d ! q) p' 0)) (\<lambda>b.
         if b then eq_kids es d obj e' (je_next (es ! c)) (i + 1) else Some False))))"

definition je_eq :: "jelem list \<Rightarrow> jelem \<Rightarrow> jdoc \<Rightarrow> jelem \<Rightarrow> bool option" where
  "je_eq es e d e' = Option.bind (eq_head e e') (\<lambda>h. case h of
       Inl b \<Rightarrow> Some b
     | Inr obj \<Rightarrow> Option.bind (child e) (\<lambda>p. eq_kids es d obj e' p 0))"

definition je_equal :: "addr \<Rightarrow> jdoc \<Rightarrow> addr \<Rightarrow> jdoc \<Rightarrow> bool option" where
  "je_equal a d b d' = je_eq (jd_elems d) (el d a) d' (el d' b)"

lemma eq_kids_Some:
  "c < length es \<Longrightarrow> eq_kids es d obj e' (Some c) i =
     Option.bind (eq_partner d obj e' (es ! c) i) (\<lambda>r. case r of None \<Rightarrow> Some False | Some q \<Rightarrow>
       Option.bind (je_eq es (es ! c) d (jd_elems d ! q)) (\<lambda>b. if b then eq_kids es d obj e' (je_next (es ! c)) (i + 1) else Some False))"
  by (subst eq_kids.simps) (simp add: je_eq_def Option.bind_assoc)

subsection \<open>Equality of trees\<close>

text \<open>Objects have as many members, and each of the first is found in the second, where the first of its key counts.\<close>

function jequal :: "json \<Rightarrow> json \<Rightarrow> bool" where
  "jequal JNull j \<longleftrightarrow> j = JNull"
| "jequal (JBool b) j \<longleftrightarrow> j = JBool b"
| "jequal (JInt n) j \<longleftrightarrow> j = JInt n"
| "jequal (JUInt n) j \<longleftrightarrow> j = JUInt n"
| "jequal (JDbl x) j \<longleftrightarrow> j = JDbl x"
| "jequal (JStr s) j \<longleftrightarrow> j = JStr s"
| "jequal (JArr js) j \<longleftrightarrow> (case j of JArr js' \<Rightarrow> length js = length js' \<and> (\<forall>(x, y) \<in> set (zip js js'). jequal x y) | _ \<Rightarrow> False)"
| "jequal (JObj kvs) j \<longleftrightarrow> (case j of JObj kvs' \<Rightarrow> length kvs = length kvs' \<and> (\<forall>(k, v) \<in> set kvs. k \<in> fst ` set kvs' \<and> jequal v (obj_get k kvs')) | _ \<Rightarrow> False)"
  by pat_completeness auto
termination
proof (relation "measure (\<lambda>(j, j'). size j)")
  fix js js' :: "json list" and z x y assume "z \<in> set (zip js js')" "(x, y) = z"
  then have "x \<in> set js" by (auto dest: set_zip_leftD)
  then have "size x \<le> size_list size js" by (simp add: size_list_estimation')
  then show "((x, y), (JArr js, j)) \<in> measure (\<lambda>(j, j'). size j)" for j by simp
next
  fix kvs :: "(string \<times> json) list" and z k v j assume "z \<in> set kvs" "(k, v) = z"
  then have "size v \<le> size_list (size_prod (\<lambda>_. 0) size) kvs" by (intro size_list_estimation' [of z]) auto
  then show "((v, obj_get k kvs'), (JObj kvs, j)) \<in> measure (\<lambda>(j, j'). size j)" for kvs' by simp
qed simp

lemma partner_index:
  assumes "rep (jd_elems d) e' (JArr js) A" "n < length js"
  shows "\<exists>q B. eq_partner d False e' c n = Some (Some q) \<and> rep (jd_elems d) (jd_elems d ! q) (js ! n) B"
proof -
  obtain p kjs where r: "js = map snd kjs" "je_val e' = VChild p" "reps (jd_elems d) p kjs A" using assms(1) by (auto elim!: rep_ArrE)
  from reps_focus [OF r(3), of n] r(1) assms(2) obtain q B where q: "rep (jd_elems d) (jd_elems d ! q) (snd (kjs ! n)) B" "node_of (jd_elems d) p kjs n q" by auto
  from q(2) obtain t where "index_loop (jd_elems d) p 0 p (0 + n) = Some (Some q, 0 + n, t)" unfolding node_of_def by blast
  with q(1) r(1,2) assms(2) show ?thesis by (auto simp: eq_partner_def child_def)
qed

lemma partner_key:
  assumes "rep (jd_elems d) e' (JObj m) A" "je_key c = Some k"
  shows "if k \<in> fst ` set m then \<exists>q B. eq_partner d True e' c n = Some (Some q) \<and> rep (jd_elems d) (jd_elems d ! q) (obj_get k m) B
    else eq_partner d True e' c n = Some None"
proof -
  let ?d = "d\<lparr>jd_root := e'\<rparr>"
  have "find_key e' k ?d = find_key e' k d" by (simp add: find_key_def)
  moreover have "has ?d Root (JObj m) A" using assms(1) by (simp add: has_def)
  ultimately show ?thesis using find_key_tree [of ?d Root m A k] assms(2) by (auto simp: eq_partner_def has_def split: if_splits)
qed

subsection \<open>The loops compute it\<close>

lemma je_eq_scalar:
  assumes "scalar j = Some (je_type e, je_size e, je_val e)" "rep (jd_elems d) e' j' B"
  shows "je_eq es e d e' = Some (jequal j j')"
proof -
  have s: "scalar x = Some (je_type f, je_size f, je_val f) \<or> (\<exists>js. x = JArr js) \<and> je_type f = ARRAY \<or> (\<exists>kvs. x = JObj kvs) \<and> je_type f = OBJECT"
    if "rep us f x C" for us f x C using that by (auto elim: rep.cases)
  obtain ty n x where e: "je_type e = ty" "je_size e = n" "je_val e = x" by simp
  obtain ty' n' x' where e': "je_type e' = ty'" "je_size e' = n'" "je_val e' = x'" by simp
  show ?thesis using assms(1) s [OF assms(2)]
    by (cases j; cases j') (auto simp: je_eq_def eq_head_def get_string_def e e')
qed

lemma eq_rep:
  "rep es e j A \<Longrightarrow> rep (jd_elems d) e' j' B \<Longrightarrow> je_eq es e d e' = Some (jequal j j')"
  "reps es p kjs A \<Longrightarrow>
     (\<forall>e' js B i. rep (jd_elems d) e' (JArr js) B \<longrightarrow> i + length kjs = length js \<longrightarrow>
        eq_kids es d False e' p i = Some (\<forall>(x, y) \<in> set (zip (map snd kjs) (drop i js)). jequal x y)) \<and>
     (\<forall>e' kvs m B i. kjs = okeys kvs \<longrightarrow> rep (jd_elems d) e' (JObj m) B \<longrightarrow>
        eq_kids es d True e' p i = Some (\<forall>(k, v) \<in> set kvs. k \<in> fst ` set m \<and> jequal v (obj_get k m)))"
proof (induction arbitrary: e' j' B rule: rep_reps.inducts)
  case (rep_scalar j e)
  then show ?case by (rule je_eq_scalar)
next
  case (rep_arr e p kjs A)
  show ?case
  proof (cases "\<exists>js. j' = JArr js")
    case True
    then obtain js where j': "j' = JArr js" by blast
    then have r: "je_type e' = ARRAY" "je_size e' = length js" using rep_arr.prems by (auto elim: rep_ArrE)
    show ?thesis
    proof (cases "length kjs = length js")
      case eq: True
      have "eq_kids es d False e' p 0 = Some (\<forall>(x, y) \<in> set (zip (map snd kjs) (drop 0 js)). jequal x y)"
        using conjunct1 [OF rep_arr.IH(2), THEN spec, THEN spec, THEN spec, THEN spec, of e' js B 0] rep_arr.prems j' eq by simp
      with rep_arr.hyps r j' eq show ?thesis by (simp add: je_eq_def eq_head_def je_length_def child_def)
    next
      case False
      with rep_arr.hyps r j' show ?thesis by (simp add: je_eq_def eq_head_def je_length_def)
    qed
  next
    case False
    then have "je_type e' \<noteq> ARRAY" using rep_arr.prems by (cases j') (auto elim: rep.cases)
    with rep_arr.hyps False show ?thesis by (cases j') (auto simp: je_eq_def eq_head_def)
  qed
next
  case (rep_obj e p kvs A)
  show ?case
  proof (cases "\<exists>m. j' = JObj m")
    case True
    then obtain m where j': "j' = JObj m" by blast
    then have r: "je_type e' = OBJECT" "je_size e' = length m" using rep_obj.prems by (auto elim: rep_ObjE)
    show ?thesis
    proof (cases "length kvs = length m")
      case eq: True
      with rep_obj.IH rep_obj.prems j' have "eq_kids es d True e' p 0 = Some (\<forall>(k, v) \<in> set kvs. k \<in> fst ` set m \<and> jequal v (obj_get k m))"
        unfolding okeys_def by blast
      with rep_obj.hyps r j' eq show ?thesis by (simp add: je_eq_def eq_head_def je_length_def child_def)
    next
      case False
      with rep_obj.hyps r j' show ?thesis by (simp add: je_eq_def eq_head_def je_length_def)
    qed
  next
    case False
    then have "je_type e' \<noteq> OBJECT" using rep_obj.prems by (cases j') (auto elim: rep.cases)
    with rep_obj.hyps False show ?thesis by (cases j') (auto simp: je_eq_def eq_head_def)
  qed
next
  case reps_nil
  then show ?case by (simp add: eq_kids.simps [of _ _ _ _ None] okeys_def)
next
  case (reps_cons c k j A kjs C)
  show ?case
  proof (intro conjI allI impI)
    fix e' js B i assume r: "rep (jd_elems d) e' (JArr js) B" and n: "i + length ((k, j) # kjs) = length js"
    from partner_index [OF r, of i "es ! c"] n obtain q D where q: "eq_partner d False e' (es ! c) i = Some (Some q)" "rep (jd_elems d) (jd_elems d ! q) (js ! i) D" by auto
    have rest: "eq_kids es d False e' (je_next (es ! c)) (i + 1) = Some (\<forall>(x, y) \<in> set (zip (map snd kjs) (drop (i + 1) js)). jequal x y)"
      using conjunct1 [OF reps_cons(6), THEN spec, THEN spec, THEN spec, THEN spec, of e' js B "i + 1"] r n by simp
    have dr: "drop i js = js ! i # drop (i + 1) js" using n by (simp add: Cons_nth_drop_Suc)
    show "eq_kids es d False e' (Some c) i = Some (\<forall>(x, y) \<in> set (zip (map snd ((k, j) # kjs)) (drop i js)). jequal x y)"
      using reps_cons(4) [OF q(2)] rest reps_cons(1) by (simp add: eq_kids_Some q(1) dr)
  next
    fix e' kvs m B i assume o: "(k, j) # kjs = okeys kvs" and r: "rep (jd_elems d) e' (JObj m) B"
    then obtain key kvs' where kv: "kvs = (key, j) # kvs'" "k = Some key" "kjs = okeys kvs'" by (cases kvs) (auto simp: okeys_def)
    have rest: "eq_kids es d True e' (je_next (es ! c)) (i + 1) = Some (\<forall>(k, v) \<in> set kvs'. k \<in> fst ` set m \<and> jequal v (obj_get k m))"
      using conjunct2 [OF reps_cons(6), THEN spec, THEN spec, THEN spec, THEN spec, THEN spec, of kvs' e' m B "i + 1"] r kv(3) by simp
    have p: "if key \<in> fst ` set m then \<exists>q B. eq_partner d True e' (es ! c) i = Some (Some q) \<and> rep (jd_elems d) (jd_elems d ! q) (obj_get key m) B
      else eq_partner d True e' (es ! c) i = Some None" by (rule partner_key [OF r]) (use reps_cons(2) kv(2) in simp)
    show "eq_kids es d True e' (Some c) i = Some (\<forall>(k, v) \<in> set kvs. k \<in> fst ` set m \<and> jequal v (obj_get k m))"
    proof (cases "key \<in> fst ` set m")
      case True
      with p obtain q D where q: "eq_partner d True e' (es ! c) i = Some (Some q)" "rep (jd_elems d) (jd_elems d ! q) (obj_get key m) D" by auto
      from reps_cons(4) [OF q(2)] rest reps_cons(1) True show ?thesis by (simp add: eq_kids_Some q(1) kv(1))
    next
      case False
      with p reps_cons(1) show ?thesis by (simp add: eq_kids_Some kv(1))
    qed
  qed
qed

subsection \<open>Equality with keys that are used once\<close>

lemma obj_get_member: "distinct (map fst m) \<Longrightarrow> (k, v) \<in> set m \<Longrightarrow> obj_get k m = v"
  by (induction k m rule: obj_get.induct) (auto simp: image_iff)

lemma obj_get_in: "k \<in> fst ` set m \<Longrightarrow> (k, obj_get k m) \<in> set m"
  by (induction k m rule: obj_get.induct) auto

lemma jequal_refl: "keys_once j \<Longrightarrow> jequal j j"
proof (induction j rule: keys_once.induct)
  case (1 js)
  then show ?case by (auto simp: set_zip)
next
  case (2 kvs)
  then show ?case by (auto simp: obj_get_member rev_image_eqI)
qed simp_all

lemma jequal_sym: "jequal j j' \<Longrightarrow> keys_once j \<Longrightarrow> keys_once j' \<Longrightarrow> jequal j' j"
proof (induction j j' rule: jequal.induct)
  case (7 js j)
  then obtain js' where j: "j = JArr js'" "length js = length js'" "\<forall>(x, y) \<in> set (zip js js'). jequal x y" by (auto split: json.splits)
  have "jequal y x" if "(y, x) \<in> set (zip js' js)" for x y
  proof -
    have z: "(x, y) \<in> set (zip js js')" using that by (auto simp: set_zip)
    have "keys_once x" using 7(3) set_zip_leftD [OF z] by simp
    moreover have "keys_once y" using 7(4) set_zip_rightD [OF z] by (simp add: j(1))
    moreover have "jequal x y" using bspec [OF j(3) z] by simp
    ultimately show ?thesis by (intro 7(1) [OF j(1) z refl])
  qed
  then have "\<forall>(y, x) \<in> set (zip js' js). jequal y x" by blast
  then show ?case by (simp add: j(1,2))
next
  case (8 kvs j)
  then obtain m where j: "j = JObj m" "length kvs = length m" "\<forall>(k, v) \<in> set kvs. k \<in> fst ` set m \<and> jequal v (obj_get k m)" by (auto split: json.splits)
  have d: "distinct (map fst kvs)" "distinct (map fst m)" using 8(3,4) j(1) by auto
  have keys: "fst ` set kvs = fst ` set m"
  proof (rule card_subset_eq)
    show "fst ` set kvs \<subseteq> fst ` set m" using j(3) by auto
    show "card (fst ` set kvs) = card (fst ` set m)" using distinct_card [OF d(1)] distinct_card [OF d(2)] j(2) by simp
  qed simp
  have "k \<in> fst ` set kvs \<and> jequal v (obj_get k kvs)" if kv: "(k, v) \<in> set m" for k v
  proof -
    have k: "k \<in> fst ` set kvs" unfolding keys using kv by (rule rev_image_eqI) simp
    have w: "(k, obj_get k kvs) \<in> set kvs" using k by (rule obj_get_in)
    have v: "obj_get k m = v" using d(2) kv by (rule obj_get_member)
    have "jequal (obj_get k kvs) (obj_get k m)" using bspec [OF j(3) w] by simp
    moreover have "keys_once (obj_get k kvs)" using 8(3) w by auto
    moreover have "keys_once (obj_get k m)" using 8(4) kv by (auto simp: j(1) v)
    ultimately have "jequal (obj_get k m) (obj_get k kvs)" by (rule 8(1) [OF j(1) w refl])
    with k v show ?thesis by simp
  qed
  then have "\<forall>(k, v) \<in> set m. k \<in> fst ` set kvs \<and> jequal v (obj_get k kvs)" by blast
  then show ?case by (simp add: j(1,2))
qed (auto split: json.splits)

text \<open>C25: Comparing two elements ends with the equality of the trees they represent: arrays by position, objects by key and in any order. On trees whose keys are
  used once it is reflexive and symmetric.\<close>

theorem json_equal_trees:
  assumes "has d a j A" "has d' b j' B"
  shows "je_equal a d b d' = Some (jequal j j') \<and> (keys_once j \<longrightarrow> jequal j j) \<and> (keys_once j \<and> keys_once j' \<longrightarrow> jequal j j' = jequal j' j)"
proof -
  have "je_equal a d b d' = Some (jequal j j')" using assms eq_rep(1) [of "jd_elems d" "el d a" j A d' "el d' b" j' B] by (simp add: has_def je_equal_def)
  then show ?thesis using jequal_refl jequal_sym by blast
qed

theorem json_equal_trees_witness: "je_equal Root (jd_new NULL_VALUE 0) Root (jd_new NULL_VALUE 3) = Some True"
  using json_equal_trees [OF new_has_null new_has_null, of 0 3] by simp

text \<open>With a key used twice the comparison depends on the side.\<close>

lemma equality_not_symmetric:
  "jequal (JObj [(''a'', JNull), (''a'', JNull)]) (JObj [(''a'', JNull), (''b'', JNull)])"
  "\<not> jequal (JObj [(''a'', JNull), (''b'', JNull)]) (JObj [(''a'', JNull), (''a'', JNull)])"
  by simp_all

text \<open>Zero and minus zero differ, and so do the integers one and one unsigned.\<close>

lemma equality_of_numbers: "\<not> jequal (JDbl 0) (JDbl 0x8000000000000000)" "\<not> jequal (JInt 1) (JUInt 1)"
  by simp_all

end
