(* ===== verification/Packets.thy ===== *)
theory Packets
  imports Endpoints Times
begin

text \<open>
  Captured packets: \<open>net/Pcap.hpp\<close>, \<open>net/Pcap.ipp\<close> and the loop of \<open>net/Pcap.cpp\<close>. A packet is the bytes captured with the header that \<open>libpcap\<close> keeps for
  it; reading past the bytes captured, or a failed assertion, is \<open>None\<close>.
\<close>

subsection \<open>Packets\<close>

record pcap_packet =
  pk_ts :: timeval
  pk_len :: nat
  pk_bytes :: "u8 list"

datatype ip_addr = V4 nat | V6 "u8 list" | NoAddr

text \<open>Sizes of the headers: Ethernet, IP, TCP and UDP.\<close>

definition ether_size :: nat where "ether_size = 14"
definition ip_size :: nat where "ip_size = 20"
definition tcp_size :: nat where "tcp_size = 20"
definition udp_size :: nat where "udp_size = 8"

definition IPPROTO_PIM :: nat where "IPPROTO_PIM = 103"
definition TCP :: nat where "TCP = 6"
definition UDP :: nat where "UDP = 17"

lemmas packet_constants = ether_size_def ip_size_def tcp_size_def udp_size_def IPPROTO_PIM_def TCP_def UDP_def

definition byte_of :: "pcap_packet \<Rightarrow> nat \<Rightarrow> nat option" where
  "byte_of pk i = (if i < length (pk_bytes pk) then Some (unat (pk_bytes pk ! i)) else None)"

text \<open>Numbers in network byte order.\<close>

definition word16_of :: "pcap_packet \<Rightarrow> nat \<Rightarrow> nat option" where
  "word16_of pk i = Option.bind (byte_of pk i) (\<lambda>a. Option.bind (byte_of pk (i + 1)) (\<lambda>b. Some (a * 256 + b)))"

definition word32_of :: "pcap_packet \<Rightarrow> nat \<Rightarrow> nat option" where
  "word32_of pk i = Option.bind (word16_of pk i) (\<lambda>a. Option.bind (word16_of pk (i + 2)) (\<lambda>b. Some (a * 65536 + b)))"

definition bytes_of :: "pcap_packet \<Rightarrow> nat \<Rightarrow> nat \<Rightarrow> u8 list option" where
  "bytes_of pk i n = (if i + n \<le> length (pk_bytes pk) then Some (take n (drop i (pk_bytes pk))) else None)"

definition ip_p :: "pcap_packet \<Rightarrow> nat option" where
  "ip_p pk = byte_of pk (ether_size + 9)"

definition protocol_family :: "pcap_packet \<Rightarrow> int option" where
  "protocol_family pk = map_option (\<lambda>t. if t = 0x0800 then AF_INET else if t = 0x86dd then AF_INET6 else AF_UNSPEC) (word16_of pk 12)"

definition src_port :: "pcap_packet \<Rightarrow> nat option" where
  "src_port pk = Option.bind (ip_p pk) (\<lambda>p. if p = TCP \<or> p = UDP then word16_of pk (ether_size + ip_size) else Some 0)"

definition dst_port :: "pcap_packet \<Rightarrow> nat option" where
  "dst_port pk = Option.bind (ip_p pk) (\<lambda>p. if p = TCP \<or> p = UDP then word16_of pk (ether_size + ip_size + 2) else Some 0)"

definition pk_src :: "pcap_packet \<Rightarrow> ip_addr endpoint option" where
  "pk_src pk = Option.bind (protocol_family pk) (\<lambda>f.
     if f = AF_INET then Option.bind (word32_of pk (ether_size + 12)) (\<lambda>a. Option.bind (src_port pk) (\<lambda>p. Some \<lparr>ep_address = V4 a, ep_port = p\<rparr>))
     else if f = AF_INET6 then Option.bind (bytes_of pk (ether_size + 12) 16) (\<lambda>a. Option.bind (src_port pk) (\<lambda>p. Some \<lparr>ep_address = V6 a, ep_port = p\<rparr>))
     else Some \<lparr>ep_address = NoAddr, ep_port = 0\<rparr>)"

definition pk_dst :: "pcap_packet \<Rightarrow> ip_addr endpoint option" where
  "pk_dst pk = Option.bind (protocol_family pk) (\<lambda>f.
     if f = AF_INET then Option.bind (word32_of pk (ether_size + 16)) (\<lambda>a. Option.bind (dst_port pk) (\<lambda>p. Some \<lparr>ep_address = V4 a, ep_port = p\<rparr>))
     else if f = AF_INET6 then Option.bind (bytes_of pk (ether_size + 16) 16) (\<lambda>a. Option.bind (dst_port pk) (\<lambda>p. Some \<lparr>ep_address = V6 a, ep_port = p\<rparr>))
     else Some \<lparr>ep_address = NoAddr, ep_port = 0\<rparr>)"

text \<open>Family, protocol and type of the socket.\<close>

definition pk_protocol :: "pcap_packet \<Rightarrow> (int \<times> int \<times> int) option" where
  "pk_protocol pk = Option.bind (ip_p pk) (\<lambda>p. Option.bind (protocol_family pk) (\<lambda>f.
     Some (f, int p, if p = TCP then SOCK_STREAM else if p = UDP then SOCK_DGRAM else 0)))"

text \<open>The offset of the data, or a null pointer, and their size, which is computed in 64 bits from the length on the wire.\<close>

definition pk_data :: "pcap_packet \<Rightarrow> nat option option" where
  "pk_data pk = map_option (\<lambda>p.
     if p = TCP then Some (ether_size + ip_size + tcp_size)
     else if p = UDP \<or> p = IPPROTO_PIM then Some (ether_size + ip_size + udp_size)
     else None) (ip_p pk)"

definition pk_size :: "pcap_packet \<Rightarrow> u64 option" where
  "pk_size pk = Option.bind (protocol_family pk) (\<lambda>f.
     if f = AF_INET then map_option (\<lambda>p.
       if p = TCP then of_nat (pk_len pk) - of_nat (ether_size + ip_size + tcp_size)
       else if p = UDP then of_nat (pk_len pk) - of_nat (ether_size + ip_size + udp_size)
       else 0) (ip_p pk)
     else if f = AF_INET6 then None
     else Some 0)"

text \<open>The text of a packet, as far as it can be read.\<close>

definition pk_str :: "pcap_packet \<Rightarrow> u8 list option" where
  "pk_str pk = Option.bind (pk_data pk) (\<lambda>off. Option.bind (pk_size pk) (\<lambda>n.
     case off of None \<Rightarrow> if n = 0 then Some [] else None | Some i \<Rightarrow> bytes_of pk i (unat n)))"

definition recv_timestamp :: "pcap_packet \<Rightarrow> int" where
  "recv_timestamp pk = time_of_timeval (pk_ts pk)"

text \<open>The handler of the device passes packets of IP version 4 to the signal.\<close>

definition packet_handler :: "pcap_packet \<Rightarrow> pcap_packet list \<Rightarrow> pcap_packet list option" where
  "packet_handler pk out = map_option (\<lambda>t. if t = 0x0800 then out @ [pk] else out) (word16_of pk 12)"

text \<open>
  \<open>pcap_loop\<close> is code of \<open>libpcap\<close>: it takes the number of packets to read, zero for all, and the handler, and returns a code.
\<close>

type_synonym pcap_loop = "int \<Rightarrow> (pcap_packet \<Rightarrow> pcap_packet list \<Rightarrow> pcap_packet list option) \<Rightarrow> pcap_packet list \<Rightarrow> (int \<times> pcap_packet list) option"

datatype pcap_error = ReadError | InvalidCode

definition device_loop :: "pcap_loop \<Rightarrow> int \<Rightarrow> pcap_packet list \<Rightarrow> (pcap_error + int \<times> pcap_packet list) option" where
  "device_loop loop max_packet_count out = (case loop max_packet_count packet_handler out of
     None \<Rightarrow> None
   | Some (rc, out1) \<Rightarrow> Some (if rc \<ge> 0 then Inr (rc, out1) else if rc = - 1 then Inl ReadError else if rc = - 2 then Inr (rc, out1) else Inl InvalidCode))"

text \<open>Its documentation: without a limit every packet of the file is passed to the handler, in order, and the result is zero at the end of the file.\<close>

fun each :: "(pcap_packet \<Rightarrow> pcap_packet list \<Rightarrow> pcap_packet list option) \<Rightarrow> pcap_packet list \<Rightarrow> pcap_packet list \<Rightarrow> pcap_packet list option" where
  "each handler [] out = Some out"
| "each handler (pk # pks) out = Option.bind (handler pk out) (each handler pks)"

definition reads_file :: "pcap_loop \<Rightarrow> pcap_packet list \<Rightarrow> bool" where
  "reads_file loop pks \<longleftrightarrow> (\<forall>handler out. loop 0 handler out = map_option (Pair 0) (each handler pks out))"

subsection \<open>Frames\<close>

definition bytes16 :: "nat \<Rightarrow> u8 list" where
  "bytes16 n = [of_nat (n div 256), of_nat (n mod 256)]"

definition bytes32 :: "nat \<Rightarrow> u8 list" where
  "bytes32 n = bytes16 (n div 65536) @ bytes16 (n mod 65536)"

text \<open>A datagram over IP version 4: the addresses of the cards, the fields that nobody reads, addresses, ports and data.\<close>

record ip_frame =
  fr_macs :: "u8 list"
  fr_head :: "u8 list"
  fr_sum :: "u8 list"
  fr_tcp :: bool
  fr_src :: nat
  fr_dst :: nat
  fr_sport :: nat
  fr_dport :: nat
  fr_tail :: "u8 list"
  fr_payload :: "u8 list"

definition frame_ok :: "ip_frame \<Rightarrow> bool" where
  "frame_ok f \<longleftrightarrow> length (fr_macs f) = 12 \<and> length (fr_head f) = 9 \<and> length (fr_sum f) = 2 \<and> length (fr_tail f) = (if fr_tcp f then 16 else 4) \<and>
     fr_src f < 2 ^ 32 \<and> fr_dst f < 2 ^ 32 \<and> fr_sport f < 2 ^ 16 \<and> fr_dport f < 2 ^ 16 \<and> length (fr_payload f) < 2 ^ 32"

definition frame_head :: "ip_frame \<Rightarrow> u8 list" where
  "frame_head f = fr_macs f @ [0x08, 0x00] @ fr_head f @ [if fr_tcp f then 6 else 17] @ fr_sum f @ bytes32 (fr_src f) @ bytes32 (fr_dst f) @
     bytes16 (fr_sport f) @ bytes16 (fr_dport f) @ fr_tail f"

definition frame_bytes :: "ip_frame \<Rightarrow> u8 list" where
  "frame_bytes f = frame_head f @ fr_payload f"

definition frame_packet :: "timeval \<Rightarrow> ip_frame \<Rightarrow> pcap_packet" where
  "frame_packet ts f = \<lparr>pk_ts = ts, pk_len = length (frame_bytes f), pk_bytes = frame_bytes f\<rparr>"

lemma word16_at:
  assumes "pk_bytes pk = pre @ bytes16 n @ post" "length pre = i" "n < 2 ^ 16"
  shows "word16_of pk i = Some n"
proof -
  have "unat (of_nat (n div 256) :: u8) = n div 256" "unat (of_nat (n mod 256) :: u8) = n mod 256" using assms(3) by (simp_all add: unat_of_nat)
  with assms show ?thesis by (simp add: word16_of_def byte_of_def bytes16_def nth_append)
qed

lemma word32_at:
  assumes "pk_bytes pk = pre @ bytes32 n @ post" "length pre = i" "n < 2 ^ 32"
  shows "word32_of pk i = Some n"
proof -
  have "word16_of pk i = Some (n div 65536)" by (rule word16_at [of _ pre]) (use assms in \<open>auto simp: bytes32_def\<close>)
  moreover have "word16_of pk (i + 2) = Some (n mod 65536)"
    by (rule word16_at [of _ "pre @ bytes16 (n div 65536)"]) (use assms in \<open>auto simp: bytes32_def bytes16_def\<close>)
  ultimately show ?thesis by (simp add: word32_of_def)
qed

lemma frame_fields:
  assumes ok: "frame_ok f" and pk: "pk_bytes pk = frame_bytes f @ pad"
  shows "word16_of pk 12 = Some 0x0800" "ip_p pk = Some (if fr_tcp f then TCP else UDP)"
    "word32_of pk (ether_size + 12) = Some (fr_src f)" "word32_of pk (ether_size + 16) = Some (fr_dst f)"
    "word16_of pk (ether_size + ip_size) = Some (fr_sport f)" "word16_of pk (ether_size + ip_size + 2) = Some (fr_dport f)"
proof -
  note D = frame_bytes_def frame_head_def packet_constants
  have l: "length (bytes32 n) = 4" "length (bytes16 n) = 2" for n by (simp_all add: bytes32_def bytes16_def)
  have b: "length (fr_macs f) = 12" "length (fr_head f) = 9" "length (fr_sum f) = 2" "fr_src f < 2 ^ 32" "fr_dst f < 2 ^ 32" "fr_sport f < 2 ^ 16" "fr_dport f < 2 ^ 16"
    using ok by (auto simp: frame_ok_def)
  have e: "bytes16 0x0800 = [0x08, 0x00]" by (simp add: bytes16_def)
  show "word16_of pk 12 = Some 0x0800"
    by (rule word16_at [of _ "fr_macs f"]) (simp_all add: pk D e b)
  show "ip_p pk = Some (if fr_tcp f then TCP else UDP)"
    using b by (simp add: ip_p_def byte_of_def pk D nth_append)
  show "word32_of pk (ether_size + 12) = Some (fr_src f)"
    by (rule word32_at [of _ "fr_macs f @ [0x08, 0x00] @ fr_head f @ [if fr_tcp f then 6 else 17] @ fr_sum f"]) (use b in \<open>simp_all add: pk D\<close>)
  show "word32_of pk (ether_size + 16) = Some (fr_dst f)"
    by (rule word32_at [of _ "fr_macs f @ [0x08, 0x00] @ fr_head f @ [if fr_tcp f then 6 else 17] @ fr_sum f @ bytes32 (fr_src f)"]) (use b in \<open>simp_all add: pk D l\<close>)
  show "word16_of pk (ether_size + ip_size) = Some (fr_sport f)"
    by (rule word16_at [of _ "fr_macs f @ [0x08, 0x00] @ fr_head f @ [if fr_tcp f then 6 else 17] @ fr_sum f @ bytes32 (fr_src f) @ bytes32 (fr_dst f)"])
      (use b in \<open>simp_all add: pk D l\<close>)
  show "word16_of pk (ether_size + ip_size + 2) = Some (fr_dport f)"
    by (rule word16_at [of _ "fr_macs f @ [0x08, 0x00] @ fr_head f @ [if fr_tcp f then 6 else 17] @ fr_sum f @ bytes32 (fr_src f) @ bytes32 (fr_dst f) @ bytes16 (fr_sport f)"])
      (use b in \<open>simp_all add: pk D l\<close>)
qed

lemma frame_head_length: "frame_ok f \<Longrightarrow> length (frame_head f) = ether_size + ip_size + (if fr_tcp f then tcp_size else udp_size)"
  by (simp add: frame_ok_def frame_head_def packet_constants bytes32_def bytes16_def)

text \<open>What is read from a packet whose frame is followed by \<open>pad\<close>: the payload with the padding.\<close>

lemma packet_of_frame:
  assumes ok: "frame_ok f" and pk: "pk_bytes pk = frame_bytes f @ pad" "pk_len pk = length (pk_bytes pk)" and small: "length pad < 2 ^ 32"
  shows "pk_src pk = Some \<lparr>ep_address = V4 (fr_src f), ep_port = fr_sport f\<rparr>" "pk_dst pk = Some \<lparr>ep_address = V4 (fr_dst f), ep_port = fr_dport f\<rparr>"
    "pk_protocol pk = Some (AF_INET, if fr_tcp f then IPPROTO_TCP else IPPROTO_UDP, if fr_tcp f then SOCK_STREAM else SOCK_DGRAM)"
    "pk_str pk = Some (fr_payload f @ pad)"
proof -
  note F = frame_fields [OF ok pk(1)]
  have fam: "protocol_family pk = Some AF_INET" by (simp add: protocol_family_def F)
  show "pk_src pk = Some \<lparr>ep_address = V4 (fr_src f), ep_port = fr_sport f\<rparr>" by (simp add: pk_src_def fam src_port_def F)
  show "pk_dst pk = Some \<lparr>ep_address = V4 (fr_dst f), ep_port = fr_dport f\<rparr>" by (simp add: pk_dst_def fam dst_port_def F F(6) [simplified])
  show "pk_protocol pk = Some (AF_INET, if fr_tcp f then IPPROTO_TCP else IPPROTO_UDP, if fr_tcp f then SOCK_STREAM else SOCK_DGRAM)"
    by (simp add: pk_protocol_def fam F packet_constants socket_constants)
  let ?h = "ether_size + ip_size + (if fr_tcp f then tcp_size else udp_size)"
  have len: "pk_len pk = ?h + (length (fr_payload f) + length pad)" using frame_head_length [OF ok] pk by (simp add: frame_bytes_def)
  have data: "pk_data pk = Some (Some ?h)" by (simp add: pk_data_def F packet_constants)
  have "pk_size pk = Some (of_nat (pk_len pk) - of_nat ?h)" by (simp add: pk_size_def fam F packet_constants)
  also have "(of_nat (pk_len pk) :: u64) - of_nat ?h = of_nat (length (fr_payload f) + length pad)" unfolding len by simp
  finally have size: "pk_size pk = Some (of_nat (length (fr_payload f) + length pad))" .
  have u: "unat (of_nat (length (fr_payload f) + length pad) :: u64) = length (fr_payload f) + length pad"
    using ok small by (subst unat_of_nat) (simp add: frame_ok_def)
  show "pk_str pk = Some (fr_payload f @ pad)"
    unfolding pk_str_def data size Option.bind.bind_lunit option.case bytes_of_def u using frame_head_length [OF ok] by (simp add: pk frame_bytes_def)
qed


text \<open>Frames of another kind are dropped by the device.\<close>

definition is_ip :: "pcap_packet \<Rightarrow> bool" where
  "is_ip pk \<longleftrightarrow> word16_of pk 12 = Some 0x0800"

lemma each_handler: "(\<forall>pk \<in> set pks. word16_of pk 12 \<noteq> None) \<Longrightarrow> each packet_handler pks out = Some (out @ filter is_ip pks)"
  by (induction pks arbitrary: out) (auto simp: packet_handler_def is_ip_def)

text \<open>A frame of which only a part of the payload was captured: everything but the data can be read.\<close>

definition cut_packet :: "timeval \<Rightarrow> ip_frame \<Rightarrow> nat \<Rightarrow> pcap_packet" where
  "cut_packet ts f n = \<lparr>pk_ts = ts, pk_len = length (frame_bytes f), pk_bytes = frame_head f @ take n (fr_payload f)\<rparr>"

lemma packet_of_cut:
  assumes "frame_ok f" "n < length (fr_payload f)"
  shows "word16_of (cut_packet ts f n) 12 = Some 0x0800"
    "pk_src (cut_packet ts f n) = Some \<lparr>ep_address = V4 (fr_src f), ep_port = fr_sport f\<rparr>"
    "pk_dst (cut_packet ts f n) = Some \<lparr>ep_address = V4 (fr_dst f), ep_port = fr_dport f\<rparr>"
    "pk_protocol (cut_packet ts f n) = Some (AF_INET, if fr_tcp f then IPPROTO_TCP else IPPROTO_UDP, if fr_tcp f then SOCK_STREAM else SOCK_DGRAM)"
    "pk_str (cut_packet ts f n) = None"
proof -
  let ?pk = "cut_packet ts f n"
  let ?f = "f\<lparr>fr_payload := take n (fr_payload f)\<rparr>"
  let ?h = "ether_size + ip_size + (if fr_tcp f then tcp_size else udp_size)"
  have ok: "frame_ok ?f" using assms by (auto simp: frame_ok_def)
  have "pk_bytes ?pk = frame_bytes ?f @ []" by (simp add: cut_packet_def frame_bytes_def frame_head_def)
  note F = frame_fields [OF ok this, simplified]
  show "word16_of ?pk 12 = Some 0x0800" using F(1) .
  have fam: "protocol_family ?pk = Some AF_INET" by (simp add: protocol_family_def F)
  have ip: "ip_p ?pk = Some (if fr_tcp f then TCP else UDP)" using F(2) by simp
  show "pk_src ?pk = Some \<lparr>ep_address = V4 (fr_src f), ep_port = fr_sport f\<rparr>" by (simp add: pk_src_def fam src_port_def F)
  show "pk_dst ?pk = Some \<lparr>ep_address = V4 (fr_dst f), ep_port = fr_dport f\<rparr>" by (simp add: pk_dst_def fam dst_port_def F)
  show "pk_protocol ?pk = Some (AF_INET, if fr_tcp f then IPPROTO_TCP else IPPROTO_UDP, if fr_tcp f then SOCK_STREAM else SOCK_DGRAM)"
    by (simp add: pk_protocol_def fam F packet_constants socket_constants)
  have len: "pk_len ?pk = ?h + length (fr_payload f)" using frame_head_length [OF assms(1)] by (simp add: cut_packet_def frame_bytes_def)
  have "pk_size ?pk = Some (of_nat (pk_len ?pk) - of_nat ?h)" by (simp add: pk_size_def fam ip packet_constants)
  also have "(of_nat (pk_len ?pk) :: u64) - of_nat ?h = of_nat (length (fr_payload f))" unfolding len by simp
  finally have size: "pk_size ?pk = Some (of_nat (length (fr_payload f)))" .
  have u: "unat (of_nat (length (fr_payload f)) :: u64) = length (fr_payload f)" using assms(1) by (subst unat_of_nat) (simp add: frame_ok_def)
  have data: "pk_data ?pk = Some (Some ?h)" by (simp add: pk_data_def ip packet_constants)
  have b: "pk_bytes ?pk = frame_head f @ take n (fr_payload f)" by (simp add: cut_packet_def)
  show "pk_str ?pk = None"
    unfolding pk_str_def data size Option.bind.bind_lunit option.case bytes_of_def u b using frame_head_length [OF assms(1)] assms(2) by simp
qed

text \<open>
  A capture, with times of arrival: frames of TCP and UDP without header options, with the padding behind them, or cut off in the payload; other packets over IP
  version 4; and packets of other kinds.
\<close>

datatype captured = Frame timeval ip_frame "u8 list" | Cut timeval ip_frame nat | OtherIp pcap_packet | NotIp pcap_packet

fun captured_packet :: "captured \<Rightarrow> pcap_packet" where
  "captured_packet (Frame ts f pad) = \<lparr>pk_ts = ts, pk_len = length (frame_bytes f @ pad), pk_bytes = frame_bytes f @ pad\<rparr>"
| "captured_packet (Cut ts f n) = cut_packet ts f n"
| "captured_packet (OtherIp pk) = pk"
| "captured_packet (NotIp pk) = pk"

fun captured_ok :: "captured \<Rightarrow> bool" where
  "captured_ok (Frame ts f pad) \<longleftrightarrow> frame_ok f \<and> length pad < 2 ^ 32"
| "captured_ok (Cut ts f n) \<longleftrightarrow> frame_ok f \<and> n < length (fr_payload f)"
| "captured_ok (OtherIp pk) \<longleftrightarrow> is_ip pk"
| "captured_ok (NotIp pk) \<longleftrightarrow> word16_of pk 12 \<noteq> None \<and> \<not> is_ip pk"

text \<open>What a subscriber reads from a packet: time of arrival, source, destination, protocol and data.\<close>

type_synonym packet_view = "int \<times> ip_addr endpoint option \<times> ip_addr endpoint option \<times> (int \<times> int \<times> int) option \<times> u8 list option"

definition packet_view :: "pcap_packet \<Rightarrow> packet_view" where
  "packet_view pk = (recv_timestamp pk, pk_src pk, pk_dst pk, pk_protocol pk, pk_str pk)"

definition frame_view :: "timeval \<Rightarrow> ip_frame \<Rightarrow> u8 list option \<Rightarrow> packet_view" where
  "frame_view ts f data =
     (time_of_timeval ts, Some \<lparr>ep_address = V4 (fr_src f), ep_port = fr_sport f\<rparr>, Some \<lparr>ep_address = V4 (fr_dst f), ep_port = fr_dport f\<rparr>,
      Some (AF_INET, if fr_tcp f then IPPROTO_TCP else IPPROTO_UDP, if fr_tcp f then SOCK_STREAM else SOCK_DGRAM), data)"

fun captured_views :: "captured list \<Rightarrow> packet_view list" where
  "captured_views [] = []"
| "captured_views (Frame ts f pad # cs) = frame_view ts f (Some (fr_payload f @ pad)) # captured_views cs"
| "captured_views (Cut ts f n # cs) = frame_view ts f None # captured_views cs"
| "captured_views (OtherIp pk # cs) = packet_view pk # captured_views cs"
| "captured_views (NotIp pk # cs) = captured_views cs"

lemma frame_packet_view:
  assumes "frame_ok f" "length pad < 2 ^ 32"
  shows "is_ip (captured_packet (Frame ts f pad)) \<and> packet_view (captured_packet (Frame ts f pad)) = frame_view ts f (Some (fr_payload f @ pad))"
  using frame_fields(1) [OF assms(1), of "captured_packet (Frame ts f pad)" pad] packet_of_frame [OF assms(1), of "captured_packet (Frame ts f pad)" pad] assms(2)
  by (simp add: packet_view_def frame_view_def is_ip_def recv_timestamp_def)

lemma cut_packet_view:
  "frame_ok f \<Longrightarrow> n < length (fr_payload f) \<Longrightarrow> is_ip (cut_packet ts f n) \<and> packet_view (cut_packet ts f n) = frame_view ts f None"
  using packet_of_cut [of f n ts] by (simp add: packet_view_def frame_view_def is_ip_def recv_timestamp_def) (simp add: cut_packet_def)

lemma captured_views_ip: "(\<forall>c \<in> set cs. captured_ok c) \<Longrightarrow> map packet_view (filter is_ip (map captured_packet cs)) = captured_views cs"
  by (induction cs rule: captured_views.induct) (auto simp: frame_packet_view cut_packet_view simp del: captured_packet.simps(1))

text \<open>C35: From a capture whose packets have at least an Ethernet header, the device delivers every packet over IP version 4, unchanged and in order, and nothing else. From a frame of TCP or UDP without header options
  a subscriber reads the time, addresses, ports and protocol it was sent with, and as data its payload with whatever padding follows it in the frame; the data of a
  frame that is cut off in its payload cannot be read within the bytes captured.\<close>

theorem pcap_delivers_frames:
  assumes "\<forall>c \<in> set cs. captured_ok c" "reads_file loop (map captured_packet cs)"
  shows "\<exists>out. device_loop loop 0 [] = Some (Inr (0, out)) \<and> out = filter is_ip (map captured_packet cs) \<and> map packet_view out = captured_views cs"
proof -
  have "word16_of (captured_packet c) 12 \<noteq> None" if "c \<in> set cs" for c
    using assms(1) that frame_packet_view cut_packet_view by (cases c) (fastforce simp: is_ip_def)+
  then have "\<forall>pk \<in> set (map captured_packet cs). word16_of pk 12 \<noteq> None" by auto
  from each_handler [OF this, of "[]"] captured_views_ip [OF assms(1)] assms(2) show ?thesis by (simp add: device_loop_def reads_file_def)
qed

definition sample_frame :: ip_frame where
  "sample_frame = \<lparr>fr_macs = replicate 12 0, fr_head = replicate 9 0, fr_sum = [0, 0], fr_tcp = False, fr_src = 0x0A000001, fr_dst = 0xE0000001, fr_sport = 1000,
     fr_dport = 7000, fr_tail = [0, 11, 0, 0], fr_payload = [1, 2, 3]\<rparr>"

definition sample_file :: "captured list" where
  "sample_file =
     [Frame \<lparr>tv_sec = 0, tv_usec = 0\<rparr> sample_frame [0, 0], NotIp \<lparr>pk_ts = \<lparr>tv_sec = 0, tv_usec = 0\<rparr>, pk_len = 14, pk_bytes = replicate 14 1\<rparr>,
      Cut \<lparr>tv_sec = 0, tv_usec = 0\<rparr> sample_frame 1]"

definition sample_loop :: pcap_loop where
  "sample_loop n handler out = map_option (Pair 0) (each handler (map captured_packet sample_file) out)"

theorem pcap_delivers_frames_witness:
  "\<exists>out. device_loop sample_loop 0 [] = Some (Inr (0, out)) \<and> map packet_view out =
     [frame_view \<lparr>tv_sec = 0, tv_usec = 0\<rparr> sample_frame (Some [1, 2, 3, 0, 0]), frame_view \<lparr>tv_sec = 0, tv_usec = 0\<rparr> sample_frame None]"
proof -
  have "frame_ok sample_frame" "fr_payload sample_frame = [1, 2, 3]" by (simp_all add: frame_ok_def sample_frame_def)
  moreover have "word16_of \<lparr>pk_ts = \<lparr>tv_sec = 0, tv_usec = 0\<rparr>, pk_len = 14, pk_bytes = replicate 14 1\<rparr> 12 = Some 257"
    by (simp add: word16_of_def byte_of_def)
  ultimately have "\<forall>c \<in> set sample_file. captured_ok c" by (simp add: sample_file_def is_ip_def)
  moreover have "reads_file sample_loop (map captured_packet sample_file)" by (simp add: reads_file_def sample_loop_def)
  moreover have "captured_views sample_file =
     [frame_view \<lparr>tv_sec = 0, tv_usec = 0\<rparr> sample_frame (Some [1, 2, 3, 0, 0]), frame_view \<lparr>tv_sec = 0, tv_usec = 0\<rparr> sample_frame None]"
    by (simp add: sample_file_def) (simp add: sample_frame_def)
  ultimately show ?thesis using pcap_delivers_frames [of sample_file sample_loop] by metis
qed

text \<open>Short frames are padded to 60 bytes on the wire, and the padding is taken for data. Options of the IP header are taken for the next header, whose ports
  are then wrong. A packet shorter than its headers has a huge size.\<close>

lemma padding_is_data:
  "pk_str (\<lparr>pk_ts = \<lparr>tv_sec = 0, tv_usec = 0\<rparr>, pk_len = 60, pk_bytes = frame_bytes sample_frame @ replicate 15 0\<rparr>) = Some ([1, 2, 3] @ replicate 15 0)"
  using packet_of_frame(4) [of sample_frame "\<lparr>pk_ts = \<lparr>tv_sec = 0, tv_usec = 0\<rparr>, pk_len = 60, pk_bytes = frame_bytes sample_frame @ replicate 15 0\<rparr>" "replicate 15 0"]
  by (simp add: sample_frame_def frame_ok_def frame_bytes_def frame_head_def bytes16_def bytes32_def)

end
