(* ===== verification/Statistics.thy ===== *)
theory Statistics
  imports Prelude Complex_Main
begin

text \<open>
  The accumulator of \<open>util/Math.hpp\<close> for the mean and the variance of samples, over rational numbers instead of \<open>double\<close>, so that no rounding takes place; the
  limits of \<open>double\<close> are exact.
\<close>

subsection \<open>The accumulator\<close>

definition dbl_max :: rat where "dbl_max = (2 ^ 53 - 1) * 2 ^ 971"
definition dbl_min :: rat where "dbl_min = 1 / 2 ^ 1022"

record var_accum =
  va_size :: nat
  va_mean :: rat
  va_sum2 :: rat
  va_min :: rat
  va_max :: rat

definition va_new :: var_accum where
  "va_new = \<lparr>va_size = 0, va_mean = 0, va_sum2 = 0, va_min = dbl_max, va_max = dbl_min\<rparr>"

definition va_clear :: "var_accum \<Rightarrow> var_accum" where
  "va_clear v = \<lparr>va_size = 0, va_mean = 0, va_sum2 = 0, va_min = dbl_max, va_max = dbl_min\<rparr>"

definition va_empty :: "var_accum \<Rightarrow> bool" where
  "va_empty v \<longleftrightarrow> va_size v = 0"

definition va_append :: "rat \<Rightarrow> var_accum \<Rightarrow> var_accum" where
  "va_append val v =
     (let size = va_size v + 1;
          delta = val - va_mean v;
          mean = va_mean v + delta / of_nat size
      in \<lparr>va_size = size, va_mean = mean, va_sum2 = va_sum2 v + delta * (val - mean), va_min = min (va_min v) val, va_max = max (va_max v) val\<rparr>)"

fun va_append_all :: "rat list \<Rightarrow> var_accum \<Rightarrow> var_accum" where
  "va_append_all [] v = v"
| "va_append_all (x # xs) v = va_append_all xs (va_append x v)"

text \<open>\<open>None\<close> is a quiet NaN.\<close>

definition va_var :: "var_accum \<Rightarrow> rat option" where
  "va_var v = (if va_size v > 1 then Some (va_sum2 v / of_nat (va_size v - 1)) else None)"

definition va_varp :: "var_accum \<Rightarrow> rat option" where
  "va_varp v = (if \<not> va_empty v then Some (va_sum2 v / of_nat (va_size v)) else None)"

definition zscore :: "rat \<Rightarrow> rat \<Rightarrow> rat \<Rightarrow> rat option" where
  "zscore mean sd val = (if sd = 0 then None else Some ((val - mean) / sd))"

subsection \<open>One pass gives the sample statistics\<close>

text \<open>The sample mean and the sum of the squared deviations from it.\<close>

definition sample_mean :: "rat list \<Rightarrow> rat" where
  "sample_mean xs = sum_list xs / of_nat (length xs)"

definition deviations :: "rat list \<Rightarrow> rat" where
  "deviations xs = (\<Sum>x\<leftarrow>xs. (x - sample_mean xs)\<^sup>2)"

lemma va_append_all_snoc: "va_append_all (xs @ [x]) v = va_append x (va_append_all xs v)"
  by (induction xs v rule: va_append_all.induct) auto

lemma welford_step:
  fixes m d :: rat
  assumes "s = q - of_nat n * m\<^sup>2" "m' = m + d / of_nat (n + 1)"
  shows "s + d * (m + d - m') = q + (m + d)\<^sup>2 - of_nat (n + 1) * m'\<^sup>2"
proof -
  define k :: rat where "k = of_nat (n + 1)"
  have k: "k \<noteq> 0" "of_nat n = k - 1" unfolding k_def by simp_all
  have m': "m' = m + d / k" using assms(2) by (simp add: k_def)
  have e: "k * (m + d / k)\<^sup>2 = k * m\<^sup>2 + 2 * m * d + d * (d / k)" using k(1) by (simp add: power2_eq_square field_simps)
  have "q - (k - 1) * m\<^sup>2 + d * (m + d - (m + d / k)) = q + (m + d)\<^sup>2 - (k * m\<^sup>2 + 2 * m * d + d * (d / k))"
    by (simp add: power2_eq_square algebra_simps)
  then show ?thesis unfolding assms(1) m' k_def [symmetric] k(2) e .
qed

lemma welford_invariant:
  "va_size (va_append_all xs va_new) = length xs \<and> of_nat (length xs) * va_mean (va_append_all xs va_new) = sum_list xs \<and>
   va_sum2 (va_append_all xs va_new) = (\<Sum>x\<leftarrow>xs. x\<^sup>2) - of_nat (length xs) * (va_mean (va_append_all xs va_new))\<^sup>2"
proof (induction xs rule: rev_induct)
  case (snoc x xs)
  let ?v = "va_append_all xs va_new"
  define m where "m = va_mean ?v"
  define m' where "m' = m + (x - m) / of_nat (length xs + 1)"
  have v: "va_append_all (xs @ [x]) va_new = va_append x ?v" by (rule va_append_all_snoc)
  have f: "va_size (va_append x ?v) = length xs + 1" "va_mean (va_append x ?v) = m'" "va_sum2 (va_append x ?v) = va_sum2 ?v + (x - m) * (x - m')"
    using snoc by (simp_all add: va_append_def Let_def m_def m'_def)
  have k: "(of_nat (length xs + 1) :: rat) \<noteq> 0" by (simp only: of_nat_eq_0_iff)
  have "of_nat (length xs + 1) * m' = of_nat (length xs + 1) * m + (x - m)" unfolding m'_def using k by (simp add: distrib_left)
  also have "\<dots> = of_nat (length xs) * m + x" by (simp add: distrib_right)
  also have "\<dots> = sum_list (xs @ [x])" using snoc by (simp add: m_def)
  finally have mean: "of_nat (length xs + 1) * m' = sum_list (xs @ [x])" .
  have s: "va_sum2 ?v = (\<Sum>x\<leftarrow>xs. x\<^sup>2) - of_nat (length xs) * m\<^sup>2" using snoc by (simp add: m_def)
  from welford_step [OF s m'_def] have "va_sum2 ?v + (x - m) * (x - m') = (\<Sum>x\<leftarrow>xs. x\<^sup>2) + x\<^sup>2 - of_nat (length xs + 1) * m'\<^sup>2" by simp
  with f mean show ?case unfolding v by simp
qed (simp add: va_new_def)

lemma deviations_sum:
  assumes "xs \<noteq> []"
  shows "deviations xs = (\<Sum>x\<leftarrow>xs. x\<^sup>2) - of_nat (length xs) * (sample_mean xs)\<^sup>2"
proof -
  have "(\<Sum>x\<leftarrow>xs. (x - m)\<^sup>2) = (\<Sum>x\<leftarrow>xs. x\<^sup>2) - 2 * m * sum_list xs + of_nat (length xs) * m\<^sup>2" for m :: rat
    by (induction xs) (simp_all add: power2_eq_square algebra_simps)
  moreover have "sum_list xs = of_nat (length xs) * sample_mean xs" using assms by (simp add: sample_mean_def)
  ultimately show ?thesis by (simp add: deviations_def power2_eq_square)
qed

lemma va_limits: "va_min (va_append_all xs v) = Min (insert (va_min v) (set xs))" "va_max (va_append_all xs v) = Max (insert (va_max v) (set xs))"
proof (induction xs v rule: va_append_all.induct)
  case (2 x xs v)
  have i: "insert (va_min v) (set (x # xs)) = insert (va_min v) (insert x (set xs))" "insert (va_max v) (set (x # xs)) = insert (va_max v) (insert x (set xs))" by auto
  have f: "va_min (va_append x v) = min (va_min v) x" "va_max (va_append x v) = max (va_max v) x" by (simp_all add: va_append_def Let_def)
  { case 1 show ?case using 2 by (cases "xs = []") (simp_all add: f min.assoc) }
  { case 2 show ?case using "2.IH" by (cases "xs = []") (simp_all add: f max.assoc) }
qed simp_all

text \<open>Appending samples one by one gives their number, their mean, the sum of their squared deviations from it, both variances and their minimum; the
  maximum is right only if a sample is at least the smallest positive normal number, with which it starts.\<close>

theorem var_accum_is_variance:
  assumes "v = va_append_all xs va_new" "xs \<noteq> []" "\<forall>x \<in> set xs. x \<le> dbl_max"
  shows "va_size v = length xs \<and> va_mean v = sample_mean xs \<and> va_sum2 v = deviations xs \<and>
    va_varp v = Some (deviations xs / of_nat (length xs)) \<and> (length xs > 1 \<longrightarrow> va_var v = Some (deviations xs / of_nat (length xs - 1))) \<and>
    va_min v = Min (set xs) \<and> va_max v = max dbl_min (Max (set xs))"
proof -
  have n: "(of_nat (length xs) :: rat) \<noteq> 0" using assms(2) by simp
  have w: "va_size v = length xs" "of_nat (length xs) * va_mean v = sum_list xs" "va_sum2 v = (\<Sum>x\<leftarrow>xs. x\<^sup>2) - of_nat (length xs) * (va_mean v)\<^sup>2"
    using welford_invariant [of xs] assms(1) by auto
  have m: "va_mean v = sample_mean xs" using w(2) n by (simp add: sample_mean_def eq_divide_eq mult.commute)
  have s: "va_sum2 v = deviations xs" using w(3) deviations_sum [OF assms(2)] m by simp
  have "Min (insert dbl_max (set xs)) = Min (set xs)"
    using assms(2,3) by (simp add: min_def) (metis List.finite_set Min_in antisym set_empty)
  moreover have "Max (insert dbl_min (set xs)) = max dbl_min (Max (set xs))" using assms(2) by simp
  ultimately have l: "va_min v = Min (set xs)" "va_max v = max dbl_min (Max (set xs))" using va_limits [of xs va_new] assms(1) by (simp_all add: va_new_def)
  show ?thesis using w(1) m s l assms(2) by (simp add: va_varp_def va_var_def va_empty_def)
qed

theorem var_accum_is_variance_witness: "va_mean (va_append_all [1, 2, 6] va_new) = 3 \<and> va_sum2 (va_append_all [1, 2, 6] va_new) = 14"
proof -
  have "\<forall>x \<in> set [1, 2, 6 :: rat]. x \<le> dbl_max" by (simp add: dbl_max_def)
  from var_accum_is_variance [OF refl _ this] show ?thesis by (simp add: sample_mean_def deviations_def)
qed

lemma var_accum_max_negative: "va_max (va_append (- 1) va_new) = dbl_min"
  by (simp add: va_append_def va_new_def dbl_min_def Let_def)

end
