(* ===== verification/RefCounts.thy ===== *)
theory RefCounts
  imports Prelude
begin

text \<open>
  The counter of \<open>util/RefCount.hpp\<close> with intrusive pointers in several threads: each access to the atomic counter is a step of the thread, and
  deleting the object is a step of its own. Memory is sequentially consistent, and the counter does not overflow.
\<close>

subsection \<open>The counter\<close>

text \<open>Thread \<open>t\<close> owns \<open>rc_ptrs t\<close> pointers; \<open>rc_last t\<close> says that its decrement returned one and that it is about to delete the object.\<close>

record ref_count =
  rc_refs :: int
  rc_deleted :: nat
  rc_ptrs :: "nat \<Rightarrow> nat"
  rc_last :: "nat \<Rightarrow> bool"

definition rc_fetch_add :: "ref_count \<Rightarrow> int \<times> ref_count" where
  "rc_fetch_add s = (rc_refs s, s\<lparr>rc_refs := rc_refs s + 1\<rparr>)"

definition rc_fetch_sub :: "ref_count \<Rightarrow> int \<times> ref_count" where
  "rc_fetch_sub s = (rc_refs s, s\<lparr>rc_refs := rc_refs s - 1\<rparr>)"

definition rc_add_ref :: "ref_count \<Rightarrow> ref_count" where
  "rc_add_ref s = snd (rc_fetch_add s)"

text \<open>\<open>make_intrusive\<close> takes over the reference the counter starts with.\<close>

definition make_intrusive :: "nat \<Rightarrow> ref_count" where
  "make_intrusive t = \<lparr>rc_refs = 1, rc_deleted = 0, rc_ptrs = (\<lambda>u. if u = t then 1 else 0), rc_last = (\<lambda>_. False)\<rparr>"

text \<open>The two steps of \<open>release\<close>.\<close>

definition rc_release_sub :: "nat \<Rightarrow> ref_count \<Rightarrow> ref_count" where
  "rc_release_sub t s = (case rc_fetch_sub s of (old, s1) \<Rightarrow>
     if old = 1 then s1\<lparr>rc_last := (rc_last s1)(t := True)\<rparr> else s1)"

definition rc_release_delete :: "nat \<Rightarrow> ref_count \<Rightarrow> ref_count" where
  "rc_release_delete t s = s\<lparr>rc_deleted := rc_deleted s + 1, rc_last := (rc_last s)(t := False)\<rparr>"

text \<open>What the threads below \<open>n\<close> do: copy a pointer, hand one over to another thread, drop one, and delete the object after the last drop.\<close>

inductive rc_step :: "nat \<Rightarrow> ref_count \<Rightarrow> ref_count \<Rightarrow> bool" for n where
  rc_copy: "t < n \<Longrightarrow> rc_ptrs s t > 0 \<Longrightarrow> rc_step n s ((rc_add_ref s)\<lparr>rc_ptrs := (rc_ptrs s)(t := rc_ptrs s t + 1)\<rparr>)"
| rc_pass: "t < n \<Longrightarrow> u < n \<Longrightarrow> t \<noteq> u \<Longrightarrow> rc_ptrs s t > 0 \<Longrightarrow>
    rc_step n s (s\<lparr>rc_ptrs := (rc_ptrs s)(t := rc_ptrs s t - 1, u := rc_ptrs s u + 1)\<rparr>)"
| rc_drop: "t < n \<Longrightarrow> rc_ptrs s t > 0 \<Longrightarrow> rc_step n s ((rc_release_sub t s)\<lparr>rc_ptrs := (rc_ptrs s)(t := rc_ptrs s t - 1)\<rparr>)"
| rc_delete: "t < n \<Longrightarrow> rc_last s t \<Longrightarrow> rc_step n s (rc_release_delete t s)"

subsection \<open>Deleted once, after the last pointer\<close>

definition rc_total :: "nat \<Rightarrow> ref_count \<Rightarrow> nat" where
  "rc_total n s = (\<Sum>t < n. rc_ptrs s t)"

definition rc_deleting :: "nat \<Rightarrow> ref_count \<Rightarrow> nat set" where
  "rc_deleting n s = {t. t < n \<and> rc_last s t}"

definition rc_inv :: "nat \<Rightarrow> ref_count \<Rightarrow> bool" where
  "rc_inv n s \<longleftrightarrow> rc_refs s = int (rc_total n s) \<and> rc_deleted s + card (rc_deleting n s) = (if rc_total n s = 0 then 1 else 0)"

lemma sum_upd: "t < n \<Longrightarrow> (\<Sum>u < n. (f(t := x)) u) = (\<Sum>u < n. f u) - f t + x" for f :: "nat \<Rightarrow> nat"
proof -
  assume t: "t < n"
  have "(\<Sum>u < n. (f(t := x)) u) = x + (\<Sum>u \<in> {..<n} - {t}. (f(t := x)) u)" using t by (subst sum.remove [of _ t]) auto
  also have "(\<Sum>u \<in> {..<n} - {t}. (f(t := x)) u) = (\<Sum>u \<in> {..<n} - {t}. f u)" by (rule sum.cong) auto
  finally show ?thesis using t by (simp add: sum_diff1_nat)
qed

lemma sum_at_least: "t < n \<Longrightarrow> f t \<le> (\<Sum>u < n. f u)" for f :: "nat \<Rightarrow> nat"
  by (rule member_le_sum) auto

lemma rc_total_pos: "t < n \<Longrightarrow> rc_ptrs s t > 0 \<Longrightarrow> rc_total n s > 0"
  using sum_at_least [of t n "rc_ptrs s"] by (simp add: rc_total_def)

lemma deleting_finite [simp]: "finite (rc_deleting n s)"
  by (simp add: rc_deleting_def)

lemma make_intrusive_inv: "t < n \<Longrightarrow> rc_inv n (make_intrusive t)"
  by (simp add: rc_inv_def rc_total_def rc_deleting_def make_intrusive_def)

lemma rc_step_inv:
  assumes "rc_step n s s'" "rc_inv n s"
  shows "rc_inv n s'"
  using assms(1)
proof cases
  case (rc_copy t)
  have "rc_total n s' = rc_total n s + 1" using rc_copy sum_at_least [of t n "rc_ptrs s"] by (simp add: rc_total_def sum_upd del: fun_upd_apply)
  moreover have "rc_deleting n s' = rc_deleting n s" using rc_copy by (simp add: rc_deleting_def rc_add_ref_def rc_fetch_add_def)
  ultimately show ?thesis using assms(2) rc_copy rc_total_pos [of t n s] by (simp add: rc_inv_def rc_add_ref_def rc_fetch_add_def)
next
  case (rc_pass t u)
  let ?f = "(rc_ptrs s)(t := rc_ptrs s t - 1)"
  have "(\<Sum>v < n. (?f(u := rc_ptrs s u + 1)) v) = (\<Sum>v < n. ?f v) - ?f u + (rc_ptrs s u + 1)" using rc_pass(3) by (rule sum_upd)
  moreover have "(\<Sum>v < n. ?f v) = (\<Sum>v < n. rc_ptrs s v) - rc_ptrs s t + (rc_ptrs s t - 1)" using rc_pass(2) by (rule sum_upd)
  moreover have "?f u \<le> (\<Sum>v < n. ?f v)" using rc_pass(3) by (rule sum_at_least)
  ultimately have "rc_total n s' = rc_total n s" using rc_pass sum_at_least [of t n "rc_ptrs s"] by (simp add: rc_total_def)
  with assms(2) rc_pass show ?thesis by (simp add: rc_inv_def rc_deleting_def)
next
  case (rc_drop t)
  have tot: "rc_total n s' = rc_total n s - 1" using rc_drop sum_at_least [of t n "rc_ptrs s"] by (simp add: rc_total_def sum_upd del: fun_upd_apply)
  have pos: "rc_total n s > 0" using rc_total_pos rc_drop by blast
  with assms(2) have no: "rc_deleted s = 0" "rc_deleting n s = {}" "rc_refs s = int (rc_total n s)" by (simp_all add: rc_inv_def)
  have del: "rc_deleting n s' = (if rc_refs s = 1 then {t} else {})"
    using no(2) rc_drop by (auto simp: rc_deleting_def rc_release_sub_def rc_fetch_sub_def)
  have f: "rc_refs s' = rc_refs s - 1" "rc_deleted s' = rc_deleted s" using rc_drop by (simp_all add: rc_release_sub_def rc_fetch_sub_def)
  show ?thesis using pos no tot del f by (auto simp: rc_inv_def)
next
  case (rc_delete t)
  have "rc_deleting n s' = rc_deleting n s - {t}" using rc_delete by (auto simp: rc_deleting_def rc_release_delete_def)
  moreover have "t \<in> rc_deleting n s" using rc_delete by (simp add: rc_deleting_def)
  moreover have "rc_total n s' = rc_total n s" "rc_refs s' = rc_refs s" "rc_deleted s' = rc_deleted s + 1" using rc_delete by (simp_all add: rc_total_def rc_release_delete_def)
  moreover have "card (rc_deleting n s) > 0" using calculation(2) by (auto simp: card_gt_0_iff)
  ultimately show ?thesis using assms(2) by (auto simp: rc_inv_def card_Diff_singleton split: if_splits)
qed

lemma rc_reach_inv: "(rc_step n)\<^sup>*\<^sup>* (make_intrusive t) s \<Longrightarrow> t < n \<Longrightarrow> rc_inv n s"
  by (induction rule: rtranclp_induct) (auto intro: make_intrusive_inv rc_step_inv)

text \<open>C19: Under any interleaving of the threads the object is deleted at most once, never while a pointer to it is left, and by then no thread is about to
  delete it; when the last pointer is gone exactly one thread has deleted it or is about to. The counter is the number of pointers.\<close>

theorem ref_count_deletes_once:
  assumes "(rc_step n)\<^sup>*\<^sup>* (make_intrusive t) s" "t < n"
  shows "rc_deleted s \<le> 1 \<and> (rc_deleted s = 1 \<longrightarrow> rc_total n s = 0 \<and> rc_deleting n s = {}) \<and> (rc_total n s > 0 \<longrightarrow> rc_deleted s = 0 \<and> rc_deleting n s = {}) \<and>
    (rc_total n s = 0 \<longrightarrow> rc_deleted s + card (rc_deleting n s) = 1) \<and> rc_refs s = int (rc_total n s)"
  using rc_reach_inv [OF assms] by (auto simp: rc_inv_def split: if_splits)

theorem ref_count_deletes_once_witness: "rc_deleted (rc_release_delete 0 ((rc_release_sub 0 (make_intrusive 0))\<lparr>rc_ptrs := (rc_ptrs (make_intrusive 0))(0 := 0)\<rparr>)) = 1 \<and>
    rc_total 2 (rc_release_delete 0 ((rc_release_sub 0 (make_intrusive 0))\<lparr>rc_ptrs := (rc_ptrs (make_intrusive 0))(0 := 0)\<rparr>)) = 0"
proof -
  let ?s = "(rc_release_sub 0 (make_intrusive 0))\<lparr>rc_ptrs := (rc_ptrs (make_intrusive 0))(0 := 0)\<rparr>"
  have "rc_step 2 (make_intrusive 0) ?s" using rc_drop [of 0 2 "make_intrusive 0"] by (simp add: make_intrusive_def)
  moreover have "rc_step 2 ?s (rc_release_delete 0 ?s)" by (rule rc_delete) (simp_all add: rc_release_sub_def rc_fetch_sub_def make_intrusive_def)
  ultimately have r: "(rc_step 2)\<^sup>*\<^sup>* (make_intrusive 0) (rc_release_delete 0 ?s)" by (meson converse_rtranclp_into_rtranclp r_into_rtranclp)
  have "rc_deleted (rc_release_delete 0 ?s) = 1" by (simp add: rc_release_delete_def rc_release_sub_def rc_fetch_sub_def make_intrusive_def)
  with ref_count_deletes_once [OF r] show ?thesis by auto
qed

text \<open>Progress: the last pointer can always be dropped, and the thread that dropped it can always delete the object.\<close>

lemma rc_delete_enabled:
  assumes "(rc_step n)\<^sup>*\<^sup>* (make_intrusive t) s" "t < n" "rc_total n s = 0" "rc_deleted s = 0"
  shows "\<exists>s'. rc_step n s s' \<and> rc_deleted s' = 1"
proof -
  have "card (rc_deleting n s) = 1" using rc_reach_inv [OF assms(1,2)] assms(3,4) by (simp add: rc_inv_def)
  then obtain u where "u \<in> rc_deleting n s" by (metis card.empty equals0I zero_neq_one)
  then have "rc_step n s (rc_release_delete u s)" by (auto simp: rc_deleting_def intro: rc_delete)
  then show ?thesis using assms(4) by (auto simp: rc_release_delete_def)
qed

end
