(* ===== verification/IntWrappers.thy ===== *)
theory IntWrappers
  imports Strings "HOL-Library.Signed_Division"
begin

text \<open>
  The integer wrappers of \<open>util/IntTypes.hpp\<close>, for values of any width: a wrapper is a word, read as signed. Operands narrower than \<open>int\<close> are promoted, and
  the result is converted back to the width; \<open>None\<close> is undefined behaviour.
\<close>

subsection \<open>Operations\<close>

definition promoted :: "nat \<Rightarrow> nat" where
  "promoted w = max 32 w"

definition fits :: "nat \<Rightarrow> int \<Rightarrow> bool" where
  "fits w i \<longleftrightarrow> - (2 ^ (w - 1)) \<le> i \<and> i < 2 ^ (w - 1)"

text \<open>A result of the promoted type, as the constructor converts it.\<close>

definition iw_of :: "int \<Rightarrow> 'a::len word option" where
  "iw_of i = (if fits (promoted LENGTH('a)) i then Some (word_of_int i) else None)"

definition iw_count :: "'a::len word \<Rightarrow> int" where
  "iw_count a = sint a"

definition iw_zero :: "'a::len word" where
  "iw_zero = 0"

definition iw_add :: "'a::len word \<Rightarrow> 'a word \<Rightarrow> 'a word option" where
  "iw_add a b = iw_of (sint a + sint b)"

definition iw_sub :: "'a::len word \<Rightarrow> 'a word \<Rightarrow> 'a word option" where
  "iw_sub a b = iw_of (sint a - sint b)"

definition iw_mul :: "'a::len word \<Rightarrow> 'a word \<Rightarrow> 'a word option" where
  "iw_mul a b = iw_of (sint a * sint b)"

text \<open>Division rounds towards zero; the remainder is undefined where the quotient is.\<close>

definition iw_div :: "'a::len word \<Rightarrow> 'a word \<Rightarrow> 'a word option" where
  "iw_div a b = (if sint b = 0 then None else iw_of (sint a sdiv sint b))"

definition iw_mod :: "'a::len word \<Rightarrow> 'a word \<Rightarrow> 'a word option" where
  "iw_mod a b = (if sint b = 0 \<or> \<not> fits (promoted LENGTH('a)) (sint a sdiv sint b) then None else iw_of (sint a smod sint b))"

definition iw_and :: "'a::len word \<Rightarrow> 'a word \<Rightarrow> 'a word" where "iw_and a b = a AND b"
definition iw_or :: "'a::len word \<Rightarrow> 'a word \<Rightarrow> 'a word" where "iw_or a b = a OR b"
definition iw_xor :: "'a::len word \<Rightarrow> 'a word \<Rightarrow> 'a word" where "iw_xor a b = a XOR b"
definition iw_not :: "'a::len word \<Rightarrow> 'a word" where "iw_not a = NOT a"

text \<open>A negative value is not shifted left, nor further than the unsigned type of the promoted width can hold.\<close>

definition iw_shl :: "'a::len word \<Rightarrow> 'a word \<Rightarrow> 'a word option" where
  "iw_shl a b =
     (if sint b < 0 \<or> sint b \<ge> int (promoted LENGTH('a)) \<or> sint a < 0 \<or> sint a * 2 ^ nat (sint b) \<ge> 2 ^ promoted LENGTH('a) then None
      else Some (word_of_int (sint a * 2 ^ nat (sint b))))"

definition iw_shr :: "'a::len word \<Rightarrow> 'a word \<Rightarrow> 'a word option" where
  "iw_shr a b = (if sint b < 0 \<or> sint b \<ge> int (promoted LENGTH('a)) then None else iw_of (sint a div 2 ^ nat (sint b)))"

definition iw_plus :: "'a::len word \<Rightarrow> 'a word" where "iw_plus a = a"
definition iw_neg :: "'a::len word \<Rightarrow> 'a word option" where "iw_neg a = iw_of (- sint a)"

text \<open>Increments and decrements: the new value, and for the postfix operators also the result.\<close>

definition iw_inc :: "'a::len word \<Rightarrow> 'a word option" where "iw_inc a = iw_of (sint a + 1)"
definition iw_dec :: "'a::len word \<Rightarrow> 'a word option" where "iw_dec a = iw_of (sint a - 1)"
definition iw_post_inc :: "'a::len word \<Rightarrow> ('a word \<times> 'a word) option" where "iw_post_inc a = map_option (\<lambda>b. (a, b)) (iw_inc a)"
definition iw_post_dec :: "'a::len word \<Rightarrow> ('a word \<times> 'a word) option" where "iw_post_dec a = map_option (\<lambda>b. (a, b)) (iw_dec a)"

definition iw_eq :: "'a::len word \<Rightarrow> 'a word \<Rightarrow> bool" where "iw_eq a b \<longleftrightarrow> sint a = sint b"
definition iw_ne :: "'a::len word \<Rightarrow> 'a word \<Rightarrow> bool" where "iw_ne a b \<longleftrightarrow> sint a \<noteq> sint b"
definition iw_lt :: "'a::len word \<Rightarrow> 'a word \<Rightarrow> bool" where "iw_lt a b \<longleftrightarrow> sint a < sint b"
definition iw_gt :: "'a::len word \<Rightarrow> 'a word \<Rightarrow> bool" where "iw_gt a b \<longleftrightarrow> sint a > sint b"
definition iw_le :: "'a::len word \<Rightarrow> 'a word \<Rightarrow> bool" where "iw_le a b \<longleftrightarrow> sint a \<le> sint b"
definition iw_ge :: "'a::len word \<Rightarrow> 'a word \<Rightarrow> bool" where "iw_ge a b \<longleftrightarrow> sint a \<ge> sint b"

definition iw_from_string :: "string \<Rightarrow> 'a::len word" where
  "iw_from_string s = word_of_int (ston_signed LENGTH('a) s)"

definition iw_string :: "'a::len word \<Rightarrow> string" where
  "iw_string a = int_string (sint a)"

subsection \<open>When they are defined, and what they give\<close>

lemma fits_sint: "LENGTH('a) \<le> w \<Longrightarrow> fits w (sint a)" for a :: "'a::len word"
proof -
  assume w: "LENGTH('a) \<le> w"
  have "(2 :: int) ^ (LENGTH('a) - 1) \<le> 2 ^ (w - 1)" using w by (intro power_increasing) auto
  moreover have "- (2 ^ (LENGTH('a) - 1)) \<le> sint a" "sint a < 2 ^ (LENGTH('a) - 1)" using sint_range_size [of a] unfolding word_size by auto
  ultimately show ?thesis unfolding fits_def by linarith
qed

lemma sint_of_fits: "fits LENGTH('a) i \<Longrightarrow> sint (word_of_int i :: 'a::len word) = i"
  unfolding fits_def sint_sbintrunc' by (rule signed_take_bit_int_eq_self) auto

lemma iw_of_wide: "32 \<le> LENGTH('a) \<Longrightarrow> iw_of i = (if fits LENGTH('a) i then Some (word_of_int i :: 'a::len word) else None)"
  by (simp add: iw_of_def promoted_def max_absorb2)

lemma narrow_range: "LENGTH('a) \<le> 16 \<Longrightarrow> - 32768 \<le> sint a \<and> sint a \<le> 32767" for a :: "'a::len word"
  using fits_sint [of 16 a] by (simp add: fits_def)

lemma iw_of_narrow: "LENGTH('a) \<le> 16 \<Longrightarrow> - (2 ^ 31) \<le> i \<Longrightarrow> i < 2 ^ 31 \<Longrightarrow> iw_of i = Some (word_of_int i :: 'a::len word)"
  by (simp add: iw_of_def promoted_def fits_def max_absorb1)

lemma narrow_mul: "LENGTH('a) \<le> 16 \<Longrightarrow> - (2 ^ 31) \<le> sint a * sint b \<and> sint a * sint b < 2 ^ 31" for a b :: "'a::len word"
proof -
  assume w: "LENGTH('a) \<le> 16"
  have "\<bar>sint a\<bar> \<le> 32768" "\<bar>sint b\<bar> \<le> 32768" using narrow_range [OF w, of a] narrow_range [OF w, of b] by auto
  then have "\<bar>sint a * sint b\<bar> \<le> 32768 * 32768" unfolding abs_mult by (intro mult_mono) auto
  then show ?thesis by auto
qed

lemma word_of_sint_ops:
  "word_of_int (sint a + sint b) = a + b" "word_of_int (sint a - sint b) = a - b" "word_of_int (sint a * sint b) = a * b" for a b :: "'a::len word"
  by (simp_all add: of_int_add of_int_diff of_int_mult)

text \<open>Identifiers of at most 16 bits add, subtract and multiply without undefined behaviour and modulo their width, since they are computed in \<open>int\<close>; those of
  32 bits and more have a result exactly if the exact result fits, and then it is the exact one.\<close>

theorem int_wrapper_arithmetic:
  fixes a b :: "'a::len word"
  shows "(LENGTH('a) \<le> 16 \<longrightarrow> iw_add a b = Some (a + b) \<and> iw_sub a b = Some (a - b) \<and> iw_mul a b = Some (a * b) \<and> iw_inc a = Some (a + 1) \<and> iw_dec a = Some (a - 1)) \<and>
    (32 \<le> LENGTH('a) \<longrightarrow>
      (if fits LENGTH('a) (sint a + sint b) then \<exists>c. iw_add a b = Some c \<and> sint c = sint a + sint b else iw_add a b = None) \<and>
      (if fits LENGTH('a) (sint a - sint b) then \<exists>c. iw_sub a b = Some c \<and> sint c = sint a - sint b else iw_sub a b = None) \<and>
      (if fits LENGTH('a) (sint a * sint b) then \<exists>c. iw_mul a b = Some c \<and> sint c = sint a * sint b else iw_mul a b = None))"
proof (intro conjI impI)
  assume w: "LENGTH('a) \<le> 16"
  note r = narrow_range [OF w, of a] narrow_range [OF w, of b]
  show "iw_add a b = Some (a + b)" "iw_sub a b = Some (a - b)" using r by (simp_all add: iw_add_def iw_sub_def iw_of_narrow [OF w])
  show "iw_mul a b = Some (a * b)" using narrow_mul [OF w, of a b] by (simp add: iw_mul_def iw_of_narrow [OF w])
  show "iw_inc a = Some (a + 1)" "iw_dec a = Some (a - 1)" using r by (simp_all add: iw_inc_def iw_dec_def iw_of_narrow [OF w])
next
  assume w: "32 \<le> LENGTH('a)"
  show "if fits LENGTH('a) (sint a + sint b) then \<exists>c. iw_add a b = Some c \<and> sint c = sint a + sint b else iw_add a b = None"
    unfolding iw_add_def iw_of_wide [OF w] by (simp add: sint_of_fits del: of_int_add)
  show "if fits LENGTH('a) (sint a - sint b) then \<exists>c. iw_sub a b = Some c \<and> sint c = sint a - sint b else iw_sub a b = None"
    unfolding iw_sub_def iw_of_wide [OF w] by (simp add: sint_of_fits del: of_int_diff)
  show "if fits LENGTH('a) (sint a * sint b) then \<exists>c. iw_mul a b = Some c \<and> sint c = sint a * sint b else iw_mul a b = None"
    unfolding iw_mul_def iw_of_wide [OF w] by (simp add: sint_of_fits del: of_int_mult)
qed

theorem int_wrapper_arithmetic_witness: "iw_add (32767 :: 16 word) 1 = Some (- 32768)"
  using int_wrapper_arithmetic [of "32767 :: 16 word" 1] by simp

text \<open>The comparisons are those of the counts, a text is read back, and a quotient exists unless it is too large or the divisor is zero.\<close>

lemma iw_eq_iff: "iw_eq a b \<longleftrightarrow> a = b"
  by (auto simp: iw_eq_def intro: signed_word_eqI)

lemma iw_order: "iw_lt a b \<longleftrightarrow> \<not> iw_ge a b" "iw_gt a b \<longleftrightarrow> \<not> iw_le a b" "iw_ne a b \<longleftrightarrow> \<not> iw_eq a b" "iw_le a b \<longleftrightarrow> iw_lt a b \<or> iw_eq a b"
  by (auto simp: iw_lt_def iw_ge_def iw_gt_def iw_le_def iw_ne_def iw_eq_def)

lemma iw_read_back: "LENGTH('a) \<le> 64 \<Longrightarrow> iw_from_string (iw_string a) = (a :: 'a::len word)"
proof -
  assume w: "LENGTH('a) \<le> 64"
  have "fits LENGTH('a) (sint a)" by (rule fits_sint) simp
  then have "ston_signed LENGTH('a) (int_string (sint a)) = sint a" using w by (intro ston_int_string) (auto simp: fits_def Suc_le_eq)
  then show ?thesis by (simp add: iw_from_string_def iw_string_def)
qed

lemma iw_div_exact:
  fixes a b c :: "'a::len word"
  assumes "32 \<le> LENGTH('a)" "iw_div a b = Some c" "iw_mod a b = Some r"
  shows "sint c * sint b + sint r = sint a"
proof -
  have b: "sint b \<noteq> 0" using assms(2) by (auto simp: iw_div_def)
  have c: "sint c = sint a sdiv sint b" using assms(1,2) b by (auto simp: iw_div_def iw_of_wide sint_of_fits split: if_splits)
  have "sint r = sint a smod sint b" using assms(1,3) b by (auto simp: iw_mod_def iw_of_wide sint_of_fits split: if_splits)
  with c show ?thesis by (simp add: sdiv_mult_smod_eq)
qed

end
