(* ===== verification/Logs.thy ===== *)
theory Logs
  imports Strings
begin

text \<open>
  The bounded stream of \<open>util/Stream.hpp\<close> and logging, \<open>sys/Log.hpp\<close> and \<open>sys/Log.cpp\<close>: one message buffer per thread, the level and the logger that all
  threads share. Values are inserted as the text they are formatted to.
\<close>

subsection \<open>Bounded streams\<close>

text \<open>\<open>ss_bad\<close> is the \<open>badbit\<close> of the stream, which \<open>ostream\<close> sets when the buffer does not take all of a value.\<close>

record static_stream =
  ss_max :: nat
  ss_buf :: string
  ss_bad :: bool

definition ss_new :: "nat \<Rightarrow> static_stream" where
  "ss_new m = \<lparr>ss_max = m, ss_buf = [], ss_bad = False\<rparr>"

definition ss_empty :: "static_stream \<Rightarrow> bool" where
  "ss_empty ss \<longleftrightarrow> ss_buf ss = []"

definition ss_size :: "static_stream \<Rightarrow> nat" where
  "ss_size ss = length (ss_buf ss)"

definition ss_reset :: "static_stream \<Rightarrow> static_stream" where
  "ss_reset ss = ss\<lparr>ss_buf := [], ss_bad := False\<rparr>"

definition ss_put :: "string \<Rightarrow> static_stream \<Rightarrow> static_stream" where
  "ss_put x ss =
     (if ss_bad ss then ss
      else let n = min (length x) (ss_max ss - ss_size ss) in ss\<lparr>ss_buf := ss_buf ss @ take n x, ss_bad := (n < length x)\<rparr>)"

text \<open>\<open>join\<close> of the same file.\<close>

fun ss_join_tail :: "char \<Rightarrow> string list \<Rightarrow> static_stream \<Rightarrow> static_stream" where
  "ss_join_tail delim [] ss = ss"
| "ss_join_tail delim (x # xs) ss = ss_join_tail delim xs (ss_put x (ss_put [delim] ss))"

definition ss_join :: "char \<Rightarrow> string \<Rightarrow> string list \<Rightarrow> static_stream \<Rightarrow> static_stream" where
  "ss_join delim x xs ss = ss_join_tail delim xs (ss_put x ss)"

text \<open>\<open>ss_holds ss x\<close>: the stream has been given the text \<open>x\<close> since it was reset, and has the part of it for which it has room.\<close>

definition ss_holds :: "static_stream \<Rightarrow> string \<Rightarrow> bool" where
  "ss_holds ss x \<longleftrightarrow> ss_buf ss = take (ss_max ss) x \<and> (ss_bad ss \<longleftrightarrow> length x > ss_max ss)"

lemma ss_max_put [simp]: "ss_max (ss_put x ss) = ss_max ss" "ss_max (ss_reset ss) = ss_max ss" "ss_max (ss_new m) = m"
  by (simp_all add: ss_put_def ss_reset_def ss_new_def Let_def)

lemma ss_reset_holds [intro, simp]: "ss_holds (ss_reset ss) []" "ss_holds (ss_new m) []"
  by (simp_all add: ss_holds_def ss_reset_def ss_new_def)

lemma ss_put_holds: "ss_holds ss x \<Longrightarrow> ss_holds (ss_put y ss) (x @ y)"
  by (auto simp: ss_holds_def ss_put_def ss_size_def Let_def min_def)

lemma ss_holds_unique: "ss_holds ss x \<Longrightarrow> ss_buf ss = take (ss_max ss) x"
  by (simp add: ss_holds_def)

lemma ss_join_tail_holds: "ss_holds ss x \<Longrightarrow> ss_holds (ss_join_tail delim ys ss) (x @ concat (map ((#) delim) ys))"
proof (induction delim ys ss arbitrary: x rule: ss_join_tail.induct)
  case (2 delim y ys ss)
  have "ss_holds (ss_put y (ss_put [delim] ss)) ((x @ [delim]) @ y)" by (intro ss_put_holds 2)
  from "2.IH" [OF this] show ?case by simp
qed simp

lemma ss_join_holds: "ss_holds ss x \<Longrightarrow> ss_holds (ss_join delim y ys ss) (x @ y @ concat (map ((#) delim) ys))"
  by (drule ss_put_holds [of _ _ y], drule ss_join_tail_holds [of _ _ delim ys]) (simp add: ss_join_def)

subsection \<open>Levels and loggers\<close>

definition Crit :: int where "Crit = 1"
definition Error :: int where "Error = 2"
definition Warning :: int where "Warning = 3"
definition Notice :: int where "Notice = 4"
definition Info :: int where "Info = 5"
definition Debug :: int where "Debug = 6"
definition Dump :: int where "Dump = 10"
definition Dump9 :: int where "Dump9 = 19"

lemmas log_levels = Crit_def Error_def Warning_def Notice_def Info_def Debug_def Dump_def Dump9_def

definition log_labels :: "string list" where
  "log_labels = ['''', ''C'', ''E'', ''W'', ''N'', ''I'', ''D'', ''V7'', ''V8'', ''V9'', ''V10'', ''V11'', ''V12'', ''V13'', ''V14'', ''V15'', ''V16'', ''V17'',
     ''V18'', ''V19'', ''V20'']"

definition log_label :: "int \<Rightarrow> string" where
  "log_label level = log_labels ! nat (min (max level Crit) Dump9)"

datatype logger = NullLogger | StdLogger | SysLogger | CustomLogger nat

text \<open>The priorities of \<open>syslog\<close> on Linux.\<close>

definition sys_prio :: "int \<Rightarrow> int" where
  "sys_prio level = (if level = Crit then 2 else if level = Error then 3 else if level = Warning then 4 else if level = Notice then 5
     else if level = Info then 6 else 7)"

text \<open>The line of \<open>std_logger\<close> for the text of the time, the milliseconds and the thread.\<close>

definition pad_left :: "nat \<Rightarrow> char \<Rightarrow> string \<Rightarrow> string" where
  "pad_left n c s = replicate (n - length s) c @ s"

definition pad_right :: "nat \<Rightarrow> string \<Rightarrow> string" where
  "pad_right n s = s @ replicate (n - length s) CHR '' ''"

definition std_line :: "string \<Rightarrow> nat \<Rightarrow> nat \<Rightarrow> int \<Rightarrow> string \<Rightarrow> string" where
  "std_line time ms tid level msg =
     time @ ''.'' @ pad_left 3 CHR ''0'' (nat_string (ms mod 1000)) @ '' '' @ pad_right 2 (log_label level) @ '' ['' @ nat_string tid @ '']: '' @ msg @ [CHR 0x0A]"

subsection \<open>Log statements\<close>

text \<open>What reaches a logger: the thread, the level and the message.\<close>

record log_state =
  lg_level :: int
  lg_logger :: logger
  lg_msg :: "nat \<Rightarrow> static_stream"
  lg_out :: "(logger \<times> nat \<times> int \<times> string) list"

definition max_msg_size :: nat where "max_msg_size = 1400"

definition lg_new :: "bool \<Rightarrow> log_state" where
  "lg_new debug = \<lparr>lg_level = (if debug then Dump else Info), lg_logger = StdLogger, lg_msg = (\<lambda>_. ss_new max_msg_size), lg_out = []\<rparr>"

definition is_log_level :: "int \<Rightarrow> log_state \<Rightarrow> bool" where
  "is_log_level level s \<longleftrightarrow> level \<le> lg_level s"

definition set_log_level :: "int \<Rightarrow> log_state \<Rightarrow> int \<times> log_state" where
  "set_log_level level s = (lg_level s, s\<lparr>lg_level := max level 0\<rparr>)"

definition set_logger :: "logger option \<Rightarrow> log_state \<Rightarrow> logger \<times> log_state" where
  "set_logger l s = (lg_logger s, s\<lparr>lg_logger := (case l of Some x \<Rightarrow> x | None \<Rightarrow> NullLogger)\<rparr>)"

definition write_log :: "nat \<Rightarrow> int \<Rightarrow> string \<Rightarrow> log_state \<Rightarrow> log_state" where
  "write_log t level msg s = (if lg_logger s = NullLogger then s else s\<lparr>lg_out := lg_out s @ [(lg_logger s, t, level, msg)]\<rparr>)"

definition log_msg :: "nat \<Rightarrow> log_state \<Rightarrow> log_state" where
  "log_msg t s = s\<lparr>lg_msg := (lg_msg s)(t := ss_reset (lg_msg s t))\<rparr>"

definition log_insert :: "nat \<Rightarrow> string \<Rightarrow> log_state \<Rightarrow> log_state" where
  "log_insert t x s = s\<lparr>lg_msg := (lg_msg s)(t := ss_put x (lg_msg s t))\<rparr>"

text \<open>An operand of a log statement is a text, or a call that logs a statement of its own and then gives a text.\<close>

datatype log_item = LogText string | LogCall int "log_item list" string

fun log_put :: "nat \<Rightarrow> log_item \<Rightarrow> log_state \<Rightarrow> log_state" where
  "log_put t (LogText x) s = log_insert t x s"
| "log_put t (LogCall level items x) s =
     log_insert t x (if is_log_level level s then (let s1 = fold (log_put t) items (log_msg t s) in write_log t level (ss_buf (lg_msg s1 t)) s1) else s)"

text \<open>\<open>TOOLBOX_LOG(level) << ...\<close>: construction, insertions, destruction.\<close>

definition log_statement :: "nat \<Rightarrow> int \<Rightarrow> log_item list \<Rightarrow> log_state \<Rightarrow> log_state" where
  "log_statement t level items s =
     (if is_log_level level s then (let s1 = fold (log_put t) items (log_msg t s) in write_log t level (ss_buf (lg_msg s1 t)) s1) else s)"

lemma log_put_call: "log_put t (LogCall level items x) s = log_insert t x (log_statement t level items s)"
  by (simp add: log_statement_def)

subsection \<open>What is written\<close>

lemma log_texts:
  "ss_holds (lg_msg s t) x \<Longrightarrow>
     (let s1 = fold (log_put t) (map LogText xs) s in ss_holds (lg_msg s1 t) (x @ concat xs) \<and> ss_max (lg_msg s1 t) = ss_max (lg_msg s t) \<and>
       lg_out s1 = lg_out s \<and> lg_logger s1 = lg_logger s \<and> lg_level s1 = lg_level s \<and> (\<forall>u. u \<noteq> t \<longrightarrow> lg_msg s1 u = lg_msg s u))"
proof (induction xs arbitrary: s x)
  case (Cons y xs)
  have "ss_holds (lg_msg (log_insert t y s) t) (x @ y)" using Cons.prems by (simp add: log_insert_def ss_put_holds)
  from Cons.IH [OF this] show ?case by (simp add: Let_def log_insert_def)
qed simp

text \<open>A log statement of texts reaches the current logger once, if its level is enabled and the logger is not the null logger, as the texts one after the
  other up to the size of a message; a statement of a lower priority changes nothing. The buffers of other threads, the level and the logger stay.\<close>

theorem log_statement_written:
  assumes "ss_max (lg_msg s t) = max_msg_size"
  shows "lg_out (log_statement t level (map LogText xs) s) =
      lg_out s @ (if level \<le> lg_level s \<and> lg_logger s \<noteq> NullLogger then [(lg_logger s, t, level, take max_msg_size (concat xs))] else []) \<and>
    (\<not> level \<le> lg_level s \<longrightarrow> log_statement t level (map LogText xs) s = s) \<and>
    (\<forall>u. u \<noteq> t \<longrightarrow> lg_msg (log_statement t level (map LogText xs) s) u = lg_msg s u) \<and>
    lg_level (log_statement t level (map LogText xs) s) = lg_level s \<and> lg_logger (log_statement t level (map LogText xs) s) = lg_logger s"
proof -
  have "ss_holds (lg_msg (log_msg t s) t) []" by (simp add: log_msg_def)
  note h = log_texts [OF this, of xs, unfolded Let_def]
  let ?s = "fold (log_put t) (map LogText xs) (log_msg t s)"
  have "ss_buf (lg_msg ?s t) = take max_msg_size (concat xs)" using h ss_holds_unique [of "lg_msg ?s t"] assms by (simp add: log_msg_def)
  with h show ?thesis by (auto simp: log_statement_def is_log_level_def write_log_def Let_def log_msg_def)
qed

theorem log_statement_written_witness:
  "lg_out (log_statement 7 Info (map LogText [''x='', ''1'']) (lg_new False)) = [(StdLogger, 7, Info, ''x=1'')]"
proof -
  have "lg_out (lg_new False) = []" "lg_level (lg_new False) = Info" "lg_logger (lg_new False) = StdLogger" by (simp_all add: lg_new_def)
  with log_statement_written [of "lg_new False" 7 Info "[''x='', ''1'']"] show ?thesis by (simp add: lg_new_def max_msg_size_def)
qed

text \<open>A call in a statement that logs a line itself replaces what the statement has collected by its own line.\<close>

lemma log_nested_mixes:
  "map (\<lambda>(l, t, level, msg). msg) (lg_out (log_statement 0 Info [LogText ''outer '', LogCall Info [LogText ''inner''] '' value''] (lg_new False))) =
     [''inner'', ''inner value'']"
  by (simp add: log_statement_def lg_new_def is_log_level_def log_msg_def log_insert_def write_log_def ss_put_def ss_reset_def ss_new_def ss_size_def
      max_msg_size_def Let_def)

lemma log_label_defined: "nat (min (max level Crit) Dump9) < length log_labels"
  by (auto simp: log_labels_def log_levels)

lemma set_log_level_back: "0 \<le> lg_level s \<Longrightarrow> set_log_level (fst (set_log_level l s)) (snd (set_log_level l s)) = (max l 0, s)"
  by (simp add: set_log_level_def)

end
