(* ===== verification/Pools.thy ===== *)
theory Pools
  imports Prelude
begin

text \<open>
  The object pool of \<open>util/Pool.hpp\<close> with its slabs and its free list.
\<close>

subsection \<open>The pool\<close>

text \<open>A node is the number of its slab and its index. The size of the objects in bytes gives the number of nodes of a slab.\<close>

record pool =
  pl_slabs :: nat
  pl_free :: "(nat \<times> nat) list"

definition pl_new :: pool where
  "pl_new = \<lparr>pl_slabs = 0, pl_free = []\<rparr>"

definition slab_size :: "nat \<Rightarrow> nat" where
  "slab_size bytes = (4096 - 16) div bytes"

text \<open>The loop that pushes the nodes of a new slab, \<open>k\<close> of them from \<open>i\<close> on.\<close>

fun push_nodes :: "nat \<Rightarrow> nat \<Rightarrow> nat \<Rightarrow> (nat \<times> nat) list \<Rightarrow> (nat \<times> nat) list" where
  "push_nodes slab i 0 free = free"
| "push_nodes slab i (Suc k) free = push_nodes slab (i + 1) k ((slab, i) # free)"

text \<open>\<open>None\<close>: the slab has no node, and its first node is accessed.\<close>

definition pl_alloc :: "nat \<Rightarrow> pool \<Rightarrow> ((nat \<times> nat) \<times> pool) option" where
  "pl_alloc bytes p = (case pl_free p of
     node # free \<Rightarrow> Some (node, p\<lparr>pl_free := free\<rparr>)
   | [] \<Rightarrow> if slab_size bytes = 0 then None
       else Some ((pl_slabs p, 0), \<lparr>pl_slabs = pl_slabs p + 1, pl_free = push_nodes (pl_slabs p) 1 (slab_size bytes - 1) (pl_free p)\<rparr>))"

definition pl_dealloc :: "nat \<times> nat \<Rightarrow> pool \<Rightarrow> pool" where
  "pl_dealloc node p = p\<lparr>pl_free := node # pl_free p\<rparr>"

text \<open>A client that returns only what it has.\<close>

inductive pl_step :: "nat \<Rightarrow> pool \<times> (nat \<times> nat) list \<Rightarrow> pool \<times> (nat \<times> nat) list \<Rightarrow> bool" for bytes where
  pl_allocs: "pl_alloc bytes p = Some (node, p') \<Longrightarrow> pl_step bytes (p, live) (p', node # live)"
| pl_deallocs: "node \<in> set live \<Longrightarrow> pl_step bytes (p, live) (pl_dealloc node p, remove1 node live)"

definition pl_nodes :: "nat \<Rightarrow> pool \<Rightarrow> (nat \<times> nat) set" where
  "pl_nodes bytes p = {..<pl_slabs p} \<times> {..<slab_size bytes}"

definition pl_inv :: "nat \<Rightarrow> pool \<times> (nat \<times> nat) list \<Rightarrow> bool" where
  "pl_inv bytes s \<longleftrightarrow> distinct (snd s @ pl_free (fst s)) \<and> set (snd s @ pl_free (fst s)) = pl_nodes bytes (fst s)"

lemma push_nodes_eq: "push_nodes slab i k free = rev (map (Pair slab) [i..<i + k]) @ free"
  by (induction slab i k free rule: push_nodes.induct) (simp_all add: upt_conv_Cons)

lemma pl_alloc_cases:
  assumes "pl_alloc bytes p = Some (node, p')"
  obtains (reuse) "pl_free p = node # pl_free p'" "pl_slabs p' = pl_slabs p"
    | (slab) "pl_free p = []" "slab_size bytes > 0" "pl_slabs p' = Suc (pl_slabs p)" "node # rev (pl_free p') = map (Pair (pl_slabs p)) [0..<slab_size bytes]"
proof (cases "pl_free p")
  case (Cons x xs)
  with assms show ?thesis by (auto simp: pl_alloc_def intro: reuse)
next
  case Nil
  with assms have n: "slab_size bytes > 0" and e: "node = (pl_slabs p, 0)" "p' = \<lparr>pl_slabs = pl_slabs p + 1, pl_free = push_nodes (pl_slabs p) 1 (slab_size bytes - 1) []\<rparr>"
    by (auto simp: pl_alloc_def split: if_splits)
  show ?thesis by (rule slab) (use n Nil in \<open>simp_all add: e push_nodes_eq upt_conv_Cons\<close>)
qed

lemma pl_alloc_inv:
  assumes "pl_alloc bytes p = Some (node, p')" "pl_inv bytes (p, live)"
  shows "pl_inv bytes (p', node # live)"
  using assms(1)
proof (cases rule: pl_alloc_cases)
  case reuse
  have "pl_nodes bytes p' = pl_nodes bytes p" using reuse by (simp add: pl_nodes_def)
  moreover have "distinct (live @ node # pl_free p')" "set (live @ node # pl_free p') = pl_nodes bytes p" using assms(2) reuse by (simp_all add: pl_inv_def)
  ultimately show ?thesis by (simp add: pl_inv_def)
next
  case slab
  have l: "distinct live" "set live = pl_nodes bytes p" using assms(2) slab by (simp_all add: pl_inv_def)
  have "distinct (node # rev (pl_free p'))" unfolding slab by (simp add: distinct_map inj_on_def)
  then have d: "node \<notin> set (pl_free p')" "distinct (pl_free p')" by simp_all
  have "set (node # rev (pl_free p')) = {pl_slabs p} \<times> {..<slab_size bytes}" unfolding slab(4) by auto
  then have s: "insert node (set (pl_free p')) = {pl_slabs p} \<times> {..<slab_size bytes}" by simp
  have n: "pl_nodes bytes p' = pl_nodes bytes p \<union> {pl_slabs p} \<times> {..<slab_size bytes}" using slab by (auto simp: pl_nodes_def less_Suc_eq)
  have z: "pl_nodes bytes p \<inter> {pl_slabs p} \<times> {..<slab_size bytes} = {}" by (auto simp: pl_nodes_def)
  have "set (node # live) \<union> set (pl_free p') = pl_nodes bytes p'" unfolding n l(2) [symmetric] s [symmetric] by auto
  moreover have "distinct ((node # live) @ pl_free p')" using d l z [folded s] by auto
  ultimately show ?thesis by (simp add: pl_inv_def)
qed

lemma pl_step_inv:
  assumes "pl_step bytes s s'" "pl_inv bytes s"
  shows "pl_inv bytes s'"
  using assms(1)
proof cases
  case (pl_allocs p node p' live)
  with assms(2) show ?thesis by (simp add: pl_alloc_inv)
next
  case (pl_deallocs node live p)
  have "distinct live" "node \<notin> set (pl_free p)" "distinct (pl_free p)" "set live \<inter> set (pl_free p) = {}" "set live \<union> set (pl_free p) = pl_nodes bytes p"
    using assms(2) pl_deallocs by (auto simp: pl_inv_def)
  moreover have "pl_nodes bytes (pl_dealloc node p) = pl_nodes bytes p" by (simp add: pl_nodes_def pl_dealloc_def)
  ultimately show ?thesis using pl_deallocs by (simp add: pl_inv_def pl_dealloc_def) blast
qed

lemma pl_reach_inv: "(pl_step bytes)\<^sup>*\<^sup>* (pl_new, []) s \<Longrightarrow> pl_inv bytes s"
proof (induction rule: rtranclp_induct)
  case base
  then show ?case by (simp add: pl_inv_def pl_new_def pl_nodes_def)
qed (rule pl_step_inv)

text \<open>For objects of up to 4080 bytes an allocation always succeeds and gives a node of a slab that is not in use; nodes are in use or in the free
  list, never both and never lost, and a new slab is added only if all nodes are in use.\<close>

theorem slab_alloc_fresh:
  assumes "(pl_step bytes)\<^sup>*\<^sup>* (pl_new, []) (p, live)" "0 < bytes" "bytes \<le> 4080"
  shows "\<exists>node p'. pl_alloc bytes p = Some (node, p') \<and> node \<notin> set live \<and> node \<in> pl_nodes bytes p' \<and>
    distinct (live @ pl_free p) \<and> set (live @ pl_free p) = pl_nodes bytes p \<and> (pl_slabs p' \<noteq> pl_slabs p \<longrightarrow> set live = pl_nodes bytes p)"
proof -
  have inv: "pl_inv bytes (p, live)" by (rule pl_reach_inv [OF assms(1)])
  have n: "slab_size bytes > 0" using assms(2,3) by (simp add: slab_size_def div_greater_zero_iff)
  obtain node p' where a: "pl_alloc bytes p = Some (node, p')" using n by (cases "pl_free p") (auto simp: pl_alloc_def)
  have "pl_inv bytes (p', node # live)" using pl_step_inv [OF pl_allocs [OF a] inv] .
  moreover have "pl_slabs p' \<noteq> pl_slabs p \<Longrightarrow> pl_free p = []" using a by (auto simp: pl_alloc_def split: list.splits)
  ultimately show ?thesis using a inv by (auto simp: pl_inv_def)
qed

theorem slab_alloc_fresh_witness: "\<exists>node p'. pl_alloc 1000 pl_new = Some (node, p') \<and> node \<in> pl_nodes 1000 p'"
  using slab_alloc_fresh [of 1000 pl_new "[]"] by auto

text \<open>Larger objects: the slab is empty, and its first node is used all the same.\<close>

lemma pool_large_objects: "bytes > 4080 \<Longrightarrow> pl_alloc bytes pl_new = None"
  by (simp add: pl_alloc_def pl_new_def slab_size_def)

end
