(* ===== verification/Handles.thy ===== *)
theory Handles
  imports Prelude
begin

text \<open>The handles of descriptors of \<open>io/Handle.hpp\<close>: who owns a descriptor, and when it is closed.\<close>

subsection \<open>Handles\<close>

text \<open>
  Handles are objects with a descriptor or the invalid one. \<open>hs_closed\<close> are the descriptors that were closed, \<open>hs_released\<close> those that were given away and
  not taken back, \<open>hs_opened\<close> is how many were opened.
\<close>

record fd_handles =
  hs_id :: "nat \<Rightarrow> int option"
  hs_closed :: "int list"
  hs_released :: "int list"
  hs_opened :: nat

definition invalid_fd :: int where "invalid_fd = - 1"

definition is_custom :: "int \<Rightarrow> bool" where "is_custom fd \<longleftrightarrow> fd < 0"

definition fd_close :: "int \<Rightarrow> fd_handles \<Rightarrow> fd_handles" where
  "fd_close fd s = s\<lparr>hs_closed := hs_closed s @ [fd]\<rparr>"

definition bh_get :: "nat \<Rightarrow> fd_handles \<Rightarrow> int" where
  "bh_get h s = (case hs_id s h of Some fd \<Rightarrow> fd | None \<Rightarrow> invalid_fd)"

definition bh_put :: "nat \<Rightarrow> int \<Rightarrow> fd_handles \<Rightarrow> fd_handles" where
  "bh_put h fd s = s\<lparr>hs_id := (hs_id s)(h := Some fd)\<rparr>"

definition bh_empty :: "nat \<Rightarrow> fd_handles \<Rightarrow> bool" where
  "bh_empty h s \<longleftrightarrow> bh_get h s = invalid_fd"

definition bh_reset :: "nat \<Rightarrow> int \<Rightarrow> fd_handles \<Rightarrow> fd_handles" where
  "bh_reset h fd s = (let old = bh_get h s; s1 = bh_put h fd s in if old \<noteq> invalid_fd then fd_close old s1 else s1)"

definition bh_swap :: "nat \<Rightarrow> nat \<Rightarrow> fd_handles \<Rightarrow> fd_handles" where
  "bh_swap h g s = bh_put g (bh_get h s) (bh_put h (bh_get g s) s)"

definition bh_release :: "nat \<Rightarrow> fd_handles \<Rightarrow> int \<times> fd_handles" where
  "bh_release h s = (bh_get h s, bh_put h invalid_fd s)"

definition bh_destroy :: "nat \<Rightarrow> fd_handles \<Rightarrow> fd_handles" where
  "bh_destroy h s = (let fd = bh_get h s; s1 = (if fd \<noteq> invalid_fd then fd_close fd s else s) in s1\<lparr>hs_id := (hs_id s1)(h := None)\<rparr>)"

definition bh_move :: "nat \<Rightarrow> nat \<Rightarrow> fd_handles \<Rightarrow> fd_handles" where
  "bh_move h g s = bh_put g invalid_fd (bh_put h (bh_get g s) s)"

definition bh_move_assign :: "nat \<Rightarrow> nat \<Rightarrow> fd_handles \<Rightarrow> fd_handles" where
  "bh_move_assign h g s = bh_swap h g (bh_reset h invalid_fd s)"

definition handles_new :: fd_handles where
  "handles_new = \<lparr>hs_id = (\<lambda>_. None), hs_closed = [], hs_released = [], hs_opened = 0\<rparr>"

text \<open>
  Descriptors are numbered as they are opened. The constructor and \<open>reset\<close> take over the descriptor they are given, so the caller has to own it: it is new, or was
  released by a handle before. A descriptor that a handle has, its own included, is not the caller's to give; what becomes of it is shown at the end.
\<close>

definition fd_open :: "fd_handles \<Rightarrow> int \<times> fd_handles" where
  "fd_open s = (int (hs_opened s), s\<lparr>hs_opened := hs_opened s + 1\<rparr>)"

inductive fd_given :: "fd_handles \<Rightarrow> int \<Rightarrow> fd_handles \<Rightarrow> bool" where
  fd_new: "fd_open s = (fd, s1) \<Longrightarrow> fd_given s fd s1"
| fd_back: "fd \<in> set (hs_released s) \<Longrightarrow> fd_given s fd (s\<lparr>hs_released := remove1 fd (hs_released s)\<rparr>)"

inductive handle_step :: "fd_handles \<Rightarrow> fd_handles \<Rightarrow> bool" where
  "hs_id s h = None \<Longrightarrow> handle_step s (bh_put h invalid_fd s)"
| "hs_id s h = None \<Longrightarrow> fd_given s fd s1 \<Longrightarrow> handle_step s (bh_put h fd s1)"
| "hs_id s h = None \<Longrightarrow> hs_id s g \<noteq> None \<Longrightarrow> handle_step s (bh_move h g s)"
| "hs_id s h \<noteq> None \<Longrightarrow> hs_id s g \<noteq> None \<Longrightarrow> handle_step s (bh_move_assign h g s)"
| "hs_id s h \<noteq> None \<Longrightarrow> hs_id s g \<noteq> None \<Longrightarrow> handle_step s (bh_swap h g s)"
| "hs_id s h \<noteq> None \<Longrightarrow> handle_step s (bh_reset h invalid_fd s)"
| "hs_id s h \<noteq> None \<Longrightarrow> fd_given s fd s1 \<Longrightarrow> handle_step s (bh_reset h fd s1)"
| "hs_id s h \<noteq> None \<Longrightarrow> bh_release h s = (fd, s1) \<Longrightarrow> handle_step s (if fd = invalid_fd then s1 else s1\<lparr>hs_released := hs_released s1 @ [fd]\<rparr>)"
| "hs_id s h \<noteq> None \<Longrightarrow> handle_step s (bh_destroy h s)"

text \<open>Every descriptor opened is in one handle, or closed, or released, \<open>l\<close>.\<close>

definition fd_owned :: "(nat \<Rightarrow> int option) \<Rightarrow> int set" where
  "fd_owned m = {fd. fd \<noteq> invalid_fd \<and> (\<exists>h. m h = Some fd)}"

definition one_owner :: "(nat \<Rightarrow> int option) \<Rightarrow> bool" where
  "one_owner m \<longleftrightarrow> (\<forall>h g fd. m h = Some fd \<longrightarrow> m g = Some fd \<longrightarrow> fd \<noteq> invalid_fd \<longrightarrow> h = g)"

definition fds_ok :: "(nat \<Rightarrow> int option) \<Rightarrow> int list \<Rightarrow> nat \<Rightarrow> bool" where
  "fds_ok m l n \<longleftrightarrow> one_owner m \<and> distinct l \<and> fd_owned m \<inter> set l = {} \<and> fd_owned m \<union> set l = int ` {..<n}"

definition handles_inv :: "fd_handles \<Rightarrow> bool" where
  "handles_inv s \<longleftrightarrow> fds_ok (hs_id s) (hs_closed s @ hs_released s) (hs_opened s)"

definition holds_none :: "int option \<Rightarrow> bool" where
  "holds_none v \<longleftrightarrow> v = None \<or> v = Some invalid_fd"

lemma drop_owner:
  assumes "one_owner m" "holds_none v"
  shows "one_owner (m(h := v))" "fd_owned (m(h := v)) = fd_owned m - {fd. m h = Some fd}"
proof -
  have e: "(m(h := v)) g = Some fd \<and> fd \<noteq> invalid_fd \<longleftrightarrow> g \<noteq> h \<and> m g = Some fd \<and> fd \<noteq> invalid_fd" for g fd
    using assms(2) by (auto simp: holds_none_def)
  then show "one_owner (m(h := v))" using assms(1) unfolding one_owner_def by blast
  have "fd \<in> fd_owned (m(h := v)) \<longleftrightarrow> fd \<in> fd_owned m \<and> m h \<noteq> Some fd" for fd
    using e assms(1) unfolding fd_owned_def one_owner_def mem_Collect_eq by blast
  then show "fd_owned (m(h := v)) = fd_owned m - {fd. m h = Some fd}" by blast
qed

lemma set_owner:
  assumes "one_owner m" "holds_none (m h)" "fd \<notin> fd_owned m" "fd \<noteq> invalid_fd"
  shows "one_owner (m(h := Some fd))" "fd_owned (m(h := Some fd)) = insert fd (fd_owned m)"
proof -
  have e: "(m(h := Some fd)) g = Some x \<and> x \<noteq> invalid_fd \<longleftrightarrow> (g = h \<and> x = fd) \<or> (m g = Some x \<and> x \<noteq> invalid_fd)" for g x
    using assms(2,4) by (auto simp: holds_none_def)
  have n: "m g \<noteq> Some fd" for g using assms(3,4) by (auto simp: fd_owned_def)
  show "one_owner (m(h := Some fd))" unfolding one_owner_def using e assms(1) n unfolding one_owner_def by metis
  have "x \<in> fd_owned (m(h := Some fd)) \<longleftrightarrow> x = fd \<or> x \<in> fd_owned m" for x using e unfolding fd_owned_def mem_Collect_eq by blast
  then show "fd_owned (m(h := Some fd)) = insert fd (fd_owned m)" by blast
qed

lemma fds_gain: "fds_ok m l n \<Longrightarrow> holds_none (m h) \<Longrightarrow> fds_ok (m(h := Some (int n))) l (n + 1)"
proof -
  assume a: "fds_ok m l n" "holds_none (m h)"
  have u: "fd_owned m \<union> set l = int ` {..<n}" "one_owner m" "distinct l" "fd_owned m \<inter> set l = {}" using a by (simp_all add: fds_ok_def)
  then have "int n \<notin> fd_owned m \<union> set l" unfolding u(1) by auto
  then have "int n \<notin> fd_owned m" "int n \<notin> set l" by simp_all
  with a(2) u set_owner [of m h "int n"] show ?thesis by (simp add: fds_ok_def invalid_fd_def lessThan_Suc)
qed

lemma fds_regain:
  assumes "fds_ok m l n" "holds_none (m h)" "fd \<in> set l" "distinct l'" "set l' = set l - {fd}"
  shows "fds_ok (m(h := Some fd)) l' n"
proof -
  have u: "fd_owned m \<union> set l = int ` {..<n}" "one_owner m" "fd_owned m \<inter> set l = {}" using assms(1) by (simp_all add: fds_ok_def)
  then have "fd \<notin> fd_owned m" "fd \<noteq> invalid_fd" using assms(3) by (auto simp: invalid_fd_def)
  with set_owner [of m h fd] assms u show ?thesis by (auto simp: fds_ok_def)
qed

lemma fds_keep: "fds_ok m l n \<Longrightarrow> holds_none (m h) \<Longrightarrow> holds_none v \<Longrightarrow> fds_ok (m(h := v)) l n"
proof -
  assume a: "fds_ok m l n" "holds_none (m h)" "holds_none v"
  have "fd_owned (m(h := v)) = fd_owned m" using a drop_owner [of m v h] by (auto simp: fds_ok_def holds_none_def fd_owned_def)
  with a drop_owner [of m v h] show ?thesis by (simp add: fds_ok_def)
qed

lemma fds_lose: "fds_ok m l n \<Longrightarrow> m h = Some fd \<Longrightarrow> fd \<noteq> invalid_fd \<Longrightarrow> holds_none v \<Longrightarrow> distinct l' \<longleftrightarrow> distinct (fd # l) \<Longrightarrow> set l' = insert fd (set l) \<Longrightarrow>
    fds_ok (m(h := v)) l' n"
proof -
  assume a: "fds_ok m l n" "m h = Some fd" "fd \<noteq> invalid_fd" "holds_none v" "distinct l' \<longleftrightarrow> distinct (fd # l)" "set l' = insert fd (set l)"
  have o: "fd \<in> fd_owned m" using a(2,3) by (auto simp: fd_owned_def)
  then have "fd \<notin> set l" using a(1) by (auto simp: fds_ok_def)
  moreover have "fd_owned (m(h := v)) = fd_owned m - {fd}" using a drop_owner [of m v h] by (auto simp: fds_ok_def)
  ultimately show ?thesis using a o drop_owner [of m v h] by (auto simp: fds_ok_def)
qed

lemma fds_move:
  assumes "fds_ok m l n" "m g = Some fd" "holds_none (m h)" "h \<noteq> g"
  shows "fds_ok (m(h := Some fd, g := Some invalid_fd)) l n"
proof (cases "fd = invalid_fd")
  case True
  have "fds_ok (m(h := Some fd)) l n" using assms(1,3) True by (intro fds_keep) (simp_all add: holds_none_def)
  from fds_keep [OF this, of g "Some invalid_fd"] show ?thesis using True assms(2,4) by (simp add: holds_none_def)
next
  case False
  let ?m = "m(g := Some invalid_fd)"
  have m: "one_owner ?m" "fd_owned ?m = fd_owned m - {fd}" using drop_owner [of m "Some invalid_fd" g] assms(1,2) by (auto simp: fds_ok_def holds_none_def)
  have o: "fd \<in> fd_owned m" using assms(2) False by (auto simp: fd_owned_def)
  have "one_owner (?m(h := Some fd))" "fd_owned (?m(h := Some fd)) = fd_owned m"
    using set_owner [of ?m h fd] m o assms(3,4) False by auto
  then show ?thesis using assms(1,4) by (simp add: fds_ok_def fun_upd_twist)
qed

lemma fds_swap:
  assumes "fds_ok m l n" "m g = Some fd" "m h = Some fe"
  shows "fds_ok (m(h := Some fd, g := Some fe)) l n"
proof -
  define p where "p k = (if k = h then g else if k = g then h else k)" for k
  have p: "p (p k) = k" for k by (simp add: p_def)
  have e: "(m(h := Some fd, g := Some fe)) k = m (p k)" for k using assms(2,3) by (auto simp: p_def)
  have "one_owner (m(h := Some fd, g := Some fe))" unfolding one_owner_def e
  proof (intro allI impI)
    fix a b x assume "m (p a) = Some x" "m (p b) = Some x" "x \<noteq> invalid_fd"
    with assms(1) have "p a = p b" unfolding fds_ok_def one_owner_def by blast
    then show "a = b" by (metis p)
  qed
  moreover have "(\<exists>k. m (p k) = Some x) \<longleftrightarrow> (\<exists>k. m k = Some x)" for x by (metis p)
  then have "fd_owned (m(h := Some fd, g := Some fe)) = fd_owned m" unfolding fd_owned_def e by blast
  ultimately show ?thesis using assms(1) by (simp add: fds_ok_def)
qed

text \<open>The operations keep the invariant.\<close>

lemma handles_new_inv [inv_intros]: "handles_inv handles_new"
  by (simp add: handles_inv_def handles_new_def fds_ok_def one_owner_def fd_owned_def)

lemma bh_get_some: "hs_id s h = Some fd \<Longrightarrow> bh_get h s = fd"
  by (simp add: bh_get_def)

lemma bh_put_gain:
  assumes "handles_inv s" "fd_given s fd s1" "holds_none (hs_id s h)"
  shows "handles_inv (bh_put h fd s1)"
  using assms(2)
proof cases
  case fd_new
  with assms fds_gain [of "hs_id s" _ "hs_opened s" h] show ?thesis by (auto simp: handles_inv_def bh_put_def fd_open_def)
next
  case fd_back
  have "distinct (hs_closed s @ hs_released s)" using assms(1) by (simp add: handles_inv_def fds_ok_def)
  with assms fd_back fds_regain [of "hs_id s" "hs_closed s @ hs_released s" "hs_opened s" h fd "hs_closed s @ remove1 fd (hs_released s)"] show ?thesis
    by (auto simp: handles_inv_def bh_put_def)
qed

lemma bh_put_invalid: "handles_inv s \<Longrightarrow> holds_none (hs_id s h) \<Longrightarrow> handles_inv (bh_put h invalid_fd s)"
  using fds_keep [of "hs_id s" _ "hs_opened s" h "Some invalid_fd"] by (simp add: handles_inv_def bh_put_def holds_none_def)

lemma handle_clear_inv:
  assumes "handles_inv s" "hs_id s h = Some fd"
  shows "handles_inv (bh_reset h invalid_fd s)" "hs_id (bh_reset h invalid_fd s) = (hs_id s)(h := Some invalid_fd)"
    "hs_opened (bh_reset h invalid_fd s) = hs_opened s"
proof -
  show "handles_inv (bh_reset h invalid_fd s)"
  proof (cases "fd = invalid_fd")
    case True
    with assms show ?thesis by (simp add: bh_reset_def bh_get_some Let_def bh_put_invalid holds_none_def)
  next
    case False
    with assms fds_lose [of "hs_id s" "hs_closed s @ hs_released s" "hs_opened s" h fd "Some invalid_fd" "(hs_closed s @ [fd]) @ hs_released s"] show ?thesis
      by (auto simp: bh_reset_def bh_get_some Let_def handles_inv_def fd_close_def bh_put_def holds_none_def)
  qed
qed (simp_all add: bh_reset_def Let_def bh_put_def fd_close_def)

lemma bh_reset_given:
  assumes "handles_inv s" "hs_id s h = Some old" "fd_given s fd s1"
  shows "handles_inv (bh_reset h fd s1)"
proof -
  let ?s = "bh_reset h invalid_fd s"
  from assms(3) have "\<exists>s2. fd_given ?s fd s2 \<and> bh_reset h fd s1 = bh_put h fd s2"
  proof cases
    case fd_new
    then have "fd_given ?s fd (?s\<lparr>hs_opened := hs_opened ?s + 1\<rparr>)"
      by (intro fd_given.fd_new) (auto simp: fd_open_def bh_reset_def Let_def bh_put_def fd_close_def)
    moreover have "bh_reset h fd s1 = bh_put h fd (?s\<lparr>hs_opened := hs_opened ?s + 1\<rparr>)"
      using fd_new assms(2) by (auto simp: fd_open_def bh_reset_def Let_def bh_put_def fd_close_def bh_get_def)
    ultimately show ?thesis by blast
  next
    case fd_back
    then have "fd_given ?s fd (?s\<lparr>hs_released := remove1 fd (hs_released ?s)\<rparr>)"
      by (intro fd_given.fd_back) (simp add: bh_reset_def Let_def bh_put_def fd_close_def)
    moreover have "bh_reset h fd s1 = bh_put h fd (?s\<lparr>hs_released := remove1 fd (hs_released ?s)\<rparr>)"
      using fd_back assms(2) by (simp add: bh_reset_def Let_def bh_put_def fd_close_def bh_get_def)
    ultimately show ?thesis by blast
  qed
  with bh_put_gain [of ?s fd _ h] handle_clear_inv [OF assms(1,2)] show ?thesis by (auto simp: holds_none_def)
qed

lemma bh_swap_inv:
  assumes "handles_inv s" "hs_id s h = Some fd" "hs_id s g = Some fe"
  shows "handles_inv (bh_swap h g s)"
  using fds_swap [of "hs_id s" _ "hs_opened s" g fe h fd] assms by (simp add: handles_inv_def bh_swap_def bh_put_def bh_get_def)

lemma bh_move_inv:
  assumes "handles_inv s" "hs_id s h = None" "hs_id s g = Some fd"
  shows "handles_inv (bh_move h g s)"
proof -
  have "h \<noteq> g" using assms by auto
  with assms fds_move [of "hs_id s" _ "hs_opened s" g fd h] show ?thesis by (simp add: handles_inv_def bh_move_def bh_put_def bh_get_def holds_none_def)
qed

lemma bh_move_assign_inv:
  assumes "handles_inv s" "hs_id s h = Some fd" "hs_id s g = Some fe"
  shows "handles_inv (bh_move_assign h g s)"
  unfolding bh_move_assign_def
  by (rule bh_swap_inv [of _ _ invalid_fd _ "if g = h then invalid_fd else fe"]) (use assms handle_clear_inv [OF assms(1,2)] in auto)

lemma bh_release_inv:
  assumes "handles_inv s" "hs_id s h = Some fd" "bh_release h s = (x, s1)"
  shows "handles_inv (if x = invalid_fd then s1 else s1\<lparr>hs_released := hs_released s1 @ [x]\<rparr>)"
proof (cases "fd = invalid_fd")
  case True
  with assms show ?thesis by (auto simp: bh_release_def bh_get_some holds_none_def intro: bh_put_invalid)
next
  case False
  have "fds_ok ((hs_id s)(h := Some invalid_fd)) (hs_closed s @ hs_released s @ [fd]) (hs_opened s)"
    by (rule fds_lose [of "hs_id s" "hs_closed s @ hs_released s"]) (use assms(1,2) False in \<open>auto simp: handles_inv_def holds_none_def\<close>)
  moreover have "x = fd" "s1 = bh_put h invalid_fd s" using assms(2,3) by (auto simp: bh_release_def bh_get_some)
  ultimately show ?thesis using False by (simp add: handles_inv_def bh_put_def)
qed

lemma bh_destroy_inv:
  assumes "handles_inv s" "hs_id s h = Some fd"
  shows "handles_inv (bh_destroy h s)"
proof (cases "fd = invalid_fd")
  case True
  with assms fds_keep [of "hs_id s" _ "hs_opened s" h None] show ?thesis
    by (simp add: bh_destroy_def bh_get_some Let_def handles_inv_def holds_none_def)
next
  case False
  with assms fds_lose [of "hs_id s" "hs_closed s @ hs_released s" "hs_opened s" h fd None "(hs_closed s @ [fd]) @ hs_released s"] show ?thesis
    by (auto simp: bh_destroy_def bh_get_some Let_def handles_inv_def fd_close_def holds_none_def)
qed

lemma handle_step_inv: "handle_step s s' \<Longrightarrow> handles_inv s \<Longrightarrow> handles_inv s'"
proof (induction rule: handle_step.induct)
  case (8 s h fd s1)
  then show ?case using bh_release_inv [of s h _ fd s1] by auto
qed (auto intro: bh_put_gain bh_put_invalid bh_move_inv bh_move_assign_inv bh_swap_inv handle_clear_inv(1) bh_reset_given bh_destroy_inv
  simp: holds_none_def)

lemma handle_reach_inv: "handle_step\<^sup>*\<^sup>* handles_new s \<Longrightarrow> handles_inv s"
  by (induction rule: rtranclp_induct) (auto intro: handles_new_inv handle_step_inv)

text \<open>C21: As long as handles are only given descriptors that the caller owns, new ones or ones released before, every descriptor that was opened is in exactly one
  handle, or was closed exactly once, or is released, and never two of these, whatever sequence of constructions, moves, assignments, swaps, resets, releases and
  destructions. When all handles are gone or empty, every descriptor was closed or is released.\<close>

theorem handles_close_once:
  assumes "handle_step\<^sup>*\<^sup>* handles_new s"
  shows "(\<forall>fd. 0 \<le> fd \<and> fd < int (hs_opened s) \<longrightarrow>
      (if fd \<in> set (hs_closed s @ hs_released s) then count_list (hs_closed s @ hs_released s) fd = 1 \<and> (\<forall>h. hs_id s h \<noteq> Some fd) else \<exists>!h. hs_id s h = Some fd)) \<and>
    ((\<forall>h. hs_id s h = None \<or> bh_empty h s) \<longrightarrow> set (hs_closed s @ hs_released s) = int ` {..<hs_opened s})"
proof -
  let ?l = "hs_closed s @ hs_released s"
  have inv: "one_owner (hs_id s)" "distinct ?l" "fd_owned (hs_id s) \<inter> set ?l = {}" "fd_owned (hs_id s) \<union> set ?l = int ` {..<hs_opened s}"
    using handle_reach_inv [OF assms] by (simp_all add: handles_inv_def fds_ok_def)
  have 1: "if fd \<in> set ?l then count_list ?l fd = 1 \<and> (\<forall>h. hs_id s h \<noteq> Some fd) else \<exists>!h. hs_id s h = Some fd" if fd: "0 \<le> fd" "fd < int (hs_opened s)" for fd
  proof -
    have "fd \<noteq> invalid_fd" using fd by (simp add: invalid_fd_def)
    then have o: "fd \<in> fd_owned (hs_id s) \<longleftrightarrow> (\<exists>h. hs_id s h = Some fd)" by (simp add: fd_owned_def)
    have i: "fd \<in> fd_owned (hs_id s) \<union> set ?l" unfolding inv(4) using fd by (intro image_eqI [of _ _ "nat fd"]) auto
    show ?thesis
    proof (cases "fd \<in> set ?l")
      case True
      then have "fd \<notin> fd_owned (hs_id s)" using inv(3) by blast
      with o True inv(2) show ?thesis by (simp add: count_distinct del: set_append count_list_append)
    next
      case False
      then obtain h where "hs_id s h = Some fd" using i o by blast
      with False inv(1) \<open>fd \<noteq> invalid_fd\<close> show ?thesis unfolding one_owner_def by auto
    qed
  qed
  have 2: "set ?l = int ` {..<hs_opened s}" if e: "\<forall>h. hs_id s h = None \<or> bh_empty h s"
  proof -
    have "fd = invalid_fd" if "hs_id s h = Some fd" for h fd using e that by (auto simp: bh_empty_def bh_get_def dest: spec [of _ h])
    then have "fd_owned (hs_id s) = {}" by (auto simp: fd_owned_def)
    with inv(4) show ?thesis by simp
  qed
  from 1 2 show ?thesis by blast
qed

theorem handles_close_once_witness: "set (hs_closed (bh_destroy 7 (bh_put 7 0 (snd (fd_open handles_new))))) = int ` {..<1}"
proof -
  let ?s = "bh_put 7 0 (snd (fd_open handles_new))"
  have "handle_step handles_new ?s" by (rule handle_step.intros(2)) (simp_all add: handles_new_def fd_open_def fd_given.simps)
  moreover have "handle_step ?s (bh_destroy 7 ?s)" by (rule handle_step.intros) (simp add: bh_put_def)
  ultimately have r: "handle_step\<^sup>*\<^sup>* handles_new (bh_destroy 7 ?s)" by (meson converse_rtranclp_into_rtranclp r_into_rtranclp)
  have "\<forall>h. hs_id (bh_destroy 7 ?s) h = None" "hs_released (bh_destroy 7 ?s) = []" "hs_opened (bh_destroy 7 ?s) = 1"
    by (simp_all add: bh_destroy_def bh_put_def bh_get_def fd_close_def Let_def handles_new_def fd_open_def)
  with handles_close_once [OF r] show ?thesis by simp
qed

text \<open>
  What the condition leaves out. Resetting a handle to its own descriptor closes it and keeps it, so that it is closed again later; and a descriptor that is given to
  a second handle is closed by both.
\<close>

lemma reset_to_itself: "hs_id s h = Some fd \<Longrightarrow> fd \<noteq> invalid_fd \<Longrightarrow> fd \<in> set (hs_closed (bh_reset h (bh_get h s) s)) \<and> bh_get h (bh_reset h (bh_get h s) s) = fd"
  by (simp add: bh_reset_def bh_get_def bh_put_def fd_close_def Let_def)

lemma shared_descriptor_closed_twice:
  assumes "hs_id s h = Some fd" "hs_id s g = None" "fd \<noteq> invalid_fd"
  shows "hs_closed (bh_destroy h (bh_destroy g (bh_put g fd s))) = hs_closed s @ [fd, fd]"
proof -
  have "g \<noteq> h" using assms by auto
  with assms show ?thesis by (simp add: bh_destroy_def bh_put_def bh_get_def fd_close_def Let_def)
qed

end
