(* ===== verification/Generators.thy ===== *)
theory Generators
  imports Prelude
begin

text \<open>
  The recursive generators of \<open>util/Generator.hpp\<close>: coroutines whose promises are linked through \<open>root_\<close>, \<open>leaf_\<close> and \<open>parent_\<close>, against the sequence that
  their bodies describe.
\<close>

subsection \<open>Bodies\<close>

text \<open>
  What a coroutine does: return, throw, yield a value, or yield a whole generator (which may be empty) and go on with the second body, or with the third if that
  generator throws. A body that does not catch has \<open>GThrow\<close> there.
\<close>

datatype 'v gbody = GReturn | GThrow | GYield 'v "'v gbody" | GAll "'v gbody option" "'v gbody" "'v gbody"

text \<open>The values of a body, and whether it ends with an exception.\<close>

fun gen_vals :: "'v gbody \<Rightarrow> 'v list \<times> bool" where
  "gen_vals GReturn = ([], False)"
| "gen_vals GThrow = ([], True)"
| "gen_vals (GYield v k) = (case gen_vals k of (vs, e) \<Rightarrow> (v # vs, e))"
| "gen_vals (GAll None k h) = gen_vals k"
| "gen_vals (GAll (Some g) k h) = (case gen_vals g of (vs, e) \<Rightarrow> (case gen_vals (if e then h else k) of (us, e') \<Rightarrow> (vs @ us, e')))"

subsection \<open>Promises\<close>

text \<open>
  A promise with the rest of the body of its coroutine. \<open>gf_link\<close> is the union of \<open>root_\<close> and \<open>leaf_\<close>. \<open>gf_wait\<close> and \<open>gf_caught\<close> belong to the awaiter in the
  frame: the two ways to go on, and its \<open>exception_\<close>, to which \<open>gf_exc\<close> of the nested promise points.
\<close>

record 'v gframe =
  gf_body :: "'v gbody"
  gf_wait :: "'v gbody \<times> 'v gbody"
  gf_link :: nat
  gf_parent :: "nat option"
  gf_exc :: "nat option"
  gf_caught :: bool
  gf_value :: "'v option"
  gf_done :: bool

record 'v gstate =
  gs_frames :: "nat \<Rightarrow> 'v gframe"
  gs_next :: nat

abbreviation fr_at :: "'v gstate \<Rightarrow> nat \<Rightarrow> 'v gframe" where
  "fr_at s c \<equiv> gs_frames s c"

definition gupd :: "nat \<Rightarrow> ('v gframe \<Rightarrow> 'v gframe) \<Rightarrow> 'v gstate \<Rightarrow> 'v gstate" where
  "gupd c f s = s\<lparr>gs_frames := (gs_frames s)(c := f (gs_frames s c))\<rparr>"

definition no_frame :: "'v gframe" where
  "no_frame = \<lparr>gf_body = GReturn, gf_wait = (GReturn, GReturn), gf_link = 0, gf_parent = None, gf_exc = None, gf_caught = False, gf_value = None, gf_done = True\<rparr>"

text \<open>A new coroutine, suspended at its start: \<open>root_\<close> is itself.\<close>

definition gen_create :: "'v gbody \<Rightarrow> 'v gstate \<Rightarrow> nat \<times> 'v gstate" where
  "gen_create b s =
     (let n = gs_next s in
      (n, s\<lparr>gs_frames := (gs_frames s)(n := \<lparr>gf_body = b, gf_wait = (GReturn, GReturn), gf_link = n, gf_parent = None, gf_exc = None, gf_caught = False,
         gf_value = None, gf_done = False\<rparr>), gs_next := n + 1\<rparr>))"

definition yield_value :: "nat \<Rightarrow> 'v \<Rightarrow> 'v gstate \<Rightarrow> 'v gstate" where
  "yield_value c v s = gupd (gf_link (fr_at s c)) (\<lambda>f. f\<lparr>gf_value := Some v\<rparr>) s"

text \<open>Awaiting the generator \<open>n\<close> in the coroutine \<open>c\<close>, which goes on with \<open>k\<close> or \<open>h\<close>.\<close>

definition yield_suspend :: "nat \<Rightarrow> nat \<Rightarrow> 'v gbody \<Rightarrow> 'v gbody \<Rightarrow> 'v gstate \<Rightarrow> 'v gstate" where
  "yield_suspend c n k h s =
     (let s1 = gupd c (\<lambda>f. f\<lparr>gf_wait := (k, h), gf_caught := False\<rparr>) s;
          root = gf_link (fr_at s1 c);
          s2 = gupd n (\<lambda>f. f\<lparr>gf_link := root\<rparr>) s1;
          s3 = gupd root (\<lambda>f. f\<lparr>gf_link := n\<rparr>) s2
      in gupd n (\<lambda>f. f\<lparr>gf_parent := Some c, gf_exc := Some c\<rparr>) s3)"

definition await_resume :: "nat \<Rightarrow> 'v gstate \<Rightarrow> 'v gstate" where
  "await_resume c s = gupd c (\<lambda>f. f\<lparr>gf_body := (if gf_caught f then snd (gf_wait f) else fst (gf_wait f))\<rparr>) s"

text \<open>\<open>final_suspend\<close>: the parent to which control goes back, if there is one.\<close>

definition final_suspend :: "nat \<Rightarrow> 'v gstate \<Rightarrow> nat option \<times> 'v gstate" where
  "final_suspend c s =
     (let s1 = gupd c (\<lambda>f. f\<lparr>gf_done := True\<rparr>) s in
      case gf_parent (fr_at s1 c) of
        None \<Rightarrow> (None, s1)
      | Some p \<Rightarrow> (Some p, gupd (gf_link (fr_at s1 c)) (\<lambda>f. f\<lparr>gf_link := p\<rparr>) s1))"

text \<open>\<open>unhandled_exception\<close>: whether the exception leaves the coroutine; then it is at its end.\<close>

definition unhandled_exception :: "nat \<Rightarrow> 'v gstate \<Rightarrow> bool \<times> 'v gstate" where
  "unhandled_exception c s = (case gf_exc (fr_at s c) of
     None \<Rightarrow> (True, gupd c (\<lambda>f. f\<lparr>gf_done := True\<rparr>) s)
   | Some q \<Rightarrow> (False, gupd q (\<lambda>f. f\<lparr>gf_caught := True\<rparr>) s))"

text \<open>The run of a coroutine, and of those it transfers control to, until control returns to the caller; \<open>True\<close> if with an exception.\<close>

partial_function (option) gen_run :: "nat \<Rightarrow> 'v gstate \<Rightarrow> (bool \<times> 'v gstate) option" where
  "gen_run c s = (case gf_body (fr_at s c) of
     GYield v k \<Rightarrow> Some (False, yield_value c v (gupd c (\<lambda>f. f\<lparr>gf_body := k\<rparr>) s))
   | GAll None k h \<Rightarrow> gen_run c (gupd c (\<lambda>f. f\<lparr>gf_body := k\<rparr>) s)
   | GAll (Some g) k h \<Rightarrow> (case gen_create g s of (n, s1) \<Rightarrow> gen_run n (yield_suspend c n k h s1))
   | GReturn \<Rightarrow> (case final_suspend c s of
         (None, s1) \<Rightarrow> Some (False, s1)
       | (Some p, s1) \<Rightarrow> gen_run p (await_resume p s1))
   | GThrow \<Rightarrow> (case unhandled_exception c s of (leaves, s1) \<Rightarrow>
         if leaves then Some (True, s1)
         else (case final_suspend c s1 of
           (None, s2) \<Rightarrow> Some (False, s2)
         | (Some p, s2) \<Rightarrow> gen_run p (await_resume p s2))))"

text \<open>The iterator: \<open>begin\<close>, \<open>operator++\<close>, \<open>operator*\<close> and the comparison with the end; and the loop over a generator, with its values so far.\<close>

definition gen_begin :: "nat \<Rightarrow> 'v gstate \<Rightarrow> (bool \<times> 'v gstate) option" where
  "gen_begin r s = gen_run r s"

definition gen_next :: "nat \<Rightarrow> 'v gstate \<Rightarrow> (bool \<times> 'v gstate) option" where
  "gen_next r s = gen_run (gf_link (fr_at s r)) s"

definition gen_at_end :: "nat \<Rightarrow> 'v gstate \<Rightarrow> bool" where
  "gen_at_end r s \<longleftrightarrow> gf_done (fr_at s r)"

definition gen_deref :: "nat \<Rightarrow> 'v gstate \<Rightarrow> 'v option" where
  "gen_deref r s = gf_value (fr_at s r)"

partial_function (option) gen_loop :: "nat \<Rightarrow> 'v list \<Rightarrow> 'v gstate \<Rightarrow> ('v list \<times> bool) option" where
  "gen_loop r vs s =
     (if gen_at_end r s then Some (vs, False)
      else (case gen_deref r s of
        None \<Rightarrow> None
      | Some v \<Rightarrow> (case gen_next r s of
          None \<Rightarrow> None
        | Some (thrown, s1) \<Rightarrow> if thrown then Some (vs @ [v], True) else gen_loop r (vs @ [v]) s1)))"

definition gen_for_each :: "'v gbody \<Rightarrow> ('v list \<times> bool) option" where
  "gen_for_each b =
     (case gen_create b \<lparr>gs_frames = (\<lambda>_. no_frame), gs_next = 0\<rparr> of (r, s) \<Rightarrow>
        (case gen_begin r s of
           None \<Rightarrow> None
         | Some (thrown, s1) \<Rightarrow> if thrown then Some ([], True) else gen_loop r [] s1))"

subsection \<open>The stack of coroutines\<close>

text \<open>The values of a running coroutine and of those that wait for it.\<close>

fun gen_stack :: "'v gbody \<Rightarrow> ('v gbody \<times> 'v gbody) list \<Rightarrow> 'v list \<times> bool" where
  "gen_stack b [] = gen_vals b"
| "gen_stack b ((k, h) # ws) = (case gen_vals b of (vs, e) \<Rightarrow> (case gen_stack (if e then h else k) ws of (us, e') \<Rightarrow> (vs @ us, e')))"

fun gen_weight :: "'v gbody \<Rightarrow> ('v gbody \<times> 'v gbody) list \<Rightarrow> nat" where
  "gen_weight b [] = size b"
| "gen_weight b ((k, h) # ws) = size b + gen_weight k ws + size h + 1"

text \<open>From the coroutine \<open>c\<close> to the root \<open>r\<close>.\<close>

fun gchain :: "'v gstate \<Rightarrow> nat \<Rightarrow> nat \<Rightarrow> ('v gbody \<times> 'v gbody) list \<Rightarrow> bool" where
  "gchain s r c [] \<longleftrightarrow> c = r \<and> gf_parent (fr_at s c) = None \<and> gf_exc (fr_at s c) = None"
| "gchain s r c (w # ws) \<longleftrightarrow> c \<noteq> r \<and> gf_link (fr_at s c) = r \<and> (\<exists>p < c. gf_parent (fr_at s c) = Some p \<and> gf_exc (fr_at s c) = Some p \<and>
     gf_wait (fr_at s p) = w \<and> \<not> gf_caught (fr_at s p) \<and> gchain s r p ws)"

definition gen_inv :: "'v gstate \<Rightarrow> nat \<Rightarrow> nat \<Rightarrow> 'v gbody \<Rightarrow> ('v gbody \<times> 'v gbody) list \<Rightarrow> bool" where
  "gen_inv s r c b ws \<longleftrightarrow> gchain s r c ws \<and> c < gs_next s \<and> r \<le> c \<and> gf_body (fr_at s c) = b \<and> gf_link (fr_at s r) = c \<and> \<not> gf_done (fr_at s r)"

lemma gupd_simps [simp]: "fr_at (gupd c f s) d = (if d = c then f (fr_at s c) else fr_at s d)" "gs_next (gupd c f s) = gs_next s"
  by (simp_all add: gupd_def)

lemma gchain_cong:
  "gchain s r c ws \<Longrightarrow>
     (\<And>d. d \<le> c \<Longrightarrow> gf_parent (fr_at s' d) = gf_parent (fr_at s d) \<and> gf_exc (fr_at s' d) = gf_exc (fr_at s d) \<and> (d \<noteq> r \<longrightarrow> gf_link (fr_at s' d) = gf_link (fr_at s d))) \<Longrightarrow>
     (\<And>d. d < c \<Longrightarrow> gf_wait (fr_at s' d) = gf_wait (fr_at s d) \<and> gf_caught (fr_at s' d) = gf_caught (fr_at s d)) \<Longrightarrow> gchain s' r c ws"
proof (induction ws arbitrary: c)
  case (Cons w ws)
  from Cons.prems(1) obtain p where p: "c \<noteq> r" "gf_link (fr_at s c) = r" "p < c" "gf_parent (fr_at s c) = Some p" "gf_exc (fr_at s c) = Some p"
    "gf_wait (fr_at s p) = w" "\<not> gf_caught (fr_at s p)" "gchain s r p ws" by auto
  have "gchain s' r p ws" using p(3,8) Cons.prems by (intro Cons.IH) auto
  with p Cons.prems(2,3) show ?case by auto
qed simp

lemma gchain_root: "gchain s r c ws \<Longrightarrow> r \<le> c"
proof (induction ws arbitrary: c)
  case (Cons w ws)
  then show ?case by (metis gchain.simps(2) less_imp_le order_trans)
qed simp

text \<open>The running coroutine's \<open>root_\<close> is the root, also in the root itself.\<close>

lemma gen_inv_link: "gen_inv s r c b ws \<Longrightarrow> gf_link (fr_at s c) = r"
  by (cases ws) (auto simp: gen_inv_def)

text \<open>One lemma for each way a coroutine gives up control.\<close>

lemma inv_yield:
  assumes "gen_inv s r c (GYield v k) ws"
  defines "s' \<equiv> yield_value c v (gupd c (\<lambda>f. f\<lparr>gf_body := k\<rparr>) s)"
  shows "gen_inv s' r c k ws" "gen_deref r s' = Some v"
proof -
  have l: "gf_link (fr_at s c) = r" using gen_inv_link assms(1) .
  have "gchain s' r c ws" by (rule gchain_cong [of s]) (use assms(1) in \<open>auto simp: gen_inv_def s'_def yield_value_def\<close>)
  then show "gen_inv s' r c k ws" using assms(1) l by (auto simp: gen_inv_def s'_def yield_value_def)
  show "gen_deref r s' = Some v" using l by (simp add: gen_deref_def s'_def yield_value_def)
qed

lemma inv_skip:
  assumes "gen_inv s r c (GAll None k h) ws"
  shows "gen_inv (gupd c (\<lambda>f. f\<lparr>gf_body := k\<rparr>) s) r c k ws"
proof -
  have "gchain (gupd c (\<lambda>f. f\<lparr>gf_body := k\<rparr>) s) r c ws" by (rule gchain_cong [of s]) (use assms in \<open>auto simp: gen_inv_def\<close>)
  with assms show ?thesis by (auto simp: gen_inv_def)
qed

lemma inv_nested:
  assumes "gen_inv s r c (GAll (Some g) k h) ws" "gen_create g s = (n, s1)"
  shows "gen_inv (yield_suspend c n k h s1) r n g ((k, h) # ws)"
proof -
  have l: "gf_link (fr_at s c) = r" using gen_inv_link assms(1) .
  have n: "n = gs_next s" "gs_next s1 = n + 1" "\<And>d. d \<noteq> n \<Longrightarrow> fr_at s1 d = fr_at s d" "gf_body (fr_at s1 n) = g"
    using assms(2) by (auto simp: gen_create_def Let_def)
  have c: "c < n" "r < n" "r \<le> c" using assms(1) n by (auto simp: gen_inv_def)
  let ?t = "yield_suspend c n k h s1"
  have "gchain ?t r c ws"
    by (rule gchain_cong [of s]) (use assms(1) n c l in \<open>auto simp: gen_inv_def yield_suspend_def Let_def\<close>)
  moreover have "gf_link (fr_at ?t n) = r" "gf_parent (fr_at ?t n) = Some c" "gf_exc (fr_at ?t n) = Some c" "gf_wait (fr_at ?t c) = (k, h)"
    "\<not> gf_caught (fr_at ?t c)" "gf_body (fr_at ?t n) = g" "gf_link (fr_at ?t r) = n" "gf_done (fr_at ?t r) = gf_done (fr_at s r)" "gs_next ?t = n + 1"
    using n c l by (auto simp: yield_suspend_def Let_def)
  ultimately show ?thesis using assms(1) c by (auto simp: gen_inv_def)
qed

lemma inv_return:
  assumes "gen_inv s r c b ((k, h) # ws)" "b = GReturn"
  obtains p s1 where "final_suspend c s = (Some p, s1)" "gen_inv (await_resume p s1) r p k ws"
proof -
  obtain p where p: "c \<noteq> r" "gf_link (fr_at s c) = r" "p < c" "gf_parent (fr_at s c) = Some p" "gf_wait (fr_at s p) = (k, h)" "\<not> gf_caught (fr_at s p)" "gchain s r p ws"
    using assms(1) by (auto simp: gen_inv_def)
  define s1 where "s1 = gupd r (\<lambda>f. f\<lparr>gf_link := p\<rparr>) (gupd c (\<lambda>f. f\<lparr>gf_done := True\<rparr>) s)"
  have f: "final_suspend c s = (Some p, s1)" using p by (simp add: final_suspend_def Let_def s1_def)
  have "gchain (await_resume p s1) r p ws" by (rule gchain_cong [OF p(7)]) (use p in \<open>auto simp: s1_def await_resume_def\<close>)
  then have "gen_inv (await_resume p s1) r p k ws" using p assms(1) gchain_root [OF p(7)] by (auto simp: gen_inv_def s1_def await_resume_def)
  with f show ?thesis by (rule that)
qed

lemma inv_throw:
  assumes "gen_inv s r c b ((k, h) # ws)" "b = GThrow"
  obtains p s1 s2 where "unhandled_exception c s = (False, s1)" "final_suspend c s1 = (Some p, s2)" "gen_inv (await_resume p s2) r p h ws"
proof -
  obtain p where p: "c \<noteq> r" "gf_link (fr_at s c) = r" "p < c" "gf_parent (fr_at s c) = Some p" "gf_exc (fr_at s c) = Some p" "gf_wait (fr_at s p) = (k, h)" "gchain s r p ws"
    using assms(1) by (auto simp: gen_inv_def)
  define s1 where "s1 = gupd p (\<lambda>f. f\<lparr>gf_caught := True\<rparr>) s"
  define s2 where "s2 = gupd r (\<lambda>f. f\<lparr>gf_link := p\<rparr>) (gupd c (\<lambda>f. f\<lparr>gf_done := True\<rparr>) s1)"
  have f: "unhandled_exception c s = (False, s1)" "final_suspend c s1 = (Some p, s2)" using p by (simp_all add: unhandled_exception_def final_suspend_def Let_def s1_def s2_def)
  have "gchain (await_resume p s2) r p ws" by (rule gchain_cong [OF p(7)]) (use p in \<open>auto simp: s1_def s2_def await_resume_def\<close>)
  then have "gen_inv (await_resume p s2) r p h ws" using p assms(1) gchain_root [OF p(7)] by (auto simp: gen_inv_def s1_def s2_def await_resume_def)
  with f show ?thesis by (rule that)
qed

lemma weight_decreases: "gen_weight k ws < gen_weight b ((k, h) # ws)" "gen_weight h ws < gen_weight b ((k, h) # ws)"
proof -
  have "gen_weight x ws \<le> gen_weight y ws + size x" for x y :: "'a gbody" by (cases ws) auto
  then show "gen_weight k ws < gen_weight b ((k, h) # ws)" "gen_weight h ws < gen_weight b ((k, h) # ws)"
    by (auto simp: less_Suc_eq_le intro: le_add1 order_trans [of _ "gen_weight k ws + size h"])
qed

text \<open>A run ends at the next value, at the end, or with the exception that nobody catches.\<close>

lemma gen_run_stack:
  "gen_inv s r c b ws \<Longrightarrow> (case gen_stack b ws of
     (v # vs, e) \<Rightarrow> \<exists>s' c' b' ws'. gen_run c s = Some (False, s') \<and> gen_inv s' r c' b' ws' \<and> gen_deref r s' = Some v \<and> gen_stack b' ws' = (vs, e)
   | ([], e) \<Rightarrow> \<exists>s'. gen_run c s = Some (e, s') \<and> gen_at_end r s')"
proof (induction "gen_weight b ws" arbitrary: s c b ws rule: less_induct)
  case less
  have body: "gf_body (fr_at s c) = b" using less.prems by (simp add: gen_inv_def)
  show ?case
  proof (cases b)
    case GReturn
    show ?thesis
    proof (cases ws)
      case Nil
      with less.prems GReturn body show ?thesis
        by (subst gen_run.simps) (auto simp: gen_inv_def final_suspend_def gen_at_end_def Let_def)
    next
      case (Cons w ws')
      obtain k h where w: "w = (k, h)" by (cases w)
      obtain p s1 where f: "final_suspend c s = (Some p, s1)" "gen_inv (await_resume p s1) r p k ws'"
        using inv_return [OF less.prems [unfolded Cons w] GReturn] by blast
      have r: "gen_run c s = gen_run p (await_resume p s1)" using body GReturn f(1) by (subst gen_run.simps) simp
      have e: "gen_stack b ws = gen_stack k ws'" by (simp add: Cons w GReturn split: prod.split)
      have "gen_weight k ws' < gen_weight b ws" unfolding Cons w by (rule weight_decreases)
      then show ?thesis unfolding r e by (rule less.hyps [OF _ f(2)])
    qed
  next
    case GThrow
    show ?thesis
    proof (cases ws)
      case Nil
      with less.prems GThrow body show ?thesis
        by (subst gen_run.simps) (auto simp: gen_inv_def unhandled_exception_def gen_at_end_def Let_def)
    next
      case (Cons w ws')
      obtain k h where w: "w = (k, h)" by (cases w)
      obtain p s1 s2 where f: "unhandled_exception c s = (False, s1)" "final_suspend c s1 = (Some p, s2)" "gen_inv (await_resume p s2) r p h ws'"
        using inv_throw [OF less.prems [unfolded Cons w] GThrow] by blast
      have r: "gen_run c s = gen_run p (await_resume p s2)" using body GThrow f(1,2) by (subst gen_run.simps) simp
      have e: "gen_stack b ws = gen_stack h ws'" by (simp add: Cons w GThrow split: prod.split)
      have "gen_weight h ws' < gen_weight b ws" unfolding Cons w by (rule weight_decreases)
      then show ?thesis unfolding r e by (rule less.hyps [OF _ f(3)])
    qed
  next
    case (GYield v k)
    have i: "gen_inv s r c (GYield v k) ws" using less.prems GYield by simp
    have "gen_run c s = Some (False, yield_value c v (gupd c (\<lambda>f. f\<lparr>gf_body := k\<rparr>) s))" using body GYield by (subst gen_run.simps) simp
    moreover obtain vs e where ve: "gen_stack k ws = (vs, e)" by (cases "gen_stack k ws")
    moreover have "gen_stack b ws = (v # vs, e)" using ve by (cases ws) (auto simp: GYield split: prod.splits)
    ultimately show ?thesis using inv_yield [OF i] by auto
  next
    case (GAll og k h)
    show ?thesis
    proof (cases og)
      case None
      have i: "gen_inv s r c (GAll None k h) ws" using less.prems GAll None by simp
      have r: "gen_run c s = gen_run c (gupd c (\<lambda>f. f\<lparr>gf_body := k\<rparr>) s)" using body GAll None by (subst gen_run.simps) simp
      have e: "gen_stack b ws = gen_stack k ws" by (cases ws) (auto simp: GAll None)
      have "gen_weight k ws < gen_weight b ws" by (cases ws) (auto simp: GAll None)
      then show ?thesis unfolding r e by (rule less.hyps [OF _ inv_skip [OF i]])
    next
      case (Some g)
      have i: "gen_inv s r c (GAll (Some g) k h) ws" using less.prems GAll Some by simp
      obtain n s1 where cr: "gen_create g s = (n, s1)" by (cases "gen_create g s")
      have r: "gen_run c s = gen_run n (yield_suspend c n k h s1)" using body GAll Some cr by (subst gen_run.simps) simp
      have e: "gen_stack b ws = gen_stack g ((k, h) # ws)"
        by (cases ws) (auto simp: GAll Some split: prod.splits)
      have "gen_weight g ((k, h) # ws) < gen_weight b ws" by (cases ws) (auto simp: GAll Some)
      then show ?thesis unfolding r e by (rule less.hyps [OF _ inv_nested [OF i cr]])
    qed
  qed
qed

lemma gen_loop_stack:
  "gen_inv s r c b ws \<Longrightarrow> gen_deref r s = Some v \<Longrightarrow> gen_stack b ws = (vs, e) \<Longrightarrow> gen_loop r us s = Some (us @ v # vs, e)"
proof (induction vs arbitrary: s c b ws v us)
  case Nil
  have l: "gen_next r s = gen_run c s" "\<not> gen_at_end r s" using Nil.prems(1) by (auto simp: gen_inv_def gen_next_def gen_at_end_def)
  obtain s' where "gen_run c s = Some (e, s')" "gen_at_end r s'" using gen_run_stack [OF Nil.prems(1)] Nil.prems(3) by auto
  then show ?case using l Nil.prems(2) by (subst gen_loop.simps) (simp add: gen_loop.simps [of _ _ s'])
next
  case (Cons x vs)
  have l: "gen_next r s = gen_run c s" "\<not> gen_at_end r s" using Cons.prems(1) by (auto simp: gen_inv_def gen_next_def gen_at_end_def)
  obtain s' c' b' ws' where n: "gen_run c s = Some (False, s')" "gen_inv s' r c' b' ws'" "gen_deref r s' = Some x" "gen_stack b' ws' = (vs, e)"
    using gen_run_stack [OF Cons.prems(1)] Cons.prems(3) by auto
  from Cons.IH [OF n(2,3,4), of "us @ [v]"] show ?case using l n(1) Cons.prems(2) by (subst gen_loop.simps) simp
qed

text \<open>C24: Iterating over a generator ends, and gives the values of its body with those of nested generators in their place, in order, and the exception with
  which it ends, however deep generators are nested and wherever exceptions are thrown and caught.\<close>

theorem generator_flattens: "gen_for_each b = Some (gen_vals b)"
proof -
  obtain r s where c: "gen_create b \<lparr>gs_frames = (\<lambda>_. no_frame), gs_next = 0\<rparr> = (r, s)" by (cases "gen_create b \<lparr>gs_frames = (\<lambda>_. no_frame), gs_next = 0\<rparr>")
  then have i: "gen_inv s r r b []" by (auto simp: gen_create_def Let_def gen_inv_def)
  obtain vs e where v: "gen_vals b = (vs, e)" by (cases "gen_vals b")
  show ?thesis
  proof (cases vs)
    case Nil
    with gen_run_stack [OF i] v obtain s' where "gen_run r s = Some (e, s')" "gen_at_end r s'" by auto
    with c v Nil show ?thesis by (simp add: gen_for_each_def gen_begin_def gen_loop.simps [of _ _ s'])
  next
    case (Cons x xs)
    with gen_run_stack [OF i] v obtain s' c' b' ws' where "gen_run r s = Some (False, s')" "gen_inv s' r c' b' ws'" "gen_deref r s' = Some x" "gen_stack b' ws' = (xs, e)" by auto
    with gen_loop_stack [of s' r c' b' ws' x xs e "[]"] c v Cons show ?thesis by (simp add: gen_for_each_def gen_begin_def)
  qed
qed

end
