(* ===== verification/Spec2Isabelle.thy ===== *)
theory Spec2Isabelle
  imports Numeric RingBuffer MagicRing MpmcQueue MpmcThreads Timers Polling Reactors Buffers Histograms HdrIterators Times Values Signals Commands
    Configs RateLimits HttpServs HttpClnts SocketPolls JsonCompares Packets Statistics RefCounts IntWrappers Logs Pools Handles Generators
begin

text \<open>
  A verification library for \<open>src/toolbox\<close>, a C++ library for low-latency servers: a reactor over \<open>epoll\<close> with timers, byte buffers and
  ring buffers, a lock-free queue between threads, high dynamic range histograms, an HTTP server, and the utilities they share.
  Every definition is a translation of the function it is named after; paths below are relative to \<open>src/toolbox\<close>.

  \<^bold>\<open>How the parts fit together.\<close> The reactor (\<open>io/MultiReactor.hpp\<close>) runs cycles: it asks the two timer queues (\<open>io/Timer.hpp\<close>) for the
  next expiry, waits in the poller (\<open>io/Epoll.hpp\<close>) at most that long, dispatches timers and events to the slots of poll handles
  (\<open>io/Reactor.hpp\<close>), and calls hooks (\<open>io/Hook.hpp\<close>). An HTTP connection (\<open>http/Conn.hpp\<close>) is such a slot: it reads into a \<open>Buffer\<close>
  (\<open>io/Buffer.hpp\<close>), runs the parser over it, hands requests to the application, whose responses a stream (\<open>http/Stream.hpp\<close>) frames
  into the output buffer, and disposes itself through \<open>BasicDisposer\<close> (\<open>io/Disposer.hpp\<close>) when its idle timer fires. Configuration
  files and command lines are read with the string utilities of \<open>util/\<close>.

  \<^bold>\<open>Interfaces.\<close> The contracts between parts are locales, whose lemmas are proved once and interpreted on the model's definitions.
  \<open>Queues\<close> has \<open>bounded_queue\<close> (what any run of pushes and pops on a bounded queue does), interpreted by \<open>RingBuffer\<close> and \<open>MpmcQueue\<close>, and
  \<open>byte_stream\<close> (what any run of writes and reads does), interpreted by \<open>MagicRing\<close> and \<open>Buffers\<close>. \<open>Heaps\<close> has \<open>heap_algorithms\<close>, what
  \<open>std::push_heap\<close> and \<open>std::pop_heap\<close> promise to \<open>io/Timer.cpp\<close>. \<open>Numeric\<close> has \<open>byte_swap\<close>, and \<open>Values\<close> has \<open>comparable\<close>, the operators
  derived from a three-way comparison.

  \<^bold>\<open>Theories.\<close>

  \<^item> \<open>Prelude\<close>: integer types as words, the collections \<open>inv_intros\<close> and \<open>word_nat\<close>, lemmas on words and lists.
  \<^item> \<open>Numeric\<close>: \<open>util/Math.hpp\<close>, \<open>util/Bits.hpp\<close>, \<open>sys/Limits.hpp\<close>, \<open>net/Endian.hpp\<close>, digit counts of \<open>util/Utility.cpp\<close>. Words keep their
    width; undefined shifts are \<open>None\<close>.
  \<^item> \<open>RingBuffer\<close>: \<open>util/RingBuffer.hpp\<close>; positions are 64 bit words that wrap around.
  \<^item> \<open>MagicRing\<close>: \<open>ipc/MagicRingBuffer.hpp\<close> and \<open>ipc/Mmap.hpp\<close>; the mirrored mapping is a function from virtual to physical offsets.
  \<^item> \<open>MpmcQueue\<close> and \<open>MpmcThreads\<close>: \<open>ipc/MpmcQueue.hpp\<close>, first run by one thread, then as a step relation in which each atomic access of each
    thread is a step. Memory is sequentially consistent. Exactly-once delivery, exclusive slots and the refinement to the single-threaded
    queue are invariants by rule induction.
  \<^item> \<open>Timers\<close>: \<open>io/Timer.hpp\<close> and \<open>io/Timer.cpp\<close>: the pool is a store from addresses to entries with a free list, handles are counted,
    callbacks are scripts of operations on the queue that may depend on its state. Pool safety, heap order and dispatch. The model has the
    pool of one queue; the two queues of the reactor share a \<open>TimerPool\<close>, which this does not show.
  \<^item> \<open>Polling\<close>: \<open>io/Epoll.hpp\<close>, \<open>io/Epoll.cpp\<close> and the poll handles of \<open>io/Reactor.hpp\<close>, with the kernel's interest list explicit.
  \<^item> \<open>Reactors\<close>: \<open>io/MultiReactor.hpp\<close>, \<open>io/Hook.hpp\<close>, \<open>io/Disposer.hpp\<close>: the wait time, one cycle, hooks that unhook themselves, disposal.
  \<^item> \<open>Buffers\<close>: \<open>io/Buffer.hpp\<close>, \<open>io/Buffer.cpp\<close>, and the length-prefixed frames of \<open>net/Frame.hpp\<close>.
  \<^item> \<open>Histograms\<close> and \<open>HdrIterators\<close>: \<open>hdr/Histogram.cpp\<close>, \<open>hdr/Iterator.cpp\<close>, \<open>hdr/Utility.cpp\<close>. Signed 64 bit values are integers with the
    wrap-around written out; floating-point percentiles are rational numbers. The constructor counts its buckets before it checks its arguments,
    as in the code; initialisers that are undefined or never end are \<open>None\<close>.
  \<^item> \<open>Strings\<close>: \<open>util/String.hpp\<close>, \<open>util/String.cpp\<close>, \<open>util/Tokeniser.hpp\<close>, and \<open>ston\<close> and \<open>stob\<close> of \<open>util/Utility.hpp\<close>.
  \<^item> \<open>Dates\<close> and \<open>Times\<close>: \<open>sys/Date.hpp\<close>, \<open>sys/Time.hpp\<close>, \<open>sys/Time.cpp\<close>: calendar conversions against a reference calendar, time stamps.
  \<^item> \<open>Commands\<close>: \<open>util/Argv.cpp\<close>, \<open>util/Options.cpp\<close>: the lexer and the options parser against a specification over items.
  \<^item> \<open>VarSubs\<close> and \<open>Configs\<close>: \<open>util/VarSub.cpp\<close>, \<open>util/Config.cpp\<close>: substitution in place over templates, configuration files as sections of
    lines, for any text of a file; parent pointers are addresses in a store.
  \<^item> \<open>RateLimits\<close>: \<open>net/RateLimit.cpp\<close>: the sliding window against the sum over the recorded history.
  \<^item> \<open>Values\<close>: \<open>util/Compare.hpp\<close>, \<open>util/Version.hpp\<close>, \<open>util/StringBuf.hpp\<close>, \<open>util/Enum.hpp\<close>: three-way comparison as a locale, versions as
    a \<open>linorder\<close>, text of bounded size, bit masks as sets.
  \<^item> \<open>Signals\<close>: \<open>util/Slot.hpp\<close>: slots, signals with their handles, maps of one-shot slots.
  \<^item> \<open>HttpStreams\<close>: \<open>http/Stream.cpp\<close>, \<open>http/Request.hpp\<close>, the header callbacks of \<open>http/Parser.hpp\<close>; the stream writes into the \<open>Buffer\<close> of
    \<open>Buffers\<close> behind its committed bytes.
  \<^item> \<open>HttpConns\<close>: \<open>http/Conn.hpp\<close> as a state machine: events of the poller, the idle timer and the owner are its steps, socket results are
    scripted, and the disposer is that of \<open>Reactors\<close>. The slot for responses, which a server connection also has, is called where the code does
    and is assumed not to use the connection's streams.
  \<^item> \<open>HttpServs\<close>: \<open>http/Serv.hpp\<close>, \<open>net/StreamAcceptor.hpp\<close>: the server's list of these connections, through acceptance, their own events and
    the destructor.
  \<^item> \<open>Resolvers\<close>: \<open>net/Resolver.cpp\<close>, \<open>net/Runner.cpp\<close>: the queue of tasks with its futures as a step relation, in which any number of threads take
    batches of tasks, run and destroy them, while others resolve, clear and stop.
  \<^item> \<open>HttpClnts\<close>: \<open>http/Clnt.hpp\<close>, \<open>net/StreamConnector.hpp\<close>: the timer, the connector and the list of connections of a client over this resolver,
    whose own steps are interleaved with those of its threads.
  \<^item> \<open>Logs\<close>: \<open>util/Stream.hpp\<close>, \<open>sys/Log.hpp\<close>, \<open>sys/Log.cpp\<close>: streams of bounded size, levels, loggers and log statements, which share one buffer.
  \<^item> \<open>Pools\<close> and \<open>Handles\<close>: \<open>util/Pool.hpp\<close>, slabs and their free list by addresses; \<open>io/Handle.hpp\<close>, who closes a descriptor:
    handles are given new descriptors or ones that were released, and what happens with any other one is a lemma about its own.
  \<^item> \<open>Generators\<close>: \<open>util/Generator.hpp\<close>: promises in a store, linked as in the code; bodies of coroutines are a datatype, whose values are the specification.
  \<^item> \<open>RefCounts\<close>, \<open>IntWrappers\<close> and \<open>Statistics\<close>: \<open>util/RefCount.hpp\<close> as steps of threads, \<open>util/IntTypes.hpp\<close> at every width with promotion and
    undefined overflow, and the variance accumulator of \<open>util/Math.hpp\<close> over rational numbers.
  \<^item> \<open>Sockets\<close> and \<open>SocketPolls\<close>: \<open>io/Socket.hpp\<close>, \<open>io/DgramSocket.hpp\<close>: pending reads and writes of a socket, the queue of datagrams with its
    shared \<open>Buffer\<close>, and the events of the poller; handlers are functions from the state to the operations they call, results of the system
    calls are scripted. The first theory follows the data and the handlers, the second the interest that the poll handle has in the descriptor.
  \<^item> \<open>Urls\<close>, \<open>Endpoints\<close> and \<open>Packets\<close>: \<open>net/ParsedUrl.hpp\<close>, \<open>net/Endpoint.cpp\<close>, \<open>net/EndpointFilter.hpp\<close> and \<open>net/Pcap.ipp\<close>: URLs against
    their grammar, endpoints up to the arguments of \<open>getaddrinfo\<close>, the fields of captured packets against the frames they were sent as.
  \<^item> \<open>Jsons\<close>, \<open>JsonTrees\<close>, \<open>JsonTexts\<close>, \<open>JsonLists\<close> and \<open>JsonCompares\<close>: \<open>util/Json.hpp\<close>: a document is a vector of elements linked by addresses; \<open>rep\<close> relates it
    to a tree, and \<open>access\<close> says what a pointer to an element of it is good for. Assignment through paths, copies, getters, printing, removal of
    comments, \<open>push_back\<close>, \<open>erase\<close> and equality are those of trees. An exception is a left value, which leaves out the state that it leaves behind.

  \<^bold>\<open>Loops and bounds.\<close> Loops that are structural or have a measure are total functions. Loops that may not end are partial functions into
  \<open>option\<close>, where \<open>None\<close> is a run that never returns, and their theorems state that a result exists: \<open>mq_read_loop\<close> and \<open>mq_write_loop\<close>,
  \<open>dispatch_loop\<close>, \<open>hook_loop\<close>, the loops of the histogram's statistics and \<open>buckets_loop\<close>, \<open>rw_advance\<close>, \<open>substitute\<close>, \<open>parse_line_loop\<close>,
  \<open>mc_sections\<close>, \<open>cf_get\<close>, \<open>read_all\<close> and \<open>params_loop\<close>, \<open>gen_run\<close> and \<open>gen_loop\<close>, and the loops over the
  children of a JSON element. \<open>None\<close> of a plain function is undefined behaviour of C++. No fuel is used. Positions of the ring buffers are words and may wrap; those of the multi-threaded queue are natural numbers, which they reach 64 bits only after centuries of operation.

  \<^bold>\<open>Parameters.\<close> Code outside the repository or vendored in it is an argument: callbacks and the application, the clock, the kernel's
  answers, the environment, \<open>getaddrinfo\<close>, \<open>pcap_loop\<close> and \<open>http_parser\<close>. Hypotheses on them are stated in the theorems, with witnesses at concrete instances.

  \<^bold>\<open>Not modelled.\<close> Wrappers of system calls and of \<open>boost::asio\<close> addresses (\<open>net/Sock.hpp\<close>, \<open>io/File.hpp\<close> and the like), signals, processes
  and threads (\<open>sys/\<close>), stream output and formatting, square roots and quantiles of \<open>util/Math.hpp\<close>, traits of built-in types, the destruction of
  coroutines, moves of JSON elements between documents, and vendored code (\<open>contrib/\<close>): third-party parsers and containers, which are most of the
  repository's lines. The stream sockets and the client's HTTP connections do not compile and are left out; the client itself is modelled as written.
  Allocation failure is not modelled.
\<close>

end
